(* ===== verification/C_Prelude.thy ===== *)
theory C_Prelude imports Main "HOL-Library.Word" begin

text \<open>
  What the components share: the machine integer types, the error codes and the result type
  of fallible routines, little-endian reads from byte buffers with their bounds, C strings
  inside byte buffers, and the alignment macros.

  A routine of the source that fails returns a negative \<open>errno\<close> value; here it returns
  \<open>Inl (Err e)\<close>.  \<open>Inl UB\<close> stands for undefined behaviour of the C program (a read
  outside the buffer, a NULL dereference, a division by zero): a theorem that a routine never
  gives \<open>Inl UB\<close> is a memory-safety theorem.  \<open>Inl Hang\<close> stands for a loop that is still running when
  its fuel is used up.  Multi-byte fields are read in the byte order
  of a little-endian host.
\<close>

section \<open>Integers\<close>

unbundle bit_operations_syntax

type_synonym u8 = "8 word"
type_synonym u16 = "16 word"
type_synonym u32 = "32 word"
type_synonym u64 = "64 word"
type_synonym s32 = "32 word"

named_theorems res_simps \<open>equations for sequencing fallible routines\<close>
named_theorems buf_simps \<open>equations for reads from byte buffers\<close>

text \<open>An \<open>int\<close> holds the numbers below \<open>2 ^ 31\<close> in absolute value.\<close>

lemma sint32_id: "- (2 ^ 31) \<le> x \<Longrightarrow> x < 2 ^ 31 \<Longrightarrow> sint (word_of_int x :: s32) = x"
  by (simp add: signed_of_int signed_take_bit_int_eq_self)

section \<open>Errors\<close>

datatype errno =
    EPERM | ENOENT | E2BIG | EAGAIN | ENOMEM | EEXIST | EINVAL | ENOSPC | ERANGE
  | EMSGSIZE | ENOTSUP | EDOM | ESRCH | EIO | ECANCELED | EUCLEAN | EILSEQ | ELOOP

datatype fault = Err errno | UB | Hang

type_synonym 'a res = "fault + 'a"

definition bindr :: "'a res \<Rightarrow> ('a \<Rightarrow> 'b res) \<Rightarrow> 'b res" where
  "bindr m f = (case m of Inl e \<Rightarrow> Inl e | Inr x \<Rightarrow> f x)"

lemma bindr_Inl [simp, res_simps]: "bindr (Inl e) f = Inl e"
  by (simp add: bindr_def)

lemma bindr_Inr [simp, res_simps]: "bindr (Inr x) f = f x"
  by (simp add: bindr_def)

lemma bindr_assoc: "bindr (bindr m f) g = bindr m (\<lambda>x. bindr (f x) g)"
  by (cases m) simp_all

lemma bindr_eq_Inr: "bindr m f = Inr y \<longleftrightarrow> (\<exists>x. m = Inr x \<and> f x = Inr y)"
  by (cases m) auto

lemma bindr_eq_Inl: "bindr m f = Inl e \<longleftrightarrow> m = Inl e \<or> (\<exists>x. m = Inr x \<and> f x = Inl e)"
  by (cases m) auto

lemma bindr_split:
  "P (bindr m f) \<longleftrightarrow> (\<forall>e. m = Inl e \<longrightarrow> P (Inl e)) \<and> (\<forall>x. m = Inr x \<longrightarrow> P (f x))"
  by (cases m) auto

lemma bindr_split_asm:
  "P (bindr m f) \<longleftrightarrow> \<not> ((\<exists>e. m = Inl e \<and> \<not> P (Inl e)) \<or> (\<exists>x. m = Inr x \<and> \<not> P (f x)))"
  by (cases m) auto

lemma bindr_cong [fundef_cong]:
  "m = m' \<Longrightarrow> (\<And>x. m' = Inr x \<Longrightarrow> f x = f' x) \<Longrightarrow> bindr m f = bindr m' f'"
  by (cases m') auto

text \<open>A routine that is never undefined: the parts of a sequence are checked one by one.\<close>

named_theorems safe_intros \<open>introduction rules for defined results\<close>

definition no_ub :: "'a res \<Rightarrow> bool" where
  "no_ub r \<longleftrightarrow> r \<noteq> Inl UB"

lemma no_ub_simps [simp, safe_intros]: "no_ub (Inr x)" "no_ub (Inl (Err e))" "no_ub (Inl Hang)"
  by (simp_all add: no_ub_def)

lemma no_ub_bindI [safe_intros]:
  "no_ub m \<Longrightarrow> (\<And>x. m = Inr x \<Longrightarrow> no_ub (f x)) \<Longrightarrow> no_ub (bindr m f)"
  by (cases m) (auto simp: no_ub_def)

lemma no_ub_ifI [safe_intros]:
  "(b \<Longrightarrow> no_ub x) \<Longrightarrow> (\<not> b \<Longrightarrow> no_ub y) \<Longrightarrow> no_ub (if b then x else y)"
  by simp

text \<open>
  A routine that returns, without undefined behaviour and without end of fuel, and whose results all
  satisfy a predicate.
\<close>

definition returns :: "('a \<Rightarrow> bool) \<Rightarrow> 'a res \<Rightarrow> bool" where
  "returns P r \<longleftrightarrow> (case r of Inl e \<Rightarrow> e \<noteq> UB \<and> e \<noteq> Hang | Inr x \<Rightarrow> P x)"

lemma returns_simps [simp]: "returns P (Inr x) = P x" "returns P (Inl (Err e))"
  by (simp_all add: returns_def)

lemma returns_bind: "returns Q m \<Longrightarrow> (\<And>x. m = Inr x \<Longrightarrow> Q x \<Longrightarrow> returns P (f x)) \<Longrightarrow> returns P (bindr m f)"
  by (cases m) (auto simp: returns_def)

lemma returns_mono: "returns Q m \<Longrightarrow> (\<And>x. m = Inr x \<Longrightarrow> Q x \<Longrightarrow> P x) \<Longrightarrow> returns P m"
  by (cases m) (auto simp: returns_def)

lemma returns_Inr: "returns P m \<Longrightarrow> m = Inr x \<Longrightarrow> P x"
  by (simp add: returns_def)

lemma returns_no_ub: "returns P m \<Longrightarrow> no_ub m"
  by (cases m) (auto simp: returns_def no_ub_def)

text \<open>An access to an array outside of its bounds is undefined.\<close>

definition arr :: "'a list \<Rightarrow> nat \<Rightarrow> 'a res" where
  "arr xs i = (if i < length xs then Inr (xs ! i) else Inl UB)"

lemma arr_in [simp]: "i < length xs \<Longrightarrow> arr xs i = Inr (xs ! i)"
  by (simp add: arr_def)

lemma arr_eq_Inr: "arr xs i = Inr x \<longleftrightarrow> i < length xs \<and> x = xs ! i"
  by (auto simp: arr_def)

section \<open>Byte buffers\<close>

text \<open>\<open>le_nat\<close> reads a run of bytes as a little-endian number, \<open>le_bytes\<close> writes one.\<close>

fun le_nat :: "u8 list \<Rightarrow> nat" where
  "le_nat [] = 0"
| "le_nat (b # bs) = unat b + 256 * le_nat bs"

fun le_bytes :: "nat \<Rightarrow> nat \<Rightarrow> u8 list" where
  "le_bytes 0 x = []"
| "le_bytes (Suc n) x = word_of_nat x # le_bytes n (x div 256)"

lemma length_le_bytes [simp, buf_simps]: "length (le_bytes n x) = n"
  by (induction n arbitrary: x) auto

lemma le_bytes_numeral:
  "le_bytes (numeral k) x = word_of_nat x # le_bytes (pred_numeral k) (x div 256)"
  by (simp only: numeral_eq_Suc [of k] le_bytes.simps)

lemma unat_u8_less [simp]: "unat (b :: u8) < 256"
  using unsigned_less [of b, where ?'a = nat] by simp

lemma le_nat_bound: "le_nat bs < 256 ^ length bs"
proof (induction bs)
  case (Cons b bs)
  have "unat b + 256 * le_nat bs < 256 * Suc (le_nat bs)"
    using unat_u8_less [of b] by simp
  also have "\<dots> \<le> 256 * 256 ^ length bs"
    using Cons by (intro mult_le_mono2) simp
  finally show ?case by simp
qed simp

lemma le_nat_le_bytes: "le_nat (le_bytes n x) = x mod 256 ^ n"
proof (induction n arbitrary: x)
  case (Suc n)
  have "unat (word_of_nat x :: u8) = x mod 256"
    by (simp add: unat_of_nat)
  then show ?case
    by (simp add: Suc mod_mult2_eq)
qed simp

text \<open>A read of \<open>n\<close> bytes at an offset; a read that leaves the buffer is undefined.\<close>

definition rd :: "nat \<Rightarrow> u8 list \<Rightarrow> nat \<Rightarrow> nat res" where
  "rd n bs off = (if off + n \<le> length bs then Inr (le_nat (take n (drop off bs))) else Inl UB)"

abbreviation rd16 :: "u8 list \<Rightarrow> nat \<Rightarrow> nat res" where "rd16 \<equiv> rd 2"
abbreviation rd32 :: "u8 list \<Rightarrow> nat \<Rightarrow> nat res" where "rd32 \<equiv> rd 4"

lemma rd_in_bounds [buf_simps]:
  "off + n \<le> length bs \<Longrightarrow> rd n bs off = Inr (le_nat (take n (drop off bs)))"
  by (simp add: rd_def)

lemma rd_bound: "rd n bs off = Inr x \<Longrightarrow> x < 256 ^ n"
proof -
  assume r: "rd n bs off = Inr x"
  then have "length (take n (drop off bs)) = n" "x = le_nat (take n (drop off bs))"
    by (auto simp: rd_def split: if_splits)
  then show ?thesis
    using le_nat_bound [of "take n (drop off bs)"] by simp
qed

lemma rd16_bound: "rd16 bs off = Inr x \<Longrightarrow> x < 65536"
  using rd_bound [of 2 bs off x] by simp

lemma rd32_bound: "rd32 bs off = Inr x \<Longrightarrow> x < 4294967296"
  using rd_bound [of 4 bs off x] by simp

text \<open>Overwriting part of a buffer (\<open>memcpy\<close> into it).\<close>

definition put_bytes :: "nat \<Rightarrow> u8 list \<Rightarrow> u8 list \<Rightarrow> u8 list" where
  "put_bytes off xs bs = take off bs @ xs @ drop (off + length xs) bs"

lemma length_put_bytes [simp, buf_simps]:
  "off + length xs \<le> length bs \<Longrightarrow> length (put_bytes off xs bs) = length bs"
  by (simp add: put_bytes_def)

lemma put_bytes_same [buf_simps]:
  "off + length xs \<le> length bs \<Longrightarrow> take (length xs) (drop off (put_bytes off xs bs)) = xs"
  by (simp add: put_bytes_def)

lemma put_bytes_before [buf_simps]:
  "off + length xs \<le> length bs \<Longrightarrow> n \<le> off \<Longrightarrow> take n (put_bytes off xs bs) = take n bs"
  by (simp add: put_bytes_def min_def)

lemma nth_put_bytes:
  "off + length xs \<le> length bs \<Longrightarrow> i < length bs \<Longrightarrow>
   put_bytes off xs bs ! i = (if off \<le> i \<and> i < off + length xs then xs ! (i - off) else bs ! i)"
  by (auto simp: put_bytes_def nth_append min_def)

lemma nth_update_in: "i < length xs \<Longrightarrow> xs[h := c] ! i = (if i = h then c else xs ! i)"
  by (cases "i = h") auto

section \<open>C strings in a buffer\<close>

text \<open>The string that starts at an offset: the bytes up to the first NUL.\<close>

definition cstr_at :: "u8 list \<Rightarrow> nat \<Rightarrow> u8 list" where
  "cstr_at bs off = takeWhile (\<lambda>b. b \<noteq> 0) (drop off bs)"

text \<open>A NUL stands at or after the offset, before position \<open>lim\<close>.\<close>

definition terminated :: "u8 list \<Rightarrow> nat \<Rightarrow> nat \<Rightarrow> bool" where
  "terminated bs off lim \<longleftrightarrow> off + length (cstr_at bs off) < lim \<and> lim \<le> length bs"

lemma terminated_mono:
  "terminated bs off lim \<Longrightarrow> lim \<le> lim' \<Longrightarrow> lim' \<le> length bs \<Longrightarrow> terminated bs off lim'"
  by (simp add: terminated_def)

lemma cstr_at_no_nul: "0 \<notin> set (cstr_at bs off)"
  unfolding cstr_at_def using set_takeWhileD by fastforce

lemma takeWhile_shorter: "\<exists>x \<in> set xs. \<not> P x \<Longrightarrow> length (takeWhile P xs) < length xs"
  by (induction xs) auto

lemma takeWhile_eq_prefix:
  "take n xs = take n ys \<Longrightarrow> length (takeWhile P xs) < n \<Longrightarrow> takeWhile P ys = takeWhile P xs"
proof (induction n arbitrary: xs ys)
  case (Suc n)
  show ?case
  proof (cases xs)
    case Nil
    with Suc.prems show ?thesis by (cases ys) auto
  next
    case (Cons x xs')
    then obtain ys' where "ys = x # ys'" "take n xs' = take n ys'"
      using Suc.prems(1) by (cases ys) auto
    with Cons show ?thesis using Suc.IH [of xs' ys'] Suc.prems(2) by auto
  qed
qed simp

lemma cstr_at_cong:
  assumes t: "terminated bs off lim" and eq: "take lim bs' = take lim bs"
  shows "cstr_at bs' off = cstr_at bs off"
proof -
  have "take (lim - off) (drop off bs) = take (lim - off) (drop off bs')"
    using eq by (metis drop_take)
  moreover have "length (takeWhile (\<lambda>b. b \<noteq> 0) (drop off bs)) < lim - off"
    using t by (simp add: terminated_def cstr_at_def less_diff_conv add.commute)
  ultimately show ?thesis
    unfolding cstr_at_def by (rule takeWhile_eq_prefix)
qed

lemma cstr_at_append_nul:
  "0 \<notin> set s \<Longrightarrow> length pre = off \<Longrightarrow> cstr_at (pre @ s @ 0 # post) off = s"
proof -
  assume "0 \<notin> set s" "length pre = off"
  then have "takeWhile (\<lambda>b. b \<noteq> 0) (s @ 0 # post) = s @ takeWhile (\<lambda>b. b \<noteq> 0) (0 # post)"
    by (intro takeWhile_append2) auto
  with \<open>length pre = off\<close> show ?thesis by (simp add: cstr_at_def)
qed

section \<open>Alignment\<close>

text \<open>\<open>(n + a - 1) & ~(a - 1)\<close> for \<open>a\<close> a power of two.\<close>

definition align4 :: "nat \<Rightarrow> nat" where
  "align4 n = (n + 3) div 4 * 4"

lemma align4_ge: "n \<le> align4 n"
  unfolding align4_def by presburger

lemma align4_less: "align4 n < n + 4"
  unfolding align4_def by presburger

lemma align4_dvd [simp]: "4 dvd align4 n"
  by (simp add: align4_def)

lemma align4_id [simp]: "4 dvd n \<Longrightarrow> align4 n = n"
  unfolding align4_def by presburger

end
