(* ===== verification/Hashmap.thy ===== *)
theory Hashmap imports C_Prelude "HOL-Library.Multiset" begin

text \<open>
  The generic hash map of libbpf (\<open>bpf/libbpf/src/hashmap.c\<close>, \<open>hashmap.h\<close>): chained buckets,
  multiplicative hashing of the user's hash, growth at three quarters of the capacity and the
  four insertion strategies.  A chain is a list (head first), \<open>buckets = []\<close> is the NULL bucket
  array.  The hash and equality callbacks take the object behind \<open>map->ctx\<close>, which is an
  argument of every operation: the callbacks see its contents at the time of the call.
  The outcomes of \<open>malloc\<close> and \<open>calloc\<close> are boolean arguments.  Sizes and capacities count
  heap objects, so they are \<open>nat\<close>; keys, values and hashes keep their 64 bits.
\<close>

section \<open>Hash functions\<close>

definition hash_bits :: "u64 \<Rightarrow> nat \<Rightarrow> u64" where
  "hash_bits h bits =
     (if bits = 0 then 0 else drop_bit (64 - bits) (h * 11400714819323198485))"

text \<open>\<open>char\<close> is signed on the modelled target, so a byte is sign-extended before it is added.\<close>

definition str_hash :: "u8 list \<Rightarrow> u64" where
  "str_hash s = fold (\<lambda>c h. h * 31 + scast c) s 0"

section \<open>State\<close>

record hashmap_entry =
  entry_key :: u64
  entry_value :: u64

record 'c hashmap =
  hash_fn :: "u64 \<Rightarrow> 'c \<Rightarrow> u64"
  equal_fn :: "u64 \<Rightarrow> u64 \<Rightarrow> 'c \<Rightarrow> bool"
  buckets :: "hashmap_entry list list"
  cap :: nat
  cap_bits :: nat
  sz :: nat

datatype hashmap_insert_strategy =
  HASHMAP_ADD | HASHMAP_SET | HASHMAP_UPDATE | HASHMAP_APPEND

section \<open>Operations\<close>

definition hashmap_add_entry :: "hashmap_entry \<Rightarrow> hashmap_entry list \<Rightarrow> hashmap_entry list" where
  "hashmap_add_entry entry chain = entry # chain"

text \<open>\<open>pprev\<close> is the link that points at the entry: its position in the chain.\<close>

definition hashmap_del_entry :: "nat \<Rightarrow> hashmap_entry list \<Rightarrow> hashmap_entry list" where
  "hashmap_del_entry pprev chain = take pprev chain @ drop (Suc pprev) chain"

definition hashmap__init ::
  "(u64 \<Rightarrow> 'c \<Rightarrow> u64) \<Rightarrow> (u64 \<Rightarrow> u64 \<Rightarrow> 'c \<Rightarrow> bool) \<Rightarrow> 'c hashmap" where
  "hashmap__init hf eqf =
     \<lparr>hash_fn = hf, equal_fn = eqf, buckets = [], cap = 0, cap_bits = 0, sz = 0\<rparr>"

definition hashmap__new ::
  "bool \<Rightarrow> (u64 \<Rightarrow> 'c \<Rightarrow> u64) \<Rightarrow> (u64 \<Rightarrow> u64 \<Rightarrow> 'c \<Rightarrow> bool) \<Rightarrow> errno + 'c hashmap" where
  "hashmap__new malloc_ok hf eqf =
     (if \<not> malloc_ok then Inl ENOMEM else Inr (hashmap__init hf eqf))"

definition hashmap__clear :: "'c hashmap \<Rightarrow> 'c hashmap" where
  "hashmap__clear m = m\<lparr>buckets := [], cap := 0, cap_bits := 0, sz := 0\<rparr>"

definition hashmap__size :: "'c hashmap \<Rightarrow> nat" where
  "hashmap__size m = sz m"

definition hashmap__capacity :: "'c hashmap \<Rightarrow> nat" where
  "hashmap__capacity m = cap m"

text \<open>The entries in the order of \<open>hashmap__for_each_entry\<close>.\<close>

definition hashmap_entries :: "'c hashmap \<Rightarrow> hashmap_entry list" where
  "hashmap_entries m = concat (buckets m)"

definition hashmap_needs_to_grow :: "'c hashmap \<Rightarrow> bool" where
  "hashmap_needs_to_grow m \<longleftrightarrow> cap m = 0 \<or> (sz m + 1) * 4 div 3 > cap m"

text \<open>The relinking loop of \<open>hashmap_grow\<close>.\<close>

fun rehash :: "(u64 \<Rightarrow> 'c \<Rightarrow> u64) \<Rightarrow> 'c \<Rightarrow> nat \<Rightarrow> hashmap_entry list \<Rightarrow>
    hashmap_entry list list \<Rightarrow> hashmap_entry list list" where
  "rehash hf ctx bits [] new_buckets = new_buckets"
| "rehash hf ctx bits (cur # rest) new_buckets =
     (let h = unat (hash_bits (hf (entry_key cur) ctx) bits)
      in rehash hf ctx bits rest
           (new_buckets[h := hashmap_add_entry cur (new_buckets ! h)]))"

definition hashmap_grow :: "bool \<Rightarrow> 'c \<Rightarrow> 'c hashmap \<Rightarrow> errno + 'c hashmap" where
  "hashmap_grow calloc_ok ctx m =
     (let new_cap_bits = (if cap_bits m + 1 < 2 then 2 else cap_bits m + 1);
          new_cap = 2 ^ new_cap_bits
      in if \<not> calloc_ok \<or> new_cap * 8 \<ge> 2 ^ 64 then Inl ENOMEM
         else Inr (m\<lparr>buckets := rehash (hash_fn m) ctx new_cap_bits (hashmap_entries m)
                                  (replicate new_cap []),
                       cap := new_cap, cap_bits := new_cap_bits\<rparr>))"

text \<open>The chain walk of \<open>hashmap_find_entry\<close>: the position of the first match.\<close>

fun chain_find :: "(u64 \<Rightarrow> bool) \<Rightarrow> hashmap_entry list \<Rightarrow> nat option" where
  "chain_find p [] = None"
| "chain_find p (cur # rest) =
     (if p (entry_key cur) then Some 0 else map_option Suc (chain_find p rest))"

definition hashmap_find_entry :: "'c \<Rightarrow> 'c hashmap \<Rightarrow> u64 \<Rightarrow> nat \<Rightarrow> nat option" where
  "hashmap_find_entry ctx m key h =
     (if buckets m = [] then None
      else chain_find (\<lambda>cur_key. equal_fn m cur_key key ctx) (buckets m ! h))"

definition bucket_of :: "'c \<Rightarrow> 'c hashmap \<Rightarrow> u64 \<Rightarrow> nat" where
  "bucket_of ctx m key = unat (hash_bits (hash_fn m key ctx) (cap_bits m))"

text \<open>
  The result: the return code (\<open>None\<close> for 0), the map, and the values stored through
  \<open>old_key\<close> and \<open>old_value\<close>.
\<close>

definition hashmap_insert :: "bool \<Rightarrow> bool \<Rightarrow> 'c \<Rightarrow> 'c hashmap \<Rightarrow> u64 \<Rightarrow> u64 \<Rightarrow>
    hashmap_insert_strategy \<Rightarrow> errno option \<times> 'c hashmap \<times> u64 \<times> u64" where
  "hashmap_insert calloc_ok malloc_ok ctx m key val strategy =
     (let h = bucket_of ctx m key in
      case (if strategy \<noteq> HASHMAP_APPEND then hashmap_find_entry ctx m key h else None) of
        Some pos \<Rightarrow>
          (let entry = buckets m ! h ! pos in
           if strategy = HASHMAP_SET \<or> strategy = HASHMAP_UPDATE
           then (None,
                 m\<lparr>buckets := (buckets m)[h := (buckets m ! h)
                       [pos := \<lparr>entry_key = key, entry_value = val\<rparr>]]\<rparr>,
                 entry_key entry, entry_value entry)
           else (Some EEXIST, m, entry_key entry, entry_value entry))
      | None \<Rightarrow>
          if strategy = HASHMAP_UPDATE then (Some ENOENT, m, 0, 0)
          else
            (case (if hashmap_needs_to_grow m then hashmap_grow calloc_ok ctx m else Inr m) of
               Inl err \<Rightarrow> (Some err, m, 0, 0)
             | Inr m' \<Rightarrow>
                 if \<not> malloc_ok then (Some ENOMEM, m', 0, 0)
                 else
                   (let h' = bucket_of ctx m' key in
                    (None,
                     m'\<lparr>buckets := (buckets m')[h' := hashmap_add_entry
                            \<lparr>entry_key = key, entry_value = val\<rparr> (buckets m' ! h')],
                          sz := sz m' + 1\<rparr>,
                     0, 0))))"

definition hashmap_find :: "'c \<Rightarrow> 'c hashmap \<Rightarrow> u64 \<Rightarrow> u64 option" where
  "hashmap_find ctx m key =
     (let h = bucket_of ctx m key in
      case hashmap_find_entry ctx m key h of
        None \<Rightarrow> None
      | Some pos \<Rightarrow> Some (entry_value (buckets m ! h ! pos)))"

text \<open>\<open>None\<close> for \<open>false\<close>, else the map and the key and value of the removed entry.\<close>

definition hashmap_delete ::
  "'c \<Rightarrow> 'c hashmap \<Rightarrow> u64 \<Rightarrow> ('c hashmap \<times> u64 \<times> u64) option" where
  "hashmap_delete ctx m key =
     (let h = bucket_of ctx m key in
      case hashmap_find_entry ctx m key h of
        None \<Rightarrow> None
      | Some pprev \<Rightarrow>
          (let entry = buckets m ! h ! pprev in
           Some (m\<lparr>buckets := (buckets m)[h := hashmap_del_entry pprev (buckets m ! h)],
                     sz := sz m - 1\<rparr>,
                 entry_key entry, entry_value entry)))"

text \<open>The entries visited by \<open>hashmap__for_each_key_entry\<close>, in its order.\<close>

definition hashmap_key_entries :: "'c \<Rightarrow> 'c hashmap \<Rightarrow> u64 \<Rightarrow> hashmap_entry list" where
  "hashmap_key_entries ctx m key =
     (if buckets m = [] then []
      else filter (\<lambda>cur. equal_fn m (entry_key cur) key ctx)
             (buckets m ! bucket_of ctx m key))"

section \<open>Invariant\<close>

text \<open>
  Every entry sits in the bucket its key hashes to, the capacity is the power of two that
  \<open>cap_bits\<close> names, \<open>sz\<close> counts the entries and at most three quarters of the capacity
  is used.
\<close>

definition hm_placed :: "'c \<Rightarrow> 'c hashmap \<Rightarrow> bool" where
  "hm_placed ctx m \<longleftrightarrow>
     (\<forall>i < length (buckets m). \<forall>e \<in> set (buckets m ! i). bucket_of ctx m (entry_key e) = i)"

definition hm_shape :: "'c hashmap \<Rightarrow> bool" where
  "hm_shape m \<longleftrightarrow>
     length (buckets m) = cap m \<and> sz m = length (hashmap_entries m) \<and>
     (if cap m = 0 then cap_bits m = 0
      else cap m = 2 ^ cap_bits m \<and> 2 \<le> cap_bits m \<and> cap_bits m \<le> 60) \<and>
     sz m * 4 div 3 \<le> cap m"

definition hm_wf :: "'c \<Rightarrow> 'c hashmap \<Rightarrow> bool" where
  "hm_wf ctx m \<longleftrightarrow> hm_shape m \<and> hm_placed ctx m"

text \<open>No key is stored twice: what every strategy but APPEND maintains.\<close>

definition hm_unique :: "'c \<Rightarrow> 'c hashmap \<Rightarrow> bool" where
  "hm_unique ctx m \<longleftrightarrow>
     (\<forall>key. length (filter (\<lambda>e. equal_fn m (entry_key e) key ctx) (hashmap_entries m)) \<le> 1)"

text \<open>The abstract map: the value of the first entry, over all buckets, that matches.\<close>

definition hm_get :: "'c \<Rightarrow> 'c hashmap \<Rightarrow> u64 \<Rightarrow> u64 option" where
  "hm_get ctx m key =
     map_option entry_value
       (List.find (\<lambda>e. equal_fn m (entry_key e) key ctx) (hashmap_entries m))"


section \<open>Bucket indices are in range\<close>

lemma unat_drop_bit_less:
  assumes "0 < n" "n \<le> 64"
  shows "unat (drop_bit (64 - n) (w :: u64)) < 2 ^ n"
proof -
  have "unat w < 2 ^ (64 - n) * 2 ^ n"
    using unsigned_less [of w, where ?'a = nat] assms by (simp flip: power_add)
  then have "unat w div 2 ^ (64 - n) < 2 ^ n"
    by (simp add: less_mult_imp_div_less mult.commute)
  then show ?thesis by (metis unat_drop_bit_eq drop_bit_eq_div)
qed

lemma hash_bits_less: "bits \<le> 64 \<Longrightarrow> unat (hash_bits h bits) < 2 ^ bits"
  by (simp add: hash_bits_def unat_drop_bit_less)

lemma bucket_of_less:
  assumes "hm_shape m" "buckets m \<noteq> []"
  shows "bucket_of ctx m key < length (buckets m)"
  using assms hash_bits_less [of "cap_bits m" "hash_fn m key ctx"]
  by (auto simp: hm_shape_def bucket_of_def split: if_splits)

lemma hm_shape_nonempty: "hm_shape m \<Longrightarrow> buckets m = [] \<longleftrightarrow> cap m = 0"
  by (auto simp: hm_shape_def)

section \<open>Chains and buckets\<close>

lemma chain_find_Some:
  "chain_find p chain = Some pos \<Longrightarrow> pos < length chain \<and> p (entry_key (chain ! pos))"
  by (induction chain arbitrary: pos) (auto split: if_splits)

lemma chain_find_None: "chain_find p chain = None \<longleftrightarrow> (\<forall>e \<in> set chain. \<not> p (entry_key e))"
  by (induction chain) auto

lemma chain_find_find:
  "map_option (\<lambda>pos. chain ! pos) (chain_find p chain) = List.find (\<lambda>e. p (entry_key e)) chain"
  by (induction chain) (auto simp: option.map_comp comp_def)

lemma mset_concat_update:
  "i < length bs \<Longrightarrow> mset (concat (bs[i := c])) + mset (bs ! i) = mset (concat bs) + mset c"
proof (induction bs arbitrary: i)
  case (Cons b bs)
  then show ?case by (cases i) (auto simp: ac_simps)
qed simp

lemma mset_swap:
  assumes "D + {#x#} = add_mset e B" "A + B = C + D"
  shows "A + {#x#} = add_mset e C"
proof -
  have "(A + {#x#}) + B = C + (D + {#x#})" using assms(2) by (simp add: ac_simps)
  also have "\<dots> = add_mset e C + B" using assms(1) by (simp add: ac_simps)
  finally show ?thesis by (rule add_right_imp_eq)
qed

text \<open>A list with at most one match has the same first match in any order.\<close>

lemma find_filter: "List.find P xs = (case filter P xs of [] \<Rightarrow> None | x # _ \<Rightarrow> Some x)"
  by (induction xs) auto

lemma find_mset_cong:
  assumes "mset xs = mset ys" "length (filter P xs) \<le> 1"
  shows "List.find P xs = List.find P ys"
proof -
  have eq: "mset (filter P xs) = mset (filter P ys)"
    using assms(1) by (simp add: mset_filter)
  then have "length (filter P ys) \<le> 1"
    using assms(2) by (metis size_mset)
  with assms(2) eq have "filter P xs = filter P ys"
    by (cases "filter P xs"; cases "filter P ys") auto
  then show ?thesis by (simp add: find_filter)
qed

lemma find_eq_Some_iff:
  assumes "length (filter P xs) \<le> 1"
  shows "List.find P xs = Some x \<longleftrightarrow> x \<in> set xs \<and> P x"
proof
  assume "List.find P xs = Some x"
  then show "x \<in> set xs \<and> P x"
    by (auto simp: find_Some_iff)
next
  assume "x \<in> set xs \<and> P x"
  then have "x \<in> set (filter P xs)" by simp
  with assms have "filter P xs = [x]"
    by (cases "filter P xs") auto
  then show "List.find P xs = Some x" by (simp add: find_filter)
qed

section \<open>Growth\<close>

lemma length_rehash [simp]: "length (rehash hf ctx bits es bs) = length bs"
  by (induction es arbitrary: bs) (auto simp: Let_def)

lemma rehash_mset:
  assumes "bits \<le> 64" "length bs = 2 ^ bits"
  shows "mset (concat (rehash hf ctx bits es bs)) = mset es + mset (concat bs)"
  using assms(2)
proof (induction es arbitrary: bs)
  case (Cons cur rest)
  define h where "h = unat (hash_bits (hf (entry_key cur) ctx) bits)"
  have h: "h < length bs"
    using hash_bits_less [OF assms(1)] Cons.prems by (simp add: h_def)
  have "mset (concat (bs[h := cur # bs ! h])) = add_mset cur (mset (concat bs))"
    using mset_concat_update [OF h, of "cur # bs ! h"] by simp
  with Cons show ?case
    by (simp add: Let_def hashmap_add_entry_def flip: h_def)
qed simp

lemma rehash_placed:
  assumes "\<forall>i < length bs. \<forall>e \<in> set (bs ! i). unat (hash_bits (hf (entry_key e) ctx) bits) = i"
  shows "\<forall>i < length bs. \<forall>e \<in> set (rehash hf ctx bits es bs ! i).
           unat (hash_bits (hf (entry_key e) ctx) bits) = i"
  using assms
proof (induction es arbitrary: bs)
  case (Cons cur rest)
  define h where "h = unat (hash_bits (hf (entry_key cur) ctx) bits)"
  have "\<forall>i < length (bs[h := cur # bs ! h]). \<forall>e \<in> set (bs[h := cur # bs ! h] ! i).
          unat (hash_bits (hf (entry_key e) ctx) bits) = i"
  proof (intro allI impI ballI)
    fix i e assume "i < length (bs[h := cur # bs ! h])" "e \<in> set (bs[h := cur # bs ! h] ! i)"
    then show "unat (hash_bits (hf (entry_key e) ctx) bits) = i"
      using Cons.prems by (cases "i = h") (auto simp: h_def)
  qed
  from Cons.IH [OF this] show ?case
    by (simp add: Let_def hashmap_add_entry_def flip: h_def)
qed simp

lemma hashmap_grow_facts:
  assumes wf: "hm_shape m" and g: "hashmap_grow ok ctx m = Inr m'"
  shows "mset (hashmap_entries m') = mset (hashmap_entries m)"
    and "hash_fn m' = hash_fn m" "equal_fn m' = equal_fn m" "sz m' = sz m"
    and "cap m' = (if cap m = 0 then 4 else 2 * cap m)"
    and "length (buckets m') = cap m'" "cap m' = 2 ^ cap_bits m'"
    and "2 \<le> cap_bits m'" "cap_bits m' \<le> 60"
    and "hm_placed ctx m'"
proof -
  define nb where "nb = (if cap_bits m + 1 < 2 then 2 else cap_bits m + 1)"
  have m': "m' = m\<lparr>buckets := rehash (hash_fn m) ctx nb (hashmap_entries m) (replicate (2 ^ nb) []),
                  cap := 2 ^ nb, cap_bits := nb\<rparr>"
    and lt: "(2::nat) ^ nb * 8 < 2 ^ 64"
    using g by (auto simp: hashmap_grow_def Let_def nb_def split: if_splits)
  have "(2::nat) ^ (nb + 3) < 2 ^ 64" using lt by (simp add: power_add)
  then have nb: "nb \<le> 60" using power_less_imp_less_exp [of "2::nat" "nb + 3" 64] by simp
  have entries: "mset (hashmap_entries m') = mset (hashmap_entries m)"
    using rehash_mset [of nb "replicate (2 ^ nb) []" "hash_fn m" ctx "hashmap_entries m"] nb
    by (simp add: m' hashmap_entries_def [of "hashmap.buckets_update _ _"] hashmap_entries_def)
  show "mset (hashmap_entries m') = mset (hashmap_entries m)" by (rule entries)
  show "hash_fn m' = hash_fn m" "equal_fn m' = equal_fn m" "sz m' = sz m"
    "length (buckets m') = cap m'" "cap m' = 2 ^ cap_bits m'"
    by (auto simp: m')
  show "2 \<le> cap_bits m'" "cap_bits m' \<le> 60" using nb by (auto simp: m' nb_def)
  show "cap m' = (if cap m = 0 then 4 else 2 * cap m)"
    using wf by (auto simp: m' nb_def hm_shape_def)
  show "hm_placed ctx m'"
    using rehash_placed [of "replicate (2 ^ nb) []" "hash_fn m" ctx nb "hashmap_entries m"]
    by (auto simp: hm_placed_def m' bucket_of_def)
qed


lemma hashmap_grow_shape:
  assumes wf: "hm_shape m" and g: "hashmap_grow ok ctx m = Inr m'"
  shows "hm_shape m'"
proof -
  note f = hashmap_grow_facts [OF assms]
  have "length (hashmap_entries m') = length (hashmap_entries m)"
    using f(1) by (metis size_mset)
  with f wf show ?thesis
    by (auto simp: hm_shape_def split: if_splits)
qed

section \<open>The invariant is kept\<close>

lemma hm_wf_init [simp]: "hm_wf ctx (hashmap__init hf eqf)"
  by (simp add: hm_wf_def hm_shape_def hm_placed_def hashmap__init_def hashmap_entries_def)

lemma hm_wf_clear [simp]: "hm_wf ctx (hashmap__clear m)"
  by (simp add: hm_wf_def hm_shape_def hm_placed_def hashmap__clear_def hashmap_entries_def)

text \<open>The state just before an entry is linked: large enough and well placed.\<close>

lemma make_room:
  assumes wf: "hm_wf ctx m"
    and g: "(if hashmap_needs_to_grow m then hashmap_grow ok ctx m else Inr m) = Inr m'"
  shows "hm_wf ctx m'" "cap m' \<noteq> 0" "(sz m' + 1) * 4 div 3 \<le> cap m'"
    and "mset (hashmap_entries m') = mset (hashmap_entries m)"
    and "hash_fn m' = hash_fn m" "equal_fn m' = equal_fn m" "sz m' = sz m"
proof -
  have all: "hm_wf ctx m' \<and> cap m' \<noteq> 0 \<and> (sz m' + 1) * 4 div 3 \<le> cap m' \<and>
     mset (hashmap_entries m') = mset (hashmap_entries m) \<and>
     hash_fn m' = hash_fn m \<and> equal_fn m' = equal_fn m \<and> sz m' = sz m"
  proof (cases "hashmap_needs_to_grow m")
    case True
    with g have g': "hashmap_grow ok ctx m = Inr m'" by simp
    have shape: "hm_shape m" using wf by (simp add: hm_wf_def)
    note f = hashmap_grow_facts [OF shape g']
    have "sz m * 4 div 3 \<le> cap m" using shape unfolding hm_shape_def by blast
    moreover have "cap m = 0 \<or> 4 \<le> cap m"
    proof (cases "cap m = 0")
      case False
      then have "cap m = 2 ^ cap_bits m" "2 \<le> cap_bits m"
        using shape by (auto simp: hm_shape_def)
      then show ?thesis
        using power_increasing [of 2 "cap_bits m" "2::nat"] by simp
    qed simp
    ultimately have "(sz m' + 1) * 4 div 3 \<le> cap m'"
      using f(4,5) by (auto split: if_splits)
    moreover have "cap m' \<noteq> 0" using f(5) by (auto split: if_splits)
    ultimately show ?thesis
      using f hashmap_grow_shape [OF shape g'] by (simp add: hm_wf_def)
  next
    case False
    with g wf show ?thesis by (auto simp: hashmap_needs_to_grow_def)
  qed
  then show "hm_wf ctx m'" "cap m' \<noteq> 0" "(sz m' + 1) * 4 div 3 \<le> cap m'"
    "mset (hashmap_entries m') = mset (hashmap_entries m)"
    "hash_fn m' = hash_fn m" "equal_fn m' = equal_fn m" "sz m' = sz m"
    by blast+
qed

lemma hm_placed_update:
  assumes "hm_placed ctx m" "\<forall>e \<in> set c. bucket_of ctx m (entry_key e) = h"
  shows "hm_placed ctx (m\<lparr>buckets := (buckets m)[h := c]\<rparr>)"
  using assms by (auto simp: hm_placed_def bucket_of_def nth_update_in split: if_splits)

lemma hm_placed_sz [simp]: "hm_placed ctx (m\<lparr>sz := n\<rparr>) = hm_placed ctx m"
  by (simp add: hm_placed_def bucket_of_def)

text \<open>Linking a new entry, and what it does to the bag of entries.\<close>

lemma link_entry:
  assumes wf: "hm_wf ctx m" and room: "cap m \<noteq> 0" "(sz m + 1) * 4 div 3 \<le> cap m"
    and h: "h = bucket_of ctx m (entry_key e)"
    and m': "m' = m\<lparr>buckets := (buckets m)[h := hashmap_add_entry e (buckets m ! h)],
                    sz := sz m + 1\<rparr>"
  shows "hm_wf ctx m'" "mset (hashmap_entries m') = add_mset e (mset (hashmap_entries m))"
proof -
  have shape: "hm_shape m" and placed: "hm_placed ctx m" using wf by (auto simp: hm_wf_def)
  have h_lt: "h < length (buckets m)"
    using bucket_of_less [OF shape] room(1) shape by (auto simp: h hm_shape_nonempty)
  show mset: "mset (hashmap_entries m') = add_mset e (mset (hashmap_entries m))"
    using mset_concat_update [OF h_lt, of "e # buckets m ! h"]
    by (simp add: m' hashmap_entries_def hashmap_add_entry_def)
  then have "length (hashmap_entries m') = Suc (length (hashmap_entries m))"
    by (metis size_add_mset size_mset)
  then have "hm_shape m'"
    using shape room unfolding hm_shape_def by (simp add: m')
  moreover have "hm_placed ctx m'"
  proof -
    have "\<forall>x \<in> set (e # buckets m ! h). bucket_of ctx m (entry_key x) = h"
      using placed h h_lt by (auto simp: hm_placed_def)
    from hm_placed_update [OF placed this]
    show ?thesis by (simp add: m' hashmap_add_entry_def)
  qed
  ultimately show "hm_wf ctx m'" by (simp add: hm_wf_def)
qed


lemma hm_wf_hash_bucket:
  assumes "hm_wf ctx m" "hashmap_find_entry ctx m key h = Some pos" "h = bucket_of ctx m key"
  shows "h < length (buckets m)" "pos < length (buckets m ! h)"
    and "equal_fn m (entry_key (buckets m ! h ! pos)) key ctx"
    and "buckets m ! h ! pos \<in> set (hashmap_entries m)"
proof -
  have ne: "buckets m \<noteq> []" and cf: "chain_find (\<lambda>k. equal_fn m k key ctx) (buckets m ! h) = Some pos"
    using assms(2) by (auto simp: hashmap_find_entry_def split: if_splits)
  show h: "h < length (buckets m)"
    using bucket_of_less [OF _ ne] assms by (simp add: hm_wf_def)
  show "pos < length (buckets m ! h)" "equal_fn m (entry_key (buckets m ! h ! pos)) key ctx"
    using chain_find_Some [OF cf] by auto
  with h show "buckets m ! h ! pos \<in> set (hashmap_entries m)"
    by (auto simp: hashmap_entries_def intro: nth_mem)
qed

text \<open>Overwriting the entry found, as SET and UPDATE do.\<close>

lemma overwrite_entry:
  assumes wf: "hm_wf ctx m" and h: "h = bucket_of ctx m (entry_key e)"
    and pos: "h < length (buckets m)" "pos < length (buckets m ! h)"
    and m': "m' = m\<lparr>buckets := (buckets m)[h := (buckets m ! h)[pos := e]]\<rparr>"
  shows "hm_wf ctx m'"
    and "mset (hashmap_entries m') + {#buckets m ! h ! pos#} = add_mset e (mset (hashmap_entries m))"
proof -
  have shape: "hm_shape m" and placed: "hm_placed ctx m" using wf by (auto simp: hm_wf_def)
  have upd: "mset ((buckets m ! h)[pos := e]) + {#buckets m ! h ! pos#} = add_mset e (mset (buckets m ! h))"
    using pos(2) by (simp add: mset_update)
  have "mset (hashmap_entries m') + mset (buckets m ! h) =
        mset (hashmap_entries m) + mset ((buckets m ! h)[pos := e])"
    using mset_concat_update [OF pos(1)] by (simp add: m' hashmap_entries_def)
  with upd show "mset (hashmap_entries m') + {#buckets m ! h ! pos#} = add_mset e (mset (hashmap_entries m))"
    by (rule mset_swap)
  then have "length (hashmap_entries m') = length (hashmap_entries m)"
    by (metis Suc_inject add_mset_add_single size_add_mset size_mset)
  then have "hm_shape m'"
    using shape unfolding hm_shape_def by (auto simp: m')
  moreover have "\<forall>x \<in> set ((buckets m ! h)[pos := e]). bucket_of ctx m (entry_key x) = h"
    using placed pos h by (auto simp: hm_placed_def dest!: subsetD [OF set_update_subset_insert])
  then have "hm_placed ctx m'"
    using hm_placed_update [OF placed] by (simp add: m')
  ultimately show "hm_wf ctx m'" by (simp add: hm_wf_def)
qed

lemma unlink_entry:
  assumes wf: "hm_wf ctx m" and pos: "h < length (buckets m)" "pos < length (buckets m ! h)"
    and m': "m' = m\<lparr>buckets := (buckets m)[h := hashmap_del_entry pos (buckets m ! h)], sz := sz m - 1\<rparr>"
  shows "hm_wf ctx m'"
    and "add_mset (buckets m ! h ! pos) (mset (hashmap_entries m')) = mset (hashmap_entries m)"
proof -
  have shape: "hm_shape m" and placed: "hm_placed ctx m" using wf by (auto simp: hm_wf_def)
  have chain: "buckets m ! h = take pos (buckets m ! h) @ buckets m ! h ! pos # drop (Suc pos) (buckets m ! h)"
    using pos(2) by (rule id_take_nth_drop)
  have del: "mset (buckets m ! h) = add_mset (buckets m ! h ! pos) (mset (hashmap_del_entry pos (buckets m ! h)))"
    by (subst chain) (simp add: hashmap_del_entry_def)
  have "mset (hashmap_entries m') + mset (buckets m ! h) =
        mset (hashmap_entries m) + mset (hashmap_del_entry pos (buckets m ! h))"
    using mset_concat_update [OF pos(1)] by (simp add: m' hashmap_entries_def)
  with del show mset: "add_mset (buckets m ! h ! pos) (mset (hashmap_entries m')) = mset (hashmap_entries m)"
    by (metis (no_types, lifting) add_right_cancel union_mset_add_mset_left union_mset_add_mset_right)
  then have "Suc (length (hashmap_entries m')) = length (hashmap_entries m)"
    by (metis size_add_mset size_mset)
  then have "length (hashmap_entries m') = length (hashmap_entries m) - 1" by simp
  moreover have "(sz m - 1) * 4 div 3 \<le> cap m"
  proof -
    have "(sz m - 1) * 4 div 3 \<le> sz m * 4 div 3"
      by (intro div_le_mono mult_le_mono1) simp
    also have "\<dots> \<le> cap m" using shape unfolding hm_shape_def by blast
    finally show ?thesis .
  qed
  ultimately have "hm_shape m'"
    using shape unfolding hm_shape_def by (simp add: m')
  moreover have "set (hashmap_del_entry pos (buckets m ! h)) \<subseteq> set (buckets m ! h)"
    by (auto simp: hashmap_del_entry_def dest: in_set_takeD in_set_dropD)
  then have "\<forall>x \<in> set (hashmap_del_entry pos (buckets m ! h)). bucket_of ctx m (entry_key x) = h"
    using placed pos by (auto simp: hm_placed_def)
  then have "hm_placed ctx m'"
    using hm_placed_update [OF placed] by (simp add: m')
  ultimately show "hm_wf ctx m'" by (simp add: hm_wf_def)
qed


text \<open>What a successful insertion does to the bag of entries and to the invariant.\<close>

lemma insert_cases:
  assumes m: "hm_wf ctx m"
    and ins: "hashmap_insert ok1 ok2 ctx m key val strategy = (None, m', okey, oval)"
  obtains
    (overwrite) old where "old \<in> set (hashmap_entries m)" "equal_fn m (entry_key old) key ctx"
      "strategy = HASHMAP_SET \<or> strategy = HASHMAP_UPDATE"
      "okey = entry_key old" "oval = entry_value old" "sz m' = sz m"
      "hm_wf ctx m'" "hash_fn m' = hash_fn m" "equal_fn m' = equal_fn m"
      "mset (hashmap_entries m') + {#old#} =
       add_mset \<lparr>entry_key = key, entry_value = val\<rparr> (mset (hashmap_entries m))"
  | (link) "strategy = HASHMAP_APPEND \<or>
        hashmap_find_entry ctx m key (bucket_of ctx m key) = None \<and> strategy \<noteq> HASHMAP_UPDATE"
      "okey = 0" "oval = 0" "sz m' = sz m + 1"
      "hm_wf ctx m'" "hash_fn m' = hash_fn m" "equal_fn m' = equal_fn m"
      "mset (hashmap_entries m') =
       add_mset \<lparr>entry_key = key, entry_value = val\<rparr> (mset (hashmap_entries m))"
proof (cases "if strategy \<noteq> HASHMAP_APPEND then hashmap_find_entry ctx m key (bucket_of ctx m key) else None")
  case (Some pos)
  then have found: "hashmap_find_entry ctx m key (bucket_of ctx m key) = Some pos"
    by (auto split: if_splits)
  note b = hm_wf_hash_bucket [OF m found refl]
  have st: "strategy = HASHMAP_SET \<or> strategy = HASHMAP_UPDATE"
    and m': "m' = m\<lparr>buckets := (buckets m)[bucket_of ctx m key := (buckets m ! bucket_of ctx m key)
                [pos := \<lparr>entry_key = key, entry_value = val\<rparr>]]\<rparr>"
    and old: "okey = entry_key (buckets m ! bucket_of ctx m key ! pos)"
      "oval = entry_value (buckets m ! bucket_of ctx m key ! pos)"
    using ins Some by (auto simp: hashmap_insert_def Let_def split: if_splits)
  note o = overwrite_entry [OF m _ b(1,2) m']
  show thesis
    by (rule overwrite [OF b(4,3) st old _ o(1) _ _ o(2)]) (simp_all add: m')
next
  case None
  then obtain m1 where nu: "strategy \<noteq> HASHMAP_UPDATE"
    and g: "(if hashmap_needs_to_grow m then hashmap_grow ok1 ctx m else Inr m) = Inr m1"
    and m': "m' = m1\<lparr>buckets := (buckets m1)[bucket_of ctx m1 key := hashmap_add_entry
                \<lparr>entry_key = key, entry_value = val\<rparr> (buckets m1 ! bucket_of ctx m1 key)],
                sz := sz m1 + 1\<rparr>"
    and old: "okey = 0" "oval = 0"
    using ins by (auto simp: hashmap_insert_def Let_def split: if_splits sum.splits)
  note r = make_room [OF m g]
  note l = link_entry [OF r(1-3) _ m', simplified]
  have st: "strategy = HASHMAP_APPEND \<or>
        hashmap_find_entry ctx m key (bucket_of ctx m key) = None \<and> strategy \<noteq> HASHMAP_UPDATE"
    using None nu by (auto split: if_splits)
  have bag: "mset (hashmap_entries m') =
      add_mset \<lparr>entry_key = key, entry_value = val\<rparr> (mset (hashmap_entries m))"
    using l(2) r(4) by simp
  show thesis
    by (rule link [OF st old _ l(1) _ _ bag]) (simp_all add: m' r)
qed

lemma insert_error_cases:
  assumes "hashmap_insert ok1 ok2 ctx m key val strategy = (Some e, m', okey, oval)"
  obtains
    (present) pos where "strategy = HASHMAP_ADD" "e = EEXIST" "m' = m"
      "hashmap_find_entry ctx m key (bucket_of ctx m key) = Some pos"
      "okey = entry_key (buckets m ! bucket_of ctx m key ! pos)"
      "oval = entry_value (buckets m ! bucket_of ctx m key ! pos)"
  | (absent) "strategy = HASHMAP_UPDATE" "e = ENOENT" "m' = m"
      "hashmap_find_entry ctx m key (bucket_of ctx m key) = None"
  | (no_table) "hashmap_grow ok1 ctx m = Inl e" "m' = m" "strategy \<noteq> HASHMAP_UPDATE"
      "strategy = HASHMAP_APPEND \<or> hashmap_find_entry ctx m key (bucket_of ctx m key) = None"
  | (no_entry) "(if hashmap_needs_to_grow m then hashmap_grow ok1 ctx m else Inr m) = Inr m'"
      "\<not> ok2" "e = ENOMEM" "strategy \<noteq> HASHMAP_UPDATE"
      "strategy = HASHMAP_APPEND \<or> hashmap_find_entry ctx m key (bucket_of ctx m key) = None"
proof (cases "if strategy \<noteq> HASHMAP_APPEND then hashmap_find_entry ctx m key (bucket_of ctx m key) else None")
  case (Some pos)
  then have f: "hashmap_find_entry ctx m key (bucket_of ctx m key) = Some pos" "strategy \<noteq> HASHMAP_APPEND"
    by (auto split: if_splits)
  with assms have "strategy = HASHMAP_ADD" "e = EEXIST" "m' = m"
    "okey = entry_key (buckets m ! bucket_of ctx m key ! pos)"
    "oval = entry_value (buckets m ! bucket_of ctx m key ! pos)"
    by (cases strategy; simp add: hashmap_insert_def Let_def)+
  with f(1) present show thesis by blast
next
  case None
  then have n: "strategy = HASHMAP_APPEND \<or> hashmap_find_entry ctx m key (bucket_of ctx m key) = None"
    by (auto split: if_splits)
  show thesis
  proof (cases "strategy = HASHMAP_UPDATE")
    case True
    with assms None n absent show thesis by (simp add: hashmap_insert_def Let_def)
  next
    case False
    show thesis
    proof (cases "if hashmap_needs_to_grow m then hashmap_grow ok1 ctx m else Inr m")
      case (Inl err)
      with assms None False have "e = err" "m' = m" by (simp_all add: hashmap_insert_def Let_def)
      with Inl no_table False n show thesis by (auto split: if_splits)
    next
      case (Inr m1)
      with assms None False have "e = ENOMEM" "m' = m1" "\<not> ok2"
        by (auto simp: hashmap_insert_def Let_def split: if_splits)
      with Inr no_entry False n show thesis by auto
    qed
  qed
qed

lemma hashmap_insert_wf:
  assumes "hm_wf ctx m"
  shows "hm_wf ctx (fst (snd (hashmap_insert ok1 ok2 ctx m key val strategy)))"
proof -
  obtain ret m' okey oval where ins: "hashmap_insert ok1 ok2 ctx m key val strategy = (ret, m', okey, oval)"
    by (metis prod.collapse)
  have "hm_wf ctx m'"
  proof (cases ret)
    case None
    with ins have "hashmap_insert ok1 ok2 ctx m key val strategy = (None, m', okey, oval)" by simp
    then show ?thesis by (cases rule: insert_cases [OF assms, consumes 1]) auto
  next
    case (Some e)
    with ins have "hashmap_insert ok1 ok2 ctx m key val strategy = (Some e, m', okey, oval)" by simp
    then show ?thesis
      by (cases rule: insert_error_cases) (use assms make_room(1) [OF assms] in auto)
  qed
  with ins show ?thesis by simp
qed

lemma hashmap_grow_error:
  assumes "hm_shape m" "hashmap_grow ok ctx m = Inl e"
  shows "e = ENOMEM \<and> (\<not> ok \<or> cap_bits m = 60)"
proof -
  define nb where "nb = (if cap_bits m + 1 < 2 then 2 else cap_bits m + 1)"
  have e: "e = ENOMEM" "\<not> ok \<or> (2::nat) ^ 64 \<le> 2 ^ nb * 8"
    using assms(2) by (auto simp: hashmap_grow_def Let_def nb_def split: if_splits)
  have "cap_bits m \<le> 60" using assms(1) by (auto simp: hm_shape_def split: if_splits)
  moreover have "61 \<le> nb" if "(2::nat) ^ 64 \<le> 2 ^ nb * 8"
  proof -
    have "(2::nat) ^ 64 \<le> 2 ^ (nb + 3)" using that by (simp add: power_add)
    then show ?thesis using power_le_imp_le_exp [of "2::nat" 64 "nb + 3"] by simp
  qed
  ultimately show ?thesis using e by (auto simp: nb_def split: if_splits)
qed

section \<open>The hash map as an abstract map\<close>

text \<open>A well-formed map that uses the given callbacks.\<close>

definition hm_served :: "(u64 \<Rightarrow> 'c \<Rightarrow> u64) \<Rightarrow> (u64 \<Rightarrow> u64 \<Rightarrow> 'c \<Rightarrow> bool) \<Rightarrow>
    'c \<Rightarrow> 'c hashmap \<Rightarrow> bool" where
  "hm_served hf eqf ctx m \<longleftrightarrow> hm_wf ctx m \<and> hash_fn m = hf \<and> equal_fn m = eqf"

text \<open>
  What the user of the map promises of its two callbacks: equality of keys is an equivalence
  and equal keys have equal hashes.  The lemmas of the locale hold for every pair of callbacks
  that keeps the promise; the string sets and the type deduplication interpret it.
\<close>

locale hash_client =
  fixes hf :: "u64 \<Rightarrow> 'c \<Rightarrow> u64" and eqf :: "u64 \<Rightarrow> u64 \<Rightarrow> 'c \<Rightarrow> bool"
  assumes eq_refl: "eqf k k ctx"
    and eq_sym: "eqf k k' ctx \<Longrightarrow> eqf k' k ctx"
    and eq_trans: "eqf k k' ctx \<Longrightarrow> eqf k' k'' ctx \<Longrightarrow> eqf k k'' ctx"
    and hash_compat: "eqf k k' ctx \<Longrightarrow> hf k ctx = hf k' ctx"
begin

lemma eq_join: "eqf a k ctx \<Longrightarrow> eqf b k ctx \<Longrightarrow> eqf a b ctx"
  by (blast intro: eq_sym eq_trans)

lemma eq_fork: "eqf a k ctx \<Longrightarrow> eqf a k' ctx \<Longrightarrow> eqf k k' ctx"
  by (blast intro: eq_sym eq_trans)

lemma match_in_bucket:
  assumes "hm_served hf eqf ctx m" "buckets m \<noteq> []"
  shows "filter (\<lambda>e. eqf (entry_key e) key ctx) (hashmap_entries m) =
         filter (\<lambda>e. eqf (entry_key e) key ctx) (buckets m ! bucket_of ctx m key)"
proof -
  define h where "h = bucket_of ctx m key"
  have wf: "hm_shape m" "hm_placed ctx m" and fns: "hash_fn m = hf"
    using assms(1) by (auto simp: hm_served_def hm_wf_def)
  have h: "h < length (buckets m)"
    using bucket_of_less [OF wf(1) assms(2)] by (simp add: h_def)
  have other: "filter (\<lambda>e. eqf (entry_key e) key ctx) (buckets m ! i) = []"
    if i: "i < length (buckets m)" "i \<noteq> h" for i
  proof -
    have "\<not> eqf (entry_key e) key ctx" if e: "e \<in> set (buckets m ! i)" for e
    proof
      assume "eqf (entry_key e) key ctx"
      then have "bucket_of ctx m (entry_key e) = h"
        by (simp add: h_def bucket_of_def fns hash_compat [of "entry_key e" key])
      moreover have "bucket_of ctx m (entry_key e) = i"
        using wf(2) i(1) e by (simp add: hm_placed_def)
      ultimately show False using i(2) by simp
    qed
    then show ?thesis by (simp add: filter_empty_conv)
  qed
  have "filter P (concat bs) = filter P (bs ! h)"
    if "h < length bs" "\<forall>i < length bs. i \<noteq> h \<longrightarrow> filter P (bs ! i) = []"
    for P :: "hashmap_entry \<Rightarrow> bool" and bs and h
    using that
  proof (induction bs arbitrary: h)
    case (Cons b bs)
    show ?case
    proof (cases h)
      case 0
      have "filter P x = []" if "x \<in> set bs" for x
        using that Cons.prems(2) 0 by (fastforce simp: in_set_conv_nth)
      with 0 show ?thesis by (simp add: filter_concat)
    next
      case (Suc h')
      have "filter P b = []" using Cons.prems Suc by force
      moreover have "filter P (concat bs) = filter P (bs ! h')"
        using Cons.prems Suc by (intro Cons.IH) auto
      ultimately show ?thesis using Suc by simp
    qed
  qed simp
  from this [OF h, of "\<lambda>e. eqf (entry_key e) key ctx"] other
  show ?thesis unfolding hashmap_entries_def h_def [symmetric] by blast
qed

lemma find_entry_get:
  assumes "hm_served hf eqf ctx m"
  shows "map_option (\<lambda>pos. buckets m ! bucket_of ctx m key ! pos)
           (hashmap_find_entry ctx m key (bucket_of ctx m key)) =
         List.find (\<lambda>e. eqf (entry_key e) key ctx) (hashmap_entries m)"
proof (cases "buckets m = []")
  case True
  then show ?thesis by (simp add: hashmap_find_entry_def hashmap_entries_def)
next
  case False
  have "List.find (\<lambda>e. eqf (entry_key e) key ctx) (hashmap_entries m) =
        List.find (\<lambda>e. eqf (entry_key e) key ctx) (buckets m ! bucket_of ctx m key)"
    unfolding find_filter match_in_bucket [OF assms False] ..
  with False assms show ?thesis
    by (simp add: hashmap_find_entry_def hm_served_def
        chain_find_find [of _ "\<lambda>k. eqf k key ctx"])
qed

text \<open>The bucket search computes the abstract lookup.\<close>

lemma find_correct: "hm_served hf eqf ctx m \<Longrightarrow> hashmap_find ctx m key = hm_get ctx m key"
  unfolding hm_get_def
  by (simp add: hm_served_def find_entry_get [unfolded hm_served_def, symmetric] hashmap_find_def
      Let_def option.map_comp comp_def map_option_case
      split: option.split)

lemma get_Some_iff:
  assumes "hm_served hf eqf ctx m" "hm_unique ctx m"
  shows "hm_get ctx m key = Some v \<longleftrightarrow>
         (\<exists>e \<in># mset (hashmap_entries m). eqf (entry_key e) key ctx \<and> entry_value e = v)"
proof -
  have "length (filter (\<lambda>e. eqf (entry_key e) key ctx) (hashmap_entries m)) \<le> 1"
    using assms by (simp add: hm_served_def hm_unique_def)
  from find_eq_Some_iff [OF this] show ?thesis
    using assms(1) by (auto simp: hm_get_def hm_served_def)
qed

lemma unique_mset:
  assumes "equal_fn m = eqf"
  shows "hm_unique ctx m \<longleftrightarrow>
    (\<forall>key. size (filter_mset (\<lambda>e. eqf (entry_key e) key ctx) (mset (hashmap_entries m))) \<le> 1)"
  by (simp add: hm_unique_def assms flip: mset_filter)


text \<open>Replacing every entry that matches a key by one new entry.\<close>

lemma put_abstract:
  assumes m: "hm_served hf eqf ctx m" "hm_unique ctx m" and m': "hm_served hf eqf ctx m'"
    and split: "mset (hashmap_entries m) = R + S" "\<forall>e \<in># S. eqf (entry_key e) key ctx"
    and rest: "\<forall>e \<in># R. \<not> eqf (entry_key e) key ctx"
    and new: "mset (hashmap_entries m') = add_mset \<lparr>entry_key = key, entry_value = val\<rparr> R"
  shows "hm_unique ctx m'"
    and "hm_get ctx m' k = (if eqf key k ctx then Some val else hm_get ctx m k)"
proof -
  have eqs: "equal_fn m = eqf" "equal_fn m' = eqf" using m m' by (auto simp: hm_served_def)
  have none: "filter_mset (\<lambda>e. eqf (entry_key e) k ctx) R = {#}" if "eqf key k ctx" for k
    using rest that by (auto simp: filter_mset_eq_mempty_iff) (metis eq_join)
  have small: "size (filter_mset (\<lambda>e. eqf (entry_key e) k ctx) R) \<le> 1" for k
    using m(2) by (auto simp: unique_mset [OF eqs(1)] split(1) dest!: spec [of _ k])
  show unique: "hm_unique ctx m'"
    unfolding unique_mset [OF eqs(2)] new using none small by auto
  have other: "(\<exists>e \<in># R + S. eqf (entry_key e) k ctx \<and> P e) \<longleftrightarrow> (\<exists>e \<in># R. eqf (entry_key e) k ctx \<and> P e)"
    if "\<not> eqf key k ctx" for P
    using split(2) that by (auto dest: eq_fork)
  have "hm_get ctx m' k = Some v \<longleftrightarrow> (if eqf key k ctx then Some val else hm_get ctx m k) = Some v" for v
  proof (cases "eqf key k ctx")
    case True
    then show ?thesis
      using none [OF True] by (auto simp: get_Some_iff [OF m' unique] new filter_mset_eq_mempty_iff)
  next
    case False
    then show ?thesis
      using other [OF False, of "\<lambda>e. entry_value e = v"]
      by (auto simp: get_Some_iff [OF m' unique] get_Some_iff [OF m] new split(1))
  qed
  then show "hm_get ctx m' k = (if eqf key k ctx then Some val else hm_get ctx m k)"
    by (metis option.exhaust)
qed

lemma drop_abstract:
  assumes m: "hm_served hf eqf ctx m" "hm_unique ctx m" and m': "hm_served hf eqf ctx m'"
    and split: "mset (hashmap_entries m) = R + S" "\<forall>e \<in># S. eqf (entry_key e) key ctx"
    and rest: "\<forall>e \<in># R. \<not> eqf (entry_key e) key ctx"
    and new: "mset (hashmap_entries m') = R"
  shows "hm_unique ctx m'"
    and "hm_get ctx m' k = (if eqf key k ctx then None else hm_get ctx m k)"
proof -
  have eqs: "equal_fn m = eqf" "equal_fn m' = eqf" using m m' by (auto simp: hm_served_def)
  show unique: "hm_unique ctx m'"
    using m(2) unfolding unique_mset [OF eqs(1)] unique_mset [OF eqs(2)] new split(1)
    by (metis add.commute add_leD2 filter_union_mset size_union)
  have "hm_get ctx m' k = Some v \<longleftrightarrow> (if eqf key k ctx then None else hm_get ctx m k) = Some v" for v
    using rest split(2)
    by (auto simp: get_Some_iff [OF m' unique] get_Some_iff [OF m] new split(1)
        dest: eq_join eq_fork)
  then show "hm_get ctx m' k = (if eqf key k ctx then None else hm_get ctx m k)"
    by (metis option.exhaust)
qed

text \<open>A match that is found is the only one.\<close>

lemma found_split:
  assumes "hm_served hf eqf ctx m" "hm_unique ctx m" "e \<in> set (hashmap_entries m)"
    and "eqf (entry_key e) key ctx"
  shows "\<forall>x \<in># mset (hashmap_entries m) - {#e#}. \<not> eqf (entry_key x) key ctx"
proof -
  let ?P = "\<lambda>e. eqf (entry_key e) key ctx"
  define R where "R = mset (hashmap_entries m) - {#e#}"
  have M: "mset (hashmap_entries m) = add_mset e R" using assms(3) by (simp add: R_def)
  have "size (filter_mset ?P (mset (hashmap_entries m))) \<le> 1"
    using assms(1,2) unique_mset [of m ctx] by (simp add: hm_served_def)
  then have "filter_mset ?P R = {#}"
    using assms(4) by (simp add: M)
  then show ?thesis by (simp add: filter_mset_eq_mempty_iff flip: R_def)
qed

lemma not_found:
  assumes "hm_served hf eqf ctx m"
    and "hashmap_find_entry ctx m key (bucket_of ctx m key) = None"
  shows "\<forall>e \<in># mset (hashmap_entries m). \<not> eqf (entry_key e) key ctx"
  using find_entry_get [OF assms(1), of key] assms(2) by (auto simp: find_None_iff find_None_iff2)


lemma insert_correct:
  assumes m: "hm_served hf eqf ctx m" "hm_unique ctx m" and st: "strategy \<noteq> HASHMAP_APPEND"
    and ins: "hashmap_insert ok1 ok2 ctx m key val strategy = (None, m', okey, oval)"
  shows "hm_served hf eqf ctx m'" "hm_unique ctx m'"
    and "hm_get ctx m' k = (if eqf key k ctx then Some val else hm_get ctx m k)"
proof -
  have wf: "hm_wf ctx m" and eqs: "equal_fn m = eqf" "hash_fn m = hf"
    using m(1) by (auto simp: hm_served_def)
  have all: "hm_served hf eqf ctx m' \<and> hm_unique ctx m' \<and>
      hm_get ctx m' k = (if eqf key k ctx then Some val else hm_get ctx m k)"
  proof (cases rule: insert_cases [OF wf ins])
    case (1 old)
    then have s': "hm_served hf eqf ctx m'" by (simp add: hm_served_def eqs)
    define R where "R = mset (hashmap_entries m) - {#old#}"
    have split: "mset (hashmap_entries m) = R + {#old#}"
      using 1(1) by (simp add: R_def)
    have new: "mset (hashmap_entries m') = add_mset \<lparr>entry_key = key, entry_value = val\<rparr> R"
      using 1(10) by (simp add: split)
    have "\<forall>e \<in># R. \<not> eqf (entry_key e) key ctx"
      using found_split [OF m 1(1)] 1(2) by (simp add: R_def eqs)
    from put_abstract [OF m s' split _ this new] 1(2) s' show ?thesis by (simp add: eqs)
  next
    case 2
    then have s': "hm_served hf eqf ctx m'" by (simp add: hm_served_def eqs)
    have none: "hashmap_find_entry ctx m key (bucket_of ctx m key) = None" using 2(1) st by simp
    have split: "mset (hashmap_entries m) = mset (hashmap_entries m) + {#}" by simp
    from put_abstract [OF m s' split _ not_found [OF m(1) none] 2(8)] s' show ?thesis by simp
  qed
  then show "hm_served hf eqf ctx m'" "hm_unique ctx m'"
    "hm_get ctx m' k = (if eqf key k ctx then Some val else hm_get ctx m k)" by blast+
qed

lemma delete_correct:
  assumes m: "hm_served hf eqf ctx m" "hm_unique ctx m"
    and del: "hashmap_delete ctx m key = Some (m', okey, oval)"
  shows "hm_served hf eqf ctx m'" "hm_unique ctx m'"
    and "hm_get ctx m key = Some oval" "eqf okey key ctx" "sz m = sz m' + 1"
    and "hm_get ctx m' k = (if eqf key k ctx then None else hm_get ctx m k)"
proof -
  have wf: "hm_wf ctx m" and eqs: "equal_fn m = eqf" "hash_fn m = hf"
    using m(1) by (auto simp: hm_served_def)
  obtain pos where found: "hashmap_find_entry ctx m key (bucket_of ctx m key) = Some pos"
    and m': "m' = m\<lparr>buckets := (buckets m)[bucket_of ctx m key :=
               hashmap_del_entry pos (buckets m ! bucket_of ctx m key)], sz := sz m - 1\<rparr>"
    and okey: "okey = entry_key (buckets m ! bucket_of ctx m key ! pos)"
    and oval: "oval = entry_value (buckets m ! bucket_of ctx m key ! pos)"
    using del by (auto simp: hashmap_delete_def Let_def split: option.splits)
  note b = hm_wf_hash_bucket [OF wf found refl, unfolded eqs]
  note u = unlink_entry [OF wf b(1,2) m']
  have s': "hm_served hf eqf ctx m'" using u(1) by (simp add: hm_served_def m' eqs)
  have split: "mset (hashmap_entries m) =
      mset (hashmap_entries m') + {#buckets m ! bucket_of ctx m key ! pos#}"
    using u(2) by simp
  have rest: "\<forall>e \<in># mset (hashmap_entries m'). \<not> eqf (entry_key e) key ctx"
    using found_split [OF m b(4,3)] by (simp add: split)
  show "hm_served hf eqf ctx m'" by (rule s')
  show "hm_unique ctx m'" "hm_get ctx m' k = (if eqf key k ctx then None else hm_get ctx m k)"
    using drop_abstract [OF m s' split _ rest refl] b(3) by simp_all
  show "eqf okey key ctx" using b(3) by (simp add: okey)
  show "hm_get ctx m key = Some oval"
    using b(3,4) by (auto simp: get_Some_iff [OF m] oval)
  have "sz m = length (hashmap_entries m)" "sz m' = length (hashmap_entries m')"
    using wf u(1) by (auto simp: hm_wf_def hm_shape_def)
  then show "sz m = sz m' + 1" using arg_cong [OF split, of size] by simp
qed

lemma same_bag_get:
  assumes "hm_served hf eqf ctx m" "hm_unique ctx m" "equal_fn m' = eqf"
    and "mset (hashmap_entries m') = mset (hashmap_entries m)"
  shows "hm_get ctx m' k = hm_get ctx m k"
proof -
  have eq: "equal_fn m = eqf" using assms(1) by (simp add: hm_served_def)
  have "length (filter (\<lambda>e. eqf (entry_key e) k ctx) (hashmap_entries m)) \<le> 1"
    using assms(2) eq by (auto simp: hm_unique_def)
  from find_mset_cong [OF assms(4) [symmetric] this] show ?thesis
    by (simp add: hm_get_def eq assms(3))
qed

lemma error_keeps_get:
  assumes m: "hm_served hf eqf ctx m" "hm_unique ctx m"
    and ins: "hashmap_insert ok1 ok2 ctx m key val strategy = (Some e, m', okey, oval)"
  shows "hm_served hf eqf ctx m' \<and> hm_get ctx m' k = hm_get ctx m k"
  using ins
proof (cases rule: insert_error_cases)
  case no_entry
  have wf: "hm_wf ctx m" using m(1) by (simp add: hm_served_def)
  note r = make_room [OF wf no_entry(1)]
  from r m(1) same_bag_get [OF m _ r(4)] show ?thesis by (simp add: hm_served_def)
qed (use m in auto)

lemma absent_iff: "hm_served hf eqf ctx m \<Longrightarrow>
    hashmap_find_entry ctx m key (bucket_of ctx m key) = None \<longleftrightarrow> hm_get ctx m key = None"
  using find_entry_get [of ctx m key] by (auto simp: hm_get_def hm_served_def)


lemma key_entries_filter:
  assumes "hm_served hf eqf ctx m"
  shows "hashmap_key_entries ctx m key = filter (\<lambda>e. eqf (entry_key e) key ctx) (hashmap_entries m)"
proof (cases "buckets m = []")
  case True
  then show ?thesis by (simp add: hashmap_key_entries_def hashmap_entries_def)
next
  case False
  with match_in_bucket [OF assms False] assms show ?thesis
    by (simp add: hashmap_key_entries_def hm_served_def)
qed

lemma rehash_bucket:
  "h < length bs \<Longrightarrow> rehash hf ctx bits es bs ! h =
     rev (filter (\<lambda>e. unat (hash_bits (hf (entry_key e) ctx) bits) = h) es) @ bs ! h"
  by (induction es arbitrary: bs) (auto simp: Let_def nth_update_in hashmap_add_entry_def)

lemma grow_key_entries:
  assumes m: "hm_served hf eqf ctx m" and g: "hashmap_grow ok ctx m = Inr m'"
  shows "hashmap_key_entries ctx m' key = rev (hashmap_key_entries ctx m key)"
proof -
  define nb where "nb = (if cap_bits m + 1 < 2 then 2 else cap_bits m + 1)"
  have eqs: "equal_fn m = eqf" "hash_fn m = hf" and shape: "hm_shape m"
    using m by (auto simp: hm_served_def hm_wf_def)
  have m': "m' = m\<lparr>buckets := rehash hf ctx nb (hashmap_entries m) (replicate (2 ^ nb) []),
                  cap := 2 ^ nb, cap_bits := nb\<rparr>"
    using g by (auto simp: hashmap_grow_def Let_def nb_def eqs split: if_splits)
  have "nb \<le> 64" using hashmap_grow_facts(9) [OF shape g] by (simp add: m')
  then have h: "bucket_of ctx m' key < length (replicate (2 ^ nb) ([] :: hashmap_entry list))"
    using hash_bits_less by (simp add: bucket_of_def m' eqs)
  have same: "eqf (entry_key e) key ctx \<Longrightarrow>
      unat (hash_bits (hf (entry_key e) ctx) nb) = bucket_of ctx m' key" for e
    using hash_compat by (simp add: bucket_of_def m' eqs)
  have "buckets m' \<noteq> []" by (simp add: m' flip: length_0_conv)
  then have "hashmap_key_entries ctx m' key =
      filter (\<lambda>e. eqf (entry_key e) key ctx) (buckets m' ! bucket_of ctx m' key)"
    by (simp add: hashmap_key_entries_def m' eqs)
  also have "\<dots> = rev (filter (\<lambda>e. unat (hash_bits (hf (entry_key e) ctx) nb) = bucket_of ctx m' key \<and>
      eqf (entry_key e) key ctx) (hashmap_entries m))"
    using rehash_bucket [OF h] h by (simp add: m' rev_filter)
  also have "\<dots> = rev (filter (\<lambda>e. eqf (entry_key e) key ctx) (hashmap_entries m))"
    using same by (intro arg_cong [where f = rev] filter_cong) auto
  finally show ?thesis by (simp add: key_entries_filter [OF m])
qed

end

section \<open>The callbacks of the type deduplication\<close>

text \<open>
  \<open>btf_dedup_identity_hash_fn\<close>, \<open>btf_dedup_collision_hash_fn\<close> and \<open>btf_dedup_equal_fn\<close> of
  \<open>btf.c\<close>, with which \<open>btf__dedup\<close> and the string offset maps use the hash map.
\<close>

definition btf_dedup_identity_hash_fn :: "u64 \<Rightarrow> unit \<Rightarrow> u64" where
  "btf_dedup_identity_hash_fn key ctx = key"

definition btf_dedup_collision_hash_fn :: "u64 \<Rightarrow> unit \<Rightarrow> u64" where
  "btf_dedup_collision_hash_fn key ctx = 0"

definition btf_dedup_equal_fn :: "u64 \<Rightarrow> u64 \<Rightarrow> unit \<Rightarrow> bool" where
  "btf_dedup_equal_fn k1 k2 ctx \<longleftrightarrow> k1 = k2"

interpretation identity_map: hash_client btf_dedup_identity_hash_fn btf_dedup_equal_fn
  by unfold_locales (auto simp: btf_dedup_identity_hash_fn_def btf_dedup_equal_fn_def)

interpretation collision_map: hash_client btf_dedup_collision_hash_fn btf_dedup_equal_fn
  by unfold_locales (auto simp: btf_dedup_collision_hash_fn_def btf_dedup_equal_fn_def)

text \<open>Tables used by the witnesses: insertions into an empty identity map.\<close>

definition empty_map :: "unit hashmap" where
  "empty_map = hashmap__init btf_dedup_identity_hash_fn btf_dedup_equal_fn"

definition sample_map :: "unit hashmap" where
  "sample_map = fst (snd (hashmap_insert True True ()
     (fst (snd (hashmap_insert True True () empty_map 1 10 HASHMAP_ADD))) 2 20 HASHMAP_ADD))"

lemma replicate_4: "replicate 4 x = [x, x, x, x]"
  by (simp add: numeral_eq_Suc)

lemmas hashmap_eval = hashmap_insert_def hashmap_delete_def hashmap_find_def hashmap_find_entry_def
  hashmap_needs_to_grow_def hashmap_grow_def hashmap_entries_def bucket_of_def hash_bits_def
  btf_dedup_identity_hash_fn_def btf_dedup_equal_fn_def hashmap_add_entry_def hashmap_del_entry_def
  Let_def replicate_4

lemma sample_map_eq:
  "sample_map = \<lparr>hash_fn = btf_dedup_identity_hash_fn, equal_fn = btf_dedup_equal_fn,
     buckets = [[\<lparr>entry_key = 2, entry_value = 20\<rparr>], [], [\<lparr>entry_key = 1, entry_value = 10\<rparr>], []],
     cap = 4, cap_bits = 2, sz = 2\<rparr>"
  by (simp add: sample_map_def empty_map_def hashmap__init_def hashmap_eval)

lemma hm_served_empty: "hm_served btf_dedup_identity_hash_fn btf_dedup_equal_fn () empty_map"
  by (simp add: hm_served_def empty_map_def) (simp add: hashmap__init_def)

lemma hm_unique_empty: "hm_unique () empty_map"
  by (simp add: hm_unique_def empty_map_def hashmap__init_def hashmap_entries_def)

lemma sample_steps:
  "hashmap_insert True True () empty_map 1 10 HASHMAP_ADD =
     (None, fst (snd (hashmap_insert True True () empty_map 1 10 HASHMAP_ADD)), 0, 0)"
  "hashmap_insert True True ()
     (fst (snd (hashmap_insert True True () empty_map 1 10 HASHMAP_ADD))) 2 20 HASHMAP_ADD =
   (None, sample_map, 0, 0)"
proof -
  show "hashmap_insert True True () empty_map 1 10 HASHMAP_ADD =
     (None, fst (snd (hashmap_insert True True () empty_map 1 10 HASHMAP_ADD)), 0, 0)"
    by (simp add: empty_map_def hashmap__init_def hashmap_eval)
  show "hashmap_insert True True ()
     (fst (snd (hashmap_insert True True () empty_map 1 10 HASHMAP_ADD))) 2 20 HASHMAP_ADD =
   (None, sample_map, 0, 0)"
    unfolding sample_map_eq by (simp add: empty_map_def hashmap__init_def hashmap_eval)
qed

lemma sample_map_ok:
  "hm_served btf_dedup_identity_hash_fn btf_dedup_equal_fn () sample_map" "hm_unique () sample_map"
proof -
  note one = identity_map.insert_correct [OF hm_served_empty hm_unique_empty _ sample_steps(1), simplified]
  note two = identity_map.insert_correct [OF one(1,2) _ sample_steps(2), simplified]
  show "hm_served btf_dedup_identity_hash_fn btf_dedup_equal_fn () sample_map" "hm_unique () sample_map"
    by (rule two(1), rule two(2))
qed

section \<open>Properties\<close>

text \<open>
  Property C6: whatever the strategy, the callbacks and the outcome (success, EEXIST, ENOENT or a
  failed allocation, also one that fails after the table has grown), \<open>hashmap_insert\<close> leaves a
  map whose entries sit in the buckets of their hashes, whose size field counts them and whose
  capacity is the power of two of \<open>cap_bits\<close>, at most three quarters full.
\<close>

theorem hashmap_insert_keeps_invariant:
  assumes "hm_wf ctx m"
  shows "hm_wf ctx (fst (snd (hashmap_insert calloc_ok malloc_ok ctx m key val strategy)))"
  using assms by (rule hashmap_insert_wf)

theorem hashmap_insert_keeps_invariant_witness:
  "hm_wf () (fst (snd (hashmap_insert True False () empty_map 7 70 HASHMAP_SET)))"
  by (rule hashmap_insert_keeps_invariant) (simp add: empty_map_def)

text \<open>
  Property C22: the map refines a finite map.  With callbacks that agree (equality is an equivalence
  and equal keys hash alike), a successful insertion by ADD, SET or UPDATE into a map without
  duplicate keys gives a map without duplicate keys, in which \<open>hashmap_find\<close> returns the new
  value for every key equal to the inserted one and the same answer as before for every other key,
  growth of the table included.
\<close>

theorem hashmap_insert_refines:
  assumes "hash_client hf eqf" "hm_served hf eqf ctx m" "hm_unique ctx m"
    and "strategy \<noteq> HASHMAP_APPEND"
    and "hashmap_insert calloc_ok malloc_ok ctx m key val strategy = (None, m', okey, oval)"
  shows "hm_served hf eqf ctx m' \<and> hm_unique ctx m' \<and>
    (\<forall>k. hashmap_find ctx m' k = (if eqf key k ctx then Some val else hashmap_find ctx m k))"
  using hash_client.insert_correct [OF assms] assms(2)
  by (simp add: hash_client.find_correct [OF assms(1)])

theorem hashmap_insert_refines_witness:
  "hashmap_find () sample_map 1 = Some 10 \<and> hashmap_find () sample_map 2 = Some 20"
proof -
  note client = identity_map.hash_client_axioms
  note one = identity_map.insert_correct [OF hm_served_empty hm_unique_empty _ sample_steps(1), simplified]
  have "hashmap_find () sample_map k =
      (if k = 2 then Some 20
       else hashmap_find () (fst (snd (hashmap_insert True True () empty_map 1 10 HASHMAP_ADD))) k)" for k
    using hashmap_insert_refines [OF client one(1,2) _ sample_steps(2)]
    by (auto simp: btf_dedup_equal_fn_def)
  moreover have "hashmap_find () (fst (snd (hashmap_insert True True () empty_map 1 10 HASHMAP_ADD))) 1 = Some 10"
    using hashmap_insert_refines [OF client hm_served_empty hm_unique_empty _ sample_steps(1)]
    by (simp add: btf_dedup_equal_fn_def)
  ultimately show ?thesis by simp
qed

text \<open>
  Property C40: the error paths.  ADD of a present key is refused with EEXIST and reports the key
  and value that are there; UPDATE of an absent key is refused with ENOENT; the only other error
  is ENOMEM, and it needs a failed allocation or a table at its largest size.  After any error
  every lookup answers as before.
\<close>

theorem hashmap_insert_errors:
  assumes "hash_client hf eqf" "hm_served hf eqf ctx m" "hm_unique ctx m"
    and "hashmap_insert calloc_ok malloc_ok ctx m key val strategy = (Some e, m', okey, oval)"
  shows "(e = EEXIST \<longleftrightarrow> strategy = HASHMAP_ADD \<and> hashmap_find ctx m key \<noteq> None) \<and>
    (e = EEXIST \<longrightarrow> hashmap_find ctx m key = Some oval \<and> eqf okey key ctx) \<and>
    (e = ENOENT \<longleftrightarrow> strategy = HASHMAP_UPDATE \<and> hashmap_find ctx m key = None) \<and>
    (e \<noteq> EEXIST \<and> e \<noteq> ENOENT \<longrightarrow> e = ENOMEM \<and> (\<not> calloc_ok \<or> \<not> malloc_ok \<or> cap_bits m = 60)) \<and>
    (\<forall>k. hashmap_find ctx m' k = hashmap_find ctx m k)"
proof -
  note find = hash_client.find_correct [OF assms(1)]
  note keep = hash_client.error_keeps_get [OF assms(1-4)]
  have shape: "hm_wf ctx m" "hm_shape m" using assms(2) by (auto simp: hm_served_def hm_wf_def)
  have gone: "hashmap_find_entry ctx m key (bucket_of ctx m key) = None \<longleftrightarrow> hashmap_find ctx m key = None"
    by (simp add: hashmap_find_def Let_def split: option.split)
  have same: "\<forall>k. hashmap_find ctx m' k = hashmap_find ctx m k"
    using keep assms(2) by (simp add: find)
  show ?thesis using assms(4)
  proof (cases rule: insert_error_cases)
    case (present pos)
    have "eqf okey key ctx"
      using hm_wf_hash_bucket(3) [OF shape(1) present(4) refl] assms(2)
      by (simp add: present(5) hm_served_def)
    moreover have "hashmap_find ctx m key = Some oval"
      by (simp add: hashmap_find_def Let_def present(4,6))
    ultimately show ?thesis using present same by simp
  next
    case absent
    with same show ?thesis by (simp add: hashmap_find_def Let_def)
  next
    case no_table
    with hashmap_grow_error [OF shape(2) no_table(1)] same gone show ?thesis by auto
  next
    case no_entry
    with same gone show ?thesis by auto
  qed
qed

text \<open>The witness refuses a second ADD of a key and keeps its value.\<close>

theorem hashmap_insert_errors_witness:
  "fst (hashmap_insert True True () sample_map 1 99 HASHMAP_ADD) = Some EEXIST \<and>
   hashmap_find () sample_map 1 = Some 10"
proof -
  have ins: "hashmap_insert True True () sample_map 1 99 HASHMAP_ADD = (Some EEXIST, sample_map, 1, 10)"
    by (simp add: sample_map_eq hashmap_eval)
  show ?thesis
    using hashmap_insert_errors [OF identity_map.hash_client_axioms sample_map_ok ins] ins by simp
qed


text \<open>
  Property C34: \<open>hashmap_delete\<close> answers \<open>false\<close> exactly for the keys the map does not hold; otherwise
  it hands back the stored key and value, the size goes down by one and afterwards the deleted
  key is absent while every other key is found as before.
\<close>

theorem hashmap_delete_refines:
  assumes "hash_client hf eqf" "hm_served hf eqf ctx m" "hm_unique ctx m"
  shows "case hashmap_delete ctx m key of
      None \<Rightarrow> hashmap_find ctx m key = None
    | Some (m', okey, oval) \<Rightarrow>
        hm_served hf eqf ctx m' \<and> hm_unique ctx m' \<and> eqf okey key ctx \<and>
        hashmap_find ctx m key = Some oval \<and> hashmap__size m = hashmap__size m' + 1 \<and>
        (\<forall>k. hashmap_find ctx m' k = (if eqf key k ctx then None else hashmap_find ctx m k))"
proof (cases "hashmap_delete ctx m key")
  case None
  then show ?thesis
    by (simp add: hashmap_delete_def hashmap_find_def Let_def split: option.splits)
next
  case (Some r)
  then obtain m' okey oval where r: "hashmap_delete ctx m key = Some (m', okey, oval)"
    by (cases r) auto
  from hash_client.delete_correct [OF assms r] r assms(2) show ?thesis
    by (simp add: hash_client.find_correct [OF assms(1)] hashmap__size_def)
qed

theorem hashmap_delete_refines_witness:
  "hashmap_find () sample_map 2 = Some 20 \<and>
   (\<exists>m'. hashmap_delete () sample_map 2 = Some (m', 2, 20) \<and>
         hashmap_find () m' 2 = None \<and> hashmap_find () m' 1 = hashmap_find () sample_map 1)"
proof -
  obtain m' where d: "hashmap_delete () sample_map 2 = Some (m', 2, 20)"
    by (simp add: sample_map_eq hashmap_eval)
  show ?thesis
    using hashmap_delete_refines [OF identity_map.hash_client_axioms sample_map_ok, of 2] d
    by (simp add: btf_dedup_equal_fn_def)
qed

text \<open>
  Growing the table reverses the order in which \<open>hashmap__for_each_key_entry\<close> visits
  the entries of a key, because every chain is walked from its head and relinked at the head.
  The header promises that after APPEND a find returns the last inserted entry of a key; that is
  true only until the table grows (the witness: values 10 and 20 appended under key 1, then
  keys 2 and 3 appended; the find gives 20 before the growth and 10 after it).
\<close>

theorem hashmap_grow_reverses_key_entries:
  assumes "hash_client hf eqf" "hm_served hf eqf ctx m" "hashmap_grow calloc_ok ctx m = Inr m'"
  shows "hashmap_key_entries ctx m' key = rev (hashmap_key_entries ctx m key)"
  using assms by (rule hash_client.grow_key_entries)

definition appended_map :: "unit hashmap" where
  "appended_map = fst (snd (hashmap_insert True True ()
     (fst (snd (hashmap_insert True True () empty_map 1 10 HASHMAP_APPEND))) 1 20 HASHMAP_APPEND))"

lemma appended_map_eq:
  "appended_map = \<lparr>hash_fn = btf_dedup_identity_hash_fn, equal_fn = btf_dedup_equal_fn,
     buckets = [[], [], [\<lparr>entry_key = 1, entry_value = 20\<rparr>, \<lparr>entry_key = 1, entry_value = 10\<rparr>], []],
     cap = 4, cap_bits = 2, sz = 2\<rparr>"
  by (simp add: appended_map_def empty_map_def hashmap__init_def hashmap_eval)

theorem hashmap_grow_reverses_key_entries_witness:
  "hashmap_find () appended_map 1 = Some 20 \<and>
   (\<exists>m'. hashmap_grow True () appended_map = Inr m' \<and>
      map entry_value (hashmap_key_entries () m' 1) = [10, 20])"
proof -
  have wf: "hm_wf () appended_map"
    unfolding appended_map_def by (intro hashmap_insert_wf) (simp add: empty_map_def)
  then have served: "hm_served btf_dedup_identity_hash_fn btf_dedup_equal_fn () appended_map"
    by (simp add: hm_served_def appended_map_eq)
  obtain m' where g: "hashmap_grow True () appended_map = Inr m'"
    by (simp add: hashmap_grow_def Let_def appended_map_eq)
  have "map entry_value (hashmap_key_entries () appended_map 1) = [20, 10]"
    by (simp add: hashmap_key_entries_def appended_map_eq hashmap_eval)
  then have "map entry_value (hashmap_key_entries () m' 1) = [10, 20]"
    unfolding hashmap_grow_reverses_key_entries [OF identity_map.hash_client_axioms served g, of 1]
      rev_map [symmetric] by simp
  moreover have "hashmap_find () appended_map 1 = Some 20"
    by (simp add: hashmap_find_def appended_map_eq hashmap_eval)
  ultimately show ?thesis using g by (intro conjI exI [of _ m'])
qed

end
