(* ===== verification/Strset.thy ===== *)
theory Strset imports Hashmap begin

text \<open>
  The string set of libbpf (\<open>bpf/libbpf/src/strset.c\<close>) with the growable memory it is built on
  (\<open>libbpf_add_mem\<close>, \<open>libbpf_ensure_mem\<close> of \<open>btf.c\<close>, \<open>libbpf_reallocarray\<close> of
  \<open>libbpf_internal.h\<close>).  Strings live NUL-terminated in one byte block and are named by their
  offsets; the hash map \<open>strs_hash\<close> indexes the offsets by the strings they denote, so its
  context is the byte block.  A string argument is the list of its bytes without the NUL.
\<close>

section \<open>Growable memory\<close>

text \<open>Whether the reallocation succeeds: the product must not overflow \<open>size_t\<close>.\<close>

definition libbpf_reallocarray :: "bool \<Rightarrow> nat \<Rightarrow> nat \<Rightarrow> bool" where
  "libbpf_reallocarray realloc_ok nmemb elem_sz \<longleftrightarrow> nmemb * elem_sz < 2 ^ 64 \<and> realloc_ok"

text \<open>
  The block is the list of its \<open>cap_cnt\<close> elements; the result is the block and capacity after
  the call, and the pointer that the C function returns is the position \<open>cur_cnt\<close> in it.
\<close>

definition libbpf_add_mem ::
  "bool \<Rightarrow> 'a \<Rightarrow> nat \<Rightarrow> 'a list \<Rightarrow> nat \<Rightarrow> nat \<Rightarrow> nat \<Rightarrow> nat \<Rightarrow> ('a list \<times> nat) option" where
  "libbpf_add_mem realloc_ok zero elem_sz data cap_cnt cur_cnt max_cnt add_cnt =
     (if cur_cnt + add_cnt \<le> cap_cnt then Some (data, cap_cnt)
      else if cur_cnt + add_cnt > max_cnt then None
      else
        (let new_cnt = cap_cnt + cap_cnt div 4;
             new_cnt = (if new_cnt < 16 then 16 else new_cnt);
             new_cnt = (if new_cnt > max_cnt then max_cnt else new_cnt);
             new_cnt = (if new_cnt < cur_cnt + add_cnt then cur_cnt + add_cnt else new_cnt)
         in if \<not> libbpf_reallocarray realloc_ok new_cnt elem_sz then None
            else Some (data @ replicate (new_cnt - cap_cnt) zero, new_cnt)))"

definition libbpf_ensure_mem ::
  "bool \<Rightarrow> 'a \<Rightarrow> nat \<Rightarrow> 'a list \<Rightarrow> nat \<Rightarrow> nat \<Rightarrow> errno + 'a list \<times> nat" where
  "libbpf_ensure_mem realloc_ok zero elem_sz data cap_cnt need_cnt =
     (if need_cnt \<le> cap_cnt then Inr (data, cap_cnt)
      else case libbpf_add_mem realloc_ok zero elem_sz data cap_cnt cap_cnt (2 ^ 64 - 1)
                  (need_cnt - cap_cnt) of
             None \<Rightarrow> Inl ENOMEM
           | Some r \<Rightarrow> Inr r)"

text \<open>
  The contract of a growable block: old contents stay, the length is the capacity, there is
  room for what was asked and the limit is respected.
\<close>

lemma libbpf_add_mem_grows:
  assumes "libbpf_add_mem ok z esz data cap_cnt cur max_cnt add = Some (data', cap')"
    and "length data = cap_cnt"
  shows "length data' = cap'" "cur + add \<le> cap'" "take cap_cnt data' = data" "cap_cnt \<le> cap'"
    and "cap' = cap_cnt \<or> cap' \<le> max cap_cnt max_cnt"
  using assms by (auto simp: libbpf_add_mem_def Let_def split: if_splits)

lemma libbpf_add_mem_None:
  "libbpf_add_mem ok z esz data cap_cnt cur max_cnt add = None \<Longrightarrow> cap_cnt < cur + add"
  by (auto simp: libbpf_add_mem_def split: if_splits)

section \<open>State\<close>

record strset =
  strs_data :: "u8 list"
  strs_data_len :: nat
  strs_data_cap :: nat
  strs_data_max_len :: nat
  strs_hash :: "u8 list hashmap"

definition strset_hash_fn :: "u64 \<Rightarrow> u8 list \<Rightarrow> u64" where
  "strset_hash_fn key data = str_hash (cstr_at data (unat key))"

definition strset_equal_fn :: "u64 \<Rightarrow> u64 \<Rightarrow> u8 list \<Rightarrow> bool" where
  "strset_equal_fn key1 key2 data \<longleftrightarrow> cstr_at data (unat key1) = cstr_at data (unat key2)"

text \<open>String comparison is an equivalence and equal strings hash alike.\<close>

interpretation str_index: hash_client strset_hash_fn strset_equal_fn
  by unfold_locales (auto simp: strset_hash_fn_def strset_equal_fn_def)

section \<open>Operations\<close>

text \<open>
  The indexing loop of \<open>strset__new\<close>.  \<open>mem off\<close> are the outcomes of the allocations made
  while the string at \<open>off\<close> is added.  A string that does not end inside the block makes
  \<open>strlen\<close> read outside of it.
\<close>

function strset_index ::
  "(nat \<Rightarrow> bool \<times> bool) \<Rightarrow> u8 list \<Rightarrow> nat \<Rightarrow> u8 list hashmap \<Rightarrow> u8 list hashmap res" where
  "strset_index mem data off hash =
     (if off \<ge> length data then Inr hash
      else case hashmap_insert (fst (mem off)) (snd (mem off)) data hash
                  (word_of_nat off) (word_of_nat off) HASHMAP_ADD of
        (ret, hash', _, _) \<Rightarrow>
          if ret \<noteq> None \<and> ret \<noteq> Some EEXIST then Inl (Err (the ret))
          else if \<not> terminated data off (length data) then Inl UB
          else strset_index mem data (off + (length (cstr_at data off) + 1)) hash')"
  by pat_completeness auto
termination
  by (relation "measure (\<lambda>(mem, data, off, hash). length data - off)") (auto split: prod.splits)

definition strset__new ::
  "bool \<Rightarrow> bool \<Rightarrow> bool \<Rightarrow> (nat \<Rightarrow> bool \<times> bool) \<Rightarrow> nat \<Rightarrow> u8 list option \<Rightarrow> strset res" where
  "strset__new set_ok hash_ok data_ok mem max_data_sz init_data =
     (if \<not> set_ok then Inl (Err ENOMEM)
      else case hashmap__new hash_ok strset_hash_fn strset_equal_fn of
        Inl e \<Rightarrow> Inl (Err ENOMEM)
      | Inr hash \<Rightarrow>
          (case init_data of
             None \<Rightarrow> Inr \<lparr>strs_data = [], strs_data_len = 0, strs_data_cap = 0,
                        strs_data_max_len = max_data_sz, strs_hash = hash\<rparr>
           | Some data \<Rightarrow>
               if \<not> data_ok then Inl (Err ENOMEM)
               else bindr (strset_index mem data 0 hash)
                 (\<lambda>hash'. Inr \<lparr>strs_data = data, strs_data_len = length data,
                     strs_data_cap = length data, strs_data_max_len = max_data_sz,
                     strs_hash = hash'\<rparr>)))"

definition strset__data_size :: "strset \<Rightarrow> nat" where
  "strset__data_size ss = strs_data_len ss"

definition strset__data :: "strset \<Rightarrow> u8 list" where
  "strset__data ss = strs_data ss"

definition strset_add_str_mem :: "bool \<Rightarrow> strset \<Rightarrow> nat \<Rightarrow> strset option" where
  "strset_add_str_mem realloc_ok ss add_sz =
     map_option (\<lambda>(data, c). ss\<lparr>strs_data := data, strs_data_cap := c\<rparr>)
       (libbpf_add_mem realloc_ok 0 1 (strs_data ss) (strs_data_cap ss)
          (strs_data_len ss) (strs_data_max_len ss) add_sz)"

text \<open>
  Both operations first copy the string behind the used part of the block, so that the hash
  map can address it by an offset.  The offset is returned as an \<open>int\<close> (32 bits).
\<close>

definition strset__find_str :: "bool \<Rightarrow> strset \<Rightarrow> u8 list \<Rightarrow> strset \<times> (errno + s32)" where
  "strset__find_str realloc_ok ss s =
     (let len = length s + 1 in
      case strset_add_str_mem realloc_ok ss len of
        None \<Rightarrow> (ss, Inl ENOMEM)
      | Some set1 \<Rightarrow>
          (let new_off = strs_data_len set1;
               set2 = set1\<lparr>strs_data := put_bytes new_off (s @ [0]) (strs_data set1)\<rparr>
           in case hashmap_find (strs_data set2) (strs_hash set2) (word_of_nat new_off) of
                Some old_off \<Rightarrow> (set2, Inr (ucast old_off))
              | None \<Rightarrow> (set2, Inl ENOENT)))"

definition strset__add_str ::
  "bool \<Rightarrow> bool \<Rightarrow> bool \<Rightarrow> strset \<Rightarrow> u8 list \<Rightarrow> strset \<times> (errno + s32)" where
  "strset__add_str realloc_ok calloc_ok malloc_ok ss s =
     (let len = length s + 1 in
      case strset_add_str_mem realloc_ok ss len of
        None \<Rightarrow> (ss, Inl ENOMEM)
      | Some set1 \<Rightarrow>
          (let new_off = strs_data_len set1;
               set2 = set1\<lparr>strs_data := put_bytes new_off (s @ [0]) (strs_data set1)\<rparr>
           in case hashmap_insert calloc_ok malloc_ok (strs_data set2) (strs_hash set2)
                     (word_of_nat new_off) (word_of_nat new_off) HASHMAP_ADD of
                (ret, hash, old_off, _) \<Rightarrow>
                  (let set3 = set2\<lparr>strs_hash := hash\<rparr> in
                   if ret = Some EEXIST then (set3, Inr (ucast old_off))
                   else case ret of
                     Some err \<Rightarrow> (set3, Inl err)
                   | None \<Rightarrow> (set3\<lparr>strs_data_len := strs_data_len set3 + len\<rparr>,
                              Inr (word_of_nat new_off)))))"

section \<open>Invariant\<close>

text \<open>
  The block is no larger than the limit, which fits an \<open>int\<close>; every indexed offset
  is its own value and starts a string that ends inside the used part; no string is indexed
  twice.
\<close>

definition ss_wf :: "strset \<Rightarrow> bool" where
  "ss_wf ss \<longleftrightarrow>
     length (strs_data ss) = strs_data_cap ss \<and> strs_data_len ss \<le> strs_data_cap ss \<and>
     strs_data_cap ss \<le> strs_data_max_len ss \<and> strs_data_max_len ss \<le> 2147483647 \<and>
     hm_served strset_hash_fn strset_equal_fn (strs_data ss) (strs_hash ss) \<and>
     hm_unique (strs_data ss) (strs_hash ss) \<and>
     (\<forall>e \<in> set (hashmap_entries (strs_hash ss)).
        entry_value e = entry_key e \<and>
        terminated (strs_data ss) (unat (entry_key e)) (strs_data_len ss))"

text \<open>The offset under which a string is known.\<close>

definition ss_knows :: "strset \<Rightarrow> u8 list \<Rightarrow> nat \<Rightarrow> bool" where
  "ss_knows ss s off \<longleftrightarrow>
     (\<exists>e \<in> set (hashmap_entries (strs_hash ss)). unat (entry_key e) = off) \<and>
     cstr_at (strs_data ss) off = s"


section \<open>The index survives changes behind the used part\<close>

lemma entries_strings_cong:
  assumes "\<forall>e \<in> set (hashmap_entries m). terminated data (unat (entry_key e)) lim"
    and "take lim data' = take lim data" "e \<in> set (hashmap_entries m)"
  shows "cstr_at data' (unat (entry_key e)) = cstr_at data (unat (entry_key e))"
  using assms cstr_at_cong by blast

lemma served_cong:
  assumes m: "hm_served strset_hash_fn strset_equal_fn data m"
    and t: "\<forall>e \<in> set (hashmap_entries m). terminated data (unat (entry_key e)) lim"
    and eq: "take lim data' = take lim data"
  shows "hm_served strset_hash_fn strset_equal_fn data' m"
proof -
  have "hm_placed data' m"
    unfolding hm_placed_def
  proof (intro allI impI ballI)
    fix i e assume i: "i < length (buckets m)" "e \<in> set (buckets m ! i)"
    then have "e \<in> set (hashmap_entries m)"
      by (auto simp: hashmap_entries_def intro: nth_mem)
    from entries_strings_cong [OF t eq this]
    have "bucket_of data' m (entry_key e) = bucket_of data m (entry_key e)"
      using m by (simp add: hm_served_def bucket_of_def strset_hash_fn_def)
    also have "\<dots> = i" using m i by (simp add: hm_served_def hm_wf_def hm_placed_def)
    finally show "bucket_of data' m (entry_key e) = i" .
  qed
  with m show ?thesis by (simp add: hm_served_def hm_wf_def)
qed

text \<open>Pairwise distinct entries have at most one match for any key.\<close>

lemma unique_from_entries:
  assumes "\<forall>e \<in> set xs. length (filter (\<lambda>x. f x = f e) xs) \<le> 1"
  shows "length (filter (\<lambda>x. f x = k) xs) \<le> 1"
proof (cases "filter (\<lambda>x. f x = k) xs")
  case (Cons e es)
  then have "e \<in> set (filter (\<lambda>x. f x = k) xs)" by (simp only: list.set_intros)
  then have "e \<in> set xs" "f e = k" by auto
  with assms show ?thesis by auto
qed simp

lemma unique_cong:
  assumes m: "hm_served strset_hash_fn strset_equal_fn data m" "hm_unique data m"
    and t: "\<forall>e \<in> set (hashmap_entries m). terminated data (unat (entry_key e)) lim"
    and eq: "take lim data' = take lim data"
  shows "hm_unique data' m"
proof -
  note same = entries_strings_cong [OF t eq]
  have fns: "equal_fn m = strset_equal_fn" using m(1) by (simp add: hm_served_def)
  have "\<forall>e \<in> set (hashmap_entries m). length (filter (\<lambda>x. cstr_at data' (unat (entry_key x)) =
      cstr_at data' (unat (entry_key e))) (hashmap_entries m)) \<le> 1"
  proof
    fix e assume e: "e \<in> set (hashmap_entries m)"
    have "filter (\<lambda>x. cstr_at data' (unat (entry_key x)) = cstr_at data' (unat (entry_key e)))
            (hashmap_entries m) =
          filter (\<lambda>x. cstr_at data (unat (entry_key x)) = cstr_at data (unat (entry_key e)))
            (hashmap_entries m)"
      using same e by (intro filter_cong) auto
    with m(2) show "length (filter (\<lambda>x. cstr_at data' (unat (entry_key x)) =
      cstr_at data' (unat (entry_key e))) (hashmap_entries m)) \<le> 1"
      by (simp add: hm_unique_def fns strset_equal_fn_def)
  qed
  then show ?thesis
    unfolding hm_unique_def fns strset_equal_fn_def
    using unique_from_entries [where f = "\<lambda>x. cstr_at data' (unat (entry_key x))"] by blast
qed

text \<open>Room for a string behind the used part, and the string copied there.\<close>

definition ss_scratch :: "strset \<Rightarrow> u8 list \<Rightarrow> strset \<Rightarrow> bool" where
  "ss_scratch ss s ss2 \<longleftrightarrow>
     take (strs_data_len ss) (strs_data ss2) = take (strs_data_len ss) (strs_data ss) \<and>
     strs_data_len ss2 = strs_data_len ss \<and> strs_data_max_len ss2 = strs_data_max_len ss \<and>
     strs_hash ss2 = strs_hash ss \<and> length (strs_data ss2) = strs_data_cap ss2 \<and>
     strs_data_cap ss2 \<le> max (strs_data_cap ss) (strs_data_max_len ss) \<and>
     strs_data_len ss + length s + 1 \<le> strs_data_cap ss2 \<and>
     cstr_at (strs_data ss2) (strs_data_len ss) = s \<and>
     terminated (strs_data ss2) (strs_data_len ss) (strs_data_len ss + length s + 1)"

lemma strset_add_str_mem_facts:
  assumes wf: "length (strs_data ss) = strs_data_cap ss" "strs_data_len ss \<le> strs_data_cap ss"
    and mem: "strset_add_str_mem ok ss (length s + 1) = Some ss1" and s: "0 \<notin> set s"
  shows "ss_scratch ss s
           (ss1\<lparr>strs_data := put_bytes (strs_data_len ss1) (s @ [0]) (strs_data ss1)\<rparr>)"
proof -
  obtain data c where g: "libbpf_add_mem ok 0 1 (strs_data ss) (strs_data_cap ss)
      (strs_data_len ss) (strs_data_max_len ss) (length s + 1) = Some (data, c)"
    and ss1: "ss1 = ss\<lparr>strs_data := data, strs_data_cap := c\<rparr>"
    using mem by (auto simp: strset_add_str_mem_def)
  note f = libbpf_add_mem_grows [OF g wf(1)]
  have room: "strs_data_len ss + length (s @ [0]) \<le> length data" using f(1,2) by simp
  have lim: "c \<le> max (strs_data_cap ss) (strs_data_max_len ss)" using f(5) by auto
  have pre: "take (strs_data_len ss) data = take (strs_data_len ss) (strs_data ss)"
    using f(3) wf by (metis min.absorb1 take_take)
  define d2 where "d2 = put_bytes (strs_data_len ss) (s @ [0]) data"
  have d2: "d2 = take (strs_data_len ss) data @ s @ 0 # drop (strs_data_len ss + length s + 1) data"
    by (simp add: d2_def put_bytes_def)
  have str: "cstr_at d2 (strs_data_len ss) = s"
    unfolding d2 using s room by (intro cstr_at_append_nul) auto
  show ?thesis
    using room f lim pre str
    by (simp add: ss_scratch_def ss1 terminated_def put_bytes_before flip: d2_def)
       (simp add: d2_def put_bytes_before)
qed

lemma scratch_index:
  assumes wf: "ss_wf ss" and sc: "ss_scratch ss s ss2"
  shows "hm_served strset_hash_fn strset_equal_fn (strs_data ss2) (strs_hash ss2)"
    and "hm_unique (strs_data ss2) (strs_hash ss2)"
    and "e \<in> set (hashmap_entries (strs_hash ss)) \<Longrightarrow>
         cstr_at (strs_data ss2) (unat (entry_key e)) = cstr_at (strs_data ss) (unat (entry_key e))"
    and "e \<in> set (hashmap_entries (strs_hash ss)) \<Longrightarrow>
         terminated (strs_data ss2) (unat (entry_key e)) (strs_data_len ss)"
    and "ss_wf ss2"
proof -
  have t: "\<forall>e \<in> set (hashmap_entries (strs_hash ss)).
      terminated (strs_data ss) (unat (entry_key e)) (strs_data_len ss)"
    and m: "hm_served strset_hash_fn strset_equal_fn (strs_data ss) (strs_hash ss)"
      "hm_unique (strs_data ss) (strs_hash ss)"
    using wf by (auto simp: ss_wf_def)
  have eq: "take (strs_data_len ss) (strs_data ss2) = take (strs_data_len ss) (strs_data ss)"
    and h: "strs_hash ss2 = strs_hash ss" and len: "strs_data_len ss \<le> length (strs_data ss2)"
    using sc by (auto simp: ss_scratch_def)
  show s: "hm_served strset_hash_fn strset_equal_fn (strs_data ss2) (strs_hash ss2)"
    and u: "hm_unique (strs_data ss2) (strs_hash ss2)"
    unfolding h by (rule served_cong [OF m(1) t eq], rule unique_cong [OF m t eq])
  show c: "cstr_at (strs_data ss2) (unat (entry_key e)) = cstr_at (strs_data ss) (unat (entry_key e))"
    if "e \<in> set (hashmap_entries (strs_hash ss))" for e
    by (rule entries_strings_cong [OF t eq that])
  show t2: "terminated (strs_data ss2) (unat (entry_key e)) (strs_data_len ss)"
    if "e \<in> set (hashmap_entries (strs_hash ss))" for e
    using t that c [OF that] len by (simp add: terminated_def)
  show "ss_wf ss2"
    using wf sc s u t2 by (auto simp: ss_wf_def ss_scratch_def)
qed


section \<open>Adding and finding strings\<close>

lemma unat_off: "off \<le> 2147483647 \<Longrightarrow> unat (word_of_nat off :: u64) = off"
  by (simp add: unat_of_nat)

lemma unat_off32: "off \<le> 2147483647 \<Longrightarrow> unat (word_of_nat off :: s32) = off"
  by (simp add: unat_of_nat)

lemma ucast_off: "unat (k :: u64) \<le> 2147483647 \<Longrightarrow> unat (ucast k :: s32) = unat k"
  by (simp add: unsigned_ucast_eq take_bit_nat_eq_self_iff)

lemma known_small:
  "ss_wf ss \<Longrightarrow> e \<in> set (hashmap_entries (strs_hash ss)) \<Longrightarrow>
   unat (entry_key e) < strs_data_len ss \<and> unat (entry_key e) \<le> 2147483647"
  by (force simp: ss_wf_def terminated_def)

lemma add_str_cases:
  assumes wf: "ss_wf ss" and s: "0 \<notin> set s"
    and add: "strset__add_str rok cok mok ss s = (ss', Inr r)"
  shows "ss_wf ss' \<and> ss_knows ss' s (unat r) \<and>
    (\<forall>t off. ss_knows ss t off \<longrightarrow> ss_knows ss' t off) \<and>
    (if \<exists>off. ss_knows ss s off then strs_data_len ss' = strs_data_len ss \<and> ss_knows ss s (unat r)
     else strs_data_len ss' = strs_data_len ss + length s + 1 \<and> unat r = strs_data_len ss)"
proof -
  obtain ss1 where mem: "strset_add_str_mem rok ss (length s + 1) = Some ss1"
    using add by (auto simp: strset__add_str_def Let_def split: option.splits)
  define off where "off = strs_data_len ss1"
  define ss2 where "ss2 = ss1\<lparr>strs_data := put_bytes off (s @ [0]) (strs_data ss1)\<rparr>"
  have sc: "ss_scratch ss s ss2"
    unfolding ss2_def off_def
    by (rule strset_add_str_mem_facts [OF _ _ mem s]) (use wf in \<open>auto simp: ss_wf_def\<close>)
  then have off: "off = strs_data_len ss" by (simp add: ss_scratch_def ss2_def off_def)
  note x = scratch_index [OF wf sc]
  have lim: "off + length s + 1 \<le> strs_data_max_len ss" "strs_data_max_len ss \<le> 2147483647"
    using sc wf by (auto simp: ss_scratch_def ss_wf_def off)
  have h2: "strs_hash ss2 = strs_hash ss" using sc by (simp add: ss_scratch_def)
  have knows2: "ss_knows ss2 t k \<longleftrightarrow> ss_knows ss t k" for t k
    using x(3) by (auto simp: ss_knows_def h2)
  obtain ret hash old_off old_val where ins:
    "hashmap_insert cok mok (strs_data ss2) (strs_hash ss2) (word_of_nat off) (word_of_nat off)
       HASHMAP_ADD = (ret, hash, old_off, old_val)"
    by (metis prod.collapse)
  have here: "cstr_at (strs_data ss2) (unat (word_of_nat off :: u64)) = s"
    using sc lim by (simp add: unat_off ss_scratch_def off)
  show ?thesis
  proof (cases ret)
    case (Some err)
    with add mem ins have ee: "err = EEXIST" "ss' = ss2\<lparr>strs_hash := hash\<rparr>" "r = ucast old_off"
      by (auto simp: strset__add_str_def Let_def ss2_def off_def split: if_splits)
    from ins Some ee(1) have ins': "hashmap_insert cok mok (strs_data ss2) (strs_hash ss2)
        (word_of_nat off) (word_of_nat off) HASHMAP_ADD = (Some EEXIST, hash, old_off, old_val)" by simp
    from ins' obtain e where e: "e \<in> set (hashmap_entries (strs_hash ss2))" "old_off = entry_key e"
      "strset_equal_fn (entry_key e) (word_of_nat off) (strs_data ss2)" "hash = strs_hash ss2"
    proof (cases rule: insert_error_cases)
      case (present pos)
      have "hm_wf (strs_data ss2) (strs_hash ss2)" "equal_fn (strs_hash ss2) = strset_equal_fn"
        using x(1) by (auto simp: hm_served_def)
      with hm_wf_hash_bucket(3,4) [OF _ present(4) refl] present that show ?thesis by metis
    qed (use hashmap_grow_error in \<open>auto simp: hashmap_grow_def Let_def split: if_splits\<close>)
    have ss': "ss' = ss2" using ee(2) e(4) by simp
    have r: "unat r = unat (entry_key e)"
      using known_small [OF wf, of e] e(1) by (simp add: ee(3) e(2) h2 ucast_off)
    have k: "ss_knows ss2 s (unat r)"
      using e here by (auto simp: ss_knows_def r strset_equal_fn_def)
    with knows2 sc x(5) show ?thesis by (auto simp: ss' ss_scratch_def)
  next
    case None
    with add mem ins have ss': "ss' = ss2\<lparr>strs_hash := hash, strs_data_len := strs_data_len ss2 + (length s + 1)\<rparr>"
      and r: "r = word_of_nat off"
      by (auto simp: strset__add_str_def Let_def ss2_def off_def)
    from ins None have ins': "hashmap_insert cok mok (strs_data ss2) (strs_hash ss2)
        (word_of_nat off) (word_of_nat off) HASHMAP_ADD = (None, hash, old_off, old_val)" by simp
    note c = str_index.insert_correct [OF x(1,2) _ ins', simplified]
    have wf2: "hm_wf (strs_data ss2) (strs_hash ss2)" using x(1) by (simp add: hm_served_def)
    have bag: "mset (hashmap_entries hash) =
        add_mset \<lparr>entry_key = word_of_nat off, entry_value = word_of_nat off\<rparr> (mset (hashmap_entries (strs_hash ss)))"
      and absent: "hashmap_find_entry (strs_data ss2) (strs_hash ss2) (word_of_nat off)
          (bucket_of (strs_data ss2) (strs_hash ss2) (word_of_nat off)) = None"
      by (cases rule: insert_cases [OF wf2 ins']; simp add: h2)+
    from arg_cong [OF bag, of set_mset] have ents: "set (hashmap_entries hash) =
        insert \<lparr>entry_key = word_of_nat off, entry_value = word_of_nat off\<rparr> (set (hashmap_entries (strs_hash ss)))"
      by simp
    have new: "\<not> ss_knows ss s k" for k
      using str_index.not_found [OF x(1) absent] x(3) here
      by (auto simp: ss_knows_def strset_equal_fn_def h2)
    have len: "strs_data_len ss' = strs_data_len ss + length s + 1" "strs_data ss' = strs_data ss2"
      using sc by (auto simp: ss' ss_scratch_def)
    have "\<forall>e \<in> set (hashmap_entries hash). entry_value e = entry_key e \<and>
        terminated (strs_data ss2) (unat (entry_key e)) (strs_data_len ss + length s + 1)"
    proof
      fix e assume e: "e \<in> set (hashmap_entries hash)"
      have room: "strs_data_len ss + length s + 1 \<le> length (strs_data ss2)"
        using sc by (simp add: ss_scratch_def)
      show "entry_value e = entry_key e \<and>
          terminated (strs_data ss2) (unat (entry_key e)) (strs_data_len ss + length s + 1)"
      proof (cases "e \<in> set (hashmap_entries (strs_hash ss))")
        case True
        then have "entry_value e = entry_key e" using wf by (simp add: ss_wf_def)
        with terminated_mono [OF x(4) [OF True] _ room] show ?thesis by simp
      next
        case False
        with e ents have "e = \<lparr>entry_key = word_of_nat off, entry_value = word_of_nat off\<rparr>" by auto
        with sc lim show ?thesis by (simp add: unat_off ss_scratch_def off)
      qed
    qed
    then have "ss_wf ss'"
      using c(1,2) sc wf lim by (simp add: ss' ss_wf_def ss_scratch_def off)
    moreover have "ss_knows ss' t k \<longleftrightarrow> ss_knows ss t k \<or> t = s \<and> k = off" for t k
      using x(3) here lim unfolding ss_knows_def ss' by (auto simp: ents unat_off)
    moreover have "unat r = off" using lim by (simp add: r unat_off32)
    ultimately show ?thesis using new len off by auto
  qed
qed


lemma find_str_cases:
  assumes wf: "ss_wf ss" and s: "0 \<notin> set s" and find: "strset__find_str rok ss s = (ss', r)"
  shows "ss_wf ss' \<and> (\<forall>t off. ss_knows ss' t off \<longleftrightarrow> ss_knows ss t off) \<and>
    strs_data_len ss' = strs_data_len ss \<and>
    (case r of Inr off \<Rightarrow> ss_knows ss s (unat off)
     | Inl e \<Rightarrow> if e = ENOENT then \<not> (\<exists>off. ss_knows ss s off)
              else e = ENOMEM \<and> strs_data_cap ss < strs_data_len ss + length s + 1)"
proof (cases "strset_add_str_mem rok ss (length s + 1)")
  case None
  then have "strs_data_cap ss < strs_data_len ss + (length s + 1)"
    by (auto simp: strset_add_str_mem_def dest: libbpf_add_mem_None)
  with None find wf show ?thesis by (auto simp: strset__find_str_def)
next
  case (Some ss1)
  define off where "off = strs_data_len ss1"
  define ss2 where "ss2 = ss1\<lparr>strs_data := put_bytes off (s @ [0]) (strs_data ss1)\<rparr>"
  have sc: "ss_scratch ss s ss2"
    unfolding ss2_def off_def
    by (rule strset_add_str_mem_facts [OF _ _ Some s]) (use wf in \<open>auto simp: ss_wf_def\<close>)
  then have off: "off = strs_data_len ss" by (simp add: ss_scratch_def ss2_def off_def)
  note x = scratch_index [OF wf sc]
  have lim: "off \<le> 2147483647" using wf by (auto simp: ss_wf_def off)
  have h2: "strs_hash ss2 = strs_hash ss" using sc by (simp add: ss_scratch_def)
  have knows2: "ss_knows ss2 t k \<longleftrightarrow> ss_knows ss t k" for t k
    using x(3) by (auto simp: ss_knows_def h2)
  have here: "cstr_at (strs_data ss2) (unat (word_of_nat off :: u64)) = s"
    using sc lim by (simp add: unat_off ss_scratch_def off)
  have res: "ss' = ss2" "r = (case hm_get (strs_data ss2) (strs_hash ss2) (word_of_nat off) of
      Some old_off \<Rightarrow> Inr (ucast old_off) | None \<Rightarrow> Inl ENOENT)"
    using find Some str_index.find_correct [OF x(1), of "word_of_nat off"]
    by (auto simp: strset__find_str_def Let_def ss2_def off_def split: option.splits)
  note get = str_index.get_Some_iff [OF x(1,2), of "word_of_nat off"]
  show ?thesis
  proof (cases "hm_get (strs_data ss2) (strs_hash ss2) (word_of_nat off)")
    case None
    with get here have "\<not> (\<exists>k. ss_knows ss2 s k)"
      by (auto simp: ss_knows_def strset_equal_fn_def)
    with None res x(5) knows2 sc show ?thesis by (simp add: ss_scratch_def)
  next
    case (Some v)
    with get here obtain e where e: "e \<in> set (hashmap_entries (strs_hash ss))" "entry_value e = v"
      "cstr_at (strs_data ss2) (unat (entry_key e)) = s"
      by (auto simp: strset_equal_fn_def h2)
    have v: "v = entry_key e" using wf e(1,2) by (auto simp: ss_wf_def)
    have "unat (ucast v :: s32) = unat (entry_key e)"
      using known_small [OF wf e(1)] by (simp add: v ucast_off)
    then have "ss_knows ss2 s (unat (ucast v :: s32))"
      using e(1,3) by (auto simp: ss_knows_def h2)
    with Some res x(5) knows2 sc show ?thesis by (simp add: ss_scratch_def)
  qed
qed

text \<open>
  Whatever the outcome, the used part only grows by the string and its NUL, and the set stays well
  formed; looking a string up leaves the used part as it is.
\<close>

lemma insert_error_index:
  assumes m: "hm_served hf eqf ctx m" "hm_unique ctx m"
    and ins: "hashmap_insert ok1 ok2 ctx m key val strategy = (Some e, m', okey, oval)"
  shows "hm_unique ctx m' \<and> set (hashmap_entries m') = set (hashmap_entries m)"
  using ins
proof (cases rule: insert_error_cases)
  case no_entry
  have wf: "hm_wf ctx m" using m(1) by (simp add: hm_served_def)
  note r = make_room [OF wf no_entry(1)]
  have "length (filter P (hashmap_entries m')) = length (filter P (hashmap_entries m))" for P
    using arg_cong [OF r(4), of "\<lambda>b. size (filter_mset P b)"] by (simp flip: mset_filter)
  with m(2) r(6) mset_eq_setD [OF r(4)] show ?thesis by (simp add: hm_unique_def)
qed (use m in auto)

lemma add_str_grows:
  assumes wf: "ss_wf ss" and s: "0 \<notin> set s"
    and add: "strset__add_str rok cok mok ss s = (ss', r)"
  shows "ss_wf ss' \<and> strs_data_max_len ss' = strs_data_max_len ss \<and>
    (\<exists>ext. take (strs_data_len ss') (strs_data ss') = take (strs_data_len ss) (strs_data ss) @ ext \<and>
       (ext = [] \<or> ext = s @ [0])) \<and>
    ((\<exists>e. r = Inl e) \<longrightarrow> strs_data_len ss' = strs_data_len ss)"
proof (cases "strset_add_str_mem rok ss (length s + 1)")
  case None
  with add wf show ?thesis by (auto simp: strset__add_str_def)
next
  case (Some ss1)
  define off where "off = strs_data_len ss1"
  define ss2 where "ss2 = ss1\<lparr>strs_data := put_bytes off (s @ [0]) (strs_data ss1)\<rparr>"
  have sc: "ss_scratch ss s ss2"
    unfolding ss2_def off_def
    by (rule strset_add_str_mem_facts [OF _ _ Some s]) (use wf in \<open>auto simp: ss_wf_def\<close>)
  then have off: "off = strs_data_len ss" by (simp add: ss_scratch_def ss2_def off_def)
  note x = scratch_index [OF wf sc]
  have here: "take (strs_data_len ss + length s + 1) (strs_data ss2) = take (strs_data_len ss) (strs_data ss) @ s @ [0]"
  proof -
    have str: "cstr_at (strs_data ss2) off = s" "off + length s < length (strs_data ss2)"
      using sc by (auto simp: ss_scratch_def off)
    have len: "length (takeWhile (\<lambda>b. b \<noteq> 0) (drop off (strs_data ss2))) < length (drop off (strs_data ss2))"
      using str by (auto simp: cstr_at_def)
    from nth_length_takeWhile [OF len] have nul: "drop off (strs_data ss2) ! length s = 0"
      using str(1) by (simp add: cstr_at_def)
    have "take (length s + 1) (drop off (strs_data ss2)) = take (length s) (drop off (strs_data ss2)) @ [0]"
      using nul str(2) by (simp add: take_Suc_conv_app_nth)
    also have "take (length s) (drop off (strs_data ss2)) = s"
      using takeWhile_eq_take [of "\<lambda>b. b \<noteq> 0" "drop off (strs_data ss2)"] str(1) by (simp add: cstr_at_def)
    finally have "take (length s + 1) (drop off (strs_data ss2)) = s @ [0]" .
    moreover have "take off (strs_data ss2) = take off (strs_data ss)" using sc by (simp add: ss_scratch_def off)
    ultimately show ?thesis
      using take_add [of off "length s + 1" "strs_data ss2"] by (simp add: off add.assoc)
  qed
  obtain ret hash old_off old_val where ins:
    "hashmap_insert cok mok (strs_data ss2) (strs_hash ss2) (word_of_nat off) (word_of_nat off)
       HASHMAP_ADD = (ret, hash, old_off, old_val)"
    by (metis prod.collapse)
  show ?thesis
  proof (cases ret)
    case None
    with add Some ins have ok: "r = Inr (word_of_nat off)"
      "ss' = ss2\<lparr>strs_hash := hash, strs_data_len := strs_data_len ss2 + (length s + 1)\<rparr>"
      by (auto simp: strset__add_str_def Let_def ss2_def off_def)
    from add_str_cases [OF wf s add [unfolded ok(1)]] sc here show ?thesis
      by (simp add: ok ss_scratch_def add.assoc)
  next
    case (Some e)
    with add \<open>strset_add_str_mem rok ss (length s + 1) = Some ss1\<close> ins have ss': "ss' = ss2\<lparr>strs_hash := hash\<rparr>"
      by (auto simp: strset__add_str_def Let_def ss2_def off_def split: if_splits)
    note keep = insert_error_index [OF x(1,2) ins [unfolded Some]] str_index.error_keeps_get [OF x(1,2) ins [unfolded Some]]
    have "ss_wf ss'" using x(5) keep by (simp add: ss' ss_wf_def)
    with sc show ?thesis by (simp add: ss' ss_scratch_def)
  qed
qed

lemma find_str_data:
  assumes wf: "ss_wf ss" and s: "0 \<notin> set s" and find: "strset__find_str rok ss s = (ss', r)"
  shows "strs_data_max_len ss' = strs_data_max_len ss \<and>
    take (strs_data_len ss) (strs_data ss') = take (strs_data_len ss) (strs_data ss)"
proof (cases "strset_add_str_mem rok ss (length s + 1)")
  case None
  with find show ?thesis by (auto simp: strset__find_str_def)
next
  case (Some ss1)
  have sc: "ss_scratch ss s (ss1\<lparr>strs_data := put_bytes (strs_data_len ss1) (s @ [0]) (strs_data ss1)\<rparr>)"
    by (rule strset_add_str_mem_facts [OF _ _ Some s]) (use wf in \<open>auto simp: ss_wf_def\<close>)
  moreover have "ss' = ss1\<lparr>strs_data := put_bytes (strs_data_len ss1) (s @ [0]) (strs_data ss1)\<rparr>"
    using find Some by (auto simp: strset__find_str_def Let_def split: option.splits)
  moreover have "strs_data_len ss1 = strs_data_len ss" using calculation(1) by (simp add: ss_scratch_def)
  ultimately show ?thesis unfolding ss_scratch_def by metis
qed

section \<open>Indexing the initial contents\<close>

text \<open>The offsets at which the loop of \<open>strset__new\<close> finds strings.\<close>

function str_starts :: "u8 list \<Rightarrow> nat \<Rightarrow> nat list" where
  "str_starts data off =
     (if off \<ge> length data then [] else off # str_starts data (off + (length (cstr_at data off) + 1)))"
  by pat_completeness auto
termination
  by (relation "measure (\<lambda>(data, off). length data - off)") auto

declare strset_index.simps [simp del] str_starts.simps [simp del]

lemma terminated_last:
  assumes "last data = 0" "off < length data"
  shows "terminated data off (length data)"
proof -
  have "last (drop off data) \<in> set (drop off data)" using assms(2) by (intro last_in_set) simp
  then have "\<exists>b \<in> set (drop off data). \<not> b \<noteq> 0"
    using assms by (auto simp: last_drop)
  from takeWhile_shorter [OF this]
  show ?thesis using assms(2) by (simp add: terminated_def cstr_at_def)
qed

text \<open>What the loop keeps: an index of the block without duplicates.\<close>

definition index_ok :: "u8 list \<Rightarrow> u8 list hashmap \<Rightarrow> bool" where
  "index_ok data hash \<longleftrightarrow>
     hm_served strset_hash_fn strset_equal_fn data hash \<and> hm_unique data hash \<and>
     (\<forall>e \<in> set (hashmap_entries hash).
        entry_value e = entry_key e \<and> terminated data (unat (entry_key e)) (length data))"

definition indexed :: "u8 list \<Rightarrow> u8 list hashmap \<Rightarrow> u8 list \<Rightarrow> bool" where
  "indexed data hash s \<longleftrightarrow>
     (\<exists>e \<in> set (hashmap_entries hash). cstr_at data (unat (entry_key e)) = s)"

lemma index_step:
  assumes ok: "index_ok data hash" and off: "off < length data" "length data \<le> 2147483647" "last data = 0"
    and ins: "hashmap_insert c1 c2 data hash (word_of_nat off) (word_of_nat off) HASHMAP_ADD =
       (ret, hash', x, y)" and ret: "ret = None \<or> ret = Some EEXIST"
  shows "index_ok data hash'" "indexed data hash s \<Longrightarrow> indexed data hash' s"
    "indexed data hash' (cstr_at data off)"
proof -
  have u: "unat (word_of_nat off :: u64) = off" using off by (simp add: unat_off)
  have wf: "hm_wf data hash" and eqf: "equal_fn hash = strset_equal_fn"
    using ok by (auto simp: index_ok_def hm_served_def)
  have "index_ok data hash' \<and> (indexed data hash s \<longrightarrow> indexed data hash' s) \<and>
    indexed data hash' (cstr_at data off)" for s
  proof (cases "ret = None")
    case True
    with ins have ins': "hashmap_insert c1 c2 data hash (word_of_nat off) (word_of_nat off) HASHMAP_ADD =
       (None, hash', x, y)" by simp
    have c: "hm_served strset_hash_fn strset_equal_fn data hash'" "hm_unique data hash'"
      using str_index.insert_correct [OF _ _ _ ins'] ok by (auto simp: index_ok_def)
    have "mset (hashmap_entries hash') = add_mset \<lparr>entry_key = word_of_nat off,
        entry_value = word_of_nat off\<rparr> (mset (hashmap_entries hash))"
      by (cases rule: insert_cases [OF wf ins']; simp)
    from arg_cong [OF this, of set_mset] have "set (hashmap_entries hash') =
        insert \<lparr>entry_key = word_of_nat off, entry_value = word_of_nat off\<rparr> (set (hashmap_entries hash))"
      by simp
    then show ?thesis
      using c ok terminated_last [OF off(3,1)] by (auto simp: index_ok_def indexed_def u)
  next
    case False
    with ret ins have ins': "hashmap_insert c1 c2 data hash (word_of_nat off) (word_of_nat off) HASHMAP_ADD =
       (Some EEXIST, hash', x, y)" by simp
    then obtain pos where pos: "hash' = hash"
      "hashmap_find_entry data hash (word_of_nat off) (bucket_of data hash (word_of_nat off)) = Some pos"
      by (cases rule: insert_error_cases)
         (auto simp: hashmap_grow_def Let_def split: if_splits)
    have "indexed data hash (cstr_at data off)"
      using hm_wf_hash_bucket(3,4) [OF wf pos(2) refl]
      by (auto simp: indexed_def eqf strset_equal_fn_def u)
    with ok show ?thesis by (simp add: pos(1))
  qed
  then show "index_ok data hash'" "indexed data hash s \<Longrightarrow> indexed data hash' s"
    "indexed data hash' (cstr_at data off)" by blast+
qed

lemma strset_index_correct:
  assumes "data \<noteq> [] \<longrightarrow> last data = 0" "length data \<le> 2147483647" "index_ok data hash"
  shows "case strset_index mem data off hash of
      Inl e \<Rightarrow> e \<noteq> UB
    | Inr hash' \<Rightarrow> index_ok data hash' \<and> (\<forall>s. indexed data hash s \<longrightarrow> indexed data hash' s) \<and>
        (\<forall>o' \<in> set (str_starts data off). indexed data hash' (cstr_at data o'))"
  using assms
proof (induction mem data off hash rule: strset_index.induct)
  case (1 mem data off hash)
  show ?case
  proof (cases "off \<ge> length data")
    case True
    with "1.prems" show ?thesis by (simp add: strset_index.simps [of mem data] str_starts.simps [of data])
  next
    case False
    obtain ret hash' x y where ins: "hashmap_insert (fst (mem off)) (snd (mem off)) data hash
        (word_of_nat off) (word_of_nat off) HASHMAP_ADD = (ret, hash', x, y)"
      by (metis prod.collapse)
    have last: "last data = 0" "off < length data" using False "1.prems"(1) by auto
    note t = terminated_last [OF last]
    show ?thesis
    proof (cases "ret \<noteq> None \<and> ret \<noteq> Some EEXIST")
      case True
      with False ins show ?thesis by (auto simp: strset_index.simps [of mem data])
    next
      case ret: False
      then have "ret = None \<or> ret = Some EEXIST" by auto
      note st = index_step [OF "1.prems"(3) last(2) "1.prems"(2) last(1) ins this]
      from "1.IH" [OF False ins [symmetric] refl refl ret] t "1.prems" st(1)
      have IH: "case strset_index mem data (off + (length (cstr_at data off) + 1)) hash' of
          Inl e \<Rightarrow> e \<noteq> UB
        | Inr h \<Rightarrow> index_ok data h \<and> (\<forall>s. indexed data hash' s \<longrightarrow> indexed data h s) \<and>
            (\<forall>o' \<in> set (str_starts data (off + (length (cstr_at data off) + 1))). indexed data h (cstr_at data o'))"
        by simp
      have eqs: "strset_index mem data off hash =
          strset_index mem data (off + (length (cstr_at data off) + 1)) hash'"
        "str_starts data off = off # str_starts data (off + (length (cstr_at data off) + 1))"
        using False ins ret t
        by (auto simp: strset_index.simps [of mem data off] str_starts.simps [of data off])
      from IH st(2,3) show ?thesis unfolding eqs by (auto split: sum.splits)
    qed
  qed
qed


lemma strset__new_correct:
  assumes data: "data \<noteq> [] \<longrightarrow> last data = 0" "length data \<le> max_sz" "max_sz \<le> 2147483647"
  shows "case strset__new a1 a2 a3 mem max_sz (Some data) of
      Inl e \<Rightarrow> e \<noteq> UB
    | Inr ss \<Rightarrow> ss_wf ss \<and> strs_data ss = data \<and> strs_data_len ss = length data \<and>
        (\<forall>off \<in> set (str_starts data 0). \<exists>off'. ss_knows ss (cstr_at data off) off')"
proof -
  define hash where "hash = hashmap__init strset_hash_fn strset_equal_fn"
  have "index_ok data hash"
    by (simp add: index_ok_def hm_served_def hash_def)
       (simp add: hashmap__init_def hm_unique_def hashmap_entries_def)
  note idx = strset_index_correct [OF data(1) _ this, where mem = mem and off = 0]
  show ?thesis
  proof (cases "strset__new a1 a2 a3 mem max_sz (Some data)")
    case (Inl e)
    with idx data(2,3) show ?thesis
      by (cases "strset_index mem data 0 hash")
         (auto simp: strset__new_def hashmap__new_def hash_def [symmetric] split: if_splits)
  next
    case (Inr ss)
    then obtain hash' where ix: "strset_index mem data 0 hash = Inr hash'" and
      ss: "ss = \<lparr>strs_data = data, strs_data_len = length data, strs_data_cap = length data,
        strs_data_max_len = max_sz, strs_hash = hash'\<rparr>"
      by (cases "strset_index mem data 0 hash")
         (auto simp: strset__new_def hashmap__new_def hash_def [symmetric] split: if_splits)
    from idx ix data(2,3) have i: "index_ok data hash'"
      "\<And>o'. o' \<in> set (str_starts data 0) \<Longrightarrow> indexed data hash' (cstr_at data o')" by simp_all
    have "ss_wf ss" using i(1) data by (simp add: ss ss_wf_def index_ok_def)
    moreover have "\<exists>off'. ss_knows ss (cstr_at data off) off'"
      if "off \<in> set (str_starts data 0)" for off
      using i(2) [OF that] by (auto simp: indexed_def ss_knows_def ss)
    ultimately show ?thesis by (simp add: Inr) (simp add: ss)
  qed
qed

lemma strset__new_no_hang: "strset__new a1 a2 a3 mem max_sz d \<noteq> Inl Hang"
proof -
  have "strset_index mem data off hash \<noteq> Inl Hang" for data off hash
  proof (induction mem data off hash rule: strset_index.induct)
    case (1 mem data off hash)
    show ?case
    proof (cases "off \<ge> length data")
      case True
      then show ?thesis by (subst strset_index.simps) simp
    next
      case False
      obtain ret hash' x y where ins: "hashmap_insert (fst (mem off)) (snd (mem off)) data hash
          (word_of_nat off) (word_of_nat off) HASHMAP_ADD = (ret, hash', x, y)" by (metis prod.collapse)
      from "1.IH" [OF False ins [symmetric] refl refl] False ins show ?thesis
        by (subst strset_index.simps) auto
    qed
  qed
  then show ?thesis
    by (auto simp: strset__new_def hashmap__new_def bindr_eq_Inl split: option.splits if_splits)
qed

text \<open>With working allocations and room below the limit a string is always added.\<close>

lemma add_str_succeeds:
  assumes wf: "ss_wf ss" and room: "strs_data_len ss + length s + 1 \<le> strs_data_max_len ss"
    and s: "0 \<notin> set s" and bits: "cap_bits (strs_hash ss) < 60"
  shows "\<exists>ss' r. strset__add_str True True True ss s = (ss', Inr r)"
proof -
  have "\<exists>r. libbpf_add_mem True (0 :: u8) 1 (strs_data ss) (strs_data_cap ss) (strs_data_len ss)
      (strs_data_max_len ss) (length s + 1) = Some r"
    using room wf by (auto simp: libbpf_add_mem_def libbpf_reallocarray_def Let_def ss_wf_def)
  then obtain ss1 where mem: "strset_add_str_mem True ss (length s + 1) = Some ss1"
    by (auto simp: strset_add_str_mem_def)
  define off where "off = strs_data_len ss1"
  define ss2 where "ss2 = ss1\<lparr>strs_data := put_bytes off (s @ [0]) (strs_data ss1)\<rparr>"
  have sc: "ss_scratch ss s ss2"
    unfolding ss2_def off_def
    by (rule strset_add_str_mem_facts [OF _ _ mem s]) (use wf in \<open>auto simp: ss_wf_def\<close>)
  have shape: "hm_shape (strs_hash ss2)"
    using scratch_index(1) [OF wf sc] by (simp add: hm_served_def hm_wf_def)
  obtain ret hash old_off old_val where ins:
    "hashmap_insert True True (strs_data ss2) (strs_hash ss2) (word_of_nat off) (word_of_nat off)
       HASHMAP_ADD = (ret, hash, old_off, old_val)"
    by (metis prod.collapse)
  have "ret = None \<or> ret = Some EEXIST"
  proof (cases ret)
    case (Some e)
    with ins have "hashmap_insert True True (strs_data ss2) (strs_hash ss2) (word_of_nat off)
        (word_of_nat off) HASHMAP_ADD = (Some e, hash, old_off, old_val)" by simp
    then show ?thesis
    proof (cases rule: insert_error_cases)
      case no_table
      with hashmap_grow_error [OF shape no_table(1)] sc bits show ?thesis by (simp add: ss_scratch_def)
    qed (use Some in auto)
  qed simp
  with ins mem show ?thesis
    by (auto simp: strset__add_str_def Let_def ss2_def off_def split: option.splits)
qed

text \<open>What an addition does to the limit and to the size of the index.\<close>

lemma hashmap_insert_bits:
  "hashmap_insert c1 c2 ctx m k v strategy = (ret, m', x, y) \<Longrightarrow> cap_bits m' \<le> cap_bits m + 2"
  by (auto simp: hashmap_insert_def hashmap_grow_def Let_def split: option.splits if_splits)

lemma add_str_limits:
  assumes "strset__add_str c1 c2 c3 ss s = (ss', r)"
  shows "strs_data_max_len ss' = strs_data_max_len ss"
    "cap_bits (strs_hash ss') \<le> cap_bits (strs_hash ss) + 2"
  using assms
  by (auto simp: strset__add_str_def strset_add_str_mem_def Let_def
      split: option.splits prod.splits if_splits dest: hashmap_insert_bits)

section \<open>Properties\<close>

text \<open>A concrete set for the witnesses: the block of an empty BTF string section.\<close>

definition sample_set :: strset where
  "sample_set = (case strset__new True True True (\<lambda>_. (True, True)) 2147483647 (Some [0]) of
     Inr ss \<Rightarrow> ss | Inl _ \<Rightarrow> undefined)"

lemma sample_new:
  "strset__new True True True (\<lambda>_. (True, True)) 2147483647 (Some [0]) = Inr sample_set"
proof -
  obtain ss where "strset__new True True True (\<lambda>_. (True, True)) 2147483647 (Some [0]) = Inr ss"
    by (simp add: strset__new_def hashmap__new_def hashmap__init_def strset_index.simps
        hashmap_insert_def Let_def hashmap_find_entry_def hashmap_needs_to_grow_def hashmap_grow_def
        terminated_def cstr_at_def)
  then show ?thesis by (simp add: sample_set_def)
qed

lemma sample_set_wf: "ss_wf sample_set"
  using strset__new_correct [of "[0]" 2147483647 True True True "\<lambda>_. (True, True)"]
  by (simp add: sample_new)


lemma sample_set_eq:
  "sample_set = \<lparr>strs_data = [0], strs_data_len = 1, strs_data_cap = 1, strs_data_max_len = 2147483647,
     strs_hash = \<lparr>hash_fn = strset_hash_fn, equal_fn = strset_equal_fn,
       buckets = [[\<lparr>entry_key = 0, entry_value = 0\<rparr>], [], [], []], cap = 4, cap_bits = 2, sz = 1\<rparr>\<rparr>"
  by (simp add: sample_set_def strset__new_def hashmap__new_def hashmap__init_def strset_index.simps
        hashmap_insert_def Let_def hashmap_find_entry_def hashmap_needs_to_grow_def hashmap_grow_def
        terminated_def cstr_at_def bucket_of_def strset_hash_fn_def str_hash_def hash_bits_def
        hashmap_add_entry_def hashmap_entries_def replicate_4)

lemma sample_set_facts:
  "strs_data_len sample_set = 1" "strs_data_max_len sample_set = 2147483647"
  "cap_bits (strs_hash sample_set) = 2" "ss_knows sample_set t off \<longleftrightarrow> t = [] \<and> off = 0"
  by (auto simp: sample_set_eq ss_knows_def hashmap_entries_def cstr_at_def)

text \<open>
  Property C15: adding a string to a well-formed set returns an offset at which exactly that string
  is stored, keeps every offset handed out before valid for the string it stood for, and keeps
  the set well formed; a string that was known gets an old offset and takes no space, a new one
  is placed at the end of the used part, which grows by its length and its NUL.
\<close>

theorem strset_add_str_interns:
  assumes "ss_wf ss" "0 \<notin> set s"
    and "strset__add_str realloc_ok calloc_ok malloc_ok ss s = (ss', Inr r)"
  shows "ss_wf ss' \<and> ss_knows ss' s (unat r) \<and>
    (\<forall>t off. ss_knows ss t off \<longrightarrow> ss_knows ss' t off) \<and>
    (if \<exists>off. ss_knows ss s off
     then strset__data_size ss' = strset__data_size ss \<and> ss_knows ss s (unat r)
     else strset__data_size ss' = strset__data_size ss + length s + 1 \<and>
          unat r = strset__data_size ss)"
  using add_str_cases [OF assms] by (simp add: strset__data_size_def)

theorem strset_add_str_interns_witness:
  "\<exists>ss' r. strset__add_str True True True sample_set [104, 105] = (ss', Inr r) \<and>
     unat r = 1 \<and> strset__data_size ss' = 4"
proof -
  obtain ss' r where add: "strset__add_str True True True sample_set [104, 105] = (ss', Inr r)"
    using add_str_succeeds [OF sample_set_wf, of "[104, 105]"] by (auto simp: sample_set_facts)
  show ?thesis
    using strset_add_str_interns [OF sample_set_wf _ add] add
    by (simp add: sample_set_facts strset__data_size_def)
qed

text \<open>
  Offsets are names of strings: adding two strings one after the other to a
  well-formed set gives the same offset exactly when the strings are equal.
\<close>

theorem strset_add_str_injective:
  assumes "ss_wf ss" "0 \<notin> set s" "0 \<notin> set t"
    and "strset__add_str ra ca ma ss s = (ss1, Inr r1)"
    and "strset__add_str rb cb mb ss1 t = (ss2, Inr r2)"
  shows "r1 = r2 \<longleftrightarrow> s = t"
proof -
  note one = add_str_cases [OF assms(1,2,4)]
  then have "ss_wf ss1" by simp
  note two = add_str_cases [OF this assms(3,5)]
  have k: "ss_knows ss2 s (unat r1)" "ss_knows ss2 t (unat r2)" using one two by auto
  have unique: "unat r1 = unat r2" if "s = t"
  proof -
    have known: "ss_knows ss1 t (unat r1)" using one that by simp
    then have "ss_knows ss1 t (unat r2)" using two by metis
    then obtain a b where ab: "a \<in> set (hashmap_entries (strs_hash ss1))" "unat (entry_key a) = unat r1"
      "b \<in> set (hashmap_entries (strs_hash ss1))" "unat (entry_key b) = unat r2"
      "cstr_at (strs_data ss1) (unat r1) = cstr_at (strs_data ss1) (unat r2)"
      using known by (auto simp: ss_knows_def)
    have m: "hm_served strset_hash_fn strset_equal_fn (strs_data ss1) (strs_hash ss1)"
      "hm_unique (strs_data ss1) (strs_hash ss1)"
      using one by (auto simp: ss_wf_def)
    have eq: "strset_equal_fn (entry_key b) (entry_key a) (strs_data ss1)"
      using ab by (simp add: strset_equal_fn_def)
    have "b \<in># mset (hashmap_entries (strs_hash ss1)) - {#a#} \<Longrightarrow> False"
      using str_index.found_split [OF m ab(1), of "entry_key a"] eq by (auto simp: strset_equal_fn_def)
    then have "b = a" using ab(3) by (metis in_set_remove1 mset_remove1 set_mset_mset)
    with ab show ?thesis by simp
  qed
  show ?thesis
  proof
    assume "r1 = r2"
    with k show "s = t" by (simp add: ss_knows_def)
  next
    assume "s = t"
    from unique [OF this] show "r1 = r2" by (simp add: word_unat_eq_iff)
  qed
qed

theorem strset_add_str_injective_witness:
  "\<exists>ss1 r1 ss2 r2. strset__add_str True True True sample_set [104] = (ss1, Inr r1) \<and>
     strset__add_str True True True ss1 [105] = (ss2, Inr r2) \<and> r1 \<noteq> r2"
proof -
  obtain ss1 r1 where one: "strset__add_str True True True sample_set [104] = (ss1, Inr r1)"
    using add_str_succeeds [OF sample_set_wf, of "[104]"] by (auto simp: sample_set_facts)
  have c: "ss_wf ss1" "strs_data_len ss1 = 3" "strs_data_max_len ss1 = 2147483647"
    "cap_bits (strs_hash ss1) < 60"
    using add_str_cases [OF sample_set_wf _ one] add_str_limits [OF one]
    by (auto simp: sample_set_facts)
  obtain ss2 r2 where two: "strset__add_str True True True ss1 [105] = (ss2, Inr r2)"
    using add_str_succeeds [OF c(1), of "[105]"] c by auto
  show ?thesis
    using strset_add_str_injective [OF sample_set_wf _ _ one two] one two by auto
qed

text \<open>
  Looking a string up changes neither the strings of the set nor their offsets; it
  returns an offset of the string, or ENOENT exactly when the set does not hold it, or ENOMEM
  when the block cannot be grown to hold the sought string.
\<close>

theorem strset_find_str_exact:
  assumes "ss_wf ss" "0 \<notin> set s" "strset__find_str realloc_ok ss s = (ss', r)"
  shows "ss_wf ss' \<and> strset__data_size ss' = strset__data_size ss \<and>
    (\<forall>t off. ss_knows ss' t off \<longleftrightarrow> ss_knows ss t off) \<and>
    (case r of Inr off \<Rightarrow> ss_knows ss s (unat off)
     | Inl e \<Rightarrow> if e = ENOENT then \<not> (\<exists>off. ss_knows ss s off)
              else e = ENOMEM \<and> strs_data_cap ss < strs_data_len ss + length s + 1)"
  using find_str_cases [OF assms] by (simp add: strset__data_size_def)

theorem strset_find_str_exact_witness:
  "\<exists>ss'. strset__find_str True sample_set [104] = (ss', Inl ENOENT)"
proof -
  obtain ss' r where find: "strset__find_str True sample_set [104] = (ss', r)"
    by fastforce
  have "r \<noteq> Inl ENOMEM"
    using find by (auto simp: sample_set_eq strset__find_str_def Let_def strset_add_str_mem_def
        libbpf_add_mem_def libbpf_reallocarray_def split: option.splits)
  with strset_find_str_exact [OF sample_set_wf _ find] have "r = Inl ENOENT"
    by (cases r) (auto simp: sample_set_facts split: if_splits)
  with find show ?thesis by blast
qed

text \<open>
  Building the index of a block whose last byte is NUL never reads outside of the
  block and, when the allocations succeed, gives a well-formed set that holds every string of
  the block and has the block as its contents.
\<close>

theorem strset_new_indexes_all:
  assumes "data \<noteq> [] \<longrightarrow> last data = 0" "length data \<le> max_sz" "max_sz \<le> 2147483647"
  shows "case strset__new set_ok hash_ok data_ok mem max_sz (Some data) of
      Inl e \<Rightarrow> e \<noteq> UB
    | Inr ss \<Rightarrow> ss_wf ss \<and> strset__data ss = data \<and> strset__data_size ss = length data \<and>
        (\<forall>off \<in> set (str_starts data 0). \<exists>off'. ss_knows ss (cstr_at data off) off')"
  using strset__new_correct [OF assms, of set_ok hash_ok data_ok mem]
  by (simp add: strset__data_def strset__data_size_def split: sum.splits)

theorem strset_new_indexes_all_witness:
  "\<exists>ss. strset__new True True True (\<lambda>_. (True, True)) 2147483647 (Some [0]) = Inr ss \<and>
     ss_knows ss [] 0"
  using strset_new_indexes_all [of "[0]" 2147483647 True True True "\<lambda>_. (True, True)"]
  by (simp add: sample_new sample_set_facts)

end
