(* ===== verification/Nlattr.thy ===== *)
theory Nlattr imports C_Prelude begin

text \<open>
  Netlink attributes of libbpf (\<open>bpf/libbpf/src/nlattr.c\<close>, \<open>nlattr.h\<close>): walking, validating
  and indexing a stream of attributes, and building a request out of attributes.

  An attribute is named by its offset in the byte buffer it stands in; it starts with two 16-bit
  fields, \<open>nla_len\<close> and \<open>nla_type\<close>, and the next one starts at a multiple of four bytes.
  \<open>remaining\<close> is a C \<open>int\<close> and gets negative when the last attribute has no padding.
\<close>

section \<open>Walking a stream\<close>

definition nla_next :: "u8 list \<Rightarrow> nat \<Rightarrow> int \<Rightarrow> (nat \<times> int) res" where
  "nla_next bs nla remaining =
     bindr (rd16 bs nla) (\<lambda>nla_len.
       let totlen = align4 nla_len in Inr (nla + totlen, remaining - int totlen))"

definition nla_ok :: "u8 list \<Rightarrow> nat \<Rightarrow> int \<Rightarrow> bool res" where
  "nla_ok bs nla remaining =
     (if remaining \<ge> 4
      then bindr (rd16 bs nla) (\<lambda>nla_len. Inr (nla_len \<ge> 4 \<and> int nla_len \<le> remaining))
      else Inr False)"

text \<open>\<open>NLA_TYPE_MASK\<close> clears the two top bits of the 16-bit field.\<close>

definition nla_type :: "u8 list \<Rightarrow> nat \<Rightarrow> nat res" where
  "nla_type bs nla = bindr (rd16 bs (nla + 2)) (\<lambda>t. Inr (t mod 16384))"

definition libbpf_nla_data :: "nat \<Rightarrow> nat" where
  "libbpf_nla_data nla = nla + 4"

definition libbpf_nla_len :: "u8 list \<Rightarrow> nat \<Rightarrow> int res" where
  "libbpf_nla_len bs nla = bindr (rd16 bs nla) (\<lambda>nla_len. Inr (int nla_len - 4))"

definition libbpf_nla_getattr_u8 :: "u8 list \<Rightarrow> nat \<Rightarrow> nat res" where
  "libbpf_nla_getattr_u8 bs nla = rd 1 bs (libbpf_nla_data nla)"

definition libbpf_nla_getattr_u16 :: "u8 list \<Rightarrow> nat \<Rightarrow> nat res" where
  "libbpf_nla_getattr_u16 bs nla = rd 2 bs (libbpf_nla_data nla)"

definition libbpf_nla_getattr_u32 :: "u8 list \<Rightarrow> nat \<Rightarrow> nat res" where
  "libbpf_nla_getattr_u32 bs nla = rd 4 bs (libbpf_nla_data nla)"

definition libbpf_nla_getattr_u64 :: "u8 list \<Rightarrow> nat \<Rightarrow> nat res" where
  "libbpf_nla_getattr_u64 bs nla = rd 8 bs (libbpf_nla_data nla)"

definition libbpf_nla_getattr_str :: "u8 list \<Rightarrow> nat \<Rightarrow> u8 list res" where
  "libbpf_nla_getattr_str bs nla =
     (if terminated bs (libbpf_nla_data nla) (length bs)
      then Inr (cstr_at bs (libbpf_nla_data nla)) else Inl UB)"

section \<open>Validation\<close>

datatype nla_kind =
    LIBBPF_NLA_UNSPEC | LIBBPF_NLA_U8 | LIBBPF_NLA_U16 | LIBBPF_NLA_U32 | LIBBPF_NLA_U64
  | LIBBPF_NLA_STRING | LIBBPF_NLA_FLAG | LIBBPF_NLA_MSECS | LIBBPF_NLA_NESTED
  | LIBBPF_NLA_OTHER nat

text \<open>The type of a policy is a 16-bit number; those above \<open>LIBBPF_NLA_TYPE_MAX\<close> are \<open>OTHER\<close>.\<close>

record libbpf_nla_policy =
  pt_type :: nla_kind
  pt_minlen :: nat
  pt_maxlen :: nat

fun nla_attr_minlen :: "nla_kind \<Rightarrow> nat" where
  "nla_attr_minlen LIBBPF_NLA_U8 = 1"
| "nla_attr_minlen LIBBPF_NLA_U16 = 2"
| "nla_attr_minlen LIBBPF_NLA_U32 = 4"
| "nla_attr_minlen LIBBPF_NLA_U64 = 8"
| "nla_attr_minlen LIBBPF_NLA_STRING = 1"
| "nla_attr_minlen LIBBPF_NLA_FLAG = 0"
| "nla_attr_minlen _ = 0"

text \<open>The C function returns \<open>-1\<close> for an invalid attribute, which is \<open>-EPERM\<close>.\<close>

definition validate_nla :: "u8 list \<Rightarrow> nat \<Rightarrow> nat \<Rightarrow> libbpf_nla_policy list \<Rightarrow> unit res" where
  "validate_nla bs nla maxtype policy =
     bindr (nla_type bs nla) (\<lambda>type.
       if type > maxtype then Inr ()
       else if type \<ge> length policy then Inl UB
       else
         (let pt = policy ! type in
          if (\<exists>n. pt_type pt = LIBBPF_NLA_OTHER n) then Inr ()
          else
            (let minlen = (if pt_minlen pt \<noteq> 0 then pt_minlen pt
                           else if pt_type pt \<noteq> LIBBPF_NLA_UNSPEC
                           then nla_attr_minlen (pt_type pt) else 0)
             in bindr (libbpf_nla_len bs nla) (\<lambda>len.
                  if len < int minlen then Inl (Err EPERM)
                  else if pt_maxlen pt \<noteq> 0 \<and> len > int (pt_maxlen pt) then Inl (Err EPERM)
                  else if pt_type pt = LIBBPF_NLA_STRING
                  then bindr (rd 1 bs (libbpf_nla_data nla + nat len - 1)) (\<lambda>last_char.
                         if last_char \<noteq> 0 then Inl (Err EPERM) else Inr ())
                  else Inr ()))))"

section \<open>Indexing a stream\<close>

lemma align4_pos: "4 \<le> n \<Longrightarrow> 0 < align4 n"
  using align4_ge [of n] by simp

text \<open>An attribute that passed \<open>nla_ok\<close> has a length, so the walk makes progress.\<close>

lemma nla_next_decreases:
  "nla_ok bs nla rem = Inr True \<Longrightarrow> nla_next bs nla rem = Inr (nla', rem') \<Longrightarrow>
   rem' < rem \<and> rem \<ge> 4 \<and> nla < nla'"
  by (auto simp: nla_ok_def nla_next_def Let_def bindr_eq_Inr align4_pos split: if_splits)

text \<open>
  The loop \<open>libbpf_nla_for_each_attr\<close> of \<open>libbpf_nla_parse\<close>; \<open>tb\<close> holds the offsets of the
  attributes found, and is left half filled when an attribute is invalid.
\<close>

function nla_parse_loop ::
  "nat option list \<Rightarrow> nat \<Rightarrow> u8 list \<Rightarrow> nat \<Rightarrow> int \<Rightarrow> libbpf_nla_policy list option \<Rightarrow>
   nat option list \<times> unit res" where
  "nla_parse_loop tb maxtype bs nla rem policy =
     (case nla_ok bs nla rem of
        Inl e \<Rightarrow> (tb, Inl e)
      | Inr ok \<Rightarrow>
          if \<not> ok then (tb, Inr ())
          else
            (case nla_next bs nla rem of
               Inl e \<Rightarrow> (tb, Inl e)
             | Inr (nla', rem') \<Rightarrow>
                 (case nla_type bs nla of
                    Inl e \<Rightarrow> (tb, Inl e)
                  | Inr type \<Rightarrow>
                      if type > maxtype then nla_parse_loop tb maxtype bs nla' rem' policy
                      else
                        (case (case policy of None \<Rightarrow> Inr ()
                               | Some p \<Rightarrow> validate_nla bs nla maxtype p) of
                           Inl e \<Rightarrow> (tb, Inl e)
                         | Inr _ \<Rightarrow>
                             nla_parse_loop (tb[type := Some nla]) maxtype bs nla' rem' policy))))"
  by pat_completeness auto
termination
  by (relation "measure (\<lambda>(tb, maxtype, bs, nla, rem, policy). nat rem)")
     (auto dest: nla_next_decreases)

declare nla_parse_loop.simps [simp del]

definition libbpf_nla_parse ::
  "nat \<Rightarrow> u8 list \<Rightarrow> nat \<Rightarrow> int \<Rightarrow> libbpf_nla_policy list option \<Rightarrow> nat option list \<times> unit res" where
  "libbpf_nla_parse maxtype bs head_off len policy =
     nla_parse_loop (replicate (maxtype + 1) None) maxtype bs head_off len policy"

definition libbpf_nla_parse_nested ::
  "nat \<Rightarrow> u8 list \<Rightarrow> nat \<Rightarrow> libbpf_nla_policy list option \<Rightarrow> nat option list \<times> unit res" where
  "libbpf_nla_parse_nested maxtype bs nla policy =
     (case libbpf_nla_len bs nla of
        Inl e \<Rightarrow> (replicate (maxtype + 1) None, Inl e)
      | Inr len \<Rightarrow> libbpf_nla_parse maxtype bs (libbpf_nla_data nla) len policy)"

section \<open>Extended error messages\<close>

text \<open>
  \<open>libbpf_nla_dump_errormsg\<close> on the message at the start of \<open>bs\<close>; the result is the string it
  prints (\<open>Some None\<close>: the attributes hold no message).  Behind the 16 bytes of the header stands
  a \<open>struct nlmsgerr\<close>: the error code and the header of the message that was answered.  Both
  lengths are C \<open>int\<close>s.
\<close>

definition extack_policy :: "libbpf_nla_policy list" where
  "extack_policy =
     [\<lparr>pt_type = LIBBPF_NLA_UNSPEC, pt_minlen = 0, pt_maxlen = 0\<rparr>,
      \<lparr>pt_type = LIBBPF_NLA_STRING, pt_minlen = 0, pt_maxlen = 0\<rparr>,
      \<lparr>pt_type = LIBBPF_NLA_U32, pt_minlen = 0, pt_maxlen = 0\<rparr>,
      \<lparr>pt_type = LIBBPF_NLA_UNSPEC, pt_minlen = 0, pt_maxlen = 0\<rparr>]"

definition nlmsg_payload_len :: "u8 list \<Rightarrow> nat \<Rightarrow> int res" where
  "nlmsg_payload_len bs nlh =
     bindr (rd32 bs nlh) (\<lambda>len. Inr (sint (word_of_int (int len - 16) :: s32)))"

definition libbpf_nla_dump_errormsg :: "u8 list \<Rightarrow> u8 list option option res" where
  "libbpf_nla_dump_errormsg bs =
     bindr (rd16 bs 6) (\<lambda>flags.
       if \<not> bit flags 9 then Inr None
       else bindr (if \<not> bit flags 8
                   then bindr (nlmsg_payload_len bs 20) (\<lambda>n.
                          if 20 + n \<ge> 2 ^ 31 then Inl UB else Inr (20 + n))
                   else Inr 20) (\<lambda>hlen.
              bindr (rd32 bs 0) (\<lambda>len.
                let attr = 16 + hlen; alen = sint (word_of_int (int len - attr) :: s32) in
                if attr < 0 then Inl UB
                else
                  (case libbpf_nla_parse 3 bs (nat attr) alen (Some extack_policy) of
                     (tb, Inl UB) \<Rightarrow> Inl UB | (tb, Inl Hang) \<Rightarrow> Inl Hang
                   | (tb, Inl (Err e)) \<Rightarrow> Inr None
                   | (tb, Inr _) \<Rightarrow>
                       (case tb ! 1 of
                          None \<Rightarrow> Inr (Some None)
                        | Some msg \<Rightarrow>
                            bindr (libbpf_nla_getattr_str bs msg) (\<lambda>m. Inr (Some (Some m))))))))"

section \<open>Building a request\<close>

text \<open>
  \<open>struct libbpf_nla_req\<close> is 164 bytes long: the netlink header (16), the largest member of the
  union (\<open>struct tcmsg\<close>, 20) and the buffer (128).  The header field \<open>nlmsg_len\<close> is kept apart
  from the bytes.
\<close>

record libbpf_nla_req =
  nlmsg_len :: nat
  req_mem :: "u8 list"

definition sizeof_req :: nat where "sizeof_req = 164"

text \<open>\<open>NLMSG_ALIGN\<close> of a 32-bit length.\<close>

definition nlmsg_align :: "nat \<Rightarrow> nat" where
  "nlmsg_align n = (n + 3) mod 2 ^ 32 div 4 * 4"

definition req_tail :: "libbpf_nla_req \<Rightarrow> nat" where
  "req_tail req = nlmsg_align (nlmsg_len req)"

text \<open>
  \<open>data\<close> is what the pointer points at; the alignment of an \<open>int\<close> close to its limit overflows.
  The sum of the two aligned lengths is an unsigned 32-bit number.
\<close>

definition nlattr_add ::
  "libbpf_nla_req \<Rightarrow> nat \<Rightarrow> u8 list option \<Rightarrow> nat \<Rightarrow> libbpf_nla_req \<times> unit res" where
  "nlattr_add req type data len =
     (if len + 7 \<ge> 2 ^ 31 then (req, Inl UB)
      else if (nlmsg_align (nlmsg_len req) + align4 (4 + len)) mod 2 ^ 32 > sizeof_req
      then (req, Inl (Err EMSGSIZE))
      else if (data \<noteq> None) \<noteq> (len \<noteq> 0) then (req, Inl (Err EINVAL))
      else
        (let nla = req_tail req;
             nla_len = (4 + len) mod 2 ^ 16
         in if nla + 4 + len > length (req_mem req) then (req, Inl UB)
            else case data of
              None \<Rightarrow>
                (req\<lparr>req_mem := put_bytes nla (le_bytes 2 nla_len @ le_bytes 2 type) (req_mem req),
                     nlmsg_len := (nlmsg_align (nlmsg_len req) + align4 nla_len) mod 2 ^ 32\<rparr>,
                 Inr ())
            | Some d \<Rightarrow>
                if length d < len then (req, Inl UB)
                else
                  (req\<lparr>req_mem := put_bytes nla (le_bytes 2 nla_len @ le_bytes 2 type @ take len d)
                                   (req_mem req),
                       nlmsg_len := (nlmsg_align (nlmsg_len req) + align4 nla_len) mod 2 ^ 32\<rparr>,
                   Inr ())))"

definition NLA_F_NESTED :: nat where "NLA_F_NESTED = 32768"

text \<open>The pointer result: the offset of the nested attribute, or NULL.\<close>

definition nlattr_begin_nested :: "libbpf_nla_req \<Rightarrow> nat \<Rightarrow> libbpf_nla_req \<times> nat option res" where
  "nlattr_begin_nested req type =
     (let tail = req_tail req in
      case nlattr_add req (or type NLA_F_NESTED) None 0 of
        (req', Inl UB) \<Rightarrow> (req', Inl UB)
      | (req', Inl Hang) \<Rightarrow> (req', Inl Hang)
      | (req', Inl (Err _)) \<Rightarrow> (req', Inr None)
      | (req', Inr _) \<Rightarrow> (req', Inr (Some tail)))"

definition nlattr_end_nested :: "libbpf_nla_req \<Rightarrow> nat \<Rightarrow> libbpf_nla_req" where
  "nlattr_end_nested req tail =
     req\<lparr>req_mem := put_bytes tail (le_bytes 2 ((req_tail req - tail) mod 2 ^ 16)) (req_mem req)\<rparr>"

section \<open>The attributes of a stream\<close>

definition nla_len_of :: "u8 list \<Rightarrow> nat \<Rightarrow> nat" where
  "nla_len_of bs nla = le_nat (take 2 (drop nla bs))"

definition nla_type_of :: "u8 list \<Rightarrow> nat \<Rightarrow> nat" where
  "nla_type_of bs nla = le_nat (take 2 (drop (nla + 2) bs)) mod 16384"

definition nla_payload :: "u8 list \<Rightarrow> nat \<Rightarrow> u8 list" where
  "nla_payload bs nla = take (nla_len_of bs nla - 4) (drop (nla + 4) bs)"

text \<open>The offsets of the attributes that the walk visits.\<close>

function nla_stream :: "u8 list \<Rightarrow> nat \<Rightarrow> int \<Rightarrow> nat list" where
  "nla_stream bs nla rem =
     (if rem \<ge> 4 \<and> nla_len_of bs nla \<ge> 4 \<and> int (nla_len_of bs nla) \<le> rem
      then nla # nla_stream bs (nla + align4 (nla_len_of bs nla)) (rem - int (align4 (nla_len_of bs nla)))
      else [])"
  by pat_completeness auto
termination
  by (relation "measure (\<lambda>(bs, nla, rem). nat rem)") (auto simp: align4_pos)

declare nla_stream.simps [simp del]

text \<open>A policy accepts an attribute.\<close>

definition nla_valid :: "libbpf_nla_policy list option \<Rightarrow> nat \<Rightarrow> u8 list \<Rightarrow> nat \<Rightarrow> bool" where
  "nla_valid policy maxtype bs nla \<longleftrightarrow>
     (case policy of None \<Rightarrow> True
      | Some p \<Rightarrow> nla_type_of bs nla > maxtype \<or>
         (let pt = p ! nla_type_of bs nla; data = nla_payload bs nla in
          case pt_type pt of
            LIBBPF_NLA_OTHER n \<Rightarrow> True
          | k \<Rightarrow> (if pt_minlen pt \<noteq> 0 then pt_minlen pt else nla_attr_minlen k) \<le> length data \<and>
                (pt_maxlen pt = 0 \<or> length data \<le> pt_maxlen pt) \<and>
                (k = LIBBPF_NLA_STRING \<longrightarrow> last data = 0)))"

text \<open>Inside the buffer the reads succeed.\<close>

lemma nla_ok_eq:
  assumes room: "int nla + rem \<le> int (length bs)"
  shows "nla_ok bs nla rem =
     Inr (rem \<ge> 4 \<and> nla_len_of bs nla \<ge> 4 \<and> int (nla_len_of bs nla) \<le> rem)"
  using room by (auto simp: nla_ok_def nla_len_of_def rd_def)

lemma nla_next_eq:
  assumes room: "int nla + rem \<le> int (length bs)"
  shows "rem \<ge> 4 \<Longrightarrow> nla_next bs nla rem =
     Inr (nla + align4 (nla_len_of bs nla), rem - int (align4 (nla_len_of bs nla)))"
  using room by (auto simp: nla_next_def nla_len_of_def rd_def Let_def)

lemma nla_type_eq:
  assumes room: "int nla + rem \<le> int (length bs)"
  shows "rem \<ge> 4 \<Longrightarrow> nla_type bs nla = Inr (nla_type_of bs nla)"
  using room by (auto simp: nla_type_def nla_type_of_def rd_def)

lemma length_nla_payload:
  assumes room: "int nla + rem \<le> int (length bs)"
  shows "int (nla_len_of bs nla) \<le> rem \<Longrightarrow> length (nla_payload bs nla) = nla_len_of bs nla - 4"
  using room by (auto simp: nla_payload_def)

lemma validate_nla_eq:
  assumes room: "int nla + rem \<le> int (length bs)"
    and "rem \<ge> 4" "nla_len_of bs nla \<ge> 4" "int (nla_len_of bs nla) \<le> rem" "maxtype < length p"
  shows "validate_nla bs nla maxtype p =
    (if nla_valid (Some p) maxtype bs nla then Inr () else Inl (Err EPERM))"
proof -
  let ?d = "nla_payload bs nla"
  have len: "length ?d = nla_len_of bs nla - 4" by (rule length_nla_payload [OF room assms(4)])
  have l: "libbpf_nla_len bs nla = Inr (int (length ?d))"
    using room assms(2,3) len by (simp add: libbpf_nla_len_def rd_def nla_len_of_def of_nat_diff)
  have last: "rd 1 bs (libbpf_nla_data nla + length ?d - 1) = Inr (unat (last ?d))" if "?d \<noteq> []"
  proof -
    have "length ?d > 0" using that by simp
    then have n: "nla + 4 + length ?d - 1 < length bs" "length ?d > 0"
      using room assms(4) len by auto
    then have "take 1 (drop (nla + 4 + length ?d - 1) bs) = [bs ! (nla + 4 + length ?d - 1)]"
      by (simp add: take_Suc_conv_app_nth hd_drop_conv_nth take_Suc)
    moreover have "last ?d = bs ! (nla + 4 + (length ?d - 1))"
      using that n len by (simp add: last_conv_nth) (simp add: nla_payload_def)
    ultimately show ?thesis using n by (simp add: rd_def libbpf_nla_data_def)
  qed
  show ?thesis
  proof (cases "nla_type_of bs nla > maxtype")
    case True
    then show ?thesis by (simp add: validate_nla_def nla_type_eq [OF room assms(2)] nla_valid_def)
  next
    case False
    then have t: "nla_type_of bs nla < length p" using assms(5) by simp
    show ?thesis
      using False t last
      by (cases "pt_type (p ! nla_type_of bs nla)"; cases "?d = []")
         (auto simp: validate_nla_def nla_type_eq [OF room assms(2)] nla_valid_def l Let_def unsigned_eq_0_iff Suc_le_eq)
  qed
qed

text \<open>The loop in terms of the visited attributes.\<close>

definition tb_put :: "nat \<Rightarrow> u8 list \<Rightarrow> nat option list \<Rightarrow> nat \<Rightarrow> nat option list" where
  "tb_put maxtype bs tb nla =
     (if nla_type_of bs nla > maxtype then tb else tb[nla_type_of bs nla := Some nla])"

lemma nla_parse_loop_spec:
  assumes "int nla + rem \<le> int (length bs)" "policy \<noteq> None \<longrightarrow> maxtype < length (the policy)"
  shows "snd (nla_parse_loop tb maxtype bs nla rem policy) =
      (if \<forall>o' \<in> set (nla_stream bs nla rem). nla_valid policy maxtype bs o' then Inr () else Inl (Err EPERM)) \<and>
    (snd (nla_parse_loop tb maxtype bs nla rem policy) = Inr () \<longrightarrow>
     fst (nla_parse_loop tb maxtype bs nla rem policy) =
       foldl (tb_put maxtype bs) tb (nla_stream bs nla rem))"
  using assms
proof (induction tb maxtype bs nla rem policy rule: nla_parse_loop.induct)
  case (1 tb maxtype bs nla rem policy)
  note room = "1.prems"(1)
  let ?len = "nla_len_of bs nla"
  let ?ok = "rem \<ge> 4 \<and> ?len \<ge> 4 \<and> int ?len \<le> rem"
  show ?case
  proof (cases ?ok)
    case False
    then have "nla_stream bs nla rem = []" by (subst nla_stream.simps) auto
    with False show ?thesis
      by (simp add: nla_parse_loop.simps [of tb] nla_ok_eq [OF room])
  next
    case True
    note eqs = nla_ok_eq [OF room] nla_next_eq [OF room] nla_type_eq [OF room]
    have st: "nla_stream bs nla rem =
        nla # nla_stream bs (nla + align4 ?len) (rem - int (align4 ?len))"
      using True by (subst nla_stream.simps) simp
    have room': "int (nla + align4 ?len) + (rem - int (align4 ?len)) \<le> int (length bs)"
      using room by simp
    note ok = nla_ok_eq [OF room, unfolded eqTrueI [OF True]]
    show ?thesis
    proof (cases "nla_type_of bs nla > maxtype")
      case big: True
      have "nla_parse_loop tb maxtype bs nla rem policy =
          nla_parse_loop tb maxtype bs (nla + align4 ?len) (rem - int (align4 ?len)) policy"
        using True big by (subst nla_parse_loop.simps) (simp add: eqs)
      moreover have "nla_valid policy maxtype bs nla"
        using big by (simp add: nla_valid_def split: option.splits)
      ultimately show ?thesis
        using "1.IH"(1) [OF ok _ nla_next_eq [OF room] _ nla_type_eq [OF room] big room' "1.prems"(2)]
          True big by (simp add: st tb_put_def)
    next
      case small: False
      have v: "(case policy of None \<Rightarrow> Inr () | Some p \<Rightarrow> validate_nla bs nla maxtype p) =
          (if nla_valid policy maxtype bs nla then Inr () else Inl (Err EPERM))"
        using True "1.prems"(2) validate_nla_eq [OF room, of maxtype "the policy"]
        by (cases policy) (auto simp: nla_valid_def)
      show ?thesis
      proof (cases "nla_valid policy maxtype bs nla")
        case False
        then show ?thesis
          using True small v by (subst (1 2 3) nla_parse_loop.simps) (simp add: eqs st)
      next
        case valid: True
        then have "nla_parse_loop tb maxtype bs nla rem policy =
          nla_parse_loop (tb[nla_type_of bs nla := Some nla]) maxtype bs (nla + align4 ?len)
            (rem - int (align4 ?len)) policy"
          using True small v by (subst nla_parse_loop.simps) (simp add: eqs)
        then show ?thesis
          using "1.IH"(2) [OF ok _ nla_next_eq [OF room] _ nla_type_eq [OF room] small _ room' "1.prems"(2)]
            True small valid v by (simp add: st tb_put_def)
      qed
    qed
  qed
qed

text \<open>Every visited attribute lies inside the stream.\<close>

lemma nla_stream_inside:
  assumes "o' \<in> set (nla_stream bs nla rem)"
  shows "nla \<le> o' \<and> nla_len_of bs o' \<ge> 4 \<and> int (o' + nla_len_of bs o') \<le> int nla + rem"
  using assms
proof (induction bs nla rem rule: nla_stream.induct)
  case (1 bs nla rem)
  show ?case
  proof (cases "rem \<ge> 4 \<and> nla_len_of bs nla \<ge> 4 \<and> int (nla_len_of bs nla) \<le> rem")
    case True
    with 1 show ?thesis
      by (subst (asm) nla_stream.simps) auto
  next
    case False
    with "1.prems" show ?thesis by (subst (asm) nla_stream.simps) (auto split: if_splits)
  qed
qed

lemma foldl_tb_put:
  assumes "t \<le> maxtype" "maxtype < length tb"
  shows "length (foldl (tb_put maxtype bs) tb os) = length tb \<and>
    foldl (tb_put maxtype bs) tb os ! t =
      (case filter (\<lambda>o'. nla_type_of bs o' = t) os of [] \<Rightarrow> tb ! t | os' \<Rightarrow> Some (last os'))"
  using assms
  by (induction os rule: rev_induct)
     (auto simp: tb_put_def nth_list_update split: list.splits)

section \<open>Streams under construction\<close>

text \<open>
  \<open>nla_chain bs off fin os\<close>: the attributes at \<open>os\<close> fill the bytes from \<open>off\<close> to \<open>fin\<close>
  without a gap, each padded to a multiple of four.
\<close>

fun nla_chain :: "u8 list \<Rightarrow> nat \<Rightarrow> nat \<Rightarrow> nat list \<Rightarrow> bool" where
  "nla_chain bs off fin [] \<longleftrightarrow> off = fin"
| "nla_chain bs off fin (p # os) \<longleftrightarrow>
     p = off \<and> nla_len_of bs p \<ge> 4 \<and> off + align4 (nla_len_of bs p) \<le> fin \<and>
     nla_chain bs (off + align4 (nla_len_of bs p)) fin os"

lemma nla_chain_le: "nla_chain bs off fin os \<Longrightarrow> off \<le> fin"
  by (cases os) auto

lemma nla_chain_stream:
  "nla_chain bs off fin os \<Longrightarrow> nla_stream bs off (int fin - int off) = os"
proof (induction os arbitrary: off)
  case (Cons p os)
  then have "nla_stream bs (off + align4 (nla_len_of bs off))
      (int fin - int off - int (align4 (nla_len_of bs off))) = os"
    using Cons.IH [of "off + align4 (nla_len_of bs off)"] by (auto simp: algebra_simps)
  with Cons.prems align4_ge [of "nla_len_of bs off"] show ?case
    by (subst nla_stream.simps) auto
qed (simp add: nla_stream.simps)

lemma nla_chain_append:
  "nla_chain bs off fin (xs @ ys) \<longleftrightarrow> (\<exists>mid. nla_chain bs off mid xs \<and> nla_chain bs mid fin ys)"
proof (induction xs arbitrary: off)
  case (Cons x xs)
  then show ?case by (auto dest: nla_chain_le intro: order_trans)
qed (auto dest: nla_chain_le)

text \<open>The attribute that stands at an offset: its type field and its payload.\<close>

definition nla_fields :: "u8 list \<Rightarrow> nat \<Rightarrow> nat \<times> u8 list" where
  "nla_fields bs nla = (le_nat (take 2 (drop (nla + 2) bs)), nla_payload bs nla)"

text \<open>The bytes between two offsets decide about the attributes between them.\<close>

definition same_between :: "nat \<Rightarrow> nat \<Rightarrow> u8 list \<Rightarrow> u8 list \<Rightarrow> bool" where
  "same_between lo hi bs bs' \<longleftrightarrow> take (hi - lo) (drop lo bs') = take (hi - lo) (drop lo bs)"

lemma same_between_take:
  assumes "same_between lo hi bs bs'" "lo \<le> off" "off + n \<le> hi"
  shows "take n (drop off bs') = take n (drop off bs)"
proof -
  have "take n (drop off xs) = take n (drop (off - lo) (take (hi - lo) (drop lo xs)))" for xs :: "u8 list"
    using assms(2,3) by (simp add: drop_take min_absorb1)
  with assms(1) show ?thesis by (simp add: same_between_def)
qed

lemma same_between_prefix: "take hi bs' = take hi bs \<Longrightarrow> same_between lo hi bs bs'"
  by (simp add: same_between_def flip: drop_take)

lemma same_between_put:
  "off + length xs \<le> length bs \<Longrightarrow> off + length xs \<le> lo \<Longrightarrow> same_between lo hi bs (put_bytes off xs bs)"
  by (simp add: same_between_def put_bytes_def)

lemma nla_at_cong:
  assumes "same_between lo hi bs bs'" "lo \<le> o'" "o' + 4 \<le> hi" "o' + nla_len_of bs o' \<le> hi"
  shows "nla_len_of bs' o' = nla_len_of bs o'" "nla_fields bs' o' = nla_fields bs o'"
proof -
  note c = same_between_take [OF assms(1)]
  show l: "nla_len_of bs' o' = nla_len_of bs o'"
    using c [of o' 2] assms by (simp add: nla_len_of_def)
  have "nla_payload bs' o' = nla_payload bs o'"
    unfolding nla_payload_def l using c [of "o' + 4" "nla_len_of bs o' - 4"] assms
    by (cases "nla_len_of bs o' \<ge> 4") auto
  then show "nla_fields bs' o' = nla_fields bs o'"
    using c [of "o' + 2" 2] assms by (simp add: nla_fields_def)
qed

lemma nla_chain_cong:
  assumes "same_between lo hi bs bs'" "nla_chain bs off fin os" "lo \<le> off" "fin \<le> hi"
  shows "nla_chain bs' off fin os \<and> map (nla_fields bs') os = map (nla_fields bs) os"
  using assms(2-)
proof (induction os arbitrary: off)
  case (Cons p os)
  have fits: "p + 4 \<le> hi" "p + nla_len_of bs p \<le> hi" "lo \<le> p"
    using Cons.prems align4_ge [of "nla_len_of bs p"] by auto
  from Cons nla_at_cong [OF assms(1) fits(3,1,2)] show ?case by auto
qed simp

text \<open>A request under construction: the attributes at \<open>os\<close> follow the \<open>base\<close> bytes of headers.\<close>

definition req_chain :: "nat \<Rightarrow> libbpf_nla_req \<Rightarrow> nat list \<Rightarrow> bool" where
  "req_chain base req os \<longleftrightarrow>
     length (req_mem req) = sizeof_req \<and> 4 dvd base \<and> 4 dvd nlmsg_len req \<and>
     nlmsg_len req \<le> sizeof_req \<and> nla_chain (req_mem req) base (nlmsg_len req) os"

lemma nlmsg_align_id: "4 dvd n \<Longrightarrow> n \<le> sizeof_req \<Longrightarrow> nlmsg_align n = n"
  unfolding nlmsg_align_def sizeof_req_def by (auto elim!: dvdE)

lemma drop_put_bytes_inside:
  "off + length xs \<le> length bs \<Longrightarrow> k + n \<le> length xs \<Longrightarrow>
   take n (drop (off + k) (put_bytes off xs bs)) = take n (drop k xs)"
  by (simp add: put_bytes_def)

lemma nlattr_add_success:
  assumes chain: "req_chain base req os" and ty: "type < 2 ^ 16"
    and data: "data = None \<and> d = [] \<or> data = Some d" and len: "len = length d"
    and add: "nlattr_add req type data len = (req', Inr u)"
  shows "req_chain base req' (os @ [nlmsg_len req])" "take (nlmsg_len req) (req_mem req') = take (nlmsg_len req) (req_mem req)"
    "nla_fields (req_mem req') (nlmsg_len req) = (type, d)"
    "nlmsg_len req' = nlmsg_len req + align4 (4 + length d)"
    "nla_len_of (req_mem req') (nlmsg_len req) = 4 + length d"
proof -
  let ?tail = "nlmsg_len req" and ?b = "le_bytes 2 (4 + length d) @ le_bytes 2 type @ d"
  have c: "length (req_mem req) = sizeof_req" "4 dvd ?tail" "?tail \<le> sizeof_req"
    "nla_chain (req_mem req) base ?tail os" "4 dvd base"
    using chain by (auto simp: req_chain_def)
  note al = nlmsg_align_id [OF c(2,3)]
  have small: "length d + 7 < 2 ^ 31" using add len by (auto simp: nlattr_add_def split: if_splits)
  then have lt: "nlmsg_align ?tail + align4 (4 + length d) < 2 ^ 32"
    using align4_less [of "4 + length d"] c(3) al by (simp add: sizeof_req_def)
  then have fit: "?tail + align4 (4 + length d) \<le> sizeof_req"
    using add len small al by (auto simp: nlattr_add_def split: if_splits)
  then have l16: "4 + length d < 65536" "?tail + (4 + length d) \<le> sizeof_req"
    using align4_ge [of "4 + length d"] by (auto simp: sizeof_req_def)
  have mem: "req_mem req' = put_bytes ?tail ?b (req_mem req)"
    "nlmsg_len req' = ?tail + align4 (4 + length d)"
    using add len data small lt fit al l16 c(1)
    by (auto simp: nlattr_add_def req_tail_def Let_def split: if_splits option.splits)
  have inside: "?tail + length ?b \<le> length (req_mem req)" using l16(2) c(1) by simp
  show keep: "take ?tail (req_mem req') = take ?tail (req_mem req)"
    using put_bytes_before [OF inside, of ?tail] by (simp add: mem)
  show len2: "nla_len_of (req_mem req') ?tail = 4 + length d"
    using drop_put_bytes_inside [OF inside, of 0 2] l16(1)
    by (simp add: nla_len_of_def mem(1) le_nat_le_bytes)
  have pay: "nla_payload (req_mem req') ?tail = d"
    using drop_put_bytes_inside [OF inside, of 4 "length d"] len2
    by (simp add: nla_payload_def mem(1))
  have "le_nat (take 2 (drop (?tail + 2) (req_mem req'))) = type"
    using drop_put_bytes_inside [OF inside, of 2 2] ty
    by (simp add: mem(1) le_nat_le_bytes)
  with pay show "nla_fields (req_mem req') ?tail = (type, d)" by (simp add: nla_fields_def)
  show "nlmsg_len req' = ?tail + align4 (4 + length d)" by (rule mem)
  have "nla_chain (req_mem req') base ?tail os"
    using nla_chain_cong [OF same_between_prefix [OF keep] c(4)] by blast
  moreover have "nla_chain (req_mem req') ?tail (nlmsg_len req') [?tail]"
    using len2 by (simp add: mem(2))
  ultimately have "nla_chain (req_mem req') base (nlmsg_len req') (os @ [?tail])"
    by (auto simp: nla_chain_append)
  then show "req_chain base req' (os @ [?tail])"
    using c fit inside by (simp add: req_chain_def mem)
qed

text \<open>Adding attributes one after the other.\<close>

fun nlattr_adds :: "libbpf_nla_req \<Rightarrow> (nat \<times> u8 list) list \<Rightarrow> libbpf_nla_req \<times> unit res" where
  "nlattr_adds req [] = (req, Inr ())"
| "nlattr_adds req ((type, d) # as) =
     (case nlattr_add req type (if d = [] then None else Some d) (length d) of
        (req', Inl e) \<Rightarrow> (req', Inl e)
      | (req', Inr _) \<Rightarrow> nlattr_adds req' as)"

lemma nlattr_adds_success:
  assumes "req_chain base req os" "\<forall>(type, d) \<in> set as. type < 2 ^ 16"
    and "nlattr_adds req as = (req', Inr u)"
  shows "\<exists>new. req_chain base req' (os @ new) \<and> map (nla_fields (req_mem req')) new = as \<and>
    take (nlmsg_len req) (req_mem req') = take (nlmsg_len req) (req_mem req) \<and>
    nlmsg_len req \<le> nlmsg_len req'"
  using assms
proof (induction as arbitrary: req os)
  case (Cons a as)
  obtain type d where a: "a = (type, d)" by force
  obtain req1 where one: "nlattr_add req type (if d = [] then None else Some d) (length d) = (req1, Inr ())"
    and rest: "nlattr_adds req1 as = (req', Inr u)"
    using Cons.prems(3) by (auto simp: a split: prod.splits sum.splits)
  have "type < 2 ^ 16" "(if d = [] then None else Some d) = None \<and> d = [] \<or>
      (if d = [] then None else Some d) = Some d"
    using Cons.prems(2) by (auto simp: a)
  note s = nlattr_add_success [OF Cons.prems(1) this refl one]
  from Cons.IH [OF s(1) _ rest] Cons.prems(2) obtain new where new:
    "req_chain base req' ((os @ [nlmsg_len req]) @ new)" "map (nla_fields (req_mem req')) new = as"
    "take (nlmsg_len req1) (req_mem req') = take (nlmsg_len req1) (req_mem req1)"
    "nlmsg_len req1 \<le> nlmsg_len req'" by auto
  have le: "nlmsg_len req + (4 + length d) \<le> nlmsg_len req1"
    using s(4) align4_ge [of "4 + length d"] by simp
  have "nla_len_of (req_mem req1) (nlmsg_len req) = 4 + length d"
    by (rule s(5))
  then have "nla_fields (req_mem req') (nlmsg_len req) = nla_fields (req_mem req1) (nlmsg_len req)"
    using nla_at_cong(2) [OF same_between_prefix [OF new(3)], of 0 "nlmsg_len req"] le by simp
  moreover have "take (nlmsg_len req) (req_mem req') = take (nlmsg_len req) (req_mem req)"
    using arg_cong [OF new(3), of "take (nlmsg_len req)"] s(2) le by (simp add: min_absorb1)
  ultimately show ?case
    using new s(3) le by (intro exI [of _ "nlmsg_len req # new"]) (simp add: a)
qed simp

text \<open>A nested attribute encloses what is added between its begin and its end.\<close>

lemma nested_success:
  assumes chain: "req_chain base req os" and ty: "type < 2 ^ 16"
    and b: "nlattr_begin_nested req type = (req1, Inr (Some tail))"
    and inner: "\<forall>(t, d) \<in> set as. t < 2 ^ 16" and adds: "nlattr_adds req1 as = (req2, Inr u)"
  defines "req3 \<equiv> nlattr_end_nested req2 tail"
  shows "req_chain base req3 (os @ [tail]) \<and> tail = nlmsg_len req \<and>
    map (nla_fields (req_mem req3)) os = map (nla_fields (req_mem req)) os \<and>
    fst (nla_fields (req_mem req3) tail) = or type NLA_F_NESTED \<and>
    (\<exists>new. nla_chain (req_mem req3) (tail + 4) (nlmsg_len req3) new \<and>
       map (nla_fields (req_mem req3)) new = as) \<and>
    tail + nla_len_of (req_mem req3) tail = nlmsg_len req3"
proof -
  have c: "4 dvd nlmsg_len req" "nlmsg_len req \<le> sizeof_req" using chain by (auto simp: req_chain_def)
  have add: "nlattr_add req (or type NLA_F_NESTED) None 0 = (req1, Inr ())"
    and tail: "tail = nlmsg_len req"
    using b nlmsg_align_id [OF c]
    by (auto simp: nlattr_begin_nested_def Let_def req_tail_def split: prod.splits sum.splits fault.splits)
  have "take_bit 16 (or type NLA_F_NESTED) = or type NLA_F_NESTED"
    using ty by (simp only: take_bit_or) (simp add: take_bit_nat_eq_self NLA_F_NESTED_def)
  then have "or type NLA_F_NESTED < 2 ^ 16" by (simp only: take_bit_nat_eq_self_iff)
  note s = nlattr_add_success [OF chain this, of None "[]", OF _ _ add, simplified]
  have base1: "req_chain (tail + 4) req1 []"
    using s(1,4) c(1) by (simp add: req_chain_def tail)
  from nlattr_adds_success [OF this inner adds] obtain new where new:
    "req_chain (tail + 4) req2 new" "map (nla_fields (req_mem req2)) new = as"
    "take (nlmsg_len req1) (req_mem req2) = take (nlmsg_len req1) (req_mem req1)"
    "nlmsg_len req1 \<le> nlmsg_len req2" by auto
  have n2: "4 dvd nlmsg_len req2" "nlmsg_len req2 \<le> sizeof_req" "length (req_mem req2) = sizeof_req"
    "nla_chain (req_mem req2) (tail + 4) (nlmsg_len req2) new" "tail + 4 \<le> nlmsg_len req2"
    using new(1,4) s(4) by (auto simp: req_chain_def tail)
  define L where "L = nlmsg_len req2 - tail"
  have L: "4 dvd L" "L \<ge> 4" "L < 65536" "tail + L = nlmsg_len req2"
    using n2 c by (auto simp: L_def sizeof_req_def tail)
  have r3: "req_mem req3 = put_bytes tail (le_bytes 2 L) (req_mem req2)"
    "nlmsg_len req3 = nlmsg_len req2"
    using nlmsg_align_id [OF n2(1,2)] L(3)
    by (simp_all add: req3_def nlattr_end_nested_def req_tail_def L_def)
  have inside: "tail + length (le_bytes 2 L) \<le> length (req_mem req2)" using n2 by simp
  have len3: "nla_len_of (req_mem req3) tail = L"
    using drop_put_bytes_inside [OF inside, of 0 2] L(3) by (simp add: nla_len_of_def r3 le_nat_le_bytes)
  have "same_between (tail + 2) (nlmsg_len req3) (req_mem req2) (req_mem req3)"
    unfolding r3(1) by (rule same_between_put [OF inside]) simp
  note sb = this
  have inner3: "nla_chain (req_mem req3) (tail + 4) (nlmsg_len req3) new"
    "map (nla_fields (req_mem req3)) new = as"
    using nla_chain_cong [OF sb, of "tail + 4" "nlmsg_len req3" new] n2 new(2) r3(2) by auto
  have "fst (nla_fields (req_mem req3) tail) = fst (nla_fields (req_mem req2) tail)"
    using same_between_take [OF sb, of "tail + 2" 2] n2(5) r3(2) by (simp add: nla_fields_def)
  also have "\<dots> = fst (nla_fields (req_mem req1) tail)"
    using same_between_take [OF same_between_prefix [OF new(3)], of 0 "tail + 2" 2] s(4)
    by (simp add: nla_fields_def tail)
  finally have type3: "fst (nla_fields (req_mem req3) tail) = or type NLA_F_NESTED"
    using s(3) by (simp add: tail)
  have pre: "take tail (req_mem req3) = take tail (req_mem req)"
    using put_bytes_before [OF inside, of tail] arg_cong [OF new(3), of "take tail"] s(2,4)
    by (simp add: r3 tail min_absorb1)
  have "nla_chain (req_mem req) base tail os" using chain by (simp add: req_chain_def tail)
  from nla_chain_cong [OF same_between_prefix [OF pre] this]
  have outer: "nla_chain (req_mem req3) base tail os"
    "map (nla_fields (req_mem req3)) os = map (nla_fields (req_mem req)) os" by blast+
  have "nla_chain (req_mem req3) base (nlmsg_len req3) (os @ [tail])"
    using outer L by (auto simp: nla_chain_append len3 r3(2))
  then have "req_chain base req3 (os @ [tail])"
    using chain n2 inside by (simp add: req_chain_def r3)
  with tail outer(2) type3 inner3 len3 L(4) r3(2) show ?thesis by auto
qed

lemma nla_parse_spec:
  assumes "int off + len \<le> int (length bs)" "policy \<noteq> None \<longrightarrow> maxtype < length (the policy)"
    and "libbpf_nla_parse maxtype bs off len policy = (tb, r)"
  shows "r = (if \<forall>a \<in> set (nla_stream bs off len). nla_valid policy maxtype bs a
              then Inr () else Inl (Err EPERM)) \<and>
    (r = Inr () \<longrightarrow> length tb = maxtype + 1 \<and>
      (\<forall>t \<le> maxtype. tb ! t =
         (case filter (\<lambda>a. nla_type_of bs a = t) (nla_stream bs off len) of
            [] \<Rightarrow> None | as \<Rightarrow> Some (last as))))"
proof -
  define tb0 where "tb0 = replicate (maxtype + 1) (None :: nat option)"
  have len0: "length tb0 = maxtype + 1" "\<And>t. t \<le> maxtype \<Longrightarrow> tb0 ! t = None"
    unfolding tb0_def by (simp, metis le_imp_less_Suc nth_replicate Suc_eq_plus1)
  note spec = nla_parse_loop_spec [OF assms(1,2), of tb0]
  have r: "r = snd (nla_parse_loop tb0 maxtype bs off len policy)"
    and tb: "tb = fst (nla_parse_loop tb0 maxtype bs off len policy)"
    using assms(3) by (simp_all add: libbpf_nla_parse_def tb0_def)
  have tbs: "length tb = maxtype + 1 \<and>
      tb ! t = (case filter (\<lambda>a. nla_type_of bs a = t) (nla_stream bs off len) of
            [] \<Rightarrow> None | as \<Rightarrow> Some (last as))" if "r = Inr ()" "t \<le> maxtype" for t
    using foldl_tb_put [OF that(2), of tb0 bs "nla_stream bs off len"] spec that
    by (auto simp: r tb len0 split: list.splits)
  from spec tbs [of 0] tbs show ?thesis by (auto simp: r)
qed

text \<open>An attribute of type 1 that the policy of extended errors accepts ends in a NUL.\<close>

lemma extack_msg_terminated:
  assumes room: "int off + rem \<le> int (length bs)" and msg: "msg \<in> set (nla_stream bs off rem)"
    and ty: "nla_type_of bs msg = 1" and valid: "nla_valid (Some extack_policy) 3 bs msg"
  shows "libbpf_nla_getattr_str bs msg \<noteq> Inl UB"
proof -
  let ?d = "nla_payload bs msg"
  note inside = nla_stream_inside [OF msg]
  have "pt_type (extack_policy ! 1) = LIBBPF_NLA_STRING" "pt_minlen (extack_policy ! 1) = 0"
    by (simp_all add: extack_policy_def)
  then have d: "?d \<noteq> []" "last ?d = 0"
    using valid by (auto simp: nla_valid_def ty Let_def split: if_splits)
  have "drop (msg + 4) bs = ?d @ drop (nla_len_of bs msg - 4) (drop (msg + 4) bs)"
    by (simp only: nla_payload_def append_take_drop_id)
  moreover have "0 \<in> set ?d" using last_in_set [OF d(1)] d(2) by simp
  ultimately have "0 \<in> set (drop (msg + 4) bs)" by (metis Un_iff set_append)
  then have "length (takeWhile (\<lambda>b. b \<noteq> 0) (drop (msg + 4) bs)) < length (drop (msg + 4) bs)"
    by (intro takeWhile_shorter) auto
  then have "terminated bs (msg + 4) (length bs)" by (simp add: terminated_def cstr_at_def)
  then show ?thesis by (simp add: libbpf_nla_getattr_str_def libbpf_nla_data_def)
qed

lemma errormsg_parse_safe:
  assumes room: "int off + rem \<le> int (length bs)"
    and parse: "libbpf_nla_parse 3 bs off rem (Some extack_policy) = (tb, r)"
  shows "r \<noteq> Inl UB" "r = Inr () \<Longrightarrow> tb ! 1 = Some msg \<Longrightarrow> libbpf_nla_getattr_str bs msg \<noteq> Inl UB"
proof -
  have "Some extack_policy \<noteq> None \<longrightarrow> 3 < length (the (Some extack_policy))"
    by (simp add: extack_policy_def)
  note spec = nla_parse_spec [OF room this parse]
  then show "r \<noteq> Inl UB" by (simp split: if_splits)
  assume r: "r = Inr ()" and tb: "tb ! 1 = Some msg"
  let ?st = "nla_stream bs off rem"
  have valid: "\<forall>a \<in> set ?st. nla_valid (Some extack_policy) 3 bs a" using spec r by (simp split: if_splits)
  have "tb ! 1 = (case filter (\<lambda>a. nla_type_of bs a = 1) ?st of [] \<Rightarrow> None | as \<Rightarrow> Some (last as))"
    using spec r by simp
  then have "filter (\<lambda>a. nla_type_of bs a = 1) ?st \<noteq> []" "msg = last (filter (\<lambda>a. nla_type_of bs a = 1) ?st)"
    using tb by (auto split: list.splits)
  then have "msg \<in> set (filter (\<lambda>a. nla_type_of bs a = 1) ?st)" by (metis last_in_set)
  then show "libbpf_nla_getattr_str bs msg \<noteq> Inl UB"
    using extack_msg_terminated [OF room] valid by auto
qed

section \<open>Properties\<close>

text \<open>
  Property C28: parsing reads only the stream: it never leaves the buffer, fails exactly when the
  policy rejects one of the attributes whose type is in range, and otherwise gives for every
  type up to \<open>maxtype\<close> the last attribute of that type, if there is one.
\<close>

theorem nla_parse_exact:
  assumes "int off + len \<le> int (length bs)" "policy \<noteq> None \<longrightarrow> maxtype < length (the policy)"
    and "libbpf_nla_parse maxtype bs off len policy = (tb, r)"
  shows "r = (if \<forall>a \<in> set (nla_stream bs off len). nla_valid policy maxtype bs a
              then Inr () else Inl (Err EPERM)) \<and>
    (r = Inr () \<longrightarrow> length tb = maxtype + 1 \<and>
      (\<forall>t \<le> maxtype. tb ! t =
         (case filter (\<lambda>a. nla_type_of bs a = t) (nla_stream bs off len) of
            [] \<Rightarrow> None | as \<Rightarrow> Some (last as))))"
  using nla_parse_spec [OF assms] .

text \<open>Two attributes of type 1, the second one not padded; the second one wins.\<close>

theorem nla_parse_exact_witness:
  "libbpf_nla_parse 1 [5, 0, 1, 0, 7, 0, 0, 0, 6, 0, 1, 0, 8, 9] 0 14 None = ([None, Some 8], Inr ())"
proof -
  let ?bs = "[5, 0, 1, 0, 7, 0, 0, 0, 6, 0, 1, 0, 8, 9] :: u8 list"
  obtain tb r where p: "libbpf_nla_parse 1 ?bs 0 14 None = (tb, r)" by fastforce
  have st: "nla_stream ?bs 0 14 = [0, 8]"
    by (simp add: nla_stream.simps nla_len_of_def align4_def)
  have ty: "nla_type_of ?bs 0 = 1" "nla_type_of ?bs 8 = 1"
    by (simp_all add: nla_type_of_def)
  have "r = Inr ()" "length tb = 2" "tb ! 0 = None" "tb ! 1 = Some 8"
    using nla_parse_exact [OF _ _ p] st ty by (auto simp: nla_valid_def)
  from this(2-) have "tb = [None, Some 8]"
    by (intro nth_equalityI) (auto dest!: less_2_cases)
  with p \<open>r = Inr ()\<close> show ?thesis by simp
qed

text \<open>
  An attribute added to a request is the last attribute of the request's stream with
  the type and the payload given, and the attributes before it are unchanged; the walk of the
  parser over the request visits exactly the attributes that were added.
\<close>

theorem nlattr_adds_roundtrip:
  assumes "req_chain base req os" "\<forall>(type, d) \<in> set as. type < 2 ^ 16"
    and "nlattr_adds req as = (req', Inr u)"
  shows "map (nla_fields (req_mem req'))
      (nla_stream (req_mem req') base (int (nlmsg_len req') - int base)) =
    map (nla_fields (req_mem req)) os @ as"
proof -
  from nlattr_adds_success [OF assms] obtain new where new:
    "req_chain base req' (os @ new)" "map (nla_fields (req_mem req')) new = as"
    "take (nlmsg_len req) (req_mem req') = take (nlmsg_len req) (req_mem req)" by blast
  have "nla_chain (req_mem req) base (nlmsg_len req) os" using assms(1) by (simp add: req_chain_def)
  from nla_chain_cong [OF same_between_prefix [OF new(3)] this, of 0] new
  have "map (nla_fields (req_mem req')) (os @ new) = map (nla_fields (req_mem req)) os @ as" by simp
  moreover have "nla_stream (req_mem req') base (int (nlmsg_len req') - int base) = os @ new"
    using new(1) by (intro nla_chain_stream) (simp add: req_chain_def)
  ultimately show ?thesis by simp
qed

definition empty_req :: libbpf_nla_req where
  "empty_req = \<lparr>nlmsg_len = 36, req_mem = replicate 164 0\<rparr>"

lemma empty_req_chain: "req_chain 36 empty_req []"
  by (simp add: req_chain_def empty_req_def sizeof_req_def)

theorem nlattr_adds_roundtrip_witness:
  "map (nla_fields (req_mem (fst (nlattr_adds empty_req [(1, [3]), (2, [])]))))
     (nla_stream (req_mem (fst (nlattr_adds empty_req [(1, [3]), (2, [])]))) 36 12) =
   [(1, [3]), (2, [])]"
proof -
  obtain req' r where add: "nlattr_adds empty_req [(1, [3]), (2, [])] = (req', r)" by fastforce
  have r: "r = Inr ()" "nlmsg_len req' = 48"
    using add by (auto simp: nlattr_add_def empty_req_def nlmsg_align_def sizeof_req_def align4_def
        req_tail_def Let_def le_bytes_numeral)
  from nlattr_adds_roundtrip [OF empty_req_chain _ add [unfolded r(1)]] show ?thesis
    unfolding add by (simp add: r)
qed

text \<open>
  Property C35: a nested attribute that is opened, filled and closed is one attribute of the
  request, marked as nested, that ends where the request ends; the attributes before it are
  unchanged and the stream inside it consists of exactly the attributes that were added.
\<close>

theorem nlattr_nested_roundtrip:
  assumes "req_chain base req os" "type < 2 ^ 16"
    and "nlattr_begin_nested req type = (req1, Inr (Some tail))"
    and "\<forall>(t, d) \<in> set as. t < 2 ^ 16" "nlattr_adds req1 as = (req2, Inr u)"
    and "req3 = nlattr_end_nested req2 tail"
  shows "nla_stream (req_mem req3) base (int (nlmsg_len req3) - int base) = os @ [tail] \<and>
    map (nla_fields (req_mem req3)) os = map (nla_fields (req_mem req)) os \<and>
    fst (nla_fields (req_mem req3) tail) = or type NLA_F_NESTED \<and>
    map (nla_fields (req_mem req3)) (nla_stream (req_mem req3) (libbpf_nla_data tail)
       (int (nla_len_of (req_mem req3) tail) - 4)) = as"
proof -
  note n = nested_success [OF assms(1-5), folded assms(6)]
  then obtain new where new: "nla_chain (req_mem req3) (tail + 4) (nlmsg_len req3) new"
    "map (nla_fields (req_mem req3)) new = as" by blast
  have len: "int (nla_len_of (req_mem req3) tail) - 4 = int (nlmsg_len req3) - int (libbpf_nla_data tail)"
  proof -
    have "tail + nla_len_of (req_mem req3) tail = nlmsg_len req3" using n by blast
    then show ?thesis by (simp add: libbpf_nla_data_def flip: of_nat_diff)
  qed
  have "nla_stream (req_mem req3) (libbpf_nla_data tail)
      (int (nla_len_of (req_mem req3) tail) - 4) = new"
    unfolding len using nla_chain_stream [OF new(1)] by (simp add: libbpf_nla_data_def)
  moreover have "nla_stream (req_mem req3) base (int (nlmsg_len req3) - int base) = os @ [tail]"
    using n by (intro nla_chain_stream) (auto simp: req_chain_def)
  ultimately show ?thesis using n new(2) by (elim conjE) simp
qed

theorem nlattr_nested_roundtrip_witness:
  "\<exists>req1 req2. nlattr_begin_nested empty_req 43 = (req1, Inr (Some 36)) \<and>
     nlattr_adds req1 [(1, [9])] = (req2, Inr ()) \<and>
     nla_stream (req_mem (nlattr_end_nested req2 36)) 36 12 = [36]"
proof -
  obtain req1 r1 where b: "nlattr_begin_nested empty_req 43 = (req1, r1)" by fastforce
  have r1: "r1 = Inr (Some 36)" "nlmsg_len req1 = 40" "length (req_mem req1) = 164"
    using b by (auto simp: nlattr_begin_nested_def nlattr_add_def empty_req_def nlmsg_align_def
        sizeof_req_def align4_def req_tail_def Let_def NLA_F_NESTED_def le_bytes_numeral)
  obtain req2 r2 where a: "nlattr_adds req1 [(1, [9])] = (req2, r2)" by fastforce
  have r2: "r2 = Inr ()" "nlmsg_len req2 = 48"
    using a by (auto simp: r1 nlattr_add_def nlmsg_align_def sizeof_req_def align4_def
        req_tail_def Let_def le_bytes_numeral)
  from nlattr_nested_roundtrip [OF empty_req_chain _ b [unfolded r1(1)] _ a [unfolded r2(1)] refl]
  show ?thesis using b a r1(1) r2 by (simp add: nlattr_end_nested_def)
qed

text \<open>
  Dumping an extended error message stays inside the message whatever its bytes are,
  if the message is received completely and the length that the kernel repeats from the answered
  message is one that an \<open>int\<close> can hold.
\<close>

theorem dump_errormsg_safe:
  assumes "rd32 bs 0 = Inr len" "36 \<le> len" "len \<le> length bs" "length bs < 2 ^ 31"
    and "rd32 bs 20 = Inr inner" "inner + 4 < 2 ^ 31"
  shows "libbpf_nla_dump_errormsg bs \<noteq> Inl UB"
proof -
  obtain flags where flags: "rd16 bs 6 = Inr flags" using assms by (simp add: rd_def)
  have "- (2 ^ 31) \<le> int inner - 16" "int inner - 16 < 2 ^ 31" using assms(6) by simp_all
  from sint32_id [OF this] have payload: "nlmsg_payload_len bs 20 = Inr (int inner - 16)"
    using assms(5) by (simp add: nlmsg_payload_len_def)
  define hlen where "hlen = (if bit flags 8 then 20 else int inner + 4)"
  have h: "0 \<le> 16 + hlen" "- (2 ^ 31) \<le> int len - (16 + hlen)" "int len - (16 + hlen) < 2 ^ 31"
    using assms(2-4,6) by (auto simp: hlen_def)
  note alen = sint32_id [OF h(2,3)]
  obtain tb r where p: "libbpf_nla_parse 3 bs (nat (16 + hlen)) (int len - (16 + hlen))
      (Some extack_policy) = (tb, r)" by fastforce
  have room: "int (nat (16 + hlen)) + (int len - (16 + hlen)) \<le> int (length bs)"
    using h(1) assms(3) by simp
  note safe = errormsg_parse_safe [OF room p]
  have "libbpf_nla_dump_errormsg bs =
      (if \<not> bit flags 9 then Inr None
       else case (tb, r) of
           (tb, Inl UB) \<Rightarrow> Inl UB | (tb, Inl Hang) \<Rightarrow> Inl Hang
         | (tb, Inl (Err e)) \<Rightarrow> Inr None
         | (tb, Inr _) \<Rightarrow>
             (case tb ! 1 of
                None \<Rightarrow> Inr (Some None)
              | Some msg \<Rightarrow> bindr (libbpf_nla_getattr_str bs msg) (\<lambda>m. Inr (Some (Some m)))))"
    using h(1) assms(1,6) payload alen p
    by (cases "bit flags 8") (simp_all add: libbpf_nla_dump_errormsg_def flags Let_def hlen_def)
  with safe show ?thesis
    by (auto simp: bindr_eq_Inl split: sum.splits fault.splits option.splits)
qed

text \<open>The message "no" in a capped acknowledgement.\<close>

theorem dump_errormsg_safe_witness:
  "libbpf_nla_dump_errormsg
     [44, 0, 0, 0, 2, 0, 0, 3, 0, 0, 0, 0, 0, 0, 0, 0, 234, 255, 255, 255,
      16, 0, 0, 0, 0, 0, 0, 0, 0, 0, 0, 0, 0, 0, 0, 0,
      7, 0, 1, 0, 110, 111, 0, 0] \<noteq> Inl UB"
  by (rule dump_errormsg_safe [where len = 44 and inner = 16]) (simp_all add: rd_def)

end
