(* ===== verification/Zip.thy ===== *)
theory Zip imports C_Prelude begin

text \<open>
  The reader of .zip archives (\<open>bpf/libbpf/src/zip.c\<close>): locating the central directory from the
  end of the file, and looking a file up in it.  The archive is the list of the mapped bytes;
  offsets and sizes are 32-bit numbers whose sums wrap around, and the packed structures are
  read field by field.  A pointer into the archive is an offset.
\<close>

section \<open>State and access check\<close>

record zip_archive =
  zip_data :: "u8 list"
  zip_size :: nat
  zip_cd_offset :: nat
  zip_cd_records :: nat

record zip_entry =
  ze_compression :: nat
  ze_name_length :: nat
  ze_name :: nat
  ze_data :: nat
  ze_data_length :: nat
  ze_data_offset :: nat

definition add32 :: "nat \<Rightarrow> nat \<Rightarrow> nat" where
  "add32 x y = (x + y) mod 2 ^ 32"

definition check_access :: "zip_archive \<Rightarrow> nat \<Rightarrow> nat \<Rightarrow> nat option" where
  "check_access archive offset len =
     (if add32 offset len > zip_size archive \<or> offset > add32 offset len then None
      else Some offset)"

section \<open>The end of the central directory\<close>

definition sizeof_eocd :: nat where "sizeof_eocd = 22"
definition sizeof_cdfh :: nat where "sizeof_cdfh = 46"
definition sizeof_lfh :: nat where "sizeof_lfh = 30"
definition END_OF_CD_RECORD_MAGIC :: nat where "END_OF_CD_RECORD_MAGIC = 0x06054b50"
definition CD_FILE_HEADER_MAGIC :: nat where "CD_FILE_HEADER_MAGIC = 0x02014b50"
definition LOCAL_FILE_HEADER_MAGIC :: nat where "LOCAL_FILE_HEADER_MAGIC = 0x04034b50"

definition try_parse_end_of_cd :: "zip_archive \<Rightarrow> nat \<Rightarrow> zip_archive res" where
  "try_parse_end_of_cd archive offset =
     (let bs = zip_data archive in
      case check_access archive offset sizeof_eocd of
        None \<Rightarrow> Inl (Err EINVAL)
      | Some eocd \<Rightarrow>
          bindr (rd32 bs eocd) (\<lambda>magic.
          if magic \<noteq> END_OF_CD_RECORD_MAGIC then Inl (Err EINVAL)
          else bindr (rd16 bs (eocd + 20)) (\<lambda>comment_length.
          if offset + sizeof_eocd + comment_length \<noteq> zip_size archive then Inl (Err EINVAL)
          else bindr (rd16 bs (eocd + 8)) (\<lambda>cd_records.
          bindr (rd16 bs (eocd + 4)) (\<lambda>this_disk.
          bindr (rd16 bs (eocd + 6)) (\<lambda>cd_disk.
          bindr (rd16 bs (eocd + 10)) (\<lambda>cd_records_total.
          if this_disk \<noteq> 0 \<or> cd_disk \<noteq> 0 \<or> cd_records_total \<noteq> cd_records then Inl (Err ENOTSUP)
          else bindr (rd32 bs (eocd + 16)) (\<lambda>cd_offset.
          bindr (rd32 bs (eocd + 12)) (\<lambda>cd_size.
          case check_access archive cd_offset cd_size of
            None \<Rightarrow> Inl (Err EINVAL)
          | Some _ \<Rightarrow>
              Inr (archive\<lparr>zip_cd_offset := cd_offset, zip_cd_records := cd_records\<rparr>))))))))))"

text \<open>
  The scan runs from the last possible offset downwards while \<open>offset > limit\<close>.  It stops at
  the first record that parses or that asks for an unsupported feature.
\<close>

function find_cd_loop :: "zip_archive \<Rightarrow> int \<Rightarrow> int \<Rightarrow> zip_archive res \<Rightarrow> zip_archive res" where
  "find_cd_loop archive limit offset rc =
     (if offset \<ge> 0 \<and> offset > limit \<and> (\<forall>a. rc \<noteq> Inr a)
      then (let rc = try_parse_end_of_cd archive (nat offset) in
            if rc = Inl (Err ENOTSUP) \<or> rc = Inl UB then rc
            else find_cd_loop archive limit (offset - 1) rc)
      else rc)"
  by pat_completeness auto
termination
  by (relation "measure (\<lambda>(archive, limit, offset, rc). nat (offset + 1))") auto

declare find_cd_loop.simps [simp del]

definition find_cd :: "zip_archive \<Rightarrow> zip_archive res" where
  "find_cd archive =
     (if zip_size archive \<le> sizeof_eocd then Inl (Err EINVAL)
      else (let offset = int (zip_size archive) - int sizeof_eocd; limit = offset - 65536
            in find_cd_loop archive limit offset (Inl (Err EINVAL))))"

text \<open>
  The calls of the operating system are parameters: the outcome of \<open>open\<close>, the size that
  \<open>lseek\<close> reports (\<open>-1\<close> on failure), the bytes that \<open>mmap\<close> maps, whether \<open>malloc\<close> succeeds.
\<close>

definition zip_archive_open :: "unit res \<Rightarrow> int \<Rightarrow> u8 list res \<Rightarrow> bool \<Rightarrow> zip_archive res" where
  "zip_archive_open fd file_size mapped malloc_ok =
     bindr fd (\<lambda>_.
       if file_size = -1 \<or> file_size > 2 ^ 32 - 1 then Inl (Err EINVAL)
       else bindr mapped (\<lambda>data.
         if \<not> malloc_ok then Inl (Err ENOMEM)
         else find_cd \<lparr>zip_data = data, zip_size = nat file_size, zip_cd_offset = 0,
                       zip_cd_records = 0\<rparr>))"

section \<open>Entries\<close>

definition local_file_header_at_offset :: "zip_archive \<Rightarrow> nat \<Rightarrow> nat option res" where
  "local_file_header_at_offset archive offset =
     (case check_access archive offset sizeof_lfh of
        None \<Rightarrow> Inr None
      | Some lfh \<Rightarrow>
          bindr (rd32 (zip_data archive) lfh) (\<lambda>magic.
            Inr (if magic \<noteq> LOCAL_FILE_HEADER_MAGIC then None else Some lfh)))"

text \<open>\<open>FLAG_ENCRYPTED\<close> is bit 0 and \<open>FLAG_HAS_DATA_DESCRIPTOR\<close> bit 3 of the flags.\<close>

definition unsupported_flags :: "nat \<Rightarrow> bool" where
  "unsupported_flags flags \<longleftrightarrow> bit flags 0 \<or> bit flags 3"

definition get_entry_at_offset :: "zip_archive \<Rightarrow> nat \<Rightarrow> zip_entry res" where
  "get_entry_at_offset archive offset0 =
     (let bs = zip_data archive in
      bindr (local_file_header_at_offset archive offset0) (\<lambda>found.
      case found of
        None \<Rightarrow> Inl (Err EINVAL)
      | Some lfh \<Rightarrow>
          (let offset1 = add32 offset0 sizeof_lfh in
          bindr (rd16 bs (lfh + 6)) (\<lambda>flags.
          if unsupported_flags flags then Inl (Err EINVAL)
          else bindr (rd16 bs (lfh + 26)) (\<lambda>name_length.
          case check_access archive offset1 name_length of
            None \<Rightarrow> Inl (Err EINVAL)
          | Some name \<Rightarrow>
              (let offset2 = add32 offset1 name_length in
              bindr (rd16 bs (lfh + 28)) (\<lambda>extra_field_length.
              case check_access archive offset2 extra_field_length of
                None \<Rightarrow> Inl (Err EINVAL)
              | Some _ \<Rightarrow>
                  (let offset3 = add32 offset2 extra_field_length in
                  bindr (rd32 bs (lfh + 18)) (\<lambda>compressed_size.
                  case check_access archive offset3 compressed_size of
                    None \<Rightarrow> Inl (Err EINVAL)
                  | Some data \<Rightarrow>
                      bindr (rd16 bs (lfh + 8)) (\<lambda>compression.
                      Inr \<lparr>ze_compression = compression, ze_name_length = name_length,
                           ze_name = name, ze_data = data, ze_data_length = compressed_size,
                           ze_data_offset = offset3\<rparr>))))))))))"

text \<open>
  The walk over the central directory; the first argument counts the records that are left.  The
  comparison of the names is \<open>memcmp\<close>.
\<close>

primrec find_entry_loop :: "nat \<Rightarrow> zip_archive \<Rightarrow> u8 list \<Rightarrow> nat \<Rightarrow> zip_entry res" where
  "find_entry_loop 0 archive file_name offset = Inl (Err ENOENT)"
| "find_entry_loop (Suc n) archive file_name offset =
     (let bs = zip_data archive in
      case check_access archive offset sizeof_cdfh of
        None \<Rightarrow> Inl (Err EINVAL)
      | Some cdfh \<Rightarrow>
          bindr (rd32 bs cdfh) (\<lambda>magic.
          if magic \<noteq> CD_FILE_HEADER_MAGIC then Inl (Err EINVAL)
          else
            (let offset1 = add32 offset sizeof_cdfh in
            bindr (rd16 bs (cdfh + 28)) (\<lambda>cdfh_name_length.
            case check_access archive offset1 cdfh_name_length of
              None \<Rightarrow> Inl (Err EINVAL)
            | Some cdfh_name \<Rightarrow>
                bindr (rd16 bs (cdfh + 8)) (\<lambda>cdfh_flags.
                if \<not> unsupported_flags cdfh_flags \<and> length file_name = cdfh_name_length \<and>
                   offset1 + length file_name > length bs then Inl UB
                else if \<not> unsupported_flags cdfh_flags \<and> length file_name = cdfh_name_length \<and>
                   take (length file_name) (drop offset1 bs) = file_name
                then bindr (rd32 bs (cdfh + 42)) (\<lambda>lfh_offset. get_entry_at_offset archive lfh_offset)
                else
                  bindr (rd16 bs (cdfh + 30)) (\<lambda>extra_field_length.
                  bindr (rd16 bs (cdfh + 32)) (\<lambda>file_comment_length.
                  find_entry_loop n archive file_name
                    (add32 (add32 (add32 offset1 cdfh_name_length) extra_field_length)
                       file_comment_length))))))))"

declare find_entry_loop.simps(2) [simp del]

definition zip_archive_find_entry :: "zip_archive \<Rightarrow> u8 list \<Rightarrow> zip_entry res" where
  "zip_archive_find_entry archive file_name =
     find_entry_loop (zip_cd_records archive) archive file_name (zip_cd_offset archive)"

section \<open>Bounds\<close>

definition zip_wf :: "zip_archive \<Rightarrow> bool" where
  "zip_wf archive \<longleftrightarrow>
     length (zip_data archive) = zip_size archive \<and> zip_size archive < 2 ^ 32 \<and>
     zip_cd_offset archive < 2 ^ 32 \<and> zip_cd_records archive < 65536"

text \<open>The wrap-around of the sum is what the second comparison of \<open>check_access\<close> detects.\<close>

lemma check_access_eq:
  assumes "zip_size archive < 2 ^ 32" "offset < 2 ^ 32" "len < 2 ^ 32"
  shows "check_access archive offset len = (if offset + len \<le> zip_size archive then Some offset else None)"
proof (cases "offset + len < 2 ^ 32")
  case True
  then show ?thesis by (simp add: check_access_def add32_def)
next
  case False
  then have "(offset + len) mod 2 ^ 32 = offset + len - 2 ^ 32"
    using assms by (simp add: mod_if)
  with False assms show ?thesis by (auto simp: check_access_def add32_def)
qed

lemma add32_bound [simp]: "add32 x y < 4294967296"
  by (simp add: add32_def)

lemma add32_id: "x + y < 2 ^ 32 \<Longrightarrow> add32 x y = x + y"
  by (simp add: add32_def)

text \<open>The fields of a structure that lies inside the buffer.\<close>

definition fld :: "u8 list \<Rightarrow> nat \<Rightarrow> nat \<Rightarrow> nat \<Rightarrow> nat" where
  "fld bs base n k = le_nat (take n (drop (base + k) bs))"

lemma rd_fld:
  assumes "base + struct_sz \<le> length bs"
  shows "n \<le> struct_sz \<Longrightarrow> rd n bs base = Inr (fld bs base n 0)"
    "k + n \<le> struct_sz \<Longrightarrow> rd n bs (base + k) = Inr (fld bs base n k)"
  using assms by (simp_all add: rd_def fld_def)

lemma fld_bound: "fld bs base n k < 256 ^ n"
proof -
  have "le_nat (take n (drop (base + k) bs)) < 256 ^ length (take n (drop (base + k) bs))"
    by (rule le_nat_bound)
  also have "\<dots> \<le> 256 ^ n" by (intro power_increasing) auto
  finally show ?thesis by (simp add: fld_def)
qed

lemma fld_bounds [simp]: "fld bs base 2 k < 65536" "fld bs base 4 k < 4294967296"
    "fld bs base 2 k < 4294967296"
  using fld_bound [of bs base 2 k] fld_bound [of bs base 4 k] by simp_all

lemmas zip_sizes = sizeof_eocd_def sizeof_cdfh_def sizeof_lfh_def

lemma try_parse_safe:
  assumes wf: "zip_wf archive" and off: "offset < 2 ^ 32"
  shows "case try_parse_end_of_cd archive offset of
      Inl e \<Rightarrow> e = Err EINVAL \<or> e = Err ENOTSUP
    | Inr archive' \<Rightarrow> zip_wf archive' \<and> zip_data archive' = zip_data archive \<and>
        zip_size archive' = zip_size archive"
proof (cases "offset + 22 \<le> zip_size archive")
  case True
  with wf have room: "offset + 22 \<le> length (zip_data archive)" "zip_size archive < 2 ^ 32"
    by (auto simp: zip_wf_def)
  have "check_access archive offset sizeof_eocd = Some offset"
    using wf off True by (simp add: check_access_eq zip_wf_def zip_sizes)
  then show ?thesis
    using wf rd_fld [OF room(1)]
    by (simp add: try_parse_end_of_cd_def Let_def zip_wf_def check_access_eq)
next
  case False
  with assms show ?thesis
    by (simp add: try_parse_end_of_cd_def check_access_eq zip_wf_def zip_sizes)
qed

lemma find_cd_loop_safe:
  assumes "zip_wf archive" "offset < 2 ^ 32" "case rc of Inl e \<Rightarrow> e = Err EINVAL
    | Inr archive' \<Rightarrow> zip_wf archive' \<and> zip_data archive' = zip_data archive \<and> zip_size archive' = zip_size archive"
  shows "case find_cd_loop archive limit offset rc of
      Inl e \<Rightarrow> e = Err EINVAL \<or> e = Err ENOTSUP
    | Inr archive' \<Rightarrow> zip_wf archive' \<and> zip_data archive' = zip_data archive \<and>
        zip_size archive' = zip_size archive"
  using assms
proof (induction archive limit offset rc rule: find_cd_loop.induct)
  case (1 archive limit offset rc)
  show ?case
  proof (cases "offset \<ge> 0 \<and> offset > limit \<and> (\<forall>a. rc \<noteq> Inr a)")
    case True
    let ?rc = "try_parse_end_of_cd archive (nat offset)"
    have "nat offset < 2 ^ 32" using "1.prems"(2) by simp
    note safe = try_parse_safe [OF "1.prems"(1) this]
    show ?thesis
    proof (cases "?rc = Inl (Err ENOTSUP)")
      case True
      with \<open>_ \<and> _\<close> show ?thesis by (subst find_cd_loop.simps) simp
    next
      case False
      with safe have "?rc \<noteq> Inl UB" by auto
      with False True "1.IH" [OF True refl] "1.prems"(1,2) safe show ?thesis
        by (subst find_cd_loop.simps) (auto simp: Let_def split: sum.splits)
    qed
  next
    case False
    with "1.prems"(3) show ?thesis by (subst find_cd_loop.simps) (auto split: sum.splits)
  qed
qed

lemma open_safe:
  assumes "\<forall>data. mapped = Inr data \<longrightarrow> int (length data) = file_size"
    and "fd \<noteq> Inl UB" "mapped \<noteq> Inl UB"
  shows "case zip_archive_open fd file_size mapped malloc_ok of
      Inl e \<Rightarrow> e \<noteq> UB | Inr archive \<Rightarrow> zip_wf archive \<and> mapped = Inr (zip_data archive)"
proof (cases "fd = Inr () \<and> (\<exists>data. mapped = Inr data) \<and> file_size \<noteq> -1 \<and>
    file_size \<le> 2 ^ 32 - 1 \<and> malloc_ok")
  case True
  then obtain data where data: "mapped = Inr data" by blast
  define ar where "ar = \<lparr>zip_data = data, zip_size = nat file_size, zip_cd_offset = 0, zip_cd_records = 0\<rparr>"
  have wf: "zip_wf ar" using assms True data by (auto simp: zip_wf_def ar_def)
  have "zip_archive_open fd file_size mapped malloc_ok = find_cd ar"
    using True data by (auto simp: zip_archive_open_def ar_def)
  moreover have "case find_cd ar of Inl e \<Rightarrow> e = Err EINVAL \<or> e = Err ENOTSUP
    | Inr archive' \<Rightarrow> zip_wf archive' \<and> zip_data archive' = zip_data ar \<and> zip_size archive' = zip_size ar"
    using find_cd_loop_safe [OF wf] wf by (simp add: find_cd_def Let_def zip_wf_def)
  ultimately show ?thesis using data by (auto simp: ar_def split: sum.splits)
next
  case False
  with assms show ?thesis
    by (cases fd; cases mapped) (auto simp: zip_archive_open_def)
qed

text \<open>An entry that is returned lies inside the archive: its name and its data.\<close>

definition entry_inside :: "zip_archive \<Rightarrow> zip_entry \<Rightarrow> bool" where
  "entry_inside archive e \<longleftrightarrow>
     ze_name e + ze_name_length e \<le> zip_size archive \<and>
     ze_data e = ze_data_offset e \<and> ze_data e + ze_data_length e \<le> zip_size archive"

lemma get_entry_safe:
  assumes wf: "zip_wf archive" and off: "offset < 2 ^ 32"
  shows "case get_entry_at_offset archive offset of
      Inl e \<Rightarrow> e = Err EINVAL | Inr e \<Rightarrow> entry_inside archive e"
proof (cases "offset + 30 \<le> zip_size archive")
  case True
  with wf have room: "offset + 30 \<le> length (zip_data archive)" "zip_size archive < 2 ^ 32"
    by (auto simp: zip_wf_def)
  have ca: "check_access archive offset sizeof_lfh = Some offset"
    using wf off True by (simp add: check_access_eq zip_wf_def zip_sizes)
  let ?f = "fld (zip_data archive) offset"
  have n: "?f 2 26 < 2 ^ 32" "?f 2 28 < 2 ^ 32" "?f 4 18 < 2 ^ 32" by simp_all
  have a: "add32 x y < 2 ^ 32" for x y by simp
  note ca' = check_access_eq [OF room(2) a n(1)] check_access_eq [OF room(2) a n(2)]
    check_access_eq [OF room(2) a n(3)]
  show ?thesis
    using rd_fld [OF room(1)]
    by (simp add: get_entry_at_offset_def local_file_header_at_offset_def Let_def ca ca'
        entry_inside_def)
next
  case False
  with assms show ?thesis
    by (simp add: get_entry_at_offset_def local_file_header_at_offset_def check_access_eq
        zip_wf_def zip_sizes)
qed

lemma find_entry_safe:
  assumes wf: "zip_wf archive" and off: "offset < 2 ^ 32"
  shows "case find_entry_loop n archive file_name offset of
      Inl e \<Rightarrow> e = Err EINVAL \<or> e = Err ENOENT | Inr e \<Rightarrow> entry_inside archive e"
  using off
proof (induction n arbitrary: offset)
  case (Suc n)
  show ?case
  proof (cases "offset + 46 \<le> zip_size archive")
    case True
    with wf have room: "offset + 46 \<le> length (zip_data archive)" "zip_size archive < 2 ^ 32"
      "length (zip_data archive) = zip_size archive"
      by (auto simp: zip_wf_def)
    have ca: "check_access archive offset sizeof_cdfh = Some offset"
      using wf Suc.prems True by (simp add: check_access_eq zip_wf_def zip_sizes)
    let ?f = "fld (zip_data archive) offset"
    have n: "?f 2 28 < 2 ^ 32" by simp
    have a: "add32 x y < 2 ^ 32" for x y by simp
    note ca' = check_access_eq [OF room(2) a n]
    have e: "case get_entry_at_offset archive (?f 4 42) of
        Inl e \<Rightarrow> e = Err EINVAL \<or> e = Err ENOENT | Inr e \<Rightarrow> entry_inside archive e"
      using get_entry_safe [OF wf, of "?f 4 42"] by (simp split: sum.splits)
    show ?thesis
      using rd_fld [OF room(1)] e Suc.IH room(3)
      by (simp add: find_entry_loop.simps(2) Let_def ca ca')
  next
    case False
    with wf Suc.prems show ?thesis
      by (simp add: find_entry_loop.simps(2) check_access_eq zip_wf_def zip_sizes Let_def)
  qed
qed simp

section \<open>Archives\<close>

text \<open>
  The format that the reader is meant for, written out: stored files one after the other, each
  behind a local header, then the central directory with the offset of every local header, then
  its end record without a comment.  A file is its name, its compression method and its data.
\<close>

type_synonym zip_file = "u8 list \<times> nat \<times> u8 list"

definition lfh_bytes :: "zip_file \<Rightarrow> u8 list" where
  "lfh_bytes f = (case f of (name, meth, data) \<Rightarrow>
     le_bytes 4 LOCAL_FILE_HEADER_MAGIC @ le_bytes 2 10 @ le_bytes 2 0 @ le_bytes 2 meth @
     le_bytes 4 0 @ le_bytes 4 0 @ le_bytes 4 (length data) @ le_bytes 4 (length data) @
     le_bytes 2 (length name) @ le_bytes 2 0)"

definition local_bytes :: "zip_file \<Rightarrow> u8 list" where
  "local_bytes f = lfh_bytes f @ fst f @ snd (snd f)"

definition cdfh_bytes :: "nat \<Rightarrow> zip_file \<Rightarrow> u8 list" where
  "cdfh_bytes off f = (case f of (name, meth, data) \<Rightarrow>
     le_bytes 4 CD_FILE_HEADER_MAGIC @ le_bytes 2 20 @ le_bytes 2 10 @ le_bytes 2 0 @
     le_bytes 2 meth @ le_bytes 4 0 @ le_bytes 4 0 @ le_bytes 4 (length data) @
     le_bytes 4 (length data) @ le_bytes 2 (length name) @ le_bytes 2 0 @ le_bytes 2 0 @
     le_bytes 2 0 @ le_bytes 2 0 @ le_bytes 4 0 @ le_bytes 4 off)"

fun cd_bytes :: "nat \<Rightarrow> zip_file list \<Rightarrow> u8 list" where
  "cd_bytes off [] = []"
| "cd_bytes off (f # fs) = cdfh_bytes off f @ fst f @ cd_bytes (off + length (local_bytes f)) fs"

definition files_bytes :: "zip_file list \<Rightarrow> u8 list" where
  "files_bytes fs = concat (map local_bytes fs)"

definition eocd_bytes :: "nat \<Rightarrow> nat \<Rightarrow> nat \<Rightarrow> u8 list" where
  "eocd_bytes n cd_size cd_offset =
     le_bytes 4 END_OF_CD_RECORD_MAGIC @ le_bytes 2 0 @ le_bytes 2 0 @ le_bytes 2 n @ le_bytes 2 n @
     le_bytes 4 cd_size @ le_bytes 4 cd_offset @ le_bytes 2 0"

definition zip_bytes :: "zip_file list \<Rightarrow> u8 list" where
  "zip_bytes fs = files_bytes fs @ cd_bytes 0 fs @
     eocd_bytes (length fs) (length (cd_bytes 0 fs)) (length (files_bytes fs))"

lemma header_lengths [simp]:
  "length (lfh_bytes f) = 30" "length (cdfh_bytes off f) = 46" "length (eocd_bytes n c d) = 22"
  by (simp_all add: lfh_bytes_def cdfh_bytes_def eocd_bytes_def split: prod.splits)

lemma files_bytes_Cons [simp]:
  "files_bytes [] = []" "files_bytes (f # fs) = local_bytes f @ files_bytes fs"
  by (simp_all add: files_bytes_def)

text \<open>A field of a header that stands in the middle of a buffer.\<close>

lemma fld_middle:
  "k + n \<le> length hdr \<Longrightarrow> fld (pre @ hdr @ post) (length pre) n k = fld hdr 0 n k"
  by (simp add: fld_def)

lemma fld_end: "k + n \<le> length hdr \<Longrightarrow> fld (pre @ hdr) (length pre) n k = fld hdr 0 n k"
  by (simp add: fld_def)

lemma fld_step: "m \<le> k \<Longrightarrow> fld (le_bytes m x @ rest) 0 n k = fld rest 0 n (k - m)"
  by (simp add: fld_def)

lemma fld_here: "fld (le_bytes n x @ rest) 0 n 0 = x mod 256 ^ n" "fld (le_bytes n x) 0 n 0 = x mod 256 ^ n"
  by (simp_all add: fld_def le_nat_le_bytes)

lemmas fld_walk = fld_step fld_here

lemma lfh_fields:
  "fld (lfh_bytes (name, meth, data)) 0 4 0 = LOCAL_FILE_HEADER_MAGIC"
  "fld (lfh_bytes (name, meth, data)) 0 2 6 = 0"
  "fld (lfh_bytes (name, meth, data)) 0 2 8 = meth mod 65536"
  "fld (lfh_bytes (name, meth, data)) 0 4 18 = length data mod 4294967296"
  "fld (lfh_bytes (name, meth, data)) 0 2 26 = length name mod 65536"
  "fld (lfh_bytes (name, meth, data)) 0 2 28 = 0"
  by (simp_all add: lfh_bytes_def fld_walk LOCAL_FILE_HEADER_MAGIC_def)

lemma cdfh_fields:
  "fld (cdfh_bytes off (name, meth, data)) 0 4 0 = CD_FILE_HEADER_MAGIC"
  "fld (cdfh_bytes off (name, meth, data)) 0 2 8 = 0"
  "fld (cdfh_bytes off (name, meth, data)) 0 2 28 = length name mod 65536"
  "fld (cdfh_bytes off (name, meth, data)) 0 2 30 = 0"
  "fld (cdfh_bytes off (name, meth, data)) 0 2 32 = 0"
  "fld (cdfh_bytes off (name, meth, data)) 0 4 42 = off mod 4294967296"
  by (simp_all add: cdfh_bytes_def fld_walk CD_FILE_HEADER_MAGIC_def)

lemma eocd_fields:
  "fld (eocd_bytes n c d) 0 4 0 = END_OF_CD_RECORD_MAGIC"
  "fld (eocd_bytes n c d) 0 2 4 = 0" "fld (eocd_bytes n c d) 0 2 6 = 0"
  "fld (eocd_bytes n c d) 0 2 8 = n mod 65536" "fld (eocd_bytes n c d) 0 2 10 = n mod 65536"
  "fld (eocd_bytes n c d) 0 4 12 = c mod 4294967296"
  "fld (eocd_bytes n c d) 0 4 16 = d mod 4294967296" "fld (eocd_bytes n c d) 0 2 20 = 0"
  by (simp_all add: eocd_bytes_def fld_walk END_OF_CD_RECORD_MAGIC_def)

text \<open>The sizes that the format can express.\<close>

definition file_fits :: "zip_file \<Rightarrow> bool" where
  "file_fits f \<longleftrightarrow> length (fst f) < 65536 \<and> fst (snd f) < 65536"

text \<open>The entry \<open>e\<close> of an archive is the file \<open>f\<close>.\<close>

definition entry_is :: "u8 list \<Rightarrow> zip_file \<Rightarrow> zip_entry \<Rightarrow> bool" where
  "entry_is bs f e \<longleftrightarrow>
     take (ze_name_length e) (drop (ze_name e) bs) = fst f \<and> ze_compression e = fst (snd f) \<and>
     take (ze_data_length e) (drop (ze_data e) bs) = snd (snd f)"

lemma get_entry_at_local:
  assumes bs: "zip_data archive = pre @ local_bytes f @ post" and fits: "file_fits f"
    and wf: "zip_size archive = length (zip_data archive)" "zip_size archive < 2 ^ 32"
  shows "\<exists>e. get_entry_at_offset archive (length pre) = Inr e \<and> entry_is (zip_data archive) f e"
proof -
  obtain name meth data where f: "f = (name, meth, data)" by (cases f)
  have bs': "zip_data archive = pre @ lfh_bytes f @ (name @ data @ post)"
    by (simp add: bs local_bytes_def f)
  have room: "length pre + 30 \<le> length (zip_data archive)" by (simp add: bs')
  let ?o = "length pre"
  have lt: "?o + (30 + (length name + length data)) < 2 ^ 32"
    using wf bs' f by simp
  have flds: "fld (zip_data archive) ?o 4 0 = LOCAL_FILE_HEADER_MAGIC"
    "fld (zip_data archive) ?o 2 6 = 0" "fld (zip_data archive) ?o 2 8 = meth"
    "fld (zip_data archive) ?o 4 18 = length data" "fld (zip_data archive) ?o 2 26 = length name"
    "fld (zip_data archive) ?o 2 28 = 0"
    unfolding bs' using fits lt
    by (simp_all add: fld_middle lfh_fields f file_fits_def)
  have sz: "zip_size archive = ?o + (30 + (length name + (length data + length post)))"
    using wf by (simp add: bs')
  have ca: "check_access archive off n = Some off" if "off + n \<le> ?o + (30 + (length name + length data))" for off n
    using that sz lt wf(2) by (subst check_access_eq) auto
  have adds: "add32 ?o 30 = ?o + 30" "add32 (?o + 30) (length name) = ?o + 30 + length name"
    "add32 (?o + 30 + length name) 0 = ?o + 30 + length name"
    using lt by (simp_all add: add32_id)
  show ?thesis
    using rd_fld [OF room]
    by (simp add: get_entry_at_offset_def local_file_header_at_offset_def Let_def ca flds adds
        zip_sizes unsupported_flags_def entry_is_def f)
       (simp add: bs')
qed

lemma find_entry_in_directory:
  assumes locals: "zip_data archive = L0 @ files_bytes fs @ L1" "length L0 = off"
    and dir: "zip_data archive = A @ cd_bytes off fs @ B" "length A = offset"
    and fits: "\<forall>f \<in> set fs. file_fits f"
    and wf: "zip_size archive = length (zip_data archive)" "zip_size archive < 2 ^ 32"
  shows "case find (\<lambda>f. fst f = name) fs of
      None \<Rightarrow> find_entry_loop (length fs) archive name offset = Inl (Err ENOENT)
    | Some f \<Rightarrow> \<exists>e. find_entry_loop (length fs) archive name offset = Inr e \<and>
        entry_is (zip_data archive) f e"
  using assms
proof (induction fs arbitrary: L0 off A offset)
  case (Cons f fs)
  obtain fname meth data where f: "f = (fname, meth, data)" by (cases f)
  let ?bs = "zip_data archive" and ?off' = "off + length (local_bytes f)"
  have bs: "?bs = A @ cdfh_bytes off f @ (fname @ cd_bytes ?off' fs @ B)"
    using Cons.prems(3) by (simp add: f)
  have room: "offset + 46 \<le> length ?bs" using bs Cons.prems(4) by simp
  have off: "off < 2 ^ 32" using Cons.prems(1,2,6,7) by simp
  have flds: "fld ?bs offset 4 0 = CD_FILE_HEADER_MAGIC" "fld ?bs offset 2 8 = 0"
    "fld ?bs offset 2 28 = length fname" "fld ?bs offset 2 30 = 0" "fld ?bs offset 2 32 = 0"
    "fld ?bs offset 4 42 = off"
    unfolding bs using Cons.prems(4,5) off
    by (simp_all add: fld_middle cdfh_fields f file_fits_def flip: Cons.prems(4))
  have sz: "zip_size archive = offset + (46 + (length fname + length (cd_bytes ?off' fs @ B)))"
    using Cons.prems(4,6) by (simp add: bs)
  have ca: "check_access archive o' n = Some o'" if "o' + n \<le> offset + (46 + length fname)" for o' n
    using that sz Cons.prems(7) by (subst check_access_eq) auto
  have adds: "add32 offset 46 = offset + 46" "add32 (offset + 46) (length fname) = offset + 46 + length fname"
    "add32 (offset + 46 + length fname) 0 = offset + 46 + length fname"
    using sz Cons.prems(7) by (simp_all add: add32_id)
  have nm: "take (length name) (drop (offset + 46) ?bs) = fname" if "length name = length fname"
    using that Cons.prems(4) by (simp add: bs)
  have loop: "find_entry_loop (length (f # fs)) archive name offset =
      (if name = fname then get_entry_at_offset archive off
       else find_entry_loop (length fs) archive name (offset + 46 + length fname))"
    using rd_fld [OF room] nm sz Cons.prems(6)
    by (auto simp: find_entry_loop.simps(2) Let_def ca flds adds zip_sizes unsupported_flags_def)
  show ?case
  proof (cases "name = fname")
    case True
    have "?bs = L0 @ local_bytes f @ (files_bytes fs @ L1)" using Cons.prems(1) by simp
    from get_entry_at_local [OF this _ Cons.prems(6,7)] Cons.prems(2,5) loop True
    show ?thesis by (simp add: f)
  next
    case False
    have "?bs = (L0 @ local_bytes f) @ files_bytes fs @ L1" "length (L0 @ local_bytes f) = ?off'"
      "?bs = (A @ cdfh_bytes off f @ fname) @ cd_bytes ?off' fs @ B"
      "length (A @ cdfh_bytes off f @ fname) = offset + 46 + length fname"
      using Cons.prems(1-4) bs by auto
    from Cons.IH [OF this _ Cons.prems(6,7)] Cons.prems(5) loop False show ?thesis
      by (auto simp: f split: option.splits)
  qed
qed simp

lemma open_zip_bytes:
  assumes ne: "fs \<noteq> []" and sz: "length (zip_bytes fs) < 2 ^ 32" "length fs < 65536"
  shows "zip_archive_open (Inr ()) (int (length (zip_bytes fs))) (Inr (zip_bytes fs)) True =
    Inr \<lparr>zip_data = zip_bytes fs, zip_size = length (zip_bytes fs),
         zip_cd_offset = length (files_bytes fs), zip_cd_records = length fs\<rparr>"
proof -
  define ar where "ar = \<lparr>zip_data = zip_bytes fs, zip_size = length (zip_bytes fs),
    zip_cd_offset = 0, zip_cd_records = 0\<rparr>"
  define pre where "pre = files_bytes fs @ cd_bytes 0 fs"
  let ?e = "eocd_bytes (length fs) (length (cd_bytes 0 fs)) (length (files_bytes fs))"
  let ?o = "length pre"
  have len: "?o = length (files_bytes fs) + length (cd_bytes 0 fs)" by (simp add: pre_def)
  have bs: "zip_data ar = pre @ ?e @ []" by (simp add: ar_def zip_bytes_def pre_def)
  have zs: "zip_size ar = ?o + 22" "?o + 22 < 2 ^ 32" using sz by (simp_all add: ar_def zip_bytes_def len)
  have room: "?o + 22 \<le> length (zip_data ar)" by (simp add: bs)
  have pos: "?o > 0" using ne by (cases fs) (simp_all add: pre_def local_bytes_def)
  have lens: "length (cd_bytes 0 fs) < 4294967296" "length (files_bytes fs) < 4294967296"
    using zs len by simp_all
  have flds: "fld (zip_data ar) ?o 4 0 = END_OF_CD_RECORD_MAGIC"
    "fld (zip_data ar) ?o 2 4 = 0" "fld (zip_data ar) ?o 2 6 = 0"
    "fld (zip_data ar) ?o 2 8 = length fs" "fld (zip_data ar) ?o 2 10 = length fs"
    "fld (zip_data ar) ?o 4 12 = length (cd_bytes 0 fs)"
    "fld (zip_data ar) ?o 4 16 = length (files_bytes fs)" "fld (zip_data ar) ?o 2 20 = 0"
    unfolding bs using sz lens by (simp_all add: fld_end eocd_fields)
  have ca: "check_access ar off n = Some off" if "off + n \<le> ?o + 22" for off n
    using that zs by (subst check_access_eq) auto
  have parse: "try_parse_end_of_cd ar ?o = Inr (ar\<lparr>zip_cd_offset := length (files_bytes fs),
      zip_cd_records := length fs\<rparr>)"
    using rd_fld [OF room] flds zs
    by (simp add: try_parse_end_of_cd_def Let_def ca zip_sizes len)
  have "find_cd ar = try_parse_end_of_cd ar ?o"
    using zs pos parse by (simp add: find_cd_def Let_def zip_sizes find_cd_loop.simps nat_add_distrib)
  with parse sz show ?thesis by (simp add: zip_archive_open_def ar_def)
qed

text \<open>
  An archive of exactly the size of an end record, which is what an archive without
  files is, is refused whatever its bytes are.
\<close>

lemma zip_empty_archive_refused:
  "zip_archive_open (Inr ()) 22 (Inr (zip_bytes [])) True = Inl (Err EINVAL) \<and>
   length (zip_bytes []) = 22"
  by (simp add: zip_archive_open_def find_cd_def zip_sizes zip_bytes_def)

section \<open>Properties\<close>

text \<open>
  Property C11: opening a file and looking a name up in it never read outside of the mapped bytes,
  whatever the bytes are, and the name and the data of an entry that is returned lie inside.
\<close>

theorem zip_reader_safe:
  assumes "\<forall>data. mapped = Inr data \<longrightarrow> int (length data) = file_size"
    and "fd \<noteq> Inl UB" "mapped \<noteq> Inl UB"
  shows "case zip_archive_open fd file_size mapped malloc_ok of
      Inl e \<Rightarrow> e \<noteq> UB
    | Inr archive \<Rightarrow> zip_wf archive \<and>
        (case zip_archive_find_entry archive file_name of
           Inl e \<Rightarrow> e = Err EINVAL \<or> e = Err ENOENT
         | Inr e \<Rightarrow> entry_inside archive e)"
proof -
  have "case zip_archive_find_entry archive file_name of
           Inl e \<Rightarrow> e = Err EINVAL \<or> e = Err ENOENT
         | Inr e \<Rightarrow> entry_inside archive e" if "zip_wf archive" for archive
    using find_entry_safe [OF that] that by (simp add: zip_archive_find_entry_def zip_wf_def)
  with open_safe [OF assms, of malloc_ok] show ?thesis
    by (cases "zip_archive_open fd file_size mapped malloc_ok") simp_all
qed

theorem zip_reader_safe_witness:
  "zip_archive_open (Inr ()) 40 (Inr (replicate 40 80)) True \<noteq> Inl UB"
  using zip_reader_safe [of "Inr (replicate 40 80)" 40 "Inr ()" _ True] by (auto split: sum.splits)

text \<open>
  Property C23: the reader understands the format: an archive that is made of at least one file
  opens, and looking a name up gives the first file of that name, with its compression method,
  its name and its data, or ENOENT when there is none.
\<close>

theorem zip_roundtrip:
  assumes "fs \<noteq> []" "\<forall>f \<in> set fs. file_fits f"
    and "length (zip_bytes fs) < 2 ^ 32" "length fs < 65536"
  shows "\<exists>archive. zip_archive_open (Inr ()) (int (length (zip_bytes fs))) (Inr (zip_bytes fs)) True = Inr archive \<and>
    (\<forall>name. case find (\<lambda>f. fst f = name) fs of
        None \<Rightarrow> zip_archive_find_entry archive name = Inl (Err ENOENT)
      | Some f \<Rightarrow> \<exists>e. zip_archive_find_entry archive name = Inr e \<and> entry_is (zip_bytes fs) f e)"
proof -
  define ar where "ar = \<lparr>zip_data = zip_bytes fs, zip_size = length (zip_bytes fs),
         zip_cd_offset = length (files_bytes fs), zip_cd_records = length fs\<rparr>"
  let ?e = "eocd_bytes (length fs) (length (cd_bytes 0 fs)) (length (files_bytes fs))"
  have d: "zip_data ar = [] @ files_bytes fs @ (cd_bytes 0 fs @ ?e)" "length [] = (0 :: nat)"
    "zip_data ar = files_bytes fs @ cd_bytes 0 fs @ ?e" "length (files_bytes fs) = zip_cd_offset ar"
    "zip_size ar = length (zip_data ar)" "zip_size ar < 2 ^ 32"
    "zip_archive_open (Inr ()) (int (length (zip_bytes fs))) (Inr (zip_bytes fs)) True = Inr ar"
    using assms(3) open_zip_bytes [OF assms(1,3,4)] by (simp_all add: ar_def zip_bytes_def)
  have ar: "zip_data ar = zip_bytes fs" "zip_cd_records ar = length fs" by (simp_all add: ar_def)
  have "case find (\<lambda>f. fst f = name) fs of
        None \<Rightarrow> zip_archive_find_entry ar name = Inl (Err ENOENT)
      | Some f \<Rightarrow> \<exists>e. zip_archive_find_entry ar name = Inr e \<and> entry_is (zip_bytes fs) f e" for name
    using find_entry_in_directory [OF d(1-4) assms(2) d(5,6), of name]
    by (auto simp: zip_archive_find_entry_def ar split: option.splits)
  with d(7) show ?thesis by blast
qed

text \<open>One stored file "a" with the contents "hi".\<close>

theorem zip_roundtrip_witness:
  "\<exists>archive e. zip_archive_open (Inr ()) 102 (Inr (zip_bytes [([97], 0, [104, 105])])) True = Inr archive \<and>
     zip_archive_find_entry archive [97] = Inr e \<and>
     take (ze_data_length e) (drop (ze_data e) (zip_bytes [([97], 0, [104, 105])])) = [104, 105]"
proof -
  let ?fs = "[([97], 0, [104, 105])] :: zip_file list"
  have len: "length (zip_bytes ?fs) = 102" by (simp add: zip_bytes_def local_bytes_def)
  obtain archive where ar: "zip_archive_open (Inr ()) 102 (Inr (zip_bytes ?fs)) True = Inr archive"
    "\<forall>name. case find (\<lambda>f. fst f = name) ?fs of
        None \<Rightarrow> zip_archive_find_entry archive name = Inl (Err ENOENT)
      | Some f \<Rightarrow> \<exists>e. zip_archive_find_entry archive name = Inr e \<and> entry_is (zip_bytes ?fs) f e"
    using zip_roundtrip [of ?fs] unfolding len by (auto simp: file_fits_def)
  from spec [OF ar(2), of "[97]"] ar(1) show ?thesis by (auto simp: entry_is_def)
qed

end
