(* ===== verification/Prog_Linfo.thy ===== *)
theory Prog_Linfo imports C_Prelude begin

text \<open>
  Line information of a loaded BPF program (\<open>bpf/libbpf/src/bpf_prog_linfo.c\<close>): the records of
  the kernel are copied, the records of the jited code are divided up among the functions of
  the program, and the record of an address or of an instruction is searched for.

  Both tables are byte blocks made of records of a fixed size.  A record of the jited table
  starts with a 64-bit address, one of the other table with the 32-bit instruction offset.  The
  arrays that \<open>malloc\<close> returns hold \<open>None\<close> where nothing has been stored yet.
\<close>

section \<open>State\<close>

text \<open>What \<open>bpf_prog_linfo__new\<close> reads of \<open>struct bpf_prog_info\<close>.\<close>

record bpf_prog_info =
  nr_line_info :: nat
  line_info_rec_size :: nat
  line_info :: "u8 list"
  nr_jited_line_info :: nat
  jited_line_info_rec_size :: nat
  jited_line_info :: "u8 list option"
  nr_jited_ksyms :: nat
  jited_ksyms :: "nat list option"
  nr_jited_func_lens :: nat
  jited_func_lens :: "nat list option"

record bpf_prog_linfo =
  raw_linfo :: "u8 list"
  raw_jited_linfo :: "u8 list"
  nr_jited_linfo_per_func :: "nat option list"
  jited_linfo_func_idx :: "nat option list"
  nr_linfo :: nat
  nr_jited_func :: nat
  rec_size :: nat
  jited_rec_size :: nat

text \<open>The address that record \<open>i\<close> of the jited table starts with.\<close>

definition jited_addr :: "bpf_prog_linfo \<Rightarrow> nat \<Rightarrow> nat res" where
  "jited_addr pl i = rd 8 (raw_jited_linfo pl) (i * jited_rec_size pl)"

section \<open>Dividing the jited records up\<close>

text \<open>
  The loop of \<open>dissect_jited_func\<close>: record \<open>i\<close> is looked at, \<open>f\<close> is the function whose first
  record is searched, \<open>prev_i\<close> the first record of the function before it.  The difference of
  the addresses is a 64-bit number.
\<close>

function dissect_loop ::
  "nat list \<Rightarrow> nat list \<Rightarrow> nat \<Rightarrow> nat \<Rightarrow> nat \<Rightarrow> bpf_prog_linfo \<Rightarrow> (nat \<times> nat \<times> bpf_prog_linfo) res" where
  "dissect_loop ksym_func ksym_len prev_i i f pl =
     (if \<not> (i < nr_linfo pl \<and> f < nr_jited_func pl) then Inr (prev_i, f, pl)
      else
        bindr (jited_addr pl (i - 1)) (\<lambda>last_jited_linfo.
        bindr (jited_addr pl i) (\<lambda>jited_linfo.
        bindr (arr ksym_func f) (\<lambda>ksym.
        if ksym = jited_linfo then
          bindr (arr ksym_func (f - 1)) (\<lambda>prev_ksym.
          bindr (arr ksym_len (f - 1)) (\<lambda>len.
          if (int last_jited_linfo - int prev_ksym + 1) mod 2 ^ 64 > int len then Inl (Err EINVAL)
          else dissect_loop ksym_func ksym_len i (i + 1) (f + 1)
                 (pl\<lparr>jited_linfo_func_idx := (jited_linfo_func_idx pl)[f := Some i],
                     nr_jited_linfo_per_func := (nr_jited_linfo_per_func pl)[f - 1 := Some (i - prev_i)]\<rparr>)))
        else if jited_linfo \<le> last_jited_linfo then Inl (Err EINVAL)
        else dissect_loop ksym_func ksym_len prev_i (i + 1) f pl))))"
  by pat_completeness auto
termination
  by (relation "measure (\<lambda>(ks, kl, prev_i, i, f, pl). nr_linfo pl - i)") auto

declare dissect_loop.simps [simp del]

definition dissect_jited_func :: "nat list \<Rightarrow> nat list \<Rightarrow> bpf_prog_linfo \<Rightarrow> bpf_prog_linfo res" where
  "dissect_jited_func ksym_func ksym_len pl =
     bindr (arr ksym_func 0) (\<lambda>ksym.
     bindr (jited_addr pl 0) (\<lambda>jited_linfo.
     if ksym \<noteq> jited_linfo then Inl (Err EINVAL)
     else
       bindr (dissect_loop ksym_func ksym_len 0 1 1
                (pl\<lparr>jited_linfo_func_idx := (jited_linfo_func_idx pl)[0 := Some 0]\<rparr>))
         (\<lambda>(prev_i, f, pl').
            if f \<noteq> nr_jited_func pl' then Inl (Err EINVAL)
            else Inr (pl'\<lparr>nr_jited_linfo_per_func := (nr_jited_linfo_per_func pl')
                              [nr_jited_func pl' - 1 := Some (nr_linfo pl' - prev_i)]\<rparr>))))"

text \<open>
  The outcomes of the five allocations are parameters, in the order of the code.  A failure
  after the first one frees everything and reports \<open>EINVAL\<close>.  \<open>memcpy\<close> reads as many bytes as
  the tables are said to have.
\<close>

definition bpf_prog_linfo__new ::
  "bool \<Rightarrow> bool \<Rightarrow> bool \<Rightarrow> bool \<Rightarrow> bool \<Rightarrow> bpf_prog_info \<Rightarrow> bpf_prog_linfo res" where
  "bpf_prog_linfo__new m1 m2 m3 m4 m5 info =
     (let n = nr_line_info info in
      if n = 0 then Inl (Err EINVAL)
      else if line_info_rec_size info < 4 then Inl (Err EINVAL)
      else if \<not> m1 then Inl (Err ENOMEM)
      else if \<not> m2 then Inl (Err EINVAL)
      else if length (line_info info) < n * line_info_rec_size info then Inl UB
      else
        (let pl = \<lparr>raw_linfo = take (n * line_info_rec_size info) (line_info info),
                   raw_jited_linfo = [], nr_jited_linfo_per_func = [], jited_linfo_func_idx = [],
                   nr_linfo = n, nr_jited_func = 0, rec_size = line_info_rec_size info,
                   jited_rec_size = 0\<rparr>;
             nf = nr_jited_ksyms info
         in case (jited_line_info info, jited_ksyms info, jited_func_lens info) of
              (Some jited, Some ksyms, Some lens) \<Rightarrow>
                if nf = 0 \<or> nr_jited_line_info info \<noteq> n \<or> jited_line_info_rec_size info < 8 \<or>
                   nr_jited_func_lens info \<noteq> nf
                then Inr pl
                else if \<not> m3 then Inl (Err EINVAL)
                else if length jited < n * jited_line_info_rec_size info then Inl UB
                else if \<not> m4 then Inl (Err EINVAL)
                else if \<not> m5 then Inl (Err EINVAL)
                else
                  (case dissect_jited_func ksyms lens
                      (pl\<lparr>raw_jited_linfo := take (n * jited_line_info_rec_size info) jited,
                          jited_rec_size := jited_line_info_rec_size info, nr_jited_func := nf,
                          nr_jited_linfo_per_func := replicate nf None,
                          jited_linfo_func_idx := replicate nf None\<rparr>) of
                     Inl UB \<Rightarrow> Inl UB
                   | Inl Hang \<Rightarrow> Inl Hang
                   | Inl (Err _) \<Rightarrow> Inl (Err EINVAL)
                   | Inr pl' \<Rightarrow> Inr pl')
            | _ \<Rightarrow> Inr pl))"

section \<open>Searching\<close>

text \<open>A value of an array of \<open>malloc\<close>.\<close>

definition stored :: "'a option list \<Rightarrow> nat \<Rightarrow> 'a res" where
  "stored xs i = bindr (arr xs i) (\<lambda>x. case x of None \<Rightarrow> Inl UB | Some v \<Rightarrow> Inr v)"

text \<open>
  The search loops: \<open>key off\<close> reads the key of the record at an offset, \<open>joff\<close> is the offset of
  the current record in the table that has the keys, and the result counts the records passed.
\<close>

primrec linfo_scan :: "nat \<Rightarrow> (nat \<Rightarrow> nat res) \<Rightarrow> nat \<Rightarrow> nat \<Rightarrow> nat \<Rightarrow> nat res" where
  "linfo_scan 0 key joff rsz target = Inr 0"
| "linfo_scan (Suc n) key joff rsz target =
     bindr (key joff) (\<lambda>k.
       if target < k then Inr 0
       else bindr (linfo_scan n key (joff + rsz) rsz target) (\<lambda>c. Inr (Suc c)))"

text \<open>The products of an index and a record size are 32-bit numbers.\<close>

definition mul32 :: "nat \<Rightarrow> nat \<Rightarrow> nat" where
  "mul32 x y = x * y mod 2 ^ 32"

definition bpf_prog_linfo__lfind_addr_func ::
  "bpf_prog_linfo \<Rightarrow> nat \<Rightarrow> nat \<Rightarrow> nat \<Rightarrow> nat res" where
  "bpf_prog_linfo__lfind_addr_func pl addr func_idx nr_skip =
     (if func_idx \<ge> nr_jited_func pl then Inl (Err ENOENT)
      else
        bindr (stored (nr_jited_linfo_per_func pl) func_idx) (\<lambda>n.
        if nr_skip \<ge> n then Inl (Err ENOENT)
        else
          bindr (stored (jited_linfo_func_idx pl) func_idx) (\<lambda>idx.
          let start = (idx + nr_skip) mod 2 ^ 32;
              joff = mul32 start (jited_rec_size pl)
          in bindr (rd 8 (raw_jited_linfo pl) joff) (\<lambda>first.
             if addr < first then Inl (Err ENOENT)
             else
               bindr (linfo_scan (n - nr_skip) (rd 8 (raw_jited_linfo pl)) joff (jited_rec_size pl) addr)
                 (\<lambda>passed. Inr (mul32 start (rec_size pl) + passed * rec_size pl - rec_size pl))))))"

definition bpf_prog_linfo__lfind :: "bpf_prog_linfo \<Rightarrow> nat \<Rightarrow> nat \<Rightarrow> nat res" where
  "bpf_prog_linfo__lfind pl insn_off nr_skip =
     (if nr_skip \<ge> nr_linfo pl then Inl (Err ENOENT)
      else
        (let off = mul32 nr_skip (rec_size pl) in
         bindr (rd 4 (raw_linfo pl) off) (\<lambda>first.
         if insn_off < first then Inl (Err ENOENT)
         else
           bindr (linfo_scan (nr_linfo pl - nr_skip) (rd 4 (raw_linfo pl)) off (rec_size pl) insn_off)
             (\<lambda>passed. Inr (off + passed * rec_size pl - rec_size pl)))))"

section \<open>The division\<close>

text \<open>An array of which the first elements are stored.\<close>

definition filled :: "nat \<Rightarrow> 'a list \<Rightarrow> 'a option list" where
  "filled n xs = map Some xs @ replicate (n - length xs) None"

lemma filled_update:
  "length xs < n \<Longrightarrow> (filled n xs)[length xs := Some x] = filled n (xs @ [x])"
  by (simp add: filled_def list_update_append Suc_diff_le flip: replicate_Suc)
     (metis Suc_diff_Suc list_update_code(2) replicate_Suc)

lemma filled_full: "length xs = n \<Longrightarrow> filled n xs = map Some xs"
  by (simp add: filled_def)

lemma stored_full: "i < length xs \<Longrightarrow> stored (map Some xs) i = Inr (xs ! i)"
  by (simp add: stored_def)

text \<open>The sizes of the segments that start at \<open>starts\<close>, without the last one.\<close>

definition gaps :: "nat list \<Rightarrow> nat list" where
  "gaps starts = map (\<lambda>g. starts ! Suc g - starts ! g) [0..<length starts - 1]"

lemma length_gaps [simp]: "length (gaps starts) = length starts - 1"
  by (simp add: gaps_def)

lemma gaps_snoc: "starts \<noteq> [] \<Longrightarrow> gaps (starts @ [i]) = gaps starts @ [i - last starts]"
  by (cases starts rule: rev_cases)
     (auto simp: gaps_def nth_append upt_Suc_append intro!: map_cong)

text \<open>
  \<open>starts\<close> divides the records: function \<open>g\<close> starts at record \<open>starts ! g\<close>, which has its
  address; up to the last function the addresses of a function's records increase and the last
  one is inside the function's code.
\<close>

definition seg_ok :: "(nat \<Rightarrow> nat) \<Rightarrow> nat list \<Rightarrow> nat list \<Rightarrow> nat \<Rightarrow> nat \<Rightarrow> nat \<Rightarrow> bool" where
  "seg_ok A ksyms lens g a b \<longleftrightarrow>
     a < b \<and> (\<forall>k. a \<le> k \<and> k + 1 < b \<longrightarrow> A k < A (k + 1)) \<and>
     (int (A (b - 1)) - int (ksyms ! g) + 1) mod 2 ^ 64 \<le> int (lens ! g)"

definition divides :: "(nat \<Rightarrow> nat) \<Rightarrow> nat \<Rightarrow> nat list \<Rightarrow> nat list \<Rightarrow> nat list \<Rightarrow> bool" where
  "divides A n ksyms lens starts \<longleftrightarrow>
     starts \<noteq> [] \<and> hd starts = 0 \<and>
     (\<forall>g < length starts. starts ! g < n \<and> A (starts ! g) = ksyms ! g) \<and>
     (\<forall>g. Suc g < length starts \<longrightarrow> seg_ok A ksyms lens g (starts ! g) (starts ! Suc g))"

lemma divides_snoc:
  assumes "divides A n ksyms lens starts" "i < n'" "n \<le> n'" "A i = ksyms ! length starts"
    and "seg_ok A ksyms lens (length starts - 1) (last starts) i"
  shows "divides A n' ksyms lens (starts @ [i])"
proof -
  have "starts \<noteq> []" using assms(1) by (simp add: divides_def)
  then show ?thesis
    using assms unfolding divides_def
    by (auto simp: nth_append last_conv_nth less_Suc_eq Suc_less_eq2 dest: less_le_trans
        split: if_splits) (auto simp: less_antisym diff_Suc split: nat.splits)
qed

text \<open>The tables of a program whose jited records are being divided up.\<close>

definition jited_tables :: "bpf_prog_linfo \<Rightarrow> bool" where
  "jited_tables pl \<longleftrightarrow> jited_rec_size pl \<ge> 8 \<and> nr_linfo pl > 0 \<and> nr_jited_func pl > 0 \<and>
     nr_linfo pl * jited_rec_size pl \<le> length (raw_jited_linfo pl)"

definition addr_of :: "bpf_prog_linfo \<Rightarrow> nat \<Rightarrow> nat" where
  "addr_of pl i = le_nat (take 8 (drop (i * jited_rec_size pl) (raw_jited_linfo pl)))"

lemma jited_addr_eq:
  assumes "jited_tables pl" "i < nr_linfo pl"
  shows "jited_addr pl i = Inr (addr_of pl i)"
proof -
  have "i * jited_rec_size pl + jited_rec_size pl \<le> nr_linfo pl * jited_rec_size pl"
    using mult_le_mono1 [of "Suc i" "nr_linfo pl" "jited_rec_size pl"] assms(2) by simp
  then have "i * jited_rec_size pl + 8 \<le> length (raw_jited_linfo pl)"
    using assms(1) by (simp add: jited_tables_def)
  then show ?thesis by (simp add: jited_addr_def rd_def addr_of_def)
qed

lemma addr_of_update [simp]:
  "addr_of (pl\<lparr>jited_linfo_func_idx := x\<rparr>) = addr_of pl"
  "addr_of (pl\<lparr>nr_jited_linfo_per_func := y\<rparr>) = addr_of pl"
  by (simp_all add: addr_of_def fun_eq_iff)

lemma jited_tables_update [simp]:
  "jited_tables (pl\<lparr>jited_linfo_func_idx := x\<rparr>) = jited_tables pl"
  "jited_tables (pl\<lparr>nr_jited_linfo_per_func := y\<rparr>) = jited_tables pl"
  by (simp_all add: jited_tables_def)

text \<open>What holds between two rounds of the loop.\<close>

definition dissect_inv :: "nat list \<Rightarrow> nat list \<Rightarrow> nat \<Rightarrow> nat list \<Rightarrow> bpf_prog_linfo \<Rightarrow> bool" where
  "dissect_inv ksyms lens i starts pl \<longleftrightarrow>
     jited_tables pl \<and> nr_jited_func pl \<le> length ksyms \<and> nr_jited_func pl \<le> length lens \<and>
     i \<le> nr_linfo pl \<and> length starts \<le> nr_jited_func pl \<and>
     divides (addr_of pl) i ksyms lens starts \<and>
     (\<forall>k. last starts \<le> k \<and> k + 1 < i \<longrightarrow> addr_of pl k < addr_of pl (k + 1)) \<and>
     jited_linfo_func_idx pl = filled (nr_jited_func pl) starts \<and>
     nr_jited_linfo_per_func pl = filled (nr_jited_func pl) (gaps starts)"

text \<open>What the loop does not touch.\<close>

definition same_tables :: "bpf_prog_linfo \<Rightarrow> bpf_prog_linfo \<Rightarrow> bool" where
  "same_tables pl pl' \<longleftrightarrow>
     raw_linfo pl' = raw_linfo pl \<and> raw_jited_linfo pl' = raw_jited_linfo pl \<and>
     nr_linfo pl' = nr_linfo pl \<and> nr_jited_func pl' = nr_jited_func pl \<and>
     rec_size pl' = rec_size pl \<and> jited_rec_size pl' = jited_rec_size pl"

lemma inv_last_start:
  assumes "dissect_inv ksyms lens i starts pl"
  shows "last starts < i" "starts \<noteq> []" "i > 0"
proof -
  have d: "divides (addr_of pl) i ksyms lens starts" using assms by (simp add: dissect_inv_def)
  then show ne: "starts \<noteq> []" by (simp add: divides_def)
  have "starts ! (length starts - 1) < i"
    using d ne by (simp add: divides_def)
  then show "last starts < i" using ne by (simp add: last_conv_nth)
  then show "i > 0" by simp
qed

lemma dissect_step_found:
  assumes inv: "dissect_inv ksyms lens i starts pl" and i: "i < nr_linfo pl"
    and f: "length starts < nr_jited_func pl" and found: "ksyms ! length starts = addr_of pl i"
    and sane: "(int (addr_of pl (i - 1)) - int (ksyms ! (length starts - 1)) + 1) mod 2 ^ 64
        \<le> int (lens ! (length starts - 1))"
  shows "dissect_inv ksyms lens (i + 1) (starts @ [i])
    (pl\<lparr>jited_linfo_func_idx := (jited_linfo_func_idx pl)[length starts := Some i],
        nr_jited_linfo_per_func := (nr_jited_linfo_per_func pl)[length starts - 1 := Some (i - last starts)]\<rparr>)"
proof -
  note l = inv_last_start [OF inv]
  have "divides (addr_of pl) i ksyms lens starts" using inv by (simp add: dissect_inv_def)
  moreover have "seg_ok (addr_of pl) ksyms lens (length starts - 1) (last starts) i"
    using inv l sane by (simp add: seg_ok_def dissect_inv_def)
  ultimately have "divides (addr_of pl) (i + 1) ksyms lens (starts @ [i])"
    using found by (intro divides_snoc) auto
  moreover have "(filled (nr_jited_func pl) (gaps starts))[length starts - 1 := Some (i - last starts)] =
      filled (nr_jited_func pl) (gaps (starts @ [i]))"
    using filled_update [of "gaps starts" "nr_jited_func pl" "i - last starts"] f l
    by (simp add: gaps_snoc)
  ultimately show ?thesis
    using inv f i by (auto simp: dissect_inv_def filled_update)
qed

lemma dissect_loop_spec:
  assumes "dissect_inv ksyms lens i starts pl" "prev_i = last starts" "f = length starts"
  shows "case dissect_loop ksyms lens prev_i i f pl of
      Inl e \<Rightarrow> e = Err EINVAL
    | Inr (prev', f', pl') \<Rightarrow> same_tables pl pl' \<and>
        (\<exists>i' starts'. dissect_inv ksyms lens i' starts' pl' \<and> prev' = last starts' \<and> f' = length starts' \<and>
          (i' = nr_linfo pl' \<or> f' = nr_jited_func pl'))"
  using assms
proof (induction ksyms lens prev_i i f pl arbitrary: starts rule: dissect_loop.induct)
  case (1 ksyms lens prev_i i f pl)
  note inv = "1.prems"(1) and l = inv_last_start [OF "1.prems"(1)]
  have t: "jited_tables pl" "i \<le> nr_linfo pl" "nr_jited_func pl \<le> length ksyms" "nr_jited_func pl \<le> length lens"
    using inv by (auto simp: dissect_inv_def)
  show ?case
  proof (cases "i < nr_linfo pl \<and> f < nr_jited_func pl")
    case False
    then have "dissect_loop ksyms lens prev_i i f pl = Inr (prev_i, f, pl)"
      by (subst dissect_loop.simps) auto
    moreover have "i = nr_linfo pl \<or> f = nr_jited_func pl"
      using False t(2) "1.prems" by (auto simp: dissect_inv_def)
    ultimately show ?thesis using "1.prems" by (auto simp: same_tables_def)
  next
    case True
    have f: "0 < f" "f - 1 < length lens" "f - 1 < length ksyms" "f < length ksyms"
      using True t l "1.prems"(3) by auto
    have a: "jited_addr pl (i - 1) = Inr (addr_of pl (i - 1))" "jited_addr pl i = Inr (addr_of pl i)"
      "arr ksyms f = Inr (ksyms ! f)" "arr ksyms (f - 1) = Inr (ksyms ! (f - 1))"
      "arr lens (f - 1) = Inr (lens ! (f - 1))"
      using jited_addr_eq [OF t(1), of "i - 1"] jited_addr_eq [OF t(1), of i] True f
      by (simp_all add: less_imp_diff_less)
    let ?bad = "(int (addr_of pl (i - 1)) - int (ksyms ! (f - 1)) + 1) mod 2 ^ 64 > int (lens ! (f - 1))"
    let ?pl = "pl\<lparr>jited_linfo_func_idx := (jited_linfo_func_idx pl)[f := Some i],
        nr_jited_linfo_per_func := (nr_jited_linfo_per_func pl)[f - 1 := Some (i - prev_i)]\<rparr>"
    have st: "same_tables ?pl p \<longleftrightarrow> same_tables pl p" for p
      by (simp add: same_tables_def)
    show ?thesis
    proof (cases "ksyms ! f = addr_of pl i")
      case found: True
      show ?thesis
      proof (cases ?bad)
        case True
        with \<open>_ \<and> _\<close> found show ?thesis by (subst dissect_loop.simps) (simp add: a del: One_nat_def)
      next
        case False
        then have step: "dissect_loop ksyms lens prev_i i f pl = dissect_loop ksyms lens i (i + 1) (f + 1) ?pl"
          using True found by (subst dissect_loop.simps) (simp add: a del: One_nat_def)
        have "dissect_inv ksyms lens (i + 1) (starts @ [i]) ?pl"
          using dissect_step_found [OF inv] True found False "1.prems"(2,3) by simp
        from "1.IH"(1) [OF _ a(1,2,3) found a(4,5) False this] True "1.prems"(3)
        have "case dissect_loop ksyms lens i (i + 1) (f + 1) ?pl of
            Inl e \<Rightarrow> e = Err EINVAL
          | Inr (prev', f', pl') \<Rightarrow> same_tables ?pl pl' \<and>
              (\<exists>i' starts'. dissect_inv ksyms lens i' starts' pl' \<and> prev' = last starts' \<and> f' = length starts' \<and>
                (i' = nr_linfo pl' \<or> f' = nr_jited_func pl'))" by simp
        then show ?thesis unfolding step st .
      qed
    next
      case other: False
      show ?thesis
      proof (cases "addr_of pl i \<le> addr_of pl (i - 1)")
        case True
        with \<open>_ \<and> _\<close> other show ?thesis by (subst dissect_loop.simps) (simp add: a del: One_nat_def)
      next
        case False
        then have step: "dissect_loop ksyms lens prev_i i f pl = dissect_loop ksyms lens prev_i (i + 1) f pl"
          using True other by (subst dissect_loop.simps) (simp add: a del: One_nat_def)
        have "addr_of pl k < addr_of pl (k + 1)" if "last starts \<le> k" "k + 1 < i + 1" for k
          using inv that False l by (cases "k + 1 = i") (auto simp: dissect_inv_def)
        then have "dissect_inv ksyms lens (i + 1) starts pl"
          using inv True by (auto simp: dissect_inv_def divides_def less_SucI)
        from "1.IH"(2) [OF _ a(1,2,3) other False this] True "1.prems"(2,3) show ?thesis
          unfolding step by simp
      qed
    qed
  qed
qed

text \<open>The finished division.\<close>

definition linfo_divided :: "nat list \<Rightarrow> nat list \<Rightarrow> bpf_prog_linfo \<Rightarrow> nat list \<Rightarrow> bool" where
  "linfo_divided ksyms lens pl starts \<longleftrightarrow>
     jited_tables pl \<and> length starts = nr_jited_func pl \<and>
     divides (addr_of pl) (nr_linfo pl) ksyms lens starts \<and>
     jited_linfo_func_idx pl = map Some starts \<and>
     nr_jited_linfo_per_func pl = map Some (gaps starts @ [nr_linfo pl - last starts])"

lemma divides_mono: "divides A n ksyms lens starts \<Longrightarrow> n \<le> n' \<Longrightarrow> divides A n' ksyms lens starts"
  by (auto simp: divides_def intro: less_le_trans)

lemma dissect_jited_func_spec:
  assumes t: "jited_tables pl" and len: "nr_jited_func pl \<le> length ksyms" "nr_jited_func pl \<le> length lens"
    and fresh: "jited_linfo_func_idx pl = replicate (nr_jited_func pl) None"
      "nr_jited_linfo_per_func pl = replicate (nr_jited_func pl) None"
  shows "case dissect_jited_func ksyms lens pl of
      Inl e \<Rightarrow> e = Err EINVAL
    | Inr pl' \<Rightarrow> (\<exists>starts. linfo_divided ksyms lens pl' starts) \<and> same_tables pl pl'"
proof -
  let ?pl = "pl\<lparr>jited_linfo_func_idx := (jited_linfo_func_idx pl)[0 := Some 0]\<rparr>"
  have pos: "0 < nr_jited_func pl" "0 < nr_linfo pl" using t by (auto simp: jited_tables_def)
  have a: "arr ksyms 0 = Inr (ksyms ! 0)" "jited_addr pl 0 = Inr (addr_of pl 0)"
    using pos len(1) jited_addr_eq [OF t pos(2)] by (auto simp: arr_def)
  show ?thesis
  proof (cases "ksyms ! 0 = addr_of pl 0")
    case True
    have "divides (addr_of pl) 1 ksyms lens [0]" using True by (simp add: divides_def)
    moreover have "(replicate (nr_jited_func pl) None)[0 := Some (0 :: nat)] = filled (nr_jited_func pl) [0]"
      using pos filled_update [of "[]" "nr_jited_func pl" "0 :: nat"] by (simp add: filled_def)
    moreover have "replicate (nr_jited_func pl) None = filled (nr_jited_func pl) (gaps [0])"
      by (simp add: gaps_def filled_def)
    ultimately have "dissect_inv ksyms lens 1 [0] ?pl"
      using t len fresh pos by (simp add: dissect_inv_def)
    from dissect_loop_spec [OF this, of 0 1]
    have loop: "case dissect_loop ksyms lens 0 1 1 ?pl of
        Inl e \<Rightarrow> e = Err EINVAL
      | Inr (prev', f', pl') \<Rightarrow> same_tables ?pl pl' \<and>
          (\<exists>i' starts'. dissect_inv ksyms lens i' starts' pl' \<and> prev' = last starts' \<and> f' = length starts' \<and>
            (i' = nr_linfo pl' \<or> f' = nr_jited_func pl'))" by simp
    show ?thesis
    proof (cases "dissect_loop ksyms lens 0 1 1 ?pl")
      case (Inl e)
      with loop True show ?thesis by (simp add: dissect_jited_func_def a)
    next
      case (Inr r)
      then obtain prev' f' pl' where r: "dissect_loop ksyms lens 0 1 1 ?pl = Inr (prev', f', pl')"
        by (metis prod_cases3)
      show ?thesis
      proof (cases "f' = nr_jited_func pl'")
        case False
        with r True show ?thesis by (simp add: dissect_jited_func_def a)
      next
        case full: True
        from loop r obtain i' starts where inv: "dissect_inv ksyms lens i' starts pl'"
          "prev' = last starts" "f' = length starts" and st: "same_tables ?pl pl'" by auto
        note l = inv_last_start [OF inv(1)]
        let ?new = "pl'\<lparr>nr_jited_linfo_per_func := (nr_jited_linfo_per_func pl')
            [nr_jited_func pl' - 1 := Some (nr_linfo pl' - prev')]\<rparr>"
        have eq: "dissect_jited_func ksyms lens pl = Inr ?new"
          using True r full by (simp add: dissect_jited_func_def a)
        have "nr_jited_func pl' - 1 < nr_jited_func pl'" using full inv(3) l by (cases starts) simp_all
        moreover have "filled (nr_jited_func pl') (gaps starts @ [x]) = map Some (gaps starts @ [x])" for x
          using full inv(3) l by (intro filled_full) (cases starts; simp)
        ultimately have "(filled (nr_jited_func pl') (gaps starts))[nr_jited_func pl' - 1 := Some (nr_linfo pl' - prev')] =
            map Some (gaps starts @ [nr_linfo pl' - last starts])"
          using filled_update [of "gaps starts" "nr_jited_func pl'" "nr_linfo pl' - prev'"] full inv l
          by simp
        moreover have "divides (addr_of pl') (nr_linfo pl') ksyms lens starts"
          using inv(1) by (auto simp: dissect_inv_def intro: divides_mono)
        ultimately have "linfo_divided ksyms lens ?new starts"
          using inv full by (simp add: linfo_divided_def dissect_inv_def filled_full)
        moreover have "same_tables pl ?new"
          using st by (simp add: same_tables_def)
        ultimately show ?thesis by (auto simp: eq)
      qed
    qed
  qed (simp add: dissect_jited_func_def a)
qed

lemma sum_gaps:
  assumes "starts \<noteq> []" "\<forall>g. Suc g < length starts \<longrightarrow> starts ! g < starts ! Suc g"
  shows "sum_list (gaps starts) + hd starts = last starts"
  using assms
proof (induction starts rule: rev_induct)
  case (snoc x xs)
  show ?case
  proof (cases "xs = []")
    case True
    then show ?thesis by (simp add: gaps_def)
  next
    case False
    have "\<forall>g. Suc g < length xs \<longrightarrow> xs ! g < xs ! Suc g"
      using snoc.prems(2) by (auto simp: nth_append split: if_splits)
    with snoc.IH False have "sum_list (gaps xs) + hd xs = last xs" by simp
    moreover have "last xs < x"
      using spec [OF snoc.prems(2), of "length xs - 1"] False by (simp add: nth_append last_conv_nth)
    ultimately show ?thesis using False by (simp add: gaps_snoc)
  qed
qed simp

text \<open>The records of the program are divided up without a rest.\<close>

lemma linfo_divided_sum:
  assumes "linfo_divided ksyms lens pl starts"
  shows "sum_list (gaps starts @ [nr_linfo pl - last starts]) = nr_linfo pl"
proof -
  have d: "starts \<noteq> []" "hd starts = 0" "\<forall>g < length starts. starts ! g < nr_linfo pl"
    "\<forall>g. Suc g < length starts \<longrightarrow> starts ! g < starts ! Suc g"
    using assms by (auto simp: linfo_divided_def divides_def seg_ok_def)
  have "last starts < nr_linfo pl" using d(1,3) by (simp add: last_conv_nth)
  with sum_gaps [OF d(1,4)] d(2) show ?thesis by simp
qed

section \<open>Searching\<close>

text \<open>How many records from \<open>start\<close> on have a key that is not above the target.\<close>

lemma linfo_scan_spec:
  assumes "\<And>i. i < n \<Longrightarrow> key (joff + i * rsz) = Inr (K i)"
  shows "linfo_scan n key joff rsz target =
    Inr (length (takeWhile (\<lambda>i. K i \<le> target) [0..<n]))"
  using assms
proof (induction n arbitrary: joff K)
  case (Suc n)
  have k0: "key joff = Inr (K 0)" using Suc.prems [of 0] by simp
  have "key (joff + rsz + i * rsz) = Inr (K (Suc i))" if "i < n" for i
    using Suc.prems [of "Suc i"] that by (simp add: algebra_simps)
  note IH = Suc.IH [of "joff + rsz" "\<lambda>i. K (Suc i)", OF this]
  have "takeWhile P [0..<Suc n] = (if P 0 then 0 # map Suc (takeWhile (\<lambda>i. P (Suc i)) [0..<n]) else [])"
    for P :: "nat \<Rightarrow> bool"
    by (simp only: upt_conv_Cons [OF zero_less_Suc] takeWhile.simps flip: map_Suc_upt)
       (simp add: takeWhile_map o_def)
  then show ?case by (simp add: k0 IH not_le)
qed simp

text \<open>
  The record that is found: the last one before the first record with a key above the target.
\<close>

definition scan_found :: "(nat \<Rightarrow> nat) \<Rightarrow> nat \<Rightarrow> nat \<Rightarrow> nat \<Rightarrow> nat \<Rightarrow> bool" where
  "scan_found K start fin target r \<longleftrightarrow>
     start \<le> r \<and> r < fin \<and> (\<forall>i. start \<le> i \<and> i \<le> r \<longrightarrow> K i \<le> target) \<and>
     (Suc r < fin \<longrightarrow> target < K (Suc r))"

lemma scan_found_takeWhile:
  assumes "n > 0" "K start \<le> target"
  shows "\<exists>r. length (takeWhile (\<lambda>i. K (start + i) \<le> target) [0..<n]) = Suc (r - start) \<and>
    scan_found K start (start + n) target r"
proof -
  let ?P = "\<lambda>i. K (start + i) \<le> target"
  let ?w = "takeWhile ?P [0..<n]"
  have "0 < length ?w" using assms by (simp add: upt_conv_Cons)
  have le: "length ?w \<le> n" using length_takeWhile_le [of ?P "[0..<n]"] by simp
  have "K (start + i) \<le> target" if "i < length ?w" for i
    using nth_mem [OF that] set_takeWhileD [of "?w ! i" ?P "[0..<n]"] takeWhile_nth [OF that] that le
    by simp
  then have before: "K i \<le> target" if "start \<le> i" "i < start + length ?w" for i
    using that by (metis le_add_diff_inverse nat_add_left_cancel_less)
  have after: "target < K (start + length ?w)" if "length ?w < n"
    using nth_length_takeWhile [of ?P "[0..<n]"] that by simp
  obtain m where "length ?w = Suc m" using \<open>0 < length ?w\<close> by (metis Suc_pred)
  with le before after show ?thesis
    by (intro exI [of _ "start + m"]) (simp add: scan_found_def)
qed

definition insn_off_of :: "bpf_prog_linfo \<Rightarrow> nat \<Rightarrow> nat" where
  "insn_off_of pl i = le_nat (take 4 (drop (i * rec_size pl) (raw_linfo pl)))"

text \<open>The table of line records, small enough for 32-bit offsets.\<close>

definition linfo_table :: "bpf_prog_linfo \<Rightarrow> bool" where
  "linfo_table pl \<longleftrightarrow> rec_size pl \<ge> 4 \<and> nr_linfo pl * rec_size pl \<le> length (raw_linfo pl) \<and>
     nr_linfo pl * rec_size pl < 2 ^ 32 \<and> nr_linfo pl * jited_rec_size pl < 2 ^ 32"

lemma mul_in:
  fixes i n sz :: nat
  assumes "i < n"
  shows "i * sz + sz \<le> n * sz"
  using mult_le_mono1 [of "Suc i" n sz] assms by simp

lemma found_offset:
  fixes a r sz :: nat
  assumes "a \<le> r"
  shows "a * sz + Suc (r - a) * sz - sz = r * sz"
  using assms by (auto simp: le_iff_add add_mult_distrib)

lemma rd_insn_off:
  assumes "linfo_table pl" "i < nr_linfo pl"
  shows "rd 4 (raw_linfo pl) (i * rec_size pl) = Inr (insn_off_of pl i)"
  using assms mul_in [OF assms(2), of "rec_size pl"]
  by (simp add: linfo_table_def rd_def insn_off_of_def)

lemma mul32_id:
  assumes "i < n" "n * sz < 2 ^ 32" shows "mul32 i sz = i * sz"
  using mul_in [OF assms(1), of sz] assms(2) by (simp add: mul32_def)

lemma lfind_spec:
  assumes t: "linfo_table pl"
  shows "bpf_prog_linfo__lfind pl insn_off nr_skip =
      Inl (Err ENOENT) \<and> (nr_skip \<ge> nr_linfo pl \<or> insn_off < insn_off_of pl nr_skip) \<or>
    (\<exists>r. bpf_prog_linfo__lfind pl insn_off nr_skip = Inr (r * rec_size pl) \<and>
      scan_found (insn_off_of pl) nr_skip (nr_linfo pl) insn_off r)"
proof (cases "nr_skip \<ge> nr_linfo pl \<or> insn_off < insn_off_of pl nr_skip")
  case True
  show ?thesis
  proof (cases "nr_skip \<ge> nr_linfo pl")
    case False
    have "mul32 nr_skip (rec_size pl) = nr_skip * rec_size pl"
      using t False by (intro mul32_id [of nr_skip "nr_linfo pl"]) (auto simp: linfo_table_def)
    with False True rd_insn_off [OF t, of nr_skip] show ?thesis
      by (simp add: bpf_prog_linfo__lfind_def Let_def)
  qed (simp add: bpf_prog_linfo__lfind_def)
next
  case False
  define n where "n = nr_linfo pl - nr_skip"
  have n: "n > 0" "nr_skip < nr_linfo pl" "nr_skip + n = nr_linfo pl" using False by (auto simp: n_def)
  have k: "insn_off_of pl nr_skip \<le> insn_off" using False by simp
  have m: "mul32 nr_skip (rec_size pl) = nr_skip * rec_size pl"
    using t n(2) by (intro mul32_id [of nr_skip "nr_linfo pl"]) (auto simp: linfo_table_def)
  have "rd 4 (raw_linfo pl) (nr_skip * rec_size pl + i * rec_size pl) = Inr (insn_off_of pl (nr_skip + i))"
    if "i < n" for i
    using rd_insn_off [OF t, of "nr_skip + i"] that n by (simp add: algebra_simps)
  then have scan: "linfo_scan n (rd 4 (raw_linfo pl)) (nr_skip * rec_size pl) (rec_size pl) insn_off =
      Inr (length (takeWhile (\<lambda>i. insn_off_of pl (nr_skip + i) \<le> insn_off) [0..<n]))"
    by (rule linfo_scan_spec)
  from scan_found_takeWhile [where K = "insn_off_of pl", OF n(1) k] n(3) obtain r where
    r: "length (takeWhile (\<lambda>i. insn_off_of pl (nr_skip + i) \<le> insn_off) [0..<n]) = Suc (r - nr_skip)"
      "scan_found (insn_off_of pl) nr_skip (nr_linfo pl) insn_off r" by auto
  have "nr_skip * rec_size pl + Suc (r - nr_skip) * rec_size pl - rec_size pl = r * rec_size pl"
    using r(2) by (intro found_offset) (simp add: scan_found_def)
  then have "bpf_prog_linfo__lfind pl insn_off nr_skip = Inr (r * rec_size pl)"
    using n k scan rd_insn_off [OF t n(2)]
    by (simp add: bpf_prog_linfo__lfind_def Let_def m r(1) flip: n_def)
  with r(2) show ?thesis by blast
qed

text \<open>The records of function \<open>f\<close>: from \<open>starts ! f\<close> up to the next start or the end.\<close>

definition seg_end :: "bpf_prog_linfo \<Rightarrow> nat list \<Rightarrow> nat \<Rightarrow> nat" where
  "seg_end pl starts f = (if Suc f < length starts then starts ! Suc f else nr_linfo pl)"

lemma segment_of:
  assumes d: "linfo_divided ksyms lens pl starts" and f: "f < nr_jited_func pl"
  shows "stored (nr_jited_linfo_per_func pl) f = Inr (seg_end pl starts f - starts ! f)"
    "stored (jited_linfo_func_idx pl) f = Inr (starts ! f)"
    "starts ! f < seg_end pl starts f" "seg_end pl starts f \<le> nr_linfo pl"
proof -
  have l: "length starts = nr_jited_func pl" "starts \<noteq> []" "\<forall>g < length starts. starts ! g < nr_linfo pl"
    "\<forall>g. Suc g < length starts \<longrightarrow> starts ! g < starts ! Suc g"
    using d by (auto simp: linfo_divided_def divides_def seg_ok_def)
  have last: "last starts = starts ! f" if "\<not> Suc f < length starts"
  proof -
    have "length starts - 1 = f" using that f l(1) by linarith
    then show ?thesis using l(2) by (simp add: last_conv_nth)
  qed
  have len: "f < length (gaps starts @ [nr_linfo pl - last starts])" using f l by simp
  have "(gaps starts @ [nr_linfo pl - last starts]) ! f = seg_end pl starts f - starts ! f"
    using f l(1) last by (auto simp: nth_append gaps_def seg_end_def)
  with stored_full [OF len] d
  show "stored (nr_jited_linfo_per_func pl) f = Inr (seg_end pl starts f - starts ! f)"
    by (simp only: linfo_divided_def)
  show "stored (jited_linfo_func_idx pl) f = Inr (starts ! f)"
    using d f l(1) by (simp add: linfo_divided_def stored_full)
  show "starts ! f < seg_end pl starts f" "seg_end pl starts f \<le> nr_linfo pl"
    using spec [OF l(3), of f] spec [OF l(3), of "Suc f"] spec [OF l(4), of f] f l(1)
    by (auto simp: seg_end_def)
qed

lemma lfind_addr_func_spec:
  assumes d: "linfo_divided ksyms lens pl starts" and t: "linfo_table pl" and f: "f < nr_jited_func pl"
  shows "bpf_prog_linfo__lfind_addr_func pl addr f nr_skip =
      Inl (Err ENOENT) \<and> (starts ! f + nr_skip \<ge> seg_end pl starts f \<or> addr < addr_of pl (starts ! f + nr_skip)) \<or>
    (\<exists>r. bpf_prog_linfo__lfind_addr_func pl addr f nr_skip = Inr (r * rec_size pl) \<and>
      scan_found (addr_of pl) (starts ! f + nr_skip) (seg_end pl starts f) addr r)"
proof -
  note seg = segment_of [OF d f]
  define s where "s = starts ! f + nr_skip"
  define e where "e = seg_end pl starts f"
  have jt: "jited_tables pl" using d by (simp add: linfo_divided_def)
  have big: "nr_linfo pl < 2 ^ 32"
  proof -
    have "nr_linfo pl * 1 \<le> nr_linfo pl * rec_size pl"
      using t by (intro mult_le_mono2) (simp add: linfo_table_def)
    also have "\<dots> < 2 ^ 32" using t by (simp add: linfo_table_def)
    finally show ?thesis by simp
  qed
  show ?thesis
  proof (cases "s < e")
    case False
    then have "nr_skip \<ge> seg_end pl starts f - starts ! f" "starts ! f + nr_skip \<ge> seg_end pl starts f"
      by (simp_all add: s_def e_def)
    with seg(1) f show ?thesis by (simp add: bpf_prog_linfo__lfind_addr_func_def)
  next
    case True
    have sn: "s < nr_linfo pl" using True seg(4) by (simp add: e_def)
    have start: "(starts ! f + nr_skip) mod 2 ^ 32 = s" using sn big by (simp add: s_def)
    have m: "mul32 s (jited_rec_size pl) = s * jited_rec_size pl" "mul32 s (rec_size pl) = s * rec_size pl"
      using t sn by (auto simp: linfo_table_def intro!: mul32_id [of s "nr_linfo pl"])
    have key: "rd 8 (raw_jited_linfo pl) (s * jited_rec_size pl + i * jited_rec_size pl) = Inr (addr_of pl (s + i))"
      if "i < e - s" for i
      using jited_addr_eq [OF jt, of "s + i"] that seg(4) True
      by (simp add: jited_addr_def algebra_simps e_def)
    then have first: "rd 8 (raw_jited_linfo pl) (s * jited_rec_size pl) = Inr (addr_of pl s)"
      using True by (metis add.right_neutral mult_zero_left zero_less_diff)
    have cnt: "seg_end pl starts f - (starts ! f + nr_skip) = e - s" by (simp add: s_def e_def)
    have skip: "\<not> nr_skip \<ge> seg_end pl starts f - starts ! f" using True by (simp add: s_def e_def)
    show ?thesis
    proof (cases "addr < addr_of pl s")
      case True
      with first skip f seg(1,2) start m show ?thesis
        by (simp add: bpf_prog_linfo__lfind_addr_func_def Let_def) (simp add: s_def)
    next
      case False
      have scan: "linfo_scan (e - s) (rd 8 (raw_jited_linfo pl)) (s * jited_rec_size pl) (jited_rec_size pl) addr =
          Inr (length (takeWhile (\<lambda>i. addr_of pl (s + i) \<le> addr) [0..<e - s]))"
        using key by (rule linfo_scan_spec)
      from scan_found_takeWhile [where K = "addr_of pl" and start = s and n = "e - s" and target = addr]
      obtain r where r: "length (takeWhile (\<lambda>i. addr_of pl (s + i) \<le> addr) [0..<e - s]) = Suc (r - s)"
          "scan_found (addr_of pl) s e addr r" using True False by auto
      have "s * rec_size pl + Suc (r - s) * rec_size pl - rec_size pl = r * rec_size pl"
        using r(2) by (intro found_offset) (simp add: scan_found_def)
      then have "bpf_prog_linfo__lfind_addr_func pl addr f nr_skip = Inr (r * rec_size pl)"
        using first skip f seg(1,2) start m scan False
        by (simp add: bpf_prog_linfo__lfind_addr_func_def Let_def cnt r(1))
      with r(2) show ?thesis by (auto simp: s_def e_def)
    qed
  qed
qed

text \<open>The arrays that the kernel fills in are as long as it says.\<close>

definition info_wf :: "bpf_prog_info \<Rightarrow> bool" where
  "info_wf info \<longleftrightarrow>
     nr_line_info info * line_info_rec_size info \<le> length (line_info info) \<and>
     (\<forall>j. jited_line_info info = Some j \<longrightarrow>
        nr_jited_line_info info * jited_line_info_rec_size info \<le> length j) \<and>
     (\<forall>k. jited_ksyms info = Some k \<longrightarrow> nr_jited_ksyms info \<le> length k) \<and>
     (\<forall>l. jited_func_lens info = Some l \<longrightarrow> nr_jited_func_lens info \<le> length l)"

lemma linfo_new_cases:
  assumes wf: "info_wf info" and new: "bpf_prog_linfo__new m1 m2 m3 m4 m5 info = r"
  shows "case r of
      Inl e \<Rightarrow> e \<noteq> UB
    | Inr pl \<Rightarrow>
        nr_linfo pl = nr_line_info info \<and> rec_size pl = line_info_rec_size info \<and> rec_size pl \<ge> 4 \<and>
        raw_linfo pl = take (nr_linfo pl * rec_size pl) (line_info info) \<and>
        (nr_jited_func pl = 0 \<or>
         nr_jited_func pl = nr_jited_ksyms info \<and>
         (\<exists>ksyms lens starts. jited_ksyms info = Some ksyms \<and> jited_func_lens info = Some lens \<and>
            linfo_divided ksyms lens pl starts))"
proof (cases "\<exists>jited ksyms lens. jited_line_info info = Some jited \<and> jited_ksyms info = Some ksyms \<and>
    jited_func_lens info = Some lens")
  case False
  with assms show ?thesis
    by (auto simp: bpf_prog_linfo__new_def Let_def info_wf_def split: option.splits if_splits)
next
  case True
  then obtain jited ksyms lens where some: "jited_line_info info = Some jited" "jited_ksyms info = Some ksyms"
    "jited_func_lens info = Some lens" by blast
  define pl where "pl = \<lparr>raw_linfo = take (nr_line_info info * line_info_rec_size info) (line_info info),
      raw_jited_linfo = take (nr_line_info info * jited_line_info_rec_size info) jited,
      nr_jited_linfo_per_func = replicate (nr_jited_ksyms info) None,
      jited_linfo_func_idx = replicate (nr_jited_ksyms info) None,
      nr_linfo = nr_line_info info, nr_jited_func = nr_jited_ksyms info,
      rec_size = line_info_rec_size info, jited_rec_size = jited_line_info_rec_size info\<rparr>"
  show ?thesis
  proof (cases "nr_line_info info \<noteq> 0 \<and> line_info_rec_size info \<ge> 4 \<and> m1 \<and> m2 \<and>
      \<not> (nr_jited_ksyms info = 0 \<or> nr_jited_line_info info \<noteq> nr_line_info info \<or>
         jited_line_info_rec_size info < 8 \<or> nr_jited_func_lens info \<noteq> nr_jited_ksyms info) \<and>
      m3 \<and> m4 \<and> m5")
    case False
    with new wf some show ?thesis
      by (auto simp: bpf_prog_linfo__new_def Let_def info_wf_def)
  next
    case full: True
    then have new': "r = (case dissect_jited_func ksyms lens pl of
        Inl UB \<Rightarrow> Inl UB | Inl Hang \<Rightarrow> Inl Hang | Inl (Err _) \<Rightarrow> Inl (Err EINVAL) | Inr pl' \<Rightarrow> Inr pl')"
      using new wf some by (simp add: bpf_prog_linfo__new_def Let_def info_wf_def pl_def not_less)
    have pl: "jited_tables pl" "nr_jited_func pl \<le> length ksyms" "nr_jited_func pl \<le> length lens"
      "jited_linfo_func_idx pl = replicate (nr_jited_func pl) None"
      "nr_jited_linfo_per_func pl = replicate (nr_jited_func pl) None"
      using full wf some by (auto simp: pl_def jited_tables_def info_wf_def)
    note spec = dissect_jited_func_spec [OF this]
    show ?thesis
    proof (cases "dissect_jited_func ksyms lens pl")
      case (Inl e)
      with spec new' show ?thesis by simp
    next
      case (Inr pl')
      with spec new' full some show ?thesis by (auto simp: same_tables_def pl_def)
    qed
  qed
qed

section \<open>Properties\<close>


text \<open>Two functions with two records and one record.\<close>

definition sample_info :: bpf_prog_info where
  "sample_info = \<lparr>nr_line_info = 3, line_info_rec_size = 4,
     line_info = [0, 0, 0, 0, 2, 0, 0, 0, 5, 0, 0, 0],
     nr_jited_line_info = 3, jited_line_info_rec_size = 8,
     jited_line_info = Some (le_bytes 8 100 @ le_bytes 8 104 @ le_bytes 8 200),
     nr_jited_ksyms = 2, jited_ksyms = Some [100, 200],
     nr_jited_func_lens = 2, jited_func_lens = Some [8, 4]\<rparr>"

lemma sample_info_wf: "info_wf sample_info"
  by (simp add: info_wf_def sample_info_def)


text \<open>
  In line information made from complete jited information the search for an address
  finds the last record of the function, after the records to be skipped, that is not preceded
  by an address above the one looked for, and fails exactly when there is no such record; the
  search for an instruction does the same on the records of the whole program.  The tables must be smaller than 2^32 bytes, because the offsets are computed with 32 bits.
\<close>

theorem lfind_addr_func_exact:
  assumes "info_wf info" "bpf_prog_linfo__new m1 m2 m3 m4 m5 info = Inr pl"
    and "nr_linfo pl * rec_size pl < 2 ^ 32" "nr_linfo pl * jited_rec_size pl < 2 ^ 32"
    and "f < nr_jited_func pl"
  shows "\<exists>starts. jited_linfo_func_idx pl = map Some starts \<and>
    (bpf_prog_linfo__lfind_addr_func pl addr f nr_skip =
       Inl (Err ENOENT) \<and> (starts ! f + nr_skip \<ge> seg_end pl starts f \<or> addr < addr_of pl (starts ! f + nr_skip)) \<or>
     (\<exists>r. bpf_prog_linfo__lfind_addr_func pl addr f nr_skip = Inr (r * rec_size pl) \<and>
       scan_found (addr_of pl) (starts ! f + nr_skip) (seg_end pl starts f) addr r)) \<and>
    (bpf_prog_linfo__lfind pl insn_off nr_skip =
       Inl (Err ENOENT) \<and> (nr_skip \<ge> nr_linfo pl \<or> insn_off < insn_off_of pl nr_skip) \<or>
     (\<exists>r. bpf_prog_linfo__lfind pl insn_off nr_skip = Inr (r * rec_size pl) \<and>
       scan_found (insn_off_of pl) nr_skip (nr_linfo pl) insn_off r))"
proof -
  note c = linfo_new_cases [OF assms(1,2), simplified]
  then obtain ksyms lens starts where d: "linfo_divided ksyms lens pl starts" using assms(5) by auto
  have t: "linfo_table pl" using c assms(1,3,4) by (auto simp: linfo_table_def info_wf_def)
  from lfind_addr_func_spec [OF d t assms(5), of addr nr_skip] lfind_spec [OF t, of insn_off nr_skip] d
  show ?thesis by (intro exI [of _ starts]) (simp add: linfo_divided_def)
qed

lemma sample_new_linfo:
  "\<exists>pl. bpf_prog_linfo__new True True True True True sample_info = Inr pl \<and>
     nr_linfo pl = 3 \<and> rec_size pl = 4 \<and> jited_rec_size pl = 8 \<and> nr_jited_func pl = 2"
  by (simp add: bpf_prog_linfo__new_def sample_info_def Let_def dissect_jited_func_def arr_def
      jited_addr_def rd_def le_bytes_numeral dissect_loop.simps)

theorem lfind_addr_func_exact_witness:
  "\<exists>pl starts. bpf_prog_linfo__new True True True True True sample_info = Inr pl \<and>
     jited_linfo_func_idx pl = map Some starts \<and>
     (bpf_prog_linfo__lfind pl 3 0 = Inl (Err ENOENT) \<or>
      (\<exists>r. bpf_prog_linfo__lfind pl 3 0 = Inr (r * 4)))"
proof -
  obtain pl where pl: "bpf_prog_linfo__new True True True True True sample_info = Inr pl"
    "nr_linfo pl = 3" "rec_size pl = 4" "jited_rec_size pl = 8" "nr_jited_func pl = 2"
    using sample_new_linfo by blast
  from lfind_addr_func_exact [OF sample_info_wf pl(1), of 0 150 0 3] pl show ?thesis by auto
qed

end
