(* ===== verification/Ringbuf.thy ===== *)
theory Ringbuf imports C_Prelude begin

text \<open>
  The ring buffers of libbpf (\<open>bpf/libbpf/src/ringbuf.c\<close>).  In a kernel ring buffer the kernel
  produces and \<open>ringbuf_process_ring\<close> consumes; in a user ring buffer the program reserves and
  commits and the kernel drains.  Positions are 64-bit counters that only grow; the place of a
  position in the data area is the position masked with the size minus one.  The area is mapped
  twice in a row, so a record that wraps around is contiguous: memory is addressed here by the
  masked offset of the header of a record.

  The two sides run concurrently.  What the other side does is a parameter: the values that the
  loads of \<open>producer_pos\<close> and of headers return, in the order of the loads, and for the user ring
  buffer the steps of the consumer in a step relation.
\<close>

section \<open>Headers\<close>

text \<open>Bit 31 of a length marks a record that is being written, bit 30 one to be skipped.\<close>

definition busy :: "u32 \<Rightarrow> bool" where "busy len \<longleftrightarrow> bit len 31"
definition discarded :: "u32 \<Rightarrow> bool" where "discarded len \<longleftrightarrow> bit len 30"
definition BPF_RINGBUF_BUSY_BIT :: u32 where "BPF_RINGBUF_BUSY_BIT = 0x80000000"
definition BPF_RINGBUF_DISCARD_BIT :: u32 where "BPF_RINGBUF_DISCARD_BIT = 0x40000000"

definition roundup_len :: "u32 \<Rightarrow> nat" where
  "roundup_len len =
     (let len = push_bit 2 len; len = drop_bit 2 len; len = len + 8
      in unat ((len + 7) div 8 * 8))"

section \<open>Consuming a kernel ring buffer\<close>

record 'c ring =
  sample_cb :: "'c \<Rightarrow> u64 \<Rightarrow> u32 \<Rightarrow> 'c \<times> int"
  cb_ctx :: 'c
  consumer_pos :: u64
  ring_mask :: u64

text \<open>
  What the producer shows: \<open>prod_load j\<close> is the value of the \<open>j\<close>-th load of its position,
  \<open>len_load k off\<close> the value of the header at offset \<open>off\<close> at the \<open>k\<close>-th load of a header.
\<close>

record producer_view =
  prod_load :: "nat \<Rightarrow> u64"
  len_load :: "nat \<Rightarrow> u64 \<Rightarrow> u32"

text \<open>
  The two nested loops of \<open>ringbuf_process_ring\<close>: \<open>j\<close> and \<open>k\<close> count the loads, \<open>prod_pos\<close> and
  \<open>got\<close> are the variables of the outer loop.  While the producer keeps producing the loops go
  on, so they have fuel.  The consumer position is stored after every record.
\<close>

fun process_loop ::
  "nat \<Rightarrow> producer_view \<Rightarrow> nat \<Rightarrow> nat \<Rightarrow> u64 \<Rightarrow> bool \<Rightarrow> int \<Rightarrow> 'c ring \<Rightarrow> ('c ring \<times> int) option" where
  "process_loop 0 pv j k prod_pos got cnt r = None"
| "process_loop (Suc fuel) pv j k prod_pos got cnt r =
     (if consumer_pos r < prod_pos then
        (let off = consumer_pos r AND ring_mask r; len = len_load pv k off in
         if busy len then Some (r, cnt)
         else
           (let r1 = r\<lparr>consumer_pos := consumer_pos r + word_of_nat (roundup_len len)\<rparr> in
            if \<not> discarded len then
              (case sample_cb r (cb_ctx r) (off + 8) len of
                 (c', err) \<Rightarrow>
                   if err < 0 then Some (r1\<lparr>cb_ctx := c'\<rparr>, err)
                   else process_loop fuel pv j (Suc k) prod_pos True (cnt + 1) (r1\<lparr>cb_ctx := c'\<rparr>))
            else process_loop fuel pv j (Suc k) prod_pos True cnt r1))
      else if got then process_loop fuel pv (Suc j) k (prod_load pv j) False cnt r
      else Some (r, cnt))"

definition ringbuf_process_ring :: "nat \<Rightarrow> producer_view \<Rightarrow> 'c ring \<Rightarrow> ('c ring \<times> int) option" where
  "ringbuf_process_ring fuel pv r = process_loop fuel pv 1 0 (prod_load pv 0) False 0 r"

definition INT_MAX :: int where "INT_MAX = 2 ^ 31 - 1"

definition ring__consume :: "nat \<Rightarrow> producer_view \<Rightarrow> 'c ring \<Rightarrow> ('c ring \<times> int) option" where
  "ring__consume fuel pv r =
     map_option (\<lambda>(r', res). (r', if res < 0 then res else if res > INT_MAX then INT_MAX else res))
       (ringbuf_process_ring fuel pv r)"

text \<open>\<open>ring_buffer__consume\<close> goes through all rings; each has a producer of its own.\<close>

fun consume_rings :: "nat \<Rightarrow> (producer_view \<times> 'c ring) list \<Rightarrow> int \<Rightarrow> ('c ring list \<times> int) option" where
  "consume_rings fuel [] res = Some ([], res)"
| "consume_rings fuel ((pv, r) # rs) res =
     (case ringbuf_process_ring fuel pv r of
        None \<Rightarrow> None
      | Some (r', err) \<Rightarrow>
          if err < 0 then Some (r' # map snd rs, err)
          else map_option (\<lambda>(rs', res'). (r' # rs', res')) (consume_rings fuel rs (res + err)))"

definition ring_buffer__consume :: "nat \<Rightarrow> (producer_view \<times> 'c ring) list \<Rightarrow> ('c ring list \<times> int) option" where
  "ring_buffer__consume fuel rs =
     map_option (\<lambda>(rs', res). (rs', if res > INT_MAX then INT_MAX else res)) (consume_rings fuel rs 0)"

text \<open>\<open>ring_buffer__poll\<close> visits the rings that \<open>epoll_wait\<close> names.\<close>

fun poll_rings :: "nat \<Rightarrow> producer_view list \<Rightarrow> 'c ring list \<Rightarrow> nat list \<Rightarrow> int \<Rightarrow> ('c ring list \<times> int) option" where
  "poll_rings fuel pvs rs [] res = Some (rs, res)"
| "poll_rings fuel pvs rs (ring_id # ids) res =
     (case ringbuf_process_ring fuel (pvs ! ring_id) (rs ! ring_id) of
        None \<Rightarrow> None
      | Some (r', err) \<Rightarrow>
          if err < 0 then Some (rs[ring_id := r'], err)
          else poll_rings fuel pvs (rs[ring_id := r']) ids (res + err))"

definition ring_buffer__poll ::
  "nat \<Rightarrow> producer_view list \<Rightarrow> 'c ring list \<Rightarrow> (int + nat list) \<Rightarrow> ('c ring list \<times> int) option" where
  "ring_buffer__poll fuel pvs rs ready =
     (case ready of
        Inl err \<Rightarrow> Some (rs, err)
      | Inr ids \<Rightarrow>
          map_option (\<lambda>(rs', res). (rs', if res > INT_MAX then INT_MAX else res))
            (poll_rings fuel pvs rs ids 0))"

definition ring_buffer__ring :: "'c ring list \<Rightarrow> nat \<Rightarrow> 'c ring res" where
  "ring_buffer__ring rs idx = (if idx \<ge> length rs then Inl (Err ERANGE) else Inr (rs ! idx))"

definition ring__consumer_pos :: "'c ring \<Rightarrow> u64" where
  "ring__consumer_pos r = consumer_pos r"

definition ring__producer_pos :: "producer_view \<Rightarrow> nat \<Rightarrow> u64" where
  "ring__producer_pos pv j = prod_load pv j"

definition ring__avail_data_size :: "producer_view \<Rightarrow> nat \<Rightarrow> 'c ring \<Rightarrow> u64" where
  "ring__avail_data_size pv j r = ring__producer_pos pv j - ring__consumer_pos r"

definition ring__size :: "'c ring \<Rightarrow> u64" where
  "ring__size r = ring_mask r + 1"

section \<open>The user ring buffer\<close>

record ringbuf_hdr =
  hdr_len :: u32
  hdr_pad :: u32

text \<open>\<open>ur_hdrs\<close> gives the header at a masked offset.\<close>

record user_ring_buffer =
  ur_consumer_pos :: u64
  ur_producer_pos :: u64
  ur_hdrs :: "u64 \<Rightarrow> ringbuf_hdr"
  ur_mask :: u64

text \<open>
  The sizes are 32-bit numbers.  The result is the offset of the reserved sample from the start of
  the data area.
\<close>

definition user_ring_buffer__reserve ::
  "user_ring_buffer \<Rightarrow> u32 \<Rightarrow> user_ring_buffer \<times> u64 res" where
  "user_ring_buffer__reserve rb sample_sz =
     (if sample_sz AND (BPF_RINGBUF_BUSY_BIT OR BPF_RINGBUF_DISCARD_BIT) \<noteq> 0 then (rb, Inl (Err E2BIG))
      else
        (let cons_pos = ur_consumer_pos rb;
             prod_pos = ur_producer_pos rb;
             max_size = (ucast (ur_mask rb + 1) :: u32);
             avail_size = (ucast (ucast max_size - (prod_pos - cons_pos)) :: u32);
             total_size = (sample_sz + 8 + 7) div 8 * 8
         in if total_size > max_size then (rb, Inl (Err E2BIG))
            else if avail_size < total_size then (rb, Inl (Err ENOSPC))
            else
              (rb\<lparr>ur_hdrs := (ur_hdrs rb)(prod_pos AND ur_mask rb :=
                     \<lparr>hdr_len = sample_sz OR BPF_RINGBUF_BUSY_BIT, hdr_pad = 0\<rparr>),
                  ur_producer_pos := prod_pos + ucast total_size\<rparr>,
               Inr ((prod_pos + 8) AND ur_mask rb))))"

definition user_ringbuf_commit :: "user_ring_buffer \<Rightarrow> u64 \<Rightarrow> bool \<Rightarrow> user_ring_buffer" where
  "user_ringbuf_commit rb sample discard =
     (let hdr_offset = ur_mask rb + 1 + sample - 8;
          off = hdr_offset AND ur_mask rb;
          hdr = ur_hdrs rb off;
          new_len = hdr_len hdr AND NOT BPF_RINGBUF_BUSY_BIT;
          new_len = (if discard then new_len OR BPF_RINGBUF_DISCARD_BIT else new_len)
      in rb\<lparr>ur_hdrs := (ur_hdrs rb)(off := hdr\<lparr>hdr_len := new_len\<rparr>)\<rparr>)"

definition user_ring_buffer__discard :: "user_ring_buffer \<Rightarrow> u64 \<Rightarrow> user_ring_buffer" where
  "user_ring_buffer__discard rb sample = user_ringbuf_commit rb sample True"

definition user_ring_buffer__submit :: "user_ring_buffer \<Rightarrow> u64 \<Rightarrow> user_ring_buffer" where
  "user_ring_buffer__submit rb sample = user_ringbuf_commit rb sample False"

section \<open>Records in a row\<close>

text \<open>Where record \<open>i\<close> starts, relative to the first one.\<close>

definition place :: "('r \<Rightarrow> nat) \<Rightarrow> 'r list \<Rightarrow> nat \<Rightarrow> nat" where
  "place room rs i = sum_list (map room (take i rs))"

lemma place_simps [simp]:
  "place room rs 0 = 0" "place room (r # rs) (Suc i) = room r + place room rs i"
  "place room [] i = 0"
  by (simp_all add: place_def)

lemma place_append [simp]: "i \<le> length rs \<Longrightarrow> place room (rs @ xs) i = place room rs i"
  by (simp add: place_def)

lemma place_snoc [simp]: "place room (rs @ [r]) (Suc (length rs)) = place room rs (length rs) + room r"
  by (simp add: place_def)

text \<open>The masked offset of a position, also when the position wraps around.\<close>

lemma unat_mask_pos:
  fixes base :: u64
  assumes "p < 64"
  shows "unat (take_bit p (base + word_of_nat n)) = (unat base + n) mod 2 ^ p"
proof -
  have d: "(2 :: nat) ^ p dvd 2 ^ 64" using assms by (intro le_imp_power_dvd) simp
  have "unat (take_bit p w) = unat w mod 2 ^ p" for w :: u64
    by (subst unsigned_take_bit_eq) (rule take_bit_eq_mod)
  moreover have "unat (base + word_of_nat n) = (unat base + n mod 2 ^ 64) mod 2 ^ 64"
    by (simp add: unat_word_ariths unat_of_nat)
  ultimately show ?thesis by (simp only: mod_mod_cancel [OF d] mod_add_right_eq)
qed

lemma mod_add_left_cancel:
  fixes a b m x :: nat
  assumes "(x + a) mod m = (x + b) mod m"
  shows "a mod m = b mod m"
proof -
  have "int (x + a) mod int m = int (x + b) mod int m"
    using assms by (metis zmod_int)
  then have "(int (x + a) - int x) mod int m = (int (x + b) - int x) mod int m"
    by (rule mod_diff_cong) simp
  then have "int a mod int m = int b mod int m" by simp
  then have "int (a mod m) = int (b mod m)" by (simp only: zmod_int)
  then show ?thesis by (simp only: of_nat_eq_iff)
qed

lemma take_bit_add_left:
  fixes x y :: u64
  shows "take_bit p (take_bit p x + y) = take_bit p (x + y)"
proof -
  have "take_bit p (take_bit p i + j) = take_bit p (i + j)" for i j :: int
    by (simp add: take_bit_eq_mod mod_simps)
  then have "take_bit p (take_bit p (of_int i) + of_int j) = take_bit p (of_int i + of_int j :: u64)" for i j
    by (simp only: take_bit_of_int flip: of_int_add)
  from this [of "uint x" "uint y"] show ?thesis by simp
qed

text \<open>What the two sides agree on: every record takes at least the room of its header.\<close>

locale ring_layout =
  fixes room :: "'r \<Rightarrow> nat"
  assumes room_ge: "8 \<le> room r"
begin

lemma place_Suc: "i < length rs \<Longrightarrow> place room rs (Suc i) = place room rs i + room (rs ! i)"
  by (simp add: place_def take_Suc_conv_app_nth)

lemma place_mono: "i \<le> j \<Longrightarrow> place room rs i \<le> place room rs j"
  by (auto simp: place_def le_iff_add take_add)

lemma place_less:
  assumes "i < j" "j \<le> length rs"
  shows "place room rs i + 8 \<le> place room rs j"
proof -
  have "place room rs i + 8 \<le> place room rs (Suc i)"
    using assms room_ge [of "rs ! i"] by (simp add: place_Suc)
  also have "\<dots> \<le> place room rs j" using assms by (intro place_mono) simp
  finally show ?thesis .
qed

lemma place_less_iff:
  "i \<le> length rs \<Longrightarrow> j \<le> length rs \<Longrightarrow> place room rs i < place room rs j \<longleftrightarrow> i < j"
  using place_less [of i j rs] place_mono [of j i rs] by (cases "i < j") auto

text \<open>Records that lie in a window of the size of the ring have headers at different offsets.\<close>

lemma offsets_distinct:
  fixes base :: u64
  assumes "place room rs (length rs) \<le> 2 ^ p" "i < length rs" "j < length rs" "p < 64"
    and "take_bit p (base + word_of_nat (place room rs i)) = take_bit p (base + word_of_nat (place room rs j))"
  shows "i = j"
proof -
  have small: "place room rs k < 2 ^ p" if "k < length rs" for k
    using place_less [of k "length rs" rs] assms(1) that by simp
  have "(unat base + place room rs i) mod 2 ^ p = (unat base + place room rs j) mod 2 ^ p"
    using arg_cong [OF assms(5), of unat] assms(4) by (simp add: unat_mask_pos)
  then have "place room rs i mod 2 ^ p = place room rs j mod 2 ^ p"
    by (rule mod_add_left_cancel)
  then have "place room rs i = place room rs j"
    using small assms(2,3) by simp
  with assms(2,3) show ?thesis
    using place_less_iff [of i rs j] place_less_iff [of j rs i] by (cases i j rule: linorder_cases) auto
qed

end

lemma roundup_len_eq: "roundup_len len = (unat len mod 2 ^ 30 + 15) div 8 * 8"
proof -
  have "drop_bit 2 (push_bit 2 len) = take_bit 30 len"
    by (rule bit_word_eqI) (auto simp: bit_simps)
  moreover have "unat (take_bit 30 len) = unat len mod 2 ^ 30"
    by (simp only: unsigned_take_bit_eq) (simp only: take_bit_eq_mod)
  ultimately have u: "unat (drop_bit 2 (push_bit 2 len)) = unat len mod 2 ^ 30" by simp
  have lt: "unat len mod 2 ^ 30 + 15 < 2 ^ 32"
    using mod_less_divisor [of "2 ^ 30" "unat len"] by simp
  have "unat (drop_bit 2 (push_bit 2 len) + 8 + 7) = unat len mod 2 ^ 30 + 15"
    using lt u by (simp add: unat_word_ariths)
  then have "unat ((drop_bit 2 (push_bit 2 len) + 8 + 7) div 8) = (unat len mod 2 ^ 30 + 15) div 8"
    by (simp add: unat_div)
  moreover have "(unat len mod 2 ^ 30 + 15) div 8 * 8 < 2 ^ 32"
    using lt by (intro le_less_trans [OF div_times_less_eq_dividend])
  ultimately show ?thesis
    unfolding roundup_len_def Let_def
    by (subst unat_word_ariths) simp
qed

lemma roundup_len_bounds: "8 \<le> roundup_len len" "roundup_len len < 2 ^ 31" "8 dvd roundup_len len"
proof -
  have "unat len mod 2 ^ 30 < 2 ^ 30" by simp
  then show "8 \<le> roundup_len len" "roundup_len len < 2 ^ 31" "8 dvd roundup_len len"
    unfolding roundup_len_eq by auto
qed

interpretation ring_records: ring_layout roundup_len
  by unfold_locales (rule roundup_len_bounds)

section \<open>What a consumer delivers\<close>

text \<open>
  The specification of the consumer: hand the records of a log over one after the other, from
  position \<open>pos\<close> on, and count them; discarded ones are passed over, an error of the callback ends
  the delivery.
\<close>

fun deliver :: "('c \<Rightarrow> u64 \<Rightarrow> u32 \<Rightarrow> 'c \<times> int) \<Rightarrow> u64 \<Rightarrow> u64 \<Rightarrow> u32 list \<Rightarrow> 'c \<Rightarrow> int \<Rightarrow> 'c \<times> int" where
  "deliver cb m pos [] c cnt = (c, cnt)"
| "deliver cb m pos (h # hs) c cnt =
     (let pos' = pos + word_of_nat (roundup_len h) in
      if discarded h then deliver cb m pos' hs c cnt
      else case cb c ((pos AND m) + 8) h of
        (c', err) \<Rightarrow> if err < 0 then (c', err) else deliver cb m pos' hs c' (cnt + 1))"

text \<open>
  The protocol of the producer for the records of a log that starts at \<open>base\<close>: the header of
  record \<open>i\<close> shows a busy record or record \<open>i\<close>, and the positions it shows are ends of records.
\<close>

definition produces :: "producer_view \<Rightarrow> u64 \<Rightarrow> u64 \<Rightarrow> u32 list \<Rightarrow> bool" where
  "produces pv m base log \<longleftrightarrow>
     unat base + place roundup_len log (length log) < 2 ^ 64 \<and>
     (\<forall>h \<in> set log. \<not> busy h) \<and>
     (\<forall>k. \<forall>i < length log.
        let h = len_load pv k ((base + word_of_nat (place roundup_len log i)) AND m) in busy h \<or> h = log ! i)"

definition record_end :: "u64 \<Rightarrow> u32 list \<Rightarrow> u64 \<Rightarrow> bool" where
  "record_end base log pos \<longleftrightarrow>
     unat pos \<le> unat base \<or> (\<exists>i \<le> length log. pos = base + word_of_nat (place roundup_len log i))"

lemma produces_step:
  assumes "produces pv m base (h # log)"
  shows "produces pv m (base + word_of_nat (roundup_len h)) log"
    "unat (base + word_of_nat (roundup_len h)) = unat base + roundup_len h"
proof -
  have lt: "unat base + (roundup_len h + place roundup_len log (length log)) < 2 ^ 64"
    using assms by (simp add: produces_def)
  then have "roundup_len h < 2 ^ 64" "unat base + roundup_len h < 2 ^ 64" by linarith+
  then show u: "unat (base + word_of_nat (roundup_len h)) = unat base + roundup_len h"
    by (simp add: unat_word_ariths unsigned_of_nat take_bit_nat_eq_self)
  show "produces pv m (base + word_of_nat (roundup_len h)) log"
    unfolding produces_def
  proof (intro conjI allI impI)
    fix k i assume "i < length log"
    moreover have "\<forall>k. \<forall>i < length (h # log). let g = len_load pv k
        ((base + word_of_nat (place roundup_len (h # log) i)) AND m) in busy g \<or> g = (h # log) ! i"
      using assms unfolding produces_def by blast
    note this [rule_format, of "Suc i" k]
    ultimately show "let g = len_load pv k ((base + word_of_nat (roundup_len h) +
        word_of_nat (place roundup_len log i)) AND m) in busy g \<or> g = log ! i"
      by (simp add: add.assoc)
  qed (use lt u assms in \<open>auto simp: produces_def\<close>)
qed

lemma record_end_step:
  assumes "produces pv m base (h # log)" "record_end base (h # log) pos"
  shows "record_end (base + word_of_nat (roundup_len h)) log pos"
proof -
  note u = produces_step(2) [OF assms(1)]
  from assms(2) consider "unat pos \<le> unat base"
    | i where "i \<le> Suc (length log)" "pos = base + word_of_nat (place roundup_len (h # log) i)"
    by (auto simp: record_end_def)
  then show ?thesis
  proof cases
    case 1
    with u show ?thesis by (simp add: record_end_def)
  next
    case (2 i)
    with u show ?thesis by (cases i) (auto simp: record_end_def add.assoc)
  qed
qed

lemma record_end_ahead:
  assumes "produces pv m base log" "record_end base log pos" "base < pos"
  shows "log \<noteq> []"
  using assms by (auto simp: record_end_def word_less_nat_alt)

text \<open>
  The loops deliver a prefix of the log, leave the position behind its last record, and stop
  because of an error, at a busy record, or at a position that the producer showed.
\<close>

lemma process_loop_spec:
  assumes "process_loop fuel pv j k prod_pos got cnt r = Some (r', res)"
    and "produces pv (ring_mask r) (consumer_pos r) log"
    and "record_end (consumer_pos r) log prod_pos" "\<forall>j. record_end (consumer_pos r) log (prod_load pv j)"
    and "cnt \<ge> 0"
  shows "\<exists>n \<le> length log.
    deliver (sample_cb r) (ring_mask r) (consumer_pos r) (take n log) (cb_ctx r) cnt = (cb_ctx r', res) \<and>
    r' = r\<lparr>consumer_pos := consumer_pos r + word_of_nat (place roundup_len log n), cb_ctx := cb_ctx r'\<rparr> \<and>
    (res < 0 \<or>
     (n < length log \<and> (\<exists>k. busy (len_load pv k (consumer_pos r' AND ring_mask r)))) \<or>
     prod_pos \<le> consumer_pos r' \<and> \<not> got \<and> n = 0 \<or>
     (\<exists>j' \<ge> j. prod_load pv j' \<le> consumer_pos r'))"
  using assms
proof (induction fuel arbitrary: j k prod_pos got cnt r log)
  case (Suc fuel)
  show ?case
  proof (cases "consumer_pos r < prod_pos")
    case True
    with record_end_ahead [OF Suc.prems(2,3)] obtain h hs where log: "log = h # hs" by (cases log) auto
    let ?off = "consumer_pos r AND ring_mask r"
    define r1 where "r1 = r\<lparr>consumer_pos := consumer_pos r + word_of_nat (roundup_len h)\<rparr>"
    have r1: "sample_cb r1 = sample_cb r" "ring_mask r1 = ring_mask r"
      "consumer_pos r1 = consumer_pos r + word_of_nat (roundup_len h)"
      "r1\<lparr>consumer_pos := x, cb_ctx := c\<rparr> = r\<lparr>consumer_pos := x, cb_ctx := c\<rparr>" for x c
      by (simp_all add: r1_def)
    have len: "busy (len_load pv k ?off) \<or> len_load pv k ?off = h" "\<not> busy h"
      using Suc.prems(2) unfolding produces_def log Let_def by (fastforce, simp)
    show ?thesis
    proof (cases "busy (len_load pv k ?off)")
      case True
      with \<open>consumer_pos r < prod_pos\<close> Suc.prems(1) show ?thesis
        by (intro exI [of _ 0]) (auto simp: log Let_def)
    next
      case False
      with len have h: "len_load pv k ?off = h" by simp
      note next_ok = produces_step(1) [OF Suc.prems(2) [unfolded log]]
        record_end_step [OF Suc.prems(2) [unfolded log]]
      have ends: "record_end (consumer_pos r1) hs prod_pos" "\<forall>j. record_end (consumer_pos r1) hs (prod_load pv j)"
        using next_ok(2) Suc.prems(3,4) by (simp_all add: log r1)
      have lift: ?thesis
        if step: "process_loop fuel pv j (Suc k) prod_pos True cnt' (r1\<lparr>cb_ctx := c\<rparr>) = Some (r', res)"
          and c: "\<And>ms. deliver (sample_cb r) (ring_mask r) (consumer_pos r) (h # ms) (cb_ctx r) cnt =
            deliver (sample_cb r) (ring_mask r) (consumer_pos r1) ms c cnt'" "cnt' \<ge> 0" for c cnt'
      proof -
        from Suc.IH [OF step, of hs] next_ok(1) ends c(2) obtain n where n: "n \<le> length hs"
          "deliver (sample_cb r) (ring_mask r) (consumer_pos r1) (take n hs) c cnt' = (cb_ctx r', res)"
          "r' = r\<lparr>consumer_pos := consumer_pos r1 + word_of_nat (place roundup_len hs n), cb_ctx := cb_ctx r'\<rparr>"
          "res < 0 \<or> n < length hs \<and> (\<exists>k. busy (len_load pv k (consumer_pos r' AND ring_mask r))) \<or>
             (\<exists>j' \<ge> j. prod_load pv j' \<le> consumer_pos r')"
          by (auto simp: r1)
        then show ?thesis
          using c(1) by (intro exI [of _ "Suc n"]) (auto simp: log r1 add.assoc simp del: deliver.simps)
      qed
      show ?thesis
      proof (cases "discarded h")
        case True
        have "process_loop fuel pv j (Suc k) prod_pos True cnt (r1\<lparr>cb_ctx := cb_ctx r\<rparr>) = Some (r', res)"
          using Suc.prems(1) \<open>consumer_pos r < prod_pos\<close> h len(2) True by (simp add: Let_def r1_def)
        then show ?thesis by (rule lift) (use True Suc.prems(5) in \<open>simp_all add: r1\<close>)
      next
        case False
        obtain c' err where cb: "sample_cb r (cb_ctx r) (?off + 8) h = (c', err)" by fastforce
        show ?thesis
        proof (cases "err < 0")
          case True
          then have "r' = r1\<lparr>cb_ctx := c'\<rparr>" "res = err"
            using Suc.prems(1) \<open>consumer_pos r < prod_pos\<close> h len(2) False cb by (auto simp: Let_def r1_def)
          then show ?thesis
            using True False cb by (intro exI [of _ 1]) (auto simp: log r1_def)
        next
          case ok: False
          have "process_loop fuel pv j (Suc k) prod_pos True (cnt + 1) (r1\<lparr>cb_ctx := c'\<rparr>) = Some (r', res)"
            using Suc.prems(1) \<open>consumer_pos r < prod_pos\<close> h len(2) False cb ok by (simp add: Let_def r1_def)
          then show ?thesis by (rule lift) (use False ok cb Suc.prems(5) in \<open>simp_all add: r1\<close>)
        qed
      qed
    qed
  next
    case False
    then have ge: "prod_pos \<le> consumer_pos r" by simp
    show ?thesis
    proof (cases got)
      case True
      with False Suc.prems have step: "process_loop fuel pv (Suc j) k (prod_load pv j) False cnt r = Some (r', res)" by simp
      from Suc.IH [OF step Suc.prems(2) _ Suc.prems(4,5)] Suc.prems(4) obtain n where
        "n \<le> length log"
        "deliver (sample_cb r) (ring_mask r) (consumer_pos r) (take n log) (cb_ctx r) cnt = (cb_ctx r', res)"
        "r' = r\<lparr>consumer_pos := consumer_pos r + word_of_nat (place roundup_len log n), cb_ctx := cb_ctx r'\<rparr>"
        "res < 0 \<or> n < length log \<and> (\<exists>k. busy (len_load pv k (consumer_pos r' AND ring_mask r))) \<or>
         prod_load pv j \<le> consumer_pos r' \<or> (\<exists>j' \<ge> Suc j. prod_load pv j' \<le> consumer_pos r')"
        by blast
      then show ?thesis by (intro exI [of _ n]) (auto dest: Suc_leD)
    next
      case f: False
      with False Suc.prems ge show ?thesis by (intro exI [of _ 0]) auto
    qed
  qed
qed simp

text \<open>Every record costs at most two rounds, so fuel for the records of the log is enough.\<close>

lemma process_loop_returns:
  assumes "produces pv (ring_mask r) (consumer_pos r) log"
    and "record_end (consumer_pos r) log prod_pos" "\<forall>j. record_end (consumer_pos r) log (prod_load pv j)"
    and "fuel \<ge> 2 * length log + (if got then 2 else 1)"
  shows "process_loop fuel pv j k prod_pos got cnt r \<noteq> None"
  using assms
proof (induction fuel arbitrary: j k prod_pos got cnt r log)
  case (Suc fuel)
  show ?case
  proof (cases "consumer_pos r < prod_pos")
    case True
    with record_end_ahead [OF Suc.prems(1,2)] obtain h hs where log: "log = h # hs" by (cases log) auto
    let ?off = "consumer_pos r AND ring_mask r"
    have len: "busy (len_load pv k ?off) \<or> len_load pv k ?off = h"
      using Suc.prems(1) unfolding produces_def log Let_def by fastforce
    have fuel: "fuel \<ge> 2 * length hs + 2" using Suc.prems(4) by (simp add: log split: if_splits)
    have "process_loop fuel pv j (Suc k) prod_pos True cnt'
        (r\<lparr>consumer_pos := consumer_pos r + word_of_nat (roundup_len h), cb_ctx := c\<rparr>) \<noteq> None" for c cnt'
      using produces_step(1) [OF Suc.prems(1) [unfolded log]] Suc.prems(2,3)
        record_end_step [OF Suc.prems(1) [unfolded log]] fuel
      by (intro Suc.IH [of _ hs]) (simp_all add: log)
    from this [where c = "cb_ctx r"] this len True show ?thesis
      by (auto simp: Let_def split: prod.splits)
  next
    case False
    with Suc.IH [OF Suc.prems(1) _ Suc.prems(3), of "prod_load pv j" False] Suc.prems(3,4) show ?thesis
      by (auto split: if_splits)
  qed
qed (simp split: if_splits)

section \<open>Properties of the kernel ring buffer\<close>

text \<open>
  Property C10: if the producer keeps to the protocol, the consumer returns, hands the records of
  a prefix of the log to the callback in order, each exactly once and without the discarded
  ones, and leaves the shared position behind the last of them.  It stops because of an error of
  the callback, at a record that is being written, or at the end of what the producer showed, and
  never reads a header that does not belong to a record.
\<close>

theorem ring_delivers_log:
  assumes "produces pv (ring_mask r) (consumer_pos r) log"
    and "\<forall>j. record_end (consumer_pos r) log (prod_load pv j)"
    and "fuel \<ge> 2 * length log + 1"
  shows "\<exists>r' res n. ringbuf_process_ring fuel pv r = Some (r', res) \<and> n \<le> length log \<and>
    deliver (sample_cb r) (ring_mask r) (consumer_pos r) (take n log) (cb_ctx r) 0 = (cb_ctx r', res) \<and>
    consumer_pos r' = consumer_pos r + word_of_nat (place roundup_len log n) \<and>
    (res < 0 \<or>
     (n < length log \<and> (\<exists>k. busy (len_load pv k (consumer_pos r' AND ring_mask r)))) \<or>
     (\<exists>j. prod_load pv j \<le> consumer_pos r'))"
proof -
  have e: "record_end (consumer_pos r) log (prod_load pv 0)" using assms(2) by blast
  obtain r' res where p: "process_loop fuel pv 1 0 (prod_load pv 0) False 0 r = Some (r', res)"
    using process_loop_returns [OF assms(1) e assms(2), where fuel = fuel and got = False] assms(3) by fastforce
  from process_loop_spec [OF p assms(1) e assms(2)] obtain n where n: "n \<le> length log"
    "deliver (sample_cb r) (ring_mask r) (consumer_pos r) (take n log) (cb_ctx r) 0 = (cb_ctx r', res)"
    "r' = r\<lparr>consumer_pos := consumer_pos r + word_of_nat (place roundup_len log n), cb_ctx := cb_ctx r'\<rparr>"
    "res < 0 \<or> (n < length log \<and> (\<exists>k. busy (len_load pv k (consumer_pos r' AND ring_mask r)))) \<or>
     (\<exists>j. prod_load pv j \<le> consumer_pos r')" by blast
  from n(3) have "consumer_pos r' = consumer_pos r + word_of_nat (place roundup_len log n)"
    by (metis ring.select_convs(3) ring.surjective ring.update_convs(2,3))
  with p n(1,2,4) show ?thesis by (auto simp: ringbuf_process_ring_def)
qed

text \<open>A ring with one committed record of five bytes, counted by the callback.\<close>

definition sample_ring :: "nat ring" where
  "sample_ring = \<lparr>sample_cb = (\<lambda>c off len. (c + unat len, 0)), cb_ctx = 0, consumer_pos = 0, ring_mask = 4095\<rparr>"

definition sample_view :: producer_view where
  "sample_view = \<lparr>prod_load = (\<lambda>_. 16), len_load = (\<lambda>_ _. 5)\<rparr>"

theorem ring_delivers_log_witness:
  "\<exists>r' res. ringbuf_process_ring 3 sample_view sample_ring = Some (r', res) \<and> consumer_pos r' \<le> 16"
proof -
  have r: "roundup_len 5 = 16" by (simp add: roundup_len_eq)
  have b: "\<not> busy 5" by (simp add: busy_def bit_numeral_rec numeral_eq_Suc)
  have "produces sample_view (ring_mask sample_ring) (consumer_pos sample_ring) [5]"
    using r b by (auto simp: produces_def sample_view_def sample_ring_def place_def)
  moreover have "\<forall>j. record_end (consumer_pos sample_ring) [5] (prod_load sample_view j)"
    using r by (auto simp: record_end_def sample_view_def sample_ring_def place_def intro!: exI [of _ 1])
  ultimately obtain r' res n where o: "ringbuf_process_ring 3 sample_view sample_ring = Some (r', res)"
    "n \<le> 1" "consumer_pos r' = word_of_nat (place roundup_len [5 :: u32] n)"
    using ring_delivers_log [of sample_view sample_ring "[5]" 3] by (auto simp: sample_ring_def)
  then have "n = 0 \<or> n = 1" by auto
  with o r show ?thesis by (auto simp: place_def)
qed

section \<open>The protocol of a user ring buffer\<close>

text \<open>
  All interleavings of the two sides.  The state pairs the buffer with the samples that were
  handed out and not yet committed.  The steps of the program are the operations; the kernel may
  pass over the first record once it is committed (its side of the protocol, as the comments in
  \<open>ringbuf.c\<close> describe it: \<open>__bpf_user_ringbuf_peek\<close> reads the header that the program released).
\<close>

inductive ur_step :: "user_ring_buffer \<times> u64 set \<Rightarrow> user_ring_buffer \<times> u64 set \<Rightarrow> bool" where
  ur_reserve: "user_ring_buffer__reserve rb n = (rb', Inr sample) \<Longrightarrow>
     ur_step (rb, out) (rb', insert sample out)"
| ur_reserve_fails: "user_ring_buffer__reserve rb n = (rb', Inl e) \<Longrightarrow> ur_step (rb, out) (rb', out)"
| ur_submit: "sample \<in> out \<Longrightarrow>
     ur_step (rb, out) (user_ring_buffer__submit rb sample, out - {sample})"
| ur_discard: "sample \<in> out \<Longrightarrow>
     ur_step (rb, out) (user_ring_buffer__discard rb sample, out - {sample})"
| ur_drain: "ur_consumer_pos rb \<noteq> ur_producer_pos rb \<Longrightarrow>
     hdr = ur_hdrs rb (ur_consumer_pos rb AND ur_mask rb) \<Longrightarrow> \<not> busy (hdr_len hdr) \<Longrightarrow>
     ur_step (rb, out)
       (rb\<lparr>ur_consumer_pos := ur_consumer_pos rb + word_of_nat (roundup_len (hdr_len hdr))\<rparr>, out)"

inductive ur_reachable :: "nat \<Rightarrow> user_ring_buffer \<times> u64 set \<Rightarrow> bool" for p where
  ur_init: "ur_consumer_pos rb = ur_producer_pos rb \<Longrightarrow> ur_mask rb = mask p \<Longrightarrow> ur_reachable p (rb, {})"
| ur_next: "ur_reachable p s \<Longrightarrow> ur_step s s' \<Longrightarrow> ur_reachable p s'"

inductive_cases ur_step_cases: "ur_step s s'"

text \<open>The offsets of the header of record \<open>i\<close> and of its sample.\<close>

definition hdr_off :: "nat \<Rightarrow> user_ring_buffer \<Rightarrow> u32 list \<Rightarrow> nat \<Rightarrow> u64" where
  "hdr_off p rb rs i = take_bit p (ur_consumer_pos rb + word_of_nat (place roundup_len rs i))"

definition sample_off :: "nat \<Rightarrow> user_ring_buffer \<Rightarrow> u32 list \<Rightarrow> nat \<Rightarrow> u64" where
  "sample_off p rb rs i = take_bit p (ur_consumer_pos rb + word_of_nat (place roundup_len rs i) + 8)"

text \<open>
  The live records \<open>rs\<close>: they fill the window between the two positions without a gap and
  without overlap, each has its header in place, and the busy ones are the samples handed out.
\<close>

definition ur_live :: "nat \<Rightarrow> user_ring_buffer \<times> u64 set \<Rightarrow> u32 list \<Rightarrow> bool" where
  "ur_live p s rs \<longleftrightarrow> (case s of (rb, out) \<Rightarrow>
     ur_mask rb = mask p \<and> place roundup_len rs (length rs) \<le> 2 ^ p \<and>
     ur_producer_pos rb = ur_consumer_pos rb + word_of_nat (place roundup_len rs (length rs)) \<and>
     (\<forall>i < length rs. hdr_len (ur_hdrs rb (hdr_off p rb rs i)) = rs ! i) \<and>
     out = {sample_off p rb rs i | i. i < length rs \<and> busy (rs ! i)})"

section \<open>Flags and sizes\<close>

lemma bit_flags: "bit BPF_RINGBUF_BUSY_BIT n \<longleftrightarrow> n = 31" "bit BPF_RINGBUF_DISCARD_BIT n \<longleftrightarrow> n = 30"
proof -
  have f: "BPF_RINGBUF_BUSY_BIT = 2 ^ 31" "BPF_RINGBUF_DISCARD_BIT = 2 ^ 30"
    by (simp_all add: BPF_RINGBUF_BUSY_BIT_def BPF_RINGBUF_DISCARD_BIT_def)
  show "bit BPF_RINGBUF_BUSY_BIT n \<longleftrightarrow> n = 31"
    unfolding f bit_exp_iff by (auto simp: possible_bit_word)
  show "bit BPF_RINGBUF_DISCARD_BIT n \<longleftrightarrow> n = 30"
    unfolding f bit_exp_iff by (auto simp: possible_bit_word)
qed

lemma roundup_len_take: "roundup_len len = (unat (take_bit 30 len) + 15) div 8 * 8"
  unfolding roundup_len_eq by (simp only: unsigned_take_bit_eq) (simp only: take_bit_eq_mod)

lemma roundup_len_cong: "take_bit 30 x = take_bit 30 y \<Longrightarrow> roundup_len x = roundup_len y"
  by (simp only: roundup_len_take)

lemma roundup_flags [simp]:
  "roundup_len (x OR BPF_RINGBUF_BUSY_BIT) = roundup_len x"
  "roundup_len (x OR BPF_RINGBUF_DISCARD_BIT) = roundup_len x"
  "roundup_len (x AND NOT BPF_RINGBUF_BUSY_BIT) = roundup_len x"
  by (rule roundup_len_cong, rule bit_word_eqI, simp only: bit_simps bit_flags, auto)+

lemma busy_flags [simp]:
  "busy (x OR BPF_RINGBUF_BUSY_BIT)" "\<not> busy (x AND NOT BPF_RINGBUF_BUSY_BIT)"
  "\<not> busy (x AND NOT BPF_RINGBUF_BUSY_BIT OR BPF_RINGBUF_DISCARD_BIT)"
  by (auto simp: busy_def bit_simps bit_flags)

lemma no_flags:
  assumes "x AND (BPF_RINGBUF_BUSY_BIT OR BPF_RINGBUF_DISCARD_BIT) = 0"
  shows "\<not> busy x" "\<not> discarded x" "unat x < 2 ^ 30"
proof -
  have b: "\<not> bit x 31" "\<not> bit x 30"
    using arg_cong [OF assms, of "\<lambda>w. bit w 31"] arg_cong [OF assms, of "\<lambda>w. bit w 30"]
    by (auto simp: bit_simps bit_flags)
  then show "\<not> busy x" "\<not> discarded x" by (simp_all add: busy_def discarded_def)
  have "bit x n \<Longrightarrow> n < 30" for n
    using b bit_imp_le_length [of x n] by (cases "n = 30 \<or> n = 31") auto
  then have "take_bit 30 x = x" by (intro bit_word_eqI) (auto simp: bit_simps simp del: take_bit_numeral_minus_numeral_word)
  then have "take_bit 30 (unat x) = unat x" by (metis unsigned_take_bit_eq)
  then show "unat x < 2 ^ 30" by (simp only: take_bit_nat_eq_self_iff)
qed

lemma total_size_eq:
  assumes "unat x < 2 ^ 30"
  shows "unat ((x + 8 + 7) div 8 * 8) = roundup_len x"
proof -
  have "unat (x + 8 + 7) = unat x + 15" using assms by (simp add: unat_word_ariths)
  then have "unat ((x + 8 + 7) div 8) = (unat x + 15) div 8" by (simp add: unat_div)
  then show ?thesis
    using assms by (subst unat_word_ariths) (simp add: roundup_len_eq)
qed

section \<open>The live records under the steps\<close>

lemma and_mask: "(x :: u64) AND mask p = take_bit p x"
  by (simp add: take_bit_eq_mask)

text \<open>The header that a commit finds from the sample is the one before it, also across the end.\<close>

lemma commit_offset:
  assumes "p < 64"
  shows "(mask p + 1 + take_bit p (x + 8) - 8 :: u64) AND mask p = take_bit p x"
proof -
  have m: "mask p + 1 = (2 ^ p :: u64)" by (simp add: mask_eq_exp_minus_1)
  have z: "take_bit p (2 ^ p :: u64) = 0" by (rule bit_word_eqI) (auto simp: bit_simps)
  have "take_bit p (2 ^ p + (take_bit p (x + 8) - 8)) = take_bit p (take_bit p (x + 8) + - 8)"
    using take_bit_add_left [of p "2 ^ p" "take_bit p (x + 8) - 8"] z by simp
  also have "\<dots> = take_bit p (x + 8 + - 8)" by (rule take_bit_add_left)
  finally show ?thesis by (simp add: m and_mask add_diff_eq)
qed

lemma unat_pos_id: "n < 2 ^ 64 \<Longrightarrow> unat (word_of_nat n :: u64) = n"
  by (simp add: unat_of_nat)

lemma used_size:
  assumes "ur_live p (rb, out) rs" "p \<le> 31"
  shows "unat (ur_producer_pos rb - ur_consumer_pos rb) = place roundup_len rs (length rs)"
proof -
  have "place roundup_len rs (length rs) \<le> 2 ^ p" using assms by (simp add: ur_live_def)
  also have "\<dots> \<le> 2 ^ 31" using assms(2) by (intro power_increasing) auto
  finally have "place roundup_len rs (length rs) < 2 ^ 64" by simp
  then show ?thesis using assms(1) by (simp add: ur_live_def unat_pos_id)
qed

lemma reserve_cases:
  assumes live: "ur_live p (rb, out) rs" and p: "p \<le> 31"
    and res: "user_ring_buffer__reserve rb n = (rb', r)"
  shows "case r of
      Inl e \<Rightarrow> rb' = rb \<and>
        (e = Err E2BIG \<and> (n AND (BPF_RINGBUF_BUSY_BIT OR BPF_RINGBUF_DISCARD_BIT) \<noteq> 0 \<or> roundup_len n > 2 ^ p) \<or>
         e = Err ENOSPC \<and> place roundup_len rs (length rs) + roundup_len n > 2 ^ p)
    | Inr sample \<Rightarrow>
        place roundup_len rs (length rs) + roundup_len n \<le> 2 ^ p \<and> \<not> busy n \<and> \<not> discarded n \<and>
        sample = take_bit p (ur_producer_pos rb + 8) \<and>
        rb' = rb\<lparr>ur_hdrs := (ur_hdrs rb)(take_bit p (ur_producer_pos rb) :=
                 \<lparr>hdr_len = n OR BPF_RINGBUF_BUSY_BIT, hdr_pad = 0\<rparr>),
               ur_producer_pos := ur_producer_pos rb + word_of_nat (roundup_len n)\<rparr>"
proof (cases "n AND (BPF_RINGBUF_BUSY_BIT OR BPF_RINGBUF_DISCARD_BIT) = 0")
  case False
  with res show ?thesis by (auto simp: user_ring_buffer__reserve_def)
next
  case True
  note nf = no_flags [OF True]
  let ?used = "place roundup_len rs (length rs)"
  have mask: "ur_mask rb = mask p" and le: "?used \<le> 2 ^ p" using live by (auto simp: ur_live_def)
  have p31: "(2 :: nat) ^ p \<le> 2 ^ 31" using p by (intro power_increasing) auto
  have mx: "ur_mask rb + 1 = 2 ^ p" by (simp add: mask mask_eq_exp_minus_1)
  have u1: "unat (2 ^ p :: u64) = 2 ^ p" using p31 unat_pos_id [of "2 ^ p"] by simp
  have "unat (ucast (2 ^ p :: u64) :: u32) = 2 ^ p"
    unfolding unsigned_ucast_eq u1 using p31 by (intro take_bit_nat_eq_self) simp
  note u = u1 this
  have uc: "ucast (ucast (2 ^ p :: u64) :: u32) = (2 ^ p :: u64)"
  proof -
    have "unat (ucast x :: u64) = unat x" for x :: u32
      unfolding unsigned_ucast_eq using unsigned_less [of x, where ?'a = nat]
      by (intro take_bit_nat_eq_self) simp
    then show ?thesis by (simp only: word_unat_eq_iff u)
  qed
  have "unat (2 ^ p - (ur_producer_pos rb - ur_consumer_pos rb)) = 2 ^ p - ?used"
    using u(1) le used_size [OF live p] by (simp add: unat_sub word_le_nat_alt)
  then have av: "unat (ucast (2 ^ p - (ur_producer_pos rb - ur_consumer_pos rb)) :: u32) = 2 ^ p - ?used"
    using p31 by (simp add: unsigned_ucast_eq take_bit_nat_eq_self)
  define tot where "tot = (n + 8 + 7) div 8 * 8"
  have tot: "unat tot = roundup_len n" unfolding tot_def by (rule total_size_eq [OF nf(3)])
  have tc: "ucast tot = (word_of_nat (roundup_len n) :: u64)"
    by (simp add: tot flip: of_nat_unat [of tot])
  have "user_ring_buffer__reserve rb n =
      (if roundup_len n > 2 ^ p then (rb, Inl (Err E2BIG))
       else if 2 ^ p - ?used < roundup_len n then (rb, Inl (Err ENOSPC))
       else (rb\<lparr>ur_hdrs := (ur_hdrs rb)(take_bit p (ur_producer_pos rb) :=
                   \<lparr>hdr_len = n OR BPF_RINGBUF_BUSY_BIT, hdr_pad = 0\<rparr>),
                 ur_producer_pos := ur_producer_pos rb + word_of_nat (roundup_len n)\<rparr>,
             Inr (take_bit p (ur_producer_pos rb + 8))))"
    unfolding user_ring_buffer__reserve_def Let_def mx uc tot_def [symmetric] tc
    using True by (simp only: word_less_nat_alt u av tot mask and_mask) simp
  with res nf le show ?thesis by (auto split: if_splits)
qed

text \<open>Adding and removing an index.\<close>

lemma indexed_snoc:
  "{f i | i. i < Suc n \<and> P i} = {f i | i. i < n \<and> P i} \<union> (if P n then {f n} else {})"
  by (auto simp: less_Suc_eq)

lemma indexed_remove:
  assumes "\<And>j. j < n \<Longrightarrow> f j = f i \<Longrightarrow> j = i" "\<And>j. j < n \<Longrightarrow> Q j \<longleftrightarrow> P j \<and> j \<noteq> i"
  shows "{f k | k. k < n \<and> P k} - {f i} = {f k | k. k < n \<and> Q k}"
  using assms by auto

lemma indexed_cong:
  "(\<And>i. i < n \<Longrightarrow> f i = g i) \<Longrightarrow> (\<And>i. i < n \<Longrightarrow> P i \<longleftrightarrow> Q i) \<Longrightarrow>
   {f i | i. i < n \<and> P i} = {g i | i. i < n \<and> Q i}"
  by (metis (no_types, lifting))

lemma live_reserve:
  assumes live: "ur_live p (rb, out) rs" and p: "p \<le> 31"
    and res: "user_ring_buffer__reserve rb n = (rb', Inr sample)"
  shows "ur_live p (rb', insert sample out) (rs @ [n OR BPF_RINGBUF_BUSY_BIT])"
    "\<forall>i < length rs. hdr_off p rb' (rs @ [n OR BPF_RINGBUF_BUSY_BIT]) (length rs) \<noteq> hdr_off p rb rs i"
proof -
  let ?rs = "rs @ [n OR BPF_RINGBUF_BUSY_BIT]"
  note c = reserve_cases [OF live p res, simplified]
  have pl: "place roundup_len ?rs (length ?rs) = place roundup_len rs (length rs) + roundup_len n"
    by (simp add: place_def)
  have prod: "ur_producer_pos rb = ur_consumer_pos rb + word_of_nat (place roundup_len rs (length rs))"
    using live by (simp add: ur_live_def)
  have offs: "hdr_off p rb' ?rs i = hdr_off p rb rs i" "sample_off p rb' ?rs i = sample_off p rb rs i"
    if "i \<le> length rs" for i
    using that c by (simp_all add: hdr_off_def sample_off_def)
  have last: "hdr_off p rb' ?rs (length rs) = take_bit p (ur_producer_pos rb)"
    "sample_off p rb' ?rs (length rs) = sample"
    using c by (simp_all add: hdr_off_def sample_off_def prod)
  have dist: "i = j" if "i < length ?rs" "j < length ?rs" "hdr_off p rb' ?rs i = hdr_off p rb' ?rs j" for i j
    using ring_records.offsets_distinct [of ?rs p i j "ur_consumer_pos rb'"] that c pl p
    by (simp add: hdr_off_def)
  show new: "\<forall>i < length rs. hdr_off p rb' ?rs (length rs) \<noteq> hdr_off p rb rs i"
    using dist [of "length rs"] offs(1) by (metis length_append_singleton less_SucI lessI less_imp_le nat_neq_iff)
  have hdrs: "ur_hdrs rb' = (ur_hdrs rb)(take_bit p (ur_producer_pos rb) :=
      \<lparr>hdr_len = n OR BPF_RINGBUF_BUSY_BIT, hdr_pad = 0\<rparr>)" using c by simp
  have "hdr_len (ur_hdrs rb' (hdr_off p rb' ?rs i)) = ?rs ! i" if "i < length ?rs" for i
  proof (cases "i = length rs")
    case True
    then show ?thesis by (simp add: last(1) hdrs)
  next
    case False
    then have i: "i < length rs" using that by simp
    then have "hdr_off p rb rs i \<noteq> take_bit p (ur_producer_pos rb)" using new last(1) by metis
    with i live show ?thesis by (simp add: offs(1) ur_live_def nth_append hdrs)
  qed
  moreover have "insert sample out = {sample_off p rb' ?rs i | i. i < length ?rs \<and> busy (?rs ! i)}" (is "_ = ?S")
  proof -
    have "?S = {sample_off p rb' ?rs i | i. i < length rs \<and> busy (?rs ! i)} \<union> {sample}"
      by (simp only: length_append_singleton indexed_snoc last(2)) simp
    also have "{sample_off p rb' ?rs i | i. i < length rs \<and> busy (?rs ! i)} =
        {sample_off p rb rs i | i. i < length rs \<and> busy (rs ! i)}"
      by (rule indexed_cong) (simp_all add: offs(2) nth_append)
    also have "\<dots> = out" using live by (simp add: ur_live_def)
    finally show ?thesis by simp
  qed
  moreover have "ur_mask rb' = mask p" "place roundup_len ?rs (length ?rs) \<le> 2 ^ p"
    "ur_producer_pos rb' = ur_consumer_pos rb' + word_of_nat (place roundup_len ?rs (length ?rs))"
    using c live prod by (simp_all add: pl ur_live_def add.assoc)
  ultimately show "ur_live p (rb', insert sample out) ?rs" by (simp add: ur_live_def)
qed

text \<open>Different records have different samples.\<close>

lemma sample_off_inj:
  assumes live: "ur_live p (rb, out) rs" and p: "p \<le> 31" and "i < length rs" "j < length rs"
    and "sample_off p rb rs i = sample_off p rb rs j"
  shows "i = j"
proof -
  have "take_bit p (ur_consumer_pos rb + 8 + word_of_nat (place roundup_len rs i)) =
      take_bit p (ur_consumer_pos rb + 8 + word_of_nat (place roundup_len rs j))"
    using assms(5) by (simp add: sample_off_def ac_simps)
  then show ?thesis
    using ring_records.offsets_distinct [of rs p i j "ur_consumer_pos rb + 8"] assms by (simp add: ur_live_def)
qed

lemma place_update:
  "i < length rs \<Longrightarrow> room x = room (rs ! i) \<Longrightarrow> place room (rs[i := x]) k = place room rs k"
  by (simp add: place_def take_update_swap map_update) (metis list_update_beyond list_update_id map_update
      nth_map nth_take leI length_take min_less_iff_conj)

definition committed :: "u32 \<Rightarrow> bool \<Rightarrow> u32" where
  "committed h discard = (if discard then h AND NOT BPF_RINGBUF_BUSY_BIT OR BPF_RINGBUF_DISCARD_BIT
     else h AND NOT BPF_RINGBUF_BUSY_BIT)"

lemma live_commit:
  assumes live: "ur_live p (rb, out) rs" and p: "p \<le> 31" and i: "i < length rs" "busy (rs ! i)"
    and sample: "sample = sample_off p rb rs i"
  shows "ur_live p (user_ringbuf_commit rb sample discard, out - {sample}) (rs[i := committed (rs ! i) discard])"
    "ur_producer_pos (user_ringbuf_commit rb sample discard) = ur_producer_pos rb"
    "ur_consumer_pos (user_ringbuf_commit rb sample discard) = ur_consumer_pos rb"
proof -
  let ?rb = "user_ringbuf_commit rb sample discard" and ?new = "committed (rs ! i) discard"
  let ?rs = "rs[i := ?new]"
  have mask: "ur_mask rb = mask p" using live by (simp add: ur_live_def)
  have off: "(ur_mask rb + 1 + sample - 8) AND ur_mask rb = hdr_off p rb rs i"
    unfolding mask sample sample_off_def hdr_off_def using p by (intro commit_offset) simp
  have hdr: "hdr_len (ur_hdrs rb (hdr_off p rb rs i)) = rs ! i" using live i by (simp add: ur_live_def)
  have rb: "?rb = rb\<lparr>ur_hdrs := (ur_hdrs rb)(hdr_off p rb rs i :=
      (ur_hdrs rb (hdr_off p rb rs i))\<lparr>hdr_len := ?new\<rparr>)\<rparr>"
    unfolding user_ringbuf_commit_def Let_def off hdr committed_def by simp
  have new: "roundup_len ?new = roundup_len (rs ! i)" "\<not> busy ?new"
    by (simp_all add: committed_def)
  have place: "place roundup_len ?rs k = place roundup_len rs k" for k
    using i(1) new(1) by (rule place_update)
  have offs: "hdr_off p ?rb ?rs k = hdr_off p rb rs k" "sample_off p ?rb ?rs k = sample_off p rb rs k" for k
    by (simp_all add: hdr_off_def sample_off_def place rb)
  have "hdr_len (ur_hdrs ?rb (hdr_off p ?rb ?rs k)) = ?rs ! k" if "k < length rs" for k
  proof (cases "k = i")
    case True
    with i show ?thesis by (simp add: offs(1)) (simp add: rb)
  next
    case False
    then have "hdr_off p rb rs k \<noteq> hdr_off p rb rs i"
      using ring_records.offsets_distinct [of rs p k i "ur_consumer_pos rb"] that i live p
      by (auto simp: hdr_off_def ur_live_def)
    with that live False show ?thesis by (simp add: offs(1)) (simp add: rb ur_live_def)
  qed
  moreover have "out - {sample} = {sample_off p ?rb ?rs k | k. k < length ?rs \<and> busy (?rs ! k)}"
  proof -
    have "out = {sample_off p rb rs k | k. k < length rs \<and> busy (rs ! k)}" using live by (simp add: ur_live_def)
    moreover have "{sample_off p rb rs k | k. k < length rs \<and> busy (rs ! k)} - {sample_off p rb rs i} =
        {sample_off p rb rs k | k. k < length rs \<and> busy (?rs ! k)}"
    proof (rule indexed_remove)
      show "sample_off p rb rs j = sample_off p rb rs i \<Longrightarrow> j = i" if "j < length rs" for j
        using sample_off_inj [OF live p that i(1)] by simp
      show "busy (?rs ! k) \<longleftrightarrow> busy (rs ! k) \<and> k \<noteq> i" if "k < length rs" for k
        using new(2) that by (cases "k = i") simp_all
    qed
    moreover have "{sample_off p ?rb ?rs k | k. k < length ?rs \<and> busy (?rs ! k)} =
        {sample_off p rb rs k | k. k < length rs \<and> busy (?rs ! k)}"
      by (simp only: offs(2) length_list_update)
    ultimately show ?thesis by (simp only: sample)
  qed
  ultimately show "ur_live p (?rb, out - {sample}) ?rs"
    using live by (simp add: ur_live_def place) (simp add: rb)
  show "ur_producer_pos ?rb = ur_producer_pos rb" "ur_consumer_pos ?rb = ur_consumer_pos rb"
    by (simp_all add: rb)
qed

lemma live_drain:
  assumes live: "ur_live p (rb, out) rs" and p: "p \<le> 31"
    and ne: "ur_consumer_pos rb \<noteq> ur_producer_pos rb"
    and hdr: "h = hdr_len (ur_hdrs rb (ur_consumer_pos rb AND ur_mask rb))" "\<not> busy h"
  shows "\<exists>rs'. rs = h # rs' \<and>
    ur_live p (rb\<lparr>ur_consumer_pos := ur_consumer_pos rb + word_of_nat (roundup_len h)\<rparr>, out) rs'"
proof -
  let ?rb = "rb\<lparr>ur_consumer_pos := ur_consumer_pos rb + word_of_nat (roundup_len h)\<rparr>"
  from ne live obtain g rs' where rs: "rs = g # rs'" by (cases rs) (auto simp: ur_live_def)
  have "hdr_len (ur_hdrs rb (hdr_off p rb rs 0)) = rs ! 0" "ur_mask rb = mask p"
    using live unfolding ur_live_def rs by blast+
  then have g: "g = h" using hdr(1) by (simp add: hdr_off_def and_mask rs)
  have offs: "hdr_off p ?rb rs' i = hdr_off p rb rs (Suc i)" "sample_off p ?rb rs' i = sample_off p rb rs (Suc i)" for i
    by (simp_all add: hdr_off_def sample_off_def rs g ac_simps)
  have "out = {sample_off p rb rs i | i. i < length rs \<and> busy (rs ! i)}" using live by (simp add: ur_live_def)
  also have "\<dots> = {sample_off p ?rb rs' i | i. i < length rs' \<and> busy (rs' ! i)}"
    using hdr(2) by (auto simp: rs g offs less_Suc_eq_0_disj)
  finally have out: "out = \<dots>" .
  have "\<forall>i < length rs. hdr_len (ur_hdrs rb (hdr_off p rb rs i)) = rs ! i" using live by (simp add: ur_live_def)
  then have "\<forall>i < length rs'. hdr_len (ur_hdrs ?rb (hdr_off p ?rb rs' i)) = rs' ! i"
    unfolding offs by (auto simp: rs)
  with out live show ?thesis by (auto simp: rs g ur_live_def add.assoc)
qed

text \<open>Every step keeps the live records in order; the mask never changes.\<close>

lemma ur_step_live:
  assumes "ur_step s s'" "ur_live p s rs" "p \<le> 31"
  shows "\<exists>rs'. ur_live p s' rs'"
  using assms
proof (induction rule: ur_step.induct)
  case (ur_reserve rb n rb' sample out)
  from live_reserve(1) [OF ur_reserve(2,3,1)] show ?case by blast
next
  case (ur_reserve_fails rb n rb' e out)
  from reserve_cases [OF ur_reserve_fails(2,3,1)] ur_reserve_fails(2) show ?case by auto
next
  case (ur_submit sample out rb)
  then obtain i where "i < length rs" "busy (rs ! i)" "sample = sample_off p rb rs i"
    by (auto simp: ur_live_def)
  from live_commit(1) [OF ur_submit(2,3) this] show ?case
    by (auto simp: user_ring_buffer__submit_def)
next
  case (ur_discard sample out rb)
  then obtain i where "i < length rs" "busy (rs ! i)" "sample = sample_off p rb rs i"
    by (auto simp: ur_live_def)
  from live_commit(1) [OF ur_discard(2,3) this] show ?case
    by (auto simp: user_ring_buffer__discard_def)
next
  case (ur_drain rb hdr out)
  from live_drain [OF ur_drain(4,5,1) _ ur_drain(3)] ur_drain(2) show ?case by auto
qed

lemma ur_reachable_live:
  assumes "ur_reachable p s" "p \<le> 31"
  shows "\<exists>rs. ur_live p s rs"
  using assms(1)
proof (induction rule: ur_reachable.induct)
  case (ur_init rb)
  then have "ur_live p (rb, {}) []" by (simp add: ur_live_def)
  then show ?case by blast
next
  case (ur_next s s')
  with ur_step_live assms(2) show ?case by blast
qed

section \<open>Properties of the user ring buffer\<close>

text \<open>
  Property C31: in every state that the program and the kernel reach together, in any interleaving
  and also when the positions wrap around, the live records fill the window between consumer and
  producer without gap or overlap, the window is no larger than the ring, every live record has
  its own header in place, and the busy records are exactly the samples that were handed out and
  not committed.
\<close>

theorem user_ring_invariant:
  assumes "ur_reachable p s" "p \<le> 31"
  shows "\<exists>rs. ur_live p s rs \<and>
    unat (ur_producer_pos (fst s) - ur_consumer_pos (fst s)) = place roundup_len rs (length rs) \<and>
    place roundup_len rs (length rs) \<le> 2 ^ p"
proof -
  obtain rb out where s: "s = (rb, out)" by (cases s)
  from ur_reachable_live [OF assms] obtain rs where "ur_live p (rb, out) rs" by (auto simp: s)
  with used_size [OF this assms(2)] show ?thesis by (auto simp: s ur_live_def)
qed

definition fresh_ring :: user_ring_buffer where
  "fresh_ring = \<lparr>ur_consumer_pos = 0, ur_producer_pos = 0, ur_hdrs = (\<lambda>_. \<lparr>hdr_len = 0, hdr_pad = 0\<rparr>),
     ur_mask = mask 12\<rparr>"

lemma fresh_reachable: "ur_reachable 12 (fresh_ring, {})"
  by (rule ur_init) (simp_all add: fresh_ring_def)

theorem user_ring_invariant_witness:
  "\<exists>rs. ur_live 12 (fresh_ring, {}) rs \<and> place roundup_len rs (length rs) \<le> 4096"
  using user_ring_invariant [OF fresh_reachable] by auto

text \<open>
  Property C16: a reservation fails with E2BIG exactly for sizes that no ring of this size can
  hold or that use the flag bits, and with ENOSPC exactly when the window has no room left; when
  it succeeds the new record is busy, holds the requested length, comes last, and no header or
  sample of a live record changes.
\<close>

theorem user_ring_reserve_exact:
  assumes "ur_reachable p (rb, out)" "p \<le> 31" "user_ring_buffer__reserve rb n = (rb', r)"
  shows "\<exists>rs. ur_live p (rb, out) rs \<and>
    (case r of
       Inl e \<Rightarrow> rb' = rb \<and>
         (e = Err E2BIG \<and> (n AND (BPF_RINGBUF_BUSY_BIT OR BPF_RINGBUF_DISCARD_BIT) \<noteq> 0 \<or> roundup_len n > 2 ^ p) \<or>
          e = Err ENOSPC \<and> place roundup_len rs (length rs) + roundup_len n > 2 ^ p)
     | Inr sample \<Rightarrow>
         ur_live p (rb', insert sample out) (rs @ [n OR BPF_RINGBUF_BUSY_BIT]) \<and>
         sample = take_bit p (ur_producer_pos rb + 8) \<and>
         (\<forall>i < length rs. hdr_off p rb' (rs @ [n OR BPF_RINGBUF_BUSY_BIT]) (length rs) \<noteq> hdr_off p rb rs i))"
proof -
  from ur_reachable_live [OF assms(1,2)] obtain rs where live: "ur_live p (rb, out) rs" by blast
  show ?thesis
  proof (cases r)
    case (Inl e)
    with reserve_cases [OF live assms(2,3)] live show ?thesis by auto
  next
    case (Inr sample)
    note res = assms(3) [unfolded Inr]
    from reserve_cases [OF live assms(2) res] live_reserve [OF live assms(2) res] live show ?thesis
      by (intro exI [of _ rs]) (simp add: Inr)
  qed
qed

lemma fresh_reserve: "\<exists>rb'. user_ring_buffer__reserve fresh_ring 100 = (rb', Inr 8)"
proof -
  have live: "ur_live 12 (fresh_ring, {}) []" by (simp add: ur_live_def fresh_ring_def)
  obtain rb' r where res: "user_ring_buffer__reserve fresh_ring 100 = (rb', r)" by fastforce
  have "100 AND (BPF_RINGBUF_BUSY_BIT OR BPF_RINGBUF_DISCARD_BIT) = 0"
    by (simp add: BPF_RINGBUF_BUSY_BIT_def BPF_RINGBUF_DISCARD_BIT_def)
  moreover have "roundup_len 100 = 112" by (simp add: roundup_len_eq)
  ultimately obtain sample where "r = Inr sample" "sample = take_bit 12 8"
    using reserve_cases [OF live _ res] by (cases r) (auto simp: fresh_ring_def)
  with res show ?thesis by simp
qed

theorem user_ring_reserve_exact_witness:
  "\<exists>rb' sample. user_ring_buffer__reserve fresh_ring 100 = (rb', Inr sample) \<and>
     sample = take_bit 12 (ur_producer_pos fresh_ring + 8)"
proof -
  from fresh_reserve obtain rb' where res: "user_ring_buffer__reserve fresh_ring 100 = (rb', Inr 8)" by blast
  from user_ring_reserve_exact [OF fresh_reachable _ res] have "8 = take_bit 12 (ur_producer_pos fresh_ring + 8)" by auto
  with res show ?thesis by blast
qed

text \<open>
  Property C33: committing a sample that was handed out clears the busy mark of exactly its own
  record, keeps its length, sets the discard mark exactly for a discard, and leaves every other
  record as it is: the header is found again from the sample also when the record wraps around
  the end of the data area.
\<close>

theorem user_ring_commit_exact:
  assumes "ur_reachable p (rb, out)" "p \<le> 31" "sample \<in> out"
  shows "\<exists>rs i. ur_live p (rb, out) rs \<and> i < length rs \<and> busy (rs ! i) \<and> sample = sample_off p rb rs i \<and>
    ur_live p (user_ringbuf_commit rb sample discard, out - {sample}) (rs[i := committed (rs ! i) discard]) \<and>
    \<not> busy (committed (rs ! i) discard) \<and>
    roundup_len (committed (rs ! i) discard) = roundup_len (rs ! i)"
proof -
  from ur_reachable_live [OF assms(1,2)] obtain rs where live: "ur_live p (rb, out) rs" by blast
  with assms(3) obtain i where i: "i < length rs" "busy (rs ! i)" "sample = sample_off p rb rs i"
    by (auto simp: ur_live_def)
  from live_commit(1) [OF live assms(2) i] live i show ?thesis
    by (intro exI [of _ rs] exI [of _ i]) (simp add: committed_def)
qed

theorem user_ring_commit_exact_witness:
  "\<exists>rb' rs. user_ring_buffer__reserve fresh_ring 100 = (rb', Inr 8) \<and>
     ur_live 12 (user_ring_buffer__submit rb' 8, {}) rs"
proof -
  obtain rb' where res: "user_ring_buffer__reserve fresh_ring 100 = (rb', Inr 8)" using fresh_reserve by blast
  then have "ur_reachable 12 (rb', {8})" by (intro ur_next [OF fresh_reachable] ur_reserve)
  from user_ring_commit_exact [OF this, of 8 False] res show ?thesis
    by (auto simp: user_ring_buffer__submit_def)
qed

end
