(* ===== verification/Ringbuf_Setup.thy ===== *)
theory Ringbuf_Setup imports C_Prelude "HOL-Library.Multiset" begin

text \<open>
  Setting ring buffers up and tearing them down (\<open>bpf/libbpf/src/ringbuf.c\<close>).  What matters here
  is who owns what: the state of the operating system is the collection of the mappings, the ring
  objects and the epoll descriptors that the process holds, and every call that can fail has its
  outcome as a parameter.  A mapping is released with the length that the code computes again
  from the mask, so releasing it removes it only when the two computations agree.
\<close>

section \<open>State\<close>

datatype resource = Mapping nat nat | Ring_Object | Epoll_Fd int

type_synonym os = "resource multiset"

record ring_desc =
  rd_map_fd :: int
  rd_mask :: u64
  rd_consumer_pos :: "nat option"
  rd_producer_pos :: "nat option"

record ring_buffer =
  rb_rings :: "ring_desc list"
  rb_page_size :: nat
  rb_epoll_fd :: int

text \<open>The outcomes of the calls of \<open>ring_buffer__add\<close>: an error code, or what the call gives.\<close>

datatype map_type = BPF_MAP_TYPE_RINGBUF | BPF_MAP_TYPE_USER_RINGBUF | Other_Map

record add_calls =
  ac_info :: "errno + map_type \<times> u32"
  ac_rings_ok :: bool
  ac_events_ok :: bool
  ac_calloc_ok :: bool
  ac_mmap_consumer :: "errno + nat"
  ac_mmap_producer :: "errno + nat"
  ac_epoll_ctl :: "errno option"

section \<open>Operations\<close>

definition release :: "resource \<Rightarrow> os \<Rightarrow> os" where
  "release x s = s - {#x#}"

text \<open>The length of the mapping of the producer page and the doubled data pages, from the mask.\<close>

definition producer_len :: "nat \<Rightarrow> u64 \<Rightarrow> nat" where
  "producer_len page_size m = unat (word_of_nat page_size + 2 * (m + 1) :: u64)"

definition ringbuf_unmap :: "nat \<Rightarrow> ring_desc \<Rightarrow> os \<Rightarrow> os" where
  "ringbuf_unmap page_size r s =
     (let s = (case rd_consumer_pos r of None \<Rightarrow> s | Some a \<Rightarrow> release (Mapping a page_size) s)
      in case rd_producer_pos r of
           None \<Rightarrow> s
         | Some a \<Rightarrow> release (Mapping a (producer_len page_size (rd_mask r))) s)"

definition ringbuf_free_ring :: "ring_buffer \<Rightarrow> ring_desc \<Rightarrow> os \<Rightarrow> os" where
  "ringbuf_free_ring rb r s = release Ring_Object (ringbuf_unmap (rb_page_size rb) r s)"

text \<open>The mapped length is computed with 64 bits; on a 64-bit host it always fits \<open>size_t\<close>.\<close>

definition ring_buffer__add ::
  "ring_buffer \<Rightarrow> int \<Rightarrow> add_calls \<Rightarrow> os \<Rightarrow> ring_buffer \<times> os \<times> (errno + unit)" where
  "ring_buffer__add rb map_fd ac s =
     (case ac_info ac of
        Inl err \<Rightarrow> (rb, s, Inl err)
      | Inr (type, max_entries) \<Rightarrow>
          if type \<noteq> BPF_MAP_TYPE_RINGBUF then (rb, s, Inl EINVAL)
          else if \<not> ac_rings_ok ac then (rb, s, Inl ENOMEM)
          else if \<not> ac_events_ok ac then (rb, s, Inl ENOMEM)
          else if \<not> ac_calloc_ok ac then (rb, s, Inl ENOMEM)
          else
            (let s = add_mset Ring_Object s;
                 r = \<lparr>rd_map_fd = map_fd, rd_mask = ucast (max_entries - 1),
                      rd_consumer_pos = None, rd_producer_pos = None\<rparr>
             in case ac_mmap_consumer ac of
                  Inl err \<Rightarrow> (rb, ringbuf_free_ring rb r s, Inl err)
                | Inr a \<Rightarrow>
                    (let s = add_mset (Mapping a (rb_page_size rb)) s;
                         r = r\<lparr>rd_consumer_pos := Some a\<rparr>;
                         mmap_sz = unat (word_of_nat (rb_page_size rb) + 2 * ucast max_entries :: u64)
                     in case ac_mmap_producer ac of
                          Inl err \<Rightarrow> (rb, ringbuf_free_ring rb r s, Inl err)
                        | Inr b \<Rightarrow>
                            (let s = add_mset (Mapping b mmap_sz) s;
                                 r = r\<lparr>rd_producer_pos := Some b\<rparr>
                             in case ac_epoll_ctl ac of
                                  Some err \<Rightarrow> (rb, ringbuf_free_ring rb r s, Inl err)
                                | None \<Rightarrow> (rb\<lparr>rb_rings := rb_rings rb @ [r]\<rparr>, s, Inr ()))))) "

definition ring_buffer__free :: "ring_buffer \<Rightarrow> os \<Rightarrow> os" where
  "ring_buffer__free rb s =
     (let s = fold (ringbuf_free_ring rb) (rb_rings rb) s
      in if rb_epoll_fd rb \<ge> 0 then release (Epoll_Fd (rb_epoll_fd rb)) s else s)"

text \<open>\<open>ep\<close> is the outcome of \<open>epoll_create1\<close>.\<close>

definition ring_buffer__new ::
  "bool \<Rightarrow> bool \<Rightarrow> nat \<Rightarrow> (errno + int) \<Rightarrow> int \<Rightarrow> add_calls \<Rightarrow> os \<Rightarrow> os \<times> (errno + ring_buffer)" where
  "ring_buffer__new opts_valid calloc_ok page_size ep map_fd ac s =
     (if \<not> opts_valid then (s, Inl EINVAL)
      else if \<not> calloc_ok then (s, Inl ENOMEM)
      else
        (let rb = \<lparr>rb_rings = [], rb_page_size = page_size, rb_epoll_fd = 0\<rparr> in
         case ep of
           Inl err \<Rightarrow> (ring_buffer__free (rb\<lparr>rb_epoll_fd := -1\<rparr>) s, Inl err)
         | Inr fd \<Rightarrow>
             (let rb = rb\<lparr>rb_epoll_fd := fd\<rparr>; s = add_mset (Epoll_Fd fd) s
              in case ring_buffer__add rb map_fd ac s of
                   (rb', s', Inl err) \<Rightarrow> (ring_buffer__free rb' s', Inl err)
                 | (rb', s', Inr _) \<Rightarrow> (s', Inr rb'))))"

section \<open>The user ring buffer\<close>

text \<open>
  \<open>struct user_ring_buffer\<close> has the fields of one ring.  \<open>user_ringbuf_map\<close> leaves what it has
  mapped to its caller when it fails.
\<close>

record user_buffer =
  ub_ring :: ring_desc
  ub_page_size :: nat
  ub_epoll_fd :: int

definition user_ringbuf_map ::
  "user_buffer \<Rightarrow> int \<Rightarrow> add_calls \<Rightarrow> os \<Rightarrow> user_buffer \<times> os \<times> (errno + unit)" where
  "user_ringbuf_map rb map_fd ac s =
     (case ac_info ac of
        Inl err \<Rightarrow> (rb, s, Inl err)
      | Inr (type, max_entries) \<Rightarrow>
          if type \<noteq> BPF_MAP_TYPE_USER_RINGBUF then (rb, s, Inl EINVAL)
          else
            (let rb = rb\<lparr>ub_ring := (ub_ring rb)\<lparr>rd_map_fd := map_fd, rd_mask := ucast (max_entries - 1)\<rparr>\<rparr>
             in case ac_mmap_consumer ac of
                  Inl err \<Rightarrow> (rb, s, Inl err)
                | Inr a \<Rightarrow>
                    (let s = add_mset (Mapping a (ub_page_size rb)) s;
                         rb = rb\<lparr>ub_ring := (ub_ring rb)\<lparr>rd_consumer_pos := Some a\<rparr>\<rparr>;
                         mmap_sz = unat (word_of_nat (ub_page_size rb) + 2 * ucast max_entries :: u64)
                     in case ac_mmap_producer ac of
                          Inl err \<Rightarrow> (rb, s, Inl err)
                        | Inr b \<Rightarrow>
                            (let s = add_mset (Mapping b mmap_sz) s;
                                 rb = rb\<lparr>ub_ring := (ub_ring rb)\<lparr>rd_producer_pos := Some b\<rparr>\<rparr>
                             in case ac_epoll_ctl ac of
                                  Some err \<Rightarrow> (rb, s, Inl err)
                                | None \<Rightarrow> (rb, s, Inr ())))))"

definition user_ring_buffer__free :: "user_buffer \<Rightarrow> os \<Rightarrow> os" where
  "user_ring_buffer__free rb s =
     (let s = ringbuf_unmap (ub_page_size rb) (ub_ring rb) s
      in if ub_epoll_fd rb \<ge> 0 then release (Epoll_Fd (ub_epoll_fd rb)) s else s)"

definition user_ring_buffer__new ::
  "bool \<Rightarrow> bool \<Rightarrow> nat \<Rightarrow> (errno + int) \<Rightarrow> int \<Rightarrow> add_calls \<Rightarrow> os \<Rightarrow> os \<times> (errno + user_buffer)" where
  "user_ring_buffer__new opts_valid calloc_ok page_size ep map_fd ac s =
     (if \<not> opts_valid then (s, Inl EINVAL)
      else if \<not> calloc_ok then (s, Inl ENOMEM)
      else
        (let rb = \<lparr>ub_ring = \<lparr>rd_map_fd = 0, rd_mask = 0, rd_consumer_pos = None, rd_producer_pos = None\<rparr>,
                   ub_page_size = page_size, ub_epoll_fd = 0\<rparr> in
         case ep of
           Inl err \<Rightarrow> (user_ring_buffer__free (rb\<lparr>ub_epoll_fd := -1\<rparr>) s, Inl err)
         | Inr fd \<Rightarrow>
             (let rb = rb\<lparr>ub_epoll_fd := fd\<rparr>; s = add_mset (Epoll_Fd fd) s
              in case user_ringbuf_map rb map_fd ac s of
                   (rb', s', Inl err) \<Rightarrow> (user_ring_buffer__free rb' s', Inl err)
                 | (rb', s', Inr _) \<Rightarrow> (s', Inr rb'))))"

section \<open>Ownership\<close>

text \<open>What a ring owns.\<close>

definition ring_owns :: "nat \<Rightarrow> ring_desc \<Rightarrow> os" where
  "ring_owns page_size r =
     (case rd_consumer_pos r of None \<Rightarrow> {#} | Some a \<Rightarrow> {#Mapping a page_size#}) +
     (case rd_producer_pos r of None \<Rightarrow> {#} | Some a \<Rightarrow> {#Mapping a (producer_len page_size (rd_mask r))#})"

lemma ringbuf_unmap_owned: "ringbuf_unmap ps r (s + ring_owns ps r) = s"
  by (auto simp: ringbuf_unmap_def ring_owns_def release_def split: option.splits)

text \<open>The length that is mapped is the length that is computed again from the mask.\<close>

lemma producer_len_mapped:
  assumes "max_entries \<noteq> 0"
  shows "unat (word_of_nat ps + 2 * ucast (max_entries :: u32) :: u64) = producer_len ps (ucast (max_entries - 1))"
proof -
  have "unat max_entries \<noteq> 0" using assms by (simp add: unsigned_eq_0_iff)
  then have "unat (max_entries - 1) = unat max_entries - 1" by (intro unat_minus_one) (use assms in simp)
  then have "word_of_nat (unat (max_entries - 1)) + 1 = (word_of_nat (unat max_entries) :: u64)"
    using \<open>unat max_entries \<noteq> 0\<close> by (simp add: of_nat_diff)
  then have "ucast (max_entries - 1) + 1 = (ucast max_entries :: u64)"
    by simp
  then show ?thesis by (simp add: producer_len_def)
qed

text \<open>A map of a ring buffer has at least one entry.\<close>

definition sane_info :: "add_calls \<Rightarrow> bool" where
  "sane_info ac \<longleftrightarrow> (\<forall>type n. ac_info ac = Inr (type, n) \<longrightarrow> n \<noteq> 0)"

definition owned_by :: "nat \<Rightarrow> ring_desc list \<Rightarrow> os" where
  "owned_by ps rs = sum_list (map (\<lambda>r. add_mset Ring_Object (ring_owns ps r)) rs)"

lemma free_ring_owned:
  "ringbuf_free_ring rb r (s + add_mset Ring_Object (ring_owns (rb_page_size rb) r)) = s"
  "ringbuf_free_ring rb r (add_mset Ring_Object (s + ring_owns (rb_page_size rb) r)) = s"
  using ringbuf_unmap_owned [of "rb_page_size rb" r "add_mset Ring_Object s"]
  by (simp_all add: ringbuf_free_ring_def release_def)

lemma free_rings_owned:
  "fold (ringbuf_free_ring rb) rs (s + owned_by (rb_page_size rb) rs) = s"
proof (induction rs arbitrary: s)
  case (Cons r rs)
  have "s + owned_by (rb_page_size rb) (r # rs) =
      (s + owned_by (rb_page_size rb) rs) + add_mset Ring_Object (ring_owns (rb_page_size rb) r)"
    by (simp add: owned_by_def)
  with Cons show ?case by (simp only: fold_simps free_ring_owned)
qed (simp add: owned_by_def)

lemma ring_buffer_free_owned:
  assumes "rb_epoll_fd rb \<ge> 0"
  shows "ring_buffer__free rb (add_mset (Epoll_Fd (rb_epoll_fd rb)) (s + owned_by (rb_page_size rb) (rb_rings rb))) = s"
  using assms free_rings_owned [of rb "rb_rings rb" "add_mset (Epoll_Fd (rb_epoll_fd rb)) s"]
  by (simp add: ring_buffer__free_def release_def)

lemma ring_buffer_add_cases:
  assumes sane: "sane_info ac" and add: "ring_buffer__add rb map_fd ac s = (rb', s', res)"
  shows "case res of
      Inl e \<Rightarrow> rb' = rb \<and> s' = s
    | Inr _ \<Rightarrow> \<exists>r n. rb' = rb\<lparr>rb_rings := rb_rings rb @ [r]\<rparr> \<and>
        s' = s + add_mset Ring_Object (ring_owns (rb_page_size rb) r) \<and>
        ac_info ac = Inr (BPF_MAP_TYPE_RINGBUF, n) \<and> rd_map_fd r = map_fd \<and> rd_mask r = ucast (n - 1) \<and>
        rd_consumer_pos r \<noteq> None \<and> rd_producer_pos r \<noteq> None"
proof (cases "\<exists>n. ac_info ac = Inr (BPF_MAP_TYPE_RINGBUF, n)")
  case False
  with add show ?thesis
    by (auto simp: ring_buffer__add_def split: sum.splits prod.splits if_splits)
next
  case True
  then obtain n where info: "ac_info ac = Inr (BPF_MAP_TYPE_RINGBUF, n)" by blast
  with sane have "n \<noteq> 0" by (simp add: sane_info_def)
  note len = producer_len_mapped [OF this, of "rb_page_size rb"]
  define r0 where "r0 = \<lparr>rd_map_fd = map_fd, rd_mask = ucast (n - 1), rd_consumer_pos = None, rd_producer_pos = None\<rparr>"
  have owns: "ring_owns ps r0 = {#}" "ring_owns ps (r0\<lparr>rd_consumer_pos := Some a\<rparr>) = {#Mapping a ps#}"
    "ring_owns ps (r0\<lparr>rd_consumer_pos := Some a, rd_producer_pos := Some b\<rparr>) =
       {#Mapping a ps, Mapping b (producer_len ps (ucast (n - 1)))#}" for ps a b
    by (simp_all add: ring_owns_def r0_def)
  note freed = free_ring_owned(2) [of rb r0 s] free_ring_owned(2) [of rb "r0\<lparr>rd_consumer_pos := Some a\<rparr>" s for a]
    free_ring_owned(2) [of rb "r0\<lparr>rd_consumer_pos := Some a, rd_producer_pos := Some b\<rparr>" s for a b]
  note freed = freed [unfolded owns, simplified]
  show ?thesis
    using add freed unfolding ring_buffer__add_def info
    by (auto simp: Let_def len owns add_mset_commute simp flip: r0_def split: sum.splits option.splits if_splits)
       (auto simp: r0_def ring_owns_def)
qed

text \<open>Adding rings one after the other; a caller may go on after a failure.\<close>

fun ring_buffer_adds :: "ring_buffer \<Rightarrow> (int \<times> add_calls) list \<Rightarrow> os \<Rightarrow> ring_buffer \<times> os" where
  "ring_buffer_adds rb [] s = (rb, s)"
| "ring_buffer_adds rb ((map_fd, ac) # cs) s =
     (case ring_buffer__add rb map_fd ac s of (rb', s', _) \<Rightarrow> ring_buffer_adds rb' cs s')"

definition rb_owns :: "ring_buffer \<Rightarrow> os" where
  "rb_owns rb = add_mset (Epoll_Fd (rb_epoll_fd rb)) (owned_by (rb_page_size rb) (rb_rings rb))"

lemma ring_buffer_add_owned:
  assumes "sane_info ac" "ring_buffer__add rb map_fd ac (s + rb_owns rb) = (rb', s', res)"
  shows "s' = s + rb_owns rb'" "rb_epoll_fd rb' = rb_epoll_fd rb"
  using ring_buffer_add_cases [OF assms] by (auto simp: rb_owns_def owned_by_def split: sum.splits)

lemma ring_buffer_adds_owned:
  assumes "\<forall>(fd, ac) \<in> set cs. sane_info ac" "ring_buffer_adds rb cs (s + rb_owns rb) = (rb', s')"
  shows "s' = s + rb_owns rb' \<and> rb_epoll_fd rb' = rb_epoll_fd rb"
  using assms
proof (induction cs arbitrary: rb)
  case (Cons c cs)
  obtain fd ac where c: "c = (fd, ac)" by force
  obtain rb1 s1 r1 where add: "ring_buffer__add rb fd ac (s + rb_owns rb) = (rb1, s1, r1)"
    by (metis prod_cases3)
  from ring_buffer_add_owned [OF _ add] Cons.prems(1) have "s1 = s + rb_owns rb1" "rb_epoll_fd rb1 = rb_epoll_fd rb"
    by (auto simp: c)
  with Cons add show ?case by (auto simp: c)
qed simp

lemma ring_buffer_new_owned:
  assumes sane: "sane_info ac" and ep: "\<forall>fd. ep = Inr fd \<longrightarrow> fd \<ge> 0"
    and new: "ring_buffer__new ok1 ok2 ps ep map_fd ac s = (s', res)"
  shows "case res of Inl e \<Rightarrow> s' = s | Inr rb \<Rightarrow> s' = s + rb_owns rb \<and> rb_epoll_fd rb \<ge> 0 \<and> length (rb_rings rb) = 1"
proof (cases "ok1 \<and> ok2 \<and> (\<exists>fd. ep = Inr fd)")
  case False
  with new show ?thesis
    by (cases ep) (auto simp: ring_buffer__new_def ring_buffer__free_def split: if_splits)
next
  case True
  then obtain fd where fd: "ep = Inr fd" "fd \<ge> 0" using ep by blast
  define rb where "rb = \<lparr>rb_rings = [], rb_page_size = ps, rb_epoll_fd = fd\<rparr>"
  have o: "add_mset (Epoll_Fd fd) s = s + rb_owns rb" by (simp add: rb_owns_def rb_def owned_by_def)
  obtain rb' s1 r where add0: "ring_buffer__add rb map_fd ac (add_mset (Epoll_Fd fd) s) = (rb', s1, r)"
    by (metis prod_cases3)
  note add = add0 [unfolded o]
  note c = ring_buffer_add_cases [OF sane add] and ow = ring_buffer_add_owned [OF sane add]
  have new': "(s', res) = (case r of Inl err \<Rightarrow> (ring_buffer__free rb' s1, Inl err) | Inr _ \<Rightarrow> (s1, Inr rb'))"
    using new True fd(1) add0 by (simp add: ring_buffer__new_def Let_def flip: rb_def)
  have "ring_buffer__free rb' (s + rb_owns rb') = s"
    using ring_buffer_free_owned [of rb' s] ow(2) fd(2) by (simp add: rb_owns_def rb_def)
  moreover have "rb_epoll_fd rb = fd" "rb_rings rb = []" by (simp_all add: rb_def)
  ultimately show ?thesis using new' c ow fd(2) by (cases r) (auto split: sum.splits)
qed

lemma user_new_owned:
  assumes sane: "sane_info ac" and ep: "\<forall>fd. ep = Inr fd \<longrightarrow> fd \<ge> 0"
    and new: "user_ring_buffer__new ok1 ok2 ps ep map_fd ac s = (s', res)"
  shows "case res of Inl e \<Rightarrow> s' = s | Inr rb \<Rightarrow> user_ring_buffer__free rb s' = s"
proof (cases "ok1 \<and> ok2 \<and> (\<exists>fd. ep = Inr fd) \<and> (\<exists>n. ac_info ac = Inr (BPF_MAP_TYPE_USER_RINGBUF, n))")
  case False
  have "s' = s \<and> (\<exists>e. res = Inl e)"
    using new False
    by (cases ep) (auto simp: user_ring_buffer__new_def user_ringbuf_map_def user_ring_buffer__free_def
        ringbuf_unmap_def release_def Let_def dest: ep [rule_format] split: sum.splits prod.splits if_splits)
  then show ?thesis by auto
next
  case True
  then obtain fd n where fd: "ep = Inr fd" "fd \<ge> 0" and info: "ac_info ac = Inr (BPF_MAP_TYPE_USER_RINGBUF, n)"
    using ep by blast
  from sane info have "n \<noteq> 0" by (simp add: sane_info_def)
  note len = producer_len_mapped [OF this, of ps]
  show ?thesis
    using new True fd unfolding user_ring_buffer__new_def user_ringbuf_map_def info
    by (auto simp: Let_def len user_ring_buffer__free_def ringbuf_unmap_def release_def
        split: sum.splits option.splits)
qed

section \<open>Properties\<close>


definition good_calls :: "map_type \<Rightarrow> add_calls" where
  "good_calls t = \<lparr>ac_info = Inr (t, 4096), ac_rings_ok = True, ac_events_ok = True,
     ac_calloc_ok = True, ac_mmap_consumer = Inr 65536, ac_mmap_producer = Inr 131072, ac_epoll_ctl = None\<rparr>"


end
