(* ===== verification/Btf.thy ===== *)
theory Btf imports C_Prelude begin

text \<open>
  Reading BTF type information (\<open>bpf/libbpf/src/btf.c\<close>): parsing the header, the string section and
  the type section, with conversion from the other byte order, checking the references of every
  type, and the queries on the result.

  A BTF object may be split, that is, extend a base object.  Here an object is the list of its
  layers, the object's own layer first and \<open>base_btf\<close> the tail; the empty list is NULL.  The
  sections are the byte lists of their declared lengths, so that a read past the end of a section
  is undefined even where more bytes follow.
\<close>

section \<open>Data\<close>

datatype btf_kind =
    BTF_KIND_UNKN | BTF_KIND_INT | BTF_KIND_PTR | BTF_KIND_ARRAY | BTF_KIND_STRUCT
  | BTF_KIND_UNION | BTF_KIND_ENUM | BTF_KIND_FWD | BTF_KIND_TYPEDEF | BTF_KIND_VOLATILE
  | BTF_KIND_CONST | BTF_KIND_RESTRICT | BTF_KIND_FUNC | BTF_KIND_FUNC_PROTO | BTF_KIND_VAR
  | BTF_KIND_DATASEC | BTF_KIND_FLOAT | BTF_KIND_DECL_TAG | BTF_KIND_TYPE_TAG | BTF_KIND_ENUM64
  | BTF_KIND_OTHER nat

definition btf_kinds :: "btf_kind list" where
  "btf_kinds =
    [BTF_KIND_UNKN, BTF_KIND_INT, BTF_KIND_PTR, BTF_KIND_ARRAY, BTF_KIND_STRUCT,
     BTF_KIND_UNION, BTF_KIND_ENUM, BTF_KIND_FWD, BTF_KIND_TYPEDEF, BTF_KIND_VOLATILE,
     BTF_KIND_CONST, BTF_KIND_RESTRICT, BTF_KIND_FUNC, BTF_KIND_FUNC_PROTO, BTF_KIND_VAR,
     BTF_KIND_DATASEC, BTF_KIND_FLOAT, BTF_KIND_DECL_TAG, BTF_KIND_TYPE_TAG, BTF_KIND_ENUM64]"

definition btf_kind_of :: "nat \<Rightarrow> btf_kind" where
  "btf_kind_of n = (if n < 20 then btf_kinds ! n else BTF_KIND_OTHER n)"

record btf_header =
  hdr_magic :: nat
  hdr_len :: nat
  hdr_type_off :: nat
  hdr_type_len :: nat
  hdr_str_off :: nat
  hdr_str_len :: nat

record btf_layer =
  btf_types :: "u8 list"
  btf_type_offs :: "nat list"
  btf_start_id :: nat
  btf_start_str_off :: nat
  btf_strs :: "u8 list"
  btf_swapped_endian :: bool
  btf_ptr_size :: int

type_synonym btf = "btf_layer list"

text \<open>A pointer to a type: the static \<open>btf_void\<close>, or a place in the type section of a layer.\<close>

datatype type_ptr = Btf_Void | Type_At "u8 list" nat

definition tword :: "type_ptr \<Rightarrow> nat \<Rightarrow> nat res" where
  "tword t k =
     (case t of
        Btf_Void \<Rightarrow> if k + 4 \<le> 12 then Inr 0 else Inl UB
      | Type_At bs off \<Rightarrow> rd32 bs (off + k))"

definition t_name_off :: "type_ptr \<Rightarrow> nat res" where "t_name_off t = tword t 0"
definition t_type :: "type_ptr \<Rightarrow> nat res" where "t_type t = tword t 8"
definition t_size :: "type_ptr \<Rightarrow> nat res" where "t_size t = tword t 8"

definition btf_kind :: "type_ptr \<Rightarrow> btf_kind res" where
  "btf_kind t = bindr (tword t 4) (\<lambda>info. Inr (btf_kind_of (info div 2 ^ 24 mod 32)))"

definition btf_vlen :: "type_ptr \<Rightarrow> nat res" where
  "btf_vlen t = bindr (tword t 4) (\<lambda>info. Inr (info mod 2 ^ 16))"

definition btf_kflag :: "type_ptr \<Rightarrow> bool res" where
  "btf_kflag t = bindr (tword t 4) (\<lambda>info. Inr (info div 2 ^ 31 \<noteq> 0))"

section \<open>Sizes and byte order\<close>

text \<open>What follows the twelve bytes of \<open>struct btf_type\<close>: a number of 32-bit words.\<close>

fun rest_words :: "btf_kind \<Rightarrow> nat \<Rightarrow> nat option" where
  "rest_words BTF_KIND_FWD vlen = Some 0"
| "rest_words BTF_KIND_CONST vlen = Some 0"
| "rest_words BTF_KIND_VOLATILE vlen = Some 0"
| "rest_words BTF_KIND_RESTRICT vlen = Some 0"
| "rest_words BTF_KIND_PTR vlen = Some 0"
| "rest_words BTF_KIND_TYPEDEF vlen = Some 0"
| "rest_words BTF_KIND_FUNC vlen = Some 0"
| "rest_words BTF_KIND_FLOAT vlen = Some 0"
| "rest_words BTF_KIND_TYPE_TAG vlen = Some 0"
| "rest_words BTF_KIND_INT vlen = Some 1"
| "rest_words BTF_KIND_ENUM vlen = Some (vlen * 2)"
| "rest_words BTF_KIND_ENUM64 vlen = Some (vlen * 3)"
| "rest_words BTF_KIND_ARRAY vlen = Some 3"
| "rest_words BTF_KIND_STRUCT vlen = Some (vlen * 3)"
| "rest_words BTF_KIND_UNION vlen = Some (vlen * 3)"
| "rest_words BTF_KIND_FUNC_PROTO vlen = Some (vlen * 2)"
| "rest_words BTF_KIND_VAR vlen = Some 1"
| "rest_words BTF_KIND_DATASEC vlen = Some (vlen * 3)"
| "rest_words BTF_KIND_DECL_TAG vlen = Some 1"
| "rest_words _ vlen = None"

definition btf_type_size :: "type_ptr \<Rightarrow> nat res" where
  "btf_type_size t =
     bindr (btf_vlen t) (\<lambda>vlen.
     bindr (btf_kind t) (\<lambda>kind.
       case rest_words kind vlen of
         None \<Rightarrow> Inl (Err EINVAL)
       | Some n \<Rightarrow> Inr (12 + n * 4)))"

text \<open>\<open>bswap_32\<close> in place, on \<open>n\<close> consecutive words.\<close>

definition bswap_at :: "nat \<Rightarrow> nat \<Rightarrow> u8 list \<Rightarrow> u8 list" where
  "bswap_at n off bs = put_bytes off (rev (take n (drop off bs))) bs"

primrec bswap_words :: "nat \<Rightarrow> nat \<Rightarrow> u8 list \<Rightarrow> u8 list res" where
  "bswap_words 0 off bs = Inr bs"
| "bswap_words (Suc n) off bs =
     (if off + 4 > length bs then Inl UB else bswap_words n (off + 4) (bswap_at 4 off bs))"

definition btf_bswap_type_base :: "u8 list \<Rightarrow> nat \<Rightarrow> u8 list res" where
  "btf_bswap_type_base types t = bswap_words 3 t types"

text \<open>Every element that follows the type consists of words only, and all of them are swapped.\<close>

definition btf_bswap_type_rest :: "u8 list \<Rightarrow> nat \<Rightarrow> u8 list res" where
  "btf_bswap_type_rest types t =
     bindr (btf_vlen (Type_At types t)) (\<lambda>vlen.
     bindr (btf_kind (Type_At types t)) (\<lambda>kind.
       case rest_words kind vlen of
         None \<Rightarrow> Inl (Err EINVAL)
       | Some n \<Rightarrow> bswap_words n (t + 12) types))"

section \<open>Parsing\<close>

definition BTF_MAGIC :: nat where "BTF_MAGIC = 0xeB9F"
definition BTF_MAX_STR_OFFSET :: nat where "BTF_MAX_STR_OFFSET = 0x7fffffff"

definition read_hdr :: "u8 list \<Rightarrow> btf_header res" where
  "read_hdr raw =
     bindr (rd16 raw 0) (\<lambda>m.
     bindr (rd32 raw 4) (\<lambda>l.
     bindr (rd32 raw 8) (\<lambda>to.
     bindr (rd32 raw 12) (\<lambda>tl.
     bindr (rd32 raw 16) (\<lambda>so.
     bindr (rd32 raw 20) (\<lambda>sl.
       Inr \<lparr>hdr_magic = m, hdr_len = l, hdr_type_off = to, hdr_type_len = tl,
            hdr_str_off = so, hdr_str_len = sl\<rparr>))))))"

definition btf_bswap_hdr :: "u8 list \<Rightarrow> u8 list res" where
  "btf_bswap_hdr raw = bswap_words 5 4 (bswap_at 2 0 raw)"

text \<open>
  The header is converted in place when the magic number has the other byte order; the result is
  the raw data after that, the header and the flag.  The sums are 64-bit numbers in the code.
\<close>

definition btf_parse_hdr :: "u8 list \<Rightarrow> (u8 list \<times> btf_header \<times> bool) res" where
  "btf_parse_hdr raw0 =
     (let raw_size = length raw0 in
      if raw_size < 24 then Inl (Err EINVAL)
      else
        bindr (read_hdr raw0) (\<lambda>h0.
        bindr (if hdr_magic h0 = 0x9FeB
               then bindr (bindr (btf_bswap_hdr raw0) (\<lambda>raw. bindr (read_hdr raw) (\<lambda>h. Inr (raw, h))))
                      (\<lambda>(raw, h). if hdr_len h \<noteq> 24 then Inl (Err ENOTSUP) else Inr (raw, h, True))
               else if hdr_magic h0 \<noteq> BTF_MAGIC then Inl (Err EINVAL)
               else Inr (raw0, h0, False)) (\<lambda>(raw, hdr, swapped).
          if raw_size < hdr_len hdr then Inl (Err EINVAL)
          else if raw_size - hdr_len hdr < hdr_str_off hdr + hdr_str_len hdr then Inl (Err EINVAL)
          else if hdr_type_off hdr + hdr_type_len hdr > hdr_str_off hdr then Inl (Err EINVAL)
          else if hdr_type_off hdr mod 4 \<noteq> 0 then Inl (Err EINVAL)
          else Inr (raw, hdr, swapped))))"

text \<open>\<open>strs\<close> has the declared length of the string section.\<close>

definition btf_parse_str_sec :: "bool \<Rightarrow> u8 list \<Rightarrow> unit res" where
  "btf_parse_str_sec has_base strs =
     (let str_len = length strs in
      if has_base \<and> str_len = 0 then Inr ()
      else if str_len = 0 \<or> str_len - 1 > BTF_MAX_STR_OFFSET \<or> last strs \<noteq> 0 then Inl (Err EINVAL)
      else if \<not> has_base \<and> hd strs \<noteq> 0 then Inl (Err EINVAL)
      else Inr ())"

text \<open>
  The loop of \<open>btf_parse_type_sec\<close>.  \<open>mem k\<close> tells whether the index can be extended for its
  \<open>k\<close>-th entry.  The fuel is the length of the section: every type takes at least twelve bytes.
\<close>

fun parse_types_loop ::
  "nat \<Rightarrow> (nat \<Rightarrow> bool) \<Rightarrow> bool \<Rightarrow> u8 list \<Rightarrow> nat \<Rightarrow> nat list \<Rightarrow> (u8 list \<times> nat \<times> nat list) res" where
  "parse_types_loop 0 mem swapped types next offs = Inr (types, next, offs)"
| "parse_types_loop (Suc fuel) mem swapped types next offs =
     (if \<not> next + 12 \<le> length types then Inr (types, next, offs)
      else
        bindr (if swapped then btf_bswap_type_base types next else Inr types) (\<lambda>types.
        bindr (btf_type_size (Type_At types next)) (\<lambda>type_size.
        if next + type_size > length types then Inl (Err EINVAL)
        else
          bindr (if swapped then btf_bswap_type_rest types next else Inr types) (\<lambda>types.
          if \<not> mem (length offs) then Inl (Err ENOMEM)
          else parse_types_loop fuel mem swapped types (next + type_size) (offs @ [next])))))"

definition btf_parse_type_sec :: "(nat \<Rightarrow> bool) \<Rightarrow> bool \<Rightarrow> u8 list \<Rightarrow> (u8 list \<times> nat list) res" where
  "btf_parse_type_sec mem swapped types =
     bindr (parse_types_loop (length types) mem swapped types 0 []) (\<lambda>(types, next, offs).
       if next \<noteq> length types then Inl (Err EINVAL) else Inr (types, offs))"

section \<open>Types and strings of an object\<close>

definition btf__type_cnt :: "btf \<Rightarrow> nat" where
  "btf__type_cnt btf = (case btf of [] \<Rightarrow> 0 | l # base \<Rightarrow> btf_start_id l + length (btf_type_offs l))"

fun btf_type_by_id :: "btf \<Rightarrow> nat \<Rightarrow> type_ptr res" where
  "btf_type_by_id [] type_id = (if type_id = 0 then Inr Btf_Void else Inl UB)"
| "btf_type_by_id (l # base) type_id =
     (if type_id = 0 then Inr Btf_Void
      else if type_id < btf_start_id l then btf_type_by_id base type_id
      else bindr (arr (btf_type_offs l) (type_id - btf_start_id l)) (\<lambda>off.
             Inr (Type_At (btf_types l) off)))"

definition btf__type_by_id :: "btf \<Rightarrow> nat \<Rightarrow> type_ptr option res" where
  "btf__type_by_id btf type_id =
     (if type_id \<ge> btf__type_cnt btf then Inr None
      else bindr (btf_type_by_id btf type_id) (\<lambda>t. Inr (Some t)))"

text \<open>A string is the place of its first byte in the string section of a layer.\<close>

fun btf__str_by_offset :: "btf \<Rightarrow> nat \<Rightarrow> (u8 list \<times> nat) option res" where
  "btf__str_by_offset [] offset = Inl UB"
| "btf__str_by_offset (l # base) offset =
     (if offset < btf_start_str_off l then btf__str_by_offset base offset
      else if offset - btf_start_str_off l < length (btf_strs l)
      then Inr (Some (btf_strs l, offset - btf_start_str_off l))
      else Inr None)"

definition btf__name_by_offset :: "btf \<Rightarrow> nat \<Rightarrow> (u8 list \<times> nat) option res" where
  "btf__name_by_offset btf offset = btf__str_by_offset btf offset"

section \<open>Checking the references\<close>

definition btf_validate_str :: "btf \<Rightarrow> nat \<Rightarrow> unit res" where
  "btf_validate_str btf str_off =
     bindr (btf__str_by_offset btf str_off) (\<lambda>s. if s = None then Inl (Err EINVAL) else Inr ())"

definition btf_validate_id :: "btf \<Rightarrow> nat \<Rightarrow> unit res" where
  "btf_validate_id btf ref_id =
     bindr (btf__type_by_id btf ref_id) (\<lambda>t. if t = None then Inl (Err EINVAL) else Inr ())"

text \<open>A loop that stops at the first error.\<close>

primrec check_all :: "nat \<Rightarrow> (nat \<Rightarrow> unit res) \<Rightarrow> unit res" where
  "check_all 0 f = Inr ()"
| "check_all (Suc n) f = bindr (check_all n f) (\<lambda>_. f n)"

text \<open>The elements behind a type have \<open>sz\<close> bytes each; the first word is the name, if there is one.\<close>

definition check_name :: "btf \<Rightarrow> type_ptr \<Rightarrow> nat \<Rightarrow> nat \<Rightarrow> unit res" where
  "check_name btf t sz i = bindr (tword t (12 + i * sz)) (btf_validate_str btf)"

definition check_type :: "btf \<Rightarrow> type_ptr \<Rightarrow> nat \<Rightarrow> nat \<Rightarrow> nat \<Rightarrow> unit res" where
  "check_type btf t sz k i = bindr (tword t (12 + i * sz + k)) (btf_validate_id btf)"

definition check_kind :: "btf \<Rightarrow> type_ptr \<Rightarrow> btf_kind \<Rightarrow> unit res" where
  "check_kind btf t kind =
     bindr (btf_vlen t) (\<lambda>n.
       case kind of
         BTF_KIND_UNKN \<Rightarrow> Inr () | BTF_KIND_INT \<Rightarrow> Inr ()
       | BTF_KIND_FWD \<Rightarrow> Inr () | BTF_KIND_FLOAT \<Rightarrow> Inr ()
       | BTF_KIND_PTR \<Rightarrow> bindr (t_type t) (btf_validate_id btf)
       | BTF_KIND_TYPEDEF \<Rightarrow> bindr (t_type t) (btf_validate_id btf)
       | BTF_KIND_VOLATILE \<Rightarrow> bindr (t_type t) (btf_validate_id btf)
       | BTF_KIND_CONST \<Rightarrow> bindr (t_type t) (btf_validate_id btf)
       | BTF_KIND_RESTRICT \<Rightarrow> bindr (t_type t) (btf_validate_id btf)
       | BTF_KIND_VAR \<Rightarrow> bindr (t_type t) (btf_validate_id btf)
       | BTF_KIND_DECL_TAG \<Rightarrow> bindr (t_type t) (btf_validate_id btf)
       | BTF_KIND_TYPE_TAG \<Rightarrow> bindr (t_type t) (btf_validate_id btf)
       | BTF_KIND_ARRAY \<Rightarrow> bindr (check_type btf t 0 0 0) (\<lambda>_. check_type btf t 0 4 0)
       | BTF_KIND_STRUCT \<Rightarrow> check_all n (\<lambda>i. bindr (check_name btf t 12 i) (\<lambda>_. check_type btf t 12 4 i))
       | BTF_KIND_UNION \<Rightarrow> check_all n (\<lambda>i. bindr (check_name btf t 12 i) (\<lambda>_. check_type btf t 12 4 i))
       | BTF_KIND_ENUM \<Rightarrow> check_all n (check_name btf t 8)
       | BTF_KIND_ENUM64 \<Rightarrow> check_all n (check_name btf t 12)
       | BTF_KIND_FUNC \<Rightarrow>
           bindr (t_type t) (\<lambda>ref_id.
           bindr (btf_validate_id btf ref_id) (\<lambda>_.
           bindr (btf__type_by_id btf ref_id) (\<lambda>ft.
             case ft of
               None \<Rightarrow> Inl UB
             | Some ft \<Rightarrow> bindr (btf_kind ft) (\<lambda>k.
                 if k \<noteq> BTF_KIND_FUNC_PROTO then Inl (Err EINVAL) else Inr ()))))
       | BTF_KIND_FUNC_PROTO \<Rightarrow> check_all n (\<lambda>i. bindr (check_name btf t 8 i) (\<lambda>_. check_type btf t 8 4 i))
       | BTF_KIND_DATASEC \<Rightarrow> check_all n (check_type btf t 12 0)
       | BTF_KIND_OTHER k \<Rightarrow> Inl (Err EINVAL))"

definition btf_validate_type :: "btf \<Rightarrow> type_ptr \<Rightarrow> unit res" where
  "btf_validate_type btf t =
     bindr (btf_kind t) (\<lambda>kind.
     bindr (bindr (t_name_off t) (btf_validate_str btf)) (\<lambda>_. check_kind btf t kind))"

definition btf_sanity_check :: "btf \<Rightarrow> unit res" where
  "btf_sanity_check btf =
     check_all (btf__type_cnt btf - 1)
       (\<lambda>i. bindr (btf_type_by_id btf (i + 1)) (btf_validate_type btf))"

text \<open>
  \<open>btf_new\<close>: the outcomes of the two allocations, of the extensions of the index, the bytes and
  the base object.
\<close>

definition btf_new :: "bool \<Rightarrow> bool \<Rightarrow> (nat \<Rightarrow> bool) \<Rightarrow> u8 list \<Rightarrow> btf \<Rightarrow> btf res" where
  "btf_new calloc_ok malloc_ok mem data base =
     (if \<not> calloc_ok then Inl (Err ENOMEM)
      else if \<not> malloc_ok then Inl (Err ENOMEM)
      else
        bindr (btf_parse_hdr data) (\<lambda>(raw, hdr, swapped).
          (let body = drop (hdr_len hdr) raw;
               strs = take (hdr_str_len hdr) (drop (hdr_str_off hdr) body);
               types = take (hdr_type_len hdr) (drop (hdr_type_off hdr) body)
           in bindr (btf_parse_str_sec (base \<noteq> []) strs) (\<lambda>_.
              bindr (btf_parse_type_sec mem swapped types) (\<lambda>(types, offs).
              let btf = \<lparr>btf_types = types, btf_type_offs = offs,
                    btf_start_id = (if base = [] then 1 else btf__type_cnt base),
                    btf_start_str_off = (case base of [] \<Rightarrow> 0 | b # _ \<Rightarrow> length (btf_strs b)),
                    btf_strs = strs, btf_swapped_endian = swapped, btf_ptr_size = 0\<rparr> # base
              in bindr (btf_sanity_check btf) (\<lambda>_. Inr btf))))))"

section \<open>Types in a section\<close>

text \<open>A type whose bytes, those of its elements included, lie inside the section.\<close>

fun tfits :: "type_ptr \<Rightarrow> bool" where
  "tfits Btf_Void \<longleftrightarrow> True"
| "tfits (Type_At bs off) \<longleftrightarrow>
     (\<exists>sz. btf_type_size (Type_At bs off) = Inr sz \<and> off + sz \<le> length bs)"

lemma type_size_Inr:
  assumes "btf_type_size t = Inr sz"
  shows "\<exists>kind vlen w. btf_kind t = Inr kind \<and> btf_vlen t = Inr vlen \<and> rest_words kind vlen = Some w \<and>
    sz = 12 + 4 * w"
  using assms by (auto simp: btf_type_size_def bindr_eq_Inr split: option.splits)

lemma void_fields:
  "btf_kind Btf_Void = Inr BTF_KIND_UNKN" "btf_vlen Btf_Void = Inr 0" "tword Btf_Void 0 = Inr 0"
  "tword Btf_Void 8 = Inr 0"
  by (simp_all add: btf_kind_def btf_vlen_def tword_def btf_kind_of_def btf_kinds_def)

lemma tfits_words:
  assumes "tfits t"
  shows "\<exists>kind vlen. btf_kind t = Inr kind \<and> btf_vlen t = Inr vlen \<and> no_ub (tword t 0) \<and> no_ub (tword t 8) \<and>
    (t = Btf_Void \<and> kind = BTF_KIND_UNKN \<and> vlen = 0 \<or>
     (\<exists>w. rest_words kind vlen = Some w \<and> (\<forall>k. k + 4 \<le> 12 + 4 * w \<longrightarrow> no_ub (tword t k))))"
proof (cases t)
  case Btf_Void
  then show ?thesis by (simp add: void_fields)
next
  case (Type_At bs off)
  with assms obtain sz where sz: "btf_type_size t = Inr sz" "off + sz \<le> length bs" by auto
  from type_size_Inr [OF sz(1)] obtain kind vlen w where k: "btf_kind t = Inr kind" "btf_vlen t = Inr vlen"
    "rest_words kind vlen = Some w" "sz = 12 + 4 * w" by blast
  have "no_ub (tword t k)" if "k + 4 \<le> 12 + 4 * w" for k
    using that sz(2) k(4) by (simp add: tword_def Type_At rd_def)
  with k show ?thesis by auto
qed

text \<open>The types of a section one behind the other, from \<open>a\<close> to \<open>b\<close>.\<close>

fun tiles :: "u8 list \<Rightarrow> nat \<Rightarrow> nat \<Rightarrow> nat list \<Rightarrow> bool" where
  "tiles bs a b [] \<longleftrightarrow> a = b"
| "tiles bs a b (p # ps) \<longleftrightarrow> p = a \<and>
     (\<exists>sz. btf_type_size (Type_At bs p) = Inr sz \<and> p + sz \<le> b \<and> tiles bs (p + sz) b ps)"

lemma tiles_le: "tiles bs a b ps \<Longrightarrow> a \<le> b"
  by (cases ps) auto

lemma tiles_snoc:
  assumes "tiles bs a b ps" "btf_type_size (Type_At bs b) = Inr sz"
  shows "tiles bs a (b + sz) (ps @ [b])"
  using assms
proof (induction ps arbitrary: a)
  case (Cons p ps)
  then obtain z where "p = a" "btf_type_size (Type_At bs p) = Inr z" "p + z \<le> b" "tiles bs (p + z) b ps" by auto
  with Cons show ?case by auto
qed simp

lemma tiles_fits:
  assumes "tiles bs a b ps" "b \<le> length bs" "p \<in> set ps"
  shows "tfits (Type_At bs p)"
  using assms(1,3)
proof (induction ps arbitrary: a)
  case (Cons q ps)
  then show ?case using assms(2) by auto
qed simp

lemma rd32_cong:
  assumes "take hi bs' = take hi bs" "off + 4 \<le> hi" "hi \<le> length bs" "length bs' = length bs"
  shows "rd32 bs' off = rd32 bs off"
proof -
  have "take 4 (drop off bs') = take 4 (drop off (take hi bs'))"
    using assms(2) by (simp add: drop_take min_absorb1)
  also have "\<dots> = take 4 (drop off bs)"
    using assms(1,2) by (simp add: drop_take min_absorb1)
  finally show ?thesis using assms by (simp add: rd_def)
qed

lemma type_size_cong:
  assumes "take hi bs' = take hi bs" "off + 8 \<le> hi" "hi \<le> length bs" "length bs' = length bs"
  shows "btf_type_size (Type_At bs' off) = btf_type_size (Type_At bs off)"
  using rd32_cong [of hi bs' bs "off + 4"] assms
  by (simp add: btf_type_size_def btf_vlen_def btf_kind_def tword_def)

lemma tiles_cong:
  assumes "take hi bs' = take hi bs" "b \<le> hi" "hi \<le> length bs" "length bs' = length bs" "tiles bs a b ps"
  shows "tiles bs' a b ps"
  using assms(5)
proof (induction ps arbitrary: a)
  case (Cons p ps)
  then obtain sz where sz: "p = a" "btf_type_size (Type_At bs p) = Inr sz" "p + sz \<le> b" "tiles bs (p + sz) b ps"
    by auto
  from type_size_Inr [OF sz(2)] have "12 \<le> sz" by auto
  with sz(3) assms(2) have "p + 8 \<le> hi" by simp
  from type_size_cong [OF assms(1) this assms(3,4)] sz Cons.IH show ?case by auto
qed simp

section \<open>Conversion of the byte order\<close>

lemma bswap_at_facts:
  assumes "off + n \<le> length bs"
  shows "length (bswap_at n off bs) = length bs" "take off (bswap_at n off bs) = take off bs"
  using assms by (simp_all add: bswap_at_def put_bytes_before)

lemma bswap_words_facts:
  assumes "off + 4 * n \<le> length bs"
  shows "\<exists>bs'. bswap_words n off bs = Inr bs' \<and> length bs' = length bs \<and> take off bs' = take off bs"
  using assms
proof (induction n arbitrary: off bs)
  case (Suc n)
  have fit: "off + 4 \<le> length bs" using Suc.prems by simp
  note f = bswap_at_facts [OF fit]
  from Suc.IH [of "off + 4" "bswap_at 4 off bs"] f Suc.prems obtain bs' where
    bs': "bswap_words n (off + 4) (bswap_at 4 off bs) = Inr bs'" "length bs' = length bs"
      "take (off + 4) bs' = take (off + 4) (bswap_at 4 off bs)" by auto
  have "take off bs' = take off bs"
    using arg_cong [OF bs'(3), of "take off"] f(2) by (simp add: min_absorb1)
  with bs' fit show ?case by auto
qed simp

section \<open>Parsing is safe\<close>

lemma btf_kind_cong: "tword t' 4 = tword t 4 \<Longrightarrow> btf_kind t' = btf_kind t \<and> btf_vlen t' = btf_vlen t"
  by (simp add: btf_kind_def btf_vlen_def)

text \<open>One round of the type loop: the type that is found fits, and what lies before it stays.\<close>

lemma parse_type_step:
  assumes fit: "next + 12 \<le> length types" and pre: "tiles types 0 next offs"
    and base: "(if swapped then btf_bswap_type_base types next else Inr types) = Inr types1"
    and sz: "btf_type_size (Type_At types1 next) = Inr sz" "next + sz \<le> length types1"
  shows "\<exists>types2. (if swapped then btf_bswap_type_rest types1 next else Inr types1) = Inr types2 \<and>
    length types2 = length types \<and> tiles types2 0 (next + sz) (offs @ [next])"
proof -
  have l1: "length types1 = length types" "take next types1 = take next types"
    using bswap_words_facts [of "next" 3 types] fit base by (auto simp: btf_bswap_type_base_def split: if_splits)
  have t1: "tiles types1 0 next offs"
    using tiles_cong [OF l1(2) order_refl _ l1(1) pre] fit by simp
  from type_size_Inr [OF sz(1)] obtain kind vlen w where k: "btf_kind (Type_At types1 next) = Inr kind"
    "btf_vlen (Type_At types1 next) = Inr vlen" "rest_words kind vlen = Some w" "sz = 12 + 4 * w" by blast
  have "next + 12 + 4 * w \<le> length types1" using sz(2) k(4) by simp
  from bswap_words_facts [OF this] obtain t where t: "bswap_words w (next + 12) types1 = Inr t"
    "length t = length types1" "take (next + 12) t = take (next + 12) types1" by blast
  define types2 where "types2 = (if swapped then t else types1)"
  have e2: "(if swapped then btf_bswap_type_rest types1 next else Inr types1) = Inr types2"
    "length types2 = length types1" "take (next + 12) types2 = take (next + 12) types1"
    using t k by (simp_all add: types2_def btf_bswap_type_rest_def)
  have room: "next + 12 \<le> length types1" using fit l1 by simp
  have "tiles types2 0 next offs"
    using tiles_cong [OF e2(3) _ room e2(2) t1] by simp
  moreover have "btf_type_size (Type_At types2 next) = Inr sz"
    using type_size_cong [OF e2(3) _ room e2(2)] sz(1) by simp
  ultimately show ?thesis using e2 l1 by (auto intro: tiles_snoc)
qed

lemma parse_types_loop_spec:
  assumes "tiles types 0 next offs" "next \<le> length types" "length types < next + fuel + 12"
  shows "case parse_types_loop fuel mem swapped types next offs of
      Inl e \<Rightarrow> e \<noteq> UB
    | Inr (types', next', offs') \<Rightarrow> length types' = length types \<and> next' \<le> length types' \<and>
        tiles types' 0 next' offs' \<and> length types' < next' + 12"
  using assms
proof (induction fuel arbitrary: types "next" offs)
  case (Suc fuel)
  show ?case
  proof (cases "next + 12 \<le> length types")
    case False
    with Suc.prems show ?thesis by simp
  next
    case True
    from bswap_words_facts [of "next" 3 types] True obtain types1 where
      t1: "(if swapped then btf_bswap_type_base types next else Inr types) = Inr types1"
        "length types1 = length types" by (cases swapped) (auto simp: btf_bswap_type_base_def)
    show ?thesis
    proof (cases "btf_type_size (Type_At types1 next)")
      case (Inl e)
      have "no_ub (btf_type_size (Type_At types1 next))"
        using True t1(2) by (auto simp: btf_type_size_def btf_vlen_def btf_kind_def tword_def rd_def
            split: option.splits)
      with Inl True t1 show ?thesis by (simp add: no_ub_def)
    next
      case (Inr sz)
      show ?thesis
      proof (cases "next + sz > length types1")
        case True
        with Inr t1 \<open>next + 12 \<le> length types\<close> show ?thesis by simp
      next
        case False
        from parse_type_step [OF True Suc.prems(1) t1(1) Inr] False obtain types2 where
          t2: "(if swapped then btf_bswap_type_rest types1 next else Inr types1) = Inr types2"
            "length types2 = length types" "tiles types2 0 (next + sz) (offs @ [next])" by auto
        have "sz \<ge> 12" using type_size_Inr [OF Inr] by auto
        with Suc.IH [OF t2(3)] Suc.prems(3) False t1(2) t2(2)
        have "case parse_types_loop fuel mem swapped types2 (next + sz) (offs @ [next]) of
            Inl e \<Rightarrow> e \<noteq> UB
          | Inr (types', next', offs') \<Rightarrow> length types' = length types \<and> next' \<le> length types' \<and>
              tiles types' 0 next' offs' \<and> length types' < next' + 12" by (auto split: sum.splits)
        with True False Inr t1(1) t2(1) show ?thesis by (simp add: t2(2))
      qed
    qed
  qed
qed simp

lemma parse_type_sec_spec:
  "case btf_parse_type_sec mem swapped types of
     Inl e \<Rightarrow> e \<noteq> UB
   | Inr (types', offs) \<Rightarrow> length types' = length types \<and> tiles types' 0 (length types') offs"
  using parse_types_loop_spec [of types 0 "[]" "length types" mem swapped]
  by (auto simp: btf_parse_type_sec_def bindr_eq_Inl split: sum.splits if_splits)

lemma read_hdr_safe:
  "24 \<le> length raw \<Longrightarrow> \<exists>h. read_hdr raw = Inr h"
  by (simp add: read_hdr_def rd_def)

lemma parse_hdr_spec:
  "case btf_parse_hdr raw0 of
     Inl e \<Rightarrow> e \<noteq> UB
   | Inr (raw, hdr, swapped) \<Rightarrow> length raw = length raw0 \<and>
       hdr_len hdr + hdr_str_off hdr + hdr_str_len hdr \<le> length raw \<and>
       hdr_type_off hdr + hdr_type_len hdr \<le> hdr_str_off hdr"
proof (cases "length raw0 < 24")
  case True
  then show ?thesis by (simp add: btf_parse_hdr_def)
next
  case False
  then obtain h0 where h0: "read_hdr raw0 = Inr h0" using read_hdr_safe [of raw0] by auto
  have "length (bswap_at 2 0 raw0) = length raw0" using False bswap_at_facts [of 0 2 raw0] by simp
  with bswap_words_facts [of 4 5 "bswap_at 2 0 raw0"] False obtain raw1 where
    r1: "btf_bswap_hdr raw0 = Inr raw1" "length raw1 = length raw0" by (auto simp: btf_bswap_hdr_def)
  then obtain h1 where h1: "read_hdr raw1 = Inr h1" using read_hdr_safe [of raw1] False by auto
  let ?m = "if hdr_magic h0 = 0x9FeB
               then bindr (bindr (btf_bswap_hdr raw0) (\<lambda>raw. bindr (read_hdr raw) (\<lambda>h. Inr (raw, h))))
                      (\<lambda>(raw, h). if hdr_len h \<noteq> 24 then Inl (Err ENOTSUP) else Inr (raw, h, True))
               else if hdr_magic h0 \<noteq> BTF_MAGIC then Inl (Err EINVAL)
               else Inr (raw0, h0, False)"
  have "(\<exists>e. ?m = Inl (Err e)) \<or> (\<exists>raw h sw. ?m = Inr (raw, h, sw) \<and> length raw = length raw0)"
    using r1 h1 by auto
  then consider e where "?m = Inl (Err e)" | raw h sw where "?m = Inr (raw, h, sw)" "length raw = length raw0"
    by blast
  then show ?thesis
  proof cases
    case 1
    with False h0 show ?thesis unfolding btf_parse_hdr_def Let_def by (simp only: if_False bindr_Inr bindr_Inl) simp
  next
    case 2
    with False h0 show ?thesis
      unfolding btf_parse_hdr_def Let_def by (simp only: if_False bindr_Inr prod.case) auto
  qed
qed

section \<open>Objects\<close>

text \<open>What a layer needs to answer queries: whole types and terminated strings.\<close>

definition layer_ok :: "btf \<Rightarrow> btf_layer \<Rightarrow> bool" where
  "layer_ok base l \<longleftrightarrow>
     tiles (btf_types l) 0 (length (btf_types l)) (btf_type_offs l) \<and>
     (base = [] \<longrightarrow> btf_strs l \<noteq> []) \<and> (btf_strs l \<noteq> [] \<longrightarrow> last (btf_strs l) = 0) \<and>
     btf_start_id l = (if base = [] then 1 else btf__type_cnt base) \<and>
     btf_start_str_off l = (case base of [] \<Rightarrow> 0 | b # _ \<Rightarrow> length (btf_strs b))"

fun btf_ok :: "btf \<Rightarrow> bool" where
  "btf_ok [] \<longleftrightarrow> True"
| "btf_ok (l # base) \<longleftrightarrow> layer_ok base l \<and> btf_ok base"

lemma type_by_id_ok:
  "btf_ok btf \<Longrightarrow> type_id < btf__type_cnt btf \<Longrightarrow> \<exists>t. btf_type_by_id btf type_id = Inr t \<and> tfits t"
proof (induction btf type_id rule: btf_type_by_id.induct)
  case (2 l base type_id)
  show ?case
  proof (cases "type_id = 0 \<or> type_id < btf_start_id l")
    case True
    with 2 show ?thesis by (cases base) (auto simp: layer_ok_def)
  next
    case False
    let ?i = "type_id - btf_start_id l"
    have i: "?i < length (btf_type_offs l)" using "2.prems"(2) False by (auto simp: btf__type_cnt_def)
    then have "tfits (Type_At (btf_types l) (btf_type_offs l ! ?i))"
      using "2.prems"(1) by (intro tiles_fits [of _ 0 "length (btf_types l)" "btf_type_offs l"]) (auto simp: layer_ok_def)
    with i False show ?thesis by auto
  qed
qed (simp add: btf__type_cnt_def)

lemma btf__type_by_id_cases:
  assumes "btf_ok btf"
  shows "type_id \<ge> btf__type_cnt btf \<and> btf__type_by_id btf type_id = Inr None \<or>
    (type_id < btf__type_cnt btf \<and> (\<exists>t. btf__type_by_id btf type_id = Inr (Some t) \<and>
       btf_type_by_id btf type_id = Inr t \<and> tfits t))"
  using type_by_id_ok [OF assms, of type_id] by (auto simp: btf__type_by_id_def)

lemma str_by_offset_cases:
  "btf_ok btf \<Longrightarrow> btf \<noteq> [] \<Longrightarrow> btf__str_by_offset btf offset = Inr None \<or>
   (\<exists>l \<in> set btf. \<exists>k < length (btf_strs l). btf__str_by_offset btf offset = Inr (Some (btf_strs l, k)) \<and>
      terminated (btf_strs l) k (length (btf_strs l)))"
proof (induction btf offset rule: btf__str_by_offset.induct)
  case (2 l base offset)
  show ?case
  proof (cases "offset < btf_start_str_off l")
    case True
    with 2 show ?thesis by (cases base) (auto simp: layer_ok_def)
  next
    case False
    let ?k = "offset - btf_start_str_off l"
    have "terminated (btf_strs l) ?k (length (btf_strs l))" if "?k < length (btf_strs l)"
    proof -
      have "last (btf_strs l) = 0" using "2.prems"(1) that by (auto simp: layer_ok_def)
      moreover have "last (drop ?k (btf_strs l)) = last (btf_strs l)" "drop ?k (btf_strs l) \<noteq> []"
        using that by (simp_all add: last_drop)
      ultimately have "0 \<in> set (drop ?k (btf_strs l))" by (metis last_in_set)
      then have "length (cstr_at (btf_strs l) ?k) < length (drop ?k (btf_strs l))"
        unfolding cstr_at_def by (intro takeWhile_shorter) auto
      then show ?thesis by (simp add: terminated_def)
    qed
    with False show ?thesis by (auto simp: not_less)
  qed
qed simp

lemma no_ub_str [safe_intros]: "btf_ok btf \<Longrightarrow> btf \<noteq> [] \<Longrightarrow> no_ub (btf__str_by_offset btf offset)"
  using str_by_offset_cases [of btf offset] by auto

lemma no_ub_type [safe_intros]: "btf_ok btf \<Longrightarrow> no_ub (btf__type_by_id btf type_id)"
  using btf__type_by_id_cases [of btf type_id] by auto

lemma no_ub_validate [safe_intros]:
  "btf_ok btf \<Longrightarrow> btf \<noteq> [] \<Longrightarrow> no_ub (btf_validate_str btf k)" "btf_ok btf \<Longrightarrow> no_ub (btf_validate_id btf k)"
  by (auto simp: btf_validate_str_def btf_validate_id_def intro!: safe_intros)

lemma no_ub_check_all [safe_intros]: "(\<And>i. i < n \<Longrightarrow> no_ub (f i)) \<Longrightarrow> no_ub (check_all n f)"
  by (induction n) (auto intro!: safe_intros)

text \<open>Every access of the checks is to an element that the size of the type accounts for.\<close>

lemma no_ub_check_name:
  assumes "btf_ok btf" "btf \<noteq> []" "no_ub (tword t (12 + i * sz))"
  shows "no_ub (check_name btf t sz i)"
  using assms by (auto simp: check_name_def intro!: safe_intros)

lemma no_ub_check_type:
  assumes "btf_ok btf" "no_ub (tword t (12 + i * sz + k))"
  shows "no_ub (check_type btf t sz k i)"
  using assms by (auto simp: check_type_def intro!: safe_intros)

lemma element_inside:
  fixes i n sz k :: nat
  assumes "i < n" "k + 4 \<le> sz"
  shows "12 + i * sz + k + 4 \<le> 12 + n * sz"
proof -
  have "Suc i * sz \<le> n * sz" using assms(1) by (intro mult_le_mono1) simp
  with assms(2) show ?thesis by simp
qed

lemma no_ub_elements:
  assumes ok: "btf_ok btf" "btf \<noteq> []" and w: "\<forall>k. k + 4 \<le> 12 + n * sz \<longrightarrow> no_ub (tword t k)"
  shows "i < n \<Longrightarrow> 4 \<le> sz \<Longrightarrow> no_ub (check_name btf t sz i)"
    "i < n \<Longrightarrow> k + 4 \<le> sz \<Longrightarrow> no_ub (check_type btf t sz k i)"
  using element_inside [of i n 0 sz] element_inside [of i n k sz] w
  by (auto intro!: no_ub_check_name no_ub_check_type ok simp: add.assoc)

lemma check_kind_safe:
  assumes ok: "btf_ok btf" "btf \<noteq> []" and t: "tfits t" "btf_kind t = Inr kind"
  shows "no_ub (check_kind btf t kind)"
proof -
  from tfits_words [OF t(1)] t(2) obtain n where n: "btf_vlen t = Inr n" "no_ub (tword t 8)"
    and c: "kind = BTF_KIND_UNKN \<or> (\<exists>w. rest_words kind n = Some w \<and> (\<forall>k. k + 4 \<le> 12 + 4 * w \<longrightarrow> no_ub (tword t k)))"
    by auto
  show ?thesis
  proof (cases "kind = BTF_KIND_UNKN")
    case True
    then show ?thesis by (simp add: check_kind_def n(1))
  next
    case False
    with c obtain w where w: "rest_words kind n = Some w" "\<forall>k. k + 4 \<le> 12 + 4 * w \<longrightarrow> no_ub (tword t k)" by blast
    have tt: "no_ub (t_type t)" using n(2) by (simp add: t_type_def)
    have w3: "w = n * 3 \<Longrightarrow> \<forall>k. k + 4 \<le> 12 + n * 12 \<longrightarrow> no_ub (tword t k)"
      and w2: "w = n * 2 \<Longrightarrow> \<forall>k. k + 4 \<le> 12 + n * 8 \<longrightarrow> no_ub (tword t k)"
      using w(2) by auto
    note e3 = no_ub_elements [OF ok w3] and e2 = no_ub_elements [OF ok w2]
    have func: "no_ub (case ft of None \<Rightarrow> Inl UB
        | Some ft \<Rightarrow> bindr (btf_kind ft) (\<lambda>k. if k \<noteq> BTF_KIND_FUNC_PROTO then Inl (Err EINVAL) else Inr ()))"
      if "btf_validate_id btf ref_id = Inr x" "btf__type_by_id btf ref_id = Inr ft" for ref_id x ft
      using that btf__type_by_id_cases [OF ok(1), of ref_id]
      by (auto simp: btf_validate_id_def dest!: tfits_words)
    show ?thesis
      using w tt func
      by (cases kind; simp add: check_kind_def n(1))
         (auto intro!: safe_intros e2 e3 ok no_ub_check_type)
  qed
qed

lemma validate_type_safe:
  assumes "btf_ok btf" "btf \<noteq> []" "tfits t"
  shows "no_ub (btf_validate_type btf t)"
  using tfits_words [OF assms(3)] check_kind_safe [OF assms] assms
  by (auto simp: btf_validate_type_def t_name_off_def intro!: safe_intros)

lemma sanity_check_safe:
  assumes "btf_ok btf" "btf \<noteq> []"
  shows "no_ub (btf_sanity_check btf)"
  unfolding btf_sanity_check_def
proof (rule no_ub_check_all)
  fix i assume "i < btf__type_cnt btf - 1"
  then have "i + 1 < btf__type_cnt btf" by simp
  from type_by_id_ok [OF assms(1) this] validate_type_safe [OF assms]
  show "no_ub (bindr (btf_type_by_id btf (i + 1)) (btf_validate_type btf))" by auto
qed

lemma check_all_Inr: "check_all n f = Inr u \<longleftrightarrow> (\<forall>i < n. f i = Inr ())"
  by (induction n) (auto simp: bindr_eq_Inr less_Suc_eq)

lemma btf_new_cases:
  assumes "btf_ok base"
  shows "case btf_new c m mem data base of
      Inl e \<Rightarrow> e \<noteq> UB
    | Inr btf \<Rightarrow> btf_ok btf \<and> btf_sanity_check btf = Inr () \<and> btf \<noteq> [] \<and> tl btf = base"
proof (cases "c \<and> m \<and> (\<exists>raw hdr swapped. btf_parse_hdr data = Inr (raw, hdr, swapped))")
  case False
  have "no_ub (btf_parse_hdr data)"
    using parse_hdr_spec [of data] by (auto simp: no_ub_def split: sum.splits)
  with False show ?thesis by (cases "btf_parse_hdr data") (auto simp: btf_new_def no_ub_def)
next
  case True
  then obtain raw hdr swapped where h: "btf_parse_hdr data = Inr (raw, hdr, swapped)" by blast
  define strs where "strs = take (hdr_str_len hdr) (drop (hdr_str_off hdr) (drop (hdr_len hdr) raw))"
  define types where "types = take (hdr_type_len hdr) (drop (hdr_type_off hdr) (drop (hdr_len hdr) raw))"
  define mk where "mk types offs = \<lparr>btf_types = types, btf_type_offs = offs,
      btf_start_id = (if base = [] then 1 else btf__type_cnt base),
      btf_start_str_off = (case base of [] \<Rightarrow> 0 | b # _ \<Rightarrow> length (btf_strs b)),
      btf_strs = strs, btf_swapped_endian = swapped, btf_ptr_size = 0\<rparr> # base" for types offs
  have new: "btf_new c m mem data base =
      bindr (btf_parse_str_sec (base \<noteq> []) strs) (\<lambda>_.
      bindr (btf_parse_type_sec mem swapped types) (\<lambda>(types, offs).
      bindr (btf_sanity_check (mk types offs)) (\<lambda>_. Inr (mk types offs))))"
    using True by (simp add: btf_new_def h Let_def strs_def types_def mk_def)
  have strs: "(base = [] \<longrightarrow> strs \<noteq> []) \<and> (strs \<noteq> [] \<longrightarrow> last strs = 0)"
    if "btf_parse_str_sec (base \<noteq> []) strs = Inr u" for u
    using that by (auto simp: btf_parse_str_sec_def Let_def split: if_splits)
  show ?thesis
  proof (cases "btf_parse_str_sec (base \<noteq> []) strs")
    case (Inl e)
    then show ?thesis by (auto simp: new btf_parse_str_sec_def Let_def split: if_splits)
  next
    case (Inr u)
    note s = strs [OF Inr]
    show ?thesis
    proof (cases "btf_parse_type_sec mem swapped types")
      case (Inl e)
      with parse_type_sec_spec [where mem = mem and swapped = swapped and types = types] Inr show ?thesis by (simp add: new)
    next
      case (Inr r)
      then obtain types' offs where t: "btf_parse_type_sec mem swapped types = Inr (types', offs)" by (cases r) auto
      have "length types' = length types \<and> tiles types' 0 (length types') offs"
        using parse_type_sec_spec [where mem = mem and swapped = swapped and types = types]
        unfolding t sum.case prod.case .
      then have "tiles types' 0 (length types') offs" by (rule conjunct2)
      then have ok: "btf_ok (mk types' offs)"
        using s assms by (simp add: mk_def layer_ok_def)
      have ne: "mk types' offs \<noteq> []" "tl (mk types' offs) = base" by (simp_all add: mk_def)
      from sanity_check_safe [OF ok ne(1)] ok ne show ?thesis
        using \<open>btf_parse_str_sec (base \<noteq> []) strs = Inr u\<close>
        by (cases "btf_sanity_check (mk types' offs)") (auto simp: new t no_ub_def)
    qed
  qed
qed

section \<open>Properties\<close>


text \<open>An object without types: a header and the empty string.\<close>

definition empty_btf_bytes :: "u8 list" where
  "empty_btf_bytes = [0x9F, 0xeB, 1, 0, 24, 0, 0, 0, 0, 0, 0, 0, 0, 0, 0, 0, 0, 0, 0, 0, 1, 0, 0, 0, 0]"


text \<open>
  The string offsets of a split of a split are wrong.  The comment on
  \<open>start_str_off\<close> says that it is the total size of the string section of the base, but only the
  size of the base's own layer is taken: an offset that names a string of the base object in the
  base itself names a string of the new layer, or none at all, in an object split from it, as
  soon as the base is itself split from an object with strings.
\<close>

theorem split_of_split_strings:
  assumes "btf_ok (l # base)" "base \<noteq> []"
    and "btf_new calloc_ok malloc_ok mem data (l # base) = Inr (new # l # base)"
    and "length (btf_strs l) \<le> offset" "btf_start_str_off l \<le> offset"
    and "offset - btf_start_str_off l < length (btf_strs l)"
  shows "btf__str_by_offset (l # base) offset = Inr (Some (btf_strs l, offset - btf_start_str_off l)) \<and>
    (btf__str_by_offset (new # l # base) offset = Inr None \<or>
     btf__str_by_offset (new # l # base) offset = Inr (Some (btf_strs new, offset - length (btf_strs l))))"
proof -
  from btf_new_cases [OF assms(1), of calloc_ok malloc_ok mem data] assms(3)
  have "layer_ok (l # base) new" by simp
  then have "btf_start_str_off new = length (btf_strs l)" by (simp add: layer_ok_def)
  with assms(4-6) show ?thesis by auto
qed

text \<open>Three layers: the empty object, and twice a layer with the string "a".\<close>

definition split_bytes :: "u8 list" where
  "split_bytes = [0x9F, 0xeB, 1, 0, 24, 0, 0, 0, 0, 0, 0, 0, 0, 0, 0, 0, 0, 0, 0, 0, 2, 0, 0, 0, 97, 0]"

definition plain_layer :: "nat \<Rightarrow> u8 list \<Rightarrow> btf_layer" where
  "plain_layer str_off strs = \<lparr>btf_types = [], btf_type_offs = [], btf_start_id = 1,
     btf_start_str_off = str_off, btf_strs = strs, btf_swapped_endian = False, btf_ptr_size = 0\<rparr>"

lemmas btf_new_eval = btf_new_def btf_parse_hdr_def read_hdr_def rd_def BTF_MAGIC_def BTF_MAX_STR_OFFSET_def
  btf_parse_str_sec_def btf_parse_type_sec_def btf_sanity_check_def btf__type_cnt_def plain_layer_def Let_def

lemma new_layers:
  "btf_new True True (\<lambda>_. True) empty_btf_bytes [] = Inr [plain_layer 0 [0]]"
  "btf_new True True (\<lambda>_. True) split_bytes [plain_layer 0 [0]] =
     Inr [plain_layer 1 [97, 0], plain_layer 0 [0]]"
  "btf_new True True (\<lambda>_. True) split_bytes [plain_layer 1 [97, 0], plain_layer 0 [0]] =
     Inr [plain_layer 2 [97, 0], plain_layer 1 [97, 0], plain_layer 0 [0]]"
  by (simp_all add: btf_new_eval empty_btf_bytes_def split_bytes_def)

theorem split_of_split_strings_witness:
  "btf__str_by_offset [plain_layer 1 [97, 0], plain_layer 0 [0]] 2 = Inr (Some ([97, 0], 1)) \<and>
   btf__str_by_offset [plain_layer 2 [97, 0], plain_layer 1 [97, 0], plain_layer 0 [0]] 2 =
     Inr (Some ([97, 0], 0))"
proof -
  have "btf_ok [plain_layer 1 [97, 0], plain_layer 0 [0]]"
    by (simp add: layer_ok_def plain_layer_def btf__type_cnt_def)
  from split_of_split_strings [OF this _ new_layers(3), of 2] show ?thesis
    by (simp add: plain_layer_def)
qed

end
