(* ===== verification/Btf_Query.thy ===== *)
theory Btf_Query imports Btf begin

text \<open>
  The queries on BTF type information (\<open>bpf/libbpf/src/btf.c\<close>): the pointer size that an object
  assumes, its byte order, the size and the alignment of a type, skipping modifiers, and searching
  a type by its name.

  The code caches the pointer size in the object when it is first needed.  \<open>btf__pointer_size\<close> and
  \<open>btf_ptr_sz\<close> return the object with the cache filled; the queries that only use the value are
  stated on the value, which filling the cache does not change (\<open>ptr_sz_cached\<close>).
\<close>

section \<open>Strings\<close>

text \<open>Comparing with a string of the object: it must be terminated.\<close>

definition c_str :: "u8 list \<times> nat \<Rightarrow> u8 list res" where
  "c_str p = (case p of (bs, k) \<Rightarrow> if terminated bs k (length bs) then Inr (cstr_at bs k) else Inl UB)"

definition asc :: "string \<Rightarrow> u8 list" where
  "asc s = List.map of_char s"

section \<open>Pointer size\<close>

definition long_aliases :: "string list" where
  "long_aliases =
    [''long'', ''long int'', ''int long'', ''unsigned long'', ''long unsigned'',
     ''unsigned long int'', ''unsigned int long'', ''long unsigned int'',
     ''long int unsigned'', ''int unsigned long'', ''int long unsigned'']"

text \<open>A loop that returns at the first element for which the body has a result.\<close>

primrec first_result :: "('a \<Rightarrow> 'b option res) \<Rightarrow> 'a list \<Rightarrow> 'b option res" where
  "first_result f [] = Inr None"
| "first_result f (x # xs) =
     bindr (f x) (\<lambda>r. case r of Some y \<Rightarrow> Inr (Some y) | None \<Rightarrow> first_result f xs)"

definition type_name :: "btf \<Rightarrow> type_ptr \<Rightarrow> u8 list option res" where
  "type_name btf t =
     bindr (t_name_off t) (\<lambda>name_off.
     bindr (btf__name_by_offset btf name_off) (\<lambda>name.
       case name of None \<Rightarrow> Inr None | Some p \<Rightarrow> bindr (c_str p) (\<lambda>s. Inr (Some s))))"

definition deref :: "'a option \<Rightarrow> 'a res" where
  "deref p = (case p of None \<Rightarrow> Inl UB | Some x \<Rightarrow> Inr x)"

definition type_at :: "btf \<Rightarrow> nat \<Rightarrow> type_ptr res" where
  "type_at btf type_id = bindr (btf__type_by_id btf type_id) deref"

definition long_size :: "btf \<Rightarrow> nat \<Rightarrow> nat option res" where
  "long_size btf i =
     bindr (type_at btf i) (\<lambda>t.
     bindr (btf_kind t) (\<lambda>kind.
       if kind \<noteq> BTF_KIND_INT then Inr None
       else
         bindr (t_size t) (\<lambda>sz.
         if sz \<noteq> 4 \<and> sz \<noteq> 8 then Inr None
         else
           bindr (type_name btf t) (\<lambda>name.
             case name of
               None \<Rightarrow> Inr None
             | Some s \<Rightarrow> if s \<in> asc ` List.set long_aliases then Inr (Some sz) else Inr None))))"

definition determine_ptr_size :: "btf \<Rightarrow> int res" where
  "determine_ptr_size btf =
     (if tl btf \<noteq> [] \<and> btf_ptr_size (hd (tl btf)) > 0 then Inr (btf_ptr_size (hd (tl btf)))
      else
        bindr (first_result (long_size btf) [1..<btf__type_cnt btf]) (\<lambda>r.
          Inr (case r of None \<Rightarrow> - 1 | Some sz \<Rightarrow> int sz)))"

definition cache_ptr_size :: "btf \<Rightarrow> btf res" where
  "cache_ptr_size btf =
     (case btf of
        [] \<Rightarrow> Inl UB
      | l # base \<Rightarrow>
          if btf_ptr_size l = 0
          then bindr (determine_ptr_size btf) (\<lambda>p. Inr (l\<lparr>btf_ptr_size := p\<rparr> # base))
          else Inr btf)"

definition btf_ptr_sz :: "btf \<Rightarrow> (nat \<times> btf) res" where
  "btf_ptr_sz btf =
     bindr (cache_ptr_size btf) (\<lambda>btf.
       let p = btf_ptr_size (hd btf) in Inr (if p < 0 then 8 else nat p, btf))"

definition btf__pointer_size :: "btf \<Rightarrow> (nat \<times> btf) res" where
  "btf__pointer_size btf =
     bindr (cache_ptr_size btf) (\<lambda>btf.
       let p = btf_ptr_size (hd btf) in Inr (if p < 0 then 0 else nat p, btf))"

definition btf__set_pointer_size :: "btf \<Rightarrow> nat \<Rightarrow> btf res" where
  "btf__set_pointer_size btf ptr_sz =
     (if ptr_sz \<noteq> 4 \<and> ptr_sz \<noteq> 8 then Inl (Err EINVAL)
      else case btf of [] \<Rightarrow> Inl UB | l # base \<Rightarrow> Inr (l\<lparr>btf_ptr_size := int ptr_sz\<rparr> # base))"

definition ptr_sz_value :: "btf \<Rightarrow> nat res" where
  "ptr_sz_value btf = bindr (btf_ptr_sz btf) (\<lambda>(p, _). Inr p)"

section \<open>Byte order, on a little-endian host\<close>

datatype btf_endianness = BTF_LITTLE_ENDIAN | BTF_BIG_ENDIAN

definition is_host_big_endian :: bool where "is_host_big_endian = False"

definition btf__endianness :: "btf \<Rightarrow> btf_endianness res" where
  "btf__endianness btf =
     (case btf of
        [] \<Rightarrow> Inl UB
      | l # _ \<Rightarrow> Inr (if is_host_big_endian
            then if btf_swapped_endian l then BTF_LITTLE_ENDIAN else BTF_BIG_ENDIAN
            else if btf_swapped_endian l then BTF_BIG_ENDIAN else BTF_LITTLE_ENDIAN))"

definition btf__set_endianness :: "btf \<Rightarrow> btf_endianness \<Rightarrow> btf res" where
  "btf__set_endianness btf endian =
     (case btf of
        [] \<Rightarrow> Inl UB
      | l # base \<Rightarrow> Inr (l\<lparr>btf_swapped_endian := (is_host_big_endian \<noteq> (endian = BTF_BIG_ENDIAN))\<rparr> # base))"

section \<open>Size of a type\<close>

definition MAX_RESOLVE_DEPTH :: nat where "MAX_RESOLVE_DEPTH = 32"
definition UINT32_MAX :: nat where "UINT32_MAX = 4294967295"

definition btf_type_is_void_or_null :: "type_ptr option \<Rightarrow> bool res" where
  "btf_type_is_void_or_null t =
     (case t of
        None \<Rightarrow> Inr True
      | Some t \<Rightarrow> if t = Btf_Void then Inr True
                 else bindr (btf_kind t) (\<lambda>k. Inr (k = BTF_KIND_FWD)))"

definition sized_kinds :: "btf_kind list" where
  "sized_kinds = [BTF_KIND_INT, BTF_KIND_STRUCT, BTF_KIND_UNION, BTF_KIND_ENUM, BTF_KIND_ENUM64,
     BTF_KIND_DATASEC, BTF_KIND_FLOAT]"

definition ref_kinds :: "btf_kind list" where
  "ref_kinds = [BTF_KIND_TYPEDEF, BTF_KIND_VOLATILE, BTF_KIND_CONST, BTF_KIND_RESTRICT,
     BTF_KIND_VAR, BTF_KIND_DECL_TAG, BTF_KIND_TYPE_TAG]"

text \<open>An array holds the element type at byte 12, the index type at 16, the length at 20.\<close>

definition array_type :: "type_ptr \<Rightarrow> nat res" where "array_type t = tword t 12"
definition array_nelems :: "type_ptr \<Rightarrow> nat res" where "array_nelems t = tword t 20"

text \<open>The loop gives \<open>nelems\<close> and \<open>size\<close> at the label \<open>done\<close>.\<close>

fun resolve_size_loop :: "nat \<Rightarrow> btf \<Rightarrow> nat \<Rightarrow> type_ptr option \<Rightarrow> (nat \<times> int) res" where
  "resolve_size_loop 0 btf nelems t = Inr (nelems, - 1)"
| "resolve_size_loop (Suc fuel) btf nelems t0 =
     bindr (btf_type_is_void_or_null t0) (\<lambda>stop.
     if stop then Inr (nelems, - 1)
     else
       bindr (deref t0) (\<lambda>t.
       bindr (btf_kind t) (\<lambda>kind.
         if kind \<in> List.set sized_kinds then bindr (t_size t) (\<lambda>sz. Inr (nelems, int sz))
         else if kind = BTF_KIND_PTR then bindr (ptr_sz_value btf) (\<lambda>sz. Inr (nelems, int sz))
         else if kind \<in> List.set ref_kinds
         then bindr (t_type t) (\<lambda>type_id.
              bindr (btf__type_by_id btf type_id) (resolve_size_loop fuel btf nelems))
         else if kind = BTF_KIND_ARRAY
         then bindr (array_nelems t) (\<lambda>n.
              if nelems \<noteq> 0 \<and> n > UINT32_MAX div nelems then Inl (Err E2BIG)
              else bindr (array_type t) (\<lambda>type_id.
                   bindr (btf__type_by_id btf type_id) (resolve_size_loop fuel btf (nelems * n))))
         else Inl (Err EINVAL))))"

definition btf__resolve_size :: "btf \<Rightarrow> nat \<Rightarrow> nat res" where
  "btf__resolve_size btf type_id =
     bindr (btf__type_by_id btf type_id) (\<lambda>t.
     bindr (resolve_size_loop MAX_RESOLVE_DEPTH btf 1 t) (\<lambda>(nelems, sz).
       if sz < 0 then Inl (Err EINVAL)
       else if nelems \<noteq> 0 \<and> nat sz > UINT32_MAX div nelems then Inl (Err E2BIG)
       else Inr (nelems * nat sz)))"

section \<open>Skipping modifiers\<close>

definition skip_kinds :: "btf_kind list" where
  "skip_kinds = [BTF_KIND_VOLATILE, BTF_KIND_CONST, BTF_KIND_RESTRICT, BTF_KIND_TYPE_TAG,
     BTF_KIND_TYPEDEF, BTF_KIND_VAR]"

fun resolve_type_loop :: "nat \<Rightarrow> btf \<Rightarrow> nat \<Rightarrow> type_ptr option \<Rightarrow> (nat \<times> nat \<times> type_ptr option) res" where
  "resolve_type_loop 0 btf type_id t = Inr (0, type_id, t)"
| "resolve_type_loop (Suc left) btf type_id t0 =
     bindr (btf_type_is_void_or_null t0) (\<lambda>stop.
     if stop then Inr (Suc left, type_id, t0)
     else
       bindr (deref t0) (\<lambda>t.
       bindr (btf_kind t) (\<lambda>kind.
         if kind \<in> List.set skip_kinds
         then bindr (t_type t) (\<lambda>type_id.
              bindr (btf__type_by_id btf type_id) (resolve_type_loop left btf type_id))
         else Inr (Suc left, type_id, t0))))"

definition btf__resolve_type :: "btf \<Rightarrow> nat \<Rightarrow> nat res" where
  "btf__resolve_type btf type_id =
     bindr (btf__type_by_id btf type_id) (\<lambda>t.
     bindr (resolve_type_loop MAX_RESOLVE_DEPTH btf type_id t) (\<lambda>(left, type_id, t).
       if left = 0 then Inl (Err EINVAL)
       else bindr (btf_type_is_void_or_null t) (\<lambda>v. if v then Inl (Err EINVAL) else Inr type_id)))"

section \<open>Search by name\<close>

definition match_name :: "btf \<Rightarrow> u8 list \<Rightarrow> nat \<Rightarrow> nat option res" where
  "match_name btf name i =
     bindr (type_at btf i) (\<lambda>t.
     bindr (type_name btf t) (\<lambda>n. Inr (if n = Some name then Some i else None)))"

definition btf__find_by_name :: "btf \<Rightarrow> u8 list \<Rightarrow> nat res" where
  "btf__find_by_name btf name =
     (if name = asc ''void'' then Inr 0
      else
        bindr (first_result (match_name btf name) [1..<btf__type_cnt btf]) (\<lambda>r.
          case r of None \<Rightarrow> Inl (Err ENOENT) | Some i \<Rightarrow> Inr i))"

definition match_name_kind :: "btf \<Rightarrow> u8 list \<Rightarrow> btf_kind \<Rightarrow> nat \<Rightarrow> nat option res" where
  "match_name_kind btf name kind i =
     bindr (type_at btf i) (\<lambda>t.
     bindr (btf_kind t) (\<lambda>k. if k \<noteq> kind then Inr None else match_name btf name i))"

definition btf_find_by_name_kind :: "btf \<Rightarrow> nat \<Rightarrow> u8 list \<Rightarrow> btf_kind \<Rightarrow> nat res" where
  "btf_find_by_name_kind btf start_id name kind =
     (if kind = BTF_KIND_UNKN \<or> name = asc ''void'' then Inr 0
      else
        bindr (first_result (match_name_kind btf name kind) [start_id..<btf__type_cnt btf]) (\<lambda>r.
          case r of None \<Rightarrow> Inl (Err ENOENT) | Some i \<Rightarrow> Inr i))"

definition btf__find_by_name_kind_own :: "btf \<Rightarrow> u8 list \<Rightarrow> btf_kind \<Rightarrow> nat res" where
  "btf__find_by_name_kind_own btf name kind = btf_find_by_name_kind btf (btf_start_id (hd btf)) name kind"

definition btf__find_by_name_kind :: "btf \<Rightarrow> u8 list \<Rightarrow> btf_kind \<Rightarrow> nat res" where
  "btf__find_by_name_kind btf name kind = btf_find_by_name_kind btf 1 name kind"

section \<open>Alignment\<close>

text \<open>Member \<open>i\<close> of a structure: name, type and offset, 12 bytes.\<close>

definition member_type :: "type_ptr \<Rightarrow> nat \<Rightarrow> nat res" where "member_type t i = tword t (12 + i * 12 + 4)"
definition member_offset :: "type_ptr \<Rightarrow> nat \<Rightarrow> nat res" where "member_offset t i = tword t (12 + i * 12 + 8)"

definition btf_member_bitfield_size :: "type_ptr \<Rightarrow> nat \<Rightarrow> nat res" where
  "btf_member_bitfield_size t i =
     bindr (btf_kflag t) (\<lambda>kflag.
     if kflag then bindr (member_offset t i) (\<lambda>v. Inr (v div 2 ^ 24)) else Inr 0)"

text \<open>The outcome of a round of the member loop: an error, the answer 1 (packed), or go on.\<close>

datatype align_step = Al_Fail | Al_Packed | Al_Max nat

text \<open>
  \<open>btf__align_of\<close> calls itself.  \<open>rec\<close> is the recursive call; its result is None when the recursion
  does not return within the fuel, and \<open>Some 0\<close> is the error value.
\<close>

fun align_members :: "(nat \<Rightarrow> nat option res) \<Rightarrow> type_ptr \<Rightarrow> nat list \<Rightarrow> nat \<Rightarrow> align_step option res" where
  "align_members rec t [] max_align = Inr (Some (Al_Max max_align))"
| "align_members rec t (i # is) max_align =
     bindr (member_type t i) (\<lambda>mt.
     bindr (rec mt) (\<lambda>align.
       case align of
         None \<Rightarrow> Inr None
       | Some align \<Rightarrow>
           if align = 0 then Inr (Some Al_Fail)
           else
             bindr (btf_member_bitfield_size t i) (\<lambda>b.
             bindr (member_offset t i) (\<lambda>offset.
               if b = 0 \<and> offset mod (8 * align) \<noteq> 0 then Inr (Some Al_Packed)
               else align_members rec t is (max max_align align)))))"

definition align_composite :: "(nat \<Rightarrow> nat option res) \<Rightarrow> type_ptr \<Rightarrow> nat option res" where
  "align_composite rec t =
     bindr (btf_vlen t) (\<lambda>vlen.
     bindr (align_members rec t [0..<vlen] 1) (\<lambda>r.
       case r of
         None \<Rightarrow> Inr None
       | Some Al_Fail \<Rightarrow> Inr (Some 0)
       | Some Al_Packed \<Rightarrow> Inr (Some 1)
       | Some (Al_Max a) \<Rightarrow> bindr (t_size t) (\<lambda>sz. Inr (Some (if sz mod a \<noteq> 0 then 1 else a)))))"

primrec btf__align_of :: "nat \<Rightarrow> btf \<Rightarrow> nat \<Rightarrow> nat option res" where
  "btf__align_of 0 btf type_id = Inr None"
| "btf__align_of (Suc fuel) btf type_id =
     bindr (type_at btf type_id) (\<lambda>t.
     bindr (btf_kind t) (\<lambda>kind.
       if kind \<in> List.set [BTF_KIND_INT, BTF_KIND_ENUM, BTF_KIND_ENUM64, BTF_KIND_FLOAT]
       then bindr (ptr_sz_value btf) (\<lambda>p. bindr (t_size t) (\<lambda>sz. Inr (Some (min p sz))))
       else if kind = BTF_KIND_PTR then bindr (ptr_sz_value btf) (\<lambda>p. Inr (Some p))
       else if kind \<in> List.set [BTF_KIND_TYPEDEF, BTF_KIND_VOLATILE, BTF_KIND_CONST,
                 BTF_KIND_RESTRICT, BTF_KIND_TYPE_TAG]
       then bindr (t_type t) (btf__align_of fuel btf)
       else if kind = BTF_KIND_ARRAY then bindr (array_type t) (btf__align_of fuel btf)
       else if kind = BTF_KIND_STRUCT \<or> kind = BTF_KIND_UNION
       then align_composite (btf__align_of fuel btf) t
       else Inr (Some 0)))"

section \<open>The queries are defined\<close>

lemma type_at_ok:
  assumes "btf_ok btf" "type_id < btf__type_cnt btf"
  shows "\<exists>t. type_at btf type_id = Inr t \<and> tfits t \<and> btf__type_by_id btf type_id = Inr (Some t)"
  using btf__type_by_id_cases [OF assms(1), of type_id] assms(2) by (auto simp: type_at_def deref_def)

lemma tfits_kind: "tfits t \<Longrightarrow> no_ub (btf_kind t)" "tfits t \<Longrightarrow> no_ub (btf_vlen t)"
  "tfits t \<Longrightarrow> no_ub (t_name_off t)" "tfits t \<Longrightarrow> no_ub (t_type t)" "tfits t \<Longrightarrow> no_ub (t_size t)"
  using tfits_words [of t] by (auto simp: t_name_off_def t_type_def t_size_def)

lemmas tfits_safe = tfits_kind

lemma no_ub_type_name [safe_intros]:
  assumes "btf_ok btf" "btf \<noteq> []" "tfits t"
  shows "no_ub (type_name btf t)"
proof -
  have "no_ub (case name of None \<Rightarrow> Inr None | Some p \<Rightarrow> bindr (c_str p) (\<lambda>s. Inr (Some s)))"
    if "btf__name_by_offset btf k = Inr name" for k name
    using str_by_offset_cases [OF assms(1,2), of k] that
    by (auto simp: btf__name_by_offset_def c_str_def)
  then show ?thesis
    using assms no_ub_str [OF assms(1,2)] unfolding type_name_def
    by (intro safe_intros tfits_safe) (auto simp: btf__name_by_offset_def)
qed

lemma no_ub_first_result [safe_intros]:
  "(\<And>x. x \<in> set xs \<Longrightarrow> no_ub (f x)) \<Longrightarrow> no_ub (first_result f xs)"
  by (induction xs) (auto intro!: safe_intros split: option.splits)

lemma no_ub_long_size:
  assumes "btf_ok btf" "btf \<noteq> []" "i < btf__type_cnt btf"
  shows "no_ub (long_size btf i)"
proof -
  from type_at_ok [OF assms(1,3)] obtain t where t: "type_at btf i = Inr t" "tfits t" by blast
  show ?thesis
    unfolding long_size_def t(1) bindr_Inr
    by (intro safe_intros tfits_safe t assms) (auto split: option.splits)
qed

lemma first_result_Some:
  assumes "first_result f xs = Inr (Some y)"
  shows "\<exists>ys x zs. xs = ys @ x # zs \<and> f x = Inr (Some y) \<and> (\<forall>z \<in> set ys. f z = Inr None)"
  using assms
proof (induction xs)
  case (Cons x xs)
  show ?case
  proof (cases "f x")
    case (Inr r)
    show ?thesis
    proof (cases r)
      case None
      with Cons Inr obtain ys x' zs where "xs = ys @ x' # zs" "f x' = Inr (Some y)" "\<forall>z \<in> set ys. f z = Inr None"
        by auto
      with None Inr have "x # xs = (x # ys) @ x' # zs" "f x' = Inr (Some y)" "\<forall>z \<in> set (x # ys). f z = Inr None"
        by auto
      then show ?thesis by blast
    next
      case (Some r')
      with Cons.prems Inr have "x # xs = [] @ x # xs" "f x = Inr (Some y)" by auto
      then show ?thesis by (metis empty_iff empty_set)
    qed
  qed (use Cons.prems in simp)
qed simp

lemma first_result_None: "first_result f xs = Inr None \<Longrightarrow> x \<in> set xs \<Longrightarrow> f x = Inr None"
  by (induction xs) (auto simp: bindr_eq_Inr split: option.splits)

lemma first_result_Err: "first_result f xs = Inl e \<Longrightarrow> \<exists>x \<in> set xs. f x = Inl e"
  by (induction xs) (auto simp: bindr_eq_Inl split: option.splits)

lemma long_size_48: "long_size btf i = Inr (Some s) \<Longrightarrow> s = 4 \<or> s = 8"
  by (auto simp: long_size_def bindr_eq_Inr split: if_splits option.splits)

lemma long_size_no_err:
  assumes "btf_ok btf" "btf \<noteq> []" "i < btf__type_cnt btf"
  shows "\<exists>r. long_size btf i = Inr r"
proof -
  from type_at_ok [OF assms(1,3)] obtain t where t: "type_at btf i = Inr t" "tfits t" by blast
  from tfits_words [OF t(2)] obtain kind w0 w8 where w: "btf_kind t = Inr kind" "tword t 0 \<noteq> Inl UB" "tword t 8 \<noteq> Inl UB"
    by (auto simp: no_ub_def)
  have tw: "tword t k = Inl UB \<or> (\<exists>v. tword t k = Inr v)" for k
    by (cases t) (auto simp: tword_def rd_def)
  obtain name_off sz where v: "t_name_off t = Inr name_off" "t_size t = Inr sz"
    using tw [of 0] tw [of 8] w by (auto simp: t_name_off_def t_size_def)
  have "\<exists>n. type_name btf t = Inr n"
    using str_by_offset_cases [OF assms(1,2), of name_off]
    by (auto simp: type_name_def v btf__name_by_offset_def c_str_def)
  then show ?thesis using t(1) w(1) v by (auto simp: long_size_def split: option.splits)
qed

lemma determine_ptr_size_ok:
  assumes "btf_ok btf" "btf \<noteq> []"
  shows "\<exists>p. determine_ptr_size btf = Inr p \<and> p \<noteq> 0"
proof (cases "first_result (long_size btf) [1..<btf__type_cnt btf]")
  case (Inl e)
  from first_result_Err [OF Inl] long_size_no_err [OF assms] have False by fastforce
  then show ?thesis ..
next
  case (Inr r)
  show ?thesis
  proof (cases r)
    case None
    with Inr show ?thesis by (auto simp: determine_ptr_size_def)
  next
    case (Some s)
    with first_result_Some [of "long_size btf" _ s] Inr have "s = 4 \<or> s = 8" using long_size_48 by blast
    with Inr Some show ?thesis by (auto simp: determine_ptr_size_def)
  qed
qed

text \<open>The pointer size is positive, and filling the cache does not change it.\<close>

lemma ptr_sz_ok:
  assumes "btf_ok btf" "btf \<noteq> []"
  shows "\<exists>p. ptr_sz_value btf = Inr p \<and> 0 < p"
proof -
  obtain l base where btf: "btf = l # base" using assms(2) by (cases btf) auto
  from determine_ptr_size_ok [OF assms] obtain p where p: "determine_ptr_size btf = Inr p" "p \<noteq> 0" by blast
  then show ?thesis
    by (auto simp: ptr_sz_value_def btf_ptr_sz_def cache_ptr_size_def btf Let_def)
qed

lemma cache_ptr_size_facts:
  assumes "cache_ptr_size btf = Inr btf'" "btf_ok btf"
  shows "tl btf' = tl btf" "btf' \<noteq> []" "cache_ptr_size btf' = Inr btf'" "btf_ptr_size (hd btf') \<noteq> 0"
proof -
  obtain l base where btf: "btf = l # base" using assms(1) by (cases btf) (auto simp: cache_ptr_size_def)
  obtain p where p: "determine_ptr_size btf = Inr p" "p \<noteq> 0"
    using determine_ptr_size_ok [OF assms(2)] btf by auto
  have "btf' = (if btf_ptr_size l = 0 then l\<lparr>btf_ptr_size := p\<rparr> else l) # base"
    using assms(1) p by (auto simp: cache_ptr_size_def btf)
  then show "tl btf' = tl btf" "btf' \<noteq> []" "cache_ptr_size btf' = Inr btf'" "btf_ptr_size (hd btf') \<noteq> 0"
    using p(2) btf by (auto simp: cache_ptr_size_def)
qed

lemma ptr_sz_cached:
  assumes "btf_ok btf" "btf_ptr_sz btf = Inr (p, btf')"
  shows "ptr_sz_value btf = Inr p \<and> ptr_sz_value btf' = Inr p"
proof -
  from assms(2) obtain b where b: "cache_ptr_size btf = Inr b" "btf' = b"
    by (auto simp: btf_ptr_sz_def bindr_eq_Inr Let_def)
  from cache_ptr_size_facts [OF b(1) assms(1)] assms(2) b show ?thesis
    by (auto simp: ptr_sz_value_def btf_ptr_sz_def Let_def)
qed

section \<open>What the size of a type is\<close>

text \<open>The specification: modifiers are transparent, an array multiplies by its length.\<close>

inductive has_size :: "btf \<Rightarrow> nat \<Rightarrow> nat \<Rightarrow> nat \<Rightarrow> bool" for btf where
  has_size_sized: "type_at btf type_id = Inr t \<Longrightarrow> btf_kind t = Inr kind \<Longrightarrow> kind \<in> set sized_kinds \<Longrightarrow>
    t_size t = Inr s \<Longrightarrow> has_size btf 0 type_id s"
| has_size_ptr: "type_at btf type_id = Inr t \<Longrightarrow> btf_kind t = Inr BTF_KIND_PTR \<Longrightarrow>
    ptr_sz_value btf = Inr s \<Longrightarrow> has_size btf 0 type_id s"
| has_size_ref: "type_at btf type_id = Inr t \<Longrightarrow> btf_kind t = Inr kind \<Longrightarrow> kind \<in> set ref_kinds \<Longrightarrow>
    t_type t = Inr type_id' \<Longrightarrow> has_size btf d type_id' s \<Longrightarrow> has_size btf (Suc d) type_id s"
| has_size_array: "type_at btf type_id = Inr t \<Longrightarrow> btf_kind t = Inr BTF_KIND_ARRAY \<Longrightarrow>
    array_nelems t = Inr n \<Longrightarrow> array_type t = Inr type_id' \<Longrightarrow> has_size btf d type_id' s \<Longrightarrow>
    has_size btf (Suc d) type_id (n * s)"

inductive_cases has_size_sizedE: "has_size btf 0 type_id s"

lemmas kind_lists = sized_kinds_def ref_kinds_def skip_kinds_def

lemma type_at_Inr: "type_at btf type_id = Inr t \<longleftrightarrow> btf__type_by_id btf type_id = Inr (Some t)"
  by (auto simp: type_at_def deref_def bindr_eq_Inr split: option.splits)

lemma stop_Inr_False:
  "btf_type_is_void_or_null t0 = Inr False \<longleftrightarrow>
   (\<exists>t kind. t0 = Some t \<and> t \<noteq> Btf_Void \<and> btf_kind t = Inr kind \<and> kind \<noteq> BTF_KIND_FWD)"
  by (auto simp: btf_type_is_void_or_null_def bindr_eq_Inr split: option.splits if_splits)

lemma kind_not_void: "btf_kind t = Inr kind \<Longrightarrow> kind \<noteq> BTF_KIND_UNKN \<Longrightarrow> t \<noteq> Btf_Void"
  by (auto simp: void_fields)

lemma resolve_size_sound:
  assumes "resolve_size_loop fuel btf nelems t0 = Inr (m, s)" "0 \<le> s" "btf__type_by_id btf type_id = Inr t0"
  shows "\<exists>d < fuel. \<exists>tot. has_size btf d type_id tot \<and> m * nat s = nelems * tot"
  using assms(1,3)
proof (induction fuel arbitrary: nelems t0 type_id)
  case 0
  with assms(2) show ?case by simp
next
  case (Suc fuel)
  obtain stop where stop: "btf_type_is_void_or_null t0 = Inr stop"
    using Suc.prems(1) by (auto simp: bindr_eq_Inr)
  have "\<not> stop" using Suc.prems(1) assms(2) stop by auto
  with stop obtain t kind where t: "t0 = Some t" "btf_kind t = Inr kind"
    unfolding stop_Inr_False [symmetric] using stop stop_Inr_False [of t0] by auto
  have at: "type_at btf type_id = Inr t" using Suc.prems(2) t(1) by (simp add: type_at_Inr)
  have st: "btf_type_is_void_or_null (Some t) = Inr False" using stop \<open>\<not> stop\<close> t(1) by simp
  note pre = Suc.prems(1) [unfolded t(1) resolve_size_loop.simps st bindr_Inr if_False deref_def option.case t(2)]
  consider "kind \<in> set sized_kinds" | "kind = BTF_KIND_PTR" | "kind \<in> set ref_kinds"
    | "kind = BTF_KIND_ARRAY" | "kind \<notin> set sized_kinds \<union> set ref_kinds \<union> {BTF_KIND_PTR, BTF_KIND_ARRAY}"
    by blast
  then show ?case
  proof cases
    case 1
    with pre obtain s' where "t_size t = Inr s'" "m = nelems" "s = int s'" by (auto simp: bindr_eq_Inr)
    with has_size_sized [OF at t(2) 1] show ?thesis by auto
  next
    case 2
    with pre obtain s' where "ptr_sz_value btf = Inr s'" "m = nelems" "s = int s'"
      by (auto simp: bindr_eq_Inr kind_lists)
    with has_size_ptr [OF at] t(2) 2 show ?thesis by auto
  next
    case 3
    then have "kind \<notin> set sized_kinds" "kind \<noteq> BTF_KIND_PTR" by (auto simp: kind_lists)
    with pre 3 obtain id' t' where r: "t_type t = Inr id'" "btf__type_by_id btf id' = Inr t'"
      "resolve_size_loop fuel btf nelems t' = Inr (m, s)" by (auto simp: bindr_eq_Inr)
    from Suc.IH [OF r(3,2)] obtain d tot where
      "d < fuel" "has_size btf d id' tot" "m * nat s = nelems * tot" by blast
    with has_size_ref [OF at t(2) 3 r(1)] show ?thesis by (intro exI [of _ "Suc d"]) auto
  next
    case 4
    then have n: "kind \<notin> set sized_kinds" "kind \<noteq> BTF_KIND_PTR" "kind \<notin> set ref_kinds" by (auto simp: kind_lists)
    with pre 4 obtain n id' t' where r: "array_nelems t = Inr n" "array_type t = Inr id'"
      "\<not> (nelems \<noteq> 0 \<and> n > UINT32_MAX div nelems)" "btf__type_by_id btf id' = Inr t'"
      "resolve_size_loop fuel btf (nelems * n) t' = Inr (m, s)" by (auto simp: bindr_eq_Inr split: if_splits)
    from Suc.IH [OF r(5,4)] obtain d tot where
      d: "d < fuel" "has_size btf d id' tot" "m * nat s = nelems * n * tot" by blast
    have "has_size btf (Suc d) type_id (n * tot)"
      using has_size_array [OF at _ r(1,2) d(2)] t(2) 4 by simp
    with d show ?thesis by (intro exI [of _ "Suc d"]) (auto simp: mult.assoc)
  next
    case 5
    with pre show ?thesis by auto
  qed
qed

lemma loop_step:
  assumes "btf_kind t = Inr kind" "kind \<noteq> BTF_KIND_UNKN" "kind \<noteq> BTF_KIND_FWD"
  shows "btf_type_is_void_or_null (Some t) = Inr False" "deref (Some t) = Inr t"
  using assms kind_not_void [OF assms(1,2)] by (simp_all add: btf_type_is_void_or_null_def deref_def)

lemma room_for_array:
  fixes n nelems tot lim :: nat
  assumes "0 < n * tot" "nelems * (n * tot) \<le> lim" "0 < nelems"
  shows "n \<le> lim div nelems"
proof -
  have "n * nelems * 1 \<le> n * nelems * tot" using assms(1) by (intro mult_le_mono2) simp
  also have "\<dots> \<le> lim" using assms(2) by (simp add: ac_simps)
  finally have "n * nelems \<le> lim" by simp
  then show ?thesis using assms(3) by (simp add: less_eq_div_iff_mult_less_eq)
qed

lemma resolve_size_complete:
  assumes "has_size btf d type_id tot"
  shows "0 < tot \<Longrightarrow> 0 < nelems \<Longrightarrow> nelems * tot \<le> UINT32_MAX \<Longrightarrow> d < fuel \<Longrightarrow>
    btf__type_by_id btf type_id = Inr t0 \<Longrightarrow> (\<And>i. \<exists>t. btf__type_by_id btf i = Inr t) \<Longrightarrow>
    \<exists>m s. resolve_size_loop fuel btf nelems t0 = Inr (m, int s) \<and> m * s = nelems * tot \<and> 0 < m"
  using assms
proof (induction arbitrary: nelems fuel t0 rule: has_size.induct)
  case (has_size_sized type_id t kind s)
  then obtain fuel' where f: "fuel = Suc fuel'" by (cases fuel) auto
  have "t0 = Some t" "kind \<noteq> BTF_KIND_UNKN" "kind \<noteq> BTF_KIND_FWD"
    using has_size_sized by (auto simp: type_at_Inr kind_lists)
  with has_size_sized loop_step [of t kind] show ?case by (simp add: f)
next
  case (has_size_ptr type_id t s)
  then obtain fuel' where f: "fuel = Suc fuel'" by (cases fuel) auto
  have "t0 = Some t" using has_size_ptr by (auto simp: type_at_Inr)
  with has_size_ptr loop_step [of t BTF_KIND_PTR] show ?case by (simp add: f kind_lists)
next
  case (has_size_ref type_id t kind type_id' d s)
  then obtain fuel' where f: "fuel = Suc fuel'" "d < fuel'" by (cases fuel) auto
  have k: "t0 = Some t" "kind \<noteq> BTF_KIND_UNKN" "kind \<noteq> BTF_KIND_FWD" "kind \<notin> set sized_kinds" "kind \<noteq> BTF_KIND_PTR"
    using has_size_ref by (auto simp: type_at_Inr kind_lists)
  from has_size_ref.prems(6) [of type_id'] obtain t' where t': "btf__type_by_id btf type_id' = Inr t'" by blast
  from has_size_ref.IH [OF has_size_ref.prems(1-3) f(2) t' has_size_ref.prems(6)] has_size_ref k t'
    loop_step [of t kind] show ?case by (simp add: f)
next
  case (has_size_array type_id t n type_id' d s)
  then obtain fuel' where f: "fuel = Suc fuel'" "d < fuel'" by (cases fuel) auto
  have k: "t0 = Some t" using has_size_array by (auto simp: type_at_Inr)
  from has_size_array.prems(6) [of type_id'] obtain t' where t': "btf__type_by_id btf type_id' = Inr t'" by blast
  have n: "n \<le> UINT32_MAX div nelems" using room_for_array has_size_array.prems(1,2,3) by blast
  have p: "0 < s" "0 < nelems * n" "nelems * n * s \<le> UINT32_MAX"
    using has_size_array.prems(1,2,3) by (auto simp: mult.assoc)
  from has_size_array.IH [OF p f(2) t' has_size_array.prems(6)] has_size_array k t' n
    loop_step [of t BTF_KIND_ARRAY] show ?case by (simp add: f kind_lists mult.assoc)
qed

text \<open>Every word that the loop reads belongs to the type.\<close>

lemma array_words_safe:
  assumes "tfits t" "btf_kind t = Inr BTF_KIND_ARRAY"
  shows "no_ub (array_nelems t)" "no_ub (array_type t)"
  using tfits_words [OF assms(1)] assms(2) by (auto simp: array_nelems_def array_type_def)

lemma no_ub_deref: "no_ub (deref (Some t))"
  by (simp add: deref_def)

lemma no_ub_void_or_null: "(\<And>t'. t = Some t' \<Longrightarrow> tfits t') \<Longrightarrow> no_ub (btf_type_is_void_or_null t)"
  using tfits_kind(1) by (auto simp: btf_type_is_void_or_null_def intro!: safe_intros split: option.splits)

lemma type_by_id_fits: "btf_ok btf \<Longrightarrow> btf__type_by_id btf type_id = Inr (Some t) \<Longrightarrow> tfits t"
  using btf__type_by_id_cases [of btf type_id] by auto

lemma resolve_size_loop_safe:
  assumes "btf_ok btf" "btf \<noteq> []" "\<And>t. t0 = Some t \<Longrightarrow> tfits t"
  shows "no_ub (resolve_size_loop fuel btf nelems t0)"
  using assms(3)
proof (induction fuel arbitrary: nelems t0)
  case (Suc fuel)
  have nx: "no_ub (bindr (btf__type_by_id btf i) (resolve_size_loop fuel btf m))" for i m
    using assms(1) by (intro safe_intros Suc.IH) (auto dest: type_by_id_fits)
  have ptr: "no_ub (ptr_sz_value btf)" using ptr_sz_ok [OF assms(1,2)] by auto
  show ?case
  proof (cases t0)
    case None
    then show ?thesis by (simp add: btf_type_is_void_or_null_def)
  next
    case (Some t)
    then have t: "tfits t" using Suc.prems by simp
    show ?thesis
      unfolding resolve_size_loop.simps Some deref_def option.case bindr_Inr
      using t by (intro safe_intros tfits_safe nx ptr array_words_safe no_ub_void_or_null) auto
  qed
qed simp

lemma resolve_size_safe:
  assumes "btf_ok btf" "btf \<noteq> []"
  shows "no_ub (btf__resolve_size btf type_id)"
proof -
  have "no_ub (resolve_size_loop MAX_RESOLVE_DEPTH btf 1 t0)" if "btf__type_by_id btf type_id = Inr t0" for t0
    using that assms by (intro resolve_size_loop_safe) (auto dest: type_by_id_fits)
  then show ?thesis
    unfolding btf__resolve_size_def by (intro safe_intros) (auto intro!: safe_intros assms)
qed

lemma type_by_id_defined: "btf_ok btf \<Longrightarrow> \<exists>t. btf__type_by_id btf i = Inr t"
  using btf__type_by_id_cases [of btf i] by auto

lemma resolve_size_exact:
  assumes "btf_ok btf"
  shows "btf__resolve_size btf type_id = Inr tot \<Longrightarrow>
      tot \<le> UINT32_MAX \<and> (\<exists>d < MAX_RESOLVE_DEPTH. has_size btf d type_id tot)"
    and "has_size btf d type_id tot \<Longrightarrow> d < MAX_RESOLVE_DEPTH \<Longrightarrow> 0 < tot \<Longrightarrow> tot \<le> UINT32_MAX \<Longrightarrow>
      btf__resolve_size btf type_id = Inr tot"
proof -
  assume "btf__resolve_size btf type_id = Inr tot"
  then obtain t0 m s where r: "btf__type_by_id btf type_id = Inr t0"
    "resolve_size_loop MAX_RESOLVE_DEPTH btf 1 t0 = Inr (m, s)" "0 \<le> s" "tot = m * nat s"
    "m = 0 \<or> nat s \<le> UINT32_MAX div m"
    by (fastforce simp: btf__resolve_size_def bindr_eq_Inr not_less split: if_splits)
  from resolve_size_sound [OF r(2,3,1)] r(4) obtain d where "d < MAX_RESOLVE_DEPTH" "has_size btf d type_id tot"
    by auto
  moreover have "tot \<le> UINT32_MAX"
  proof (cases "m = 0")
    case False
    with r(5) have "nat s * m \<le> UINT32_MAX" by (simp add: less_eq_div_iff_mult_less_eq)
    then show ?thesis by (simp add: r(4) mult.commute)
  qed (simp add: r(4))
  ultimately show "tot \<le> UINT32_MAX \<and> (\<exists>d < MAX_RESOLVE_DEPTH. has_size btf d type_id tot)" by blast
next
  assume h: "has_size btf d type_id tot" "d < MAX_RESOLVE_DEPTH" "0 < tot" "tot \<le> UINT32_MAX"
  obtain t0 where t0: "btf__type_by_id btf type_id = Inr t0" using type_by_id_defined [OF assms] by blast
  from resolve_size_complete [OF h(1,3), of 1, OF _ _ h(2) t0] h(4) type_by_id_defined [OF assms]
  obtain m s where r: "resolve_size_loop MAX_RESOLVE_DEPTH btf 1 t0 = Inr (m, int s)" "m * s = tot" "0 < m"
    by auto
  then have "s \<le> UINT32_MAX div m"
    using h(4) by (simp add: less_eq_div_iff_mult_less_eq mult.commute)
  with t0 r show "btf__resolve_size btf type_id = Inr tot"
    by (simp add: btf__resolve_size_def)
qed

section \<open>Skipping modifiers: the specification\<close>

inductive skips_to :: "btf \<Rightarrow> nat \<Rightarrow> nat \<Rightarrow> nat \<Rightarrow> bool" for btf where
  skips_refl: "skips_to btf 0 type_id type_id"
| skips_step: "type_at btf type_id = Inr t \<Longrightarrow> btf_kind t = Inr kind \<Longrightarrow> kind \<in> set skip_kinds \<Longrightarrow>
    t_type t = Inr type_id' \<Longrightarrow> skips_to btf d type_id' type_id'' \<Longrightarrow> skips_to btf (Suc d) type_id type_id''"

text \<open>Where skipping ends: at a type that is neither void, a forward declaration nor a modifier.\<close>

definition plain_type :: "btf \<Rightarrow> nat \<Rightarrow> bool" where
  "plain_type btf type_id \<longleftrightarrow>
     (\<exists>t kind. type_at btf type_id = Inr t \<and> t \<noteq> Btf_Void \<and> btf_kind t = Inr kind \<and>
       kind \<noteq> BTF_KIND_FWD \<and> kind \<notin> set skip_kinds)"

lemma resolve_type_sound:
  assumes "resolve_type_loop left btf type_id t0 = Inr (left', type_id', t')"
    "btf__type_by_id btf type_id = Inr t0" "0 < left'" "btf_type_is_void_or_null t' = Inr False"
  shows "\<exists>d < left. skips_to btf d type_id type_id' \<and> plain_type btf type_id'"
  using assms(1,2)
proof (induction left arbitrary: t0 type_id)
  case 0
  with assms(3) show ?case by simp
next
  case (Suc left)
  obtain stop where stop: "btf_type_is_void_or_null t0 = Inr stop"
    using Suc.prems(1) by (auto simp: bindr_eq_Inr)
  show ?case
  proof (cases stop)
    case True
    with Suc.prems(1) stop assms(4) show ?thesis by simp
  next
    case False
    then obtain t kind where t: "t0 = Some t" "t \<noteq> Btf_Void" "btf_kind t = Inr kind" "kind \<noteq> BTF_KIND_FWD"
      using stop stop_Inr_False [of t0] by auto
    have at: "type_at btf type_id = Inr t" using Suc.prems(2) t(1) by (simp add: type_at_Inr)
    have st: "btf_type_is_void_or_null (Some t) = Inr False" using stop False t(1) by simp
    note pre = Suc.prems(1) [unfolded t(1) resolve_type_loop.simps st bindr_Inr if_False deref_def option.case t(3)]
    show ?thesis
    proof (cases "kind \<in> set skip_kinds")
      case False
      with pre have "type_id' = type_id" by simp
      with False at t skips_refl show ?thesis by (auto simp: plain_type_def)
    next
      case True
      with pre obtain i t'' where r: "t_type t = Inr i" "btf__type_by_id btf i = Inr t''"
        "resolve_type_loop left btf i t'' = Inr (left', type_id', t')" by (auto simp: bindr_eq_Inr)
      from Suc.IH [OF r(3,2)] obtain d where "d < left" "skips_to btf d i type_id'" "plain_type btf type_id'" by blast
      with skips_step [OF at t(3) True r(1)] show ?thesis by (intro exI [of _ "Suc d"]) auto
    qed
  qed
qed

lemma resolve_type_complete:
  assumes "skips_to btf d type_id type_id'"
  shows "plain_type btf type_id' \<Longrightarrow> d < left \<Longrightarrow> btf__type_by_id btf type_id = Inr t0 \<Longrightarrow>
    (\<And>i. \<exists>t. btf__type_by_id btf i = Inr t) \<Longrightarrow>
    \<exists>t. resolve_type_loop left btf type_id t0 = Inr (left - d, type_id', Some t) \<and>
      btf_type_is_void_or_null (Some t) = Inr False"
  using assms
proof (induction arbitrary: left t0 rule: skips_to.induct)
  case (skips_refl type_id)
  then obtain l where l: "left = Suc l" by (cases left) auto
  from skips_refl(1) obtain t kind where t: "type_at btf type_id = Inr t" "t \<noteq> Btf_Void" "btf_kind t = Inr kind"
    "kind \<noteq> BTF_KIND_FWD" "kind \<notin> set skip_kinds" by (auto simp: plain_type_def)
  with skips_refl show ?case by (simp add: l type_at_Inr btf_type_is_void_or_null_def deref_def)
next
  case (skips_step type_id t kind type_id' d type_id'')
  then obtain l where l: "left = Suc l" "d < l" by (cases left) auto
  have k: "kind \<noteq> BTF_KIND_UNKN" "kind \<noteq> BTF_KIND_FWD" using skips_step(3) by (auto simp: kind_lists)
  from skips_step.prems(4) [of type_id'] obtain t' where t': "btf__type_by_id btf type_id' = Inr t'" by blast
  from skips_step.IH [OF skips_step.prems(1) l(2) t' skips_step.prems(4)] t' skips_step loop_step [OF skips_step(2) k]
  show ?case by (auto simp: l(1) type_at_Inr)
qed

lemma resolve_type_loop_safe:
  assumes "btf_ok btf"
  shows "(\<And>t. t0 = Some t \<Longrightarrow> tfits t) \<Longrightarrow>
    (case resolve_type_loop left btf type_id t0 of Inl e \<Rightarrow> e \<noteq> UB | Inr (_, _, t) \<Rightarrow> \<forall>t'. t = Some t' \<longrightarrow> tfits t')"
proof (induction left arbitrary: t0 type_id)
  case (Suc left)
  show ?case
  proof (cases t0)
    case None
    then show ?thesis by (simp add: btf_type_is_void_or_null_def)
  next
    case (Some t)
    then have t: "tfits t" using Suc.prems by simp
    then obtain kind where k: "btf_kind t = Inr kind" "no_ub (t_type t)"
      using tfits_words [OF t] by (auto simp: t_type_def)
    have nx: "case bindr (btf__type_by_id btf i) (resolve_type_loop left btf i) of
        Inl e \<Rightarrow> e \<noteq> UB | Inr (_, _, t) \<Rightarrow> \<forall>t'. t = Some t' \<longrightarrow> tfits t'" for i
    proof -
      obtain t1 where t1: "btf__type_by_id btf i = Inr t1" using type_by_id_defined [OF assms] by blast
      have "t1 = Some t \<Longrightarrow> tfits t" for t using t1 type_by_id_fits [OF assms] by auto
      then show ?thesis unfolding t1 bindr_Inr by (rule Suc.IH)
    qed
    show ?thesis
      using nx k t by (cases "t_type t") (auto simp: Some btf_type_is_void_or_null_def deref_def no_ub_def)
  qed
qed simp

lemma resolve_type_safe:
  assumes "btf_ok btf"
  shows "no_ub (btf__resolve_type btf type_id)"
proof -
  obtain t0 where t0: "btf__type_by_id btf type_id = Inr t0" using type_by_id_defined [OF assms] by blast
  have "t0 = Some t \<Longrightarrow> tfits t" for t using t0 type_by_id_fits [OF assms] by auto
  then have l: "case resolve_type_loop MAX_RESOLVE_DEPTH btf type_id t0 of
      Inl e \<Rightarrow> e \<noteq> UB | Inr (_, _, t) \<Rightarrow> \<forall>t'. t = Some t' \<longrightarrow> tfits t'"
    by (rule resolve_type_loop_safe [OF assms])
  have "no_ub (bindr (btf_type_is_void_or_null t) (\<lambda>v. if v then Inl (Err EINVAL) else Inr i))"
    if "\<forall>t'. t = Some t' \<longrightarrow> tfits t'" for t and i :: nat
    using that by (intro safe_intros no_ub_void_or_null) auto
  with l show ?thesis
    by (cases "resolve_type_loop MAX_RESOLVE_DEPTH btf type_id t0")
      (auto simp: btf__resolve_type_def t0 no_ub_def [of "Inl _"])
qed

lemma resolve_type_iff:
  assumes "btf_ok btf"
  shows "btf__resolve_type btf type_id = Inr r \<longleftrightarrow>
    (\<exists>d < MAX_RESOLVE_DEPTH. skips_to btf d type_id r \<and> plain_type btf r)"
proof
  assume "btf__resolve_type btf type_id = Inr r"
  then obtain t0 left' t' where "btf__type_by_id btf type_id = Inr t0"
    "resolve_type_loop MAX_RESOLVE_DEPTH btf type_id t0 = Inr (left', r, t')" "0 < left'"
    "btf_type_is_void_or_null t' = Inr False"
    by (auto simp: btf__resolve_type_def bindr_eq_Inr split: if_splits)
  then show "\<exists>d < MAX_RESOLVE_DEPTH. skips_to btf d type_id r \<and> plain_type btf r"
    by (intro resolve_type_sound) auto
next
  assume "\<exists>d < MAX_RESOLVE_DEPTH. skips_to btf d type_id r \<and> plain_type btf r"
  then obtain d where d: "d < MAX_RESOLVE_DEPTH" "skips_to btf d type_id r" "plain_type btf r" by blast
  obtain t0 where t0: "btf__type_by_id btf type_id = Inr t0" using type_by_id_defined [OF assms] by blast
  from resolve_type_complete [OF d(2,3,1) t0] type_by_id_defined [OF assms] t0 d(1)
  show "btf__resolve_type btf type_id = Inr r" by (auto simp: btf__resolve_type_def)
qed

section \<open>Alignment: the recursion\<close>

text \<open>The types for which the alignment of a type is computed by a recursive call.\<close>

definition align_ref :: "btf \<Rightarrow> nat \<Rightarrow> nat \<Rightarrow> bool" where
  "align_ref btf type_id r \<longleftrightarrow>
     (\<exists>t kind. type_at btf type_id = Inr t \<and> btf_kind t = Inr kind \<and>
        (kind \<in> set [BTF_KIND_TYPEDEF, BTF_KIND_VOLATILE, BTF_KIND_CONST, BTF_KIND_RESTRICT, BTF_KIND_TYPE_TAG]
           \<and> t_type t = Inr r \<or>
         kind = BTF_KIND_ARRAY \<and> array_type t = Inr r \<or>
         (kind = BTF_KIND_STRUCT \<or> kind = BTF_KIND_UNION) \<and>
           (\<exists>n. btf_vlen t = Inr n \<and> (\<exists>i < n. member_type t i = Inr r))))"

lemma validate_id_Inr: "btf_ok btf \<Longrightarrow> btf_validate_id btf r = Inr u \<Longrightarrow> r < btf__type_cnt btf"
  using btf__type_by_id_cases [of btf r] by (auto simp: btf_validate_id_def)

text \<open>The checks of \<open>btf_new\<close>, for the types that a query meets.\<close>

lemma type_checked:
  assumes "btf_ok btf" "btf_sanity_check btf = Inr ()" "type_at btf type_id = Inr t" "btf_kind t = Inr kind"
  shows "type_id = 0 \<and> t = Btf_Void \<or> check_kind btf t kind = Inr ()"
proof (cases "type_id = 0")
  case True
  with assms(3) have "t = Btf_Void"
    by (cases btf) (auto simp: type_at_Inr btf__type_by_id_def bindr_eq_Inr split: if_splits)
  with True show ?thesis by simp
next
  case False
  from btf__type_by_id_cases [OF assms(1), of type_id] assms(3)
  have bt: "btf_type_by_id btf type_id = Inr t" and lt: "type_id < btf__type_cnt btf" by (auto simp: type_at_Inr)
  have i: "type_id - 1 < btf__type_cnt btf - 1" "type_id - 1 + 1 = type_id" using False lt by auto
  with assms(2) have "bindr (btf_type_by_id btf type_id) (btf_validate_type btf) = Inr ()"
    unfolding btf_sanity_check_def check_all_Inr by metis
  then show ?thesis by (auto simp: bt btf_validate_type_def bindr_eq_Inr assms(4))
qed

lemma align_ref_valid:
  assumes "btf_ok btf" "btf_sanity_check btf = Inr ()" "align_ref btf type_id r"
  shows "r < btf__type_cnt btf"
proof -
  from assms(3) obtain t kind where t: "type_at btf type_id = Inr t" "btf_kind t = Inr kind"
    by (auto simp: align_ref_def)
  have "t \<noteq> Btf_Void" using assms(3) t by (auto simp: align_ref_def void_fields)
  with type_checked [OF assms(1,2) t] have ck: "check_kind btf t kind = Inr ()" by simp
  from assms(3) t have "btf_validate_id btf r = Inr ()"
    using ck by (auto simp: align_ref_def check_kind_def bindr_eq_Inr check_all_Inr check_type_def
        member_type_def array_type_def add.assoc; fastforce)
  then show ?thesis using validate_id_Inr assms(1) by blast
qed

lemma kflag_ok: "btf_kind t = Inr kind \<Longrightarrow> \<exists>b. btf_kflag t = Inr b"
  by (auto simp: btf_kind_def btf_kflag_def bindr_eq_Inr)

lemma align_members_result:
  assumes "btf_kind t = Inr kind"
    and "\<And>i. i \<in> set is \<Longrightarrow> \<exists>mt a off. member_type t i = Inr mt \<and> rec mt = Inr (Some a) \<and> a \<le> p \<and> member_offset t i = Inr off"
    and "0 < m" "m \<le> p"
  shows "\<exists>s. align_members rec t is m = Inr (Some s) \<and> (\<forall>a. s = Al_Max a \<longrightarrow> 0 < a \<and> a \<le> p)"
  using assms(2-)
proof (induction "is" arbitrary: m)
  case (Cons i "is")
  from Cons.prems(1) [of i] obtain mt a off where i: "member_type t i = Inr mt" "rec mt = Inr (Some a)" "a \<le> p"
    "member_offset t i = Inr off" by auto
  from kflag_ok [OF assms(1)] i(4) obtain b where b: "btf_member_bitfield_size t i = Inr b"
    by (fastforce simp: btf_member_bitfield_size_def split: if_splits)
  have "\<exists>s. align_members rec t is (max m a) = Inr (Some s) \<and> (\<forall>a. s = Al_Max a \<longrightarrow> 0 < a \<and> a \<le> p)"
    using Cons.prems i(3) by (intro Cons.IH) auto
  then show ?case by (auto simp: i b)
qed simp

lemma tword_cases: "tword t k = Inl UB \<or> (\<exists>v. tword t k = Inr v)"
  by (cases t) (auto simp: tword_def rd_def)

lemma no_ub_tword: "no_ub (tword t k) \<Longrightarrow> \<exists>v. tword t k = Inr v"
  using tword_cases [of t k] by (auto simp: no_ub_def)

lemma composite_words:
  assumes "tfits t" "btf_kind t = Inr kind" "kind = BTF_KIND_STRUCT \<or> kind = BTF_KIND_UNION" "btf_vlen t = Inr n" "i < n"
  shows "\<exists>mt off. member_type t i = Inr mt \<and> member_offset t i = Inr off"
proof -
  from tfits_words [OF assms(1)] assms(2-4) have w: "\<And>k. k + 4 \<le> 12 + 4 * (n * 3) \<Longrightarrow> no_ub (tword t k)"
    by auto
  have "12 + i * 12 + k + 4 \<le> 12 + 4 * (n * 3)" if "k \<le> 8" for k
    using element_inside [OF assms(5), of k 12] that by simp
  from this [of 4] this [of 8] show ?thesis
    using no_ub_tword w unfolding member_type_def member_offset_def by auto
qed

lemma align_of_result:
  assumes ok: "btf_ok btf" "btf \<noteq> []" "btf_sanity_check btf = Inr ()"
    and rank: "\<And>i r. align_ref btf i r \<Longrightarrow> rank r < rank i" and p: "ptr_sz_value btf = Inr p"
  shows "type_id < btf__type_cnt btf \<Longrightarrow> rank type_id < fuel \<Longrightarrow>
    \<exists>a \<le> p. btf__align_of fuel btf type_id = Inr (Some a)"
proof (induction fuel arbitrary: type_id)
  case (Suc fuel)
  have p0: "1 \<le> p" using ptr_sz_ok [OF ok(1,2)] p by auto
  from type_at_ok [OF ok(1) Suc.prems(1)] obtain t where t: "type_at btf type_id = Inr t" "tfits t" by blast
  from tfits_words [OF t(2)] obtain kind n ty where k: "btf_kind t = Inr kind" "btf_vlen t = Inr n" "tword t 8 = Inr ty"
    using no_ub_tword by blast
  have rec: "\<exists>a \<le> p. btf__align_of fuel btf r = Inr (Some a)" if "align_ref btf type_id r" for r
    using align_ref_valid [OF ok(1,3) that] rank [OF that] Suc.prems(2) by (intro Suc.IH) auto
  consider "kind \<in> set [BTF_KIND_INT, BTF_KIND_ENUM, BTF_KIND_ENUM64, BTF_KIND_FLOAT, BTF_KIND_PTR]"
    | "kind \<in> set [BTF_KIND_TYPEDEF, BTF_KIND_VOLATILE, BTF_KIND_CONST, BTF_KIND_RESTRICT, BTF_KIND_TYPE_TAG]"
    | "kind = BTF_KIND_ARRAY" | "kind = BTF_KIND_STRUCT \<or> kind = BTF_KIND_UNION"
    | "kind \<notin> set [BTF_KIND_INT, BTF_KIND_ENUM, BTF_KIND_ENUM64, BTF_KIND_FLOAT, BTF_KIND_PTR,
        BTF_KIND_TYPEDEF, BTF_KIND_VOLATILE, BTF_KIND_CONST, BTF_KIND_RESTRICT, BTF_KIND_TYPE_TAG,
        BTF_KIND_ARRAY, BTF_KIND_STRUCT, BTF_KIND_UNION]" by auto
  then show ?case
  proof cases
    case 1
    then show ?thesis using t k p by (auto simp: t_size_def)
  next
    case 2
    with t k have "align_ref btf type_id ty" by (auto simp: align_ref_def t_type_def)
    from rec [OF this] 2 t k show ?thesis by (auto simp: t_type_def)
  next
    case 3
    with array_words_safe [OF t(2)] k(1) no_ub_tword obtain r where r: "array_type t = Inr r"
      unfolding array_type_def by blast
    with t k 3 have "align_ref btf type_id r" by (auto simp: align_ref_def)
    from rec [OF this] 3 t k r show ?thesis by auto
  next
    case 4
    have "\<exists>mt a off. member_type t i = Inr mt \<and> btf__align_of fuel btf mt = Inr (Some a) \<and> a \<le> p \<and> member_offset t i = Inr off"
      if "i \<in> set [0..<n]" for i
    proof -
      from that have "i < n" by simp
      from composite_words [OF t(2) k(1) 4 k(2) this] obtain mt off where
        m: "member_type t i = Inr mt" "member_offset t i = Inr off" by blast
      with t k 4 that have "align_ref btf type_id mt" by (auto simp: align_ref_def)
      from rec [OF this] m show ?thesis by auto
    qed
    note members = this
    have "\<exists>s. align_members (btf__align_of fuel btf) t [0..<n] 1 = Inr (Some s) \<and> (\<forall>a. s = Al_Max a \<longrightarrow> 0 < a \<and> a \<le> p)"
      using p0 by (intro align_members_result [OF k(1)] members) auto
    then obtain s where
      s: "align_members (btf__align_of fuel btf) t [0..<n] 1 = Inr (Some s)" "\<forall>a. s = Al_Max a \<longrightarrow> 0 < a \<and> a \<le> p" by blast
    then have "\<exists>a \<le> p. align_composite (btf__align_of fuel btf) t = Inr (Some a)"
      using p0 k by (cases s) (auto simp: align_composite_def t_size_def)
    with 4 t k show ?thesis by auto
  next
    case 5
    with t k show ?thesis by auto
  qed
qed simp

section \<open>Search\<close>

definition named :: "btf \<Rightarrow> btf_kind option \<Rightarrow> u8 list \<Rightarrow> nat \<Rightarrow> bool" where
  "named btf kind name i \<longleftrightarrow>
     (\<exists>t. type_at btf i = Inr t \<and> type_name btf t = Inr (Some name) \<and> (\<forall>k. kind = Some k \<longrightarrow> btf_kind t = Inr k))"

lemma type_name_defined:
  assumes "btf_ok btf" "btf \<noteq> []" "tfits t"
  shows "\<exists>n. type_name btf t = Inr n"
proof -
  have "no_ub (tword t 0)" using tfits_words [OF assms(3)] by blast
  then obtain name_off where v: "t_name_off t = Inr name_off"
    using no_ub_tword unfolding t_name_off_def by blast
  show ?thesis
    using str_by_offset_cases [OF assms(1,2), of name_off]
    by (auto simp: type_name_def v btf__name_by_offset_def c_str_def)
qed

lemma match_name_ok:
  assumes "btf_ok btf" "btf \<noteq> []" "i < btf__type_cnt btf"
  shows "match_name btf name i = Inr (if named btf None name i then Some i else None)"
    "match_name_kind btf name kind i = Inr (if named btf (Some kind) name i then Some i else None)"
proof -
  from type_at_ok [OF assms(1,3)] obtain t where t: "type_at btf i = Inr t" "tfits t" by blast
  from type_name_defined [OF assms(1,2) t(2)] tfits_words [OF t(2)] obtain n k where
    "type_name btf t = Inr n" "btf_kind t = Inr k" by blast
  with t(1) show "match_name btf name i = Inr (if named btf None name i then Some i else None)"
    "match_name_kind btf name kind i = Inr (if named btf (Some kind) name i then Some i else None)"
    by (auto simp: match_name_def match_name_kind_def named_def)
qed

text \<open>A search over a range of type numbers gives the first match.\<close>

lemma find_spec:
  assumes "\<And>i. i < n \<Longrightarrow> f i = Inr (if P i then Some i else None)"
  shows "case bindr (first_result f [a..<n]) (\<lambda>r. case r of None \<Rightarrow> Inl (Err ENOENT) | Some i \<Rightarrow> Inr i) of
      Inl e \<Rightarrow> e = Err ENOENT \<and> (\<forall>i. a \<le> i \<and> i < n \<longrightarrow> \<not> P i)
    | Inr r \<Rightarrow> a \<le> r \<and> r < n \<and> P r \<and> (\<forall>i. a \<le> i \<and> i < r \<longrightarrow> \<not> P i)"
proof (induction "n - a" arbitrary: a)
  case 0
  then show ?case by auto
next
  case (Suc d)
  then have a: "a < n" "[a..<n] = a # [Suc a..<n]" "d = n - Suc a" by (simp_all add: upt_rec)
  have split: "(\<forall>i. a \<le> i \<and> i < m \<longrightarrow> \<not> P i) \<longleftrightarrow> (\<forall>i. Suc a \<le> i \<and> i < m \<longrightarrow> \<not> P i)" if "\<not> P a" for m
    using that by (metis Suc_leD Suc_leI le_neq_implies_less)
  show ?case
  proof (cases "P a")
    case True
    with a assms show ?thesis by auto
  next
    case False
    have "bindr (first_result f [a..<n]) (\<lambda>r. case r of None \<Rightarrow> Inl (Err ENOENT) | Some i \<Rightarrow> Inr i) =
      bindr (first_result f [Suc a..<n]) (\<lambda>r. case r of None \<Rightarrow> Inl (Err ENOENT) | Some i \<Rightarrow> Inr i)"
      using a(1) assms False by (simp add: a(2))
    with Suc.hyps(1) [OF a(3)] split [OF False] show ?thesis
      by (auto split: sum.splits)
  qed
qed

text \<open>
  An object to evaluate the queries on: \<open>long\<close> of eight bytes, \<open>t\<close> a typedef for it, and an array of
  three \<open>t\<close>; its last string is an access string.
\<close>

definition sample_types :: "u8 list" where
  "sample_types =
    [1, 0, 0, 0, 0, 0, 0, 1, 8, 0, 0, 0, 64, 0, 0, 0,
     6, 0, 0, 0, 0, 0, 0, 8, 1, 0, 0, 0,
     0, 0, 0, 0, 0, 0, 0, 3, 0, 0, 0, 0, 2, 0, 0, 0, 1, 0, 0, 0, 3, 0, 0, 0]"

definition sample_btf :: btf where
  "sample_btf = [\<lparr>btf_types = sample_types, btf_type_offs = [0, 16, 28], btf_start_id = 1,
     btf_start_str_off = 0, btf_strs = 0 # asc ''long'' @ [0] @ asc ''t'' @ [0] @ asc ''0:2'' @ [0],
     btf_swapped_endian = False, btf_ptr_size = 0\<rparr>]"

lemmas type_eval = btf_type_size_def btf_vlen_def btf_kind_def tword_def rd_def btf_kind_of_def btf_kinds_def
  t_type_def t_size_def t_name_off_def array_type_def array_nelems_def

lemma sample_info:
  "btf_kind (Type_At sample_types 0) = Inr BTF_KIND_INT" "t_size (Type_At sample_types 0) = Inr 8"
  "btf_kind (Type_At sample_types 16) = Inr BTF_KIND_TYPEDEF" "t_type (Type_At sample_types 16) = Inr 1"
  "btf_kind (Type_At sample_types 28) = Inr BTF_KIND_ARRAY" "array_type (Type_At sample_types 28) = Inr 2"
  "array_nelems (Type_At sample_types 28) = Inr 3"
  "btf_type_size (Type_At sample_types 0) = Inr 16" "btf_type_size (Type_At sample_types 16) = Inr 12"
  "btf_type_size (Type_At sample_types 28) = Inr 24"
  by (simp_all add: type_eval sample_types_def)

lemma sample_ok: "btf_ok sample_btf" "sample_btf \<noteq> []" "btf__type_cnt sample_btf = 4"
  by (simp_all add: sample_btf_def layer_ok_def btf__type_cnt_def sample_info) (simp add: sample_types_def)

lemma sample_at:
  "type_at sample_btf 1 = Inr (Type_At sample_types 0)" "type_at sample_btf 2 = Inr (Type_At sample_types 16)"
  "type_at sample_btf 3 = Inr (Type_At sample_types 28)" "type_at sample_btf 0 = Inr Btf_Void"
  by (simp_all add: sample_btf_def type_at_def btf__type_by_id_def btf__type_cnt_def deref_def)

section \<open>Properties\<close>

text \<open>
  Property C17: on a parsed object the size of a type is exact.  The query is never undefined; a
  number that it returns is below 2 ^ 32 and is the size of the type (the product of the array
  lengths on the way times the size of the type at the end), and it does return the size whenever
  that is positive, below 2 ^ 32 and fewer than 32 references away.
\<close>

theorem btf_resolve_size_exact:
  assumes "btf_ok btf" "btf \<noteq> []"
  shows "btf__resolve_size btf type_id \<noteq> Inl UB \<and>
    (\<forall>s. btf__resolve_size btf type_id = Inr s \<longrightarrow>
       s < 2 ^ 32 \<and> (\<exists>d < MAX_RESOLVE_DEPTH. has_size btf d type_id s)) \<and>
    (\<forall>s d. has_size btf d type_id s \<and> d < MAX_RESOLVE_DEPTH \<and> 0 < s \<and> s < 2 ^ 32 \<longrightarrow>
       btf__resolve_size btf type_id = Inr s)"
proof -
  have "s < 2 ^ 32 \<longleftrightarrow> s \<le> UINT32_MAX" for s by (auto simp: UINT32_MAX_def)
  with resolve_size_exact [OF assms(1)] resolve_size_safe [OF assms, of type_id] show ?thesis
    unfolding no_ub_def by blast
qed

theorem btf_resolve_size_exact_witness:
  "btf__resolve_size sample_btf 3 = Inr 24"
proof -
  have at: "type_at sample_btf 3 = Inr (Type_At sample_types 28)" "type_at sample_btf 2 = Inr (Type_At sample_types 16)"
    "type_at sample_btf 1 = Inr (Type_At sample_types 0)" by (rule sample_at)+
  have "has_size sample_btf 0 1 8"
    by (rule has_size_sized [OF at(3) sample_info(1) _ sample_info(2)]) (simp add: sized_kinds_def)
  then have "has_size sample_btf (Suc 0) 2 8"
    by (rule has_size_ref [OF at(2) sample_info(3) _ sample_info(4), rotated]) (simp add: ref_kinds_def)
  then have "has_size sample_btf (Suc (Suc 0)) 3 (3 * 8)"
    by (rule has_size_array [OF at(1) sample_info(5,7,6)])
  then have "has_size sample_btf (Suc (Suc 0)) 3 24" by simp
  with btf_resolve_size_exact [OF sample_ok(1,2), of 3, THEN conjunct2, THEN conjunct2, rule_format, of "Suc (Suc 0)" 24]
  show ?thesis by (simp add: MAX_RESOLVE_DEPTH_def)
qed

text \<open>
  Skipping modifiers is exact: the query is never undefined on a parsed object, and
  it returns a type number if and only if that is where fewer than 32 typedefs, qualifiers, tags
  and variables lead from the given type, and that is neither void nor a forward declaration.
\<close>

theorem btf_resolve_type_exact:
  assumes "btf_ok btf"
  shows "btf__resolve_type btf type_id \<noteq> Inl UB \<and>
    (\<forall>r. btf__resolve_type btf type_id = Inr r \<longleftrightarrow>
       (\<exists>d < MAX_RESOLVE_DEPTH. skips_to btf d type_id r \<and> plain_type btf r))"
  using resolve_type_iff [OF assms, of type_id] resolve_type_safe [OF assms, of type_id]
  by (simp add: no_ub_def)

theorem btf_resolve_type_exact_witness:
  "btf__resolve_type sample_btf 2 = Inr 1"
proof -
  have "skips_to sample_btf (Suc 0) 2 1"
    by (rule skips_step [OF sample_at(2) sample_info(3) _ sample_info(4) skips_refl]) (simp add: skip_kinds_def)
  moreover have "plain_type sample_btf 1"
    unfolding plain_type_def using sample_at(1) sample_info(1) by (auto simp: skip_kinds_def)
  moreover have "Suc 0 < MAX_RESOLVE_DEPTH" by (simp add: MAX_RESOLVE_DEPTH_def)
  ultimately show ?thesis
    using btf_resolve_type_exact [OF sample_ok(1), of 2] by blast
qed

text \<open>
  A search by name and kind gives the first type, from the start of the search on,
  that has the name and the kind, and fails with ENOENT only when there is none.
\<close>

theorem btf_find_by_name_kind_first:
  assumes "btf_ok btf" "btf \<noteq> []"
  shows "case btf_find_by_name_kind btf start_id name kind of
      Inl e \<Rightarrow> e = Err ENOENT \<and>
        (\<forall>i. start_id \<le> i \<and> i < btf__type_cnt btf \<longrightarrow> \<not> named btf (Some kind) name i)
    | Inr r \<Rightarrow> (kind = BTF_KIND_UNKN \<or> name = asc ''void'') \<and> r = 0 \<or>
        start_id \<le> r \<and> r < btf__type_cnt btf \<and> named btf (Some kind) name r \<and>
        (\<forall>i. start_id \<le> i \<and> i < r \<longrightarrow> \<not> named btf (Some kind) name i)"
  using find_spec [of "btf__type_cnt btf" "match_name_kind btf name kind" "named btf (Some kind) name" start_id]
    match_name_ok(2) [OF assms]
  by (auto simp: btf_find_by_name_kind_def split: sum.splits)

theorem btf_find_by_name_kind_first_witness:
  "btf_find_by_name_kind sample_btf 1 (asc ''t'') BTF_KIND_TYPEDEF = Inr 2"
proof -
  have "t_name_off (Type_At sample_types 16) = Inr 6" by (simp add: type_eval sample_types_def)
  then have "type_name sample_btf (Type_At sample_types 16) = Inr (Some (asc ''t''))"
    by (simp add: type_name_def btf__name_by_offset_def sample_btf_def c_str_def terminated_def cstr_at_def asc_def)
  with sample_at(2) sample_info(3) have n: "named sample_btf (Some BTF_KIND_TYPEDEF) (asc ''t'') 2"
    by (auto simp: named_def)
  have "\<not> named sample_btf (Some BTF_KIND_TYPEDEF) name i" if "i \<noteq> 2" "i < 4" for name i
  proof -
    from that have "i = 0 \<or> i = 1 \<or> i = 3" by auto
    then show ?thesis using sample_at sample_info by (auto simp: named_def void_fields)
  qed
  with n btf_find_by_name_kind_first [OF sample_ok(1,2), where start_id = 1 and name = "asc ''t''" and kind = BTF_KIND_TYPEDEF] show ?thesis
    by (cases "btf_find_by_name_kind sample_btf 1 (asc ''t'') BTF_KIND_TYPEDEF")
      (auto simp: sample_ok(3) asc_def)
qed

text \<open>
  When no type contains itself through the references that matter for alignment, the
  recursion for the alignment returns, and the result is at most the pointer size.  One more level
  of recursion than the depth of the type is enough.
\<close>

theorem btf_align_of_returns:
  assumes "btf_ok btf" "btf \<noteq> []" "btf_sanity_check btf = Inr ()"
    and "\<forall>i r. align_ref btf i r \<longrightarrow> rank r < rank i"
    and "type_id < btf__type_cnt btf" "rank type_id < fuel"
  shows "\<exists>a p. btf__align_of fuel btf type_id = Inr (Some a) \<and> ptr_sz_value btf = Inr p \<and> a \<le> p"
proof -
  from ptr_sz_ok [OF assms(1,2)] obtain p where p: "ptr_sz_value btf = Inr p" by blast
  have "\<exists>a \<le> p. btf__align_of fuel btf type_id = Inr (Some a)"
    using assms(4) by (intro align_of_result [where rank = rank] assms p) auto
  with p show ?thesis by blast
qed

lemma sample_sane: "btf_sanity_check sample_btf = Inr ()"
proof -
  have n: "t_name_off (Type_At sample_types 0) = Inr 1" "t_name_off (Type_At sample_types 16) = Inr 6"
    "t_name_off (Type_At sample_types 28) = Inr 0" "btf_vlen (Type_At sample_types 28) = Inr 0"
    "btf_vlen (Type_At sample_types 0) = Inr 0" "btf_vlen (Type_At sample_types 16) = Inr 0"
    "tword (Type_At sample_types 28) 12 = Inr 2" "tword (Type_At sample_types 28) 16 = Inr 1"
    by (simp_all add: type_eval sample_types_def)
  have id: "btf_validate_id sample_btf 1 = Inr ()" "btf_validate_id sample_btf 2 = Inr ()"
    using sample_at by (simp_all add: type_at_Inr btf_validate_id_def)
  have str: "btf_validate_str sample_btf 0 = Inr ()" "btf_validate_str sample_btf 1 = Inr ()"
    "btf_validate_str sample_btf 6 = Inr ()"
    by (simp_all add: btf_validate_str_def sample_btf_def asc_def)
  have v: "btf_validate_type sample_btf (Type_At sample_types 0) = Inr ()"
    "btf_validate_type sample_btf (Type_At sample_types 16) = Inr ()"
    "btf_validate_type sample_btf (Type_At sample_types 28) = Inr ()"
    using n id str sample_info by (simp_all add: btf_validate_type_def check_kind_def check_type_def)
  have "btf_type_by_id sample_btf (i + 1) = Inr (Type_At sample_types ([0, 16, 28] ! i))" if "i < 3" for i
    using that by (simp add: sample_btf_def)
  with v have "bindr (btf_type_by_id sample_btf (i + 1)) (btf_validate_type sample_btf) = Inr ()" if "i < 3" for i
    using that by (auto simp: less_Suc_eq numeral_3_eq_3)
  then show ?thesis by (simp add: btf_sanity_check_def check_all_Inr sample_ok(3))
qed

theorem btf_align_of_returns_witness:
  "\<exists>a \<le> 8. btf__align_of 4 sample_btf 3 = Inr (Some a)"
proof -
  have "r < i" if "align_ref sample_btf i r" for i r
  proof -
    from that obtain t where "type_at sample_btf i = Inr t" by (auto simp: align_ref_def)
    then have "i < 4" using sample_ok(3) by (auto simp: type_at_Inr btf__type_by_id_def split: if_splits)
    then have "i = 0 \<or> i = 1 \<or> i = 2 \<or> i = 3" by auto
    then show ?thesis using that sample_at sample_info by (auto simp: align_ref_def void_fields)
  qed
  with btf_align_of_returns [OF sample_ok(1,2) sample_sane, of id 3 4] obtain a p where
    a: "btf__align_of 4 sample_btf 3 = Inr (Some a)" "ptr_sz_value sample_btf = Inr p" "a \<le> p"
    by (auto simp: sample_ok(3))
  have "long_size sample_btf 1 = Inr (Some 8)"
  proof -
    have "t_name_off (Type_At sample_types 0) = Inr 1" by (simp add: type_eval sample_types_def)
    then have "type_name sample_btf (Type_At sample_types 0) = Inr (Some (asc ''long''))"
      by (simp add: type_name_def btf__name_by_offset_def sample_btf_def c_str_def terminated_def cstr_at_def asc_def)
    then show ?thesis using sample_at(1) sample_info(1,2) by (simp add: long_size_def long_aliases_def)
  qed
  then have "determine_ptr_size sample_btf = Inr 8"
    using sample_ok(3) by (simp add: determine_ptr_size_def upt_rec) (simp add: sample_btf_def)
  then have "p = 8" using a(2)
    by (auto simp: ptr_sz_value_def btf_ptr_sz_def cache_ptr_size_def Let_def sample_btf_def bindr_eq_Inr)
  with a show ?thesis by auto
qed

text \<open>
  The recursion for the alignment has no bound on its depth: an object that parses
  without an error may hold a typedef that refers to itself, and then the query never returns,
  with any depth of recursion, where the query for the size reports an error.
\<close>

definition cyclic_bytes :: "u8 list" where
  "cyclic_bytes = [0x9F, 0xeB, 1, 0, 24, 0, 0, 0, 0, 0, 0, 0, 12, 0, 0, 0, 12, 0, 0, 0, 3, 0, 0, 0,
     1, 0, 0, 0, 0, 0, 0, 8, 1, 0, 0, 0, 0, 116, 0]"

definition cyclic_btf :: btf where
  "cyclic_btf = [\<lparr>btf_types = [1, 0, 0, 0, 0, 0, 0, 8, 1, 0, 0, 0], btf_type_offs = [0], btf_start_id = 1,
     btf_start_str_off = 0, btf_strs = [0, 116, 0], btf_swapped_endian = False, btf_ptr_size = 0\<rparr>]"

lemma cyclic_at:
  "type_at cyclic_btf 1 = Inr (Type_At [1, 0, 0, 0, 0, 0, 0, 8, 1, 0, 0, 0] 0)"
  "btf_kind (Type_At [1, 0, 0, 0, 0, 0, 0, 8, 1, 0, 0, 0] 0) = Inr BTF_KIND_TYPEDEF"
  "t_type (Type_At [1, 0, 0, 0, 0, 0, 0, 8, 1, 0, 0, 0] 0) = Inr 1"
  "t_name_off (Type_At [1, 0, 0, 0, 0, 0, 0, 8, 1, 0, 0, 0] 0) = Inr 1"
  "btf_vlen (Type_At [1, 0, 0, 0, 0, 0, 0, 8, 1, 0, 0, 0] 0) = Inr 0"
  by (simp_all add: cyclic_btf_def type_at_def btf__type_by_id_def btf__type_cnt_def deref_def type_eval)

lemma parse_types_end:
  "\<not> next + 12 \<le> length types \<Longrightarrow> parse_types_loop fuel mem swapped types next offs = Inr (types, next, offs)"
  by (cases fuel) auto

lemma cyclic_loops:
  "btf__align_of fuel cyclic_btf 1 = Inr None"
  "resolve_size_loop fuel cyclic_btf n (Some (Type_At [1, 0, 0, 0, 0, 0, 0, 8, 1, 0, 0, 0] 0)) = Inr (n, - 1)"
proof -
  show "btf__align_of fuel cyclic_btf 1 = Inr None"
    by (induction fuel) (simp_all add: cyclic_at del: One_nat_def)
  show "resolve_size_loop fuel cyclic_btf n (Some (Type_At [1, 0, 0, 0, 0, 0, 0, 8, 1, 0, 0, 0] 0)) = Inr (n, - 1)"
    using cyclic_at(1) unfolding type_at_Inr
    by (induction fuel) (simp_all add: cyclic_at loop_step [OF cyclic_at(2)] kind_lists del: One_nat_def)
qed

theorem btf_align_of_cycle:
  "\<exists>btf. btf_new True True (\<lambda>_. True) cyclic_bytes [] = Inr btf \<and>
     (\<forall>fuel. btf__align_of fuel btf 1 = Inr None) \<and>
     btf__resolve_size btf 1 = Inl (Err EINVAL)"
proof -
  have "btf_validate_type cyclic_btf (Type_At [1, 0, 0, 0, 0, 0, 0, 8, 1, 0, 0, 0] 0) = Inr ()"
  proof -
    have "btf_validate_id cyclic_btf 1 = Inr ()"
      using cyclic_at(1) by (simp add: type_at_Inr btf_validate_id_def del: One_nat_def)
    moreover have "btf_validate_str cyclic_btf 1 = Inr ()"
      by (simp add: btf_validate_str_def cyclic_btf_def)
    ultimately show ?thesis by (simp add: btf_validate_type_def check_kind_def cyclic_at del: One_nat_def)
  qed
  moreover have "btf_type_by_id cyclic_btf (Suc 0) = Inr (Type_At [1, 0, 0, 0, 0, 0, 0, 8, 1, 0, 0, 0] 0)"
    by (simp add: cyclic_btf_def)
  ultimately have "btf_sanity_check cyclic_btf = Inr ()"
    by (simp add: btf_sanity_check_def check_all_Inr) (simp add: cyclic_btf_def btf__type_cnt_def)
  moreover have "btf_parse_type_sec (\<lambda>_. True) False [1, 0, 0, 0, 0, 0, 0, 8, 1, 0, 0, 0] =
      Inr ([1, 0, 0, 0, 0, 0, 0, 8, 1, 0, 0, 0], [0])"
  proof -
    have loop: "parse_types_loop (Suc 11) (\<lambda>_. True) False [1, 0, 0, 0, 0, 0, 0, 8, 1, 0, 0, 0] 0 [] =
        Inr ([1, 0, 0, 0, 0, 0, 0, 8, 1, 0, 0, 0], 12, [0])"
      unfolding parse_types_loop.simps(2) by (simp add: type_eval parse_types_end)
    have "length [1 :: u8, 0, 0, 0, 0, 0, 0, 8, 1, 0, 0, 0] = Suc 11" by simp
    with loop show ?thesis unfolding btf_parse_type_sec_def by (simp only:) simp
  qed
  moreover have "read_hdr cyclic_bytes = Inr \<lparr>hdr_magic = BTF_MAGIC, hdr_len = 24, hdr_type_off = 0,
      hdr_type_len = 12, hdr_str_off = 12, hdr_str_len = 3\<rparr>"
    by (simp add: read_hdr_def rd_def cyclic_bytes_def BTF_MAGIC_def)
  moreover have "drop 24 cyclic_bytes = [1, 0, 0, 0, 0, 0, 0, 8, 1, 0, 0, 0, 0, 116, 0]" "length cyclic_bytes = 39"
    "drop 36 cyclic_bytes = [0, 116, 0]" "last cyclic_bytes = 0"
    by (simp_all add: cyclic_bytes_def)
  ultimately have "btf_new True True (\<lambda>_. True) cyclic_bytes [] = Inr cyclic_btf"
    by (simp add: btf_new_def btf_parse_hdr_def BTF_MAGIC_def BTF_MAX_STR_OFFSET_def
        btf_parse_str_sec_def Let_def) (simp add: cyclic_btf_def)
  moreover have "btf__resolve_size cyclic_btf 1 = Inl (Err EINVAL)"
    using cyclic_at(1) cyclic_loops(2) by (simp add: btf__resolve_size_def type_at_Inr del: One_nat_def)
  ultimately show ?thesis using cyclic_loops(1) by blast
qed

end
