(* ===== verification/Relo_Spec.thy ===== *)
theory Relo_Spec imports Btf_Query begin

text \<open>
  CO-RE relocation, first part (\<open>bpf/libbpf/src/relo_core.c\<close>): the access string of a relocation is
  parsed into a specification of the accessed field, the specification is matched with a type of
  the target kernel, and types are compared.

  A name is held by its contents, read when the code takes the pointer.  Loops that skip modifiers
  or arrays have no bound in the code and end here with \<open>Inl Hang\<close> when the fuel \<open>f\<close> is used up.
  Sums that the code keeps in a \<open>__u32\<close> are taken modulo \<open>2 ^ 32\<close>; a product of signed 64-bit numbers
  that leaves its range is undefined.
\<close>

section \<open>Data\<close>

datatype relo_kind =
    BPF_CORE_FIELD_BYTE_OFFSET | BPF_CORE_FIELD_BYTE_SIZE | BPF_CORE_FIELD_EXISTS
  | BPF_CORE_FIELD_SIGNED | BPF_CORE_FIELD_LSHIFT_U64 | BPF_CORE_FIELD_RSHIFT_U64
  | BPF_CORE_TYPE_ID_LOCAL | BPF_CORE_TYPE_ID_TARGET | BPF_CORE_TYPE_EXISTS | BPF_CORE_TYPE_SIZE
  | BPF_CORE_ENUMVAL_EXISTS | BPF_CORE_ENUMVAL_VALUE | BPF_CORE_TYPE_MATCHES | BPF_CORE_OTHER nat

definition core_relo_is_field_based :: "relo_kind \<Rightarrow> bool" where
  "core_relo_is_field_based kind \<longleftrightarrow>
     kind \<in> List.set [BPF_CORE_FIELD_BYTE_OFFSET, BPF_CORE_FIELD_BYTE_SIZE, BPF_CORE_FIELD_EXISTS,
       BPF_CORE_FIELD_SIGNED, BPF_CORE_FIELD_LSHIFT_U64, BPF_CORE_FIELD_RSHIFT_U64]"

definition core_relo_is_type_based :: "relo_kind \<Rightarrow> bool" where
  "core_relo_is_type_based kind \<longleftrightarrow>
     kind \<in> List.set [BPF_CORE_TYPE_ID_LOCAL, BPF_CORE_TYPE_ID_TARGET, BPF_CORE_TYPE_EXISTS,
       BPF_CORE_TYPE_MATCHES, BPF_CORE_TYPE_SIZE]"

definition core_relo_is_enumval_based :: "relo_kind \<Rightarrow> bool" where
  "core_relo_is_enumval_based kind \<longleftrightarrow>
     kind \<in> List.set [BPF_CORE_ENUMVAL_EXISTS, BPF_CORE_ENUMVAL_VALUE]"

record bpf_core_relo =
  relo_type_id :: nat
  relo_access_str_off :: nat
  relo_kind_of :: relo_kind

record bpf_core_accessor =
  acc_type_id :: nat
  acc_idx :: nat
  acc_name :: "u8 list option"

definition BPF_CORE_SPEC_MAX_LEN :: nat where "BPF_CORE_SPEC_MAX_LEN = 64"

text \<open>\<open>spec_accs\<close> and \<open>spec_raw\<close> are the used parts of the arrays \<open>spec\<close> and \<open>raw_spec\<close>.\<close>

record bpf_core_spec =
  spec_btf :: btf
  spec_accs :: "bpf_core_accessor list"
  spec_root :: nat
  spec_kind :: relo_kind
  spec_raw :: "int list"
  spec_bit_offset :: nat

definition spec_new :: "btf \<Rightarrow> nat \<Rightarrow> relo_kind \<Rightarrow> bpf_core_spec" where
  "spec_new btf root kind = \<lparr>spec_btf = btf, spec_accs = [], spec_root = root, spec_kind = kind,
     spec_raw = [], spec_bit_offset = 0\<rparr>"

definition push_acc :: "bpf_core_accessor \<Rightarrow> bpf_core_spec \<Rightarrow> bpf_core_spec res" where
  "push_acc acc spec =
     (if length (spec_accs spec) < BPF_CORE_SPEC_MAX_LEN
      then Inr (spec\<lparr>spec_accs := spec_accs spec @ [acc]\<rparr>) else Inl UB)"

definition wrap32 :: "int \<Rightarrow> nat" where "wrap32 x = nat (x mod 2 ^ 32)"

definition s64_mul :: "int \<Rightarrow> int \<Rightarrow> int res" where
  "s64_mul a b = (if - (2 ^ 63) \<le> a * b \<and> a * b < 2 ^ 63 then Inr (a * b) else Inl UB)"

definition add_offset :: "int \<Rightarrow> bpf_core_spec \<Rightarrow> bpf_core_spec" where
  "add_offset x spec = spec\<lparr>spec_bit_offset := wrap32 (int (spec_bit_offset spec) + x)\<rparr>"

section \<open>Types\<close>

definition btf_is_any_enum :: "btf_kind \<Rightarrow> bool" where
  "btf_is_any_enum k \<longleftrightarrow> k = BTF_KIND_ENUM \<or> k = BTF_KIND_ENUM64"

definition btf_is_composite :: "btf_kind \<Rightarrow> bool" where
  "btf_is_composite k \<longleftrightarrow> k = BTF_KIND_STRUCT \<or> k = BTF_KIND_UNION"

definition btf_kind_core_compat :: "btf_kind \<Rightarrow> btf_kind \<Rightarrow> bool" where
  "btf_kind_core_compat k1 k2 \<longleftrightarrow> k1 = k2 \<or> btf_is_any_enum k1 \<and> btf_is_any_enum k2"

definition btf_int_offset :: "type_ptr \<Rightarrow> nat res" where
  "btf_int_offset t = bindr (tword t 12) (\<lambda>w. Inr (w div 2 ^ 16 mod 256))"

definition btf_int_encoding :: "type_ptr \<Rightarrow> nat res" where
  "btf_int_encoding t = bindr (tword t 12) (\<lambda>w. Inr (w div 2 ^ 24 mod 16))"

text \<open>An element with a negative index is outside of the array.\<close>

definition elem :: "int \<Rightarrow> nat res" where
  "elem i = (if i < 0 then Inl UB else Inr (nat i))"

definition member_name_off :: "type_ptr \<Rightarrow> nat \<Rightarrow> nat res" where
  "member_name_off t i = tword t (12 + i * 12)"

definition btf_member_bit_offset :: "type_ptr \<Rightarrow> nat \<Rightarrow> nat res" where
  "btf_member_bit_offset t i =
     bindr (btf_kflag t) (\<lambda>kflag.
     bindr (member_offset t i) (\<lambda>v. Inr (if kflag then v mod 2 ^ 24 else v)))"

text \<open>Enumerators have 8 bytes, those of a 64-bit enumeration 12; the name comes first.\<close>

definition enum_name_off :: "btf_kind \<Rightarrow> type_ptr \<Rightarrow> nat \<Rightarrow> nat res" where
  "enum_name_off kind t i = tword t (12 + i * (if kind = BTF_KIND_ENUM then 8 else 12))"

text \<open>Parameters of a function prototype: name and type.\<close>

definition param_type :: "type_ptr \<Rightarrow> nat \<Rightarrow> nat res" where
  "param_type t i = tword t (12 + i * 8 + 4)"

definition name_at :: "btf \<Rightarrow> nat \<Rightarrow> u8 list option res" where
  "name_at btf off =
     bindr (btf__name_by_offset btf off) (\<lambda>p.
       case p of None \<Rightarrow> Inr None | Some p \<Rightarrow> bindr (c_str p) (\<lambda>s. Inr (Some s)))"

definition str_is_empty :: "u8 list option \<Rightarrow> bool" where
  "str_is_empty s \<longleftrightarrow> s = None \<or> s = Some []"

fun skip_loop :: "nat \<Rightarrow> btf \<Rightarrow> nat \<Rightarrow> (type_ptr \<times> nat) res" where
  "skip_loop 0 btf type_id = Inl Hang"
| "skip_loop (Suc f) btf type_id =
     bindr (type_at btf type_id) (\<lambda>t.
     bindr (btf_kind t) (\<lambda>kind.
       if kind \<in> List.set [BTF_KIND_VOLATILE, BTF_KIND_CONST, BTF_KIND_RESTRICT, BTF_KIND_TYPE_TAG,
            BTF_KIND_TYPEDEF]
       then bindr (t_type t) (skip_loop f btf)
       else Inr (t, type_id)))"

definition skip_mods_and_typedefs :: "nat \<Rightarrow> btf \<Rightarrow> nat \<Rightarrow> (type_ptr \<times> nat) res" where
  "skip_mods_and_typedefs f btf type_id = skip_loop f btf type_id"

definition is_flex_arr :: "btf \<Rightarrow> bpf_core_accessor \<Rightarrow> nat \<Rightarrow> bool res" where
  "is_flex_arr btf acc nelems =
     (if acc_name acc = None \<or> nelems > 0 then Inr False
      else
        bindr (btf_type_by_id btf (acc_type_id acc)) (\<lambda>t.
        bindr (btf_vlen t) (\<lambda>n. Inr (acc_idx acc = wrap32 (int n - 1)))))"

section \<open>Names\<close>

text \<open>The character codes of the underscore, the colon, the signs and the digit zero.\<close>

definition is_flavor_sep :: "u8 list \<Rightarrow> nat \<Rightarrow> bool" where
  "is_flavor_sep s i \<longleftrightarrow> s ! i \<noteq> 95 \<and> s ! (i + 1) = 95 \<and> s ! (i + 2) = 95 \<and> s ! (i + 3) = 95 \<and> s ! (i + 4) \<noteq> 95"

text \<open>The loop runs from \<open>n - 5\<close> down to 0.\<close>

primrec essential_loop :: "u8 list \<Rightarrow> nat \<Rightarrow> nat" where
  "essential_loop s 0 = length s"
| "essential_loop s (Suc i) = (if is_flavor_sep s i then i + 1 else essential_loop s i)"

definition bpf_core_essential_name_len :: "u8 list \<Rightarrow> nat" where
  "bpf_core_essential_name_len s = essential_loop s (length s - 4)"

definition same_essence :: "u8 list \<Rightarrow> u8 list \<Rightarrow> bool" where
  "same_essence a b \<longleftrightarrow>
     (let n = bpf_core_essential_name_len a in
      n = bpf_core_essential_name_len b \<and> take n a = take n b)"

section \<open>Parsing the access string\<close>

text \<open>\<open>sscanf\<close> with \<open>"%d%n"\<close>: white space, a sign, digits.  A number that is no \<open>int\<close> is undefined.\<close>

definition is_space :: "u8 \<Rightarrow> bool" where "is_space c \<longleftrightarrow> c = 32 \<or> 9 \<le> c \<and> c \<le> 13"
definition is_digit :: "u8 \<Rightarrow> bool" where "is_digit c \<longleftrightarrow> 48 \<le> c \<and> c \<le> 57"

definition digits_value :: "u8 list \<Rightarrow> int" where
  "digits_value ds = foldl (\<lambda>x d. 10 * x + (int (unat d) - 48)) 0 ds"

definition scan_int :: "u8 list \<Rightarrow> (int \<times> u8 list) option res" where
  "scan_int s0 =
     (let s1 = dropWhile is_space s0;
          neg = (s1 \<noteq> [] \<and> hd s1 = 45);
          s2 = (if s1 \<noteq> [] \<and> (hd s1 = 45 \<or> hd s1 = 43) then tl s1 else s1);
          ds = takeWhile is_digit s2;
          x = (if neg then - digits_value ds else digits_value ds)
      in if ds = [] then Inr None
         else if - (2 ^ 31) \<le> x \<and> x < 2 ^ 31 then Inr (Some (x, dropWhile is_digit s2))
         else Inl UB)"

lemma scan_int_shorter:
  assumes "scan_int s = Inr (Some (x, rest))"
  shows "length rest < length s"
proof -
  let ?s1 = "dropWhile is_space s"
  let ?s2 = "if ?s1 \<noteq> [] \<and> (hd ?s1 = 45 \<or> hd ?s1 = 43) then tl ?s1 else ?s1"
  have "takeWhile is_digit ?s2 \<noteq> []" "rest = dropWhile is_digit ?s2"
    using assms by (auto simp: scan_int_def Let_def split: if_splits)
  moreover have "length (takeWhile is_digit ?s2) + length (dropWhile is_digit ?s2) = length ?s2"
    by (metis length_append takeWhile_dropWhile_id)
  moreover have "length ?s2 \<le> length s"
    using length_dropWhile_le [of is_space s] by (auto intro: order_trans [OF diff_le_self])
  ultimately show ?thesis by (simp add: length_greater_0_conv [symmetric] del: length_greater_0_conv)
qed

function parse_raw :: "u8 list \<Rightarrow> int list \<Rightarrow> int list res" where
  "parse_raw s raw =
     (if s = [] then Inr raw
      else
        bindr (scan_int (if hd s = 58 then tl s else s)) (\<lambda>r.
          case r of
            None \<Rightarrow> Inl (Err EINVAL)
          | Some (idx, rest) \<Rightarrow>
              if length raw = BPF_CORE_SPEC_MAX_LEN then Inl (Err E2BIG)
              else parse_raw rest (raw @ [idx])))"
  by auto

termination
proof (relation "measure (\<lambda>(s, _). length s)")
  fix s raw r y idx rest
  assume "s \<noteq> []" "scan_int (if hd s = (58 :: u8) then tl s else s) = Inr r" "r = Some y" "(idx, rest) = y"
  then have "scan_int (if hd s = 58 then tl s else s) = Inr (Some (idx, rest))" by simp
  then have "length rest < length (if hd s = 58 then tl s else s)" by (rule scan_int_shorter)
  also have "\<dots> \<le> length s" by simp
  finally show "((rest, raw @ [idx]), s, raw) \<in> measure (\<lambda>(s, _). length s)" by simp
qed simp

declare parse_raw.simps [simp del]

section \<open>From the access string to the specification\<close>

text \<open>\<open>idx * sz * 8\<close> in 64 bits.\<close>

definition index_bits :: "int \<Rightarrow> nat \<Rightarrow> int res" where
  "index_bits idx sz = bindr (s64_mul idx (int sz)) (\<lambda>x. s64_mul x 8)"

text \<open>One round of the loop over the accessors: the current type and the specification so far.\<close>

definition parse_member :: "btf \<Rightarrow> type_ptr \<Rightarrow> nat \<Rightarrow> int \<Rightarrow> bpf_core_spec \<Rightarrow> (nat \<times> bpf_core_spec) res" where
  "parse_member btf t type_id idx spec =
     bindr (btf_vlen t) (\<lambda>n.
     if idx \<ge> int n then Inl (Err EINVAL)
     else
       bindr (elem idx) (\<lambda>i.
       bindr (btf_member_bit_offset t i) (\<lambda>bits.
       bindr (member_name_off t i) (\<lambda>name_off.
       bindr (if name_off = 0 then Inr (add_offset (int bits) spec)
              else
                bindr (name_at btf name_off) (\<lambda>name.
                if str_is_empty name then Inl (Err EINVAL)
                else push_acc \<lparr>acc_type_id = type_id, acc_idx = i, acc_name = name\<rparr>
                       (add_offset (int bits) spec))) (\<lambda>spec.
       bindr (member_type t i) (\<lambda>mt. Inr (mt, spec)))))))"

definition parse_element :: "nat \<Rightarrow> btf \<Rightarrow> type_ptr \<Rightarrow> int \<Rightarrow> bpf_core_spec \<Rightarrow> (nat \<times> bpf_core_spec) res" where
  "parse_element f btf t idx spec =
     bindr (array_type t) (\<lambda>at.
     bindr (array_nelems t) (\<lambda>nelems.
     bindr (skip_mods_and_typedefs f btf at) (\<lambda>(_, type_id).
     bindr (if spec_accs spec = [] then Inl UB else is_flex_arr btf (last (spec_accs spec)) nelems) (\<lambda>flex.
     if \<not> flex \<and> wrap32 idx \<ge> nelems then Inl (Err EINVAL)
     else
       bindr (push_acc \<lparr>acc_type_id = type_id, acc_idx = wrap32 idx, acc_name = None\<rparr> spec) (\<lambda>spec.
       bindr (btf__resolve_size btf type_id) (\<lambda>sz.
       bindr (index_bits idx sz) (\<lambda>bits. Inr (type_id, add_offset bits spec))))))))"

definition parse_step :: "nat \<Rightarrow> btf \<Rightarrow> int \<Rightarrow> nat \<times> bpf_core_spec \<Rightarrow> (nat \<times> bpf_core_spec) res" where
  "parse_step f btf idx st =
     bindr (skip_mods_and_typedefs f btf (fst st)) (\<lambda>(t, type_id).
     bindr (btf_kind t) (\<lambda>kind.
       if btf_is_composite kind then parse_member btf t type_id idx (snd st)
       else if kind = BTF_KIND_ARRAY then parse_element f btf t idx (snd st)
       else Inl (Err EINVAL)))"

fun parse_steps :: "nat \<Rightarrow> btf \<Rightarrow> int list \<Rightarrow> nat \<times> bpf_core_spec \<Rightarrow> (nat \<times> bpf_core_spec) res" where
  "parse_steps f btf [] st = Inr st"
| "parse_steps f btf (idx # idxs) st = bindr (parse_step f btf idx st) (parse_steps f btf idxs)"

text \<open>What follows the parsing of the numbers, for enumeration values and for fields.\<close>

definition parse_enumval :: "btf \<Rightarrow> type_ptr \<Rightarrow> btf_kind \<Rightarrow> nat \<Rightarrow> bpf_core_spec \<Rightarrow> bpf_core_spec res" where
  "parse_enumval btf t kind type_id spec =
     (let idx = hd (spec_raw spec) in
      if \<not> btf_is_any_enum kind \<or> length (spec_raw spec) > 1 then Inl (Err EINVAL)
      else
        bindr (btf_vlen t) (\<lambda>n.
        if idx \<ge> int n then Inl (Err EINVAL)
        else
          bindr (elem idx) (\<lambda>i.
          bindr (enum_name_off kind t i) (\<lambda>name_off.
          bindr (name_at btf name_off) (\<lambda>name.
            push_acc \<lparr>acc_type_id = type_id, acc_idx = i, acc_name = name\<rparr> spec)))))"

definition parse_fields :: "nat \<Rightarrow> btf \<Rightarrow> nat \<Rightarrow> bpf_core_spec \<Rightarrow> bpf_core_spec res" where
  "parse_fields f btf type_id spec =
     (let idx = hd (spec_raw spec) in
      bindr (push_acc \<lparr>acc_type_id = type_id, acc_idx = wrap32 idx, acc_name = None\<rparr> spec) (\<lambda>spec.
      bindr (btf__resolve_size btf type_id) (\<lambda>sz.
      bindr (index_bits idx sz) (\<lambda>bits.
      bindr (parse_steps f btf (tl (spec_raw spec)) (type_id, add_offset bits spec)) (\<lambda>(_, spec).
        Inr spec)))))"

definition parse_root :: "nat \<Rightarrow> btf \<Rightarrow> bpf_core_spec \<Rightarrow> bpf_core_spec res" where
  "parse_root f btf spec =
     bindr (skip_mods_and_typedefs f btf (spec_root spec)) (\<lambda>(t, type_id).
     bindr (btf_kind t) (\<lambda>kind.
       if core_relo_is_enumval_based (spec_kind spec) then parse_enumval btf t kind type_id spec
       else if \<not> core_relo_is_field_based (spec_kind spec) then Inl (Err EINVAL)
       else parse_fields f btf type_id spec))"

definition bpf_core_parse_spec :: "nat \<Rightarrow> btf \<Rightarrow> bpf_core_relo \<Rightarrow> bpf_core_spec res" where
  "bpf_core_parse_spec f btf relo =
     bindr (name_at btf (relo_access_str_off relo)) (\<lambda>s.
     if str_is_empty s \<or> hd (the s) = 58 then Inl (Err EINVAL)
     else
       let spec = spec_new btf (relo_type_id relo) (relo_kind_of relo) in
       if core_relo_is_type_based (relo_kind_of relo)
       then if the s \<noteq> [48] then Inl (Err EINVAL) else Inr spec
       else
         bindr (parse_raw (the s) []) (\<lambda>raw.
         if raw = [] then Inl (Err EINVAL) else parse_root f btf (spec\<lparr>spec_raw := raw\<rparr>)))"

section \<open>Compatibility of fields\<close>

text \<open>The loop through array types uses the fuel \<open>n\<close>.\<close>

fun fields_compat_loop :: "nat \<Rightarrow> nat \<Rightarrow> btf \<Rightarrow> nat \<Rightarrow> btf \<Rightarrow> nat \<Rightarrow> bool res" where
  "fields_compat_loop 0 f local_btf local_id targ_btf targ_id = Inl Hang"
| "fields_compat_loop (Suc n) f local_btf local_id targ_btf targ_id =
     bindr (skip_mods_and_typedefs f local_btf local_id) (\<lambda>(lt, _).
     bindr (skip_mods_and_typedefs f targ_btf targ_id) (\<lambda>(tt, _).
     bindr (btf_kind lt) (\<lambda>lk.
     bindr (btf_kind tt) (\<lambda>tk.
     if btf_is_composite lk \<and> btf_is_composite tk then Inr True
     else if \<not> btf_kind_core_compat lk tk then Inr False
     else if lk = BTF_KIND_PTR \<or> lk = BTF_KIND_FLOAT then Inr True
     else if lk = BTF_KIND_FWD \<or> btf_is_any_enum lk
     then
       bindr (bindr (bindr (t_name_off lt) (name_at local_btf)) deref) (\<lambda>ln.
       bindr (bindr (bindr (t_name_off tt) (name_at targ_btf)) deref) (\<lambda>tn.
         Inr (bpf_core_essential_name_len ln = 0 \<or> bpf_core_essential_name_len tn = 0 \<or> same_essence ln tn)))
     else if lk = BTF_KIND_INT
     then bindr (btf_int_offset lt) (\<lambda>a.
          if a \<noteq> 0 then Inr False else bindr (btf_int_offset tt) (\<lambda>b. Inr (b = 0)))
     else if lk = BTF_KIND_ARRAY
     then bindr (array_type lt) (\<lambda>la. bindr (array_type tt) (\<lambda>ta.
            fields_compat_loop n f local_btf la targ_btf ta))
     else Inr False))))"

definition bpf_core_fields_are_compat :: "nat \<Rightarrow> btf \<Rightarrow> nat \<Rightarrow> btf \<Rightarrow> nat \<Rightarrow> bool res" where
  "bpf_core_fields_are_compat f = fields_compat_loop f f"

section \<open>Searching a member\<close>

text \<open>
  \<open>push_raw\<close> speculates that member \<open>i\<close> is the right one, \<open>pop_raw\<close> takes that back.  The result of
  the search tells whether a member was found; the specification and \<open>next_targ_id\<close> are as they are
  left in either case.
\<close>

definition push_raw :: "nat \<Rightarrow> nat \<Rightarrow> bpf_core_spec \<Rightarrow> bpf_core_spec res" where
  "push_raw bits i spec =
     (if length (spec_raw spec) = BPF_CORE_SPEC_MAX_LEN then Inl (Err E2BIG)
      else Inr ((add_offset (int bits) spec)\<lparr>spec_raw := spec_raw spec @ [int i]\<rparr>))"

definition pop_raw :: "nat \<Rightarrow> bpf_core_spec \<Rightarrow> bpf_core_spec" where
  "pop_raw bits spec = (add_offset (- int bits) spec)\<lparr>spec_raw := butlast (spec_raw spec)\<rparr>"

definition pop_acc :: "bpf_core_spec \<Rightarrow> bpf_core_spec" where
  "pop_acc spec = spec\<lparr>spec_accs := butlast (spec_accs spec)\<rparr>"

fun match_members ::
  "(nat \<Rightarrow> bpf_core_spec \<Rightarrow> nat \<Rightarrow> (bool \<times> bpf_core_spec \<times> nat) res) \<Rightarrow> nat \<Rightarrow> btf \<Rightarrow> u8 list option \<Rightarrow> nat \<Rightarrow>
   btf \<Rightarrow> type_ptr \<Rightarrow> nat \<Rightarrow> nat list \<Rightarrow> bpf_core_spec \<Rightarrow> nat \<Rightarrow> (bool \<times> bpf_core_spec \<times> nat) res" where
  "match_members rec f local_btf ln lm_type targ_btf tt tid [] spec nid = Inr (False, spec, nid)"
| "match_members rec f local_btf ln lm_type targ_btf tt tid (i # is) spec0 nid =
     bindr (btf_member_bit_offset tt i) (\<lambda>bits.
     bindr (push_raw bits i spec0) (\<lambda>spec.
     bindr (bindr (member_name_off tt i) (name_at targ_btf)) (\<lambda>tn.
     bindr (member_type tt i) (\<lambda>mt.
     if str_is_empty tn
     then
       bindr (rec mt spec nid) (\<lambda>(found, spec, nid).
       if found then Inr (True, spec, nid)
       else match_members rec f local_btf ln lm_type targ_btf tt tid is (pop_raw bits spec) nid)
     else
       bindr (deref ln) (\<lambda>ln'.
       if ln' = the tn
       then
         bindr (push_acc \<lparr>acc_type_id = tid, acc_idx = i, acc_name = tn\<rparr> spec) (\<lambda>spec.
         bindr (bpf_core_fields_are_compat f local_btf lm_type targ_btf mt) (\<lambda>found.
           Inr (found, if found then spec else pop_acc spec, mt)))
       else match_members rec f local_btf ln lm_type targ_btf tt tid is (pop_raw bits spec) nid)))))"

fun match_member ::
  "nat \<Rightarrow> nat \<Rightarrow> btf \<Rightarrow> bpf_core_accessor \<Rightarrow> btf \<Rightarrow> nat \<Rightarrow> bpf_core_spec \<Rightarrow> nat \<Rightarrow>
   (bool \<times> bpf_core_spec \<times> nat) res" where
  "match_member 0 f local_btf local_acc targ_btf targ_id spec nid = Inl Hang"
| "match_member (Suc n) f local_btf local_acc targ_btf targ_id spec nid =
     bindr (skip_mods_and_typedefs f targ_btf targ_id) (\<lambda>(tt, tid).
     bindr (btf_kind tt) (\<lambda>tk.
     if \<not> btf_is_composite tk then Inr (False, spec, nid)
     else
       bindr (btf_type_by_id local_btf (acc_type_id local_acc)) (\<lambda>lt.
       bindr (bindr (member_name_off lt (acc_idx local_acc)) (name_at local_btf)) (\<lambda>ln.
       bindr (member_type lt (acc_idx local_acc)) (\<lambda>lm_type.
       bindr (btf_vlen tt) (\<lambda>vlen.
         match_members (match_member n f local_btf local_acc targ_btf) f local_btf ln lm_type targ_btf
           tt tid [0..<vlen] spec nid))))))"

text \<open>Every level of the recursion adds an entry to \<open>raw_spec\<close>, so that 65 levels are enough.\<close>

definition bpf_core_match_member ::
  "nat \<Rightarrow> btf \<Rightarrow> bpf_core_accessor \<Rightarrow> btf \<Rightarrow> nat \<Rightarrow> bpf_core_spec \<Rightarrow> nat \<Rightarrow> (bool \<times> bpf_core_spec \<times> nat) res" where
  "bpf_core_match_member f = match_member (Suc BPF_CORE_SPEC_MAX_LEN) f"

section \<open>Compatibility of types\<close>

text \<open>
  The loop \<open>recur\<close> of \<open>__bpf_core_types_are_compat\<close>, at most 32 rounds; \<open>rec\<close> is the recursive call at
  the level below, which the code makes only while \<open>level\<close> is positive.
\<close>

fun params_compat ::
  "(nat \<Rightarrow> nat \<Rightarrow> bool res) \<Rightarrow> nat \<Rightarrow> btf \<Rightarrow> type_ptr \<Rightarrow> btf \<Rightarrow> type_ptr \<Rightarrow> bool \<Rightarrow> nat list \<Rightarrow> bool res" where
  "params_compat rec f local_btf lt targ_btf tt deeper [] = Inr True"
| "params_compat rec f local_btf lt targ_btf tt deeper (i # is) =
     (if \<not> deeper then Inl (Err EINVAL)
      else
        bindr (bindr (param_type lt i) (skip_mods_and_typedefs f local_btf)) (\<lambda>(_, lid).
        bindr (bindr (param_type tt i) (skip_mods_and_typedefs f targ_btf)) (\<lambda>(_, tid).
        bindr (rec lid tid) (\<lambda>ok.
          if \<not> ok then Inr False
          else params_compat rec f local_btf lt targ_btf tt deeper is))))"

fun types_compat_loop ::
  "nat \<Rightarrow> (nat \<Rightarrow> nat \<Rightarrow> bool res) \<Rightarrow> nat \<Rightarrow> btf \<Rightarrow> nat \<Rightarrow> btf \<Rightarrow> nat \<Rightarrow> bool \<Rightarrow> bool res" where
  "types_compat_loop 0 rec f local_btf local_id targ_btf targ_id deeper = Inl (Err EINVAL)"
| "types_compat_loop (Suc depth) rec f local_btf local_id targ_btf targ_id deeper =
     bindr (skip_mods_and_typedefs f local_btf local_id) (\<lambda>(lt, _).
     bindr (skip_mods_and_typedefs f targ_btf targ_id) (\<lambda>(tt, _).
     bindr (btf_kind lt) (\<lambda>lk.
     bindr (btf_kind tt) (\<lambda>tk.
     if \<not> btf_kind_core_compat lk tk then Inr False
     else if lk \<in> List.set [BTF_KIND_UNKN, BTF_KIND_STRUCT, BTF_KIND_UNION, BTF_KIND_ENUM,
               BTF_KIND_FWD, BTF_KIND_ENUM64] then Inr True
     else if lk = BTF_KIND_INT
     then bindr (btf_int_offset lt) (\<lambda>a.
          if a \<noteq> 0 then Inr False else bindr (btf_int_offset tt) (\<lambda>b. Inr (b = 0)))
     else if lk = BTF_KIND_PTR
     then bindr (t_type lt) (\<lambda>l. bindr (t_type tt) (\<lambda>t.
            types_compat_loop depth rec f local_btf l targ_btf t deeper))
     else if lk = BTF_KIND_ARRAY
     then bindr (array_type lt) (\<lambda>l. bindr (array_type tt) (\<lambda>t.
            types_compat_loop depth rec f local_btf l targ_btf t deeper))
     else if lk = BTF_KIND_FUNC_PROTO
     then
       bindr (btf_vlen lt) (\<lambda>ln.
       bindr (btf_vlen tt) (\<lambda>tn.
       if ln \<noteq> tn then Inr False
       else
         bindr (params_compat rec f local_btf lt targ_btf tt deeper [0..<ln]) (\<lambda>ok.
         if \<not> ok then Inr False
         else
           bindr (bindr (t_type lt) (skip_mods_and_typedefs f local_btf)) (\<lambda>(_, l).
           bindr (bindr (t_type tt) (skip_mods_and_typedefs f targ_btf)) (\<lambda>(_, t).
             types_compat_loop depth rec f local_btf l targ_btf t deeper)))))
     else Inr False))))"

text \<open>At level 0 the call that would go deeper is never made.\<close>

fun bpf_core_types_are_compat_level :: "nat \<Rightarrow> nat \<Rightarrow> btf \<Rightarrow> nat \<Rightarrow> btf \<Rightarrow> nat \<Rightarrow> bool res" where
  "bpf_core_types_are_compat_level level f local_btf local_id targ_btf targ_id =
     bindr (bindr (btf_type_by_id local_btf local_id) btf_kind) (\<lambda>lk.
     bindr (bindr (btf_type_by_id targ_btf targ_id) btf_kind) (\<lambda>tk.
     if \<not> btf_kind_core_compat lk tk then Inr False
     else
       (case level of
          0 \<Rightarrow> types_compat_loop 32 (\<lambda>_ _. Inl Hang) f local_btf local_id targ_btf targ_id False
        | Suc level' \<Rightarrow>
            types_compat_loop 32
              (\<lambda>l t. bpf_core_types_are_compat_level level' f local_btf l targ_btf t)
              f local_btf local_id targ_btf targ_id True)))"

declare bpf_core_types_are_compat_level.simps [simp del]

definition bpf_core_types_are_compat :: "nat \<Rightarrow> btf \<Rightarrow> nat \<Rightarrow> btf \<Rightarrow> nat \<Rightarrow> bool res" where
  "bpf_core_types_are_compat = bpf_core_types_are_compat_level 32"

section \<open>Matching of types\<close>

definition bpf_core_names_match :: "btf \<Rightarrow> nat \<Rightarrow> btf \<Rightarrow> nat \<Rightarrow> bool res" where
  "bpf_core_names_match local_btf local_name_off targ_btf targ_name_off =
     bindr (name_at local_btf local_name_off) (\<lambda>ln.
     bindr (name_at targ_btf targ_name_off) (\<lambda>tn.
     if str_is_empty tn then Inr (str_is_empty ln)
     else bindr (deref ln) (\<lambda>ln. Inr (same_essence ln (the tn)))))"

text \<open>Does some element of a list satisfy a fallible test; do all of them.\<close>

primrec exists_res :: "('a \<Rightarrow> bool res) \<Rightarrow> 'a list \<Rightarrow> bool res" where
  "exists_res p [] = Inr False"
| "exists_res p (x # xs) = bindr (p x) (\<lambda>b. if b then Inr True else exists_res p xs)"

primrec forall_res :: "('a \<Rightarrow> bool res) \<Rightarrow> 'a list \<Rightarrow> bool res" where
  "forall_res p [] = Inr True"
| "forall_res p (x # xs) = bindr (p x) (\<lambda>b. if b then forall_res p xs else Inr False)"

definition bpf_core_enums_match :: "btf \<Rightarrow> type_ptr \<Rightarrow> btf \<Rightarrow> type_ptr \<Rightarrow> bool res" where
  "bpf_core_enums_match local_btf lt targ_btf tt =
     bindr (btf_vlen lt) (\<lambda>ln.
     bindr (btf_vlen tt) (\<lambda>tn.
     bindr (t_size lt) (\<lambda>ls.
     bindr (t_size tt) (\<lambda>ts.
     bindr (btf_kind lt) (\<lambda>lk.
     bindr (btf_kind tt) (\<lambda>tk.
     if ls \<noteq> ts then Inr False
     else if ln > tn then Inr False
     else
       forall_res (\<lambda>i.
         bindr (enum_name_off lk lt i) (\<lambda>lo.
         exists_res (\<lambda>j. bindr (enum_name_off tk tt j) (\<lambda>to. bpf_core_names_match local_btf lo targ_btf to))
           [0..<tn])) [0..<ln]))))))"

definition bpf_core_composites_match ::
  "(nat \<Rightarrow> nat \<Rightarrow> bool res) \<Rightarrow> btf \<Rightarrow> type_ptr \<Rightarrow> btf \<Rightarrow> type_ptr \<Rightarrow> bool res" where
  "bpf_core_composites_match rec local_btf lt targ_btf tt =
     bindr (btf_vlen lt) (\<lambda>ln.
     bindr (btf_vlen tt) (\<lambda>tn.
     if ln > tn then Inr False
     else
       forall_res (\<lambda>i.
         exists_res (\<lambda>j.
           bindr (member_name_off lt i) (\<lambda>lo.
           bindr (member_name_off tt j) (\<lambda>to.
           bindr (bpf_core_names_match local_btf lo targ_btf to) (\<lambda>same.
           if \<not> same then Inr False
           else bindr (member_type lt i) (\<lambda>l. bindr (member_type tt j) (\<lambda>t. rec l t))))))
           [0..<tn]) [0..<ln]))"

text \<open>
  The loop \<open>recur\<close> of \<open>__bpf_core_types_match\<close>; \<open>rec behind_ptr\<close> is the recursive call at the level
  below.
\<close>

fun types_match_loop ::
  "nat \<Rightarrow> (bool \<Rightarrow> nat \<Rightarrow> nat \<Rightarrow> bool res) \<Rightarrow> nat \<Rightarrow> btf \<Rightarrow> nat \<Rightarrow> btf \<Rightarrow> nat \<Rightarrow> bool \<Rightarrow> bool res" where
  "types_match_loop 0 rec f local_btf local_id targ_btf targ_id behind_ptr = Inl (Err EINVAL)"
| "types_match_loop (Suc depth) rec f local_btf local_id targ_btf targ_id behind_ptr =
     bindr (skip_mods_and_typedefs f local_btf local_id) (\<lambda>(lt, _).
     bindr (skip_mods_and_typedefs f targ_btf targ_id) (\<lambda>(tt, _).
     bindr (t_name_off lt) (\<lambda>lo.
     bindr (t_name_off tt) (\<lambda>to.
     bindr (bpf_core_names_match local_btf lo targ_btf to) (\<lambda>same.
     if \<not> same then Inr False
     else
       bindr (btf_kind lt) (\<lambda>lk.
       bindr (btf_kind tt) (\<lambda>tk.
       if lk = BTF_KIND_UNKN then Inr (lk = tk)
       else if lk = BTF_KIND_FWD
       then
         bindr (btf_kflag lt) (\<lambda>lf.
         bindr (btf_kflag tt) (\<lambda>tf.
         if behind_ptr
         then if lk = tk then Inr (lf = tf)
              else Inr (tk = BTF_KIND_STRUCT \<and> \<not> lf \<or> tk = BTF_KIND_UNION \<and> lf)
         else if lk \<noteq> tk then Inr False
         else Inr (lf = tf)))
       else if btf_is_any_enum lk
       then if \<not> btf_is_any_enum tk then Inr False else bpf_core_enums_match local_btf lt targ_btf tt
       else if btf_is_composite lk
       then
         if behind_ptr
         then bindr (btf_kflag tt) (\<lambda>tf.
              if lk = tk then Inr True
              else if tk \<noteq> BTF_KIND_FWD then Inr False
              else Inr ((lk = BTF_KIND_UNION) = tf))
         else if lk \<noteq> tk then Inr False
         else bpf_core_composites_match (rec behind_ptr) local_btf lt targ_btf tt
       else if lk = BTF_KIND_INT
       then
         if lk \<noteq> tk then Inr False
         else
           bindr (btf_int_encoding lt) (\<lambda>le.
           bindr (btf_int_encoding tt) (\<lambda>te.
           bindr (t_size lt) (\<lambda>ls.
           bindr (t_size tt) (\<lambda>ts. Inr (ls = ts \<and> le mod 2 = te mod 2)))))
       else if lk = BTF_KIND_PTR
       then
         if lk \<noteq> tk then Inr False
         else bindr (t_type lt) (\<lambda>l. bindr (t_type tt) (\<lambda>t.
                types_match_loop depth rec f local_btf l targ_btf t True))
       else if lk = BTF_KIND_ARRAY
       then
         if lk \<noteq> tk then Inr False
         else
           bindr (array_nelems lt) (\<lambda>ln.
           bindr (array_nelems tt) (\<lambda>tn.
           if ln \<noteq> tn then Inr False
           else bindr (array_type lt) (\<lambda>l. bindr (array_type tt) (\<lambda>t.
                  types_match_loop depth rec f local_btf l targ_btf t behind_ptr))))
       else if lk = BTF_KIND_FUNC_PROTO
       then
         if lk \<noteq> tk then Inr False
         else
           bindr (btf_vlen lt) (\<lambda>ln.
           bindr (btf_vlen tt) (\<lambda>tn.
           if ln \<noteq> tn then Inr False
           else
             bindr (forall_res (\<lambda>i. bindr (param_type lt i) (\<lambda>l. bindr (param_type tt i) (\<lambda>t.
                 rec behind_ptr l t))) [0..<ln]) (\<lambda>ok.
             if \<not> ok then Inr False
             else bindr (t_type lt) (\<lambda>l. bindr (t_type tt) (\<lambda>t.
                    types_match_loop depth rec f local_btf l targ_btf t behind_ptr)))))
       else Inr False)))))))"

primrec bpf_core_types_match_level :: "nat \<Rightarrow> nat \<Rightarrow> btf \<Rightarrow> btf \<Rightarrow> bool \<Rightarrow> nat \<Rightarrow> nat \<Rightarrow> bool res" where
  "bpf_core_types_match_level 0 f local_btf targ_btf behind_ptr local_id targ_id = Inl (Err EINVAL)"
| "bpf_core_types_match_level (Suc level) f local_btf targ_btf behind_ptr local_id targ_id =
     types_match_loop 32 (bpf_core_types_match_level level f local_btf targ_btf) f
       local_btf local_id targ_btf targ_id behind_ptr"

definition bpf_core_types_match :: "nat \<Rightarrow> btf \<Rightarrow> nat \<Rightarrow> btf \<Rightarrow> nat \<Rightarrow> bool res" where
  "bpf_core_types_match f local_btf local_id targ_btf targ_id =
     bpf_core_types_match_level 32 f local_btf targ_btf False local_id targ_id"

section \<open>Matching a specification with a target type\<close>

text \<open>
  The accessors of the local specification one by one; \<open>later\<close> tells that it is not the first.  The
  size is kept in an \<open>int\<close>: a size that does not fit comes out negative and is returned like an
  error (here ERANGE).
\<close>

fun match_accs ::
  "nat \<Rightarrow> btf \<Rightarrow> btf \<Rightarrow> bool \<Rightarrow> bpf_core_accessor list \<Rightarrow> nat \<Rightarrow> bpf_core_spec \<Rightarrow> (bool \<times> bpf_core_spec) res" where
  "match_accs f local_btf targ_btf later [] targ_id spec = Inr (True, spec)"
| "match_accs f local_btf targ_btf later (acc # accs) targ_id0 spec =
     bindr (skip_mods_and_typedefs f targ_btf targ_id0) (\<lambda>(tt, targ_id).
     if acc_name acc \<noteq> None
     then
       bindr (bpf_core_match_member f local_btf acc targ_btf targ_id spec targ_id) (\<lambda>(found, spec, nid).
       if \<not> found then Inr (False, spec)
       else match_accs f local_btf targ_btf True accs nid spec)
     else
       bindr (if \<not> later then Inr (Some targ_id)
              else
                bindr (btf_kind tt) (\<lambda>tk.
                if tk \<noteq> BTF_KIND_ARRAY then Inr None
                else
                  bindr (array_nelems tt) (\<lambda>nelems.
                  bindr (if spec_accs spec = [] then Inl UB
                         else is_flex_arr targ_btf (last (spec_accs spec)) nelems) (\<lambda>flex.
                  if \<not> flex \<and> acc_idx acc \<ge> nelems then Inr None
                  else
                    bindr (bindr (array_type tt) (skip_mods_and_typedefs f targ_btf)) (\<lambda>(_, e).
                      Inr (Some e)))))) (\<lambda>r.
       case r of
         None \<Rightarrow> Inr (False, spec)
       | Some e \<Rightarrow>
           if length (spec_raw spec) = BPF_CORE_SPEC_MAX_LEN then Inl (Err E2BIG)
           else
             bindr (push_acc \<lparr>acc_type_id = e, acc_idx = acc_idx acc, acc_name = None\<rparr> spec) (\<lambda>spec.
             let spec = spec\<lparr>spec_raw := spec_raw spec @ [int (acc_idx acc)]\<rparr> in
             bindr (btf__resolve_size targ_btf e) (\<lambda>sz.
             if sz \<ge> 2 ^ 31 then Inl (Err ERANGE)
             else match_accs f local_btf targ_btf True accs e
                    (add_offset (int (acc_idx acc) * int sz * 8) spec)))))"

fun match_enumval ::
  "btf \<Rightarrow> btf_kind \<Rightarrow> type_ptr \<Rightarrow> nat \<Rightarrow> u8 list option \<Rightarrow> nat list \<Rightarrow> bpf_core_spec \<Rightarrow> (bool \<times> bpf_core_spec) res" where
  "match_enumval targ_btf tk tt targ_id ln [] spec = Inr (False, spec)"
| "match_enumval targ_btf tk tt targ_id ln (i # is) spec =
     bindr (bindr (enum_name_off tk tt i) (name_at targ_btf)) (\<lambda>tn.
     bindr (deref tn) (\<lambda>tn'.
     bindr (deref ln) (\<lambda>ln'.
     if same_essence ln' tn'
     then
       bindr (push_acc \<lparr>acc_type_id = targ_id, acc_idx = i, acc_name = tn\<rparr> spec) (\<lambda>spec.
         Inr (True, spec\<lparr>spec_raw := spec_raw spec @ [int i]\<rparr>))
     else match_enumval targ_btf tk tt targ_id ln is spec)))"

definition bpf_core_spec_match :: "nat \<Rightarrow> bpf_core_spec \<Rightarrow> btf \<Rightarrow> nat \<Rightarrow> (bool \<times> bpf_core_spec) res" where
  "bpf_core_spec_match f local_spec targ_btf targ_id =
     (let spec = spec_new targ_btf targ_id (spec_kind local_spec) in
      if core_relo_is_type_based (spec_kind local_spec)
      then
        bindr (if spec_kind local_spec = BPF_CORE_TYPE_MATCHES
               then bpf_core_types_match f (spec_btf local_spec) (spec_root local_spec) targ_btf targ_id
               else bpf_core_types_are_compat f (spec_btf local_spec) (spec_root local_spec) targ_btf targ_id)
          (\<lambda>ok. Inr (ok, spec))
      else if core_relo_is_enumval_based (spec_kind local_spec)
      then
        bindr (skip_mods_and_typedefs f targ_btf targ_id) (\<lambda>(tt, tid).
        bindr (btf_kind tt) (\<lambda>tk.
        if \<not> btf_is_any_enum tk then Inr (False, spec)
        else
          bindr (arr (spec_accs local_spec) 0) (\<lambda>acc.
          bindr (btf_vlen tt) (\<lambda>n.
            match_enumval targ_btf tk tt tid (acc_name acc) [0..<n] spec))))
      else if \<not> core_relo_is_field_based (spec_kind local_spec) then Inl (Err EINVAL)
      else match_accs f (spec_btf local_spec) targ_btf False (spec_accs local_spec) targ_id spec)"

section \<open>The parser is safe\<close>

text \<open>An object as \<open>btf_new\<close> gives it.\<close>

definition sane :: "btf \<Rightarrow> bool" where
  "sane btf \<longleftrightarrow> btf_ok btf \<and> btf \<noteq> [] \<and> btf_sanity_check btf = Inr ()"

lemma no_ub_name_at [safe_intros]: "sane btf \<Longrightarrow> no_ub (name_at btf off)"
  using str_by_offset_cases [of btf off]
  by (auto simp: sane_def name_at_def btf__name_by_offset_def c_str_def)

text \<open>A type that is found under a valid number.\<close>

definition good_type :: "btf \<Rightarrow> nat \<Rightarrow> type_ptr \<Rightarrow> btf_kind \<Rightarrow> bool" where
  "good_type btf type_id t kind \<longleftrightarrow> type_id < btf__type_cnt btf \<and> type_at btf type_id = Inr t \<and>
     tfits t \<and> btf_kind t = Inr kind \<and> (kind \<noteq> BTF_KIND_UNKN \<longrightarrow> check_kind btf t kind = Inr ())"

lemma good_type_exists:
  assumes "sane btf" "type_id < btf__type_cnt btf"
  shows "\<exists>t kind. good_type btf type_id t kind"
proof -
  have ok: "btf_ok btf" "btf_sanity_check btf = Inr ()" using assms(1) by (auto simp: sane_def)
  from type_at_ok [OF ok(1) assms(2)] obtain t where t: "type_at btf type_id = Inr t" "tfits t" by blast
  from tfits_words [OF t(2)] obtain kind where k: "btf_kind t = Inr kind" by blast
  from type_checked [OF ok t(1) k] k void_fields(1) assms(2) t have "good_type btf type_id t kind"
    by (auto simp: good_type_def)
  then show ?thesis by blast
qed

lemma ref_ok:
  assumes "sane btf" "btf_validate_id btf r = Inr ()"
  shows "r < btf__type_cnt btf"
  using assms validate_id_Inr by (auto simp: sane_def)

lemma good_ref:
  assumes "sane btf" "good_type btf type_id t kind"
    "kind \<in> set [BTF_KIND_VOLATILE, BTF_KIND_CONST, BTF_KIND_RESTRICT, BTF_KIND_TYPE_TAG, BTF_KIND_TYPEDEF, BTF_KIND_PTR]"
  shows "\<exists>r. t_type t = Inr r \<and> r < btf__type_cnt btf"
  using assms ref_ok [OF assms(1)] by (auto simp: good_type_def check_kind_def bindr_eq_Inr)

lemma good_array:
  assumes "sane btf" "good_type btf type_id t BTF_KIND_ARRAY"
  shows "\<exists>r n. array_type t = Inr r \<and> r < btf__type_cnt btf \<and> array_nelems t = Inr n"
proof -
  from assms(2) have t: "tfits t" "btf_kind t = Inr BTF_KIND_ARRAY" "check_kind btf t BTF_KIND_ARRAY = Inr ()"
    by (auto simp: good_type_def)
  from t(3) obtain r where "array_type t = Inr r" "btf_validate_id btf r = Inr ()"
    by (auto simp: check_kind_def bindr_eq_Inr check_type_def array_type_def)
  moreover obtain n where "array_nelems t = Inr n"
    using no_ub_tword array_words_safe [OF t(1,2)] unfolding array_nelems_def by blast
  ultimately show ?thesis using ref_ok [OF assms(1)] by blast
qed

lemma good_member:
  assumes "sane btf" "good_type btf type_id t kind" "btf_is_composite kind" "btf_vlen t = Inr n" "i < n"
  shows "\<exists>name_off mt off bits. member_name_off t i = Inr name_off \<and> member_type t i = Inr mt \<and> mt < btf__type_cnt btf \<and>
    member_offset t i = Inr off \<and> btf_member_bit_offset t i = Inr bits"
proof -
  from assms(2,3) have t: "tfits t" "btf_kind t = Inr kind" "check_kind btf t kind = Inr ()"
    by (auto simp: good_type_def btf_is_composite_def)
  from t(3) assms(3-5) obtain name_off mt where m: "member_name_off t i = Inr name_off" "member_type t i = Inr mt"
    "btf_validate_id btf mt = Inr ()"
    by (auto simp: check_kind_def bindr_eq_Inr check_all_Inr check_type_def check_name_def btf_is_composite_def
        member_type_def member_name_off_def add.assoc; fastforce)
  from composite_words [OF t(1,2) _ assms(4,5)] assms(3) obtain off where "member_offset t i = Inr off"
    by (auto simp: btf_is_composite_def)
  moreover then obtain bits where "btf_member_bit_offset t i = Inr bits"
    using kflag_ok [OF t(2)] by (auto simp: btf_member_bit_offset_def)
  ultimately show ?thesis using m ref_ok [OF assms(1)] by blast
qed

lemma good_vlen: "good_type btf type_id t kind \<Longrightarrow> \<exists>n. btf_vlen t = Inr n"
  using tfits_words [of t] by (auto simp: good_type_def)

lemma skip_cases:
  assumes "sane btf"
  shows "type_id < btf__type_cnt btf \<Longrightarrow> skip_mods_and_typedefs f btf type_id = Inl Hang \<or>
    (\<exists>t id' kind. skip_mods_and_typedefs f btf type_id = Inr (t, id') \<and> good_type btf id' t kind)"
  unfolding skip_mods_and_typedefs_def
proof (induction f arbitrary: type_id)
  case (Suc f)
  from good_type_exists [OF assms Suc.prems] obtain t kind where g: "good_type btf type_id t kind" by blast
  show ?case
  proof (cases "kind \<in> set [BTF_KIND_VOLATILE, BTF_KIND_CONST, BTF_KIND_RESTRICT, BTF_KIND_TYPE_TAG, BTF_KIND_TYPEDEF]")
    case True
    with good_ref [OF assms g] obtain r where "t_type t = Inr r" "r < btf__type_cnt btf" by auto
    with Suc.IH [of r] True g show ?thesis by (auto simp: good_type_def)
  next
    case False
    with g show ?thesis by (auto simp: good_type_def)
  qed
qed simp

lemma no_ub_hang: "r = Inl Hang \<Longrightarrow> no_ub r"
  by simp

lemma no_ub_skip:
  "sane btf \<Longrightarrow> type_id < btf__type_cnt btf \<Longrightarrow> no_ub (skip_mods_and_typedefs f btf type_id)"
  using skip_cases [of btf type_id f] by auto

lemma skip_good:
  "sane btf \<Longrightarrow> type_id < btf__type_cnt btf \<Longrightarrow> skip_mods_and_typedefs f btf type_id = Inr (t, id') \<Longrightarrow>
   \<exists>kind. good_type btf id' t kind"
  using skip_cases [of btf type_id f] by auto

text \<open>What is true of the specification between two rounds.\<close>

definition spec_ok :: "btf \<Rightarrow> bpf_core_spec \<Rightarrow> bool" where
  "spec_ok btf spec \<longleftrightarrow> spec_accs spec \<noteq> [] \<and> length (spec_accs spec) \<le> BPF_CORE_SPEC_MAX_LEN \<and>
     (\<forall>acc \<in> set (spec_accs spec). acc_type_id acc < btf__type_cnt btf) \<and> spec_bit_offset spec < 2 ^ 32"

lemma spec_ok_push:
  assumes "spec_ok btf spec \<or> spec_accs spec = [] \<and> spec_bit_offset spec < 2 ^ 32"
    "length (spec_accs spec) < BPF_CORE_SPEC_MAX_LEN" "acc_type_id acc < btf__type_cnt btf"
  shows "\<exists>spec'. push_acc acc spec = Inr spec' \<and> spec_ok btf spec' \<and>
    length (spec_accs spec') = Suc (length (spec_accs spec)) \<and> spec_raw spec' = spec_raw spec"
  using assms by (auto simp: push_acc_def spec_ok_def)

lemma wrap32_less: "wrap32 x < 2 ^ 32"
  by (simp add: wrap32_def nat_less_iff)

lemma spec_ok_add [simp]:
  "spec_ok btf (add_offset x spec) \<longleftrightarrow> spec_accs spec \<noteq> [] \<and> length (spec_accs spec) \<le> BPF_CORE_SPEC_MAX_LEN \<and>
     (\<forall>acc \<in> set (spec_accs spec). acc_type_id acc < btf__type_cnt btf)"
  "spec_accs (add_offset x spec) = spec_accs spec" "spec_raw (add_offset x spec) = spec_raw spec"
  using wrap32_less by (auto simp: spec_ok_def add_offset_def)

lemma no_ub_flex:
  assumes "sane btf" "acc_type_id acc < btf__type_cnt btf"
  shows "no_ub (is_flex_arr btf acc n)"
proof -
  from type_by_id_ok [of btf, OF _ assms(2)] assms(1) obtain t where "btf_type_by_id btf (acc_type_id acc) = Inr t" "tfits t"
    by (auto simp: sane_def)
  then show ?thesis by (auto simp: is_flex_arr_def intro!: safe_intros tfits_safe)
qed

text \<open>Sizes below half a gibibyte: the position of an element, in bits, fits into 64 bits.\<close>

definition small_types :: "btf \<Rightarrow> bool" where
  "small_types btf \<longleftrightarrow> (\<forall>i s. btf__resolve_size btf i = Inr s \<longrightarrow> s < 2 ^ 29)"

lemma index_bits_ok:
  assumes "0 \<le> idx" "idx < 2 ^ 31" "s < 2 ^ 29"
  shows "index_bits idx s = Inr (idx * int s * 8)"
proof -
  have "idx * int s \<le> 2 ^ 31 * 2 ^ 29" using assms by (intro mult_mono) auto
  moreover have "idx * int s \<noteq> 2 ^ 31 * 2 ^ 29"
  proof -
    have "idx * int s \<le> idx * 2 ^ 29" using assms by (intro mult_left_mono) auto
    also have "\<dots> < 2 ^ 31 * 2 ^ 29" using assms(2) by simp
    finally show ?thesis by simp
  qed
  ultimately have "idx * int s < 2 ^ 60" by simp
  moreover have "0 \<le> idx * int s" using assms(1) by simp
  ultimately show ?thesis by (simp add: index_bits_def s64_mul_def)
qed

text \<open>A result that is defined and, where there is one, satisfies a predicate.\<close>

definition ok_res :: "('a \<Rightarrow> bool) \<Rightarrow> 'a res \<Rightarrow> bool" where
  "ok_res P r \<longleftrightarrow> (case r of Inl e \<Rightarrow> e \<noteq> UB | Inr x \<Rightarrow> P x)"

lemma ok_res_simps [simp]: "ok_res P (Inr x) \<longleftrightarrow> P x" "ok_res P (Inl e) \<longleftrightarrow> e \<noteq> UB"
  by (simp_all add: ok_res_def)

lemma ok_res_bind: "ok_res Q m \<Longrightarrow> (\<And>x. Q x \<Longrightarrow> ok_res P (f x)) \<Longrightarrow> ok_res P (bindr m f)"
  by (cases m) auto

lemma ok_res_no_ub: "no_ub m \<Longrightarrow> ok_res (\<lambda>x. m = Inr x) m"
  by (cases m) (auto simp: no_ub_def)

lemma ok_res_mono: "ok_res Q r \<Longrightarrow> (\<And>x. Q x \<Longrightarrow> P x) \<Longrightarrow> ok_res P r"
  by (cases r) auto

lemma ok_res_ub: "ok_res P r \<Longrightarrow> no_ub r"
  by (cases r) (auto simp: no_ub_def)

lemma skip_ok_res:
  "sane btf \<Longrightarrow> i < btf__type_cnt btf \<Longrightarrow>
   ok_res (\<lambda>(t, i'). \<exists>kind. good_type btf i' t kind) (skip_mods_and_typedefs f btf i)"
  using skip_cases [of btf i f] by auto

definition step_ok :: "btf \<Rightarrow> bpf_core_spec \<Rightarrow> nat \<times> bpf_core_spec \<Rightarrow> bool" where
  "step_ok btf spec r \<longleftrightarrow> fst r < btf__type_cnt btf \<and> spec_ok btf (snd r) \<and> spec_raw (snd r) = spec_raw spec \<and>
     length (spec_accs (snd r)) \<le> Suc (length (spec_accs spec))"

lemma spec_ok_accs: "spec_ok btf spec \<Longrightarrow> spec_accs spec \<noteq> [] \<and> (\<forall>acc \<in> set (spec_accs spec). acc_type_id acc < btf__type_cnt btf)"
  by (simp add: spec_ok_def)

lemma push_safe:
  assumes "spec_ok btf spec" "length (spec_accs spec) < BPF_CORE_SPEC_MAX_LEN" "acc_type_id acc < btf__type_cnt btf"
    "\<And>spec'. spec_ok btf spec' \<Longrightarrow> spec_raw spec' = spec_raw spec \<Longrightarrow>
      length (spec_accs spec') = Suc (length (spec_accs spec)) \<Longrightarrow> ok_res P (f spec')"
  shows "ok_res P (bindr (push_acc acc spec) f)"
proof -
  from spec_ok_push [of btf spec acc] assms(1-3) obtain spec' where "push_acc acc spec = Inr spec'" "spec_ok btf spec'"
    "length (spec_accs spec') = Suc (length (spec_accs spec))" "spec_raw spec' = spec_raw spec" by auto
  with assms(4) show ?thesis by simp
qed

lemma spec_ok_add_offset: "spec_ok btf spec \<Longrightarrow> spec_ok btf (add_offset x spec)"
  by (simp, simp add: spec_ok_def)

lemma parse_member_safe:
  assumes s: "sane btf" and g: "good_type btf type_id t kind" "btf_is_composite kind"
    and sp: "spec_ok btf spec" "length (spec_accs spec) < BPF_CORE_SPEC_MAX_LEN" and i: "0 \<le> idx"
  shows "ok_res (step_ok btf spec) (parse_member btf t type_id idx spec)"
proof -
  from good_vlen [OF g(1)] obtain n where n: "btf_vlen t = Inr n" by blast
  show ?thesis
  proof (cases "idx < int n")
    case False
    then show ?thesis by (simp add: parse_member_def n)
  next
    case True
    then have "nat idx < n" using i by simp
    from good_member [OF s g n this] obtain name_off mt bits where
      m: "member_name_off t (nat idx) = Inr name_off" "member_type t (nat idx) = Inr mt" "mt < btf__type_cnt btf"
        "btf_member_bit_offset t (nat idx) = Inr bits" by blast
    define sp1 where "sp1 = add_offset (int bits) spec"
    have sp1: "spec_ok btf sp1" "spec_raw sp1 = spec_raw spec" "spec_accs sp1 = spec_accs spec"
      using spec_ok_add_offset [OF sp(1)] by (simp_all add: sp1_def)
    have id: "type_id < btf__type_cnt btf" using g(1) by (simp add: good_type_def)
    have named: "ok_res (step_ok btf spec) (bindr (push_acc \<lparr>acc_type_id = type_id, acc_idx = nat idx, acc_name = name\<rparr> sp1)
        (\<lambda>spec. Inr (mt, spec)))" for name
      using sp(2) id m(3) by (intro push_safe [OF sp1(1)]) (simp_all add: sp1 step_ok_def)
    have "ok_res (step_ok btf spec) (bindr (name_at btf name_off) (\<lambda>name.
        bindr (if str_is_empty name then Inl (Err EINVAL)
               else push_acc \<lparr>acc_type_id = type_id, acc_idx = nat idx, acc_name = name\<rparr> sp1) (\<lambda>spec. Inr (mt, spec))))"
      using named by (intro ok_res_bind [OF ok_res_no_ub [OF no_ub_name_at [OF s]]]) simp
    moreover have "step_ok btf spec (mt, sp1)" using sp1 m(3) by (simp add: step_ok_def)
    moreover have "elem idx = Inr (nat idx)" "\<not> int n \<le> idx" using i True by (simp_all add: elem_def)
    ultimately show ?thesis
      unfolding parse_member_def sp1_def by (simp add: n m(1,2,4) bindr_assoc)
  qed
qed

lemma parse_element_safe:
  assumes s: "sane btf" "small_types btf" and g: "good_type btf type_id t BTF_KIND_ARRAY"
    and sp: "spec_ok btf spec" "length (spec_accs spec) < BPF_CORE_SPEC_MAX_LEN" and i: "0 \<le> idx" "idx < 2 ^ 31"
  shows "ok_res (step_ok btf spec) (parse_element f btf t idx spec)"
proof -
  from good_array [OF s(1) g] obtain at nelems where
    a: "array_type t = Inr at" "at < btf__type_cnt btf" "array_nelems t = Inr nelems" by blast
  have acc: "spec_accs spec \<noteq> []" "acc_type_id (last (spec_accs spec)) < btf__type_cnt btf"
    using spec_ok_accs [OF sp(1)] by simp_all
  have size: "ok_res (step_ok btf spec)
      (bindr (btf__resolve_size btf id2) (\<lambda>sz. bindr (index_bits idx sz) (\<lambda>bits. Inr (id2, add_offset bits spec'))))"
    if "id2 < btf__type_cnt btf" "spec_ok btf spec'" "spec_raw spec' = spec_raw spec"
      "length (spec_accs spec') = Suc (length (spec_accs spec))" for id2 spec'
  proof (cases "btf__resolve_size btf id2")
    case (Inl e)
    with resolve_size_safe [of btf id2] s(1) show ?thesis by (auto simp: sane_def no_ub_def)
  next
    case (Inr sz)
    with s(2) have "index_bits idx sz = Inr (idx * int sz * 8)"
      by (intro index_bits_ok i) (auto simp: small_types_def)
    with Inr that spec_ok_add_offset [OF that(2)] show ?thesis by (simp add: step_ok_def del: spec_ok_add(1))
  qed
  have push: "ok_res (step_ok btf spec)
      (bindr (push_acc \<lparr>acc_type_id = id2, acc_idx = wrap32 idx, acc_name = None\<rparr> spec) (\<lambda>spec.
       bindr (btf__resolve_size btf id2) (\<lambda>sz. bindr (index_bits idx sz) (\<lambda>bits. Inr (id2, add_offset bits spec)))))"
    if "id2 < btf__type_cnt btf" for id2
    using that sp(2) size by (intro push_safe [OF sp(1)]) simp_all
  show ?thesis
    unfolding parse_element_def a(1,3) bindr_Inr if_not_P [OF acc(1)]
    using push by (auto simp: good_type_def intro!: ok_res_bind [OF skip_ok_res [OF s(1) a(2)]]
        ok_res_bind [OF ok_res_no_ub [OF no_ub_flex [OF s(1) acc(2)]]])
qed

lemma parse_step_safe:
  assumes "sane btf" "small_types btf" "id0 < btf__type_cnt btf" "spec_ok btf spec"
    "length (spec_accs spec) < BPF_CORE_SPEC_MAX_LEN" "0 \<le> idx" "idx < 2 ^ 31"
  shows "ok_res (step_ok btf spec) (parse_step f btf idx (id0, spec))"
  unfolding parse_step_def fst_conv snd_conv
proof (rule ok_res_bind [OF skip_ok_res [OF assms(1,3)]], clarify)
  fix t type_id kind assume g: "good_type btf type_id t kind"
  then have "btf_kind t = Inr kind" by (simp add: good_type_def)
  with parse_member_safe [OF assms(1) g _ assms(4,5,6)] parse_element_safe [OF assms(1,2) _ assms(4-7)] g
  show "ok_res (step_ok btf spec) (bindr (btf_kind t) (\<lambda>kind.
       if btf_is_composite kind then parse_member btf t type_id idx spec
       else if kind = BTF_KIND_ARRAY then parse_element f btf t idx spec
       else Inl (Err EINVAL)))" by auto
qed

lemma scan_int_range: "scan_int s = Inr (Some (x, rest)) \<Longrightarrow> - (2 ^ 31) \<le> x \<and> x < 2 ^ 31"
  by (auto simp: scan_int_def Let_def split: if_splits)

lemma parse_raw_facts:
  "parse_raw s raw = Inr res \<Longrightarrow> length raw \<le> BPF_CORE_SPEC_MAX_LEN \<Longrightarrow> \<forall>x \<in> set raw. x < 2 ^ 31 \<Longrightarrow>
   length res \<le> BPF_CORE_SPEC_MAX_LEN \<and> (\<forall>x \<in> set res. x < 2 ^ 31)"
proof (induction s raw rule: parse_raw.induct)
  case (1 s raw)
  show ?case
  proof (cases "s = []")
    case True
    with "1.prems" show ?thesis by (simp add: parse_raw.simps)
  next
    case False
    with "1.prems"(1) obtain x rest where r: "scan_int (if hd s = 58 then tl s else s) = Inr (Some (x, rest))"
      "length raw \<noteq> BPF_CORE_SPEC_MAX_LEN" "parse_raw rest (raw @ [x]) = Inr res"
      by (subst (asm) parse_raw.simps) (auto simp: bindr_eq_Inr split: option.splits if_splits)
    have "length (raw @ [x]) \<le> BPF_CORE_SPEC_MAX_LEN" "\<forall>y \<in> set (raw @ [x]). y < 2 ^ 31"
      using r(2) "1.prems"(2,3) scan_int_range [OF r(1)] by auto
    from "1.IH" [OF False r(1) refl refl r(2,3) this] show ?thesis .
  qed
qed

lemma parse_steps_safe:
  assumes "sane btf" "small_types btf"
  shows "id0 < btf__type_cnt btf \<Longrightarrow> spec_ok btf spec \<Longrightarrow>
    length (spec_accs spec) + length idxs \<le> BPF_CORE_SPEC_MAX_LEN \<Longrightarrow> \<forall>x \<in> set idxs. 0 \<le> x \<and> x < 2 ^ 31 \<Longrightarrow>
    ok_res (\<lambda>(_, spec'). spec_ok btf spec' \<and> spec_raw spec' = spec_raw spec) (parse_steps f btf idxs (id0, spec))"
proof (induction idxs arbitrary: id0 spec)
  case (Cons idx idxs)
  have "ok_res (step_ok btf spec) (parse_step f btf idx (id0, spec))"
    using Cons.prems by (intro parse_step_safe assms) auto
  then show ?case
    unfolding parse_steps.simps
  proof (rule ok_res_bind, clarify)
    fix id1 spec1 assume "step_ok btf spec (id1, spec1)"
    then have "id1 < btf__type_cnt btf" "spec_ok btf spec1" "spec_raw spec1 = spec_raw spec"
      "length (spec_accs spec1) \<le> Suc (length (spec_accs spec))" by (simp_all add: step_ok_def)
    with Cons.IH [of id1 spec1] Cons.prems(3,4)
    show "ok_res (\<lambda>(_, spec'). spec_ok btf spec' \<and> spec_raw spec' = spec_raw spec) (parse_steps f btf idxs (id1, spec1))"
      by simp
  qed
qed simp

lemma good_enum:
  assumes "sane btf" "good_type btf type_id t kind" "btf_is_any_enum kind" "btf_vlen t = Inr n" "i < n"
  shows "no_ub (enum_name_off kind t i)"
proof -
  from assms(2) have t: "tfits t" "btf_kind t = Inr kind" by (auto simp: good_type_def)
  from tfits_words [OF t(1)] t(2) assms(3,4) obtain w where w: "rest_words kind n = Some w"
    "\<forall>k. k + 4 \<le> 12 + 4 * w \<longrightarrow> no_ub (tword t k)" by (auto simp: btf_is_any_enum_def)
  let ?z = "if kind = BTF_KIND_ENUM then 8 else 12 :: nat"
  have "12 + i * ?z + 0 + 4 \<le> 12 + n * ?z" by (rule element_inside [OF assms(5)]) simp
  moreover have "4 * w = n * ?z" using w(1) assms(3) by (auto simp: btf_is_any_enum_def)
  ultimately show ?thesis using w(2) by (simp add: enum_name_off_def)
qed

text \<open>The three kinds of specification, and all of them.\<close>

definition parsed_ok :: "btf \<Rightarrow> bpf_core_spec \<Rightarrow> bool" where
  "parsed_ok btf spec \<longleftrightarrow> spec_btf spec = btf \<and>
     (if core_relo_is_type_based (spec_kind spec) then spec_accs spec = [] \<and> spec_bit_offset spec = 0
      else spec_ok btf spec)"

lemma step_keeps:
  "parse_step f btf idx st = Inr r \<Longrightarrow> spec_btf (snd r) = spec_btf (snd st) \<and> spec_kind (snd r) = spec_kind (snd st)"
  by (auto simp: parse_step_def parse_member_def parse_element_def push_acc_def add_offset_def bindr_eq_Inr split: if_splits)

lemma steps_keep:
  "parse_steps f btf idxs st = Inr r \<Longrightarrow> spec_btf (snd r) = spec_btf (snd st) \<and> spec_kind (snd r) = spec_kind (snd st)"
proof (induction idxs arbitrary: st)
  case (Cons idx idxs)
  then obtain st1 where "parse_step f btf idx st = Inr st1" "parse_steps f btf idxs st1 = Inr r" by (auto simp: bindr_eq_Inr)
  with Cons.IH [of st1] step_keeps [of f btf idx st st1] show ?case by simp
qed simp

text \<open>The specification after the numbers are parsed.\<close>

definition raw_spec_ok :: "btf \<Rightarrow> bpf_core_spec \<Rightarrow> bool" where
  "raw_spec_ok btf spec \<longleftrightarrow> spec_btf spec = btf \<and> \<not> core_relo_is_type_based (spec_kind spec) \<and>
     spec_accs spec = [] \<and> spec_bit_offset spec = 0 \<and> spec_root spec < btf__type_cnt btf \<and>
     spec_raw spec \<noteq> [] \<and> length (spec_raw spec) \<le> BPF_CORE_SPEC_MAX_LEN \<and>
     (\<forall>x \<in> set (spec_raw spec). 0 \<le> x \<and> x < 2 ^ 31)"

lemma first_push:
  assumes "raw_spec_ok btf spec" "acc_type_id acc < btf__type_cnt btf"
  shows "push_acc acc spec = Inr (spec\<lparr>spec_accs := [acc]\<rparr>)" "spec_ok btf (spec\<lparr>spec_accs := [acc]\<rparr>)"
  using assms by (simp_all add: push_acc_def raw_spec_ok_def spec_ok_def BPF_CORE_SPEC_MAX_LEN_def)

lemma parse_enumval_safe:
  assumes s: "sane btf" and g: "good_type btf type_id t kind" and sp: "raw_spec_ok btf spec"
  shows "ok_res (parsed_ok btf) (parse_enumval btf t kind type_id spec)"
proof -
  let ?idx = "hd (spec_raw spec)"
  from good_vlen [OF g] obtain n where n: "btf_vlen t = Inr n" by blast
  show ?thesis
  proof (cases "btf_is_any_enum kind \<and> ?idx < int n \<and> length (spec_raw spec) = 1")
    case False
    moreover have "length (spec_raw spec) = 1 \<or> 1 < length (spec_raw spec)"
      using sp by (cases "spec_raw spec") (auto simp: raw_spec_ok_def)
    ultimately show ?thesis by (auto simp: parse_enumval_def n Let_def)
  next
    case True
    have i: "0 \<le> ?idx" using sp by (simp add: raw_spec_ok_def)
    with True have lt: "nat ?idx < n" by (simp add: nat_less_iff)
    have e: "no_ub (enum_name_off kind t (nat ?idx))" using True by (intro good_enum [OF s g _ n lt]) simp
    have id: "type_id < btf__type_cnt btf" using g by (simp add: good_type_def)
    have p: "ok_res (parsed_ok btf) (push_acc \<lparr>acc_type_id = type_id, acc_idx = nat ?idx, acc_name = name\<rparr> spec)" for name
      using first_push [OF sp, of "\<lparr>acc_type_id = type_id, acc_idx = nat ?idx, acc_name = name\<rparr>"] id sp
      by (simp add: parsed_ok_def raw_spec_ok_def)
    from True i have "parse_enumval btf t kind type_id spec =
      bindr (enum_name_off kind t (nat ?idx)) (\<lambda>name_off. bindr (name_at btf name_off) (\<lambda>name.
        push_acc \<lparr>acc_type_id = type_id, acc_idx = nat ?idx, acc_name = name\<rparr> spec))"
      by (simp add: parse_enumval_def n elem_def Let_def)
    then show ?thesis
      by (simp, intro ok_res_bind [OF ok_res_no_ub [OF e]] ok_res_bind [OF ok_res_no_ub [OF no_ub_name_at [OF s]]] p)
  qed
qed

lemma parse_fields_safe:
  assumes s: "sane btf" "small_types btf" and id: "type_id < btf__type_cnt btf" and sp: "raw_spec_ok btf spec"
  shows "ok_res (parsed_ok btf) (parse_fields f btf type_id spec)"
proof -
  let ?idx = "hd (spec_raw spec)"
  let ?acc = "\<lparr>acc_type_id = type_id, acc_idx = wrap32 ?idx, acc_name = None\<rparr>"
  define spec1 where "spec1 = spec\<lparr>spec_accs := [?acc]\<rparr>"
  have push: "push_acc ?acc spec = Inr spec1" "spec_ok btf spec1"
    using first_push [OF sp, of ?acc] id by (simp_all add: spec1_def)
  have sp1: "length (spec_accs spec1) = 1" "spec_raw spec1 = spec_raw spec" "spec_btf spec1 = btf"
    "\<not> core_relo_is_type_based (spec_kind spec1)" using sp by (simp_all add: spec1_def raw_spec_ok_def)
  show ?thesis
  proof (cases "btf__resolve_size btf type_id")
    case (Inl e)
    with resolve_size_safe [of btf type_id] s(1) show ?thesis
      by (auto simp: sane_def no_ub_def parse_fields_def push(1) Let_def)
  next
    case (Inr sz)
    have i: "0 \<le> ?idx" "?idx < 2 ^ 31" using sp by (simp_all add: raw_spec_ok_def)
    have b: "index_bits ?idx sz = Inr (?idx * int sz * 8)"
      using s(2) Inr by (intro index_bits_ok i) (auto simp: small_types_def)
    let ?st = "(type_id, add_offset (?idx * int sz * 8) spec1)"
    have len: "length (spec_accs spec1) + length (tl (spec_raw spec)) \<le> BPF_CORE_SPEC_MAX_LEN"
      "\<forall>x \<in> set (tl (spec_raw spec)). 0 \<le> x \<and> x < 2 ^ 31"
      using sp sp1(1) by (cases "spec_raw spec"; simp add: raw_spec_ok_def)+
    have st: "ok_res (\<lambda>(_, spec'). spec_ok btf spec' \<and> spec_raw spec' = spec_raw (snd ?st))
        (parse_steps f btf (tl (spec_raw spec)) ?st)"
      using parse_steps_safe [OF s id spec_ok_add_offset [OF push(2)] _ len(2)] len(1) by simp
    have "ok_res (parsed_ok btf) (bindr (parse_steps f btf (tl (spec_raw spec)) ?st) (\<lambda>(_, spec). Inr spec))"
    proof (cases "parse_steps f btf (tl (spec_raw spec)) ?st")
      case (Inl e)
      with st show ?thesis by simp
    next
      case (Inr st2)
      with st steps_keep [OF Inr] sp1 show ?thesis
        by (cases st2) (simp add: parsed_ok_def add_offset_def)
    qed
    then show ?thesis by (simp add: parse_fields_def Let_def push(1) Inr b sp1(2))
  qed
qed

lemma parse_root_safe:
  assumes s: "sane btf" "small_types btf" and sp: "raw_spec_ok btf spec"
  shows "ok_res (parsed_ok btf) (parse_root f btf spec)"
proof -
  have id: "spec_root spec < btf__type_cnt btf" using sp by (simp add: raw_spec_ok_def)
  show ?thesis
    unfolding parse_root_def
  proof (rule ok_res_bind [OF skip_ok_res [OF s(1) id]], clarify)
    fix t type_id kind assume g: "good_type btf type_id t kind"
    with parse_enumval_safe [OF s(1) g sp] parse_fields_safe [OF s _ sp, of type_id f]
    show "ok_res (parsed_ok btf) (bindr (btf_kind t) (\<lambda>kind.
       if core_relo_is_enumval_based (spec_kind spec) then parse_enumval btf t kind type_id spec
       else if \<not> core_relo_is_field_based (spec_kind spec) then Inl (Err EINVAL)
       else parse_fields f btf type_id spec))" by (simp add: good_type_def)
  qed
qed

lemma parse_spec_safe:
  assumes s: "sane btf" "small_types btf" and id: "relo_type_id relo < btf__type_cnt btf"
    and str: "\<And>s. name_at btf (relo_access_str_off relo) = Inr (Some s) \<Longrightarrow> ok_res (\<lambda>raw. \<forall>x \<in> set raw. 0 \<le> x) (parse_raw s [])"
  shows "ok_res (parsed_ok btf) (bpf_core_parse_spec f btf relo)"
proof (cases "\<exists>s raw. name_at btf (relo_access_str_off relo) = Inr (Some s) \<and> parse_raw s [] = Inr raw \<and> raw \<noteq> []
    \<and> \<not> core_relo_is_type_based (relo_kind_of relo)")
  case True
  then obtain n raw where n: "name_at btf (relo_access_str_off relo) = Inr (Some n)" "parse_raw n [] = Inr raw" "raw \<noteq> []"
    "\<not> core_relo_is_type_based (relo_kind_of relo)" by blast
  let ?spec = "spec_new btf (relo_type_id relo) (relo_kind_of relo)\<lparr>spec_raw := raw\<rparr>"
  have "raw_spec_ok btf ?spec"
    using parse_raw_facts [OF n(2)] str [OF n(1)] n id by (auto simp: raw_spec_ok_def spec_new_def)
  from parse_root_safe [OF s this] n show ?thesis by (simp add: bpf_core_parse_spec_def Let_def)
next
  case False
  show ?thesis
    unfolding bpf_core_parse_spec_def
  proof (rule ok_res_bind [OF ok_res_no_ub [OF no_ub_name_at [OF s(1)]]])
    fix n assume n: "name_at btf (relo_access_str_off relo) = Inr n"
    show "ok_res (parsed_ok btf) (if str_is_empty n \<or> hd (the n) = 58 then Inl (Err EINVAL)
     else
       let spec = spec_new btf (relo_type_id relo) (relo_kind_of relo) in
       if core_relo_is_type_based (relo_kind_of relo)
       then if the n \<noteq> [48] then Inl (Err EINVAL) else Inr spec
       else
         bindr (parse_raw (the n) []) (\<lambda>raw.
         if raw = [] then Inl (Err EINVAL) else parse_root f btf (spec\<lparr>spec_raw := raw\<rparr>)))"
    proof (cases n)
      case None
      then show ?thesis by (simp add: str_is_empty_def)
    next
      case (Some m)
      with n False str [of m] show ?thesis
        by (cases "parse_raw m []") (auto simp: Let_def parsed_ok_def spec_new_def)
    qed
  qed
qed

section \<open>The search for a member ends\<close>

definition ends :: "'a res \<Rightarrow> bool" where "ends r \<longleftrightarrow> r \<noteq> Inl Hang"

lemma ends_simps [simp]: "ends (Inr x)" "ends (Inl (Err e))" "ends (Inl UB)" "\<not> ends (Inl Hang)"
  by (simp_all add: ends_def)

lemma ends_bind: "ends m \<Longrightarrow> (\<And>x. m = Inr x \<Longrightarrow> ends (f x)) \<Longrightarrow> ends (bindr m f)"
  by (cases m) (auto simp: ends_def)

lemma ends_tword: "ends (tword t k)"
  using tword_cases [of t k] by auto

lemma ends_str: "ends (btf__str_by_offset btf off)"
  by (induction btf off rule: btf__str_by_offset.induct) auto

lemma ends_name_at: "ends (name_at btf off)"
  by (auto simp: name_at_def btf__name_by_offset_def c_str_def intro!: ends_bind ends_str split: option.splits)

lemma ends_by_id: "ends (btf_type_by_id btf i)"
  by (induction btf i rule: btf_type_by_id.induct) (auto simp: arr_def)

lemma ends_fields: "ends (btf_kind t)" "ends (btf_vlen t)" "ends (btf_kflag t)" "ends (member_type t i)"
  "ends (member_name_off t i)" "ends (member_offset t i)"
  by (auto simp: btf_kind_def btf_vlen_def btf_kflag_def member_type_def member_name_off_def member_offset_def
      intro!: ends_bind ends_tword)

lemma ends_bits: "ends (btf_member_bit_offset t i)"
  by (auto simp: btf_member_bit_offset_def intro!: ends_bind ends_fields)

text \<open>
  A search that ends, with a result that satisfies a predicate; when no member is found, no entry
  of \<open>raw_spec\<close> is lost.
\<close>

definition ends_with :: "('a \<Rightarrow> bool) \<Rightarrow> 'a res \<Rightarrow> bool" where
  "ends_with P r \<longleftrightarrow> (case r of Inl e \<Rightarrow> e \<noteq> Hang | Inr x \<Rightarrow> P x)"

lemma ends_with_simps [simp]: "ends_with P (Inr x) \<longleftrightarrow> P x" "ends_with P (Inl e) \<longleftrightarrow> e \<noteq> Hang"
  by (simp_all add: ends_with_def)

lemma ends_with_bind: "ends m \<Longrightarrow> (\<And>x. m = Inr x \<Longrightarrow> ends_with P (f x)) \<Longrightarrow> ends_with P (bindr m f)"
  by (cases m) (auto simp: ends_def)

lemma ends_with_bind2: "ends_with Q m \<Longrightarrow> (\<And>x. Q x \<Longrightarrow> ends_with P (f x)) \<Longrightarrow> ends_with P (bindr m f)"
  by (cases m) auto

definition kept :: "bpf_core_spec \<Rightarrow> bool \<times> bpf_core_spec \<times> nat \<Rightarrow> bool" where
  "kept spec r \<longleftrightarrow> (case r of (found, spec', _) \<Rightarrow>
     length (spec_raw spec') \<le> BPF_CORE_SPEC_MAX_LEN \<and> (\<not> found \<longrightarrow> length (spec_raw spec) \<le> length (spec_raw spec')))"

lemma raw_lengths:
  "push_raw bits i spec = Inr spec' \<Longrightarrow> length (spec_raw spec') = Suc (length (spec_raw spec))"
  "length (spec_raw (pop_raw bits spec)) = length (spec_raw spec) - 1"
  "push_acc acc spec = Inr spec' \<Longrightarrow> spec_raw spec' = spec_raw spec"
  "spec_raw (pop_acc spec) = spec_raw spec"
  by (auto simp: push_raw_def pop_raw_def push_acc_def pop_acc_def split: if_splits)

lemma ends_push: "ends (push_raw bits i spec)" "ends (push_acc acc spec)"
  by (auto simp: push_raw_def push_acc_def)

lemma match_members_ends:
  assumes rec: "\<And>mt spec' nid. length (spec_raw spec') \<le> BPF_CORE_SPEC_MAX_LEN \<Longrightarrow> lo < length (spec_raw spec') \<Longrightarrow>
      ends_with (kept spec') (rec mt spec' nid)"
    and compat: "\<And>l t. ends (bpf_core_fields_are_compat f local_btf l targ_btf t)"
  shows "lo \<le> length (spec_raw spec) \<Longrightarrow> length (spec_raw spec) \<le> BPF_CORE_SPEC_MAX_LEN \<Longrightarrow>
    ends_with (kept spec) (match_members rec f local_btf ln lm_type targ_btf tt tid is spec nid)"
proof (induction "is" arbitrary: spec nid)
  case (Cons i "is")
  have push: "length (spec_raw spec1) = Suc (length (spec_raw spec)) \<and> length (spec_raw spec1) \<le> BPF_CORE_SPEC_MAX_LEN"
    if "push_raw bits i spec = Inr spec1" for bits spec1
    using raw_lengths(1) [OF that] that Cons.prems by (auto simp: push_raw_def split: if_splits)
  have again: "ends_with (kept spec) (match_members rec f local_btf ln lm_type targ_btf tt tid is (pop_raw bits spec2) nid2)"
    if "Suc (length (spec_raw spec)) \<le> length (spec_raw spec2)" "length (spec_raw spec2) \<le> BPF_CORE_SPEC_MAX_LEN" for bits spec2 nid2
  proof -
    have "ends_with (kept (pop_raw bits spec2)) (match_members rec f local_btf ln lm_type targ_btf tt tid is (pop_raw bits spec2) nid2)"
      using that Cons.prems by (intro Cons.IH) (simp_all add: raw_lengths(2))
    then show ?thesis using that raw_lengths(2) [of bits spec2]
      by (auto simp: ends_with_def kept_def split: sum.splits)
  qed
  have deeper: "ends_with (kept spec) (bindr (rec mt spec1 nid) (\<lambda>(found, spec, nid).
      if found then Inr (True, spec, nid)
      else match_members rec f local_btf ln lm_type targ_btf tt tid is (pop_raw bits spec) nid))"
    if "push_raw bits i spec = Inr spec1" for bits spec1 mt
    using push [OF that] Cons.prems(1)
    by (intro ends_with_bind2 [OF rec]) (auto simp: kept_def intro!: again)
  have found: "ends_with (kept spec) (bindr (push_acc acc spec1) (\<lambda>spec.
         bindr (bpf_core_fields_are_compat f local_btf lm_type targ_btf mt) (\<lambda>found.
           Inr (found, if found then spec else pop_acc spec, mt))))"
    if "push_raw bits i spec = Inr spec1" for bits spec1 acc mt
    using push [OF that]
    by (intro ends_with_bind ends_push compat) (auto simp: kept_def raw_lengths)
  show ?case
    unfolding match_members.simps
  proof (intro ends_with_bind ends_bits ends_push ends_fields)
    fix bits spec1 assume p: "push_raw bits i spec = Inr spec1"
    show "ends (bindr (member_name_off tt i) (name_at targ_btf))"
      by (intro ends_bind ends_fields ends_name_at)
    fix tn mt
    have "ends (deref ln)" by (simp add: deref_def split: option.split)
    then have "ends_with (kept spec) (bindr (deref ln) (\<lambda>ln'.
       if ln' = the tn
       then
         bindr (push_acc \<lparr>acc_type_id = tid, acc_idx = i, acc_name = tn\<rparr> spec1) (\<lambda>spec.
         bindr (bpf_core_fields_are_compat f local_btf lm_type targ_btf mt) (\<lambda>found.
           Inr (found, if found then spec else pop_acc spec, mt)))
       else match_members rec f local_btf ln lm_type targ_btf tt tid is (pop_raw bits spec1) nid))"
      using found [OF p] again [of spec1 bits nid] push [OF p]
      by (intro ends_with_bind) auto
    with deeper [OF p] show "ends_with (kept spec) (if str_is_empty tn
     then
       bindr (rec mt spec1 nid) (\<lambda>(found, spec, nid).
       if found then Inr (True, spec, nid)
       else match_members rec f local_btf ln lm_type targ_btf tt tid is (pop_raw bits spec) nid)
     else
       bindr (deref ln) (\<lambda>ln'.
       if ln' = the tn
       then
         bindr (push_acc \<lparr>acc_type_id = tid, acc_idx = i, acc_name = tn\<rparr> spec1) (\<lambda>spec.
         bindr (bpf_core_fields_are_compat f local_btf lm_type targ_btf mt) (\<lambda>found.
           Inr (found, if found then spec else pop_acc spec, mt)))
       else match_members rec f local_btf ln lm_type targ_btf tt tid is (pop_raw bits spec1) nid))"
      by simp
  qed
qed (simp add: kept_def)

lemma match_member_ends:
  assumes skip: "\<And>i. ends (skip_mods_and_typedefs f targ_btf i)"
    and compat: "\<And>l t. ends (bpf_core_fields_are_compat f local_btf l targ_btf t)"
  shows "length (spec_raw spec) \<le> BPF_CORE_SPEC_MAX_LEN \<Longrightarrow> BPF_CORE_SPEC_MAX_LEN < length (spec_raw spec) + n \<Longrightarrow>
    ends_with (kept spec) (match_member n f local_btf local_acc targ_btf targ_id spec nid)"
proof (induction n arbitrary: targ_id spec nid)
  case (Suc n)
  have rec: "ends_with (kept spec') (match_member n f local_btf local_acc targ_btf mt spec' nid')"
    if "length (spec_raw spec') \<le> BPF_CORE_SPEC_MAX_LEN" "length (spec_raw spec) < length (spec_raw spec')" for spec' mt nid'
    using that Suc.prems by (intro Suc.IH) auto
  have name: "ends (bindr (member_name_off lt i) (name_at local_btf))" for lt i
    by (intro ends_bind ends_fields ends_name_at)
  have members: "ends_with (kept spec) (match_members (match_member n f local_btf local_acc targ_btf) f local_btf ln lm_type
      targ_btf tt tid is spec nid)" for ln lm_type tt tid "is"
    using Suc.prems(1) by (intro match_members_ends [where lo = "length (spec_raw spec)"] rec compat) auto
  have stop: "kept spec (False, spec, nid)" using Suc.prems(1) by (simp add: kept_def)
  show ?case
    unfolding match_member.simps
    by (rule ends_with_bind [OF skip], clarify, rule ends_with_bind [OF ends_fields(1)])
      (auto simp: stop intro!: ends_with_bind ends_by_id name ends_fields members)
qed simp

section \<open>Properties\<close>


lemma parse_raw_0_2: "parse_raw (asc ''0:2'') [] = Inr [0, 2]"
proof -
  have "asc ''0:2'' = [48, 58, 50]" by (simp add: asc_def)
  then show ?thesis
    by (simp add: parse_raw.simps scan_int_def is_space_def is_digit_def digits_value_def Let_def BPF_CORE_SPEC_MAX_LEN_def)
qed

lemma sample_name_8: "name_at sample_btf 8 = Inr (Some (asc ''0:2''))"
  by (simp add: name_at_def btf__name_by_offset_def sample_btf_def c_str_def terminated_def cstr_at_def asc_def)

lemma sample_small: "small_types sample_btf"
proof -
  note facts = sample_at sample_info void_fields kind_lists
  have k: "\<not> has_size sample_btf d 0 s" for d s
    by (rule notI, erule has_size.cases) (simp_all add: facts del: One_nat_def)
  have s1: "has_size sample_btf d 1 s \<Longrightarrow> s = 8" for d s
    by (erule has_size.cases) (auto simp: facts simp del: One_nat_def)
  have s2: "has_size sample_btf d 2 s \<Longrightarrow> s = 8" for d s
    by (erule has_size.cases) (auto simp: facts simp del: One_nat_def dest: s1)
  have s3: "has_size sample_btf d 3 s \<Longrightarrow> s = 24" for d s
    by (erule has_size.cases) (auto simp add: facts simp del: One_nat_def dest: s2)
  have "s < 2 ^ 29" if r: "btf__resolve_size sample_btf i = Inr s" for i s
  proof -
    from resolve_size_exact(1) [OF sample_ok(1) r] obtain d where d: "has_size sample_btf d i s" by blast
    then obtain t where "type_at sample_btf i = Inr t" by (auto elim: has_size.cases)
    then have "i < 4" using sample_ok(3) by (auto simp: type_at_Inr btf__type_by_id_def split: if_splits)
    then have "i = 0 \<or> i = 1 \<or> i = 2 \<or> i = 3" by auto
    then show ?thesis
    proof (elim disjE)
      show ?thesis if "i = 0" using d k that by blast
      show ?thesis if "i = 1" using s1 [of d s] d that by simp
      show ?thesis if "i = 2" using s2 [of d s] d that by simp
      show ?thesis if "i = 3" using s3 [of d s] d that by simp
    qed
  qed
  then show ?thesis by (auto simp: small_types_def)
qed


text \<open>
  A negative number in the access string is not refused: the index is compared as a
  signed number with the number of members only, so that a member before the first one is read.
  The object is one that passes all checks: \<open>struct s { int a; }\<close> and the access string \<open>0:-1\<close>.
\<close>

definition neg_types :: "u8 list" where
  "neg_types =
    [0, 0, 0, 0, 0, 0, 0, 1, 4, 0, 0, 0, 32, 0, 0, 1,
     1, 0, 0, 0, 1, 0, 0, 4, 4, 0, 0, 0, 3, 0, 0, 0, 1, 0, 0, 0, 0, 0, 0, 0]"

definition neg_btf :: btf where
  "neg_btf = [\<lparr>btf_types = neg_types, btf_type_offs = [0, 16], btf_start_id = 1, btf_start_str_off = 0,
     btf_strs = 0 # asc ''s'' @ [0] @ asc ''a'' @ [0] @ asc ''0:-1'' @ [0], btf_swapped_endian = False,
     btf_ptr_size = 0\<rparr>]"

lemma neg_info:
  "btf_kind (Type_At neg_types 0) = Inr BTF_KIND_INT" "btf_kind (Type_At neg_types 16) = Inr BTF_KIND_STRUCT"
  "btf_vlen (Type_At neg_types 16) = Inr 1" "t_size (Type_At neg_types 16) = Inr 4"
  "btf_type_size (Type_At neg_types 0) = Inr 16" "btf_type_size (Type_At neg_types 16) = Inr 24"
  "t_name_off (Type_At neg_types 0) = Inr 0" "t_name_off (Type_At neg_types 16) = Inr 1"
  "tword (Type_At neg_types 16) 12 = Inr 3" "tword (Type_At neg_types 16) 16 = Inr 1"
  "btf_vlen (Type_At neg_types 0) = Inr 0"
  by (simp_all add: type_eval neg_types_def)

lemma neg_at: "type_at neg_btf 1 = Inr (Type_At neg_types 0)" "type_at neg_btf 2 = Inr (Type_At neg_types 16)"
  by (simp_all add: neg_btf_def type_at_def btf__type_by_id_def btf__type_cnt_def deref_def)

lemma neg_sane: "sane neg_btf"
proof -
  have len: "length neg_types = 40" by (simp add: neg_types_def)
  have "btf_ok neg_btf" "neg_btf \<noteq> []"
    by (simp_all add: neg_btf_def layer_ok_def neg_info len)
  moreover have "btf_sanity_check neg_btf = Inr ()"
  proof -
    have id: "btf_validate_id neg_btf 1 = Inr ()" using neg_at(1) by (simp add: type_at_Inr btf_validate_id_def)
    have str: "btf_validate_str neg_btf 0 = Inr ()" "btf_validate_str neg_btf 1 = Inr ()" "btf_validate_str neg_btf 3 = Inr ()"
      by (simp_all add: btf_validate_str_def neg_btf_def asc_def)
    have "btf_validate_type neg_btf (Type_At neg_types 0) = Inr ()" "btf_validate_type neg_btf (Type_At neg_types 16) = Inr ()"
      using neg_info id str by (simp_all add: btf_validate_type_def check_kind_def check_name_def check_type_def)
    moreover have "btf_type_by_id neg_btf (i + 1) = Inr (Type_At neg_types ([0, 16] ! i))" if "i < 2" for i
      using that by (simp add: neg_btf_def)
    ultimately have "bindr (btf_type_by_id neg_btf (i + 1)) (btf_validate_type neg_btf) = Inr ()" if "i < 2" for i
      using that by (auto simp: less_Suc_eq numeral_2_eq_2)
    then show ?thesis by (simp add: btf_sanity_check_def check_all_Inr) (simp add: neg_btf_def btf__type_cnt_def)
  qed
  ultimately show ?thesis by (simp add: sane_def)
qed

theorem bpf_core_parse_spec_negative:
  "sane neg_btf \<and> name_at neg_btf 5 = Inr (Some (asc ''0:-1'')) \<and>
   bpf_core_parse_spec (Suc f) neg_btf
     \<lparr>relo_type_id = 2, relo_access_str_off = 5, relo_kind_of = BPF_CORE_FIELD_BYTE_OFFSET\<rparr> = Inl UB"
proof -
  have name: "name_at neg_btf 5 = Inr (Some (asc ''0:-1''))"
    by (simp add: name_at_def btf__name_by_offset_def neg_btf_def c_str_def terminated_def cstr_at_def asc_def)
  have str: "asc ''0:-1'' = [48, 58, 45, 49]" by (simp add: asc_def)
  have raw: "parse_raw (asc ''0:-1'') [] = Inr [0, - 1]"
    unfolding str
    by (simp add: parse_raw.simps scan_int_def is_space_def is_digit_def digits_value_def Let_def BPF_CORE_SPEC_MAX_LEN_def)
  have skip: "skip_mods_and_typedefs (Suc f) neg_btf 2 = Inr (Type_At neg_types 16, 2)"
    using neg_at(2) neg_info(2) by (simp add: skip_mods_and_typedefs_def)
  have "has_size neg_btf 0 2 4"
    by (rule has_size_sized [OF neg_at(2) neg_info(2) _ neg_info(4)]) (simp add: kind_lists)
  with resolve_size_exact(2) [of neg_btf 0 2 4] neg_sane have sz: "btf__resolve_size neg_btf 2 = Inr 4"
    by (simp add: sane_def MAX_RESOLVE_DEPTH_def UINT32_MAX_def)
  have kinds: "btf_is_composite BTF_KIND_STRUCT" "\<not> core_relo_is_type_based BPF_CORE_FIELD_BYTE_OFFSET"
    "\<not> core_relo_is_enumval_based BPF_CORE_FIELD_BYTE_OFFSET" "core_relo_is_field_based BPF_CORE_FIELD_BYTE_OFFSET"
    by (simp_all add: btf_is_composite_def core_relo_is_type_based_def core_relo_is_enumval_based_def
        core_relo_is_field_based_def)
  have "parse_root (Suc f) neg_btf (spec_new neg_btf 2 BPF_CORE_FIELD_BYTE_OFFSET\<lparr>spec_raw := [0, - 1]\<rparr>) = Inl UB"
    by (simp add: parse_root_def parse_fields_def spec_new_def skip neg_info sz kinds push_acc_def BPF_CORE_SPEC_MAX_LEN_def
        index_bits_def s64_mul_def parse_step_def parse_member_def elem_def Let_def)
  then show ?thesis using neg_sane name raw str kinds by (simp add: bpf_core_parse_spec_def str_is_empty_def Let_def)
qed

text \<open>
  Comparing types can follow a reference that was never checked: the check of an
  object skips the return type of a function prototype, and the comparison of two prototypes looks
  it up without a test for NULL.
\<close>

definition proto_types :: "u8 list" where "proto_types = [0, 0, 0, 0, 0, 0, 0, 13, 9, 0, 0, 0]"

definition proto_btf :: btf where
  "proto_btf = [\<lparr>btf_types = proto_types, btf_type_offs = [0], btf_start_id = 1, btf_start_str_off = 0,
     btf_strs = [0], btf_swapped_endian = False, btf_ptr_size = 0\<rparr>]"

theorem bpf_core_types_are_compat_unchecked:
  "sane proto_btf \<and> bpf_core_types_are_compat (Suc f) proto_btf 1 proto_btf 1 = Inl UB"
proof -
  have i: "btf_kind (Type_At proto_types 0) = Inr BTF_KIND_FUNC_PROTO" "btf_vlen (Type_At proto_types 0) = Inr 0"
    "t_type (Type_At proto_types 0) = Inr 9" "btf_type_size (Type_At proto_types 0) = Inr 12"
    "t_name_off (Type_At proto_types 0) = Inr 0" "length proto_types = 12"
    by (simp_all add: type_eval proto_types_def)
  have at: "type_at proto_btf 1 = Inr (Type_At proto_types 0)" "btf_type_by_id proto_btf 1 = Inr (Type_At proto_types 0)"
    "type_at proto_btf 9 = Inl UB"
    by (simp_all add: proto_btf_def type_at_def btf__type_by_id_def btf__type_cnt_def deref_def)
  have "btf_ok proto_btf" "proto_btf \<noteq> []" by (simp_all add: proto_btf_def layer_ok_def i)
  moreover have "btf_validate_type proto_btf (Type_At proto_types 0) = Inr ()"
    by (simp add: btf_validate_type_def check_kind_def i btf_validate_str_def) (simp add: proto_btf_def)
  then have "btf_sanity_check proto_btf = Inr ()"
    using at(2) by (simp add: btf_sanity_check_def check_all_Inr) (simp add: proto_btf_def btf__type_cnt_def)
  moreover have skip: "skip_mods_and_typedefs (Suc f) proto_btf 1 = Inr (Type_At proto_types 0, 1)"
    "skip_mods_and_typedefs (Suc f) proto_btf 9 = Inl UB"
    using at i by (simp_all add: skip_mods_and_typedefs_def del: One_nat_def)
  have "types_compat_loop (Suc d) rec (Suc f) proto_btf 1 proto_btf 1 deeper = Inl UB" for d rec deeper
    by (simp add: skip i btf_kind_core_compat_def del: One_nat_def)
  from this [of 31] have "bpf_core_types_are_compat (Suc f) proto_btf 1 proto_btf 1 = Inl UB"
    unfolding bpf_core_types_are_compat_def
    by (subst bpf_core_types_are_compat_level.simps)
      (simp add: at i btf_kind_core_compat_def del: One_nat_def split: nat.split)
  ultimately show ?thesis by (simp add: sane_def)
qed

text \<open>
  The search for a member through anonymous structures ends, however the target type
  is built: every level adds an entry to \<open>raw_spec\<close>, which holds 64.  The assumptions are that the
  skipping of modifiers and the comparison of two fields end.
\<close>

theorem bpf_core_match_member_ends:
  assumes "\<forall>i. skip_mods_and_typedefs f targ_btf i \<noteq> Inl Hang"
    and "\<forall>l t. bpf_core_fields_are_compat f local_btf l targ_btf t \<noteq> Inl Hang"
    and "length (spec_raw spec) \<le> BPF_CORE_SPEC_MAX_LEN"
  shows "bpf_core_match_member f local_btf local_acc targ_btf targ_id spec nid \<noteq> Inl Hang"
  using match_member_ends [of f targ_btf local_btf spec "Suc BPF_CORE_SPEC_MAX_LEN" local_acc targ_id nid] assms
  by (auto simp: ends_def bpf_core_match_member_def)

lemma one_int_btf_skip:
  "skip_mods_and_typedefs (Suc f) neg_btf i \<noteq> Inl Hang"
proof (cases "i < 3")
  case True
  then have "i = 0 \<or> i = 1 \<or> i = 2" by auto
  moreover have "type_at neg_btf 0 = Inr Btf_Void"
    by (simp add: neg_btf_def type_at_def btf__type_by_id_def btf__type_cnt_def deref_def)
  ultimately show ?thesis using neg_at neg_info by (auto simp: skip_mods_and_typedefs_def void_fields)
next
  case False
  then have "type_at neg_btf i = Inl UB"
    by (simp add: neg_btf_def type_at_def btf__type_by_id_def btf__type_cnt_def deref_def)
  then show ?thesis by (simp add: skip_mods_and_typedefs_def)
qed

lemma one_int_btf_compat: "bpf_core_fields_are_compat (Suc f) neg_btf l neg_btf t \<noteq> Inl Hang"
proof -
  have arr: "kind \<noteq> BTF_KIND_ARRAY" if "skip_mods_and_typedefs (Suc f) neg_btf i = Inr (t', i')" "btf_kind t' = Inr kind" for i t' i' kind
  proof (cases "i < 3")
    case True
    then have "i = 0 \<or> i = 1 \<or> i = 2" by auto
    moreover have "type_at neg_btf 0 = Inr Btf_Void"
      by (simp add: neg_btf_def type_at_def btf__type_by_id_def btf__type_cnt_def deref_def)
    ultimately show ?thesis using that neg_at neg_info by (auto simp: skip_mods_and_typedefs_def void_fields)
  next
    case False
    then have "type_at neg_btf i = Inl UB"
      by (simp add: neg_btf_def type_at_def btf__type_by_id_def btf__type_cnt_def deref_def)
    with that show ?thesis by (simp add: skip_mods_and_typedefs_def)
  qed
  have name: "ends (bindr (bindr (t_name_off u) (name_at neg_btf)) deref)" for u
    by (auto simp: t_name_off_def deref_def intro!: ends_bind ends_tword ends_name_at split: option.split)
  have off: "ends (btf_int_offset u)" for u by (auto simp: btf_int_offset_def intro!: ends_bind ends_tword)
  have "ends (fields_compat_loop (Suc f) (Suc f) neg_btf l neg_btf t)"
    unfolding fields_compat_loop.simps
    by (rule ends_bind, use one_int_btf_skip in \<open>simp add: ends_def\<close>, clarify,
        rule ends_bind, use one_int_btf_skip in \<open>simp add: ends_def\<close>, clarify,
        rule ends_bind, rule ends_fields, rule ends_bind, rule ends_fields)
      (auto dest: arr intro!: ends_bind name off)
  then show ?thesis by (simp add: bpf_core_fields_are_compat_def ends_def)
qed

theorem bpf_core_match_member_ends_witness:
  "bpf_core_match_member 1 neg_btf \<lparr>acc_type_id = 2, acc_idx = 0, acc_name = Some (asc ''a'')\<rparr> neg_btf 2
     (spec_new neg_btf 2 BPF_CORE_FIELD_BYTE_OFFSET) 2 \<noteq> Inl Hang"
  using bpf_core_match_member_ends [of 1 neg_btf neg_btf "spec_new neg_btf 2 BPF_CORE_FIELD_BYTE_OFFSET"]
    one_int_btf_skip [of 0] one_int_btf_compat [of 0] by (simp add: spec_new_def)

end
