(* ===== verification/Relo_Calc.thy ===== *)
theory Relo_Calc imports Relo_Spec begin

text \<open>
  CO-RE relocation, second part (\<open>bpf/libbpf/src/relo_core.c\<close>): the value of a relocation is computed
  from a specification, the candidates for the target are compared, and the bit-field macros of
  \<open>bpf_core_read.h\<close> use the values that result.

  The specification is None where the code has a NULL pointer.  The debugging output
  (\<open>bpf_core_format_spec\<close>, \<open>pr_debug\<close>, \<open>pr_warn\<close>) is left out.
\<close>

section \<open>The place of a field\<close>

text \<open>
  The loop that looks for an aligned load of at most eight bytes that covers a bit field; a division
  by a size of zero is undefined.
\<close>

function bitfield_window :: "nat \<Rightarrow> nat \<Rightarrow> nat \<Rightarrow> (nat \<times> nat) res" where
  "bitfield_window bit_off bit_sz byte_sz =
     (if byte_sz = 0 then Inl UB
      else
        let byte_off = bit_off div 8 div byte_sz * byte_sz in
        if wrap32 (int bit_off + int bit_sz - int byte_off * 8) > byte_sz * 8 mod 2 ^ 32
        then if byte_sz \<ge> 8 then Inl (Err E2BIG) else bitfield_window bit_off bit_sz (byte_sz * 2)
        else Inr (byte_sz, byte_off))"
  by auto

termination by (relation "measure (\<lambda>(_, _, byte_sz). 8 - byte_sz)") auto

declare bitfield_window.simps [simp del]

text \<open>A result of \<open>btf__resolve_size\<close> below zero becomes EINVAL.\<close>

definition as_einval :: "'a res \<Rightarrow> 'a res" where
  "as_einval r = (case r of Inl (Err e) \<Rightarrow> Inl (Err EINVAL) | _ \<Rightarrow> r)"

text \<open>Byte size, byte offset and bit size of a member, and whether it is a bit field.\<close>

definition field_place :: "btf \<Rightarrow> nat \<Rightarrow> type_ptr \<Rightarrow> nat \<Rightarrow> nat \<Rightarrow> (bool \<times> nat \<times> nat \<times> nat) res" where
  "field_place btf field_type_id mt bit_off bit_sz =
     (if bit_sz > 0
      then
        bindr (t_size mt) (\<lambda>n.
        bindr (bitfield_window bit_off bit_sz n) (\<lambda>(byte_sz, byte_off).
          Inr (True, byte_sz, byte_off, bit_sz)))
      else
        bindr (as_einval (btf__resolve_size btf field_type_id)) (\<lambda>sz.
          Inr (False, sz, bit_off div 8, sz * 8 mod 2 ^ 32)))"

definition field_signed :: "type_ptr \<Rightarrow> bool res" where
  "field_signed mt =
     bindr (btf_kind mt) (\<lambda>kind.
     if btf_is_any_enum kind then btf_kflag mt
     else if kind = BTF_KIND_INT then bindr (btf_int_encoding mt) (\<lambda>e. Inr (odd e))
     else Inr False)"

section \<open>Values of relocations\<close>

text \<open>What the code returns through its pointer arguments.\<close>

record relo_out =
  out_val :: u64
  out_sz :: nat
  out_type_id :: nat
  out_validate :: bool

definition put_out :: "nat \<Rightarrow> nat \<Rightarrow> nat \<Rightarrow> bool \<Rightarrow> relo_out" where
  "put_out v sz type_id validate =
     \<lparr>out_val = word_of_nat v, out_sz = sz, out_type_id = type_id, out_validate = validate\<rparr>"

definition element_relo :: "relo_kind \<Rightarrow> bpf_core_spec \<Rightarrow> bpf_core_accessor \<Rightarrow> relo_out res" where
  "element_relo kind spec acc =
     (if kind = BPF_CORE_FIELD_BYTE_OFFSET
      then
        bindr (as_einval (btf__resolve_size (spec_btf spec) (acc_type_id acc))) (\<lambda>sz.
          Inr (put_out (spec_bit_offset spec div 8) sz (acc_type_id acc) True))
      else if kind = BPF_CORE_FIELD_BYTE_SIZE
      then
        bindr (as_einval (btf__resolve_size (spec_btf spec) (acc_type_id acc))) (\<lambda>sz.
          Inr (put_out sz 0 0 True))
      else Inl (Err EINVAL))"

definition member_relo :: "nat \<Rightarrow> relo_kind \<Rightarrow> bpf_core_spec \<Rightarrow> bpf_core_accessor \<Rightarrow> type_ptr \<Rightarrow> relo_out res" where
  "member_relo f kind spec acc t =
     bindr (bindr (member_type t (acc_idx acc)) (skip_mods_and_typedefs f (spec_btf spec))) (\<lambda>(mt, field_type_id).
     bindr (btf_member_bitfield_size t (acc_idx acc)) (\<lambda>member_sz.
     let bit_off = spec_bit_offset spec in
     bindr (field_place (spec_btf spec) field_type_id mt bit_off member_sz) (\<lambda>(bitfield, byte_sz, byte_off, bit_sz).
       case kind of
         BPF_CORE_FIELD_BYTE_OFFSET \<Rightarrow>
           Inr (if bitfield then put_out byte_off 0 0 False else put_out byte_off byte_sz field_type_id True)
       | BPF_CORE_FIELD_BYTE_SIZE \<Rightarrow> Inr (put_out byte_sz 0 0 (\<not> bitfield))
       | BPF_CORE_FIELD_SIGNED \<Rightarrow>
           bindr (field_signed mt) (\<lambda>s. Inr (put_out (of_bool s) 0 0 True))
       | BPF_CORE_FIELD_LSHIFT_U64 \<Rightarrow>
           Inr (put_out (wrap32 (64 - (int bit_off + int bit_sz - int byte_off * 8))) 0 0 (\<not> bitfield))
       | BPF_CORE_FIELD_RSHIFT_U64 \<Rightarrow> Inr (put_out (wrap32 (64 - int bit_sz)) 0 0 True)
       | _ \<Rightarrow> Inl (Err ENOTSUP))))"

definition bpf_core_calc_field_relo :: "nat \<Rightarrow> relo_kind \<Rightarrow> bpf_core_spec option \<Rightarrow> relo_out res" where
  "bpf_core_calc_field_relo f kind spec =
     (if kind = BPF_CORE_FIELD_EXISTS then Inr (put_out (of_bool (spec \<noteq> None)) 0 0 True)
      else
        case spec of
          None \<Rightarrow> Inl (Err EUCLEAN)
        | Some spec \<Rightarrow>
            if spec_accs spec = [] then Inl UB
            else
              let acc = last (spec_accs spec) in
              bindr (btf_type_by_id (spec_btf spec) (acc_type_id acc)) (\<lambda>t.
                if acc_name acc = None then element_relo kind spec acc else member_relo f kind spec acc t))"

definition bpf_core_calc_type_relo :: "relo_kind \<Rightarrow> bpf_core_spec option \<Rightarrow> relo_out res" where
  "bpf_core_calc_type_relo kind spec =
     (case spec of
        None \<Rightarrow> Inr (put_out 0 0 0 True)
      | Some spec \<Rightarrow>
          (case kind of
             BPF_CORE_TYPE_ID_TARGET \<Rightarrow> Inr (put_out (spec_root spec) 0 0 False)
           | BPF_CORE_TYPE_EXISTS \<Rightarrow> Inr (put_out 1 0 0 True)
           | BPF_CORE_TYPE_MATCHES \<Rightarrow> Inr (put_out 1 0 0 True)
           | BPF_CORE_TYPE_SIZE \<Rightarrow>
               bindr (as_einval (btf__resolve_size (spec_btf spec) (spec_root spec))) (\<lambda>sz.
                 Inr (put_out sz 0 0 True))
           | _ \<Rightarrow> Inl (Err ENOTSUP)))"

text \<open>An enumerator: a signed 32-bit value, or the two halves of a 64-bit one.\<close>

definition enum_val :: "btf_kind \<Rightarrow> type_ptr \<Rightarrow> nat \<Rightarrow> u64 res" where
  "enum_val kind t i =
     (if kind = BTF_KIND_ENUM
      then bindr (tword t (12 + i * 8 + 4)) (\<lambda>v. Inr (scast (word_of_nat v :: s32)))
      else
        bindr (tword t (12 + i * 12 + 8)) (\<lambda>hi.
        bindr (tword t (12 + i * 12 + 4)) (\<lambda>lo.
          Inr (push_bit 32 (word_of_nat hi) OR word_of_nat lo))))"

definition bpf_core_calc_enumval_relo :: "relo_kind \<Rightarrow> bpf_core_spec option \<Rightarrow> relo_out res" where
  "bpf_core_calc_enumval_relo kind spec =
     (case kind of
        BPF_CORE_ENUMVAL_EXISTS \<Rightarrow> Inr (put_out (of_bool (spec \<noteq> None)) 0 0 True)
      | BPF_CORE_ENUMVAL_VALUE \<Rightarrow>
          (case spec of
             None \<Rightarrow> Inl (Err EUCLEAN)
           | Some spec \<Rightarrow>
               bindr (arr (spec_accs spec) 0) (\<lambda>acc.
               bindr (btf_type_by_id (spec_btf spec) (acc_type_id acc)) (\<lambda>t.
               bindr (btf_kind t) (\<lambda>k.
               bindr (enum_val k t (acc_idx acc)) (\<lambda>v.
                 Inr \<lparr>out_val = v, out_sz = 0, out_type_id = 0, out_validate = True\<rparr>)))))
      | _ \<Rightarrow> Inl (Err ENOTSUP))"

section \<open>The result of a relocation\<close>

record bpf_core_relo_res =
  res_orig_val :: u64
  res_new_val :: u64
  res_poison :: bool
  res_validate :: bool
  res_fail_memsz_adjust :: bool
  res_orig_sz :: nat
  res_orig_type_id :: nat
  res_new_sz :: nat
  res_new_type_id :: nat

definition res_init :: bpf_core_relo_res where
  "res_init = \<lparr>res_orig_val = 0, res_new_val = 0, res_poison = False, res_validate = True,
     res_fail_memsz_adjust = False, res_orig_sz = 0, res_orig_type_id = 0, res_new_sz = 0,
     res_new_type_id = 0\<rparr>"

definition set_orig :: "relo_out \<Rightarrow> bpf_core_relo_res \<Rightarrow> bpf_core_relo_res" where
  "set_orig out res = res\<lparr>res_orig_val := out_val out, res_orig_sz := out_sz out,
     res_orig_type_id := out_type_id out, res_validate := out_validate out\<rparr>"

definition set_new :: "relo_out \<Rightarrow> bpf_core_relo_res \<Rightarrow> bpf_core_relo_res" where
  "set_new out res = res\<lparr>res_new_val := out_val out, res_new_sz := out_sz out, res_new_type_id := out_type_id out\<rparr>"

text \<open>EUCLEAN asks for the instruction to be poisoned; \<open>res\<close> is the result as far as it was filled in.\<close>

definition or_poison :: "bpf_core_relo_res \<Rightarrow> relo_out res \<Rightarrow> (relo_out \<Rightarrow> bpf_core_relo_res res) \<Rightarrow> bpf_core_relo_res res" where
  "or_poison res r k =
     (case r of Inl e \<Rightarrow> (if e = Err EUCLEAN then Inr (res\<lparr>res_poison := True\<rparr>) else Inl e) | Inr out \<Rightarrow> k out)"

text \<open>The memory size of an access may change between pointers and between unsigned integers only.\<close>

definition memsz_adjustable :: "type_ptr \<Rightarrow> type_ptr \<Rightarrow> bool res" where
  "memsz_adjustable orig_t new_t =
     bindr (btf_kind orig_t) (\<lambda>ok.
     bindr (btf_kind new_t) (\<lambda>nk.
     if ok = BTF_KIND_PTR \<and> nk = BTF_KIND_PTR then Inr True
     else if ok = BTF_KIND_INT \<and> nk = BTF_KIND_INT
     then bindr (btf_int_encoding orig_t) (\<lambda>oe. bindr (btf_int_encoding new_t) (\<lambda>ne. Inr (oe \<noteq> 1 \<and> ne \<noteq> 1)))
     else Inr False))"

definition check_memsz :: "bpf_core_spec \<Rightarrow> bpf_core_spec option \<Rightarrow> bpf_core_relo_res \<Rightarrow> bpf_core_relo_res res" where
  "check_memsz local_spec targ_spec res =
     (if res_orig_sz res = res_new_sz res then Inr res
      else
        bindr (btf_type_by_id (spec_btf local_spec) (res_orig_type_id res)) (\<lambda>orig_t.
        bindr (deref targ_spec) (\<lambda>targ_spec.
        bindr (btf_type_by_id (spec_btf targ_spec) (res_new_type_id res)) (\<lambda>new_t.
        bindr (memsz_adjustable orig_t new_t) (\<lambda>ok.
          Inr (res\<lparr>res_fail_memsz_adjust := \<not> ok\<rparr>))))))"

definition bpf_core_calc_relo ::
  "nat \<Rightarrow> relo_kind \<Rightarrow> bpf_core_spec \<Rightarrow> bpf_core_spec option \<Rightarrow> bpf_core_relo_res res" where
  "bpf_core_calc_relo f kind local_spec targ_spec =
     (let calc = (if core_relo_is_field_based kind then bpf_core_calc_field_relo f kind
                  else if core_relo_is_type_based kind then bpf_core_calc_type_relo kind
                  else bpf_core_calc_enumval_relo kind)
      in
        or_poison res_init (calc (Some local_spec)) (\<lambda>orig.
        or_poison (set_orig orig res_init) (calc targ_spec) (\<lambda>new.
          let res = set_new new (set_orig orig res_init) in
          if core_relo_is_field_based kind then check_memsz local_spec targ_spec res else Inr res)))"

section \<open>Candidates\<close>

record relo_cand =
  cand_btf :: btf
  cand_id :: nat

text \<open>
  The loop over the candidates: \<open>best\<close> is the first result with its specification, \<open>keep\<close> the
  candidates that matched so far.
\<close>

fun calc_cands ::
  "nat \<Rightarrow> relo_kind \<Rightarrow> bpf_core_spec \<Rightarrow> relo_cand list \<Rightarrow> (bpf_core_relo_res \<times> bpf_core_spec) option \<Rightarrow>
   relo_cand list \<Rightarrow> ((bpf_core_relo_res \<times> bpf_core_spec) option \<times> relo_cand list) res" where
  "calc_cands f kind local_spec [] best keep = Inr (best, keep)"
| "calc_cands f kind local_spec (c # cs) best keep =
     bindr (bpf_core_spec_match f local_spec (cand_btf c) (cand_id c)) (\<lambda>(matched, cand_spec).
     if \<not> matched then calc_cands f kind local_spec cs best keep
     else
       bindr (bpf_core_calc_relo f kind local_spec (Some cand_spec)) (\<lambda>cand_res.
       case best of
         None \<Rightarrow> calc_cands f kind local_spec cs (Some (cand_res, cand_spec)) (keep @ [c])
       | Some (targ_res, targ_spec) \<Rightarrow>
           if spec_bit_offset cand_spec \<noteq> spec_bit_offset targ_spec then Inl (Err EINVAL)
           else if res_poison cand_res \<noteq> res_poison targ_res \<or> res_new_val cand_res \<noteq> res_new_val targ_res
           then Inl (Err EINVAL)
           else calc_cands f kind local_spec cs best (keep @ [c])))"

text \<open>The result and the list of candidates, which is pruned when some candidate matched.\<close>

definition bpf_core_calc_relo_insn ::
  "nat \<Rightarrow> bpf_core_relo \<Rightarrow> btf \<Rightarrow> relo_cand list \<Rightarrow> (bpf_core_relo_res \<times> relo_cand list) res" where
  "bpf_core_calc_relo_insn f relo local_btf cands =
     bindr (btf_type_by_id local_btf (relo_type_id relo)) (\<lambda>local_type.
     bindr (bindr (t_name_off local_type) (name_at local_btf)) (\<lambda>local_name.
     if local_name = None then Inl (Err EINVAL)
     else
       bindr (as_einval (bpf_core_parse_spec f local_btf relo)) (\<lambda>local_spec.
       if relo_kind_of relo = BPF_CORE_TYPE_ID_LOCAL
       then
         let v = word_of_nat (spec_root local_spec) in
         Inr (res_init\<lparr>res_validate := False, res_orig_val := v, res_new_val := v\<rparr>, cands)
       else if str_is_empty local_name then Inl (Err ENOTSUP)
       else
         bindr (calc_cands f (relo_kind_of relo) local_spec cands None []) (\<lambda>(best, keep).
           case best of
             Some (res, _) \<Rightarrow> Inr (res, keep)
           | None \<Rightarrow>
               bindr (bpf_core_calc_relo f (relo_kind_of relo) local_spec None) (\<lambda>res. Inr (res, cands))))))"

section \<open>Bit-field macros\<close>

text \<open>
  The macros \<open>BPF_CORE_READ_BITFIELD\<close>, \<open>BPF_CORE_READ_BITFIELD_PROBED\<close> and
  \<open>BPF_CORE_WRITE_BITFIELD\<close> on the bytes \<open>mem\<close> of the structure; \<open>relo\<close> gives the relocated values.
  A size other than 1, 2, 4 and 8 leaves the value uninitialised, and a shift by 64 or more is
  undefined.
\<close>

definition shift_ok :: "u64 \<Rightarrow> nat res" where
  "shift_ok r = (if r < 64 then Inr (unat r) else Inl UB)"

definition extract_field :: "(relo_kind \<Rightarrow> u64 res) \<Rightarrow> u64 \<Rightarrow> u64 res" where
  "extract_field relo val =
     bindr (bindr (relo BPF_CORE_FIELD_LSHIFT_U64) shift_ok) (\<lambda>l.
     bindr (relo BPF_CORE_FIELD_SIGNED) (\<lambda>s.
     bindr (bindr (relo BPF_CORE_FIELD_RSHIFT_U64) shift_ok) (\<lambda>r.
     let val = push_bit l val in
     Inr (if s \<noteq> 0 then signed_drop_bit r val else drop_bit r val))))"

definition load_field :: "(relo_kind \<Rightarrow> u64 res) \<Rightarrow> u8 list \<Rightarrow> (nat \<times> nat \<times> u64) res" where
  "load_field relo mem =
     bindr (relo BPF_CORE_FIELD_BYTE_OFFSET) (\<lambda>off.
     bindr (relo BPF_CORE_FIELD_BYTE_SIZE) (\<lambda>sz.
     if sz \<in> List.set [1, 2, 4, 8]
     then bindr (rd (unat sz) mem (unat off)) (\<lambda>v. Inr (unat off, unat sz, word_of_nat v))
     else Inl UB))"

definition core_read_bitfield :: "(relo_kind \<Rightarrow> u64 res) \<Rightarrow> u8 list \<Rightarrow> u64 res" where
  "core_read_bitfield relo mem = bindr (load_field relo mem) (\<lambda>(_, _, val). extract_field relo val)"

text \<open>\<open>bpf_probe_read_kernel\<close> copies bytes into the zeroed value.\<close>

definition core_read_bitfield_probed :: "(relo_kind \<Rightarrow> u64 res) \<Rightarrow> u8 list \<Rightarrow> u64 res" where
  "core_read_bitfield_probed relo mem =
     bindr (relo BPF_CORE_FIELD_BYTE_SIZE) (\<lambda>sz.
     bindr (relo BPF_CORE_FIELD_BYTE_OFFSET) (\<lambda>off.
     if unat sz > 8 \<or> unat off + unat sz > length mem then Inl UB
     else
       extract_field relo
         (word_of_nat (le_nat (put_bytes 0 (take (unat sz) (drop (unat off) mem)) (le_bytes 8 0))))))"

definition core_write_bitfield :: "(relo_kind \<Rightarrow> u64 res) \<Rightarrow> u8 list \<Rightarrow> u64 \<Rightarrow> u8 list res" where
  "core_write_bitfield relo mem nval =
     bindr (load_field relo mem) (\<lambda>(off, sz, val).
     bindr (bindr (relo BPF_CORE_FIELD_LSHIFT_U64) shift_ok) (\<lambda>lshift.
     bindr (bindr (relo BPF_CORE_FIELD_RSHIFT_U64) shift_ok) (\<lambda>rshift.
     bindr (if lshift \<le> rshift then Inr (rshift - lshift) else Inl UB) (\<lambda>rpad.
     let m = drop_bit lshift (push_bit rshift (- 1));
         val = (val AND NOT m) OR (push_bit rpad nval AND m)
     in Inr (put_bytes off (le_bytes sz (unat val)) mem)))))"

section \<open>Candidates agree\<close>

definition cand_matches :: "nat \<Rightarrow> bpf_core_spec \<Rightarrow> relo_cand \<Rightarrow> bool" where
  "cand_matches f local_spec c \<longleftrightarrow>
     (case bpf_core_spec_match f local_spec (cand_btf c) (cand_id c) of Inr (b, _) \<Rightarrow> b | Inl _ \<Rightarrow> False)"

text \<open>A candidate matches, and its relocation has the decision, the value and the bit offset given.\<close>

definition cand_agrees ::
  "nat \<Rightarrow> relo_kind \<Rightarrow> bpf_core_spec \<Rightarrow> bool \<Rightarrow> u64 \<Rightarrow> nat \<Rightarrow> relo_cand \<Rightarrow> bool" where
  "cand_agrees f kind local_spec poison v bit_off c \<longleftrightarrow>
     (\<exists>s r. bpf_core_spec_match f local_spec (cand_btf c) (cand_id c) = Inr (True, s) \<and>
        bpf_core_calc_relo f kind local_spec (Some s) = Inr r \<and>
        spec_bit_offset s = bit_off \<and> res_poison r = poison \<and> res_new_val r = v)"

lemma calc_cands_best:
  assumes "calc_cands f kind ls cs (Some (r, s)) keep = Inr (best, keep')"
  shows "best = Some (r, s) \<and> keep' = keep @ filter (cand_matches f ls) cs \<and>
    (\<forall>c \<in> set (filter (cand_matches f ls) cs).
       cand_agrees f kind ls (res_poison r) (res_new_val r) (spec_bit_offset s) c)"
  using assms
proof (induction cs arbitrary: keep)
  case (Cons c cs)
  then obtain b s' where m: "bpf_core_spec_match f ls (cand_btf c) (cand_id c) = Inr (b, s')"
    by (auto simp: bindr_eq_Inr)
  show ?case
  proof (cases b)
    case False
    with Cons m show ?thesis by (simp add: cand_matches_def)
  next
    case True
    with Cons.prems m obtain r' where c: "bpf_core_calc_relo f kind ls (Some s') = Inr r'"
      "spec_bit_offset s' = spec_bit_offset s" "res_poison r' = res_poison r" "res_new_val r' = res_new_val r"
      and rest: "calc_cands f kind ls cs (Some (r, s)) (keep @ [c]) = Inr (best, keep')"
      by (auto simp: bindr_eq_Inr split: if_splits)
    from Cons.IH [OF rest] c m True show ?thesis by (auto simp: cand_matches_def cand_agrees_def)
  qed
qed simp

lemma calc_cands_start:
  assumes "calc_cands f kind ls cs None keep = Inr (best, keep')"
  shows "keep' = keep @ filter (cand_matches f ls) cs \<and>
    (case best of
       None \<Rightarrow> filter (cand_matches f ls) cs = []
     | Some (r, s) \<Rightarrow> filter (cand_matches f ls) cs \<noteq> [] \<and>
         (\<forall>c \<in> set (filter (cand_matches f ls) cs).
            cand_agrees f kind ls (res_poison r) (res_new_val r) (spec_bit_offset s) c))"
  using assms
proof (induction cs)
  case (Cons c cs)
  then obtain b s' where m: "bpf_core_spec_match f ls (cand_btf c) (cand_id c) = Inr (b, s')"
    by (auto simp: bindr_eq_Inr)
  show ?case
  proof (cases b)
    case False
    then have "\<not> cand_matches f ls c" using m by (simp add: cand_matches_def)
    with Cons m False show ?thesis by (cases best) auto
  next
    case True
    with Cons.prems m obtain r' where c: "bpf_core_calc_relo f kind ls (Some s') = Inr r'"
      and rest: "calc_cands f kind ls cs (Some (r', s')) (keep @ [c]) = Inr (best, keep')"
      by (auto simp: bindr_eq_Inr)
    have "cand_matches f ls c" using m True by (simp add: cand_matches_def)
    moreover have "cand_agrees f kind ls (res_poison r') (res_new_val r') (spec_bit_offset s') c"
      using m c True by (simp add: cand_agrees_def)
    ultimately show ?thesis using calc_cands_best [OF rest] by simp
  qed
qed simp

section \<open>Windows\<close>

lemma window_step:
  assumes "0 < n" "n \<le> 8" "bit_sz < 256"
  shows "bitfield_window bit_off bit_sz n =
    (if bit_off mod (8 * n) + bit_sz > 8 * n
     then if n \<ge> 8 then Inl (Err E2BIG) else bitfield_window bit_off bit_sz (n * 2)
     else Inr (n, bit_off div (8 * n) * n))"
proof -
  have d: "bit_off div 8 div n = bit_off div (8 * n)" by (simp add: div_mult2_eq)
  have "bit_off mod (8 * n) < 8 * n" using assms(1) by simp
  moreover have "(64 :: nat) + 256 < 2 ^ 32" by simp
  ultimately have "bit_off mod (8 * n) + bit_sz < 2 ^ 32" using assms by linarith
  moreover have "int bit_off + int bit_sz - int (bit_off div (8 * n) * n) * 8 = int (bit_off mod (8 * n) + bit_sz)"
  proof -
    have "bit_off div (8 * n) * n * 8 + bit_off mod (8 * n) = bit_off"
      using div_mult_mod_eq [of bit_off "8 * n"] by (simp only: mult.assoc mult.commute [of n 8])
    then have "int (bit_off div (8 * n) * n) * 8 + int (bit_off mod (8 * n)) = int bit_off"
      by (metis of_nat_add of_nat_mult of_nat_numeral)
    then show ?thesis by linarith
  qed
  ultimately have "wrap32 (int bit_off + int bit_sz - int (bit_off div (8 * n) * n) * 8) = bit_off mod (8 * n) + bit_sz"
    by (simp add: wrap32_def)
  then show ?thesis
    using assms by (subst bitfield_window.simps) (simp add: d Let_def mult.commute)
qed

lemma mod_le_mod_plus:
  assumes "m dvd (n :: nat)" "0 < n"
  shows "x mod n \<le> x mod m + (n - m)"
proof -
  from assms(1) obtain k where k: "n = k * m" by (metis dvdE mult.commute)
  have "x mod n < k * m" using assms(2) k by simp
  then have "x mod n div m < k" by (rule less_mult_imp_div_less)
  then have "x mod n div m * m \<le> (k - 1) * m" by (intro mult_le_mono1) simp
  also have "\<dots> = n - m" using k by (simp add: diff_mult_distrib)
  finally have "x mod n div m * m \<le> n - m" .
  moreover have "x mod n = x mod n div m * m + x mod m"
    using mod_mod_cancel [OF assms(1), of x] by (metis div_mult_mod_eq)
  ultimately show ?thesis by simp
qed

lemma window_result:
  assumes "n \<in> {1, 2, 4, 8}" "bit_sz < 256"
  shows "if bit_off mod 64 + bit_sz > 64 then bitfield_window bit_off bit_sz n = Inl (Err E2BIG)
    else \<exists>sz \<in> {1, 2, 4, 8}. bitfield_window bit_off bit_sz n = Inr (sz, bit_off div (8 * sz) * sz) \<and>
      bit_off mod (8 * sz) + bit_sz \<le> 8 * sz"
proof -
  have s: "bit_off mod 64 \<le> bit_off mod m + (64 - m)" if "m dvd 64" for m
    using that by (rule mod_le_mod_plus) simp
  have w: "bitfield_window bit_off bit_sz 8 = (if bit_off mod 64 + bit_sz > 64 then Inl (Err E2BIG) else Inr (8, bit_off div 64 * 8))"
    "bitfield_window bit_off bit_sz 4 = (if bit_off mod 32 + bit_sz > 32 then bitfield_window bit_off bit_sz 8 else Inr (4, bit_off div 32 * 4))"
    "bitfield_window bit_off bit_sz 2 = (if bit_off mod 16 + bit_sz > 16 then bitfield_window bit_off bit_sz 4 else Inr (2, bit_off div 16 * 2))"
    "bitfield_window bit_off bit_sz 1 = (if bit_off mod 8 + bit_sz > 8 then bitfield_window bit_off bit_sz 2 else Inr (1, bit_off div 8 * 1))"
    using window_step [of 8 bit_sz bit_off] window_step [of 4 bit_sz bit_off] window_step [of 2 bit_sz bit_off]
      window_step [of 1 bit_sz bit_off] assms(2) by simp_all
  show ?thesis
  proof (cases "bit_off mod 64 + bit_sz > 64")
    case True
    with s [of 8] s [of 16] s [of 32] have "bit_off mod 32 + bit_sz > 32" "bit_off mod 16 + bit_sz > 16"
      "bit_off mod 8 + bit_sz > 8" by simp_all
    with True w have "bitfield_window bit_off bit_sz n = Inl (Err E2BIG)" using assms(1) by fastforce
    with True show ?thesis by simp
  next
    case False
    let ?P = "\<lambda>r sz. r = Inr (sz, bit_off div (8 * sz) * sz) \<and> bit_off mod (8 * sz) + bit_sz \<le> 8 * sz"
    have "?P (bitfield_window bit_off bit_sz 8) 8" using False by (simp add: w)
    then have 8: "\<exists>sz \<in> {1, 2, 4, 8}. ?P (bitfield_window bit_off bit_sz 8) sz" by blast
    then have 4: "\<exists>sz \<in> {1, 2, 4, 8}. ?P (bitfield_window bit_off bit_sz 4) sz"
      by (cases "bit_off mod 32 + bit_sz > 32") (simp_all add: w(2))
    then have 2: "\<exists>sz \<in> {1, 2, 4, 8}. ?P (bitfield_window bit_off bit_sz 2) sz"
      by (cases "bit_off mod 16 + bit_sz > 16") (simp_all add: w(3))
    then have "\<exists>sz \<in> {1, 2, 4, 8}. ?P (bitfield_window bit_off bit_sz 1) sz"
      by (cases "bit_off mod 8 + bit_sz > 8") (simp_all add: w(4) del: One_nat_def)
    with 2 4 8 assms(1) False show ?thesis by auto
  qed
qed

section \<open>Bits of a field\<close>

lemma le_nat_append: "le_nat (xs @ ys) = le_nat xs + 256 ^ length xs * le_nat ys"
  by (induction xs) (simp_all add: algebra_simps)

lemma take_bit_le_nat: "take_bit (8 * n) (le_nat bs) = le_nat (take n bs)"
proof -
  have p: "256 ^ n = (2 :: nat) ^ (8 * n)" by (simp add: power_mult)
  show ?thesis
  proof (cases "n \<le> length bs")
    case True
    have "le_nat bs = le_nat (take n bs) + 256 ^ n * le_nat (drop n bs)"
      using True by (metis append_take_drop_id le_nat_append length_take min.absorb2)
    moreover have "le_nat (take n bs) < 256 ^ n" using le_nat_bound [of "take n bs"] True by simp
    ultimately show ?thesis by (simp add: take_bit_eq_mod p [symmetric])
  next
    case False
    have "le_nat bs < 256 ^ length bs" by (rule le_nat_bound)
    also have "\<dots> \<le> 256 ^ n" using False by (intro power_increasing) auto
    finally show ?thesis using False by (simp add: take_bit_eq_mod p [symmetric])
  qed
qed

lemma drop_bit_le_nat: "drop_bit (8 * n) (le_nat bs) = le_nat (drop n bs)"
proof (cases "n \<le> length bs")
  case True
  have "le_nat bs = le_nat (take n bs) + 256 ^ n * le_nat (drop n bs)"
    using True by (metis append_take_drop_id le_nat_append length_take min.absorb2)
  moreover have "le_nat (take n bs) < 256 ^ n" using le_nat_bound [of "take n bs"] True by simp
  moreover have "256 ^ n = (2 :: nat) ^ (8 * n)" by (simp add: power_mult)
  ultimately show ?thesis by (simp add: drop_bit_eq_div)
next
  case False
  have "le_nat bs < 256 ^ length bs" by (rule le_nat_bound)
  also have "\<dots> \<le> 256 ^ n" using False by (intro power_increasing) auto
  also have "\<dots> = (2 :: nat) ^ (8 * n)" by (simp add: power_mult)
  finally show ?thesis using False by (simp add: drop_bit_eq_div)
qed

lemma bit_window: "bit (le_nat (take n (drop k mem))) i \<longleftrightarrow> i < 8 * n \<and> bit (le_nat mem) (8 * k + i)"
  by (simp add: take_bit_le_nat [symmetric] drop_bit_le_nat [symmetric] bit_simps)

text \<open>The bits of a field, as an unsigned number and as the macros return it.\<close>

definition field_bits :: "u8 list \<Rightarrow> nat \<Rightarrow> nat \<Rightarrow> nat" where
  "field_bits mem bit_off bit_sz = take_bit bit_sz (drop_bit bit_off (le_nat mem))"

definition field_value :: "bool \<Rightarrow> nat \<Rightarrow> nat \<Rightarrow> u64" where
  "field_value is_signed bit_sz v =
     (if is_signed then signed_take_bit (bit_sz - 1) (word_of_nat v) else word_of_nat v)"

lemma shifts_extract:
  fixes w :: u64
  assumes "b + bit_sz \<le> 64" "0 < bit_sz"
  shows "drop_bit (64 - bit_sz) (push_bit (64 - (b + bit_sz)) w) = take_bit bit_sz (drop_bit b w)"
    and "signed_drop_bit (64 - bit_sz) (push_bit (64 - (b + bit_sz)) w) = signed_take_bit (bit_sz - 1) (drop_bit b w)"
proof -
  have a: "i + (64 - bit_sz) - (64 - (b + bit_sz)) = b + i" if "i < bit_sz" for i using that assms by simp
  show "drop_bit (64 - bit_sz) (push_bit (64 - (b + bit_sz)) w) = take_bit bit_sz (drop_bit b w)"
    using a assms by (intro bit_word_eqI) (auto simp: bit_simps add.commute)
  show "signed_drop_bit (64 - bit_sz) (push_bit (64 - (b + bit_sz)) w) = signed_take_bit (bit_sz - 1) (drop_bit b w)"
  proof (intro bit_word_eqI)
    fix i assume i: "i < LENGTH(64)"
    have last: "64 - 1 - (64 - (b + bit_sz)) = b + (bit_sz - 1)" using assms by simp
    show "bit (signed_drop_bit (64 - bit_sz) (push_bit (64 - (b + bit_sz)) w)) i =
        bit (signed_take_bit (bit_sz - 1) (drop_bit b w)) i"
    proof (cases "i < bit_sz")
      case True
      then have "min i (bit_sz - 1) = i" by simp
      with True i assms a [of i] show ?thesis
        by (auto simp add: bit_signed_drop_bit_iff bit_push_bit_iff bit_signed_take_bit_iff bit_drop_bit_eq add.commute
            simp del: One_nat_def)
    next
      case False
      then have "min i (bit_sz - 1) = bit_sz - 1" by simp
      moreover have "64 - (b + bit_sz) \<le> 63" using assms by simp
      ultimately show ?thesis using False i assms last
        by (simp add: bit_signed_drop_bit_iff bit_push_bit_iff bit_signed_take_bit_iff bit_drop_bit_eq del: One_nat_def)
    qed
  qed
qed


section \<open>The values for a bit field\<close>

text \<open>
  The last accessor of the specification names a bit field of \<open>bit_sz\<close> bits, whose type \<open>mt\<close> has \<open>n\<close>
  bytes.
\<close>

definition names_bitfield :: "nat \<Rightarrow> bpf_core_spec \<Rightarrow> type_ptr \<Rightarrow> nat \<Rightarrow> nat \<Rightarrow> bool" where
  "names_bitfield f spec mt bit_sz n \<longleftrightarrow>
     (\<exists>t i ft. spec_accs spec \<noteq> [] \<and> acc_name (last (spec_accs spec)) \<noteq> None \<and>
        btf_type_by_id (spec_btf spec) (acc_type_id (last (spec_accs spec))) = Inr t \<and>
        member_type t (acc_idx (last (spec_accs spec))) = Inr i \<and>
        skip_mods_and_typedefs f (spec_btf spec) i = Inr (mt, ft) \<and>
        btf_member_bitfield_size t (acc_idx (last (spec_accs spec))) = Inr bit_sz \<and>
        0 < bit_sz \<and> t_size mt = Inr n)"

definition relo_value :: "nat \<Rightarrow> bpf_core_spec \<Rightarrow> relo_kind \<Rightarrow> u64 res" where
  "relo_value f spec kind = bindr (bpf_core_calc_field_relo f kind (Some spec)) (\<lambda>r. Inr (out_val r))"

lemma tword_bound: "tword t k = Inr v \<Longrightarrow> v < 2 ^ 32"
  using rd32_bound by (auto simp: tword_def split: type_ptr.splits if_splits)

lemma bitfield_size_bound: "btf_member_bitfield_size t i = Inr n \<Longrightarrow> n < 256"
proof -
  assume "btf_member_bitfield_size t i = Inr n"
  then consider "n = 0" | v where "tword t (12 + i * 12 + 8) = Inr v" "n = v div 2 ^ 24"
    by (auto simp: btf_member_bitfield_size_def member_offset_def bindr_eq_Inr split: if_splits)
  then show ?thesis
  proof cases
    case 2
    with tword_bound [OF 2(1)] show ?thesis by (simp add: less_mult_imp_div_less)
  qed simp
qed

lemma names_bitfield_bound: "names_bitfield f spec mt bit_sz n \<Longrightarrow> 0 < bit_sz \<and> bit_sz < 256"
  by (auto simp: names_bitfield_def dest: bitfield_size_bound)

lemma bitfield_values:
  assumes b: "names_bitfield f spec mt bit_sz n"
    and w: "bitfield_window (spec_bit_offset spec) bit_sz n = Inr (sz, off)"
  shows "relo_value f spec BPF_CORE_FIELD_BYTE_OFFSET = Inr (word_of_nat off)"
    and "relo_value f spec BPF_CORE_FIELD_BYTE_SIZE = Inr (word_of_nat sz)"
    and "relo_value f spec BPF_CORE_FIELD_SIGNED = bindr (field_signed mt) (\<lambda>s. Inr (of_bool s))"
    and "relo_value f spec BPF_CORE_FIELD_LSHIFT_U64 =
      Inr (word_of_nat (wrap32 (64 - (int (spec_bit_offset spec) + int bit_sz - int off * 8))))"
    and "relo_value f spec BPF_CORE_FIELD_RSHIFT_U64 = Inr (word_of_nat (wrap32 (64 - int bit_sz)))"
  using b w
  by (auto simp: names_bitfield_def relo_value_def bpf_core_calc_field_relo_def member_relo_def field_place_def
      put_out_def Let_def bindr_assoc)

lemma bitfield_too_big:
  assumes b: "names_bitfield f spec mt bit_sz n"
    and w: "bitfield_window (spec_bit_offset spec) bit_sz n = Inl e" and k: "kind \<noteq> BPF_CORE_FIELD_EXISTS"
  shows "bpf_core_calc_field_relo f kind (Some spec) = Inl e"
  using b w k
  by (auto simp: names_bitfield_def bpf_core_calc_field_relo_def member_relo_def field_place_def Let_def)


text \<open>A window as the loop finds it, with the place \<open>b\<close> of the field in it.\<close>

definition window_at :: "nat \<Rightarrow> nat \<Rightarrow> nat \<Rightarrow> nat \<Rightarrow> nat \<Rightarrow> bool" where
  "window_at bit_off bit_sz off sz b \<longleftrightarrow>
     sz \<in> {1, 2, 4, 8} \<and> bit_off = 8 * off + b \<and> b + bit_sz \<le> 8 * sz \<and> sz dvd off"

lemma window_at_intro:
  assumes "sz \<in> {1, 2, 4, 8}" "bit_off mod (8 * sz) + bit_sz \<le> 8 * sz"
  shows "window_at bit_off bit_sz (bit_off div (8 * sz) * sz) sz (bit_off mod (8 * sz))"
proof -
  have "bit_off = 8 * sz * (bit_off div (8 * sz)) + bit_off mod (8 * sz)" by simp
  then have "bit_off = 8 * (bit_off div (8 * sz) * sz) + bit_off mod (8 * sz)"
    by (simp only: mult.assoc mult.commute [of sz])
  with assms show ?thesis unfolding window_at_def by (intro conjI) simp_all
qed

lemma unat_small: "x < 2 ^ 32 \<Longrightarrow> unat (word_of_nat x :: u64) = x"
  by (simp add: unat_of_nat)

lemma window_relos:
  assumes b: "names_bitfield f spec mt bit_sz n"
    and w: "bitfield_window (spec_bit_offset spec) bit_sz n = Inr (sz, off)"
    and at: "window_at (spec_bit_offset spec) bit_sz off sz b" and lim: "spec_bit_offset spec < 2 ^ 32"
  shows "off + sz \<le> length mem \<Longrightarrow>
      load_field (relo_value f spec) mem = Inr (off, sz, word_of_nat (le_nat (take sz (drop off mem))))"
    and "bindr (relo_value f spec BPF_CORE_FIELD_LSHIFT_U64) shift_ok = Inr (64 - (b + bit_sz))"
    and "bindr (relo_value f spec BPF_CORE_FIELD_RSHIFT_U64) shift_ok = Inr (64 - bit_sz)"
proof -
  note vals = bitfield_values [OF b w]
  have sz: "0 < bit_sz" using names_bitfield_bound [OF b] by simp
  have at': "sz \<in> {1, 2, 4, 8}" "b + bit_sz \<le> 8 * sz" "spec_bit_offset spec = 8 * off + b"
    using at by (auto simp: window_at_def)
  then have 64: "b + bit_sz \<le> 64" by auto
  have "off < 2 ^ 32" using at'(3) lim by linarith
  then have off: "unat (word_of_nat off :: u64) = off" by (rule unat_small)
  have szw: "unat (word_of_nat sz :: u64) = sz" "(word_of_nat sz :: u64) \<in> List.set [1, 2, 4, 8]"
    using at'(1) by (auto simp: unat_small)
  show "load_field (relo_value f spec) mem = Inr (off, sz, word_of_nat (le_nat (take sz (drop off mem))))"
    if "off + sz \<le> length mem"
    using that szw(2) unfolding load_field_def vals by (simp only: bindr_Inr off szw(1) if_True rd_in_bounds)
  have shift: "bindr (Inr (word_of_nat x)) shift_ok = Inr x" if "x < 64" for x
  proof -
    have "unat (word_of_nat x :: u64) = x" using that by (intro unat_small) simp
    then show ?thesis using that by (simp add: shift_ok_def word_less_nat_alt)
  qed
  have "wrap32 (64 - (int (spec_bit_offset spec) + int bit_sz - int off * 8)) = 64 - (b + bit_sz)"
    using 64 by (simp add: wrap32_def at'(3))
  then show "bindr (relo_value f spec BPF_CORE_FIELD_LSHIFT_U64) shift_ok = Inr (64 - (b + bit_sz))"
    unfolding vals using sz by (simp only: shift)
  have "wrap32 (64 - int bit_sz) = 64 - bit_sz" using 64 by (simp add: wrap32_def)
  then show "bindr (relo_value f spec BPF_CORE_FIELD_RSHIFT_U64) shift_ok = Inr (64 - bit_sz)"
    unfolding vals using sz by (simp only: shift)
qed

lemma field_of_window:
  fixes mem :: "u8 list"
  assumes "window_at bit_off bit_sz off sz b" "0 < bit_sz"
  defines "v \<equiv> word_of_nat (le_nat (take sz (drop off mem))) :: u64"
  shows "take_bit bit_sz (drop_bit b v) = word_of_nat (field_bits mem bit_off bit_sz)"
    and "signed_take_bit (bit_sz - 1) (drop_bit b v) = signed_take_bit (bit_sz - 1) (word_of_nat (field_bits mem bit_off bit_sz))"
proof -
  have w: "bit_off = 8 * off + b" "b + bit_sz \<le> 8 * sz" "8 * sz \<le> 64" using assms(1) by (auto simp: window_at_def)
  have v: "bit v i \<longleftrightarrow> i < 8 * sz \<and> bit (le_nat mem) (8 * off + i)" for i
    using w(3) by (auto simp: v_def bit_of_nat_iff bit_window)
  have f: "bit (word_of_nat (field_bits mem bit_off bit_sz) :: u64) i \<longleftrightarrow> i < bit_sz \<and> bit (le_nat mem) (bit_off + i)" for i
    using w by (auto simp: field_bits_def bit_simps)
  show u: "take_bit bit_sz (drop_bit b v) = word_of_nat (field_bits mem bit_off bit_sz)"
    using w by (intro bit_word_eqI) (auto simp: f [unfolded w(1)] bit_take_bit_iff bit_drop_bit_eq v add.assoc)
  have "signed_take_bit (bit_sz - 1) (drop_bit b v) = signed_take_bit (bit_sz - 1) (take_bit bit_sz (drop_bit b v))"
    using assms(2) by (simp add: signed_take_bit_take_bit)
  with u show "signed_take_bit (bit_sz - 1) (drop_bit b v) = signed_take_bit (bit_sz - 1) (word_of_nat (field_bits mem bit_off bit_sz))"
    by simp
qed

lemma extract_window:
  assumes b: "names_bitfield f spec mt bit_sz n"
    and w: "bitfield_window (spec_bit_offset spec) bit_sz n = Inr (sz, off)"
    and at: "window_at (spec_bit_offset spec) bit_sz off sz b" and lim: "spec_bit_offset spec < 2 ^ 32"
    and sg: "field_signed mt = Inr s"
  shows "extract_field (relo_value f spec) (word_of_nat (le_nat (take sz (drop off mem)))) =
    Inr (field_value s bit_sz (field_bits mem (spec_bit_offset spec) bit_sz))"
proof -
  have sz: "0 < bit_sz" using names_bitfield_bound [OF b] by simp
  have 64: "b + bit_sz \<le> 64" using at by (auto simp: window_at_def)
  note relos = window_relos(2,3) [OF b w at lim] and sgn = bitfield_values(3) [OF b w, unfolded sg bindr_Inr]
  show ?thesis
    unfolding extract_field_def relos sgn bindr_Inr Let_def
    using shifts_extract [OF 64 sz] field_of_window [OF at sz, of mem] by (simp add: field_value_def)
qed

lemma read_window:
  assumes b: "names_bitfield f spec mt bit_sz n"
    and w: "bitfield_window (spec_bit_offset spec) bit_sz n = Inr (sz, off)"
    and at: "window_at (spec_bit_offset spec) bit_sz off sz b" and lim: "spec_bit_offset spec < 2 ^ 32"
    and sg: "field_signed mt = Inr s" and mem: "off + sz \<le> length mem"
  shows "core_read_bitfield (relo_value f spec) mem =
      Inr (field_value s bit_sz (field_bits mem (spec_bit_offset spec) bit_sz))"
    and "core_read_bitfield_probed (relo_value f spec) mem = core_read_bitfield (relo_value f spec) mem"
proof -
  show r: "core_read_bitfield (relo_value f spec) mem =
      Inr (field_value s bit_sz (field_bits mem (spec_bit_offset spec) bit_sz))"
    using window_relos(1) [OF b w at lim mem] extract_window [OF b w at lim sg, of mem]
    by (simp add: core_read_bitfield_def)
  have at': "sz \<in> {1, 2, 4, 8}" "off < 2 ^ 32" using at lim by (auto simp: window_at_def)
  then have u: "unat (word_of_nat off :: u64) = off" "unat (word_of_nat sz :: u64) = sz" by (auto simp: unat_small)
  have "le_nat (put_bytes 0 (take sz (drop off mem)) (le_bytes 8 0)) = le_nat (take sz (drop off mem))"
  proof -
    have z: "le_nat (le_bytes k 0) = 0" for k by (induction k) simp_all
    have "drop k (le_bytes m 0) = le_bytes (m - k) 0" for k m
    proof (induction k arbitrary: m)
      case (Suc k) then show ?case by (cases m) simp_all
    qed simp
    with z show ?thesis by (simp add: put_bytes_def le_nat_append)
  qed
  with u at' mem extract_window [OF b w at lim sg, of mem] r
  show "core_read_bitfield_probed (relo_value f spec) mem = core_read_bitfield (relo_value f spec) mem"
    unfolding core_read_bitfield_probed_def bitfield_values [OF b w] bindr_Inr by auto
qed


section \<open>Writing a bit field\<close>

lemma bit_le_nat: "bit (le_nat bs) k \<longleftrightarrow> k div 8 < length bs \<and> bit (bs ! (k div 8)) (k mod 8)"
proof -
  have "bit (le_nat bs) k \<longleftrightarrow> bit (le_nat (take 1 (drop (k div 8) bs))) (k mod 8)"
    by (simp add: bit_window del: One_nat_def)
  also have "\<dots> \<longleftrightarrow> k div 8 < length bs \<and> bit (bs ! (k div 8)) (k mod 8)"
  proof (cases "k div 8 < length bs")
    case True
    then have "take 1 (drop (k div 8) bs) = [bs ! (k div 8)]" by (simp add: take_Suc_conv_app_nth)
    with True show ?thesis by (simp add: bit_unsigned_iff)
  qed simp
  finally show ?thesis .
qed

lemma bit_le_nat_put:
  assumes "off + length xs \<le> length mem"
  shows "bit (le_nat (put_bytes off xs mem)) k \<longleftrightarrow>
    (if 8 * off \<le> k \<and> k < 8 * (off + length xs) then bit (le_nat xs) (k - 8 * off) else bit (le_nat mem) k)"
proof -
  have in_run: "8 * off \<le> k \<and> k < 8 * (off + length xs) \<longleftrightarrow> off \<le> k div 8 \<and> k div 8 < off + length xs"
    by (auto simp: less_eq_div_iff_mult_less_eq div_less_iff_less_mult mult.commute)
  have "(k - 8 * off) div 8 = k div 8 - off \<and> (k - 8 * off) mod 8 = k mod 8" if "off \<le> k div 8"
  proof -
    from that have "8 * off \<le> k" by (simp add: less_eq_div_iff_mult_less_eq mult.commute)
    then obtain j where "k = 8 * off + j" by (metis le_add_diff_inverse)
    then show ?thesis by simp
  qed
  then show ?thesis
    using assms unfolding in_run by (auto simp: bit_le_nat nth_put_bytes)
qed

lemma write_window:
  assumes b: "names_bitfield f spec mt bit_sz n"
    and w: "bitfield_window (spec_bit_offset spec) bit_sz n = Inr (sz, off)"
    and at: "window_at (spec_bit_offset spec) bit_sz off sz b" and lim: "spec_bit_offset spec < 2 ^ 32"
    and mem: "off + sz \<le> length mem"
  shows "\<exists>mem'. core_write_bitfield (relo_value f spec) mem v = Inr mem' \<and> length mem' = length mem \<and>
    (\<forall>k. bit (le_nat mem') k \<longleftrightarrow>
      (if spec_bit_offset spec \<le> k \<and> k < spec_bit_offset spec + bit_sz then bit v (k - spec_bit_offset spec)
       else bit (le_nat mem) k))"
proof -
  let ?old = "word_of_nat (le_nat (take sz (drop off mem))) :: u64"
  let ?m = "drop_bit (64 - (b + bit_sz)) (push_bit (64 - bit_sz) (- 1)) :: u64"
  let ?val = "(?old AND NOT ?m) OR (push_bit b v AND ?m)"
  let ?mem = "put_bytes off (le_bytes sz (unat ?val)) mem"
  have sz: "0 < bit_sz" using names_bitfield_bound [OF b] by simp
  have w8: "spec_bit_offset spec = 8 * off + b" "b + bit_sz \<le> 8 * sz" "8 * sz \<le> 64"
    using at by (auto simp: window_at_def)
  then have 64: "b + bit_sz \<le> 64" by simp
  then have pad: "64 - bit_sz - (64 - (b + bit_sz)) = b" "64 - (b + bit_sz) \<le> 64 - bit_sz" by simp_all
  have m: "bit ?m i \<longleftrightarrow> b \<le> i \<and> i < b + bit_sz" for i using 64 sz by (auto simp: bit_simps)
  have old: "bit ?old i \<longleftrightarrow> i < 8 * sz \<and> bit (le_nat mem) (8 * off + i)" for i
    using w8(3) by (auto simp: bit_of_nat_iff bit_window)
  have ins: "bit ((x AND NOT y) OR (z AND y)) i \<longleftrightarrow> (if bit y i then bit z i else bit x i)" if "i < 64" for i and x y z :: u64
    using that by (auto simp: bit_or_iff bit_and_iff bit_not_iff)
  have val: "bit ?val i \<longleftrightarrow> (if b \<le> i \<and> i < b + bit_sz then bit v (i - b) else bit ?old i)" if "i < 64" for i
    unfolding ins [OF that] m using that by (simp add: bit_push_bit_iff)
  have "core_write_bitfield (relo_value f spec) mem v = Inr ?mem"
    using window_relos [OF b w at lim] mem pad by (simp add: core_write_bitfield_def Let_def)
  moreover have "length ?mem = length mem" using mem by simp
  moreover have "bit (le_nat ?mem) k \<longleftrightarrow>
      (if spec_bit_offset spec \<le> k \<and> k < spec_bit_offset spec + bit_sz then bit v (k - spec_bit_offset spec)
       else bit (le_nat mem) k)" for k
  proof (cases "8 * off \<le> k \<and> k < 8 * (off + sz)")
    case True
    then obtain i where i: "k = 8 * off + i" "i < 8 * sz" by (metis le_add_diff_inverse add_mult_distrib2 nat_add_left_cancel_less)
    have "le_nat (le_bytes sz (unat ?val)) = take_bit (8 * sz) (unat ?val)"
      by (simp add: le_nat_le_bytes take_bit_eq_mod power_mult)
    then have "bit (le_nat ?mem) k \<longleftrightarrow> bit ?val i"
      using i mem by (simp add: bit_le_nat_put bit_take_bit_iff bit_unsigned_iff)
    with i w8 val [of i] old [of i] show ?thesis by auto
  next
    case False
    with mem w8 show ?thesis by (auto simp: bit_le_nat_put)
  qed
  ultimately show ?thesis by blast
qed

lemma field_bits_written:
  assumes "\<forall>k. bit (le_nat mem') k \<longleftrightarrow> (if off \<le> k \<and> k < off + n then bit v (k - off) else bit (le_nat mem) k)"
  shows "field_bits mem' off n = take_bit n (unat (v :: u64))"
  using assms by (intro bit_eqI) (auto simp: field_bits_def bit_simps)


lemma window_in_block:
  assumes "window_at bit_off bit_sz off sz b"
  shows "off + sz \<le> 8 * (bit_off div 64 + 1)"
proof -
  let ?m = "8 * (bit_off div 64 + 1)"
  have "sz dvd off" "sz dvd 8" "8 * off \<le> bit_off" using assms by (auto simp: window_at_def)
  moreover from this have "off < ?m" by simp
  ultimately have "sz dvd ?m - off" "0 < ?m - off" by (simp_all add: dvd_diff_nat)
  then have "sz \<le> ?m - off" by (rule dvd_imp_le)
  with \<open>off < ?m\<close> show ?thesis by simp
qed

lemma window_exists:
  assumes "names_bitfield f spec mt bit_sz n" "n \<in> {1, 2, 4, 8}" "\<not> spec_bit_offset spec mod 64 + bit_sz > 64"
  obtains sz off b where "bitfield_window (spec_bit_offset spec) bit_sz n = Inr (sz, off)"
    "window_at (spec_bit_offset spec) bit_sz off sz b"
  using window_result [OF assms(2), of bit_sz "spec_bit_offset spec"] names_bitfield_bound [OF assms(1)]
  unfolding if_not_P [OF assms(3)] by (meson window_at_intro)

section \<open>Properties\<close>

text \<open>
  Property C9: reading a bit field through the relocated macros gives exactly its bits, zero- or
  sign-extended as its type says.  A field that crosses an aligned block of eight bytes is refused
  with E2BIG; for any other field the four values describe an aligned load of 1, 2, 4 or 8 bytes that
  covers it, and whenever that load is inside the structure both macros return the value of the field.
\<close>

theorem core_read_bitfield_exact:
  assumes "names_bitfield f spec mt bit_sz n" "n \<in> {1, 2, 4, 8}" "spec_bit_offset spec < 2 ^ 32"
    and "field_signed mt = Inr s"
  shows "if spec_bit_offset spec mod 64 + bit_sz > 64
    then \<forall>kind. kind \<noteq> BPF_CORE_FIELD_EXISTS \<longrightarrow> bpf_core_calc_field_relo f kind (Some spec) = Inl (Err E2BIG)
    else \<exists>off sz. sz \<in> {1, 2, 4, 8} \<and> sz dvd off \<and> off * 8 \<le> spec_bit_offset spec \<and>
      spec_bit_offset spec + bit_sz \<le> (off + sz) * 8 \<and>
      (\<forall>mem. off + sz \<le> length mem \<longrightarrow>
        core_read_bitfield (relo_value f spec) mem =
          Inr (field_value s bit_sz (field_bits mem (spec_bit_offset spec) bit_sz)) \<and>
        core_read_bitfield_probed (relo_value f spec) mem = core_read_bitfield (relo_value f spec) mem)"
proof (cases "spec_bit_offset spec mod 64 + bit_sz > 64")
  case True
  with window_result [OF assms(2), of bit_sz "spec_bit_offset spec"] names_bitfield_bound [OF assms(1)]
  show ?thesis using bitfield_too_big [OF assms(1)] by simp
next
  case False
  from window_exists [OF assms(1,2) False] obtain sz off b
    where w: "bitfield_window (spec_bit_offset spec) bit_sz n = Inr (sz, off)"
    and at: "window_at (spec_bit_offset spec) bit_sz off sz b" .
  have place: "sz \<in> {1, 2, 4, 8}" "sz dvd off" "off * 8 \<le> spec_bit_offset spec" "spec_bit_offset spec + bit_sz \<le> (off + sz) * 8"
    using at by (auto simp: window_at_def)
  show ?thesis
    unfolding if_not_P [OF False] using place read_window [OF assms(1) w at assms(3,4)] by blast
qed

text \<open>
  Property C30: writing a bit field through the relocated macro and reading it again.  The write
  changes the bits of the field and no other bit of the structure, and what is read afterwards is
  the written number cut to the width of the field.
\<close>

theorem core_write_read_bitfield:
  assumes "names_bitfield f spec mt bit_sz n" "n \<in> {1, 2, 4, 8}" "spec_bit_offset spec < 2 ^ 32"
    and "field_signed mt = Inr s" "spec_bit_offset spec mod 64 + bit_sz \<le> 64"
    and "8 * (spec_bit_offset spec div 64 + 1) \<le> length mem"
  shows "\<exists>mem'. core_write_bitfield (relo_value f spec) mem v = Inr mem' \<and> length mem' = length mem \<and>
    (\<forall>k. bit (le_nat mem') k \<longleftrightarrow>
      (if spec_bit_offset spec \<le> k \<and> k < spec_bit_offset spec + bit_sz then bit v (k - spec_bit_offset spec)
       else bit (le_nat mem) k)) \<and>
    core_read_bitfield (relo_value f spec) mem' = Inr (field_value s bit_sz (take_bit bit_sz (unat v)))"
proof -
  from window_exists [OF assms(1,2)] assms(5) obtain sz off b
    where w: "bitfield_window (spec_bit_offset spec) bit_sz n = Inr (sz, off)"
    and at: "window_at (spec_bit_offset spec) bit_sz off sz b" by (auto simp: not_less)
  have mem: "off + sz \<le> length mem" using window_in_block [OF at] assms(6) by simp
  from write_window [OF assms(1) w at assms(3) mem, of v] obtain mem' where
    m: "core_write_bitfield (relo_value f spec) mem v = Inr mem'" "length mem' = length mem"
    "\<forall>k. bit (le_nat mem') k \<longleftrightarrow>
      (if spec_bit_offset spec \<le> k \<and> k < spec_bit_offset spec + bit_sz then bit v (k - spec_bit_offset spec)
       else bit (le_nat mem) k)" by blast
  have "core_read_bitfield (relo_value f spec) mem' = Inr (field_value s bit_sz (take_bit bit_sz (unat v)))"
    using read_window(1) [OF assms(1) w at assms(3,4), of mem'] mem m(2) field_bits_written [OF m(3)] by simp
  with m show ?thesis by blast
qed

text \<open>
  Property C29: a relocation that is resolved does not depend on which candidate was taken.  The
  list of candidates is pruned to those that match the local specification (it stays as it is when
  none does), and all of them agree on whether the instruction is poisoned, on the new value and on
  the bit offset; so two candidates that disagree always lead to an error.
\<close>

theorem bpf_core_calc_relo_insn_consistent:
  assumes "bpf_core_calc_relo_insn f relo local_btf cands = Inr (res, cands')"
    and "relo_kind_of relo \<noteq> BPF_CORE_TYPE_ID_LOCAL"
  shows "\<exists>local_spec. bpf_core_parse_spec f local_btf relo = Inr local_spec \<and>
    (if filter (cand_matches f local_spec) cands = []
     then cands' = cands \<and> bpf_core_calc_relo f (relo_kind_of relo) local_spec None = Inr res
     else cands' = filter (cand_matches f local_spec) cands \<and>
       (\<exists>bit_off. \<forall>c \<in> set cands'.
          cand_agrees f (relo_kind_of relo) local_spec (res_poison res) (res_new_val res) bit_off c))"
proof -
  from assms obtain ls best keep where p: "bpf_core_parse_spec f local_btf relo = Inr ls"
    and c: "calc_cands f (relo_kind_of relo) ls cands None [] = Inr (best, keep)"
    and r: "(case best of Some (r, _) \<Rightarrow> Inr (r, keep)
      | None \<Rightarrow> bindr (bpf_core_calc_relo f (relo_kind_of relo) ls None) (\<lambda>r. Inr (r, cands))) = Inr (res, cands')"
    by (auto simp: bpf_core_calc_relo_insn_def as_einval_def bindr_eq_Inr split: if_splits sum.splits fault.splits)
  from calc_cands_start [OF c] p r show ?thesis
    by (cases best) (auto simp: bindr_eq_Inr intro!: exI [of _ "spec_bit_offset s" for s])
qed


section \<open>An example\<close>

text \<open>\<open>struct s { int a : 3; int b : 13; }\<close>, and the specification of the member \<open>b\<close>.\<close>

definition bits_types :: "u8 list" where
  "bits_types =
    [0, 0, 0, 0, 0, 0, 0, 1, 4, 0, 0, 0, 32, 0, 0, 1,
     1, 0, 0, 0, 2, 0, 0, 132, 4, 0, 0, 0,
     3, 0, 0, 0, 1, 0, 0, 0, 0, 0, 0, 3, 5, 0, 0, 0, 1, 0, 0, 0, 3, 0, 0, 13]"

definition bits_btf :: btf where
  "bits_btf = [\<lparr>btf_types = bits_types, btf_type_offs = [0, 16], btf_start_id = 1, btf_start_str_off = 0,
     btf_strs = 0 # asc ''s'' @ [0] @ asc ''a'' @ [0] @ asc ''b'' @ [0] @ asc ''0'' @ [0],
     btf_swapped_endian = False, btf_ptr_size = 0\<rparr>]"

definition bits_spec :: bpf_core_spec where
  "bits_spec = \<lparr>spec_btf = bits_btf,
     spec_accs = [\<lparr>acc_type_id = 2, acc_idx = 0, acc_name = None\<rparr>, \<lparr>acc_type_id = 2, acc_idx = 1, acc_name = Some (asc ''b'')\<rparr>],
     spec_root = 2, spec_kind = BPF_CORE_FIELD_BYTE_OFFSET, spec_raw = [0, 1], spec_bit_offset = 3\<rparr>"

lemma bits_at: "type_at bits_btf 1 = Inr (Type_At bits_types 0)" "btf_type_by_id bits_btf 2 = Inr (Type_At bits_types 16)"
  "type_at bits_btf 2 = Inr (Type_At bits_types 16)"
  by (simp_all add: bits_btf_def type_at_def btf__type_by_id_def btf__type_cnt_def deref_def)

lemma bits_info:
  "btf_kind (Type_At bits_types 0) = Inr BTF_KIND_INT" "t_size (Type_At bits_types 0) = Inr 4"
  "btf_int_encoding (Type_At bits_types 0) = Inr 1" "btf_kind (Type_At bits_types 16) = Inr BTF_KIND_STRUCT"
  "member_type (Type_At bits_types 16) 1 = Inr 1" "btf_member_bitfield_size (Type_At bits_types 16) 1 = Inr 13"
  "t_name_off (Type_At bits_types 16) = Inr 1"
  by (simp_all add: type_eval bits_types_def btf_int_encoding_def member_type_def member_offset_def
      btf_member_bitfield_size_def btf_kflag_def)

lemma bits_named: "names_bitfield 1 bits_spec (Type_At bits_types 0) 13 4"
proof -
  have "skip_mods_and_typedefs (Suc 0) bits_btf 1 = Inr (Type_At bits_types 0, 1)"
    using bits_at(1) bits_info(1) by (simp add: skip_mods_and_typedefs_def del: One_nat_def)
  then show ?thesis
    using bits_at(2) bits_info by (simp add: names_bitfield_def bits_spec_def del: One_nat_def) (simp add: One_nat_def)
qed

lemma bits_signed: "field_signed (Type_At bits_types 0) = Inr True"
  by (simp add: field_signed_def bits_info btf_is_any_enum_def)

theorem core_read_bitfield_exact_witness:
  "core_read_bitfield (relo_value 1 bits_spec) [0xf8, 0xff, 0, 0, 0, 0, 0, 0] = Inr (- 1)"
proof -
  let ?mem = "[0xf8, 0xff, 0, 0, 0, 0, 0, 0] :: u8 list"
  have off: "spec_bit_offset bits_spec = 3" by (simp add: bits_spec_def)
  from core_read_bitfield_exact [OF bits_named _ _ bits_signed] off obtain off sz :: nat
    where p: "sz \<in> {1, 2, 4, 8}" "sz dvd off" "off * 8 \<le> 3"
      "\<And>mem. off + sz \<le> length mem \<Longrightarrow> core_read_bitfield (relo_value 1 bits_spec) mem =
          Inr (field_value True 13 (field_bits mem 3 13))" by auto
  from p have "off + sz \<le> 8" by auto
  moreover have "field_value True 13 (field_bits ?mem 3 13) = - 1"
    by (simp add: field_bits_def field_value_def drop_bit_eq_div take_bit_eq_mod signed_take_bit_def mask_eq_exp_minus_1)
  ultimately show ?thesis using p(4) [of ?mem] by auto
qed

theorem core_write_read_bitfield_witness:
  "\<exists>mem'. core_write_bitfield (relo_value 1 bits_spec) (replicate 8 0) 5 = Inr mem' \<and>
     core_read_bitfield (relo_value 1 bits_spec) mem' = Inr 5"
proof -
  have off: "spec_bit_offset bits_spec = 3" by (simp add: bits_spec_def)
  from core_write_read_bitfield [OF bits_named _ _ bits_signed, of "replicate 8 0" 5] off
  obtain mem' where "core_write_bitfield (relo_value 1 bits_spec) (replicate 8 0) 5 = Inr mem'"
    "core_read_bitfield (relo_value 1 bits_spec) mem' = Inr (field_value True 13 (take_bit 13 5))"
    by auto
  moreover have "field_value True 13 (take_bit 13 5) = 5"
    by (simp add: field_value_def take_bit_eq_mod signed_take_bit_def bit_iff_odd)
  ultimately show ?thesis by auto
qed

lemma bits_names: "name_at bits_btf 1 = Inr (Some (asc ''s''))" "name_at bits_btf 7 = Inr (Some (asc ''0''))"
  by (simp_all add: name_at_def btf__name_by_offset_def bits_btf_def c_str_def terminated_def cstr_at_def asc_def)

text \<open>A relocation to the number of the structure in the target, with one candidate.\<close>

definition target_relo :: bpf_core_relo where
  "target_relo = \<lparr>relo_type_id = 2, relo_access_str_off = 7, relo_kind_of = BPF_CORE_TYPE_ID_TARGET\<rparr>"

definition target_res :: bpf_core_relo_res where
  "target_res = res_init\<lparr>res_orig_val := 2, res_new_val := 2, res_validate := False\<rparr>"

lemma target_calc:
  "bpf_core_calc_relo_insn 1 target_relo bits_btf [\<lparr>cand_btf = bits_btf, cand_id = 2\<rparr>] =
    Inr (target_res, [\<lparr>cand_btf = bits_btf, cand_id = 2\<rparr>])"
proof -
  let ?spec = "spec_new bits_btf 2 BPF_CORE_TYPE_ID_TARGET" and ?c = "\<lparr>cand_btf = bits_btf, cand_id = 2\<rparr>"
  have kinds: "core_relo_is_type_based BPF_CORE_TYPE_ID_TARGET" "\<not> core_relo_is_field_based BPF_CORE_TYPE_ID_TARGET"
    by (simp_all add: core_relo_is_type_based_def core_relo_is_field_based_def)
  have parse: "bpf_core_parse_spec 1 bits_btf target_relo = Inr ?spec"
    using bits_names(2) kinds by (simp add: bpf_core_parse_spec_def str_is_empty_def asc_def target_relo_def Let_def)
  have skip: "skip_mods_and_typedefs (Suc 0) bits_btf 2 = Inr (Type_At bits_types 16, 2)"
    using bits_at(3) bits_info(4) by (simp add: skip_mods_and_typedefs_def)
  have "types_compat_loop (Suc d) rec (Suc 0) bits_btf 2 bits_btf 2 deeper = Inr True" for d rec deeper
    by (simp add: skip bits_info btf_kind_core_compat_def)
  from this [of 31] have "bpf_core_types_are_compat (Suc 0) bits_btf 2 bits_btf 2 = Inr True"
    unfolding bpf_core_types_are_compat_def
    by (subst bpf_core_types_are_compat_level.simps) (simp add: bits_at bits_info btf_kind_core_compat_def split: nat.split)
  then have match: "bpf_core_spec_match 1 ?spec bits_btf 2 = Inr (True, ?spec)"
    using kinds by (simp add: bpf_core_spec_match_def spec_new_def)
  have calc: "bpf_core_calc_relo 1 BPF_CORE_TYPE_ID_TARGET ?spec (Some ?spec) = Inr target_res"
    using kinds by (simp add: bpf_core_calc_relo_def bpf_core_calc_type_relo_def or_poison_def set_orig_def set_new_def
        put_out_def spec_new_def Let_def res_init_def target_res_def)
  show ?thesis
    using bits_at(2) bits_info(7) bits_names(1) parse match calc
    by (simp add: bpf_core_calc_relo_insn_def as_einval_def str_is_empty_def asc_def target_relo_def)
qed

theorem bpf_core_calc_relo_insn_consistent_witness:
  "\<exists>res. bpf_core_calc_relo_insn 1 target_relo bits_btf [\<lparr>cand_btf = bits_btf, cand_id = 2\<rparr>] =
      Inr (res, [\<lparr>cand_btf = bits_btf, cand_id = 2\<rparr>]) \<and> \<not> res_poison res \<and> res_new_val res = 2"
  using bpf_core_calc_relo_insn_consistent [OF target_calc] target_calc
  by (auto simp: target_relo_def target_res_def res_init_def)

end
