(* ===== verification/Relo_Patch.thy ===== *)
theory Relo_Patch imports Relo_Calc begin

text \<open>
  CO-RE relocation, last part (\<open>bpf/libbpf/src/relo_core.c\<close>): an instruction of a program is
  rewritten with the value of its relocation, or poisoned.  The program is the list of its
  instructions; an access to the instruction after the last one is undefined.
\<close>

section \<open>Instructions\<close>

record bpf_insn =
  code :: u8
  dst_reg :: "4 word"
  src_reg :: "4 word"
  insn_off :: u16
  insn_imm :: s32

definition BPF_CLASS :: "u8 \<Rightarrow> u8" where "BPF_CLASS c = c AND 0x07"
definition BPF_SIZE :: "u8 \<Rightarrow> u8" where "BPF_SIZE c = c AND 0x18"
definition BPF_MODE :: "u8 \<Rightarrow> u8" where "BPF_MODE c = c AND 0xe0"
definition BPF_SRC :: "u8 \<Rightarrow> u8" where "BPF_SRC c = c AND 0x08"

text \<open>The classes and the sizes.\<close>

definition alu_classes :: "u8 list" where "alu_classes = [4, 7]"
definition mem_classes :: "u8 list" where "mem_classes = [1, 2, 3]"

definition is_ldimm64_insn :: "bpf_insn \<Rightarrow> bool" where
  "is_ldimm64_insn insn \<longleftrightarrow> code insn = 0x18"

definition bpf_core_poison_insn :: "bpf_insn \<Rightarrow> bpf_insn" where
  "bpf_core_poison_insn insn =
     \<lparr>code = 0x85, dst_reg = 0, src_reg = 0, insn_off = 0, insn_imm = 195896080\<rparr>"

definition insn_bpf_size_to_bytes :: "bpf_insn \<Rightarrow> int" where
  "insn_bpf_size_to_bytes insn =
     (let s = BPF_SIZE (code insn) in
      if s = 0x18 then 8 else if s = 0x00 then 4 else if s = 0x08 then 2 else if s = 0x10 then 1 else - 1)"

text \<open>The return value -1 is None.\<close>

definition insn_bytes_to_bpf_size :: "nat \<Rightarrow> u8 option" where
  "insn_bytes_to_bpf_size sz =
     (if sz = 8 then Some 0x18 else if sz = 4 then Some 0x00 else if sz = 2 then Some 0x08
      else if sz = 1 then Some 0x10 else None)"

section \<open>Patching\<close>

text \<open>
  A routine that patches returns the program as it leaves it, together with the error code it
  returns (None for 0).
\<close>

type_synonym patched = "(bpf_insn list \<times> errno option) res"

definition poison_at :: "bpf_insn list \<Rightarrow> nat \<Rightarrow> patched" where
  "poison_at insns i =
     bindr (arr insns i) (\<lambda>insn.
     bindr (if is_ldimm64_insn insn
            then bindr (arr insns (i + 1)) (\<lambda>second. Inr (insns[i + 1 := bpf_core_poison_insn second]))
            else Inr insns) (\<lambda>insns.
       Inr (insns[i := bpf_core_poison_insn insn], None)))"

definition patch_alu :: "bpf_insn list \<Rightarrow> nat \<Rightarrow> bpf_insn \<Rightarrow> bpf_core_relo_res \<Rightarrow> patched" where
  "patch_alu insns i insn res =
     (if BPF_SRC (code insn) \<noteq> 0 then Inr (insns, Some EINVAL)
      else if res_validate res \<and> scast (insn_imm insn) \<noteq> res_orig_val res then Inr (insns, Some EINVAL)
      else Inr (insns[i := insn\<lparr>insn_imm := ucast (res_new_val res)\<rparr>], None))"

definition patch_mem_size :: "bpf_insn list \<Rightarrow> nat \<Rightarrow> bpf_insn \<Rightarrow> bpf_core_relo_res \<Rightarrow> patched" where
  "patch_mem_size insns i insn res =
     (if res_new_sz res = res_orig_sz res then Inr (insns, None)
      else if wrap32 (insn_bpf_size_to_bytes insn) \<noteq> res_orig_sz res then Inr (insns, Some EINVAL)
      else
        (case insn_bytes_to_bpf_size (res_new_sz res) of
           None \<Rightarrow> Inr (insns, Some EINVAL)
         | Some sz \<Rightarrow>
             Inr (insns[i := insn\<lparr>code := BPF_MODE (code insn) OR sz OR BPF_CLASS (code insn)\<rparr>], None)))"

definition patch_mem :: "bpf_insn list \<Rightarrow> nat \<Rightarrow> bpf_insn \<Rightarrow> bpf_core_relo_res \<Rightarrow> patched" where
  "patch_mem insns i insn res =
     (if res_validate res \<and> scast (insn_off insn) \<noteq> res_orig_val res then Inr (insns, Some EINVAL)
      else if res_new_val res > 0x7fff then Inr (insns, Some ERANGE)
      else if res_fail_memsz_adjust res then poison_at insns i
      else
        let insn = insn\<lparr>insn_off := ucast (res_new_val res)\<rparr> in
        patch_mem_size (insns[i := insn]) i insn res)"

definition ld_value :: "bpf_insn \<Rightarrow> bpf_insn \<Rightarrow> u64" where
  "ld_value first second = ucast (insn_imm first) OR push_bit 32 (scast (insn_imm second))"

definition patch_ld :: "bpf_insn list \<Rightarrow> nat \<Rightarrow> bpf_insn \<Rightarrow> bpf_core_relo_res \<Rightarrow> patched" where
  "patch_ld insns i insn res =
     (if \<not> is_ldimm64_insn insn \<or> src_reg insn \<noteq> 0 \<or> insn_off insn \<noteq> 0 then Inr (insns, Some EINVAL)
      else
        bindr (arr insns (i + 1)) (\<lambda>second.
        if code second \<noteq> 0 \<or> dst_reg second \<noteq> 0 \<or> src_reg second \<noteq> 0 \<or> insn_off second \<noteq> 0
        then Inr (insns, Some EINVAL)
        else if res_validate res \<and> ld_value insn second \<noteq> res_orig_val res then Inr (insns, Some EINVAL)
        else
          Inr (insns[i := insn\<lparr>insn_imm := ucast (res_new_val res)\<rparr>,
                     i + 1 := second\<lparr>insn_imm := ucast (drop_bit 32 (res_new_val res))\<rparr>], None)))"

definition bpf_core_patch_insn :: "bpf_insn list \<Rightarrow> nat \<Rightarrow> bpf_core_relo_res \<Rightarrow> patched" where
  "bpf_core_patch_insn insns i res =
     bindr (arr insns i) (\<lambda>insn.
     let cls = BPF_CLASS (code insn) in
     if res_poison res then poison_at insns i
     else if cls \<in> List.set alu_classes then patch_alu insns i insn res
     else if cls \<in> List.set mem_classes then patch_mem insns i insn res
     else if cls = 0 then patch_ld insns i insn res
     else Inr (insns, Some EINVAL))"

section \<open>Reading a patched instruction\<close>

text \<open>The value that an instruction holds for a relocation, as \<open>validate\<close> compares it.\<close>

definition insn_value :: "bpf_insn list \<Rightarrow> nat \<Rightarrow> u64" where
  "insn_value insns i =
     (let insn = insns ! i; cls = BPF_CLASS (code insn) in
      if cls \<in> List.set alu_classes then scast (insn_imm insn)
      else if cls \<in> List.set mem_classes then scast (insn_off insn)
      else ld_value insn (insns ! (i + 1)))"

text \<open>What an instruction of the same form can hold: ALU instructions keep 32 bits, sign-extended.\<close>

definition held_value :: "u8 \<Rightarrow> u64 \<Rightarrow> u64" where
  "held_value cls v = (if cls \<in> List.set alu_classes then signed_take_bit 31 v else v)"

lemma class_size_bits:
  "BPF_CLASS (BPF_MODE c OR sz OR BPF_CLASS c) = BPF_CLASS c OR (sz AND 7)"
  "BPF_SIZE (BPF_MODE c OR sz OR BPF_CLASS c) = sz AND 0x18"
  by (simp_all add: BPF_CLASS_def BPF_MODE_def BPF_SIZE_def bit.conj_disj_distrib2 and.assoc or.commute)

lemma size_cases:
  assumes "insn_bytes_to_bpf_size n = Some sz"
  shows "n \<in> {1, 2, 4, 8} \<and> sz AND 7 = 0 \<and> sz AND 0x18 = sz \<and>
    insn_bpf_size_to_bytes (insn\<lparr>code := BPF_MODE c OR sz OR BPF_CLASS c\<rparr>) = int n"
  using assms
  by (auto simp: insn_bytes_to_bpf_size_def insn_bpf_size_to_bytes_def class_size_bits Let_def split: if_splits)

lemma scast_imm: "scast (ucast (v :: u64) :: s32) = (signed_take_bit 31 v :: u64)"
  by (rule bit_word_eqI) (auto simp: bit_simps min_def)

lemma scast_off: "v \<le> 0x7fff \<Longrightarrow> scast (ucast (v :: u64) :: u16) = (v :: u64)"
proof -
  assume "v \<le> 0x7fff"
  then have "v < 2 ^ 15" using le_less_trans by fastforce
  then have "take_bit 15 v = v" by (simp add: take_bit_eq_mod word_arith_nat_mod word_less_nat_alt)
  then have b: "bit v i \<Longrightarrow> i < 15" for i by (metis bit_take_bit_iff)
  show ?thesis by (rule bit_word_eqI) (auto simp: bit_simps min_def dest: b)
qed

lemma ld_value_new: "ld_value (a\<lparr>insn_imm := ucast (v :: u64)\<rparr>) (b\<lparr>insn_imm := ucast (drop_bit 32 v)\<rparr>) = v"
proof (rule bit_word_eqI)
  fix i assume "i < LENGTH(64)"
  then consider "i < 32" | "32 \<le> i" "i < 63" | "i = 63" by fastforce
  then show "bit (ld_value (a\<lparr>insn_imm := ucast v\<rparr>) (b\<lparr>insn_imm := ucast (drop_bit 32 v)\<rparr>)) i = bit v i"
    unfolding ld_value_def by cases (auto simp: bit_simps min_def)
qed


section \<open>Properties\<close>



text \<open>
  A load of a 64-bit immediate as the last instruction makes the routine access the instruction after
  the program, whether it poisons or patches.
\<close>

theorem bpf_core_patch_insn_last:
  assumes "i + 1 = length insns" "is_ldimm64_insn (insns ! i)"
  shows "res_poison res \<Longrightarrow> bpf_core_patch_insn insns i res = Inl UB"
    and "\<not> res_poison res \<Longrightarrow> src_reg (insns ! i) = 0 \<Longrightarrow> insn_off (insns ! i) = 0 \<Longrightarrow>
      bpf_core_patch_insn insns i res = Inl UB"
proof -
  from assms(1) have i: "i < length insns" by simp
  have c: "BPF_CLASS (code (insns ! i)) = 0" "0 \<notin> List.set alu_classes" "0 \<notin> List.set mem_classes"
    using assms(2) by (simp_all add: is_ldimm64_insn_def BPF_CLASS_def alu_classes_def mem_classes_def)
  from i assms show "bpf_core_patch_insn insns i res = Inl UB" if "res_poison res"
    using that by (simp add: bpf_core_patch_insn_def poison_at_def arr_def Let_def)
  from i assms c show "bpf_core_patch_insn insns i res = Inl UB"
    if "\<not> res_poison res" "src_reg (insns ! i) = 0" "insn_off (insns ! i) = 0"
    using that by (simp add: bpf_core_patch_insn_def patch_ld_def arr_def Let_def)
qed

end
