(* ===== verification/Tbf.thy ===== *)
theory Tbf imports C_Prelude begin

text \<open>
  The token bucket library in its three versions: \<open>signal/mytbf/mytbf.c\<close> (\<open>signal\<close> and \<open>alarm\<close>),
  \<open>signal/mytbf/mytbf_sigaction.c\<close> (\<open>sigaction\<close> and an interval timer) and
  \<open>udp_prog/libmytbf/mytbf.c\<close>.  A bucket gains \<open>cps\<close> tokens with every SIGALRM of the timer, up to
  \<open>burst\<close>; callers fetch and return tokens.

  The state holds the array \<open>job\<close> of pointers, the allocated buckets, the disposition of SIGALRM
  with the saved one, whether the timer runs, and how many exit handlers are registered.  An \<open>int\<close>
  is an integer whose additions are undefined when they leave the range of 32 bits.  A member that
  is never assigned (\<open>pos\<close> in two of the versions) has no value, and using it is undefined.
\<close>

section \<open>State\<close>

record bucket =
  cps :: int
  token :: int
  burst :: int
  pos :: "nat option"

datatype disposition = Disp_Other nat | Disp_Module

record tb_state =
  job :: "nat option list"
  mem :: "nat \<Rightarrow> bucket option"
  inited :: bool
  alrm :: disposition
  alrm_save :: disposition
  timer_on :: bool
  exit_fns :: nat

definition MYTBF_MAX :: nat where "MYTBF_MAX = 1024"

definition tb_start :: "disposition \<Rightarrow> tb_state" where
  "tb_start d = \<lparr>job = replicate MYTBF_MAX None, mem = (\<lambda>_. None), inited = False, alrm = d,
     alrm_save = Disp_Other 0, timer_on = False, exit_fns = 0\<rparr>"

definition int32 :: "int \<Rightarrow> int res" where
  "int32 x = (if - (2 ^ 31) \<le> x \<and> x < 2 ^ 31 then Inr x else Inl UB)"

definition bucket_at :: "tb_state \<Rightarrow> nat \<Rightarrow> bucket res" where
  "bucket_at st p = (case mem st p of None \<Rightarrow> Inl UB | Some b \<Rightarrow> Inr b)"

text \<open>The end of the process by \<open>exit(1)\<close> inside a call.\<close>

definition exited :: "'a res" where "exited = Inl (Err ECANCELED)"

section \<open>The loops over the array\<close>

definition tick_one :: "nat \<Rightarrow> (nat \<Rightarrow> bucket option) \<Rightarrow> (nat \<Rightarrow> bucket option) res" where
  "tick_one p m =
     (case m p of
        None \<Rightarrow> Inl UB
      | Some b \<Rightarrow>
          bindr (int32 (token b + cps b)) (\<lambda>t.
            Inr (m(p \<mapsto> b\<lparr>token := if t > burst b then burst b else t\<rparr>))))"

fun tick_jobs :: "nat option list \<Rightarrow> (nat \<Rightarrow> bucket option) \<Rightarrow> (nat \<Rightarrow> bucket option) res" where
  "tick_jobs [] m = Inr m"
| "tick_jobs (None # js) m = tick_jobs js m"
| "tick_jobs (Some p # js) m = bindr (tick_one p m) (tick_jobs js)"

text \<open>\<open>free\<close> of NULL does nothing; of a block that is not allocated it is undefined.\<close>

fun free_jobs :: "nat option list \<Rightarrow> (nat \<Rightarrow> bucket option) \<Rightarrow> (nat \<Rightarrow> bucket option) res" where
  "free_jobs [] m = Inr m"
| "free_jobs (None # js) m = free_jobs js m"
| "free_jobs (Some p # js) m = (if m p = None then Inl UB else free_jobs js (m(p := None)))"

fun get_free_pos :: "nat option list \<Rightarrow> nat option" where
  "get_free_pos [] = None"
| "get_free_pos (None # js) = Some 0"
| "get_free_pos (Some p # js) = map_option Suc (get_free_pos js)"

section \<open>Version 1: signal and alarm\<close>

definition sigalrm_handler :: "tb_state \<Rightarrow> tb_state res" where
  "sigalrm_handler st =
     bindr (tick_jobs (job st) (mem st)) (\<lambda>m. Inr (st\<lparr>timer_on := True, mem := m\<rparr>))"

definition module_unload :: "tb_state \<Rightarrow> tb_state res" where
  "module_unload st =
     bindr (free_jobs (job st) (mem st)) (\<lambda>m.
       Inr (st\<lparr>alrm := alrm_save st, timer_on := False, mem := m\<rparr>))"

definition module_load :: "tb_state \<Rightarrow> tb_state" where
  "module_load st =
     st\<lparr>alrm_save := alrm st, alrm := Disp_Module, timer_on := True, exit_fns := exit_fns st + 1\<rparr>"

text \<open>\<open>mb\<close> is what \<open>malloc\<close> returns.  The member \<open>pos\<close> of the new bucket is not assigned.\<close>

definition mytbf_init :: "nat option \<Rightarrow> int \<Rightarrow> int \<Rightarrow> tb_state \<Rightarrow> nat option \<times> tb_state" where
  "mytbf_init mb c b st0 =
     (let st = (if \<not> inited st0 then (module_load st0)\<lparr>inited := True\<rparr> else st0) in
      case get_free_pos (job st) of
        None \<Rightarrow> (None, st)
      | Some i \<Rightarrow>
          (case mb of
             None \<Rightarrow> (None, st)
           | Some p \<Rightarrow>
               (Some p, st\<lparr>mem := (mem st)(p \<mapsto> \<lparr>cps = c, token = 0, burst = b, pos = None\<rparr>),
                           job := (job st)[i := Some p]\<rparr>)))"

definition min_int :: "int \<Rightarrow> int \<Rightarrow> int" where
  "min_int a b = (if a > b then b else a)"

text \<open>
  Waiting for tokens: \<open>sigs\<close> are the signals that arrive while the call waits, each handled by
  \<open>handler\<close>.  The result tells whether tokens are there when the signals are used up.
\<close>

fun wait_tokens :: "('s \<Rightarrow> tb_state \<Rightarrow> tb_state res) \<Rightarrow> nat \<Rightarrow> 's list \<Rightarrow> tb_state \<Rightarrow> (bool \<times> tb_state) res" where
  "wait_tokens handler p [] st = bindr (bucket_at st p) (\<lambda>b. Inr (token b > 0, st))"
| "wait_tokens handler p (s # sigs) st =
     bindr (bucket_at st p) (\<lambda>b.
       if token b > 0 then Inr (True, st)
       else bindr (handler s st) (wait_tokens handler p sigs))"

definition take_tokens :: "nat \<Rightarrow> int \<Rightarrow> tb_state \<Rightarrow> (int \<times> tb_state) res" where
  "take_tokens p n st =
     bindr (bucket_at st p) (\<lambda>b.
     let k = min_int (token b) n in
     bindr (int32 (token b - k)) (\<lambda>t. Inr (k, st\<lparr>mem := (mem st)(p \<mapsto> b\<lparr>token := t\<rparr>)\<rparr>)))"

text \<open>None: the call is still waiting.\<close>

definition mytbf_fetchtoken :: "nat \<Rightarrow> int \<Rightarrow> unit list \<Rightarrow> tb_state \<Rightarrow> (int option \<times> tb_state) res" where
  "mytbf_fetchtoken p n sigs st =
     (if n < 0 then Inl (Err EINVAL)
      else
        bindr (wait_tokens (\<lambda>_. sigalrm_handler) p sigs st) (\<lambda>(ready, st).
          if \<not> ready then Inr (None, st)
          else bindr (take_tokens p n st) (\<lambda>(k, st). Inr (Some k, st))))"

definition mytbf_returntoken :: "nat \<Rightarrow> int \<Rightarrow> tb_state \<Rightarrow> (int \<times> tb_state) res" where
  "mytbf_returntoken p n st =
     (if n < 0 then Inl (Err EINVAL)
      else
        bindr (bucket_at st p) (\<lambda>b.
        bindr (int32 (token b + n)) (\<lambda>t.
          Inr (n, st\<lparr>mem := (mem st)(p \<mapsto> b\<lparr>token := if t > burst b then burst b else t\<rparr>)\<rparr>))))"

definition mytbf_destroy :: "nat \<Rightarrow> tb_state \<Rightarrow> tb_state res" where
  "mytbf_destroy p st =
     bindr (bucket_at st p) (\<lambda>b.
       case pos b of
         None \<Rightarrow> Inl UB
       | Some i \<Rightarrow>
           if i < length (job st)
           then Inr (st\<lparr>job := (job st)[i := None], mem := (mem st)(p := None)\<rparr>)
           else Inl UB)"

section \<open>Version 2: sigaction and an interval timer\<close>

text \<open>The handler ignores signals that the kernel's timer did not send.\<close>

definition alrm_action_sa :: "bool \<Rightarrow> tb_state \<Rightarrow> tb_state res" where
  "alrm_action_sa from_kernel st =
     (if \<not> from_kernel then Inr st
      else bindr (tick_jobs (job st) (mem st)) (\<lambda>m. Inr (st\<lparr>mem := m\<rparr>)))"

definition module_unload_sa :: "tb_state \<Rightarrow> tb_state res" where
  "module_unload_sa st =
     bindr (free_jobs (job st) (mem st)) (\<lambda>m.
       Inr (st\<lparr>alrm := alrm_save st, timer_on := False, mem := m\<rparr>))"

definition module_load_sa :: "tb_state \<Rightarrow> tb_state" where
  "module_load_sa st =
     st\<lparr>alrm_save := alrm st, alrm := Disp_Module, timer_on := True, exit_fns := exit_fns st + 1\<rparr>"

definition mytbf_init_sa :: "nat option \<Rightarrow> int \<Rightarrow> int \<Rightarrow> tb_state \<Rightarrow> nat option \<times> tb_state" where
  "mytbf_init_sa mb c b st0 =
     (let st = (if \<not> inited st0 then (module_load_sa st0)\<lparr>inited := True\<rparr> else st0) in
      case get_free_pos (job st) of
        None \<Rightarrow> (None, st)
      | Some i \<Rightarrow>
          (case mb of
             None \<Rightarrow> (None, st)
           | Some p \<Rightarrow>
               (Some p, st\<lparr>mem := (mem st)(p \<mapsto> \<lparr>cps = c, token = 0, burst = b, pos = None\<rparr>),
                           job := (job st)[i := Some p]\<rparr>)))"

definition mytbf_fetchtoken_sa :: "nat \<Rightarrow> int \<Rightarrow> bool list \<Rightarrow> tb_state \<Rightarrow> (int option \<times> tb_state) res" where
  "mytbf_fetchtoken_sa p n sigs st =
     (if n < 0 then Inl (Err EINVAL)
      else
        bindr (wait_tokens alrm_action_sa p sigs st) (\<lambda>(ready, st).
          if \<not> ready then Inr (None, st)
          else bindr (take_tokens p n st) (\<lambda>(k, st). Inr (Some k, st))))"

definition mytbf_returntoken_sa :: "nat \<Rightarrow> int \<Rightarrow> tb_state \<Rightarrow> (int \<times> tb_state) res" where
  "mytbf_returntoken_sa p n st =
     (if n < 0 then Inl (Err EINVAL)
      else
        bindr (bucket_at st p) (\<lambda>b.
        bindr (int32 (token b + n)) (\<lambda>t.
          Inr (n, st\<lparr>mem := (mem st)(p \<mapsto> b\<lparr>token := if t > burst b then burst b else t\<rparr>)\<rparr>))))"

definition mytbf_destroy_sa :: "nat \<Rightarrow> tb_state \<Rightarrow> tb_state res" where
  "mytbf_destroy_sa p st =
     bindr (bucket_at st p) (\<lambda>b.
       case pos b of
         None \<Rightarrow> Inl UB
       | Some i \<Rightarrow>
           if i < length (job st)
           then Inr (st\<lparr>job := (job st)[i := None], mem := (mem st)(p := None)\<rparr>)
           else Inl UB)"

section \<open>Version 3: the library of the UDP programs\<close>

text \<open>\<open>timer_ok\<close> and \<open>sa_ok\<close> are the outcomes of \<open>setitimer\<close> and \<open>sigaction\<close>.\<close>

definition handler_udp :: "bool \<Rightarrow> bool \<Rightarrow> tb_state \<Rightarrow> tb_state res" where
  "handler_udp timer_ok from_kernel st =
     (if \<not> from_kernel then Inr st
      else if \<not> timer_ok then exited
      else bindr (tick_jobs (job st) (mem st)) (\<lambda>m. Inr (st\<lparr>timer_on := True, mem := m\<rparr>)))"

definition mod_unload_udp :: "bool \<Rightarrow> tb_state \<Rightarrow> tb_state res" where
  "mod_unload_udp timer_ok st =
     (if \<not> timer_ok then exited
      else
        bindr (free_jobs (job st) (mem st)) (\<lambda>m.
          Inr (st\<lparr>alrm := alrm_save st, timer_on := False, mem := m\<rparr>)))"

definition mod_load_udp :: "bool \<Rightarrow> bool \<Rightarrow> tb_state \<Rightarrow> tb_state res" where
  "mod_load_udp sa_ok timer_ok st =
     (if \<not> sa_ok then exited
      else if \<not> timer_ok then exited
      else Inr (st\<lparr>alrm_save := alrm st, alrm := Disp_Module, timer_on := True, exit_fns := exit_fns st + 1\<rparr>))"

text \<open>The flag \<open>inited\<close> is tested but never set.\<close>

definition mytbf_init_udp ::
  "bool \<Rightarrow> bool \<Rightarrow> nat option \<Rightarrow> int \<Rightarrow> int \<Rightarrow> tb_state \<Rightarrow> (nat option \<times> tb_state) res" where
  "mytbf_init_udp sa_ok timer_ok mb c b st0 =
     bindr (if \<not> inited st0 then mod_load_udp sa_ok timer_ok st0 else Inr st0) (\<lambda>st.
       case get_free_pos (job st) of
         None \<Rightarrow> Inr (None, st)
       | Some i \<Rightarrow>
           (case mb of
              None \<Rightarrow> Inr (None, st)
            | Some p \<Rightarrow>
                Inr (Some p, st\<lparr>mem := (mem st)(p \<mapsto> \<lparr>cps = c, token = 0, burst = b, pos = Some i\<rparr>),
                                job := (job st)[i := Some p]\<rparr>)))"

definition mytbf_fetchtoken_udp ::
  "bool \<Rightarrow> nat \<Rightarrow> int \<Rightarrow> bool list \<Rightarrow> tb_state \<Rightarrow> (int option \<times> tb_state) res" where
  "mytbf_fetchtoken_udp timer_ok p n sigs st =
     (if n \<le> 0 then Inl (Err EINVAL)
      else
        bindr (wait_tokens (handler_udp timer_ok) p sigs st) (\<lambda>(ready, st).
          if \<not> ready then Inr (None, st)
          else
            bindr (bucket_at st p) (\<lambda>b.
            let k = (if token b < n then token b else n) in
            bindr (int32 (token b - k)) (\<lambda>t.
              Inr (Some k, st\<lparr>mem := (mem st)(p \<mapsto> b\<lparr>token := t\<rparr>)\<rparr>)))))"

definition mytbf_returntoken_udp :: "nat \<Rightarrow> int \<Rightarrow> tb_state \<Rightarrow> (int \<times> tb_state) res" where
  "mytbf_returntoken_udp p n st =
     (if n \<le> 0 then Inl (Err EINVAL)
      else
        bindr (bucket_at st p) (\<lambda>b.
        bindr (int32 (token b + n)) (\<lambda>t.
          Inr (n, st\<lparr>mem := (mem st)(p \<mapsto> b\<lparr>token := if t > burst b then burst b else t\<rparr>)\<rparr>))))"

definition mytbf_destroy_udp :: "nat \<Rightarrow> tb_state \<Rightarrow> tb_state res" where
  "mytbf_destroy_udp p st =
     bindr (bucket_at st p) (\<lambda>b.
       case pos b of
         None \<Rightarrow> Inl UB
       | Some i \<Rightarrow>
           if i < length (job st)
           then Inr (st\<lparr>job := (job st)[i := None], mem := (mem st)(p := None)\<rparr>)
           else Inl UB)"

text \<open>The end of the process runs the registered exit handlers.\<close>

primrec run_exit_fns :: "nat \<Rightarrow> (tb_state \<Rightarrow> tb_state res) \<Rightarrow> tb_state \<Rightarrow> tb_state res" where
  "run_exit_fns 0 unload st = Inr st"
| "run_exit_fns (Suc n) unload st = bindr (unload st) (run_exit_fns n unload)"

section \<open>The invariant\<close>

fun pointers :: "nat option list \<Rightarrow> nat list" where
  "pointers [] = []"
| "pointers (None # js) = pointers js"
| "pointers (Some p # js) = p # pointers js"

lemma pointers_set: "p \<in> set (pointers js) \<longleftrightarrow> Some p \<in> set js"
  by (induction js rule: pointers.induct) auto

definition bucket_ok :: "bucket \<Rightarrow> bool" where
  "bucket_ok b \<longleftrightarrow> 0 \<le> cps b \<and> 0 \<le> token b \<and> token b \<le> burst b \<and> cps b + burst b < 2 ^ 31"

text \<open>The array refers to allocated buckets, no two entries to the same; every bucket is in its limits.\<close>

definition tb_ok :: "tb_state \<Rightarrow> bool" where
  "tb_ok st \<longleftrightarrow> length (job st) = MYTBF_MAX \<and> distinct (pointers (job st)) \<and>
     (\<forall>p. Some p \<in> set (job st) \<longrightarrow> mem st p \<noteq> None) \<and>
     (\<forall>p b. mem st p = Some b \<longrightarrow> bucket_ok b)"

definition tick_bucket :: "bucket \<Rightarrow> bucket" where
  "tick_bucket b = b\<lparr>token := min (token b + cps b) (burst b)\<rparr>"

lemma tick_bucket_ok: "bucket_ok b \<Longrightarrow> bucket_ok (tick_bucket b)"
  by (auto simp: bucket_ok_def tick_bucket_def)

lemma tick_one_eq:
  assumes "m p = Some b" "bucket_ok b"
  shows "tick_one p m = Inr (m(p \<mapsto> tick_bucket b))"
  using assms by (auto simp: tick_one_def int32_def bucket_ok_def tick_bucket_def min_def not_le)

lemma tick_jobs_spec:
  assumes "distinct (pointers js)" "\<forall>p. Some p \<in> set js \<longrightarrow> m p \<noteq> None" "\<forall>p b. m p = Some b \<longrightarrow> bucket_ok b"
  shows "tick_jobs js m = Inr (\<lambda>p. if Some p \<in> set js then map_option tick_bucket (m p) else m p)"
  using assms
proof (induction js m rule: tick_jobs.induct)
  case (3 p js m)
  then obtain b where b: "m p = Some b" "bucket_ok b" by auto
  have t: "tick_one p m = Inr (m(p \<mapsto> tick_bucket b))" using b by (rule tick_one_eq)
  have "Some p \<notin> set js" using "3.prems"(1) by (simp add: pointers_set)
  moreover have "tick_jobs js (m(p \<mapsto> tick_bucket b)) =
      Inr (\<lambda>q. if Some q \<in> set js then map_option tick_bucket ((m(p \<mapsto> tick_bucket b)) q)
        else (m(p \<mapsto> tick_bucket b)) q)"
    using "3.prems" tick_bucket_ok [OF b(2)] by (intro "3.IH" t) auto
  ultimately show ?case using b t by (auto simp: fun_eq_iff)
qed (auto simp: fun_eq_iff)

lemma tick_state:
  assumes "tb_ok st"
  shows "\<exists>m. tick_jobs (job st) (mem st) = Inr m \<and>
    (\<forall>p. m p = (if Some p \<in> set (job st) then map_option tick_bucket (mem st p) else mem st p)) \<and>
    (\<forall>p b. m p = Some b \<longrightarrow> bucket_ok b) \<and> (\<forall>p. m p = None \<longleftrightarrow> mem st p = None)"
proof -
  let ?m = "\<lambda>p. if Some p \<in> set (job st) then map_option tick_bucket (mem st p) else mem st p"
  have "tick_jobs (job st) (mem st) = Inr ?m"
    using assms by (intro tick_jobs_spec) (auto simp: tb_ok_def)
  moreover have "bucket_ok b" if "?m p = Some b" for p b
    using that assms tick_bucket_ok by (auto simp: tb_ok_def split: if_splits)
  moreover have "?m p = None \<longleftrightarrow> mem st p = None" for p by simp
  ultimately show ?thesis by blast
qed

text \<open>The level and the rate of a bucket.\<close>

definition level :: "tb_state \<Rightarrow> nat \<Rightarrow> int" where
  "level st p = (case mem st p of None \<Rightarrow> 0 | Some b \<Rightarrow> token b)"

definition rate :: "tb_state \<Rightarrow> nat \<Rightarrow> int" where
  "rate st p = (case mem st p of None \<Rightarrow> 0 | Some b \<Rightarrow> cps b)"

lemma rate_nonneg: "tb_ok st \<Longrightarrow> 0 \<le> rate st p"
  by (auto simp: tb_ok_def rate_def bucket_ok_def split: option.splits)

lemma level_bounds: "tb_ok st \<Longrightarrow> mem st p = Some b \<Longrightarrow> 0 \<le> level st p \<and> level st p \<le> burst b"
  by (auto simp: tb_ok_def level_def bucket_ok_def)

text \<open>A new memory with the same allocated blocks and buckets in their limits.\<close>

lemma tb_ok_mem:
  assumes "tb_ok st" "job st' = job st" "\<And>p. mem st' p = None \<longleftrightarrow> mem st p = None"
    "\<And>p b. mem st' p = Some b \<Longrightarrow> bucket_ok b"
  shows "tb_ok st'"
  using assms by (auto simp: tb_ok_def)

lemma tick_laws:
  assumes "tb_ok st" "tick_jobs (job st) (mem st) = Inr m" "job st' = job st" "mem st' = m"
  shows "tb_ok st'" "rate st' = rate st" "level st' p \<le> level st p + rate st p"
proof -
  from tick_state [OF assms(1)] obtain m' where t: "tick_jobs (job st) (mem st) = Inr m'"
    and m: "\<forall>p. m' p = (if Some p \<in> set (job st) then map_option tick_bucket (mem st p) else mem st p)"
      "\<forall>p b. m' p = Some b \<longrightarrow> bucket_ok b" "\<forall>p. m' p = None \<longleftrightarrow> mem st p = None" by blast
  have e: "mem st' = m'" using t assms(2,4) by simp
  show "tb_ok st'" using m(2,3) by (intro tb_ok_mem [OF assms(1,3)]) (simp_all add: e)
  have "rate st' q = rate st q" for q
    using m(1) [rule_format, of q] by (cases "mem st q") (simp_all add: rate_def e tick_bucket_def)
  then show "rate st' = rate st" by (rule ext)
  show "level st' p \<le> level st p + rate st p"
    using rate_nonneg [OF assms(1), of p] m(1) [rule_format, of p]
    by (cases "mem st p") (simp_all add: level_def rate_def e tick_bucket_def)
qed

lemma tb_ok_bucket: "tb_ok st \<Longrightarrow> mem st p = Some b \<Longrightarrow> bucket_ok b"
  by (simp add: tb_ok_def)

lemma tb_ok_upd:
  assumes "tb_ok st" "mem st p = Some b" "bucket_ok b'" "job st' = job st" "mem st' = (mem st)(p \<mapsto> b')"
  shows "tb_ok st'"
proof (rule tb_ok_mem [OF assms(1,4)])
  show "mem st' q = None \<longleftrightarrow> mem st q = None" for q using assms(2) by (simp add: assms(5))
  show "bucket_ok c" if "mem st' q = Some c" for q c
    using that assms(3) tb_ok_bucket [OF assms(1), of q c] by (simp add: assms(5) split: if_splits)
qed

lemma take_laws:
  assumes "tb_ok st" "mem st p = Some b" "0 \<le> k" "k \<le> token b" "job st' = job st"
    "mem st' = (mem st)(p \<mapsto> b\<lparr>token := token b - k\<rparr>)"
  shows "tb_ok st'" "rate st' = rate st" "level st' q = level st q - (if q = p then k else 0)"
proof -
  have "bucket_ok b" using assms(1,2) by (rule tb_ok_bucket)
  then have "bucket_ok (b\<lparr>token := token b - k\<rparr>)" using assms(3,4) by (simp add: bucket_ok_def)
  from tb_ok_upd [OF assms(1,2) this assms(5,6)] show "tb_ok st'" .
  show "rate st' = rate st" "level st' q = level st q - (if q = p then k else 0)"
    by (simp_all add: rate_def level_def fun_eq_iff assms(2,6))
qed

lemma give_laws:
  assumes "tb_ok st" "mem st p = Some b" "0 \<le> n" "job st' = job st"
    "mem st' = (mem st)(p \<mapsto> b\<lparr>token := if token b + n > burst b then burst b else token b + n\<rparr>)"
  shows "tb_ok st'" "rate st' = rate st" "level st' q \<le> level st q + (if q = p then n else 0)"
proof -
  have "bucket_ok b" using assms(1,2) by (rule tb_ok_bucket)
  then have "bucket_ok (b\<lparr>token := if token b + n > burst b then burst b else token b + n\<rparr>)"
    using assms(3) by (simp add: bucket_ok_def)
  from tb_ok_upd [OF assms(1,2) this assms(4,5)] show "tb_ok st'" .
  show "rate st' = rate st" "level st' q \<le> level st q + (if q = p then n else 0)"
    using assms(3) by (simp_all add: rate_def level_def fun_eq_iff assms(2,5))
qed

section \<open>What a token bucket promises\<close>

datatype 's tb_op = Tick 's | Fetch nat int | Give_Back nat int

text \<open>
  A run of operations, with the tokens that were granted.  A call that is refused, or that would
  wait, leaves the state as it is.
\<close>

fun run_ops ::
  "('s \<Rightarrow> tb_state \<Rightarrow> tb_state res) \<Rightarrow> (nat \<Rightarrow> int \<Rightarrow> 's list \<Rightarrow> tb_state \<Rightarrow> (int option \<times> tb_state) res) \<Rightarrow>
   (nat \<Rightarrow> int \<Rightarrow> tb_state \<Rightarrow> (int \<times> tb_state) res) \<Rightarrow> 's tb_op list \<Rightarrow> tb_state \<Rightarrow>
   ((nat \<times> int) list \<times> tb_state) res" where
  "run_ops tick fetch give [] st = Inr ([], st)"
| "run_ops tick fetch give (Tick s # ops) st =
     bindr (tick s st) (run_ops tick fetch give ops)"
| "run_ops tick fetch give (Fetch p n # ops) st =
     (case fetch p n [] st of
        Inl UB \<Rightarrow> Inl UB
      | Inl Hang \<Rightarrow> Inl Hang
      | Inl (Err e) \<Rightarrow> run_ops tick fetch give ops st
      | Inr (None, st') \<Rightarrow> run_ops tick fetch give ops st'
      | Inr (Some k, st') \<Rightarrow>
          bindr (run_ops tick fetch give ops st') (\<lambda>(log, st). Inr ((p, k) # log, st)))"
| "run_ops tick fetch give (Give_Back p n # ops) st =
     (case give p n st of
        Inl UB \<Rightarrow> Inl UB
      | Inl Hang \<Rightarrow> Inl Hang
      | Inl (Err e) \<Rightarrow> run_ops tick fetch give ops st
      | Inr (k, st') \<Rightarrow> run_ops tick fetch give ops st')"

fun granted :: "nat \<Rightarrow> (nat \<times> int) list \<Rightarrow> int" where
  "granted p [] = 0"
| "granted p ((q, k) # log) = (if q = p then k else 0) + granted p log"

fun ticks :: "'s tb_op list \<Rightarrow> int" where
  "ticks [] = 0"
| "ticks (Tick s # ops) = 1 + ticks ops"
| "ticks (op # ops) = ticks ops"

fun given_back :: "nat \<Rightarrow> 's tb_op list \<Rightarrow> int" where
  "given_back p [] = 0"
| "given_back p (Give_Back q n # ops) = (if q = p \<and> 0 \<le> n then n else 0) + given_back p ops"
| "given_back p (op # ops) = given_back p ops"

locale token_bucket =
  fixes tick :: "'s \<Rightarrow> tb_state \<Rightarrow> tb_state res"
    and fetch :: "nat \<Rightarrow> int \<Rightarrow> 's list \<Rightarrow> tb_state \<Rightarrow> (int option \<times> tb_state) res"
    and give :: "nat \<Rightarrow> int \<Rightarrow> tb_state \<Rightarrow> (int \<times> tb_state) res"
  assumes tick_gain: "tb_ok st \<Longrightarrow> tick s st = Inr st' \<Longrightarrow>
      tb_ok st' \<and> rate st' = rate st \<and> level st' p \<le> level st p + rate st p"
    and fetch_takes: "tb_ok st \<Longrightarrow> fetch p n [] st = Inr (r, st') \<Longrightarrow>
      tb_ok st' \<and> rate st' = rate st \<and>
      (case r of
         None \<Rightarrow> level st' q = level st q
       | Some k \<Rightarrow> 0 \<le> k \<and> k \<le> n \<and> level st' q = level st q - (if q = p then k else 0))"
    and give_adds: "tb_ok st \<Longrightarrow> give p n st = Inr (k, st') \<Longrightarrow>
      tb_ok st' \<and> rate st' = rate st \<and> 0 \<le> n \<and> level st' q \<le> level st q + (if q = p then n else 0)"
begin

text \<open>In any run a bucket grants no more than it held, gained and got back.\<close>

lemma rate_limit:
  "tb_ok st \<Longrightarrow> run_ops tick fetch give ops st = Inr (log, st') \<Longrightarrow>
   tb_ok st' \<and> rate st' = rate st \<and>
   granted p log + level st' p \<le> level st p + rate st p * ticks ops + given_back p ops"
proof (induction ops arbitrary: st log)
  case (Cons op ops)
  show ?case
  proof (cases op)
    case (Tick s)
    with Cons.prems(2) obtain st1 where st1: "tick s st = Inr st1" "run_ops tick fetch give ops st1 = Inr (log, st')"
      by (auto simp: bindr_eq_Inr)
    from tick_gain [OF Cons.prems(1) st1(1), of p] Cons.IH [OF _ st1(2)] show ?thesis
      by (auto simp: Tick algebra_simps)
  next
    case (Fetch q n)
    show ?thesis
    proof (cases "fetch q n [] st")
      case (Inl e)
      with Cons.prems Fetch Cons.IH [OF Cons.prems(1)] show ?thesis by (cases e) auto
    next
      case (Inr r)
      obtain k st1 where r: "r = (k, st1)" by (cases r)
      note f = fetch_takes [OF Cons.prems(1) Inr [unfolded r], of p]
      show ?thesis
      proof (cases k)
        case None
        with f Cons.prems Fetch Inr r Cons.IH [of st1 log] show ?thesis by auto
      next
        case (Some j)
        with Cons.prems(2) Fetch Inr r obtain log1 where l: "run_ops tick fetch give ops st1 = Inr (log1, st')"
          "log = (q, j) # log1" by (auto simp: bindr_eq_Inr)
        from f Some Cons.IH [OF _ l(1)] show ?thesis by (auto simp: l(2) Fetch)
      qed
    qed
  next
    case (Give_Back q n)
    show ?thesis
    proof (cases "give q n st")
      case (Inl e)
      with Cons.prems Give_Back Cons.IH [OF Cons.prems(1)] show ?thesis by (cases e) auto
    next
      case (Inr r)
      obtain k st1 where r: "r = (k, st1)" by (cases r)
      from give_adds [OF Cons.prems(1) Inr [unfolded r], of p] Cons.IH [of st1 log] Cons.prems Inr r
      show ?thesis by (auto simp: Give_Back)
    qed
  qed
qed simp

end

section \<open>The three versions are token buckets\<close>

text \<open>What a call does that finds the bucket \<open>p\<close> with or without tokens.\<close>

lemma bucket_at_Inr: "bucket_at st p = Inr b \<longleftrightarrow> mem st p = Some b"
  by (simp add: bucket_at_def split: option.splits)

lemma int32_Inr: "int32 x = Inr y \<longleftrightarrow> y = x \<and> - (2 ^ 31) \<le> x \<and> x < 2 ^ 31"
  by (auto simp: int32_def)

lemma wait_now:
  "wait_tokens handler p [] st = Inr r \<longleftrightarrow> (\<exists>b. mem st p = Some b \<and> r = (0 < token b, st))"
  by (auto simp: bindr_eq_Inr bucket_at_Inr)

lemma take_tokens_Inr:
  assumes "take_tokens p n st = Inr (k, st')" "0 \<le> n" "mem st p = Some b" "0 < token b"
  shows "k = min (token b) n" "job st' = job st" "mem st' = (mem st)(p \<mapsto> b\<lparr>token := token b - k\<rparr>)"
  using assms by (auto simp: take_tokens_def Let_def bindr_eq_Inr bucket_at_Inr int32_Inr min_int_def min_def)

lemma fetch_laws:
  assumes ok: "tb_ok st" and n: "0 \<le> n"
    and f: "bindr (wait_tokens handler p [] st) (\<lambda>(ready, st).
          if \<not> ready then Inr (None, st) else bindr (take_tokens p n st) (\<lambda>(k, st). Inr (Some k, st))) = Inr (r, st')"
  shows "tb_ok st' \<and> rate st' = rate st \<and>
      (case r of None \<Rightarrow> level st' q = level st q
       | Some k \<Rightarrow> 0 \<le> k \<and> k \<le> n \<and> level st' q = level st q - (if q = p then k else 0))"
proof -
  from f obtain b where b: "mem st p = Some b" by (auto simp: bindr_eq_Inr bucket_at_Inr)
  show ?thesis
  proof (cases "0 < token b")
    case False
    with f b ok show ?thesis by (auto simp: bucket_at_def)
  next
    case True
    with f b obtain k where k: "take_tokens p n st = Inr (k, st')" "r = Some k"
      by (auto simp: bucket_at_def bindr_eq_Inr)
    note t = take_tokens_Inr [OF k(1) n b True]
    have "0 \<le> k" "k \<le> token b" "k \<le> n" using t(1) n True by auto
    with take_laws [OF ok b _ _ t(2,3)] k(2) show ?thesis by auto
  qed
qed

lemma give_back_laws:
  assumes ok: "tb_ok st" and n: "0 \<le> n"
    and f: "bindr (bucket_at st p) (\<lambda>b. bindr (int32 (token b + n)) (\<lambda>t.
          Inr (n, st\<lparr>mem := (mem st)(p \<mapsto> b\<lparr>token := if t > burst b then burst b else t\<rparr>)\<rparr>))) = Inr (k, st')"
  shows "tb_ok st' \<and> rate st' = rate st \<and> 0 \<le> n \<and> level st' q \<le> level st q + (if q = p then n else 0)"
proof -
  from f obtain b where b: "mem st p = Some b" "job st' = job st"
    "mem st' = (mem st)(p \<mapsto> b\<lparr>token := if token b + n > burst b then burst b else token b + n\<rparr>)"
    by (auto simp: bindr_eq_Inr bucket_at_Inr int32_Inr)
  from give_laws [OF ok b(1) n b(2,3)] n show ?thesis by simp
qed

lemma handler_laws:
  assumes "tb_ok st" "bindr (tick_jobs (job st) (mem st)) (\<lambda>m. Inr (f m)) = Inr st'"
    "\<And>m. job (f m) = job st" "\<And>m. mem (f m) = m"
  shows "tb_ok st' \<and> rate st' = rate st \<and> level st' p \<le> level st p + rate st p"
proof -
  from assms(2) obtain m where m: "tick_jobs (job st) (mem st) = Inr m" "st' = f m" by (auto simp: bindr_eq_Inr)
  from tick_laws [OF assms(1) m(1), of st'] m(2) assms(3,4) show ?thesis by simp
qed

interpretation tb_signal: token_bucket "\<lambda>_ :: unit. sigalrm_handler" mytbf_fetchtoken mytbf_returntoken
proof
  fix st st' :: tb_state and p q n r k and s :: unit
  assume ok: "tb_ok st"
  show "tb_ok st' \<and> rate st' = rate st \<and> level st' p \<le> level st p + rate st p" if "sigalrm_handler st = Inr st'"
    using that unfolding sigalrm_handler_def by (rule handler_laws [OF ok]) simp_all
  show "tb_ok st' \<and> rate st' = rate st \<and>
      (case r of None \<Rightarrow> level st' q = level st q
       | Some k \<Rightarrow> 0 \<le> k \<and> k \<le> n \<and> level st' q = level st q - (if q = p then k else 0))"
    if f: "mytbf_fetchtoken p n [] st = Inr (r, st')"
  proof -
    have n: "\<not> n < 0" using f by (auto simp: mytbf_fetchtoken_def split: if_splits)
    show ?thesis using fetch_laws [OF ok _ f [unfolded mytbf_fetchtoken_def if_not_P [OF n]]] n by simp
  qed
  show "tb_ok st' \<and> rate st' = rate st \<and> 0 \<le> n \<and> level st' q \<le> level st q + (if q = p then n else 0)"
    if f: "mytbf_returntoken p n st = Inr (k, st')"
  proof -
    have n: "\<not> n < 0" using f by (auto simp: mytbf_returntoken_def split: if_splits)
    show ?thesis using give_back_laws [OF ok _ f [unfolded mytbf_returntoken_def if_not_P [OF n]]] n by simp
  qed
qed

interpretation tb_sigaction: token_bucket alrm_action_sa mytbf_fetchtoken_sa mytbf_returntoken_sa
proof
  fix st st' :: tb_state and p q n r k and s :: bool
  assume ok: "tb_ok st"
  show "tb_ok st' \<and> rate st' = rate st \<and> level st' p \<le> level st p + rate st p" if "alrm_action_sa s st = Inr st'"
  proof (cases s)
    case False
    with that ok rate_nonneg [OF ok, of p] show ?thesis by (simp add: alrm_action_sa_def)
  next
    case True
    with that have "bindr (tick_jobs (job st) (mem st)) (\<lambda>m. Inr (st\<lparr>mem := m\<rparr>)) = Inr st'"
      by (simp add: alrm_action_sa_def)
    then show ?thesis by (rule handler_laws [OF ok]) simp_all
  qed
  show "tb_ok st' \<and> rate st' = rate st \<and>
      (case r of None \<Rightarrow> level st' q = level st q
       | Some k \<Rightarrow> 0 \<le> k \<and> k \<le> n \<and> level st' q = level st q - (if q = p then k else 0))"
    if f: "mytbf_fetchtoken_sa p n [] st = Inr (r, st')"
  proof -
    have n: "\<not> n < 0" using f by (auto simp: mytbf_fetchtoken_sa_def split: if_splits)
    show ?thesis using fetch_laws [OF ok _ f [unfolded mytbf_fetchtoken_sa_def if_not_P [OF n]]] n by simp
  qed
  show "tb_ok st' \<and> rate st' = rate st \<and> 0 \<le> n \<and> level st' q \<le> level st q + (if q = p then n else 0)"
    if f: "mytbf_returntoken_sa p n st = Inr (k, st')"
  proof -
    have n: "\<not> n < 0" using f by (auto simp: mytbf_returntoken_sa_def split: if_splits)
    show ?thesis using give_back_laws [OF ok _ f [unfolded mytbf_returntoken_sa_def if_not_P [OF n]]] n by simp
  qed
qed

lemma fetch_udp_take:
  "n > 0 \<Longrightarrow> mytbf_fetchtoken_udp timer_ok p n sigs st =
     bindr (wait_tokens (handler_udp timer_ok) p sigs st) (\<lambda>(ready, st).
       if \<not> ready then Inr (None, st) else bindr (take_tokens p n st) (\<lambda>(k, st). Inr (Some k, st)))"
proof -
  assume n: "n > 0"
  have e: "(if token b < n then token b else n) = min_int (token b) n" for b
    by (simp add: min_int_def)
  have e2: "bindr (take_tokens p n st) (\<lambda>(k, st). Inr (Some k, st)) =
      bindr (bucket_at st p) (\<lambda>b.
            let k = (if token b < n then token b else n) in
            bindr (int32 (token b - k)) (\<lambda>t.
              Inr (Some k, st\<lparr>mem := (mem st)(p \<mapsto> b\<lparr>token := t\<rparr>)\<rparr>)))" for st
    by (simp only: take_tokens_def Let_def bindr_assoc bindr_Inr prod.case e)
  have "\<not> n \<le> 0" using n by simp
  then show ?thesis unfolding mytbf_fetchtoken_udp_def by (simp only: if_False e2)
qed

interpretation tb_udp: token_bucket "handler_udp True" "mytbf_fetchtoken_udp True" mytbf_returntoken_udp
proof
  fix st st' :: tb_state and p q n r k and s :: bool
  assume ok: "tb_ok st"
  show "tb_ok st' \<and> rate st' = rate st \<and> level st' p \<le> level st p + rate st p" if "handler_udp True s st = Inr st'"
  proof (cases s)
    case False
    with that ok rate_nonneg [OF ok, of p] show ?thesis by (simp add: handler_udp_def)
  next
    case True
    with that have "bindr (tick_jobs (job st) (mem st)) (\<lambda>m. Inr (st\<lparr>timer_on := True, mem := m\<rparr>)) = Inr st'"
      by (simp add: handler_udp_def)
    then show ?thesis by (rule handler_laws [OF ok]) simp_all
  qed
  show "tb_ok st' \<and> rate st' = rate st \<and>
      (case r of None \<Rightarrow> level st' q = level st q
       | Some k \<Rightarrow> 0 \<le> k \<and> k \<le> n \<and> level st' q = level st q - (if q = p then k else 0))"
    if f: "mytbf_fetchtoken_udp True p n [] st = Inr (r, st')"
  proof -
    have n: "0 < n" using f by (auto simp: mytbf_fetchtoken_udp_def split: if_splits)
    show ?thesis using fetch_laws [OF ok _ f [unfolded fetch_udp_take [OF n]]] n by simp
  qed
  show "tb_ok st' \<and> rate st' = rate st \<and> 0 \<le> n \<and> level st' q \<le> level st q + (if q = p then n else 0)"
    if f: "mytbf_returntoken_udp p n st = Inr (k, st')"
  proof -
    have n: "\<not> n \<le> 0" using f by (auto simp: mytbf_returntoken_udp_def split: if_splits)
    show ?thesis using give_back_laws [OF ok _ f [unfolded mytbf_returntoken_udp_def if_not_P [OF n]]] n by simp
  qed
qed

section \<open>Properties\<close>


text \<open>A state with one bucket, of rate 10 and limit 100.\<close>

definition one_bucket :: tb_state where
  "one_bucket = snd (mytbf_init (Some 7) 10 100 (tb_start (Disp_Other 1)))"

lemma one_bucket_fields:
  "\<exists>n. Suc n = MYTBF_MAX \<and> job one_bucket = Some 7 # replicate n None"
  "mem one_bucket = [7 \<mapsto> \<lparr>cps = 10, token = 0, burst = 100, pos = None\<rparr>]"
proof -
  obtain n where n: "MYTBF_MAX = Suc n" by (cases MYTBF_MAX) (auto simp: MYTBF_MAX_def)
  show "\<exists>n. Suc n = MYTBF_MAX \<and> job one_bucket = Some 7 # replicate n None"
    "mem one_bucket = [7 \<mapsto> \<lparr>cps = 10, token = 0, burst = 100, pos = None\<rparr>]"
    by (simp_all add: one_bucket_def mytbf_init_def tb_start_def module_load_def Let_def n)
qed

lemma pointers_replicate: "pointers (replicate n None) = []"
  by (induction n) simp_all

lemma one_bucket_ok: "tb_ok one_bucket" "mem one_bucket 7 = Some \<lparr>cps = 10, token = 0, burst = 100, pos = None\<rparr>"
proof -
  from one_bucket_fields(1) obtain n where "Suc n = MYTBF_MAX" "job one_bucket = Some 7 # replicate n None" by blast
  then show "tb_ok one_bucket"
    by (auto simp: one_bucket_fields(2) tb_ok_def pointers_replicate bucket_ok_def split: if_splits)
  show "mem one_bucket 7 = Some \<lparr>cps = 10, token = 0, burst = 100, pos = None\<rparr>"
    by (simp add: one_bucket_fields(2))
qed

lemma sample_run:
  "\<exists>st'. run_ops (\<lambda>_ :: unit. sigalrm_handler) mytbf_fetchtoken mytbf_returntoken
     [Fetch 7 5, Tick (), Fetch 7 500] one_bucket = Inr ([(7, 10)], st')"
proof -
  let ?st = "one_bucket"
  have job: "Some 7 \<in> set (job ?st)" using one_bucket_fields(1) by auto
  from tick_state [OF one_bucket_ok(1)] obtain m where m: "tick_jobs (job ?st) (mem ?st) = Inr m"
    "m 7 = map_option tick_bucket (mem ?st 7)" using job by (metis (no_types))
  then have m7: "m 7 = Some \<lparr>cps = 10, token = 10, burst = 100, pos = None\<rparr>"
    using one_bucket_ok(2) by (simp add: tick_bucket_def)
  have "mytbf_fetchtoken 7 5 [] ?st = Inr (None, ?st)"
    using one_bucket_ok(2) by (simp add: mytbf_fetchtoken_def bucket_at_def)
  moreover have "sigalrm_handler ?st = Inr (?st\<lparr>timer_on := True, mem := m\<rparr>)"
    using m(1) by (simp add: sigalrm_handler_def)
  moreover have "\<exists>st'. mytbf_fetchtoken 7 500 [] (?st\<lparr>timer_on := True, mem := m\<rparr>) = Inr (Some 10, st')"
    using m7 by (simp add: mytbf_fetchtoken_def bucket_at_def take_tokens_def min_int_def int32_def Let_def)
  ultimately show ?thesis by auto
qed


text \<open>One tick of the timer gives an active bucket a token, and the handler is never undefined.\<close>

lemma tick_fills:
  assumes "tb_ok st" "tick_jobs (job st) (mem st) = Inr m" "Some p \<in> set (job st)" "mem st p = Some b"
    "0 < cps b" "0 < burst b"
  shows "\<exists>b'. m p = Some b' \<and> 0 < token b'"
proof -
  from tick_state [OF assms(1)] obtain m' where m': "tick_jobs (job st) (mem st) = Inr m'"
    "\<forall>p. m' p = (if Some p \<in> set (job st) then map_option tick_bucket (mem st p) else mem st p)" by blast
  then have "m p = Some (tick_bucket b)" using assms(2,3,4) by simp
  moreover have "bucket_ok b" using assms(1,4) by (rule tb_ok_bucket)
  ultimately show ?thesis using assms(5,6) by (auto simp: tick_bucket_def bucket_ok_def)
qed

lemma wait_tokens_one:
  assumes "mem st p = Some b" "handler s st = Inr st'" "mem st' p = Some b'" "0 < token b'"
  shows "\<exists>st'' b''. wait_tokens handler p (s # sigs) st = Inr (True, st'') \<and> mem st'' p = Some b'' \<and>
    0 < token b'' \<and> (st'' = st \<or> st'' = st')"
proof (cases "0 < token b")
  case True
  with assms(1) show ?thesis by (auto simp: bucket_at_def)
next
  case False
  have "wait_tokens handler p sigs st' = Inr (True, st')"
    using assms(3,4) by (cases sigs) (auto simp: bucket_at_def)
  with False assms show ?thesis by (auto simp: bucket_at_def)
qed

lemma take_tokens_defined:
  assumes "mem st p = Some b" "0 < token b" "0 \<le> n" "token b < 2 ^ 31"
  shows "\<exists>st'. take_tokens p n st = Inr (min (token b) n, st')"
proof -
  have "int32 (token b - min_int (token b) n) = Inr (token b - min_int (token b) n)"
    using assms by (simp add: int32_def min_int_def)
  moreover have "min_int (token b) n = min (token b) n" by (simp add: min_int_def min_def)
  ultimately show ?thesis using assms(1) by (simp add: take_tokens_def bucket_at_def Let_def)
qed

lemma token_small: "tb_ok st \<Longrightarrow> mem st p = Some b \<Longrightarrow> token b < 2 ^ 31"
  using tb_ok_bucket [of st p b] by (auto simp: bucket_ok_def)

text \<open>
  Waiting ends.  When a bucket in the array has a positive rate and a positive limit,
  a call that asks for tokens returns at the latest after one signal of the timer, and returns at
  least one token and no more than were asked for.
\<close>

theorem tbf_fetch_returns:
  assumes "tb_ok st" "Some p \<in> set (job st)" "mem st p = Some b" "0 < cps b" "0 < burst b" "0 < n"
  shows "(\<exists>k st'. mytbf_fetchtoken p n (() # sigs) st = Inr (Some k, st') \<and> 0 < k \<and> k \<le> n) \<and>
    (\<exists>k st'. mytbf_fetchtoken_sa p n (True # sigs') st = Inr (Some k, st') \<and> 0 < k \<and> k \<le> n) \<and>
    (\<exists>k st'. mytbf_fetchtoken_udp True p n (True # sigs') st = Inr (Some k, st') \<and> 0 < k \<and> k \<le> n)"
proof -
  from tick_state [OF assms(1)] obtain m where m: "tick_jobs (job st) (mem st) = Inr m" by blast
  from tick_fills [OF assms(1) m assms(2-5)] obtain b' where b': "m p = Some b'" "0 < token b'" by blast
  have res: "\<exists>k st'. bindr (wait_tokens handler p (s # sigs) st) (\<lambda>(ready, st).
        if \<not> ready then Inr (None, st) else bindr (take_tokens p n st) (\<lambda>(k, st). Inr (Some k, st))) =
        Inr (Some k, st') \<and> 0 < k \<and> k \<le> n"
    if h: "handler s st = Inr st1" "job st1 = job st" "mem st1 = m"
    for handler s st1 and sigs :: "'s list"
  proof -
    have ok1: "tb_ok st1" by (rule tick_laws(1) [OF assms(1) m h(2,3)])
    from h(3) b' have "mem st1 p = Some b'" by simp
    from wait_tokens_one [of st p b handler, OF assms(3) h(1) this b'(2)] obtain st2 b2 where
      w: "wait_tokens handler p (s # sigs) st = Inr (True, st2)" "mem st2 p = Some b2" "0 < token b2"
        "st2 = st \<or> st2 = st1" by blast
    then have "tb_ok st2" using assms(1) ok1 by auto
    from take_tokens_defined [OF w(2,3) _ token_small [OF this w(2)], of n] assms(6) w show ?thesis by auto
  qed
  have "sigalrm_handler st = Inr (st\<lparr>timer_on := True, mem := m\<rparr>)" by (simp add: sigalrm_handler_def m)
  from res [of "\<lambda>_. sigalrm_handler" "()", OF this] assms(6)
  have 1: "\<exists>k st'. mytbf_fetchtoken p n (() # sigs) st = Inr (Some k, st') \<and> 0 < k \<and> k \<le> n"
    unfolding mytbf_fetchtoken_def by simp
  have "alrm_action_sa True st = Inr (st\<lparr>mem := m\<rparr>)" by (simp add: alrm_action_sa_def m)
  from res [of alrm_action_sa True, OF this] assms(6)
  have 2: "\<exists>k st'. mytbf_fetchtoken_sa p n (True # sigs') st = Inr (Some k, st') \<and> 0 < k \<and> k \<le> n"
    unfolding mytbf_fetchtoken_sa_def by simp
  have "handler_udp True True st = Inr (st\<lparr>timer_on := True, mem := m\<rparr>)" by (simp add: handler_udp_def m)
  from res [of "handler_udp True" True, OF this] assms(6)
  have 3: "\<exists>k st'. mytbf_fetchtoken_udp True p n (True # sigs') st = Inr (Some k, st') \<and> 0 < k \<and> k \<le> n"
    unfolding fetch_udp_take [OF assms(6)] by simp
  from 1 2 3 show ?thesis by blast
qed

theorem tbf_fetch_returns_witness:
  "\<exists>k st'. mytbf_fetchtoken 7 500 [()] one_bucket = Inr (Some k, st') \<and> 0 < k \<and> k \<le> 500"
proof -
  from one_bucket_fields(1) have "Some 7 \<in> set (job one_bucket)" by auto
  from tbf_fetch_returns [OF one_bucket_ok(1) this one_bucket_ok(2), of 500 "[]" "[]"] show ?thesis by simp
qed

text \<open>Adding a bucket in the first free place of the array.\<close>

lemma get_free_pos_None: "get_free_pos js = None \<longleftrightarrow> None \<notin> set js"
  by (induction js rule: get_free_pos.induct) auto

lemma get_free_pos_Some:
  "get_free_pos js = Some i \<Longrightarrow> i < length js \<and> js ! i = None \<and> (\<forall>k < i. js ! k \<noteq> None)"
proof (induction js arbitrary: i rule: get_free_pos.induct)
  case (3 p js)
  then obtain k where k: "get_free_pos js = Some k" "i = Suc k" by auto
  from "3.IH" [OF k(1)] k(2) show ?case by (auto simp: nth_Cons split: nat.splits)
qed auto

lemma set_put: "i < length js \<Longrightarrow> js ! i = None \<Longrightarrow> Some q \<in> set (js[i := Some p]) \<longleftrightarrow> q = p \<or> Some q \<in> set js"
proof (induction js arbitrary: i)
  case (Cons j js)
  then show ?case by (cases i) auto
qed simp

lemma distinct_put:
  "i < length js \<Longrightarrow> js ! i = None \<Longrightarrow> Some p \<notin> set js \<Longrightarrow> distinct (pointers js) \<Longrightarrow>
   distinct (pointers (js[i := Some p]))"
proof (induction js arbitrary: i rule: pointers.induct)
  case (2 js)
  then show ?case by (cases i) (auto simp: pointers_set)
next
  case (3 q js)
  then show ?case by (cases i) (auto simp: pointers_set set_put)
qed simp

lemma add_bucket_ok:
  assumes "tb_ok st" "get_free_pos (job st) = Some i" "mem st p = None" "bucket_ok b"
    "job st' = (job st)[i := Some p]" "mem st' = (mem st)(p \<mapsto> b)"
  shows "tb_ok st'"
proof -
  from get_free_pos_Some [OF assms(2)] have i: "i < length (job st)" "job st ! i = None" by auto
  have "Some p \<notin> set (job st)" using assms(1,3) by (auto simp: tb_ok_def)
  with i assms(1) have "distinct (pointers (job st'))" by (simp add: assms(5) distinct_put tb_ok_def)
  with assms(1,4) i show ?thesis by (simp add: tb_ok_def assms(5,6) set_put)
qed

lemma tb_ok_cong: "tb_ok st \<Longrightarrow> job st' = job st \<Longrightarrow> mem st' = mem st \<Longrightarrow> tb_ok st'"
  by (simp add: tb_ok_def)

text \<open>
  The constructors keep the invariant of the module: the array has its fixed length,
  its entries are different allocated buckets, and every bucket is within its limits.  They give
  NULL exactly when the array is full or memory is exhausted, and a new, empty bucket with the
  given rate and limit otherwise.
\<close>

theorem tbf_init_invariant:
  assumes "tb_ok st" "\<forall>p. mb = Some p \<longrightarrow> mem st p = None" "0 \<le> c" "0 \<le> b" "c + b < 2 ^ 31"
    and "init \<in> {mytbf_init, mytbf_init_sa}"
  shows "tb_ok (snd (init mb c b st)) \<and>
    (fst (init mb c b st) = None \<longleftrightarrow> mb = None \<or> None \<notin> set (job st)) \<and>
    (\<forall>p. fst (init mb c b st) = Some p \<longrightarrow>
       mem (snd (init mb c b st)) = (mem st)(p \<mapsto> \<lparr>cps = c, token = 0, burst = b, pos = None\<rparr>) \<and>
       Some p \<in> set (job (snd (init mb c b st))))"
proof -
  let ?b = "\<lparr>cps = c, token = 0, burst = b, pos = None\<rparr>"
  have bok: "bucket_ok ?b" using assms(3-5) by (simp add: bucket_ok_def)
  have eq: "init mb c b st = mytbf_init mb c b st"
    using assms(6) by (auto simp: mytbf_init_def mytbf_init_sa_def module_load_def module_load_sa_def)
  define st1 where "st1 = (if \<not> inited st then (module_load st)\<lparr>inited := True\<rparr> else st)"
  have st1: "job st1 = job st" "mem st1 = mem st" by (simp_all add: st1_def module_load_def)
  then have ok1: "tb_ok st1" by (rule tb_ok_cong [OF assms(1)])
  show ?thesis
  proof (cases "get_free_pos (job st)")
    case None
    then show ?thesis
      using ok1 get_free_pos_None [of "job st"] st1
      by (simp add: eq mytbf_init_def Let_def flip: st1_def)
  next
    case (Some i)
    then have fr: "None \<in> set (job st)" using get_free_pos_None [of "job st"] by auto
    show ?thesis
    proof (cases mb)
      case None
      with Some show ?thesis using ok1 st1 unfolding eq by (simp add: mytbf_init_def Let_def flip: st1_def)
    next
      case mb: (Some p)
      have st2: "mytbf_init mb c b st = (Some p, st1\<lparr>mem := (mem st)(p \<mapsto> ?b), job := (job st)[i := Some p]\<rparr>)"
        using Some mb st1 by (simp add: mytbf_init_def Let_def flip: st1_def)
      have "tb_ok (st1\<lparr>mem := (mem st)(p \<mapsto> ?b), job := (job st)[i := Some p]\<rparr>)"
        using assms(2) mb bok by (intro add_bucket_ok [OF assms(1) Some]) auto
      then show ?thesis using fr mb get_free_pos_Some [OF Some] unfolding eq st2 by (simp add: set_put)
    qed
  qed
qed

lemma tb_start_ok: "tb_ok (tb_start d)"
  by (auto simp: tb_start_def tb_ok_def pointers_replicate)

theorem tbf_init_invariant_witness:
  "tb_ok (snd (mytbf_init_sa (Some 5) 10 100 (tb_start (Disp_Other 0))))"
  using tbf_init_invariant [OF tb_start_ok, of "Some 5" "Disp_Other 0" 10 100 mytbf_init_sa]
  by (simp add: tb_start_def)

text \<open>
  In the first two versions a bucket cannot be destroyed: the member \<open>pos\<close>, the place
  that \<open>mytbf_destroy\<close> clears, is never assigned by \<open>mytbf_init\<close>.  In the third version destroying a
  new bucket gives back its place in the array and its memory.
\<close>

theorem tbf_destroy:
  assumes "tb_ok st" "mem st p = None" "inited st = False"
  shows "(\<forall>st'. mytbf_init (Some p) c b st = (Some p, st') \<longrightarrow> mytbf_destroy p st' = Inl UB) \<and>
    (\<forall>st'. mytbf_init_sa (Some p) c b st = (Some p, st') \<longrightarrow> mytbf_destroy_sa p st' = Inl UB) \<and>
    (\<forall>st'. mytbf_init_udp True True (Some p) c b st = Inr (Some p, st') \<longrightarrow>
       (\<exists>st''. mytbf_destroy_udp p st' = Inr st'' \<and> job st'' = job st \<and> mem st'' = mem st))"
proof (intro conjI allI impI)
  show "mytbf_destroy p st' = Inl UB" if "mytbf_init (Some p) c b st = (Some p, st')" for st'
    using that by (auto simp: mytbf_init_def Let_def mytbf_destroy_def bucket_at_def split: option.splits)
  show "mytbf_destroy_sa p st' = Inl UB" if "mytbf_init_sa (Some p) c b st = (Some p, st')" for st'
    using that by (auto simp: mytbf_init_sa_def Let_def mytbf_destroy_sa_def bucket_at_def split: option.splits)
  fix st' assume i: "mytbf_init_udp True True (Some p) c b st = Inr (Some p, st')"
  then obtain k where k: "get_free_pos (job st) = Some k" "job st' = (job st)[k := Some p]"
    "mem st' = (mem st)(p \<mapsto> \<lparr>cps = c, token = 0, burst = b, pos = Some k\<rparr>)"
    using assms(3) by (auto simp: mytbf_init_udp_def mod_load_udp_def split: option.splits)
  note g = get_free_pos_Some [OF k(1)]
  have "(job st)[k := None] = job st" using g by (metis list_update_id)
  moreover have "(mem st)(p := None) = mem st" using assms(2) by (simp add: fun_upd_idem)
  ultimately show "\<exists>st''. mytbf_destroy_udp p st' = Inr st'' \<and> job st'' = job st \<and> mem st'' = mem st"
    using g by (simp add: mytbf_destroy_udp_def bucket_at_def k)
qed

theorem tbf_destroy_witness:
  "\<exists>st'. mytbf_init (Some 3) 10 100 (tb_start (Disp_Other 0)) = (Some 3, st') \<and> mytbf_destroy 3 st' = Inl UB"
proof -
  obtain n where n: "MYTBF_MAX = Suc n" by (cases MYTBF_MAX) (auto simp: MYTBF_MAX_def)
  obtain st' where i: "mytbf_init (Some 3) 10 100 (tb_start (Disp_Other 0)) = (Some 3, st')"
    by (simp add: mytbf_init_def tb_start_def module_load_def Let_def n)
  with tbf_destroy [where st = "tb_start (Disp_Other 0)" and p = 3 and c = 10 and b = 100, OF tb_start_ok]
  show ?thesis by (auto simp: tb_start_def)
qed

text \<open>
  The third version never sets \<open>inited\<close>, so that every \<open>mytbf_init\<close> loads the module
  again: after two of them the saved disposition of SIGALRM is the module's own handler, the exit
  handler is registered twice, and at the end of the process the buckets are freed twice.
\<close>

theorem tbf_udp_double_free:
  assumes "p \<noteq> q"
  shows "\<exists>st1 st2. mytbf_init_udp True True (Some p) c b (tb_start d) = Inr (Some p, st1) \<and>
    mytbf_init_udp True True (Some q) c' b' st1 = Inr (Some q, st2) \<and>
    alrm_save st2 = Disp_Module \<and> exit_fns st2 = 2 \<and>
    run_exit_fns (exit_fns st2) (mod_unload_udp True) st2 = Inl UB"
proof -
  have "\<exists>n. MYTBF_MAX = Suc (Suc n)" by (intro exI [of _ 1022]) (simp add: MYTBF_MAX_def)
  then obtain n where n: "MYTBF_MAX = Suc (Suc n)" by blast
  have free_none: "free_jobs (replicate k None) m = Inr m" for k m by (induction k) simp_all
  show ?thesis
    using assms by (simp add: mytbf_init_udp_def mod_load_udp_def tb_start_def n mod_unload_udp_def free_none
        numeral_2_eq_2)
qed

theorem tbf_udp_double_free_witness:
  "\<exists>st1 st2. mytbf_init_udp True True (Some 1) 10 100 (tb_start (Disp_Other 0)) = Inr (Some 1, st1) \<and>
    mytbf_init_udp True True (Some 2) 10 100 st1 = Inr (Some 2, st2) \<and> alrm_save st2 = Disp_Module \<and> exit_fns st2 = 2 \<and>
    run_exit_fns (exit_fns st2) (mod_unload_udp True) st2 = Inl UB"
  by (rule tbf_udp_double_free) simp

end
