(* ===== verification/Kr_Malloc.thy ===== *)
theory Kr_Malloc imports C_Prelude begin

text \<open>
  The storage allocator of \<open>basic/22_malloc.c\<close> (the same file as \<open>system_call/malloc_method.c\<close>): a
  circular list of free blocks in the order of their addresses, searched from where the last search
  ended.

  Addresses count units of \<open>sizeof(Header)\<close>, 16 bytes; \<open>hnext\<close> and \<open>hsize\<close> are the two members of the
  header that lies at an address.  \<open>base\<close> is the address of the static header, below the program
  break.  A pointer that is NULL is None.  The loops go round the list and take fuel.
\<close>

section \<open>State\<close>

record kr_heap =
  hnext :: "nat \<Rightarrow> nat"
  hsize :: "nat \<Rightarrow> nat"
  freep :: "nat option"
  base :: nat
  brk :: nat

definition NALLOC :: nat where "NALLOC = 1024"

text \<open>
  \<open>sbrk\<close>, declared with an \<open>int\<close> argument: a number of bytes out of the range of \<open>int\<close> is converted.
  The outcome is None for \<open>(char *) -1\<close>, or the distance that others moved the break since the last
  call; the break then moves by the argument.
\<close>

definition int_arg :: "nat \<Rightarrow> int" where "int_arg n = sint (word_of_nat n :: s32)"

definition sbrk :: "nat option \<Rightarrow> int \<Rightarrow> kr_heap \<Rightarrow> nat option \<times> kr_heap" where
  "sbrk outcome incr st =
     (case outcome of
        None \<Rightarrow> (None, st)
      | Some gap \<Rightarrow> (Some (brk st + gap), st\<lparr>brk := nat (int (brk st + gap) + incr div 16)\<rparr>))"

section \<open>Freeing\<close>

text \<open>The loop of \<open>my_free\<close> stops at the node after which \<open>bp\<close> belongs.\<close>

definition stops_at :: "kr_heap \<Rightarrow> nat \<Rightarrow> nat \<Rightarrow> bool" where
  "stops_at st bp p \<longleftrightarrow>
     (bp > p \<and> bp < hnext st p) \<or> (p \<ge> hnext st p \<and> (bp > p \<or> bp < hnext st p))"

fun free_find :: "nat \<Rightarrow> kr_heap \<Rightarrow> nat \<Rightarrow> nat \<Rightarrow> nat res" where
  "free_find 0 st bp p = Inl Hang"
| "free_find (Suc fuel) st bp p = (if stops_at st bp p then Inr p else free_find fuel st bp (hnext st p))"

definition join_upper :: "kr_heap \<Rightarrow> nat \<Rightarrow> nat \<Rightarrow> kr_heap" where
  "join_upper st bp p =
     (let q = hnext st p in
      if bp + hsize st bp = q
      then st\<lparr>hsize := (hsize st)(bp := (hsize st bp + hsize st q) mod 2 ^ 32), hnext := (hnext st)(bp := hnext st q)\<rparr>
      else st\<lparr>hnext := (hnext st)(bp := q)\<rparr>)"

definition join_lower :: "kr_heap \<Rightarrow> nat \<Rightarrow> nat \<Rightarrow> kr_heap" where
  "join_lower st bp p =
     (if p + hsize st p = bp
      then st\<lparr>hsize := (hsize st)(p := (hsize st p + hsize st bp) mod 2 ^ 32), hnext := (hnext st)(p := hnext st bp)\<rparr>
      else st\<lparr>hnext := (hnext st)(p := bp)\<rparr>)"

text \<open>Freeing before any allocation follows a NULL pointer.\<close>

definition my_free :: "nat \<Rightarrow> nat \<Rightarrow> kr_heap \<Rightarrow> kr_heap res" where
  "my_free fuel ap st =
     (let bp = ap - 1 in
      case freep st of
        None \<Rightarrow> Inl UB
      | Some f \<Rightarrow>
          bindr (free_find fuel st bp f) (\<lambda>p.
            Inr ((join_lower (join_upper st bp p) bp p)\<lparr>freep := Some p\<rparr>)))"

section \<open>Allocation\<close>

definition my_morecore :: "nat \<Rightarrow> nat option \<Rightarrow> nat \<Rightarrow> kr_heap \<Rightarrow> (nat option \<times> kr_heap) res" where
  "my_morecore fuel outcome nu st =
     (let nu = (if nu < NALLOC then NALLOC else nu) in
      case sbrk outcome (int_arg (nu * 16)) st of
        (None, st) \<Rightarrow> Inr (None, st)
      | (Some up, st) \<Rightarrow>
          bindr (my_free fuel (up + 1) (st\<lparr>hsize := (hsize st)(up := nu)\<rparr>)) (\<lambda>st. Inr (freep st, st)))"

definition take_block :: "nat \<Rightarrow> nat \<Rightarrow> nat \<Rightarrow> kr_heap \<Rightarrow> nat \<times> kr_heap" where
  "take_block nunits prevp p st =
     (if hsize st p = nunits
      then (p + 1, st\<lparr>hnext := (hnext st)(prevp := hnext st p), freep := Some prevp\<rparr>)
      else
        let rest = hsize st p - nunits; q = p + rest in
        (q + 1, st\<lparr>hsize := (hsize st)(p := rest, q := nunits), freep := Some prevp\<rparr>))"

fun malloc_loop :: "nat \<Rightarrow> nat \<Rightarrow> nat option \<Rightarrow> nat \<Rightarrow> nat \<Rightarrow> nat \<Rightarrow> kr_heap \<Rightarrow> (nat option \<times> kr_heap) res" where
  "malloc_loop 0 ffuel outcome nunits prevp p st = Inl Hang"
| "malloc_loop (Suc fuel) ffuel outcome nunits prevp p st =
     (if hsize st p \<ge> nunits
      then let (r, st) = take_block nunits prevp p st in Inr (Some r, st)
      else if freep st = Some p
      then
        bindr (my_morecore ffuel outcome nunits st) (\<lambda>(q, st).
          case q of
            None \<Rightarrow> Inr (None, st)
          | Some q \<Rightarrow> malloc_loop fuel ffuel outcome nunits q (hnext st q) st)
      else malloc_loop fuel ffuel outcome nunits p (hnext st p) st)"

definition units_for :: "nat \<Rightarrow> nat" where "units_for nbytes = (nbytes + 15) div 16 + 1"

definition my_malloc :: "nat \<Rightarrow> nat option \<Rightarrow> nat \<Rightarrow> kr_heap \<Rightarrow> (nat option \<times> kr_heap) res" where
  "my_malloc fuel outcome nbytes st =
     (let (prevp, st) =
            (case freep st of
               None \<Rightarrow> (base st, st\<lparr>freep := Some (base st), hnext := (hnext st)(base st := base st),
                                   hsize := (hsize st)(base st := 0)\<rparr>)
             | Some f \<Rightarrow> (f, st))
      in malloc_loop fuel fuel outcome (units_for nbytes) prevp (hnext st prevp) st)"

section \<open>Circular lists\<close>

text \<open>\<open>linked nx xs e\<close>: the nodes \<open>xs\<close> follow each other, and \<open>e\<close> follows the last one.\<close>

fun linked :: "(nat \<Rightarrow> nat) \<Rightarrow> nat list \<Rightarrow> nat \<Rightarrow> bool" where
  "linked nx [] e = True"
| "linked nx (x # xs) e = (nx x = hd (xs @ [e]) \<and> linked nx xs e)"

lemma linked_append: "linked nx (xs @ ys) e \<longleftrightarrow> linked nx xs (hd (ys @ [e])) \<and> linked nx ys e"
  by (induction xs) (auto simp: hd_append)

lemma linked_upd [simp]: "x \<notin> set xs \<Longrightarrow> linked (nx(x := y)) xs e = linked nx xs e"
  by (induction xs) auto

lemma linked_nth: "linked nx xs e \<Longrightarrow> j < length xs \<Longrightarrow> nx (xs ! j) = (xs @ [e]) ! Suc j"
proof (induction xs arbitrary: j)
  case (Cons x xs)
  then show ?case by (cases j) (auto simp: hd_conv_nth nth_append)
qed simp

lemma ring_step:
  assumes "linked nx ns (hd ns)" "ns \<noteq> []"
  shows "(nx ^^ i) (ns ! (j mod length ns)) = ns ! ((j + i) mod length ns)"
proof (induction i)
  case (Suc i)
  let ?k = "(j + i) mod length ns"
  have k: "?k < length ns" using assms(2) by simp
  have "nx (ns ! ?k) = ns ! (Suc ?k mod length ns)"
  proof (cases "Suc ?k = length ns")
    case True
    then show ?thesis using linked_nth [OF assms(1) k] assms(2) by (simp add: nth_append hd_conv_nth)
  next
    case False
    then have "Suc ?k < length ns" using k by simp
    then show ?thesis using linked_nth [OF assms(1) k] by (simp add: nth_append)
  qed
  then show ?case using Suc by (simp add: mod_Suc_eq)
qed simp

text \<open>From any node every node is reached within the length of the list.\<close>

lemma ring_reach:
  assumes "linked nx ns (hd ns)" "x \<in> set ns" "y \<in> set ns"
  shows "\<exists>i < length ns. (nx ^^ i) x = y"
proof -
  from assms(2,3) obtain j k where j: "j < length ns" "ns ! j = x" and k: "k < length ns" "ns ! k = y"
    by (auto simp: in_set_conv_nth)
  have ne: "ns \<noteq> []" using assms(2) by auto
  let ?i = "(k + (length ns - j)) mod length ns"
  have "(nx ^^ ?i) (ns ! (j mod length ns)) = ns ! ((j + ?i) mod length ns)" by (rule ring_step [OF assms(1) ne])
  also have "(j + ?i) mod length ns = k" using j k by (simp add: mod_add_right_eq)
  finally have "(nx ^^ ?i) x = y" using j k by simp
  moreover have "?i < length ns" using ne by simp
  ultimately show ?thesis by blast
qed

lemma ring_closed: "linked nx ns (hd ns) \<Longrightarrow> x \<in> set ns \<Longrightarrow> nx x \<in> set ns"
proof -
  assume r: "linked nx ns (hd ns)" and x: "x \<in> set ns"
  then obtain j where j: "j < length ns" "x = ns ! j" by (auto simp: in_set_conv_nth)
  then have "(nx ^^ 1) (ns ! (j mod length ns)) = ns ! ((j + 1) mod length ns)" by (intro ring_step r) auto
  moreover have "(j + 1) mod length ns < length ns" using j by (intro mod_less_divisor) auto
  ultimately show "nx x \<in> set ns" using j by (auto intro!: nth_mem)
qed

lemma ring_pred_unique:
  assumes "linked nx ns (hd ns)" "distinct ns" "x \<in> set ns" "y \<in> set ns" "nx x = nx y"
  shows "x = y"
proof -
  from assms(3,4) obtain j k where j: "j < length ns" "x = ns ! j" and k: "k < length ns" "y = ns ! k"
    by (auto simp: in_set_conv_nth)
  have ne: "ns \<noteq> []" using j by auto
  have "nx x = ns ! ((j + 1) mod length ns)" "nx y = ns ! ((k + 1) mod length ns)"
    using ring_step [OF assms(1) ne, of 1 j] ring_step [OF assms(1) ne, of 1 k] j k by simp_all
  with assms(5) have "(j + 1) mod length ns = (k + 1) mod length ns"
    using assms(2) ne by (auto simp: nth_eq_iff_index_eq)
  then have "j = k" using j k by (auto simp: mod_Suc split: if_splits)
  with j k show ?thesis by simp
qed


lemma linked_last:
  "linked nx xs e \<Longrightarrow> distinct xs \<Longrightarrow> xs \<noteq> [] \<Longrightarrow> linked (nx(last xs := y)) xs y"
proof (induction xs)
  case (Cons x xs)
  then show ?case by (cases xs) auto
qed simp

lemma linked_cong: "(\<And>x. x \<in> set xs \<Longrightarrow> nx x = nx' x) \<Longrightarrow> linked nx xs e = linked nx' xs e"
  by (induction xs) auto

section \<open>Blocks\<close>

text \<open>Blocks that lie between two bounds and do not overlap.\<close>

definition blocks :: "(nat \<Rightarrow> nat) \<Rightarrow> nat \<Rightarrow> nat \<Rightarrow> nat set \<Rightarrow> bool" where
  "blocks sz lo hi B \<longleftrightarrow>
     (\<forall>h \<in> B. lo < h \<and> 0 < sz h \<and> h + sz h \<le> hi) \<and> (\<forall>a \<in> B. \<forall>b \<in> B. a < b \<longrightarrow> a + sz a \<le> b)"

lemma blocks_subset: "blocks sz lo hi B \<Longrightarrow> A \<subseteq> B \<Longrightarrow> blocks sz lo hi A"
  unfolding blocks_def by blast

lemma blocks_cong: "(\<And>h. h \<in> B \<Longrightarrow> sz h = sz' h) \<Longrightarrow> blocks sz lo hi B = blocks sz' lo hi B"
  unfolding blocks_def by simp

lemma blocks_merge:
  assumes "blocks sz lo hi B" "a \<in> B" "b \<in> B" "a + sz a = b"
  shows "blocks (sz(a := sz a + sz b)) lo hi (B - {b})"
proof -
  have 1: "lo < h \<and> 0 < sz h \<and> h + sz h \<le> hi" if "h \<in> B" for h using assms(1) that by (simp add: blocks_def)
  have 2: "x + sz x \<le> y" if "x \<in> B" "y \<in> B" "x < y" for x y using assms(1) that by (simp add: blocks_def)
  have ab: "a \<noteq> b" "a < b" using 1 [OF assms(2)] assms(4) by auto
  have after: "b + sz b \<le> y" if "y \<in> B" "a < y" "y \<noteq> b" for y
    using 2 [OF assms(2) that(1,2)] 2 [OF assms(3) that(1)] that(3) assms(4) by auto
  show ?thesis
    unfolding blocks_def
  proof (intro conjI ballI impI)
    fix h assume "h \<in> B - {b}"
    then show "lo < h" "0 < (sz(a := sz a + sz b)) h" "h + (sz(a := sz a + sz b)) h \<le> hi"
      using 1 [of h] 1 [OF assms(3)] assms(4) by auto
  next
    fix x y assume "x \<in> B - {b}" "y \<in> B - {b}" "x < y"
    then show "x + (sz(a := sz a + sz b)) x \<le> y" using 2 [of x y] after [of y] assms(4) by auto
  qed
qed

lemma blocks_split:
  assumes "blocks sz lo hi B" "p \<in> B" "n < sz p" "0 < n"
  shows "blocks (sz(p := sz p - n, p + (sz p - n) := n)) lo hi (insert (p + (sz p - n)) B)"
    and "p + (sz p - n) \<notin> B"
proof -
  let ?q = "p + (sz p - n)"
  have 1: "lo < h \<and> 0 < sz h \<and> h + sz h \<le> hi" if "h \<in> B" for h using assms(1) that by (simp add: blocks_def)
  have 2: "x + sz x \<le> y" if "x \<in> B" "y \<in> B" "x < y" for x y using assms(1) that by (simp add: blocks_def)
  have q: "p < ?q" "?q + n = p + sz p" using assms(3) by auto
  show nq: "?q \<notin> B" using 2 [OF assms(2), of ?q] q assms(4) by auto
  have before: "x + sz x \<le> p" if "x \<in> B" "x < p" for x using 2 [OF that(1) assms(2) that(2)] .
  have after: "p + sz p \<le> y" if "y \<in> B" "p < y" for y using 2 [OF assms(2) that] .
  let ?s = "sz(p := sz p - n, ?q := n)"
  have s: "?s p = sz p - n" "?s ?q = n" "\<And>h. h \<in> B \<Longrightarrow> h \<noteq> p \<Longrightarrow> ?s h = sz h" using q(1) nq by auto
  show "blocks ?s lo hi (insert ?q B)"
    unfolding blocks_def
  proof (intro conjI ballI impI)
    fix h assume "h \<in> insert ?q B"
    then consider "h = ?q" | "h = p" | "h \<in> B" "h \<noteq> p" by blast
    then have "lo < h \<and> 0 < ?s h \<and> h + ?s h \<le> hi"
    proof cases
      case 1 then show ?thesis using \<open>\<And>h. h \<in> B \<Longrightarrow> lo < h \<and> 0 < sz h \<and> h + sz h \<le> hi\<close> [OF assms(2)] q s(2) assms(4) by auto
    next
      case 2 then show ?thesis using \<open>\<And>h. h \<in> B \<Longrightarrow> lo < h \<and> 0 < sz h \<and> h + sz h \<le> hi\<close> [OF assms(2)] assms(3) s(1) by auto
    next
      case 3 then show ?thesis using \<open>\<And>h. h \<in> B \<Longrightarrow> lo < h \<and> 0 < sz h \<and> h + sz h \<le> hi\<close> [OF 3(1)] s(3) by auto
    qed
    then show "lo < h" "0 < ?s h" "h + ?s h \<le> hi" by auto
  next
    fix x y assume xy: "x \<in> insert ?q B" "y \<in> insert ?q B" "x < y"
    consider "x = ?q" | "x = p" | "x \<in> B" "x \<noteq> p" using xy(1) by blast
    then show "x + ?s x \<le> y"
    proof cases
      case 1
      then have "y \<in> B" "p < y" using xy(2,3) q(1) by auto
      with after [of y] 1 q(2) s(2) show ?thesis by simp
    next
      case 2
      then show ?thesis using xy(2,3) after [of y] s(1) q by auto
    next
      case 3
      then have "x + sz x \<le> y"
      proof (cases "y = ?q")
        case True
        then have "x < p" using xy(3) after [of x] 3 q by (cases "p < x") auto
        with before [of x] 3(1) True q(1) show ?thesis by simp
      qed (use xy 2 3 in auto)
      with s(3) 3 show ?thesis by simp
    qed
  qed
qed


text \<open>
  The invariant: the free list \<open>fs\<close> is circular, starts at the static header, is in the order of the
  addresses and has no two blocks that touch; free blocks and handed-out blocks do not overlap.
\<close>

definition kr_ok :: "kr_heap \<Rightarrow> nat list \<Rightarrow> nat set \<Rightarrow> bool" where
  "kr_ok st fs out \<longleftrightarrow>
     linked (hnext st) (base st # fs) (base st) \<and> hsize st (base st) = 0 \<and>
     (\<exists>f \<in> set (base st # fs). freep st = Some f) \<and> sorted_wrt (<) fs \<and>
     (\<forall>a \<in> set fs. \<forall>b \<in> set fs. a + hsize st a \<noteq> b) \<and> set fs \<inter> out = {} \<and>
     blocks (hsize st) (base st) (brk st) (set fs \<union> out) \<and> base st < brk st \<and> brk st < 2 ^ 32"

lemma kr_okI:
  assumes "linked (hnext st) (base st # fs) (base st)" "hsize st (base st) = 0" "freep st = Some f" "f \<in> set (base st # fs)"
    "sorted_wrt (<) fs" "\<And>a b. a \<in> set fs \<Longrightarrow> b \<in> set fs \<Longrightarrow> a + hsize st a \<noteq> b" "set fs \<inter> out = {}"
    "blocks (hsize st) (base st) (brk st) (set fs \<union> out)" "base st < brk st" "brk st < 2 ^ 32"
  shows "kr_ok st fs out"
  using assms by (simp add: kr_ok_def)

lemma kr_ok_above: "kr_ok st fs out \<Longrightarrow> h \<in> set fs \<union> out \<Longrightarrow> base st < h \<and> 0 < hsize st h \<and> h + hsize st h \<le> brk st"
  by (simp add: kr_ok_def blocks_def)

lemma kr_ok_distinct: "kr_ok st fs out \<Longrightarrow> sorted_wrt (<) (base st # fs) \<and> distinct (base st # fs)"
proof -
  assume ok: "kr_ok st fs out"
  then have "sorted_wrt (<) (base st # fs)" using kr_ok_above [OF ok] by (auto simp: kr_ok_def)
  then show ?thesis using strict_sorted_iff by blast
qed

section \<open>Where a freed block belongs\<close>

lemma stops_iff:
  assumes l: "linked (hnext st) (b # as @ cs) b" and s: "sorted_wrt (<) (b # as @ cs)"
    and bp: "b < bp" "\<forall>a \<in> set as. a < bp" "\<forall>c \<in> set cs. bp < c" and p: "p \<in> set (b # as @ cs)"
  shows "stops_at st bp p \<longleftrightarrow> p = last (b # as)"
proof -
  have bel: "x < bp" if "x \<in> set (b # as)" for x using that bp by auto
  have nxt: "hnext st p = hd (ys @ [b]) \<and> (\<forall>y \<in> set ys. p < y)" if "b # as @ cs = xs @ p # ys" for xs ys
    using l s unfolding that linked_append by (auto simp: sorted_wrt_append)
  show ?thesis
  proof (cases "p \<in> set (b # as)")
    case False
    then have pc: "p \<in> set cs" using p by auto
    then obtain us vs where "cs = us @ p # vs" by (meson split_list)
    then have n: "hnext st p = hd (vs @ [b])" "\<forall>y \<in> set vs. p < y" using nxt [of "b # as @ us" vs] by simp_all
    have "bp < p" using pc bp(3) by simp
    moreover have "\<not> (p \<ge> hnext st p \<and> bp < hnext st p)" using n bp(1) by (cases vs) auto
    moreover have "p \<noteq> last (b # as)" using False by (metis last_in_set list.discI)
    ultimately show ?thesis by (auto simp: stops_at_def)
  next
    case True
    then have pb: "p < bp" by (rule bel)
    have "b \<le> p" using True s by (auto intro: less_imp_le)
    from True obtain us vs where v: "b # as = us @ p # vs" by (meson split_list)
    then have n: "hnext st p = hd (vs @ cs @ [b])" "\<forall>y \<in> set vs. p < y"
      using nxt [of us "vs @ cs"] by (simp_all add: append_Cons [symmetric] del: append_Cons)
    show ?thesis
    proof (cases vs)
      case Nil
      then have "stops_at st bp p" using n(1) pb bp(3) \<open>b \<le> p\<close> by (cases cs) (auto simp: stops_at_def)
      with v Nil show ?thesis by simp
    next
      case (Cons y vs')
      then have y: "y \<in> set (b # as)" "hnext st p = y" "p < y" using v n by auto
      have "p \<noteq> last (b # as)"
      proof
        assume "p = last (b # as)"
        then have "p \<in> set vs" using v Cons by (metis last_appendR last_ConsR last_in_set list.discI)
        then show False using n(2) by auto
      qed
      then show ?thesis using y bel [OF y(1)] pb by (auto simp: stops_at_def)
    qed
  qed
qed

lemma free_find_spec:
  assumes "\<And>x. x \<in> N \<Longrightarrow> stops_at st bp x \<longleftrightarrow> x = p0" "\<And>x. x \<in> N \<Longrightarrow> hnext st x \<in> N"
    and "p \<in> N" "(hnext st ^^ d) p = p0" "d < fuel"
  shows "free_find fuel st bp p = Inr p0"
  using assms(3-)
proof (induction d arbitrary: p fuel)
  case 0
  then show ?case using assms(1) by (cases fuel) auto
next
  case (Suc d)
  then obtain f where f: "fuel = Suc f" by (cases fuel) auto
  show ?case
  proof (cases "stops_at st bp p")
    case True
    then show ?thesis using assms(1) [OF Suc.prems(1)] f by simp
  next
    case False
    moreover have "(hnext st ^^ d) (hnext st p) = p0" using Suc.prems(2) by (simp add: funpow_swap1)
    ultimately show ?thesis using Suc.IH [OF assms(2) [OF Suc.prems(1)]] Suc.prems(3) f by simp
  qed
qed

text \<open>The free list around a block that is not in it.\<close>

lemma split_around:
  fixes fs :: "nat list"
  assumes "sorted_wrt (<) fs" "bp \<notin> set fs"
  obtains as cs where "fs = as @ cs" "\<forall>a \<in> set as. a < bp" "\<forall>c \<in> set cs. bp < c"
proof -
  let ?as = "takeWhile (\<lambda>a. a < bp) fs" and ?cs = "dropWhile (\<lambda>a. a < bp) fs"
  have fs: "fs = ?as @ ?cs" by simp
  have s: "sorted_wrt (<) ?cs" using assms(1) fs by (metis sorted_wrt_append)
  have "\<forall>c \<in> set ?cs. bp < c"
  proof (cases ?cs)
    case (Cons c rest)
    then have "\<not> c < bp" by (metis hd_dropWhile list.discI list.sel(1))
    moreover have "c \<noteq> bp" using Cons assms(2) by (metis list.set_intros(1) set_dropWhileD)
    ultimately have "bp < c" by simp
    with s Cons show ?thesis by auto
  next
    case Nil
    then show ?thesis by (simp only: list.set ball_empty)
  qed
  with fs that show ?thesis by (metis set_takeWhileD)
qed


lemma kr_ok_length: "kr_ok st fs out \<Longrightarrow> length (base st # fs) \<le> brk st"
proof -
  assume ok: "kr_ok st fs out"
  have "set (base st # fs) \<subseteq> {..<brk st}" using kr_ok_above [OF ok] ok by (fastforce simp: kr_ok_def)
  then have "card (set (base st # fs)) \<le> card {..<brk st}" by (intro card_mono) auto
  then show ?thesis using kr_ok_distinct [OF ok] distinct_card by fastforce
qed

lemma blocks_end: "blocks sz lo hi B \<Longrightarrow> a \<in> B \<Longrightarrow> b \<in> B \<Longrightarrow> a < b \<Longrightarrow> a + sz a \<le> b"
  by (simp add: blocks_def)

text \<open>
  A freed block \<open>bp\<close> between the lower blocks \<open>as\<close> and the upper blocks \<open>cs\<close>, joined with the first
  upper block if they touch: it has \<open>n\<close> units then, and \<open>ds\<close> are the upper blocks that remain.
\<close>

lemma join_upper_spec:
  assumes ok: "kr_ok st (as @ cs) out" and bp: "bp \<in> out"
    and place: "\<forall>a \<in> set as. a < bp" "\<forall>c \<in> set cs. bp < c"
  shows "\<exists>ds n. join_upper st bp (last (base st # as)) =
      st\<lparr>hsize := (hsize st)(bp := n), hnext := (hnext st)(bp := hd (ds @ [base st]))\<rparr> \<and>
    linked (hnext st) ds (base st) \<and> set ds \<subseteq> set cs \<and> sorted_wrt (<) ds \<and>
    blocks ((hsize st)(bp := n)) (base st) (brk st) (set as \<union> set ds \<union> out) \<and>
    (\<forall>b \<in> set as \<union> set ds. bp + n \<noteq> b) \<and> hsize st bp \<le> n"
proof -
  let ?nx = "hnext st" and ?sz = "hsize st" and ?p = "last (base st # as)"
  have l: "linked ?nx (base st # as) (hd (cs @ [base st]))" "linked ?nx cs (base st)"
    using ok linked_append [of ?nx "base st # as" cs "base st"] by (simp_all add: kr_ok_def)
  have b: "blocks ?sz (base st) (brk st) (set as \<union> set cs \<union> out)" using ok by (simp add: kr_ok_def Un_assoc)
  have adj: "\<forall>x \<in> set as \<union> set cs. \<forall>y \<in> set as \<union> set cs. x + ?sz x \<noteq> y" using ok by (simp add: kr_ok_def)
  have srt: "sorted_wrt (<) cs" using ok by (simp add: kr_ok_def sorted_wrt_append)
  have dis: "(set as \<union> set cs) \<inter> out = {}" using ok by (auto simp: kr_ok_def)
  have low: "bp + x \<noteq> a" if "a \<in> set as" for a x using place(1) that by auto
  have q: "?nx ?p = hd (cs @ [base st])"
    using l(1) by (metis append_butlast_last_id linked.simps(2) linked_append list.distinct(1) append_Nil list.sel(1))
  have base: "base st < bp" using kr_ok_above [OF ok, of bp] bp by simp
  show ?thesis
  proof (cases "bp + ?sz bp = hd (cs @ [base st])")
    case False
    then have "bp + ?sz bp \<noteq> c" if "c \<in> set cs" for c
    proof (cases cs)
      case (Cons c' cs')
      have "bp + ?sz bp \<le> c'" using blocks_end [OF b, of bp c'] bp place(2) Cons by simp
      with False Cons srt that show ?thesis by auto
    qed (use that in simp)
    then show ?thesis
      using False q l(2) srt b low by (intro exI [of _ cs] exI [of _ "?sz bp"]) (auto simp: join_upper_def Let_def)
  next
    case True
    then obtain c ds where cs: "cs = c # ds" using base by (cases cs) auto
    have c: "bp + ?sz bp = c" using True cs by simp
    have ds: "\<forall>d \<in> set ds. c < d" "sorted_wrt (<) ds" using srt cs by auto
    let ?n = "?sz bp + ?sz c"
    have m: "blocks (?sz(bp := ?n)) (base st) (brk st) (set as \<union> set cs \<union> out - {c})"
      by (rule blocks_merge [OF b _ _ c]) (use bp cs in auto)
    have "c \<notin> set as" "c \<notin> set ds" "c \<notin> out" using place cs ds dis by auto
    then have "set as \<union> set cs \<union> out - {c} = set as \<union> set ds \<union> out" using cs by auto
    with m have m': "blocks (?sz(bp := ?n)) (base st) (brk st) (set as \<union> set ds \<union> out)" by simp
    have "c + ?sz c \<le> brk st" "brk st < 2 ^ 32" using kr_ok_above [OF ok, of c] ok cs by (auto simp: kr_ok_def)
    then have "?n mod 2 ^ 32 = ?n" using c by simp
    then have "join_upper st bp ?p = st\<lparr>hsize := ?sz(bp := ?n), hnext := ?nx(bp := hd (ds @ [base st]))\<rparr>"
      using q c l(2) cs by (simp add: join_upper_def Let_def)
    moreover have "\<forall>b \<in> set as \<union> set ds. bp + ?n \<noteq> b"
      using adj low c cs by (auto simp: add.assoc [symmetric])
    ultimately show ?thesis
      using l(2) ds(2) m' cs by (intro exI [of _ ds] exI [of _ ?n]) auto
  qed
qed


lemma sorted_le_last: "sorted_wrt (<) xs \<Longrightarrow> a \<in> set xs \<Longrightarrow> (a :: nat) \<le> last xs"
  by (induction xs) (auto intro: less_imp_le)

lemma join_spec:
  assumes ok: "kr_ok st (as @ cs) out" and bp: "bp \<in> out"
    and place: "\<forall>a \<in> set as. a < bp" "\<forall>c \<in> set cs. bp < c"
  defines "p \<equiv> last (base st # as)"
  defines "st' \<equiv> (join_lower (join_upper st bp p) bp p)\<lparr>freep := Some p\<rparr>"
  shows "\<exists>fs'. kr_ok st' fs' (out - {bp}) \<and> base st' = base st \<and> brk st' = brk st \<and>
    (\<forall>h \<in> out - {bp}. hsize st' h = hsize st h) \<and> (\<exists>a \<in> set fs'. hsize st bp \<le> hsize st' a)"
proof -
  let ?nx = "hnext st" and ?sz = "hsize st"
  from join_upper_spec [OF ok bp place] obtain ds n where j:
    "join_upper st bp p = st\<lparr>hsize := ?sz(bp := n), hnext := ?nx(bp := hd (ds @ [base st]))\<rparr>"
    "linked ?nx ds (base st)" "set ds \<subseteq> set cs" "sorted_wrt (<) ds"
    "blocks (?sz(bp := n)) (base st) (brk st) (set as \<union> set ds \<union> out)"
    "\<forall>b \<in> set as \<union> set ds. bp + n \<noteq> b" "?sz bp \<le> n"
    unfolding p_def by blast
  have l: "linked ?nx (base st # as) (hd (cs @ [base st]))"
    using ok linked_append [of ?nx "base st # as" cs "base st"] by (simp add: kr_ok_def)
  have dis: "bp \<notin> set as" "bp \<notin> set ds" "set as \<inter> out = {}" "set ds \<inter> out = {}" "set as \<inter> set ds = {}"
  proof -
    have o: "set (as @ cs) \<inter> out = {}" using ok by (simp only: kr_ok_def)
    show "bp \<notin> set as" "bp \<notin> set ds" using place j(3) by auto
    show "set as \<inter> out = {}" "set ds \<inter> out = {}" using o j(3) by auto
    show "set as \<inter> set ds = {}"
    proof (rule ccontr)
      assume "set as \<inter> set ds \<noteq> {}"
      then obtain x where "x \<in> set as" "x \<in> set cs" using j(3) by blast
      with place have "x < bp" "bp < x" by auto
      then show False by simp
    qed
  qed
  have base: "base st < bp" "\<forall>a \<in> set as. base st < a" "base st \<notin> set ds"
  proof -
    have a: "base st < h" if "h \<in> set (as @ cs) \<union> out" for h using kr_ok_above [OF ok that] by simp
    show "base st < bp" using a bp by blast
    show "\<forall>a \<in> set as. base st < a" using a by simp
    show "base st \<notin> set ds"
    proof
      assume "base st \<in> set ds"
      then have "base st \<in> set (as @ cs) \<union> out" using j(3) by auto
      then show False using a by blast
    qed
  qed
  have srt: "sorted_wrt (<) as" using ok by (simp add: kr_ok_def sorted_wrt_append)
  have dist: "distinct (base st # as)" using base(2) srt strict_sorted_iff by auto
  have adj: "\<forall>x \<in> set as \<union> set ds. \<forall>y \<in> set as \<union> set ds. x + ?sz x \<noteq> y"
    using ok j(3) by (auto simp: kr_ok_def)
  have p: "p \<in> set (base st # as)" "p < bp" "p \<notin> set ds" "p \<notin> out" "p \<noteq> bp"
  proof -
    show p: "p \<in> set (base st # as)" unfolding p_def by simp
    then show "p < bp" "p \<notin> set ds" "p \<notin> out" "p \<noteq> bp" using base place dis kr_ok_above [OF ok, of p] by auto
  qed
  have upper: "\<forall>d \<in> set ds. bp < d" using j(3) place(2) by blast
  have fresh: "linked (?nx(bp := x, p := y)) ds (base st)" for x y using j(2) dis(2) p(3) by simp
  have b0: "hsize st (base st) = 0" "base st < brk st" "brk st < 2 ^ 32" using ok by (simp_all add: kr_ok_def)
  show ?thesis
  proof (cases "p + ?sz p = bp")
    case False
    have st': "st' = st\<lparr>hsize := ?sz(bp := n), hnext := ?nx(bp := hd (ds @ [base st]), p := bp), freep := Some p\<rparr>"
      using False p(5) by (simp add: st'_def j(1) join_lower_def)
    have lk: "linked (?nx(bp := hd (ds @ [base st]), p := bp)) (base st # as @ bp # ds) (base st)"
    proof -
      have "linked (?nx(bp := hd (ds @ [base st]))) (base st # as) (hd (cs @ [base st]))"
        using l dis(1) base(1) by simp
      from linked_last [OF this dist, folded p_def]
      have "linked (?nx(bp := hd (ds @ [base st]), p := bp)) (base st # as) (hd ((bp # ds) @ [base st]))" by simp
      moreover have "linked (?nx(bp := hd (ds @ [base st]), p := bp)) (bp # ds) (base st)" using fresh p(5) by simp
      ultimately have "linked (?nx(bp := hd (ds @ [base st]), p := bp)) ((base st # as) @ bp # ds) (base st)"
        unfolding linked_append by blast
      then show ?thesis by (simp only: append_Cons)
    qed
    have na: "a + ?sz a \<noteq> bp" if "a \<in> set as" for a
    proof
      assume e: "a + ?sz a = bp"
      have "a \<noteq> p" using e False by auto
      moreover have "p = last as" "p \<in> set as" using that unfolding p_def by auto
      ultimately have "a < p" "p \<in> set as" using sorted_le_last [OF srt that] by auto
      then have "a + ?sz a \<le> p" using ok that by (auto simp: kr_ok_def intro: blocks_end)
      with e p(2) show False by simp
    qed
    have "kr_ok st' (as @ bp # ds) (out - {bp})"
    proof (rule kr_okI)
      show "linked (hnext st') (base st' # as @ bp # ds) (base st')" using lk by (simp add: st')
      show "hsize st' (base st') = 0" using b0(1) base(1) by (simp add: st')
      show "freep st' = Some p" by (simp add: st')
      show "p \<in> set (base st' # as @ bp # ds)" using p(1) by (auto simp: st')
      show "sorted_wrt (<) (as @ bp # ds)"
        using srt j(4) place(1) upper by (auto simp: sorted_wrt_append intro: less_trans)
      show "a + hsize st' a \<noteq> b" if "a \<in> set (as @ bp # ds)" "b \<in> set (as @ bp # ds)" for a b
      proof (cases "a = bp")
        case True
        have "0 < n" using j(7) kr_ok_above [OF ok, of bp] bp by simp
        with True j(6) that(2) show ?thesis by (auto simp: st')
      next
        case False
        then have a: "a \<in> set as \<union> set ds" "hsize st' a = ?sz a" using that(1) by (auto simp: st')
        show ?thesis
        proof (cases "b = bp")
          case True
          with a na upper show ?thesis by auto
        qed (use a adj that(2) in auto)
      qed
      show "set (as @ bp # ds) \<inter> (out - {bp}) = {}" using dis(3,4) by auto
      show "blocks (hsize st') (base st') (brk st') (set (as @ bp # ds) \<union> (out - {bp}))"
      proof -
        have "set (as @ bp # ds) \<union> (out - {bp}) = set as \<union> set ds \<union> out" using bp by auto
        with j(5) show ?thesis by (simp add: st')
      qed
    qed (use b0 in \<open>simp_all add: st'\<close>)
    then show ?thesis using j(7) by (intro exI [of _ "as @ bp # ds"]) (auto simp: st')
  next
    case True
    then obtain as' where as: "as = as' @ [p]"
      using base(1) b0(1) p_def by (cases as rule: rev_cases) auto
    let ?n = "?sz p + n"
    have m: "blocks ((?sz(bp := n))(p := ?n)) (base st) (brk st) (set as \<union> set ds \<union> out - {bp})"
      using blocks_merge [OF j(5), of p bp] True bp as p(5) by simp
    have "bp + (?sz(bp := n)) bp \<le> brk st" using j(5) bp unfolding blocks_def by blast
    then have "p + ?sz p + n \<le> brk st" using True by simp
    then have "?n mod 2 ^ 32 = ?n" using b0(3) by simp
    then have st': "st' = st\<lparr>hsize := ?sz(bp := n, p := ?n),
        hnext := ?nx(bp := hd (ds @ [base st]), p := hd (ds @ [base st])), freep := Some p\<rparr>"
      using True p(5) by (simp add: st'_def j(1) join_lower_def)
    have lk: "linked (?nx(bp := hd (ds @ [base st]), p := hd (ds @ [base st]))) (base st # as @ ds) (base st)"
    proof -
      have "linked (?nx(bp := hd (ds @ [base st]))) (base st # as) (hd (cs @ [base st]))"
        using l dis(1) base(1) by simp
      from linked_last [OF this dist, folded p_def] fresh
      have "linked (?nx(bp := hd (ds @ [base st]), p := hd (ds @ [base st]))) ((base st # as) @ ds) (base st)"
        unfolding linked_append by (simp only: list.distinct not_False_eq_True simp_thms)
      then show ?thesis by (simp only: append_Cons)
    qed
    have na: "a + ?sz a \<noteq> p" "p + ?sz p + n \<noteq> a" if "a \<in> set as \<union> set ds" for a
      using adj j(6) that as True by auto
    have "kr_ok st' (as @ ds) (out - {bp})"
    proof (rule kr_okI)
      show "linked (hnext st') (base st' # as @ ds) (base st')" using lk by (simp add: st')
      show "hsize st' (base st') = 0" using b0(1) base as by (simp add: st')
      show "freep st' = Some p" by (simp add: st')
      show "p \<in> set (base st' # as @ ds)" using as by simp
      show "sorted_wrt (<) (as @ ds)"
        using srt j(4) place(1) upper by (auto simp: sorted_wrt_append intro: less_trans)
      show "a + hsize st' a \<noteq> b" if "a \<in> set (as @ ds)" "b \<in> set (as @ ds)" for a b
      proof (cases "a = p")
        case True
        with na(2) [of b] that(2) show ?thesis by (auto simp: st')
      next
        case False
        then have "hsize st' a = ?sz a" using that(1) dis(1,2) by (auto simp: st')
        with adj that show ?thesis by auto
      qed
      show "set (as @ ds) \<inter> (out - {bp}) = {}" using dis(3,4) by auto
      show "blocks (hsize st') (base st') (brk st') (set (as @ ds) \<union> (out - {bp}))"
      proof -
        have "set (as @ ds) \<union> (out - {bp}) = set as \<union> set ds \<union> out - {bp}" using dis(1,2) by auto
        with m show ?thesis by (simp add: st')
      qed
    qed (use b0 in \<open>simp_all add: st'\<close>)
    then show ?thesis using j(7) as dis p(4) by (intro exI [of _ "as @ ds"]) (auto simp: st')
  qed
qed


text \<open>Freeing a block that was handed out.\<close>

lemma free_spec:
  assumes ok: "kr_ok st fs out" and bp: "bp \<in> out" and fuel: "brk st \<le> fuel"
  shows "\<exists>st' fs'. my_free fuel (bp + 1) st = Inr st' \<and> kr_ok st' fs' (out - {bp}) \<and> base st' = base st \<and>
    brk st' = brk st \<and> (\<forall>h \<in> out - {bp}. hsize st' h = hsize st h) \<and>
    (\<exists>a \<in> set fs'. hsize st bp \<le> hsize st' a)"
proof -
  have srt: "sorted_wrt (<) (base st # fs)" using kr_ok_distinct [OF ok] by simp
  have "bp \<notin> set fs" using ok bp by (auto simp: kr_ok_def)
  with srt obtain as cs where fs: "fs = as @ cs" and place: "\<forall>a \<in> set as. a < bp" "\<forall>c \<in> set cs. bp < c"
    using split_around [of fs bp] by auto
  let ?p = "last (base st # as)" and ?N = "set (base st # fs)"
  have l: "linked (hnext st) (base st # fs) (base st)" using ok by (simp add: kr_ok_def)
  from ok obtain f where f: "freep st = Some f" "f \<in> ?N" by (auto simp: kr_ok_def)
  have pN: "?p \<in> ?N" using fs by auto
  from ring_reach [of "hnext st" "base st # fs" f ?p] l f(2) pN obtain d
    where d: "d < length (base st # fs)" "(hnext st ^^ d) f = ?p" by auto
  have "free_find fuel st bp f = Inr ?p"
  proof (rule free_find_spec [where N = ?N and d = d])
    show "stops_at st bp x \<longleftrightarrow> x = ?p" if "x \<in> ?N" for x
      using stops_iff [of st "base st" as cs bp x] l srt place that kr_ok_above [OF ok, of bp] bp fs by simp
    show "hnext st x \<in> ?N" if "x \<in> ?N" for x using ring_closed [of "hnext st" "base st # fs" x] l that by simp
    show "f \<in> ?N" "(hnext st ^^ d) f = ?p" by fact+
    show "d < fuel" using d(1) kr_ok_length [OF ok] fuel by simp
  qed
  then have r: "my_free fuel (bp + 1) st =
      Inr ((join_lower (join_upper st bp ?p) bp ?p)\<lparr>freep := Some ?p\<rparr>)"
    using f(1) by (simp add: my_free_def)
  from join_spec [OF ok [unfolded fs] bp place] r show ?thesis by blast
qed


section \<open>Taking a block\<close>

lemma take_spec:
  assumes ok: "kr_ok st fs out" and prevp: "prevp \<in> set (base st # fs)" and n: "0 < n" "n \<le> hsize st (hnext st prevp)"
  shows "\<exists>h st' fs'. take_block n prevp (hnext st prevp) st = (h + 1, st') \<and> kr_ok st' fs' (insert h out) \<and> h \<notin> out \<and>
    hsize st' h = n \<and> base st' = base st \<and> brk st' = brk st \<and> (\<forall>x \<in> out. hsize st' x = hsize st x)"
proof -
  let ?p = "hnext st prevp" and ?N = "set (base st # fs)"
  note kr = ok [unfolded kr_ok_def]
  have l: "linked (hnext st) (base st # fs) (base st)" using kr by blast
  have dist: "distinct (base st # fs)" and srt: "sorted_wrt (<) (base st # fs)" using kr_ok_distinct [OF ok] by auto
  have "?p \<in> ?N" using ring_closed [of "hnext st" "base st # fs" prevp] l prevp by simp
  moreover have "?p \<noteq> base st" using n kr by auto
  ultimately have pf: "?p \<in> set fs" by simp
  have po: "?p \<notin> out" using pf kr by auto
  have neb: "base st \<notin> set fs" "base st \<notin> out" using kr_ok_above [OF ok, of "base st"] by auto
  have b: "blocks (hsize st) (base st) (brk st) (set fs \<union> out)" using kr by blast
  show ?thesis
  proof (cases "hsize st ?p = n")
    case True
    from pf obtain as cs where fs: "fs = as @ ?p # cs" by (meson split_list)
    let ?st = "st\<lparr>hnext := (hnext st)(prevp := hnext st ?p), freep := Some prevp\<rparr>"
    have l2: "linked (hnext st) (base st # as) ?p" "hnext st ?p = hd (cs @ [base st])" "linked (hnext st) cs (base st)"
      using l linked_append [of "hnext st" "base st # as" "?p # cs" "base st"] fs by simp_all
    have "hnext st (last (base st # as)) = ?p"
    proof -
      have "(base st # as) ! length as = last (base st # as)"
        by (metis last_conv_nth list.distinct(1) length_Cons diff_Suc_1)
      moreover have "hnext st ((base st # as) ! length as) = ((base st # as) @ [?p]) ! Suc (length as)"
        by (rule linked_nth [OF l2(1)]) simp
      ultimately show ?thesis by (simp add: nth_append)
    qed
    moreover have la: "last (base st # as) \<in> ?N" using fs by auto
    ultimately have pl: "prevp = last (base st # as)"
      using ring_pred_unique [of "hnext st" "base st # fs" prevp "last (base st # as)"] l dist prevp by simp
    have "prevp \<in> set (base st # as)" unfolding pl by (rule last_in_set) simp
    then have "distinct (base st # as)" "prevp \<notin> set cs" using dist fs by auto
    then have lk: "linked (hnext ?st) ((base st # as) @ cs) (base st)"
      using linked_last [OF l2(1), of "hd (cs @ [base st])"] l2 pl unfolding linked_append by simp
    have "kr_ok ?st (as @ cs) (insert ?p out)"
    proof (rule kr_okI)
      show "linked (hnext ?st) (base ?st # as @ cs) (base ?st)" using lk by simp
      show "prevp \<in> set (base ?st # as @ cs)" using pl by auto
      show "sorted_wrt (<) (as @ cs)" using srt fs by (auto simp: sorted_wrt_append)
      show "a + hsize ?st a \<noteq> c" if "a \<in> set (as @ cs)" "c \<in> set (as @ cs)" for a c using kr that fs by simp
      show "set (as @ cs) \<inter> insert ?p out = {}" using kr dist fs by auto
      show "blocks (hsize ?st) (base ?st) (brk ?st) (set (as @ cs) \<union> insert ?p out)"
        using blocks_subset [OF b, of "set (as @ cs) \<union> insert ?p out"] fs by auto
    qed (use kr in simp_all)
    then show ?thesis using True po by (intro exI [of _ ?p] exI [of _ ?st] exI [of _ "as @ cs"]) (simp add: take_block_def)
  next
    case False
    with n have lt: "n < hsize st ?p" by simp
    let ?q = "?p + (hsize st ?p - n)"
    let ?st = "st\<lparr>hsize := (hsize st)(?p := hsize st ?p - n, ?q := n), freep := Some prevp\<rparr>"
    note sp = blocks_split [OF b _ lt n(1)]
    have q: "?q \<notin> set fs" "?q \<notin> out" "?q \<noteq> base st" "?q \<noteq> ?p"
      using sp(2) pf lt kr_ok_above [OF ok, of ?p] by auto
    have "kr_ok ?st fs (insert ?q out)"
    proof (rule kr_okI)
      show "linked (hnext ?st) (base ?st # fs) (base ?st)" using l by simp
      show "hsize ?st (base ?st) = 0" using kr q(3) pf neb by auto
      show "prevp \<in> set (base ?st # fs)" using prevp by simp
      show "a + hsize ?st a \<noteq> c" if "a \<in> set fs" "c \<in> set fs" for a c
        using kr that q(1) by (cases "a = ?p") auto
      show "set fs \<inter> insert ?q out = {}" using kr q(1) by auto
      show "blocks (hsize ?st) (base ?st) (brk ?st) (set fs \<union> insert ?q out)"
        using sp(1) pf by simp
    qed (use kr in simp_all)
    moreover have "\<forall>x \<in> out. hsize ?st x = hsize st x" using q(2) po by auto
    ultimately show ?thesis
      using False q(2,4) by (intro exI [of _ ?q] exI [of _ ?st] exI [of _ fs]) (simp add: take_block_def Let_def)
  qed
qed

section \<open>Searching\<close>

lemma visited_all:
  assumes "(nx ^^ d) (nx f) = f" shows "\<exists>j \<le> d. (nx ^^ i) (nx f) = (nx ^^ j) (nx f)"
proof (induction i)
  case (Suc i)
  then obtain j where j: "j \<le> d" "(nx ^^ i) (nx f) = (nx ^^ j) (nx f)" by blast
  show ?case
  proof (cases "j = d")
    case True
    with j assms have "(nx ^^ Suc i) (nx f) = (nx ^^ 0) (nx f)" by simp
    then show ?thesis by blast
  next
    case False
    with j have "(nx ^^ Suc i) (nx f) = (nx ^^ Suc j) (nx f)" "Suc j \<le> d" by simp_all
    then show ?thesis by blast
  qed
qed blast

text \<open>From \<open>p\<close> to the node \<open>f\<close> where the search started.\<close>

lemma loop_run:
  assumes "freep st = Some f" "\<And>x. x \<in> N \<Longrightarrow> hnext st x \<in> N"
    and "prevp \<in> N" "p = hnext st prevp" "(hnext st ^^ d) p = f" "d < fuel"
  shows "(\<exists>x \<in> N. n \<le> hsize st (hnext st x) \<and>
      malloc_loop fuel ffuel outcome n prevp p st =
        (let (r, st') = take_block n x (hnext st x) st in Inr (Some r, st'))) \<or>
    (\<exists>d' fuel'. (hnext st ^^ d') p = f \<and> (\<forall>i \<le> d'. hsize st ((hnext st ^^ i) p) < n) \<and> fuel \<le> fuel' + d + 1 \<and>
      malloc_loop fuel ffuel outcome n prevp p st =
        bindr (my_morecore ffuel outcome n st) (\<lambda>(q, st).
          case q of None \<Rightarrow> Inr (None, st) | Some q \<Rightarrow> malloc_loop fuel' ffuel outcome n q (hnext st q) st))"
  using assms(3-)
proof (induction d arbitrary: prevp p fuel)
  case 0
  then obtain k where k: "fuel = Suc k" by (cases fuel) auto
  show ?case
  proof (cases "n \<le> hsize st p")
    case True
    with 0 k show ?thesis by (intro disjI1 bexI [of _ prevp]) auto
  next
    case False
    with 0 k assms(1) show ?thesis by (intro disjI2 exI [of _ "0 :: nat"] exI [of _ k]) auto
  qed
next
  case (Suc d)
  then obtain k where k: "fuel = Suc k" by (cases fuel) auto
  consider "n \<le> hsize st p" | "hsize st p < n" "p = f" | "hsize st p < n" "p \<noteq> f" by fastforce
  then show ?case
  proof cases
    case 1
    with Suc.prems k show ?thesis by (intro disjI1 bexI [of _ prevp]) auto
  next
    case 2
    with Suc.prems k assms(1) show ?thesis by (intro disjI2 exI [of _ "0 :: nat"] exI [of _ k]) auto
  next
    case 3
    have pN: "p \<in> N" using Suc.prems(1,2) assms(2) by simp
    have step: "malloc_loop fuel ffuel outcome n prevp p st = malloc_loop k ffuel outcome n p (hnext st p) st"
      using 3 k assms(1) by simp
    have "(hnext st ^^ d) (hnext st p) = f" using Suc.prems(3) by (simp add: funpow_swap1)
    from Suc.IH [OF pN refl this, of k] Suc.prems(4) k
    consider (take) "\<exists>x \<in> N. n \<le> hsize st (hnext st x) \<and> malloc_loop k ffuel outcome n p (hnext st p) st =
          (let (r, st') = take_block n x (hnext st x) st in Inr (Some r, st'))"
      | (more) d' fuel' where "(hnext st ^^ d') (hnext st p) = f" "\<forall>i \<le> d'. hsize st ((hnext st ^^ i) (hnext st p)) < n"
        "k \<le> fuel' + d + 1"
        "malloc_loop k ffuel outcome n p (hnext st p) st = bindr (my_morecore ffuel outcome n st) (\<lambda>(q, st).
          case q of None \<Rightarrow> Inr (None, st) | Some q \<Rightarrow> malloc_loop fuel' ffuel outcome n q (hnext st q) st)"
      by auto
    then show ?thesis
    proof cases
      case take
      with step show ?thesis by simp
    next
      case more
      have "hsize st ((hnext st ^^ i) p) < n" if "i \<le> Suc d'" for i
        using that more(2) 3(1) by (cases i) (auto simp: funpow_swap1)
      moreover have "(hnext st ^^ Suc d') p = f" using more(1) by (simp add: funpow_swap1)
      ultimately show ?thesis
        using more(3,4) step k by (intro disjI2 exI [of _ "Suc d'"] exI [of _ fuel']) auto
    qed
  qed
qed


lemma search_spec:
  assumes ok: "kr_ok st fs out" and f: "freep st = Some f" and fuel: "brk st < fuel"
  shows "(\<exists>x \<in> set (base st # fs). n \<le> hsize st (hnext st x) \<and>
      malloc_loop fuel ffuel outcome n f (hnext st f) st =
        (let (r, st') = take_block n x (hnext st x) st in Inr (Some r, st'))) \<or>
    (\<forall>a \<in> set fs. hsize st a < n) \<and> (\<exists>fuel'. fuel \<le> fuel' + brk st \<and>
      malloc_loop fuel ffuel outcome n f (hnext st f) st =
        bindr (my_morecore ffuel outcome n st) (\<lambda>(q, st).
          case q of None \<Rightarrow> Inr (None, st) | Some q \<Rightarrow> malloc_loop fuel' ffuel outcome n q (hnext st q) st))"
proof -
  let ?N = "set (base st # fs)"
  have l: "linked (hnext st) (base st # fs) (hd (base st # fs))" using ok by (simp add: kr_ok_def)
  have fN: "f \<in> ?N" using ok f by (auto simp: kr_ok_def)
  have cl: "hnext st x \<in> ?N" if "x \<in> ?N" for x by (rule ring_closed [OF l that])
  from ring_reach [OF l cl [OF fN] fN] obtain d where d: "d < length (base st # fs)" "(hnext st ^^ d) (hnext st f) = f"
    by blast
  have "d + 1 \<le> brk st" "d < fuel" using d(1) kr_ok_length [OF ok] fuel by simp_all
  have cl': "\<And>x. x \<in> ?N \<Longrightarrow> hnext st x \<in> ?N" by (rule cl)
  from loop_run [where N = ?N, OF f cl' fN refl d(2) \<open>d < fuel\<close>, of n ffuel outcome]
  consider (take) "\<exists>x \<in> ?N. n \<le> hsize st (hnext st x) \<and> malloc_loop fuel ffuel outcome n f (hnext st f) st =
        (let (r, st') = take_block n x (hnext st x) st in Inr (Some r, st'))"
    | (more) d' fuel' where "(hnext st ^^ d') (hnext st f) = f" "\<forall>i \<le> d'. hsize st ((hnext st ^^ i) (hnext st f)) < n"
      "fuel \<le> fuel' + d + 1"
      "malloc_loop fuel ffuel outcome n f (hnext st f) st = bindr (my_morecore ffuel outcome n st) (\<lambda>(q, st).
        case q of None \<Rightarrow> Inr (None, st) | Some q \<Rightarrow> malloc_loop fuel' ffuel outcome n q (hnext st q) st)"
    by blast
  then show ?thesis
  proof cases
    case take
    then show ?thesis by blast
  next
    case more
    have "hsize st a < n" if a: "a \<in> set fs" for a
    proof -
      have "a \<in> ?N" using a by simp
      from ring_reach [OF l cl [OF fN] this] obtain i where "(hnext st ^^ i) (hnext st f) = a" by blast
      with visited_all [where nx = "hnext st" and f = f, OF more(1), of i] more(2) show ?thesis by auto
    qed
    moreover have "fuel \<le> fuel' + brk st" using more(3) \<open>d + 1 \<le> brk st\<close> by simp
    ultimately show ?thesis using more(4) by blast
  qed
qed

text \<open>More memory from the system.\<close>

lemma morecore_spec:
  assumes ok: "kr_ok st fs out" and n: "max n NALLOC < 2 ^ 27" and room: "brk st + gap + max n NALLOC < 2 ^ 32"
    and fuel: "2 ^ 32 \<le> fuel"
  shows "\<exists>f st' fs'. my_morecore fuel (Some gap) n st = Inr (Some f, st') \<and> freep st' = Some f \<and> kr_ok st' fs' out \<and>
    base st' = base st \<and> brk st' = brk st + gap + max n NALLOC \<and> (\<forall>h \<in> out. hsize st' h = hsize st h) \<and>
    (\<exists>a \<in> set fs'. n \<le> hsize st' a)"
proof -
  let ?nu = "max n NALLOC" and ?up = "brk st + gap"
  let ?st = "st\<lparr>brk := ?up + ?nu, hsize := (hsize st)(?up := ?nu)\<rparr>"
  note kr = ok [unfolded kr_ok_def]
  have nu: "(if n < NALLOC then NALLOC else n) = ?nu" "0 < ?nu" by (auto simp: NALLOC_def)
  have arg: "int_arg (?nu * 16) = int ?nu * 16"
  proof -
    have "sint (word_of_int (int (?nu * 16)) :: s32) = int (?nu * 16)" using n by (intro sint32_id) simp_all
    moreover have "(word_of_nat (?nu * 16) :: s32) = word_of_int (int (?nu * 16))" by (simp only: of_int_of_nat_eq)
    ultimately have "int_arg (?nu * 16) = int (?nu * 16)" by (simp only: int_arg_def)
    then show ?thesis by simp
  qed
  have old: "h < ?up" "h + hsize st h \<le> ?up" if "h \<in> set fs \<union> out" for h
    using kr_ok_above [OF ok that] by auto
  have up: "?up \<notin> set fs" "?up \<notin> out" using old(1) by blast+
  have ub: "?up \<noteq> base st" using kr by auto
  from kr obtain f where f: "freep st = Some f" "f \<in> set (base st # fs)" by blast
  have "kr_ok ?st fs (insert ?up out)"
  proof (rule kr_okI)
    show "linked (hnext ?st) (base ?st # fs) (base ?st)" using kr by simp
    show "hsize ?st (base ?st) = 0" using kr ub by simp
    from f show "freep ?st = Some f" "f \<in> set (base ?st # fs)" by simp_all
    show "a + hsize ?st a \<noteq> b" if "a \<in> set fs" "b \<in> set fs" for a b using kr up(1) that by auto
    show "set fs \<inter> insert ?up out = {}" using kr up by auto
    have b: "blocks (hsize st) (base st) (brk st) (set fs \<union> out)" using kr by blast
    show "blocks (hsize ?st) (base ?st) (brk ?st) (set fs \<union> insert ?up out)"
      unfolding blocks_def
    proof (intro conjI ballI impI)
      fix h assume h: "h \<in> set fs \<union> insert ?up out"
      then have "h = ?up \<or> h \<in> set fs \<union> out" by blast
      then show "base ?st < h" "0 < hsize ?st h" "h + hsize ?st h \<le> brk ?st"
        using kr nu(2) kr_ok_above [OF ok, of h] up by auto
    next
      fix a b assume ab: "a \<in> set fs \<union> insert ?up out" "b \<in> set fs \<union> insert ?up out" "a < b"
      have "a \<noteq> ?up" using ab old(1) [of b] by auto
      with ab(1) have a: "a \<in> set fs \<union> out" "hsize ?st a = hsize st a" by auto
      from ab(2) have "b = ?up \<or> b \<in> set fs \<union> out" by blast
      with a ab(3) old(2) [OF a(1)] blocks_end [OF \<open>blocks (hsize st) (base st) (brk st) (set fs \<union> out)\<close> a(1), of b]
      show "a + hsize ?st a \<le> b" by auto
    qed
  qed (use kr room in simp_all)
  from free_spec [OF this, of ?up fuel] fuel room obtain st' fs' where free:
    "my_free fuel (?up + 1) ?st = Inr st'" "kr_ok st' fs' (insert ?up out - {?up})" "base st' = base ?st"
    "brk st' = brk ?st" "\<forall>h \<in> insert ?up out - {?up}. hsize st' h = hsize ?st h" "\<exists>a \<in> set fs'. hsize ?st ?up \<le> hsize st' a"
    by auto
  have out: "insert ?up out - {?up} = out" using up(2) by simp
  from free(2) obtain f where f: "freep st' = Some f" by (auto simp: kr_ok_def)
  have "sbrk (Some gap) (int_arg (?nu * 16)) st = (Some ?up, st\<lparr>brk := ?up + ?nu\<rparr>)"
    unfolding arg by (simp add: sbrk_def nat_add_distrib)
  then have "my_morecore fuel (Some gap) n st = Inr (Some f, st')"
    using free(1) f unfolding my_morecore_def nu(1) Let_def by simp
  moreover have "\<exists>a \<in> set fs'. n \<le> hsize st' a" using free(6) by auto
  ultimately show ?thesis using free f up out by (intro exI [of _ f] exI [of _ st'] exI [of _ fs']) auto
qed


section \<open>Allocating\<close>

text \<open>The state between two calls: nothing allocated yet, or a list as the invariant has it.\<close>

definition kr_inv :: "kr_heap \<Rightarrow> nat set \<Rightarrow> bool" where
  "kr_inv st out \<longleftrightarrow>
     (freep st = None \<and> out = {} \<and> base st < brk st \<and> brk st < 2 ^ 32) \<or> (\<exists>fs. kr_ok st fs out)"

definition kr_start :: "kr_heap \<Rightarrow> kr_heap" where
  "kr_start st =
     (case freep st of
        None \<Rightarrow> st\<lparr>freep := Some (base st), hnext := (hnext st)(base st := base st), hsize := (hsize st)(base st := 0)\<rparr>
      | Some f \<Rightarrow> st)"

lemma kr_start_ok: "kr_inv st out \<Longrightarrow> \<exists>fs. kr_ok (kr_start st) fs out"
proof -
  assume "kr_inv st out"
  then consider "freep st = None" "out = {}" "base st < brk st" "brk st < 2 ^ 32" | fs where "kr_ok st fs out"
    by (auto simp: kr_inv_def)
  then show ?thesis
  proof cases
    case 1
    then have "kr_ok (kr_start st) [] out" by (simp add: kr_ok_def kr_start_def blocks_def)
    then show ?thesis by blast
  next
    case 2
    then have "kr_start st = st" by (auto simp: kr_ok_def kr_start_def)
    with 2 show ?thesis by auto
  qed
qed

lemma my_malloc_start:
  "my_malloc fuel outcome nbytes st =
     (let st = kr_start st; f = the (freep st)
      in malloc_loop fuel fuel outcome (units_for nbytes) f (hnext st f) st)"
  by (auto simp: my_malloc_def kr_start_def Let_def split: option.split)

text \<open>The new state of an allocation of \<open>n\<close> units, with the result \<open>r\<close>.\<close>

definition allocated :: "nat \<Rightarrow> kr_heap \<Rightarrow> nat set \<Rightarrow> nat option \<Rightarrow> kr_heap \<Rightarrow> bool" where
  "allocated n st out r st' \<longleftrightarrow>
     (\<forall>h \<in> out. hsize st' h = hsize st h) \<and> base st' = base st \<and>
     (case r of
        None \<Rightarrow> kr_inv st' out
      | Some q \<Rightarrow> 0 < q \<and> q - 1 \<notin> out \<and> hsize st' (q - 1) = n \<and> (\<exists>fs. kr_ok st' fs (insert (q - 1) out)))"

lemma allocated_take:
  assumes "kr_ok st fs out" "x \<in> set (base st # fs)" "0 < n" "n \<le> hsize st (hnext st x)"
  shows "\<exists>q st'. (let (r, st') = take_block n x (hnext st x) st in Inr (Some r, st')) = (Inr (Some q, st') :: (nat option \<times> kr_heap) res) \<and>
    allocated n st out (Some q) st' \<and> brk st' = brk st"
  using take_spec [OF assms] by (fastforce simp: allocated_def)

lemma malloc_spec:
  assumes inv: "kr_inv st out" and n: "max (units_for nbytes) NALLOC < 2 ^ 27" and fuel: "2 ^ 33 \<le> fuel"
    and room: "\<And>gap. outcome = Some gap \<Longrightarrow> brk st + gap + max (units_for nbytes) NALLOC < 2 ^ 32"
  shows "\<exists>r st'. my_malloc fuel outcome nbytes st = Inr (r, st') \<and> allocated (units_for nbytes) st out r st' \<and>
    (r = None \<longrightarrow> outcome = None \<and> brk st' = brk st) \<and>
    ((\<exists>a fs. kr_ok st fs out \<and> a \<in> set fs \<and> units_for nbytes \<le> hsize st a) \<longrightarrow> r \<noteq> None \<and> brk st' = brk st)"
proof -
  let ?n = "units_for nbytes" and ?st = "kr_start st"
  let ?enough = "\<exists>a fs. kr_ok st fs out \<and> a \<in> set fs \<and> ?n \<le> hsize st a"
  obtain fs where ok: "kr_ok ?st fs out" and enough: "?enough \<Longrightarrow> \<exists>a \<in> set fs. ?n \<le> hsize ?st a"
  proof (cases ?enough)
    case True
    then obtain a fs where a: "kr_ok st fs out" "a \<in> set fs" "?n \<le> hsize st a" by blast
    then have "?st = st" by (auto simp: kr_ok_def kr_start_def)
    with a that [of fs] show ?thesis by auto
  next
    case False
    with kr_start_ok [OF inv] that show ?thesis by blast
  qed
  from ok obtain f where f: "freep ?st = Some f" by (auto simp: kr_ok_def)
  have same: "brk ?st = brk st" "base ?st = base st" by (simp_all add: kr_start_def split: option.split)
  have n0: "0 < ?n" by (simp add: units_for_def)
  have lim: "brk ?st < 2 ^ 32" using ok by (simp add: kr_ok_def)
  have bf: "brk ?st < fuel" using lim fuel by simp
  have sz: "hsize ?st h = hsize st h" if "h \<in> out" for h
    using that kr_ok_above [OF ok, of h] same by (auto simp: kr_start_def split: option.split)
  have al: "allocated ?n st out r st'" if "allocated ?n ?st out r st'" for r st'
    using that sz same by (simp add: allocated_def split: option.splits)
  have big: "\<not> (\<forall>a \<in> set fs. hsize ?st a < ?n)"
    if ?enough
    using enough [OF that] by (auto simp: not_less)
  have m: "my_malloc fuel outcome nbytes st = malloc_loop fuel fuel outcome ?n f (hnext ?st f) ?st"
    by (simp add: my_malloc_start Let_def f)
  from search_spec [OF ok f bf, of ?n fuel outcome] show ?thesis
  proof (elim disjE conjE bexE exE)
    fix x assume x: "x \<in> set (base ?st # fs)" "?n \<le> hsize ?st (hnext ?st x)"
      "malloc_loop fuel fuel outcome ?n f (hnext ?st f) ?st =
        (let (r, st') = take_block ?n x (hnext ?st x) ?st in Inr (Some r, st'))"
    from allocated_take [OF ok x(1) n0 x(2)] m x(3) al same show ?thesis by fastforce
  next
    fix fuel' assume small: "\<forall>a \<in> set fs. hsize ?st a < ?n" and fuel': "fuel \<le> fuel' + brk ?st"
      and loop: "malloc_loop fuel fuel outcome ?n f (hnext ?st f) ?st =
        bindr (my_morecore fuel outcome ?n ?st) (\<lambda>(q, st).
          case q of None \<Rightarrow> Inr (None, st) | Some q \<Rightarrow> malloc_loop fuel' fuel outcome ?n q (hnext st q) st)"
    show ?thesis
    proof (cases outcome)
      case None
      then have "my_morecore fuel outcome ?n ?st = Inr (None, ?st)" by (simp add: my_morecore_def sbrk_def Let_def)
      then have "my_malloc fuel outcome nbytes st = Inr (None, ?st)" using m loop by simp
      moreover have "allocated ?n ?st out None ?st" using ok by (auto simp: allocated_def kr_inv_def)
      ultimately show ?thesis using al None same big small by blast
    next
      case (Some gap)
      from morecore_spec [OF ok n, of gap fuel] room [OF Some] fuel same obtain q st1 fs1 where mc:
        "my_morecore fuel (Some gap) ?n ?st = Inr (Some q, st1)" "freep st1 = Some q" "kr_ok st1 fs1 out"
        "base st1 = base ?st" "\<forall>h \<in> out. hsize st1 h = hsize ?st h" "\<exists>a \<in> set fs1. ?n \<le> hsize st1 a"
        by auto
      have "brk st1 < fuel'" using mc(3) fuel fuel' lim by (simp add: kr_ok_def)
      from search_spec [OF mc(3,2) this, of ?n fuel outcome] mc(6) obtain x where x:
        "x \<in> set (base st1 # fs1)" "?n \<le> hsize st1 (hnext st1 x)"
        "malloc_loop fuel' fuel outcome ?n q (hnext st1 q) st1 =
          (let (r, st') = take_block ?n x (hnext st1 x) st1 in Inr (Some r, st'))" by (auto simp: not_less)
      from allocated_take [OF mc(3) x(1) n0 x(2)] obtain r st2 where t:
        "(let (r, st') = take_block ?n x (hnext st1 x) st1 in Inr (Some r, st')) = (Inr (Some r, st2) :: (nat option \<times> kr_heap) res)"
        "allocated ?n st1 out (Some r) st2" by blast
      have "my_malloc fuel outcome nbytes st = malloc_loop fuel' fuel outcome ?n q (hnext st1 q) st1"
        unfolding m loop by (simp only: Some mc(1) bindr_Inr prod.case option.case)
      also have "\<dots> = Inr (Some r, st2)" using x(3) t(1) by (rule trans)
      finally have "my_malloc fuel outcome nbytes st = Inr (Some r, st2)" .
      moreover have "allocated ?n ?st out (Some r) st2" using t(2) mc(4,5) by (simp add: allocated_def)
      ultimately show ?thesis using al big small by blast
    qed
  qed
qed


section \<open>Programs that use the allocator\<close>

text \<open>
  A request whose size in bytes, headers included, fits the argument of \<open>sbrk\<close>, and an address space
  of less than \<open>2 ^ 32\<close> units.
\<close>

definition request_ok :: "nat option \<Rightarrow> nat \<Rightarrow> kr_heap \<Rightarrow> bool" where
  "request_ok outcome nbytes st \<longleftrightarrow> nbytes \<le> 2147483616 \<and>
     (case outcome of None \<Rightarrow> True | Some gap \<Rightarrow> brk st + gap + max (units_for nbytes) NALLOC < 2 ^ 32)"

text \<open>
  The steps of a program: it allocates, frees a block it holds, or writes into one, where it may
  overwrite every unit of the block but the header.
\<close>

inductive kr_step :: "kr_heap \<times> nat set \<Rightarrow> kr_heap \<times> nat set \<Rightarrow> bool" where
  Malloc: "my_malloc fuel outcome nbytes st = Inr (r, st') \<Longrightarrow> request_ok outcome nbytes st \<Longrightarrow> 2 ^ 33 \<le> fuel \<Longrightarrow>
     kr_step (st, out) (st', case r of None \<Rightarrow> out | Some q \<Rightarrow> insert (q - 1) out)"
| Free: "my_free fuel (h + 1) st = Inr st' \<Longrightarrow> h \<in> out \<Longrightarrow> 2 ^ 33 \<le> fuel \<Longrightarrow> kr_step (st, out) (st', out - {h})"
| Write: "h \<in> out \<Longrightarrow> h < u \<Longrightarrow> u < h + hsize st h \<Longrightarrow>
     kr_step (st, out) (st\<lparr>hnext := (hnext st)(u := x), hsize := (hsize st)(u := y)\<rparr>, out)"

definition kr_reachable :: "kr_heap \<Rightarrow> nat set \<Rightarrow> bool" where
  "kr_reachable st out \<longleftrightarrow>
     (\<exists>st0. freep st0 = None \<and> base st0 < brk st0 \<and> brk st0 < 2 ^ 32 \<and> kr_step\<^sup>*\<^sup>* (st0, {}) (st, out))"

lemma request_units: "nbytes \<le> 2147483616 \<Longrightarrow> max (units_for nbytes) NALLOC < 2 ^ 27"
  by (simp add: units_for_def NALLOC_def)

lemma malloc_step:
  assumes "kr_inv st out" "request_ok outcome nbytes st" "2 ^ 33 \<le> fuel"
  shows "\<exists>r st'. my_malloc fuel outcome nbytes st = Inr (r, st') \<and> allocated (units_for nbytes) st out r st' \<and>
    (r = None \<longrightarrow> outcome = None \<and> brk st' = brk st) \<and>
    ((\<exists>a fs. kr_ok st fs out \<and> a \<in> set fs \<and> units_for nbytes \<le> hsize st a) \<longrightarrow> r \<noteq> None \<and> brk st' = brk st)"
  using assms(2) by (intro malloc_spec assms request_units) (simp_all add: request_ok_def)

lemma write_step:
  assumes ok: "kr_ok st fs out" and u: "h \<in> out" "h < u" "u < h + hsize st h"
  shows "kr_ok (st\<lparr>hnext := (hnext st)(u := x), hsize := (hsize st)(u := y)\<rparr>) fs out"
proof -
  note kr = ok [unfolded kr_ok_def]
  have b: "blocks (hsize st) (base st) (brk st) (set fs \<union> out)" using kr by blast
  have nu: "u \<notin> set fs \<union> out"
  proof
    assume "u \<in> set fs \<union> out"
    with blocks_end [OF b, of h u] u show False by simp
  qed
  moreover have "u \<noteq> base st" using kr_ok_above [OF ok, of h] u by simp
  ultimately have "linked ((hnext st)(u := x)) (base st # fs) (base st)" using kr linked_upd [of u "base st # fs"] by simp
  moreover have "blocks ((hsize st)(u := y)) (base st) (brk st) (set fs \<union> out)"
    using b nu by (subst blocks_cong [of _ _ "hsize st"]) auto
  ultimately show ?thesis
    using kr nu \<open>u \<noteq> base st\<close> by (auto simp: kr_ok_def)
qed

lemma step_inv:
  assumes "kr_step (st, out) (st', out')" "kr_inv st out"
  shows "kr_inv st' out'"
proof -
  from assms(1) consider
      (malloc) fuel outcome nbytes r where "my_malloc fuel outcome nbytes st = Inr (r, st')" "request_ok outcome nbytes st"
        "2 ^ 33 \<le> fuel" "out' = (case r of None \<Rightarrow> out | Some q \<Rightarrow> insert (q - 1) out)"
    | (release) fuel h where "my_free fuel (h + 1) st = Inr st'" "h \<in> out" "2 ^ 33 \<le> fuel" "out' = out - {h}"
    | (scribble) h u x y where "h \<in> out" "h < u" "u < h + hsize st h"
        "st' = st\<lparr>hnext := (hnext st)(u := x), hsize := (hsize st)(u := y)\<rparr>" "out' = out"
    by (cases rule: kr_step.cases) blast+
  then show ?thesis
  proof cases
    case malloc
    from malloc_step [OF assms(2) malloc(2,3)] malloc(1,4) show ?thesis
      by (auto simp: allocated_def kr_inv_def split: option.splits)
  next
    case release
    then obtain fs where ok: "kr_ok st fs out" using assms(2) by (auto simp: kr_inv_def)
    then have "brk st \<le> fuel" using release(3) by (simp add: kr_ok_def)
    from free_spec [OF ok release(2) this] release(1,4) show ?thesis by (auto simp: kr_inv_def)
  next
    case scribble
    then obtain fs where "kr_ok st fs out" using assms(2) by (auto simp: kr_inv_def)
    from write_step [OF this scribble(1-3)] scribble(4,5) show ?thesis by (auto simp: kr_inv_def)
  qed
qed

lemma reachable_inv: "kr_reachable st out \<Longrightarrow> kr_inv st out"
proof -
  have "kr_inv (fst s) (snd s)" if "kr_step\<^sup>*\<^sup>* (st0, {}) s" "kr_inv st0 {}" for st0 and s :: "kr_heap \<times> nat set"
    using that(1)
  proof (induction rule: rtranclp_induct)
    case (step y z)
    then show ?case using step_inv [of "fst y" "snd y" "fst z" "snd z"] by simp
  qed (use that(2) in simp)
  then show "kr_reachable st out \<Longrightarrow> kr_inv st out" by (fastforce simp: kr_reachable_def kr_inv_def)
qed

text \<open>A process with its break at unit 10, and its first allocation of 100 bytes.\<close>

definition kr_boot :: kr_heap where
  "kr_boot = \<lparr>hnext = (\<lambda>_. 0), hsize = (\<lambda>_. 0), freep = None, base = 1, brk = 10\<rparr>"

lemma kr_boot_reachable: "kr_reachable kr_boot {}"
  unfolding kr_reachable_def by (intro exI [of _ kr_boot]) (simp add: kr_boot_def)

lemma kr_boot_alloc:
  "\<exists>h st. my_malloc (2 ^ 33) (Some 0) 100 kr_boot = Inr (Some (h + 1), st) \<and> kr_reachable st {h} \<and> hsize st h = 8"
proof -
  have inv: "kr_inv kr_boot {}" by (rule reachable_inv [OF kr_boot_reachable])
  have ok: "request_ok (Some 0) 100 kr_boot" by (simp add: request_ok_def kr_boot_def units_for_def NALLOC_def)
  from malloc_step [OF inv ok order_refl] obtain q st where
    m: "my_malloc (2 ^ 33) (Some 0) 100 kr_boot = Inr (Some q, st)" "allocated (units_for 100) kr_boot {} (Some q) st" by blast
  have "kr_reachable st {q - 1}"
    using kr_boot_reachable Malloc [OF m(1) ok order_refl, of "{}"] unfolding kr_reachable_def
    by simp (meson rtranclp.rtrancl_into_rtrancl)
  with m show ?thesis by (intro exI [of _ "q - 1"] exI [of _ st]) (simp add: allocated_def units_for_def)
qed

section \<open>Properties\<close>





text \<open>
  Property C39: freed memory is used again.  After a block was freed, a request that needs no more
  units than the block had is served without asking the system, and the break does not move.
\<close>

theorem kr_free_reuse:
  assumes "kr_reachable st out" "2 ^ 33 \<le> fuel" "h \<in> out" "nbytes \<le> 2147483616" "units_for nbytes \<le> hsize st h"
  shows "\<exists>st1 q st2. my_free fuel (h + 1) st = Inr st1 \<and> my_malloc fuel None nbytes st1 = Inr (Some q, st2) \<and>
    brk st2 = brk st"
proof -
  from reachable_inv [OF assms(1)] assms(3) obtain fs where ok: "kr_ok st fs out" by (auto simp: kr_inv_def)
  then have "brk st \<le> fuel" using assms(2) by (simp add: kr_ok_def)
  from free_spec [OF ok assms(3) this] obtain st1 fs1 a where f: "my_free fuel (h + 1) st = Inr st1"
    "kr_ok st1 fs1 (out - {h})" "brk st1 = brk st" "a \<in> set fs1" "hsize st h \<le> hsize st1 a" by blast
  have "kr_inv st1 (out - {h})" using f(2) by (auto simp: kr_inv_def)
  moreover have "request_ok None nbytes st1" using assms(4) by (simp add: request_ok_def)
  ultimately show ?thesis
    using malloc_step [of st1 "out - {h}" None nbytes fuel] assms(2,5) f order_trans [OF assms(5) f(5)] by fastforce
qed

theorem kr_free_reuse_witness:
  "\<exists>st h st1 q st2. kr_reachable st {h} \<and> my_free (2 ^ 33) (h + 1) st = Inr st1 \<and>
     my_malloc (2 ^ 33) None 50 st1 = Inr (Some q, st2) \<and> brk st2 = brk st"
proof -
  from kr_boot_alloc obtain h st where r: "kr_reachable st {h}" "hsize st h = 8" by blast
  have "h \<in> {h}" "50 \<le> (2147483616 :: nat)" "units_for 50 \<le> hsize st h" using r(2) by (simp_all add: units_for_def)
  from kr_free_reuse [OF r(1) order_refl this] r(1) show ?thesis by blast
qed

text \<open>
  A request close to 4 GiB: the size in bytes is converted to the \<open>int\<close> 0, the break does not move,
  and the block that is returned lies outside of the memory of the process.
\<close>

theorem kr_malloc_huge:
  "\<exists>st'. my_malloc (Suc (Suc (Suc f))) (Some 0) 4294967280 kr_boot = Inr (Some 11, st') \<and> brk st' = 10 \<and>
     hsize st' 10 = 268435456"
proof -
  have u: "units_for 4294967280 = 268435456" by (simp add: units_for_def)
  have a: "int_arg (268435456 * 16) = 0" by (simp add: int_arg_def)
  show ?thesis
    by (simp add: my_malloc_def u kr_boot_def my_morecore_def NALLOC_def sbrk_def my_free_def stops_at_def
        join_upper_def join_lower_def take_block_def Let_def a [simplified])
qed

end
