(* ===== verification/Btf_Visit.thy ===== *)
theory Btf_Visit imports Btf begin

text \<open>
  Visiting the references inside type information (\<open>bpf/libbpf/src/btf.c\<close>): the routines that call a
  function on every type number or on every string offset of a type, in place.

  A visitor gets the number that stands at a place and a context of its own; it returns the number
  to be stored there and the context, or the negative errno that ends the visit (the visitors of the
  code never return positive numbers).  The state of a visit is the bytes with the context.
\<close>

section \<open>Visiting places\<close>

type_synonym 'c visitor = "nat \<Rightarrow> 'c \<Rightarrow> (nat \<times> 'c) res"

definition visit_at :: "'c visitor \<Rightarrow> nat \<Rightarrow> u8 list \<times> 'c \<Rightarrow> (u8 list \<times> 'c) res" where
  "visit_at visit p = (\<lambda>(bs, c).
     bindr (rd32 bs p) (\<lambda>v.
     bindr (visit v c) (\<lambda>(v, c). Inr (put_bytes p (le_bytes 4 v) bs, c))))"

fun visit_offs :: "'c visitor \<Rightarrow> nat list \<Rightarrow> u8 list \<times> 'c \<Rightarrow> (u8 list \<times> 'c) res" where
  "visit_offs visit [] st = Inr st"
| "visit_offs visit (p # ps) st = bindr (visit_at visit p st) (visit_offs visit ps)"

text \<open>The elements behind a type have \<open>sz\<close> bytes each; the loops visit the word \<open>k\<close> bytes inside.\<close>

definition elem_words :: "nat \<Rightarrow> nat \<Rightarrow> nat \<Rightarrow> nat \<Rightarrow> nat list" where
  "elem_words off sz k n = map (\<lambda>i. off + 12 + i * sz + k) [0..<n]"

definition btf_type_visit_type_ids :: "'c visitor \<Rightarrow> nat \<Rightarrow> u8 list \<times> 'c \<Rightarrow> (u8 list \<times> 'c) res" where
  "btf_type_visit_type_ids visit off = (\<lambda>(types, c).
     bindr (btf_kind (Type_At types off)) (\<lambda>kind.
     bindr (btf_vlen (Type_At types off)) (\<lambda>n.
       if kind \<in> {BTF_KIND_INT, BTF_KIND_FLOAT, BTF_KIND_ENUM, BTF_KIND_ENUM64} then Inr (types, c)
       else if kind \<in> {BTF_KIND_FWD, BTF_KIND_CONST, BTF_KIND_VOLATILE, BTF_KIND_RESTRICT, BTF_KIND_PTR,
           BTF_KIND_TYPEDEF, BTF_KIND_FUNC, BTF_KIND_VAR, BTF_KIND_DECL_TAG, BTF_KIND_TYPE_TAG}
       then visit_at visit (off + 8) (types, c)
       else if kind = BTF_KIND_ARRAY
       then bindr (visit_at visit (off + 12) (types, c)) (visit_at visit (off + 16))
       else if kind \<in> {BTF_KIND_STRUCT, BTF_KIND_UNION} then visit_offs visit (elem_words off 12 4 n) (types, c)
       else if kind = BTF_KIND_FUNC_PROTO
       then bindr (visit_at visit (off + 8) (types, c)) (visit_offs visit (elem_words off 8 4 n))
       else if kind = BTF_KIND_DATASEC then visit_offs visit (elem_words off 12 0 n) (types, c)
       else Inl (Err EINVAL))))"

definition btf_type_visit_str_offs :: "'c visitor \<Rightarrow> nat \<Rightarrow> u8 list \<times> 'c \<Rightarrow> (u8 list \<times> 'c) res" where
  "btf_type_visit_str_offs visit off st =
     bindr (visit_at visit off st) (\<lambda>(types, c).
     bindr (btf_kind (Type_At types off)) (\<lambda>kind.
     bindr (btf_vlen (Type_At types off)) (\<lambda>n.
       if kind \<in> {BTF_KIND_STRUCT, BTF_KIND_UNION} then visit_offs visit (elem_words off 12 0 n) (types, c)
       else if kind = BTF_KIND_ENUM then visit_offs visit (elem_words off 8 0 n) (types, c)
       else if kind = BTF_KIND_ENUM64 then visit_offs visit (elem_words off 12 0 n) (types, c)
       else if kind = BTF_KIND_FUNC_PROTO then visit_offs visit (elem_words off 8 0 n) (types, c)
       else Inr (types, c))))"

section \<open>What a visit does\<close>

text \<open>
  The abstract view of a visit: the numbers are read, the visitor runs over the list of them, and the
  results are written back.
\<close>

definition word_at :: "u8 list \<Rightarrow> nat \<Rightarrow> nat" where
  "word_at bs p = le_nat (take 4 (drop p bs))"

fun visit_list :: "'c visitor \<Rightarrow> nat list \<Rightarrow> 'c \<Rightarrow> (nat list \<times> 'c) res" where
  "visit_list visit [] c = Inr ([], c)"
| "visit_list visit (v # vs) c =
     bindr (visit v c) (\<lambda>(w, c). bindr (visit_list visit vs c) (\<lambda>(ws, c). Inr (w # ws, c)))"

fun put_words :: "(nat \<times> nat) list \<Rightarrow> u8 list \<Rightarrow> u8 list" where
  "put_words [] bs = bs"
| "put_words ((p, v) # pvs) bs = put_words pvs (put_bytes p (le_bytes 4 v) bs)"

definition visited :: "'c visitor \<Rightarrow> nat list \<Rightarrow> u8 list \<times> 'c \<Rightarrow> (u8 list \<times> 'c) res" where
  "visited visit ps = (\<lambda>(bs, c).
     bindr (visit_list visit (map (word_at bs) ps) c) (\<lambda>(vs, c). Inr (put_words (zip ps vs) bs, c)))"

abbreviation disj :: "nat \<Rightarrow> nat \<Rightarrow> bool" where "disj p q \<equiv> p + 4 \<le> q \<or> q + 4 \<le> p"

definition places :: "u8 list \<Rightarrow> nat list \<Rightarrow> bool" where
  "places bs ps \<longleftrightarrow> sorted_wrt disj ps \<and> (\<forall>p \<in> set ps. p + 4 \<le> length bs)"

lemma rd32_word: "p + 4 \<le> length bs \<Longrightarrow> rd32 bs p = Inr (word_at bs p)"
  by (simp add: rd_def word_at_def)

lemma length_put4 [simp]: "p + 4 \<le> length bs \<Longrightarrow> length (put_bytes p (le_bytes 4 v) bs) = length bs"
  by simp

text \<open>A write leaves alone what lies outside of it.\<close>

lemma nth_put4: "p + 4 \<le> length bs \<Longrightarrow> i < p \<or> p + 4 \<le> i \<Longrightarrow> i < length bs \<Longrightarrow>
  put_bytes p (le_bytes 4 v) bs ! i = bs ! i"
  by (auto simp: nth_put_bytes)

lemma word_at_cong:
  assumes "length bs' = length bs" "\<And>i. p \<le> i \<Longrightarrow> i < p + 4 \<Longrightarrow> i < length bs \<Longrightarrow> bs' ! i = bs ! i"
  shows "word_at bs' p = word_at bs p"
proof -
  have "take 4 (drop p bs') = take 4 (drop p bs)"
    by (rule nth_equalityI) (auto simp: assms)
  then show ?thesis by (simp add: word_at_def)
qed

lemma word_at_put_other: "p + 4 \<le> length bs \<Longrightarrow> disj p q \<Longrightarrow> word_at (put_bytes p (le_bytes 4 v) bs) q = word_at bs q"
  by (rule word_at_cong) (auto intro!: nth_put4)

lemma word_at_put_same: "p + 4 \<le> length bs \<Longrightarrow> word_at (put_bytes p (le_bytes 4 v) bs) p = v mod 2 ^ 32"
  using put_bytes_same [of p "le_bytes 4 v" bs] by (simp add: word_at_def le_nat_le_bytes)

lemma visit_list_length: "visit_list visit vs c = Inr (ws, c') \<Longrightarrow> length ws = length vs"
  by (induction vs arbitrary: c ws) (auto simp: bindr_eq_Inr)

lemma length_put_words [simp]:
  "\<forall>p \<in> set ps. p + 4 \<le> length bs \<Longrightarrow> length (put_words (zip ps vs) bs) = length bs"
proof (induction ps arbitrary: vs bs)
  case (Cons p ps)
  then show ?case by (cases vs) auto
qed simp

lemma nth_put_words:
  assumes "\<forall>p \<in> set ps. p + 4 \<le> length bs \<and> (i < p \<or> p + 4 \<le> i)" "i < length bs"
  shows "put_words (zip ps vs) bs ! i = bs ! i"
  using assms
proof (induction ps arbitrary: vs bs)
  case (Cons p ps)
  then show ?case by (cases vs) (auto simp: nth_put4)
qed simp

lemma word_at_put_words_other:
  "\<forall>p \<in> set ps. p + 4 \<le> length bs \<and> disj p q \<Longrightarrow> word_at (put_words (zip ps vs) bs) q = word_at bs q"
  by (rule word_at_cong) (auto intro!: nth_put_words)

lemma word_at_put_words:
  assumes "places bs ps" "length vs = length ps" "j < length ps"
  shows "word_at (put_words (zip ps vs) bs) (ps ! j) = vs ! j mod 2 ^ 32"
  using assms
proof (induction ps arbitrary: vs bs j)
  case (Cons p ps)
  then obtain w ws where vs: "vs = w # ws" "length ws = length ps" by (cases vs) auto
  have p: "p + 4 \<le> length bs" "\<forall>q \<in> set ps. disj p q" "places bs ps" using Cons.prems(1) by (auto simp: places_def)
  let ?bs = "put_bytes p (le_bytes 4 w) bs"
  have l: "length ?bs = length bs" using p(1) by simp
  show ?case
  proof (cases j)
    case 0
    have "word_at (put_words (zip ps ws) ?bs) p = word_at ?bs p"
      using p l by (intro word_at_put_words_other) (auto simp: places_def)
    then show ?thesis by (simp add: 0 vs word_at_put_same p(1))
  next
    case (Suc i)
    have "places ?bs ps" using p(3) l by (simp add: places_def)
    from Cons.IH [OF this vs(2), of i] Cons.prems(3) show ?thesis by (simp add: Suc vs)
  qed
qed simp

lemma visit_offs_visited:
  assumes "places bs ps"
  shows "visit_offs visit ps (bs, c) = visited visit ps (bs, c)"
  using assms
proof (induction ps arbitrary: bs c)
  case (Cons p ps)
  have p: "p + 4 \<le> length bs" "\<forall>q \<in> set ps. disj p q" "places bs ps" using Cons.prems by (auto simp: places_def)
  have m: "map (word_at (put_bytes p (le_bytes 4 v) bs)) ps = map (word_at bs) ps"
    and pl: "places (put_bytes p (le_bytes 4 v) bs) ps" for v
    using p by (auto simp: places_def intro!: word_at_put_other)
  have ih: "visit_offs visit ps (put_bytes p (le_bytes 4 v) bs, c) =
    bindr (visit_list visit (map (word_at bs) ps) c) (\<lambda>(vs, c).
      Inr (put_words (zip ps vs) (put_bytes p (le_bytes 4 v) bs), c))" for v c
    using Cons.IH [OF pl, of v c] by (simp add: visited_def m)
  show ?case
    by (cases "visit (word_at bs p) c")
       (auto simp: visit_at_def visited_def rd32_word [OF p(1)] ih bindr_def split: sum.splits)
qed (simp add: visited_def)

lemma visit_offs_append: "visit_offs visit (ps @ qs) st = bindr (visit_offs visit ps st) (visit_offs visit qs)"
proof (induction ps arbitrary: st)
  case (Cons p ps)
  show ?case by (cases "visit_at visit p st") (simp_all add: Cons)
qed simp

lemma visit_offs_fun [simp]: "visit_offs visit [] = Inr" "visit_offs visit [p] = visit_at visit p"
  by (rule ext, simp add: bindr_def split: sum.splits)+

section \<open>The places of a type\<close>

definition type_id_places :: "btf_kind \<Rightarrow> nat \<Rightarrow> nat \<Rightarrow> nat list option" where
  "type_id_places kind n off =
     (if kind \<in> {BTF_KIND_INT, BTF_KIND_FLOAT, BTF_KIND_ENUM, BTF_KIND_ENUM64} then Some []
      else if kind = BTF_KIND_ARRAY then Some [off + 12, off + 16]
      else if kind \<in> {BTF_KIND_STRUCT, BTF_KIND_UNION} then Some (elem_words off 12 4 n)
      else if kind = BTF_KIND_FUNC_PROTO then Some ((off + 8) # elem_words off 8 4 n)
      else if kind = BTF_KIND_DATASEC then Some (elem_words off 12 0 n)
      else if rest_words kind n = None then None
      else Some [off + 8])"

definition str_off_places :: "btf_kind \<Rightarrow> nat \<Rightarrow> nat \<Rightarrow> nat list" where
  "str_off_places kind n off = off #
     (if kind \<in> {BTF_KIND_STRUCT, BTF_KIND_UNION, BTF_KIND_ENUM64} then elem_words off 12 0 n
      else if kind \<in> {BTF_KIND_ENUM, BTF_KIND_FUNC_PROTO} then elem_words off 8 0 n
      else [])"

lemma elem_words_sorted: "4 \<le> sz \<Longrightarrow> sorted_wrt disj (elem_words off sz k n)"
proof (induction n)
  case (Suc n)
  have "elem_words off sz k (Suc n) = elem_words off sz k n @ [off + 12 + n * sz + k]"
    by (simp add: elem_words_def)
  moreover have "p + 4 \<le> off + 12 + n * sz + k" if "p \<in> set (elem_words off sz k n)" for p
  proof -
    from that obtain i where i: "i < n" "p = off + 12 + i * sz + k" by (auto simp: elem_words_def)
    have "Suc i * sz \<le> n * sz" using i(1) by (intro mult_le_mono1) simp
    with i Suc.prems show ?thesis by simp
  qed
  ultimately show ?case using Suc by (simp add: sorted_wrt_append)
qed (simp add: elem_words_def)

lemma elem_words_mem:
  assumes "p \<in> set (elem_words off sz k n)" "k + 4 \<le> sz"
  shows "off + 12 \<le> p \<and> p + 4 \<le> off + (12 + n * sz)"
  using assms element_inside [of _ n k sz] by (fastforce simp: elem_words_def)

text \<open>The places lie inside the bytes of the type, and not on the word with its kind.\<close>

lemma type_id_places_in:
  assumes "rest_words kind n = Some w" "type_id_places kind n off = Some ps"
  shows "sorted_wrt disj ps" "p \<in> set ps \<Longrightarrow> off + 8 \<le> p \<and> p + 4 \<le> off + (12 + 4 * w)"
proof -
  show "sorted_wrt disj ps"
    using assms elem_words_sorted [of 8 off 4 n] elem_words_sorted [of 12 off _ n]
    by (cases kind) (auto simp: type_id_places_def split: if_splits dest!: elem_words_mem)
  show "p \<in> set ps \<Longrightarrow> off + 8 \<le> p \<and> p + 4 \<le> off + (12 + 4 * w)"
    using assms by (cases kind) (auto simp: type_id_places_def dest!: elem_words_mem)
qed

lemma str_off_places_in:
  assumes "rest_words kind n = Some w"
  shows "sorted_wrt disj (str_off_places kind n off)"
    "p \<in> set (str_off_places kind n off) \<Longrightarrow> p = off \<or> off + 12 \<le> p \<and> p + 4 \<le> off + (12 + 4 * w)"
proof -
  show "sorted_wrt disj (str_off_places kind n off)"
    using elem_words_sorted [of 8 off 0 n] elem_words_sorted [of 12 off 0 n]
    by (auto simp: str_off_places_def dest!: elem_words_mem)
  show "p \<in> set (str_off_places kind n off) \<Longrightarrow> p = off \<or> off + 12 \<le> p \<and> p + 4 \<le> off + (12 + 4 * w)"
    using assms by (cases kind) (auto simp: str_off_places_def dest!: elem_words_mem)
qed


lemma places_type:
  assumes "rest_words kind n = Some w" "off + (12 + 4 * w) \<le> length types"
  shows "places types (str_off_places kind n off)" "type_id_places kind n off = Some ps \<Longrightarrow> places types ps"
proof -
  have "p + 4 \<le> length types" if "p \<in> set (str_off_places kind n off)" for p
    using str_off_places_in(2) [OF assms(1) that] assms(2) by auto
  with str_off_places_in(1) [OF assms(1)] show "places types (str_off_places kind n off)" by (simp add: places_def)
  assume ps: "type_id_places kind n off = Some ps"
  have "p + 4 \<le> length types" if "p \<in> set ps" for p
    using type_id_places_in(2) [OF assms(1) ps that] assms(2) by auto
  with type_id_places_in(1) [OF assms(1) ps] show "places types ps" by (simp add: places_def)
qed

lemma tfits_at:
  assumes "tfits (Type_At types off)"
  shows "\<exists>kind n w ps. btf_kind (Type_At types off) = Inr kind \<and> btf_vlen (Type_At types off) = Inr n \<and>
    rest_words kind n = Some w \<and> btf_type_size (Type_At types off) = Inr (12 + 4 * w) \<and>
    off + (12 + 4 * w) \<le> length types \<and> type_id_places kind n off = Some ps"
proof -
  from assms obtain sz where sz: "btf_type_size (Type_At types off) = Inr sz" "off + sz \<le> length types" by auto
  from type_size_Inr [OF sz(1)] obtain kind n w where k: "btf_kind (Type_At types off) = Inr kind"
    "btf_vlen (Type_At types off) = Inr n" "rest_words kind n = Some w" "sz = 12 + 4 * w" by blast
  then have "type_id_places kind n off \<noteq> None" by (cases kind) (auto simp: type_id_places_def)
  with k sz show ?thesis by auto
qed

lemma visit_type_ids_visited:
  assumes "btf_kind (Type_At types off) = Inr kind" "btf_vlen (Type_At types off) = Inr n"
    "rest_words kind n = Some w" "off + (12 + 4 * w) \<le> length types" "type_id_places kind n off = Some ps"
  shows "btf_type_visit_type_ids visit off (types, c) = visited visit ps (types, c)"
proof -
  have "btf_type_visit_type_ids visit off (types, c) = visit_offs visit ps (types, c)"
    using assms(1-3,5)
    by (cases kind) (auto simp: btf_type_visit_type_ids_def type_id_places_def)
  with visit_offs_visited [OF places_type(2) [OF assms(3,4,5)], of visit c] show ?thesis by simp
qed

text \<open>A write at one of the places of a type leaves the word with its kind.\<close>

lemma kind_after_put:
  assumes "off + 8 \<le> p \<or> p = off" "p + 4 \<le> length types" "off + 8 \<le> length types"
  shows "tword (Type_At (put_bytes p (le_bytes 4 v) types) off) 4 = tword (Type_At types off) 4"
proof -
  have "word_at (put_bytes p (le_bytes 4 v) types) (off + 4) = word_at types (off + 4)"
    using assms by (intro word_at_put_other) auto
  with assms show ?thesis by (simp add: tword_def rd32_word)
qed

lemma visit_str_offs_visited:
  assumes "btf_kind (Type_At types off) = Inr kind" "btf_vlen (Type_At types off) = Inr n"
    "rest_words kind n = Some w" "off + (12 + 4 * w) \<le> length types"
  shows "btf_type_visit_str_offs visit off (types, c) = visited visit (str_off_places kind n off) (types, c)"
proof -
  have "btf_kind (Type_At types' off) = Inr kind \<and> btf_vlen (Type_At types' off) = Inr n"
    if "visit_at visit off (types, c) = Inr (types', c')" for types' c'
    using that assms(4) assms(1,2) btf_kind_cong [OF kind_after_put [of off off types]]
    by (auto simp: visit_at_def bindr_eq_Inr)
  then have "btf_type_visit_str_offs visit off (types, c) = visit_offs visit (str_off_places kind n off) (types, c)"
    by (cases "visit_at visit off (types, c)") (auto simp: btf_type_visit_str_offs_def str_off_places_def)
  with visit_offs_visited [OF places_type(1) [OF assms(3,4)], of visit c] show ?thesis by simp
qed

section \<open>Visitors that only check\<close>

definition checker :: "(nat \<Rightarrow> unit res) \<Rightarrow> unit visitor" where
  "checker f v c = bindr (f v) (\<lambda>_. Inr (v, c))"

lemma put_word_same: "p + 4 \<le> length bs \<Longrightarrow> put_bytes p (le_bytes 4 (word_at bs p)) bs = bs"
proof -
  assume p: "p + 4 \<le> length bs"
  have z: "(256 :: u8) = 0" by simp
  have le: "le_bytes (length xs) (le_nat xs) = xs" for xs
    by (induction xs) (auto simp: z)
  have "le_bytes 4 (word_at bs p) = take 4 (drop p bs)"
    using le [of "take 4 (drop p bs)"] p by (simp add: word_at_def)
  then show ?thesis using p by (simp add: put_bytes_def) (metis append_take_drop_id drop_drop add.commute)
qed

lemma put_words_same: "\<forall>p \<in> set ps. p + 4 \<le> length bs \<Longrightarrow> put_words (zip ps (map (word_at bs) ps)) bs = bs"
  by (induction ps) (auto simp: put_word_same)

fun passes :: "(nat \<Rightarrow> unit res) \<Rightarrow> nat list \<Rightarrow> unit res" where
  "passes f [] = Inr ()"
| "passes f (v # vs) = bindr (f v) (\<lambda>_. passes f vs)"

lemma visit_list_checker:
  "visit_list (checker f) vs c = bindr (passes f vs) (\<lambda>_. Inr (vs, c))"
proof (induction vs)
  case (Cons v vs)
  then show ?case by (cases "f v") (auto simp: checker_def bindr_assoc)
qed simp

lemma visited_checker:
  "places bs ps \<Longrightarrow> visited (checker f) ps (bs, c) = bindr (passes f (map (word_at bs) ps)) (\<lambda>_. Inr (bs, c))"
  by (cases "passes f (map (word_at bs) ps)")
     (auto simp: visited_def visit_list_checker put_words_same places_def)

lemma passes_Inr: "passes f vs = Inr () \<longleftrightarrow> (\<forall>v \<in> set vs. f v = Inr ())"
  by (induction vs) (auto simp: bindr_eq_Inr)

lemma passes_returns: "(\<And>v. v \<in> set vs \<Longrightarrow> returns (\<lambda>_. True) (f v)) \<Longrightarrow> returns (\<lambda>_. True) (passes f vs)"
  by (induction vs) (auto intro!: returns_bind)

section \<open>The checks of the linker\<close>

text \<open>The linker (\<open>bpf/libbpf/src/linker.c\<close>) checks an object with visitors that change nothing.\<close>

definition check_btf_type_id :: "btf \<Rightarrow> nat \<Rightarrow> unit res" where
  "check_btf_type_id btf type_id = (if type_id \<ge> btf__type_cnt btf then Inl (Err EINVAL) else Inr ())"

definition check_btf_str_off :: "btf \<Rightarrow> nat \<Rightarrow> unit res" where
  "check_btf_str_off btf str_off =
     bindr (btf__str_by_offset btf str_off) (\<lambda>s. if s = None then Inl (Err EINVAL) else Inr ())"

definition linker_sanity_check_btf :: "btf \<Rightarrow> unit res" where
  "linker_sanity_check_btf btf =
     (if btf = [] then Inr ()
      else check_all (btf__type_cnt btf - 1) (\<lambda>i.
        bindr (btf_type_by_id btf (i + 1)) (\<lambda>t.
          case t of
            Btf_Void \<Rightarrow> Inl (Err EINVAL)
          | Type_At types off \<Rightarrow>
              bindr (btf_type_visit_type_ids (checker (check_btf_type_id btf)) off (types, ())) (\<lambda>(types, _).
              bindr (btf_type_visit_str_offs (checker (check_btf_str_off btf)) off (types, ())) (\<lambda>_. Inr ())))))"

text \<open>The numbers and the string offsets of a type.\<close>

definition refs_of :: "u8 list \<Rightarrow> nat \<Rightarrow> nat list" where
  "refs_of types off =
     (case (btf_kind (Type_At types off), btf_vlen (Type_At types off)) of
        (Inr kind, Inr n) \<Rightarrow> (case type_id_places kind n off of None \<Rightarrow> [] | Some ps \<Rightarrow> map (word_at types) ps)
      | _ \<Rightarrow> [])"

definition names_of :: "u8 list \<Rightarrow> nat \<Rightarrow> nat list" where
  "names_of types off =
     (case (btf_kind (Type_At types off), btf_vlen (Type_At types off)) of
        (Inr kind, Inr n) \<Rightarrow> map (word_at types) (str_off_places kind n off)
      | _ \<Rightarrow> [])"

lemma check_one:
  assumes "tfits (Type_At types off)"
  shows "bindr (btf_type_visit_type_ids (checker f) off (types, ())) (\<lambda>(types, _).
      bindr (btf_type_visit_str_offs (checker g) off (types, ())) (\<lambda>_. Inr ())) =
    bindr (passes f (refs_of types off)) (\<lambda>_. passes g (names_of types off))"
proof -
  from tfits_at [OF assms] obtain kind n w ps where k: "btf_kind (Type_At types off) = Inr kind"
    "btf_vlen (Type_At types off) = Inr n" "rest_words kind n = Some w"
    "off + (12 + 4 * w) \<le> length types" "type_id_places kind n off = Some ps" by blast
  have u: "bindr r Inr = (r :: unit res)" for r by (cases r) auto
  show ?thesis
    using k
    by (simp add: visit_type_ids_visited [OF k] visit_str_offs_visited [OF k(1-4)] places_type [OF k(3,4)]
        visited_checker refs_of_def names_of_def bindr_assoc u)
qed

lemma type_by_id_at:
  "btf_ok btf \<Longrightarrow> 0 < type_id \<Longrightarrow> type_id < btf__type_cnt btf \<Longrightarrow>
   \<exists>types off. btf_type_by_id btf type_id = Inr (Type_At types off) \<and> tfits (Type_At types off)"
proof (induction btf type_id rule: btf_type_by_id.induct)
  case (2 l base type_id)
  show ?case
  proof (cases "type_id < btf_start_id l")
    case True
    with 2 show ?thesis by (cases base) (auto simp: layer_ok_def)
  next
    case False
    with type_by_id_ok [OF "2.prems"(1,3)] "2.prems"(2) show ?thesis by (auto simp: bindr_eq_Inr)
  qed
qed (simp add: btf__type_cnt_def)

lemma check_ids:
  "passes (check_btf_type_id btf) vs = Inr () \<longleftrightarrow> (\<forall>v \<in> set vs. v < btf__type_cnt btf)"
  "returns (\<lambda>_. True) (passes (check_btf_type_id btf) vs)"
  by (auto simp: passes_Inr check_btf_type_id_def not_le intro!: passes_returns split: if_splits)

lemma check_strs:
  assumes "btf_ok btf" "btf \<noteq> []"
  shows "passes (check_btf_str_off btf) vs = Inr () \<longleftrightarrow> (\<forall>v \<in> set vs. btf__str_by_offset btf v \<noteq> Inr None)"
    "returns (\<lambda>_. True) (passes (check_btf_str_off btf) vs)"
proof -
  have "check_btf_str_off btf v = Inr () \<longleftrightarrow> btf__str_by_offset btf v \<noteq> Inr None"
    "returns (\<lambda>_. True) (check_btf_str_off btf v)" for v
    using str_by_offset_cases [OF assms, of v] by (auto simp: check_btf_str_off_def)
  then show "passes (check_btf_str_off btf) vs = Inr () \<longleftrightarrow> (\<forall>v \<in> set vs. btf__str_by_offset btf v \<noteq> Inr None)"
    "returns (\<lambda>_. True) (passes (check_btf_str_off btf) vs)" by (auto simp: passes_Inr intro!: passes_returns)
qed

lemma check_all_returns: "(\<And>i. i < n \<Longrightarrow> returns (\<lambda>_. True) (f i)) \<Longrightarrow> returns (\<lambda>_. True) (check_all n f)"
  by (induction n) (auto intro!: returns_bind)

section \<open>Properties\<close>

text \<open>
  Property C26: visiting a type is exact.  For a type that fits into its section both visits are what
  the abstract view says: every type number (every string offset) of the type is read, the visitor
  runs over them in order, and the results are written back, each at its place.  Nothing else in the
  section changes, in particular the size of the type does not.
\<close>

theorem btf_type_visit_exact:
  assumes "tfits (Type_At types off)"
  shows "\<exists>kind n ids. btf_kind (Type_At types off) = Inr kind \<and> btf_vlen (Type_At types off) = Inr n \<and>
    type_id_places kind n off = Some ids \<and>
    btf_type_visit_type_ids visit off (types, c) = visited visit ids (types, c) \<and>
    btf_type_visit_str_offs visit off (types, c) = visited visit (str_off_places kind n off) (types, c) \<and>
    (\<forall>ps \<in> {ids, str_off_places kind n off}. \<forall>vs. length vs = length ps \<longrightarrow>
       (let types' = put_words (zip ps vs) types in
        length types' = length types \<and> btf_type_size (Type_At types' off) = btf_type_size (Type_At types off) \<and>
        (\<forall>j < length ps. word_at types' (ps ! j) = vs ! j mod 2 ^ 32) \<and>
        (\<forall>i < length types. (\<forall>p \<in> set ps. i < p \<or> p + 4 \<le> i) \<longrightarrow> types' ! i = types ! i)))"
proof -
  from tfits_at [OF assms] obtain kind n w ids where k: "btf_kind (Type_At types off) = Inr kind"
    "btf_vlen (Type_At types off) = Inr n" "rest_words kind n = Some w"
    "off + (12 + 4 * w) \<le> length types" "type_id_places kind n off = Some ids" by blast
  have "length types' = length types \<and> btf_type_size (Type_At types' off) = btf_type_size (Type_At types off) \<and>
      (\<forall>j < length ps. word_at types' (ps ! j) = vs ! j mod 2 ^ 32) \<and>
      (\<forall>i < length types. (\<forall>p \<in> set ps. i < p \<or> p + 4 \<le> i) \<longrightarrow> types' ! i = types ! i)"
    if ps: "ps \<in> {ids, str_off_places kind n off}" and vs: "length vs = length ps"
      and types': "types' = put_words (zip ps vs) types" for ps vs types'
  proof -
    have pl: "places types ps" using ps places_type [OF k(3,4)] k(5) by auto
    have away: "disj p (off + 4)" if "p \<in> set ps" for p
      using that ps type_id_places_in(2) [OF k(3,5)] str_off_places_in(2) [OF k(3)] by fastforce
    have len: "length types' = length types" using pl by (simp add: types' places_def)
    have "word_at types' (off + 4) = word_at types (off + 4)"
      using pl away unfolding types' by (intro word_at_put_words_other) (auto simp: places_def)
    then have "tword (Type_At types' off) 4 = tword (Type_At types off) 4"
      using k(4) len by (simp add: tword_def rd32_word)
    from btf_kind_cong [OF this] have "btf_type_size (Type_At types' off) = btf_type_size (Type_At types off)"
      by (simp add: btf_type_size_def)
    moreover have "types' ! i = types ! i" if "i < length types" "\<forall>p \<in> set ps. i < p \<or> p + 4 \<le> i" for i
      using that pl unfolding types' by (intro nth_put_words) (auto simp: places_def)
    ultimately show ?thesis using len word_at_put_words [OF pl vs] by (simp add: types')
  qed
  with k visit_type_ids_visited [OF k] visit_str_offs_visited [OF k(1-4)] show ?thesis by (auto simp: Let_def)
qed

text \<open>A pointer to type 5 with the name at 7; the visitor adds one and counts.\<close>

theorem btf_type_visit_exact_witness:
  "btf_type_visit_type_ids (\<lambda>v c. Inr (v + 1, c + 1)) 0 ([7, 0, 0, 0, 0, 0, 0, 2, 5, 0, 0, 0], 0 :: nat) =
     Inr ([7, 0, 0, 0, 0, 0, 0, 2, 6, 0, 0, 0], 1)"
proof -
  let ?t = "[7, 0, 0, 0, 0, 0, 0, 2, 5, 0, 0, 0] :: u8 list"
  have k: "btf_kind (Type_At ?t 0) = Inr BTF_KIND_PTR" "btf_vlen (Type_At ?t 0) = Inr 0"
    by (simp_all add: btf_kind_def btf_vlen_def tword_def rd_def btf_kind_of_def btf_kinds_def)
  then have "tfits (Type_At ?t 0)" by (simp add: btf_type_size_def)
  from btf_type_visit_exact [OF this, of "\<lambda>v c. Inr (v + 1, c + 1)" "0 :: nat"] k show ?thesis
    by (auto simp: type_id_places_def visited_def word_at_def put_bytes_def le_bytes_numeral)
qed

text \<open>
  The linker's check of an object returns on any parsed object without undefined
  behaviour, and accepts it exactly when every type number in its types is below the number of types
  and every string offset can be looked up.
\<close>

theorem linker_sanity_check_btf_exact:
  assumes "btf_ok btf"
  shows "returns (\<lambda>_. True) (linker_sanity_check_btf btf) \<and>
    (linker_sanity_check_btf btf = Inr () \<longleftrightarrow>
      (\<forall>type_id types off. 0 < type_id \<and> type_id < btf__type_cnt btf \<and>
           btf_type_by_id btf type_id = Inr (Type_At types off) \<longrightarrow>
         (\<forall>v \<in> set (refs_of types off). v < btf__type_cnt btf) \<and>
         (\<forall>v \<in> set (names_of types off). btf__str_by_offset btf v \<noteq> Inr None)))"
proof (cases "btf = []")
  case True
  then show ?thesis by (simp add: linker_sanity_check_btf_def btf__type_cnt_def)
next
  case False
  define f where "f i = bindr (btf_type_by_id btf (i + 1)) (\<lambda>t.
    case t of
      Btf_Void \<Rightarrow> Inl (Err EINVAL)
    | Type_At types off \<Rightarrow>
        bindr (btf_type_visit_type_ids (checker (check_btf_type_id btf)) off (types, ())) (\<lambda>(types, _).
        bindr (btf_type_visit_str_offs (checker (check_btf_str_off btf)) off (types, ())) (\<lambda>_. Inr ())))" for i
  have l: "linker_sanity_check_btf btf = check_all (btf__type_cnt btf - 1) f"
    using False by (simp add: linker_sanity_check_btf_def f_def [abs_def])
  have one: "\<exists>types off. btf_type_by_id btf type_id = Inr (Type_At types off) \<and>
      f (type_id - 1) = bindr (passes (check_btf_type_id btf) (refs_of types off)) (\<lambda>_.
        passes (check_btf_str_off btf) (names_of types off))" if "0 < type_id" "type_id < btf__type_cnt btf" for type_id
    using type_by_id_at [OF assms that] check_one that by (fastforce simp: f_def)
  have "returns (\<lambda>_. True) (f i)" if "i < btf__type_cnt btf - 1" for i
  proof -
    have "0 < i + 1" "i + 1 < btf__type_cnt btf" using that by auto
    from one [OF this] obtain types off where fi: "f i = bindr (passes (check_btf_type_id btf) (refs_of types off))
      (\<lambda>_. passes (check_btf_str_off btf) (names_of types off))" by auto
    show ?thesis unfolding fi by (rule returns_bind [OF check_ids(2) check_strs(2) [OF assms False]])
  qed
  then have "returns (\<lambda>_. True) (linker_sanity_check_btf btf)" unfolding l by (rule check_all_returns)
  moreover define good where "good type_id types off \<longleftrightarrow>
      (\<forall>v \<in> set (refs_of types off). v < btf__type_cnt btf) \<and>
      (\<forall>v \<in> set (names_of types off). btf__str_by_offset btf v \<noteq> Inr None)" for type_id :: nat and types off
  have f: "f (type_id - 1) = Inr () \<longleftrightarrow> (\<forall>types off. btf_type_by_id btf type_id = Inr (Type_At types off) \<longrightarrow>
      good type_id types off)" if "0 < type_id" "type_id < btf__type_cnt btf" for type_id
  proof -
    from one [OF that] obtain types off where t: "btf_type_by_id btf type_id = Inr (Type_At types off)"
      "f (type_id - 1) = bindr (passes (check_btf_type_id btf) (refs_of types off)) (\<lambda>_.
        passes (check_btf_str_off btf) (names_of types off))" by blast
    then show ?thesis by (simp add: bindr_eq_Inr check_ids(1) check_strs(1) [OF assms False] good_def)
  qed
  have "linker_sanity_check_btf btf = Inr () \<longleftrightarrow>
      (\<forall>type_id. 0 < type_id \<and> type_id < btf__type_cnt btf \<longrightarrow> f (type_id - 1) = Inr ())"
    unfolding l check_all_Inr by (metis Suc_pred' diff_Suc_1 less_diff_conv Suc_eq_plus1 zero_less_Suc)
  then have "linker_sanity_check_btf btf = Inr () \<longleftrightarrow>
      (\<forall>type_id types off. 0 < type_id \<and> type_id < btf__type_cnt btf \<and>
         btf_type_by_id btf type_id = Inr (Type_At types off) \<longrightarrow> good type_id types off)"
    using f by blast
  ultimately show ?thesis unfolding good_def by (rule conjI)
qed

text \<open>An object with the type \<open>typedef\<close> of number 2, which it does not have.\<close>

theorem linker_sanity_check_btf_exact_witness:
  "linker_sanity_check_btf [\<lparr>btf_types = [0, 0, 0, 0, 0, 0, 0, 8, 2, 0, 0, 0], btf_type_offs = [0], btf_start_id = 1,
     btf_start_str_off = 0, btf_strs = [0], btf_swapped_endian = False, btf_ptr_size = 0\<rparr>] \<noteq> Inr ()"
proof -
  let ?t = "[0, 0, 0, 0, 0, 0, 0, 8, 2, 0, 0, 0] :: u8 list"
  let ?b = "[\<lparr>btf_types = ?t, btf_type_offs = [0], btf_start_id = 1,
     btf_start_str_off = 0, btf_strs = [0], btf_swapped_endian = False, btf_ptr_size = 0\<rparr>] :: btf"
  have k: "btf_kind (Type_At ?t 0) = Inr BTF_KIND_TYPEDEF" "btf_vlen (Type_At ?t 0) = Inr 0"
    by (simp_all add: btf_kind_def btf_vlen_def tword_def rd_def btf_kind_of_def btf_kinds_def)
  then have "btf_ok ?b" by (simp add: layer_ok_def btf_type_size_def)
  note exact = conjunct2 [OF linker_sanity_check_btf_exact [OF this]]
  have "2 \<in> set (refs_of ?t 0)" using k by (simp add: refs_of_def type_id_places_def word_at_def)
  moreover have "btf_type_by_id ?b 1 = Inr (Type_At ?t 0)" "btf__type_cnt ?b = 2" by (simp_all add: btf__type_cnt_def)
  ultimately show ?thesis unfolding exact by (metis less_irrefl one_less_numeral_iff semiring_norm(76) zero_less_one)
qed

end
