(* ===== verification/Btf_Ext.thy ===== *)
theory Btf_Ext imports Btf_Visit begin

text \<open>
  The extension section \<open>.BTF.ext\<close> (\<open>bpf/libbpf/src/btf.c\<close>, \<open>libbpf_internal.h\<close>): records about functions,
  lines and relocations, grouped by the sections of an ELF object.

  A segment (\<open>struct btf_ext_info\<close>) names a stretch of the data by the offset of its first byte;
  \<open>info\<close> is 0 where the code has NULL, and then the length is 0.  Offsets and lengths are 32-bit
  numbers, added to pointers of 64 bits.  The product of the record size and the number of records is
  taken in 32 bits by the macros that walk over a segment.
\<close>

section \<open>Data\<close>

record btf_ext_info =
  ei_info :: nat
  ei_rec_size :: nat
  ei_len :: nat
  ei_sec_cnt :: nat

record btf_ext =
  ext_data :: "u8 list"
  ext_func_info :: btf_ext_info
  ext_line_info :: btf_ext_info
  ext_core_relo_info :: btf_ext_info

definition no_info :: btf_ext_info where
  "no_info = \<lparr>ei_info = 0, ei_rec_size = 0, ei_len = 0, ei_sec_cnt = 0\<rparr>"

section \<open>Parsing\<close>

text \<open>The loop of \<open>btf_ext_setup_info\<close>: the number of the sections of a segment.\<close>

function setup_loop :: "u8 list \<Rightarrow> nat \<Rightarrow> nat \<Rightarrow> nat \<Rightarrow> nat \<Rightarrow> nat res" where
  "setup_loop data record_size sinfo info_left sec_cnt =
     (if info_left = 0 then Inr sec_cnt
      else if info_left < 8 then Inl (Err EINVAL)
      else
        bindr (rd32 data (sinfo + 4)) (\<lambda>num_records.
        if num_records = 0 then Inl (Err EINVAL)
        else if info_left < 8 + num_records * record_size then Inl (Err EINVAL)
        else
          setup_loop data record_size (sinfo + (8 + num_records * record_size))
            (info_left - (8 + num_records * record_size)) (sec_cnt + 1)))"
  by pat_completeness auto
termination by (relation "measure (\<lambda>(data, record_size, sinfo, info_left, sec_cnt). info_left)") auto

declare setup_loop.simps [simp del]

definition btf_ext_setup_info :: "u8 list \<Rightarrow> nat \<Rightarrow> nat \<Rightarrow> nat \<Rightarrow> btf_ext_info \<Rightarrow> btf_ext_info res" where
  "btf_ext_setup_info data off len min_rec_size ext_info =
     (if len = 0 then Inr ext_info
      else if off mod 4 \<noteq> 0 then Inl (Err EINVAL)
      else
        bindr (rd32 data 4) (\<lambda>hdr_len.
          let info = hdr_len + off in
          if length data < info + len then Inl (Err EINVAL)
          else if len < 4 then Inl (Err EINVAL)
          else
            bindr (rd32 data info) (\<lambda>record_size.
            if record_size < min_rec_size \<or> record_size mod 4 \<noteq> 0 then Inl (Err EINVAL)
            else if len - 4 = 0 then Inl (Err EINVAL)
            else
              bindr (setup_loop data record_size (info + 4) (len - 4) 0) (\<lambda>sec_cnt.
                Inr \<lparr>ei_info = info + 4, ei_rec_size = record_size, ei_len = len - 4, ei_sec_cnt = sec_cnt\<rparr>))))"

definition setup_func_info :: "btf_ext \<Rightarrow> btf_ext res" where
  "setup_func_info ext =
     bindr (rd32 (ext_data ext) 8) (\<lambda>off.
     bindr (rd32 (ext_data ext) 12) (\<lambda>len.
     bindr (btf_ext_setup_info (ext_data ext) off len 8 (ext_func_info ext)) (\<lambda>seg.
       Inr (ext\<lparr>ext_func_info := seg\<rparr>))))"

definition setup_line_info :: "btf_ext \<Rightarrow> btf_ext res" where
  "setup_line_info ext =
     bindr (rd32 (ext_data ext) 16) (\<lambda>off.
     bindr (rd32 (ext_data ext) 20) (\<lambda>len.
     bindr (btf_ext_setup_info (ext_data ext) off len 16 (ext_line_info ext)) (\<lambda>seg.
       Inr (ext\<lparr>ext_line_info := seg\<rparr>))))"

definition setup_core_relos :: "btf_ext \<Rightarrow> btf_ext res" where
  "setup_core_relos ext =
     bindr (rd32 (ext_data ext) 24) (\<lambda>off.
     bindr (rd32 (ext_data ext) 28) (\<lambda>len.
     bindr (btf_ext_setup_info (ext_data ext) off len 16 (ext_core_relo_info ext)) (\<lambda>seg.
       Inr (ext\<lparr>ext_core_relo_info := seg\<rparr>))))"

definition btf_ext_parse_hdr :: "u8 list \<Rightarrow> unit res" where
  "btf_ext_parse_hdr data =
     (if length data < 8 then Inl (Err EINVAL)
      else
        bindr (rd32 data 4) (\<lambda>hdr_len.
        if length data < hdr_len then Inl (Err EINVAL)
        else
          bindr (rd16 data 0) (\<lambda>magic.
          if magic = 0x9FeB then Inl (Err ENOTSUP)
          else if magic \<noteq> BTF_MAGIC then Inl (Err EINVAL)
          else
            bindr (rd 1 data 2) (\<lambda>version.
            if version \<noteq> 1 then Inl (Err ENOTSUP)
            else
              bindr (rd 1 data 3) (\<lambda>flags.
              if flags \<noteq> 0 then Inl (Err ENOTSUP)
              else if length data = hdr_len then Inl (Err EINVAL)
              else Inr ())))))"

definition btf_ext__new :: "bool \<Rightarrow> bool \<Rightarrow> u8 list \<Rightarrow> btf_ext res" where
  "btf_ext__new calloc_ok malloc_ok data =
     (if \<not> calloc_ok then Inl (Err ENOMEM)
      else if \<not> malloc_ok then Inl (Err ENOMEM)
      else
        let ext = \<lparr>ext_data = data, ext_func_info = no_info, ext_line_info = no_info, ext_core_relo_info = no_info\<rparr> in
        bindr (btf_ext_parse_hdr data) (\<lambda>_.
        bindr (rd32 data 4) (\<lambda>hdr_len.
        if hdr_len < 24 then Inl (Err EINVAL)
        else
          bindr (setup_func_info ext) (\<lambda>ext.
          bindr (setup_line_info ext) (\<lambda>ext.
          if hdr_len < 32 then Inr ext else setup_core_relos ext)))))"

section \<open>Walking over a segment\<close>

text \<open>
  \<open>for_each_btf_ext_sec\<close> and \<open>for_each_btf_ext_rec\<close>: the bodies may change the data, and the number of
  records is read again in every round.
\<close>

function for_each_rec :: "nat \<Rightarrow> nat \<Rightarrow> (nat \<Rightarrow> u8 list \<times> 'c \<Rightarrow> (u8 list \<times> 'c) res) \<Rightarrow> nat \<Rightarrow> nat \<Rightarrow>
    u8 list \<times> 'c \<Rightarrow> (u8 list \<times> 'c) res" where
  "for_each_rec rec_size sec body i r st =
     bindr (rd32 (fst st) (sec + 4)) (\<lambda>num_info.
       if i < num_info
       then bindr (body r st) (\<lambda>st. for_each_rec rec_size sec body (i + 1) (r + rec_size) st)
       else Inr st)"
  by pat_completeness auto
termination by (relation "measure (\<lambda>(rec_size, sec, body, i, r, st). 2 ^ 32 - i)") (auto dest: rd32_bound)

function for_each_sec :: "btf_ext_info \<Rightarrow> (nat \<Rightarrow> u8 list \<times> 'c \<Rightarrow> (u8 list \<times> 'c) res) \<Rightarrow> nat \<Rightarrow>
    u8 list \<times> 'c \<Rightarrow> (u8 list \<times> 'c) res" where
  "for_each_sec seg body sec st =
     (if sec < ei_info seg + ei_len seg
      then
        bindr (body sec st) (\<lambda>st.
        bindr (rd32 (fst st) (sec + 4)) (\<lambda>num_info.
          for_each_sec seg body (sec + 8 + ei_rec_size seg * num_info mod 2 ^ 32) st))
      else Inr st)"
  by pat_completeness auto
termination by (relation "measure (\<lambda>(seg, body, sec, st). ei_info seg + ei_len seg - sec)") auto

declare for_each_rec.simps [simp del] for_each_sec.simps [simp del]

definition sec_each :: "btf_ext_info \<Rightarrow> nat \<Rightarrow> (nat \<Rightarrow> u8 list \<times> 'c \<Rightarrow> (u8 list \<times> 'c) res) \<Rightarrow>
    u8 list \<times> 'c \<Rightarrow> (u8 list \<times> 'c) res" where
  "sec_each seg sec body st = for_each_rec (ei_rec_size seg) sec body 0 (sec + 8) st"

section \<open>Visiting the references\<close>

definition btf_ext_visit_type_ids :: "'c visitor \<Rightarrow> btf_ext \<Rightarrow> 'c \<Rightarrow> (btf_ext \<times> 'c) res" where
  "btf_ext_visit_type_ids visit ext c =
     (let func = ext_func_info ext; core = ext_core_relo_info ext in
      bindr (for_each_sec func (\<lambda>sec. sec_each func sec (\<lambda>r. visit_at visit (r + 4)))
               (ei_info func) (ext_data ext, c)) (\<lambda>st.
      bindr (for_each_sec core (\<lambda>sec. sec_each core sec (\<lambda>r. visit_at visit (r + 4)))
               (ei_info core) st) (\<lambda>(data, c).
        Inr (ext\<lparr>ext_data := data\<rparr>, c))))"

definition btf_ext_visit_str_offs :: "'c visitor \<Rightarrow> btf_ext \<Rightarrow> 'c \<Rightarrow> (btf_ext \<times> 'c) res" where
  "btf_ext_visit_str_offs visit ext c =
     (let func = ext_func_info ext; line = ext_line_info ext; core = ext_core_relo_info ext in
      bindr (for_each_sec func (visit_at visit) (ei_info func) (ext_data ext, c)) (\<lambda>st.
      bindr (for_each_sec line (\<lambda>sec st.
               bindr (visit_at visit sec st) (\<lambda>st.
                 sec_each line sec (\<lambda>r st. bindr (visit_at visit (r + 4) st) (visit_at visit (r + 8))) st))
               (ei_info line) st) (\<lambda>st.
      bindr (for_each_sec core (\<lambda>sec st.
               bindr (visit_at visit sec st) (\<lambda>st.
                 sec_each core sec (\<lambda>r. visit_at visit (r + 8)) st))
               (ei_info core) st) (\<lambda>(data, c).
        Inr (ext\<lparr>ext_data := data\<rparr>, c)))))"

section \<open>Well-formed segments\<close>

text \<open>The sections of a segment, one behind the other from \<open>a\<close> to \<open>b\<close>, with their numbers of records.\<close>

fun sec_tiles :: "u8 list \<Rightarrow> nat \<Rightarrow> nat \<Rightarrow> nat \<Rightarrow> (nat \<times> nat) list \<Rightarrow> bool" where
  "sec_tiles data rs a b [] \<longleftrightarrow> a = b"
| "sec_tiles data rs a b ((sec, n) # secs) \<longleftrightarrow>
     sec = a \<and> rd32 data (sec + 4) = Inr n \<and> 0 < n \<and> a + 8 + n * rs \<le> b \<and> sec_tiles data rs (a + 8 + n * rs) b secs"

lemma sec_tiles_le: "sec_tiles data rs a b secs \<Longrightarrow> a \<le> b"
  by (induction secs arbitrary: a) force+

lemma setup_loop_spec:
  assumes "sinfo + left \<le> length data"
  shows "returns (\<lambda>cnt'. \<exists>secs. sec_tiles data rs sinfo (sinfo + left) secs \<and> cnt' = cnt + length secs)
    (setup_loop data rs sinfo left cnt)"
  using assms
proof (induction data rs sinfo left cnt rule: setup_loop.induct)
  case (1 data rs sinfo left cnt)
  show ?case
  proof (cases "left < 8")
    case True
    then show ?thesis by (cases "left = 0") (auto simp: setup_loop.simps intro!: exI [of _ "[]"])
  next
    case False
    then obtain n where n: "rd32 data (sinfo + 4) = Inr n" using "1.prems" by (simp add: rd_def)
    show ?thesis
    proof (cases "n = 0 \<or> left < 8 + n * rs")
      case True
      with False n show ?thesis by (subst setup_loop.simps) auto
    next
      case fits: False
      have eq: "setup_loop data rs sinfo left cnt =
        setup_loop data rs (sinfo + (8 + n * rs)) (left - (8 + n * rs)) (cnt + 1)"
        using False n fits by (subst setup_loop.simps) simp
      have end_eq: "sinfo + (8 + n * rs) + (left - (8 + n * rs)) = sinfo + left" using fits by simp
      have "returns (\<lambda>cnt'. \<exists>secs. sec_tiles data rs (sinfo + (8 + n * rs)) (sinfo + left) secs \<and>
          cnt' = cnt + 1 + length secs)
        (setup_loop data rs (sinfo + (8 + n * rs)) (left - (8 + n * rs)) (cnt + 1))"
        using "1.IH" [OF _ False n] False fits "1.prems" end_eq by simp
      then show ?thesis
        unfolding eq
      proof (rule returns_mono, elim exE conjE)
        fix cnt' secs
        assume "sec_tiles data rs (sinfo + (8 + n * rs)) (sinfo + left) secs" "cnt' = cnt + 1 + length secs"
        with n fits show "\<exists>secs. sec_tiles data rs sinfo (sinfo + left) secs \<and> cnt' = cnt + length secs"
          by (intro exI [of _ "(sinfo, n) # secs"]) (simp add: add.assoc)
      qed
    qed
  qed
qed

definition seg_ok :: "u8 list \<Rightarrow> nat \<Rightarrow> btf_ext_info \<Rightarrow> bool" where
  "seg_ok data min_rec_size seg \<longleftrightarrow>
     seg = no_info \<or>
     (28 \<le> ei_info seg \<and> ei_info seg + ei_len seg \<le> length data \<and> ei_len seg < 2 ^ 32 \<and>
      min_rec_size \<le> ei_rec_size seg \<and> ei_rec_size seg mod 4 = 0 \<and>
      (\<exists>secs. sec_tiles data (ei_rec_size seg) (ei_info seg) (ei_info seg + ei_len seg) secs \<and>
         ei_sec_cnt seg = length secs \<and> secs \<noteq> []))"

definition ext_ok :: "btf_ext \<Rightarrow> bool" where
  "ext_ok ext \<longleftrightarrow> seg_ok (ext_data ext) 8 (ext_func_info ext) \<and> seg_ok (ext_data ext) 16 (ext_line_info ext) \<and>
     seg_ok (ext_data ext) 16 (ext_core_relo_info ext)"

lemma setup_info_spec:
  assumes "rd32 data 4 = Inr h" "24 \<le> h" "len < 2 ^ 32"
  shows "returns (seg_ok data mn) (btf_ext_setup_info data off len mn no_info)"
proof (cases "len = 0 \<or> off mod 4 \<noteq> 0 \<or> length data < h + off + len \<or> len < 4")
  case True
  then show ?thesis by (auto simp: btf_ext_setup_info_def assms(1) seg_ok_def Let_def)
next
  case False
  then obtain rs where rs: "rd32 data (h + off) = Inr rs" by (simp add: rd_def)
  show ?thesis
  proof (cases "rs < mn \<or> rs mod 4 \<noteq> 0 \<or> len - 4 = 0")
    case True
    with False rs show ?thesis by (auto simp: btf_ext_setup_info_def assms(1) Let_def)
  next
    case ok: False
    have eq: "btf_ext_setup_info data off len mn no_info =
      bindr (setup_loop data rs (h + off + 4) (len - 4) 0) (\<lambda>sec_cnt.
        Inr \<lparr>ei_info = h + off + 4, ei_rec_size = rs, ei_len = len - 4, ei_sec_cnt = sec_cnt\<rparr>)"
      using False ok rs by (auto simp: btf_ext_setup_info_def assms(1) Let_def)
    have "returns (\<lambda>cnt. \<exists>secs. sec_tiles data rs (h + off + 4) (h + off + 4 + (len - 4)) secs \<and> cnt = 0 + length secs)
      (setup_loop data rs (h + off + 4) (len - 4) 0)"
      using False by (intro setup_loop_spec) simp
    then show ?thesis
      unfolding eq
    proof (rule returns_bind, elim exE conjE)
      fix cnt secs assume "sec_tiles data rs (h + off + 4) (h + off + 4 + (len - 4)) secs" "cnt = 0 + length secs"
      moreover from this ok have "secs \<noteq> []" by (cases secs) auto
      ultimately show "returns (seg_ok data mn)
          (Inr \<lparr>ei_info = h + off + 4, ei_rec_size = rs, ei_len = len - 4, ei_sec_cnt = cnt\<rparr>)"
        using False ok assms(2,3) by (auto simp: seg_ok_def)
    qed
  qed
qed

lemma parse_ext_hdr_spec:
  "returns (\<lambda>_. \<exists>h. rd32 data 4 = Inr h \<and> h < length data) (btf_ext_parse_hdr data)"
proof (cases "length data < 8")
  case False
  then obtain h m v f where "rd32 data 4 = Inr h" "rd16 data 0 = Inr m" "rd 1 data 2 = Inr v" "rd 1 data 3 = Inr f"
    by (simp add: rd_def)
  then show ?thesis by (auto simp: btf_ext_parse_hdr_def)
qed (simp add: btf_ext_parse_hdr_def)

lemma setup_segs:
  assumes "rd32 (ext_data ext) 4 = Inr h" "24 \<le> h" "h < length (ext_data ext)"
  shows "ext_func_info ext = no_info \<Longrightarrow>
      returns (\<lambda>ext'. \<exists>seg. seg_ok (ext_data ext) 8 seg \<and> ext' = ext\<lparr>ext_func_info := seg\<rparr>) (setup_func_info ext)"
    "ext_line_info ext = no_info \<Longrightarrow>
      returns (\<lambda>ext'. \<exists>seg. seg_ok (ext_data ext) 16 seg \<and> ext' = ext\<lparr>ext_line_info := seg\<rparr>) (setup_line_info ext)"
    "ext_core_relo_info ext = no_info \<Longrightarrow> 32 \<le> h \<Longrightarrow>
      returns (\<lambda>ext'. \<exists>seg. seg_ok (ext_data ext) 16 seg \<and> ext' = ext\<lparr>ext_core_relo_info := seg\<rparr>) (setup_core_relos ext)"
proof -
  have rd: "\<exists>x. rd32 (ext_data ext) k = Inr x \<and> x < 2 ^ 32" if "k + 4 \<le> h" for k
    using that assms(3) rd32_bound [of "ext_data ext" k] by (simp add: rd_def)
  note spec = returns_bind [OF setup_info_spec [OF assms(1,2)]]
  show "ext_func_info ext = no_info \<Longrightarrow>
      returns (\<lambda>ext'. \<exists>seg. seg_ok (ext_data ext) 8 seg \<and> ext' = ext\<lparr>ext_func_info := seg\<rparr>) (setup_func_info ext)"
    using rd [of 8] rd [of 12] assms(2) by (auto simp: setup_func_info_def intro!: spec) blast
  show "ext_line_info ext = no_info \<Longrightarrow>
      returns (\<lambda>ext'. \<exists>seg. seg_ok (ext_data ext) 16 seg \<and> ext' = ext\<lparr>ext_line_info := seg\<rparr>) (setup_line_info ext)"
    using rd [of 16] rd [of 20] assms(2) by (auto simp: setup_line_info_def intro!: spec) blast
  show "ext_core_relo_info ext = no_info \<Longrightarrow> 32 \<le> h \<Longrightarrow>
      returns (\<lambda>ext'. \<exists>seg. seg_ok (ext_data ext) 16 seg \<and> ext' = ext\<lparr>ext_core_relo_info := seg\<rparr>) (setup_core_relos ext)"
    using rd [of 24] rd [of 28] by (auto simp: setup_core_relos_def intro!: spec) blast
qed

lemma ext_new_ok:
  "returns (\<lambda>ext. ext_ok ext \<and> ext_data ext = data) (btf_ext__new c m data)"
proof (cases "c \<and> m")
  case True
  define ext0 where "ext0 = \<lparr>ext_data = data, ext_func_info = no_info, ext_line_info = no_info, ext_core_relo_info = no_info\<rparr>"
  have new: "btf_ext__new c m data = bindr (btf_ext_parse_hdr data) (\<lambda>_. bindr (rd32 data 4) (\<lambda>hdr_len.
      if hdr_len < 24 then Inl (Err EINVAL)
      else bindr (setup_func_info ext0) (\<lambda>ext. bindr (setup_line_info ext) (\<lambda>ext.
        if hdr_len < 32 then Inr ext else setup_core_relos ext))))"
    using True by (simp add: btf_ext__new_def flip: ext0_def)
  show ?thesis
    unfolding new
  proof (rule returns_bind [OF parse_ext_hdr_spec], elim exE conjE)
    fix h assume h: "rd32 data 4 = Inr h" "h < length data"
    have e0: "ext_data ext0 = data" "ext_func_info ext0 = no_info" "ext_line_info ext0 = no_info"
      "ext_core_relo_info ext0 = no_info" by (simp_all add: ext0_def)
    have nk: "seg_ok data k no_info" for k by (simp add: seg_ok_def)
    show "returns (\<lambda>ext. ext_ok ext \<and> ext_data ext = data) (bindr (rd32 data 4) (\<lambda>hdr_len.
      if hdr_len < 24 then Inl (Err EINVAL)
      else bindr (setup_func_info ext0) (\<lambda>ext. bindr (setup_line_info ext) (\<lambda>ext.
        if hdr_len < 32 then Inr ext else setup_core_relos ext))))"
    proof (cases "h < 24")
      case False
      then have h24: "24 \<le> h" by simp
      define Q where "Q f l ext \<longleftrightarrow> ext_data ext = data \<and> (if f then seg_ok data 8 (ext_func_info ext) else ext_func_info ext = no_info) \<and>
        (if l then seg_ok data 16 (ext_line_info ext) else ext_line_info ext = no_info) \<and> ext_core_relo_info ext = no_info" for f l and ext :: btf_ext
      have q1: "returns (Q True False) (setup_func_info ext0)"
        using e0 h h24 by (intro returns_mono [OF setup_segs(1) [of ext0 h]]) (auto simp: Q_def)
      have q2: "returns (Q True True) (setup_line_info ext)" if "Q True False ext" for ext
        using that h h24 by (intro returns_mono [OF setup_segs(2) [of ext h]]) (auto simp: Q_def)
      have q3: "returns (\<lambda>ext. ext_ok ext \<and> ext_data ext = data) (if h < 32 then Inr ext else setup_core_relos ext)"
        if q: "Q True True ext" for ext
      proof (cases "h < 32")
        case False
        with q h h24 show ?thesis
          by (simp, intro returns_mono [OF setup_segs(3) [of ext h]]) (auto simp: Q_def ext_ok_def)
      qed (use q nk in \<open>auto simp: Q_def ext_ok_def\<close>)
      have "returns (\<lambda>ext. ext_ok ext \<and> ext_data ext = data) (bindr (setup_func_info ext0) (\<lambda>ext.
          bindr (setup_line_info ext) (\<lambda>ext. if h < 32 then Inr ext else setup_core_relos ext)))"
        by (rule returns_bind [OF q1], rule returns_bind [OF q2], assumption, rule q3)
      then show ?thesis using False by (simp add: h(1))
    qed (simp add: h(1))
  qed
qed (auto simp: btf_ext__new_def)

section \<open>Walking over a well-formed segment\<close>

text \<open>
  The walk over the records of a section, and over the sections: when the bodies keep a predicate on
  the state under which the header of the section is as it was, the walk keeps it.
\<close>

lemma for_each_rec_keeps:
  assumes hdr: "\<And>st. P st \<Longrightarrow> rd32 (fst st) (sec + 4) = Inr n"
    and body: "\<And>st j. P st \<Longrightarrow> j < n \<Longrightarrow> returns P (body (sec + 8 + j * rs) st)"
    and st: "P st" "i \<le> n"
  shows "returns P (for_each_rec rs sec body i (sec + 8 + i * rs) st)"
  using st
proof (induction "n - i" arbitrary: i st)
  case 0
  then show ?case by (subst for_each_rec.simps) (simp add: hdr)
next
  case (Suc k)
  then have i: "i < n" "k = n - Suc i" by auto
  have "returns P (bindr (body (sec + 8 + i * rs) st) (\<lambda>st. for_each_rec rs sec body (i + 1) (sec + 8 + i * rs + rs) st))"
  proof (rule returns_bind [OF body [OF Suc.prems(1) i(1)]])
    fix st' assume "P st'"
    from Suc.hyps(1) [OF i(2) this] i(1) show "returns P (for_each_rec rs sec body (i + 1) (sec + 8 + i * rs + rs) st')"
      by (simp add: add_ac)
  qed
  then show ?case by (subst for_each_rec.simps) (simp add: hdr [OF Suc.prems(1)] i(1))
qed

lemma no_wrap:
  fixes n rs :: nat
  assumes "a + 8 + n * rs \<le> b" "b < a + 2 ^ 32"
  shows "a + 8 + rs * n mod 2 ^ 32 = a + 8 + n * rs"
proof -
  have "n * rs < 2 ^ 32" using assms by linarith
  then show ?thesis by (simp add: mult.commute)
qed

lemma for_each_sec_keeps:
  assumes seg: "sec_tiles data (ei_rec_size seg) a (ei_info seg + ei_len seg) secs"
    "ei_info seg + ei_len seg < a + 2 ^ 32"
    and hdr: "\<And>st sec n. P st \<Longrightarrow> (sec, n) \<in> set secs \<Longrightarrow> rd32 (fst st) (sec + 4) = Inr n"
    and body: "\<And>st sec n. P st \<Longrightarrow> (sec, n) \<in> set secs \<Longrightarrow> returns P (body sec st)"
    and st: "P st"
  shows "returns P (for_each_sec seg body a st)"
  using seg hdr body st
proof (induction secs arbitrary: a st)
  case Nil
  then show ?case by (subst for_each_sec.simps) simp
next
  case (Cons s secs)
  obtain sec n where s: "s = (sec, n)" by fastforce
  let ?b = "ei_info seg + ei_len seg" and ?rs = "ei_rec_size seg"
  from Cons.prems(1) have t: "sec = a" "a + 8 + n * ?rs \<le> ?b" "sec_tiles data ?rs (a + 8 + n * ?rs) ?b secs"
    by (simp_all add: s)
  have "returns P (bindr (body a st) (\<lambda>st. bindr (rd32 (fst st) (a + 4)) (\<lambda>n.
      for_each_sec seg body (a + 8 + ?rs * n mod 2 ^ 32) st)))"
  proof (rule returns_bind)
    show "returns P (body a st)" using Cons.prems(4) [OF Cons.prems(5), of sec n] t(1) by (simp add: s)
    fix st' assume st': "P st'"
    have h: "rd32 (fst st') (a + 4) = Inr n" using Cons.prems(3) [OF st', of sec n] t(1) by (simp add: s)
    have "returns P (for_each_sec seg body (a + 8 + n * ?rs) st')"
      using t(3) Cons.prems(2) by (intro Cons.IH st' Cons.prems(3,4)) auto
    then show "returns P (bindr (rd32 (fst st') (a + 4)) (\<lambda>n. for_each_sec seg body (a + 8 + ?rs * n mod 2 ^ 32) st'))"
      by (simp add: h no_wrap [OF t(2) Cons.prems(2), simplified])
  qed
  then show ?case using t(2) by (subst for_each_sec.simps) simp
qed

text \<open>A walk whose bodies change nothing and collect what they see.\<close>

lemma for_each_rec_collect:
  assumes "rd32 data (sec + 4) = Inr n" "i \<le> n"
  shows "for_each_rec rs sec (\<lambda>r (data, acc). Inr (data, f r acc)) i (sec + 8 + i * rs) (data, acc) =
    Inr (data, fold f (map (\<lambda>j. sec + 8 + j * rs) [i..<n]) acc)"
  using assms(2)
proof (induction "n - i" arbitrary: i acc)
  case 0
  then show ?case by (subst for_each_rec.simps) (simp add: assms(1))
next
  case (Suc k)
  then have i: "i < n" "k = n - Suc i" by auto
  from Suc.hyps(1) [OF i(2), of "f (sec + 8 + i * rs) acc"] i show ?case
    by (subst for_each_rec.simps) (simp add: assms(1) upt_conv_Cons add.assoc add.commute)
qed

lemma for_each_sec_collect:
  assumes seg: "sec_tiles data (ei_rec_size seg) a (ei_info seg + ei_len seg) secs"
    "ei_info seg + ei_len seg < a + 2 ^ 32"
    and body: "\<And>sec n acc. (sec, n) \<in> set secs \<Longrightarrow> body sec (data, acc) = Inr (data, f (sec, n) acc)"
  shows "for_each_sec seg body a (data, acc) = Inr (data, fold f secs acc)"
  using seg body
proof (induction secs arbitrary: a acc)
  case Nil
  then show ?case by (subst for_each_sec.simps) simp
next
  case (Cons s secs)
  obtain sec n where s: "s = (sec, n)" by fastforce
  let ?b = "ei_info seg + ei_len seg" and ?rs = "ei_rec_size seg"
  from Cons.prems(1) have t: "sec = a" "rd32 data (a + 4) = Inr n" "a + 8 + n * ?rs \<le> ?b"
    "sec_tiles data ?rs (a + 8 + n * ?rs) ?b secs" by (auto simp: s)
  have "for_each_sec seg body (a + 8 + n * ?rs) (data, f s acc) = Inr (data, fold f secs (f s acc))"
    using t(4) Cons.prems(2) by (intro Cons.IH Cons.prems(3)) auto
  moreover have "body a (data, acc) = Inr (data, f s acc)"
    using Cons.prems(3) [of sec n acc] t(1) by (simp add: s)
  ultimately show ?case
    using t(2,3) by (subst for_each_sec.simps) (simp add: no_wrap [OF t(3) Cons.prems(2), simplified])
qed

text \<open>A walk that leaves the data alone runs its body over the list of the sections, or of the records.\<close>

fun run_all :: "('a \<Rightarrow> 's \<Rightarrow> 's res) \<Rightarrow> 'a list \<Rightarrow> 's \<Rightarrow> 's res" where
  "run_all f [] s = Inr s"
| "run_all f (x # xs) s = bindr (f x s) (run_all f xs)"

lemma run_all_cong: "(\<And>x s. x \<in> set xs \<Longrightarrow> f x s = g x s) \<Longrightarrow> run_all f xs s = run_all g xs s"
proof (induction xs arbitrary: s)
  case (Cons x xs)
  then show ?case by (cases "g x s") auto
qed simp

lemma for_each_rec_run:
  assumes "rd32 data (sec + 4) = Inr n" "i \<le> n"
    and body: "\<And>r c. body r (data, c) = bindr (f r c) (\<lambda>c. Inr (data, c))"
  shows "for_each_rec rs sec body i (sec + 8 + i * rs) (data, c) =
    bindr (run_all f (map (\<lambda>j. sec + 8 + j * rs) [i..<n]) c) (\<lambda>c. Inr (data, c))"
  using assms(2)
proof (induction "n - i" arbitrary: i c)
  case 0
  then show ?case by (subst for_each_rec.simps) (simp add: assms(1))
next
  case (Suc k)
  then have i: "i < n" "k = n - Suc i" by auto
  have "for_each_rec rs sec body (i + 1) (sec + 8 + i * rs + rs) (data, c) =
      bindr (run_all f (map (\<lambda>j. sec + 8 + j * rs) [Suc i..<n]) c) (\<lambda>c. Inr (data, c))" for c
    using Suc.hyps(1) [OF i(2), of c] i(1) by (simp add: add_ac)
  then show ?case
    using i(1) by (subst for_each_rec.simps)
      (cases "f (sec + 8 + i * rs) c"; simp add: assms(1) body upt_conv_Cons)
qed

lemma for_each_sec_run:
  assumes seg: "sec_tiles data (ei_rec_size seg) a (ei_info seg + ei_len seg) secs"
    "ei_info seg + ei_len seg < a + 2 ^ 32"
    and body: "\<And>sec n c. (sec, n) \<in> set secs \<Longrightarrow> body sec (data, c) = bindr (f (sec, n) c) (\<lambda>c. Inr (data, c))"
  shows "for_each_sec seg body a (data, c) = bindr (run_all f secs c) (\<lambda>c. Inr (data, c))"
  using seg body
proof (induction secs arbitrary: a c)
  case Nil
  then show ?case by (subst for_each_sec.simps) simp
next
  case (Cons s secs)
  obtain sec n where s: "s = (sec, n)" by fastforce
  let ?b = "ei_info seg + ei_len seg" and ?rs = "ei_rec_size seg"
  from Cons.prems(1) have t: "sec = a" "rd32 data (a + 4) = Inr n" "a + 8 + n * ?rs \<le> ?b"
    "sec_tiles data ?rs (a + 8 + n * ?rs) ?b secs" by (auto simp: s)
  have "for_each_sec seg body (a + 8 + n * ?rs) (data, c) = bindr (run_all f secs c) (\<lambda>c. Inr (data, c))" for c
    using t(4) Cons.prems(2) by (intro Cons.IH Cons.prems(3)) auto
  moreover have "body a (data, c) = bindr (f s c) (\<lambda>c. Inr (data, c))"
    using Cons.prems(3) [of sec n c] t(1) by (simp add: s)
  ultimately show ?case
    using t(2,3) by (subst for_each_sec.simps)
      (cases "f s c"; simp add: no_wrap [OF t(3) Cons.prems(2), simplified])
qed

lemma sec_tiles_mem:
  assumes "sec_tiles data rs a b secs" "(sec, n) \<in> set secs"
  shows "a \<le> sec \<and> sec + 8 + n * rs \<le> b \<and> 0 < n \<and> rd32 data (sec + 4) = Inr n"
  using assms
proof (induction secs arbitrary: a)
  case (Cons s secs)
  then show ?case
    using sec_tiles_le [of data rs "a + 8 + snd s * rs" b secs] by (cases s) (fastforce split: prod.splits)
qed simp

text \<open>The sections of a segment with the places of their records, as the macros visit them.\<close>

definition ext_walk :: "u8 list \<Rightarrow> btf_ext_info \<Rightarrow> (nat \<times> nat list) list res" where
  "ext_walk data seg =
     bindr (for_each_sec seg
       (\<lambda>sec (data, secs).
          bindr (sec_each seg sec (\<lambda>r (data, rs). Inr (data, rs @ [r])) (data, [])) (\<lambda>(data, rs).
            Inr (data, secs @ [(sec, rs)])))
       (ei_info seg) (data, [])) (\<lambda>(_, secs). Inr secs)"

definition recs_of :: "nat \<Rightarrow> nat \<times> nat \<Rightarrow> nat list" where
  "recs_of rs = (\<lambda>(sec, n). map (\<lambda>j. sec + 8 + j * rs) [0..<n])"

lemma fold_snoc: "fold (\<lambda>x acc. acc @ [g x]) xs acc = acc @ map g xs"
  by (induction xs arbitrary: acc) auto

lemma sec_each_collect:
  assumes "rd32 data (sec + 4) = Inr n"
  shows "sec_each seg sec (\<lambda>r (data, acc). Inr (data, f r acc)) (data, acc) =
    Inr (data, fold f (recs_of (ei_rec_size seg) (sec, n)) acc)"
  using for_each_rec_collect [OF assms, of 0 "ei_rec_size seg" f acc] by (simp add: sec_each_def recs_of_def)

lemma ext_walk_secs:
  assumes "sec_tiles data (ei_rec_size seg) (ei_info seg) (ei_info seg + ei_len seg) secs" "ei_len seg < 2 ^ 32"
  shows "ext_walk data seg = Inr (map (\<lambda>s. (fst s, recs_of (ei_rec_size seg) s)) secs)"
proof -
  let ?f = "\<lambda>s acc. acc @ [(fst s, recs_of (ei_rec_size seg) s)]"
  have "for_each_sec seg
       (\<lambda>sec (data, secs).
          bindr (sec_each seg sec (\<lambda>r (data, rs). Inr (data, rs @ [r])) (data, [])) (\<lambda>(data, rs).
            Inr (data, secs @ [(sec, rs)])))
       (ei_info seg) (data, []) = Inr (data, fold ?f secs [])"
  proof (rule for_each_sec_collect [OF assms(1), where f = ?f])
    show "ei_info seg + ei_len seg < ei_info seg + 2 ^ 32" using assms(2) by simp
    fix sec n acc assume "(sec, n) \<in> set secs"
    then have "rd32 data (sec + 4) = Inr n" using sec_tiles_mem [OF assms(1)] by blast
    then show "(\<lambda>(data, secs).
        bindr (sec_each seg sec (\<lambda>r (data, rs). Inr (data, rs @ [r])) (data, [])) (\<lambda>(data, rs).
          Inr (data, secs @ [(sec, rs)]))) (data, acc) = Inr (data, ?f (sec, n) acc)"
      by (simp add: sec_each_collect [where f = "\<lambda>r rs. rs @ [r]"] fold_snoc [where g = "\<lambda>x. x", simplified])
  qed
  then show ?thesis by (simp add: ext_walk_def fold_snoc)
qed

lemma recs_of_in:
  assumes "r \<in> set (recs_of rs (sec, n))"
  shows "sec + 8 \<le> r \<and> r + rs \<le> sec + 8 + n * rs"
proof -
  from assms obtain j where j: "j < n" "r = sec + 8 + j * rs" by (auto simp: recs_of_def)
  have "Suc j * rs \<le> n * rs" using j(1) by (intro mult_le_mono1) simp
  with j show ?thesis by simp
qed

definition ext_segs :: "btf_ext \<Rightarrow> (btf_ext_info \<times> nat) set" where
  "ext_segs ext = {(ext_func_info ext, 8), (ext_line_info ext, 16), (ext_core_relo_info ext, 16)}"

lemma seg_okD:
  assumes "seg_ok data mn seg"
  shows "\<exists>secs. sec_tiles data (ei_rec_size seg) (ei_info seg) (ei_info seg + ei_len seg) secs \<and>
    ei_sec_cnt seg = length secs \<and> ei_len seg < 2 ^ 32 \<and> ei_info seg + ei_len seg \<le> length data \<and>
    (secs \<noteq> [] \<longrightarrow> mn \<le> ei_rec_size seg \<and> 28 \<le> ei_info seg)"
proof (cases "seg = no_info")
  case True
  then show ?thesis by (auto simp: no_info_def intro!: exI [of _ "[]"])
next
  case False
  with assms show ?thesis by (auto simp: seg_ok_def)
qed

section \<open>Visits of a segment\<close>

text \<open>The places that a visit sees in a section: the name, if asked for, and the words \<open>ks\<close> of every record.\<close>

definition sec_places :: "bool \<Rightarrow> nat list \<Rightarrow> nat \<Rightarrow> nat \<times> nat \<Rightarrow> nat list" where
  "sec_places name ks rs s =
     (if name then [fst s] else []) @ concat (map (\<lambda>r. map (\<lambda>k. r + k) ks) (recs_of rs s))"

definition seg_places :: "bool \<Rightarrow> nat list \<Rightarrow> nat \<Rightarrow> (nat \<times> nat) list \<Rightarrow> nat list" where
  "seg_places name ks rs secs = concat (map (sec_places name ks rs) secs)"

definition hdrs :: "(nat \<times> nat) list \<Rightarrow> nat set" where
  "hdrs secs = (\<lambda>s. fst s + 4) ` set secs"

definition words_fit :: "nat list \<Rightarrow> nat \<Rightarrow> bool" where
  "words_fit ks rs \<longleftrightarrow> sorted_wrt (\<lambda>p q. p + 4 \<le> q) ks \<and> (\<forall>k \<in> set ks. k + 4 \<le> rs)"

lemma rec_places_sorted:
  assumes "words_fit ks rs"
  shows "sorted_wrt (\<lambda>p q. p + 4 \<le> q) (concat (map (\<lambda>r. map (\<lambda>k. r + k) ks) (recs_of rs (sec, n))))"
    "p \<in> set (concat (map (\<lambda>r. map (\<lambda>k. r + k) ks) (recs_of rs (sec, n)))) \<Longrightarrow> sec + 8 \<le> p \<and> p + 4 \<le> sec + 8 + n * rs"
proof (induction n arbitrary: p)
  case (Suc n)
  have eq: "concat (map (\<lambda>r. map (\<lambda>k. r + k) ks) (recs_of rs (sec, Suc n))) =
    concat (map (\<lambda>r. map (\<lambda>k. r + k) ks) (recs_of rs (sec, n))) @ map (\<lambda>k. sec + 8 + n * rs + k) ks"
    by (simp add: recs_of_def)
  have k: "k + 4 \<le> rs" if "k \<in> set ks" for k using assms that by (simp add: words_fit_def)
  {
    case 1
    have "sorted_wrt (\<lambda>p q. p + 4 \<le> q) (map (\<lambda>k. sec + 8 + n * rs + k) ks)"
      using assms by (auto simp: words_fit_def sorted_wrt_map elim!: sorted_wrt_mono_rel [rotated])
    then show ?case unfolding eq using Suc by (fastforce simp: sorted_wrt_append)
  next
    case 2
    then show ?case unfolding eq using Suc.IH(2) k by fastforce
  }
qed (auto simp: recs_of_def)

lemma seg_places_facts:
  assumes "sec_tiles data rs a b secs" "words_fit ks rs"
  shows "sorted_wrt disj (seg_places name ks rs secs) \<and>
    (\<forall>p \<in> set (seg_places name ks rs secs). a \<le> p \<and> p + 4 \<le> b \<and> (\<forall>q \<in> hdrs secs. disj p q)) \<and>
    (\<forall>q \<in> hdrs secs. a + 4 \<le> q \<and> q + 4 \<le> b)"
  using assms(1)
proof (induction secs arbitrary: a)
  case (Cons s secs)
  obtain sec n where s: "s = (sec, n)" by fastforce
  from Cons.prems have t: "sec = a" "a + 8 + n * rs \<le> b" "sec_tiles data rs (a + 8 + n * rs) b secs" by (simp_all add: s)
  note ih = Cons.IH [OF t(3)]
  have "sorted_wrt (\<lambda>p q. p + 4 \<le> q) (sec_places name ks rs s)"
    using rec_places_sorted [OF assms(2), where sec = a and n = n] by (fastforce simp: sec_places_def s t(1))
  then have sorted: "sorted_wrt disj (sec_places name ks rs s)" by (rule sorted_wrt_mono_rel [rotated]) auto
  have mine: "a \<le> p \<and> p + 4 \<le> a + 8 + n * rs \<and> disj p (a + 4)" if "p \<in> set (sec_places name ks rs s)" for p
    using that rec_places_sorted(2) [OF assms(2), where sec = a and n = n and p = p]
    by (auto simp: sec_places_def s t(1) simp del: set_concat set_map split: if_splits)
  have "seg_places name ks rs (s # secs) = sec_places name ks rs s @ seg_places name ks rs secs"
    "hdrs (s # secs) = insert (a + 4) (hdrs secs)" by (simp_all add: seg_places_def hdrs_def s t(1))
  with ih sorted mine t(2) show ?case by (fastforce simp: sorted_wrt_append)
qed (simp add: seg_places_def hdrs_def)

text \<open>The words at the places \<open>H\<close> are as in \<open>data\<close>.\<close>

definition same_at :: "u8 list \<Rightarrow> nat set \<Rightarrow> u8 list \<times> 'c \<Rightarrow> bool" where
  "same_at data H st \<longleftrightarrow> length (fst st) = length data \<and> (\<forall>q \<in> H. word_at (fst st) q = word_at data q)"

lemma visit_at_same:
  assumes "same_at data H st" "\<forall>q \<in> H. disj p q" "visit_at visit p st = Inr st'"
  shows "same_at data H st'"
proof -
  obtain bs c where st: "st = (bs, c)" by fastforce
  from assms(3) have "p + 4 \<le> length bs" "\<exists>v c'. st' = (put_bytes p (le_bytes 4 v) bs, c')"
    by (auto simp: visit_at_def st bindr_eq_Inr rd_def split: if_splits)
  with assms(1,2) show ?thesis by (auto simp: same_at_def st word_at_put_other)
qed

definition segs_apart :: "btf_ext_info \<Rightarrow> btf_ext_info \<Rightarrow> bool" where
  "segs_apart s t \<longleftrightarrow> ei_len s = 0 \<or> ei_len t = 0 \<or>
     ei_info s + ei_len s \<le> ei_info t \<or> ei_info t + ei_len t \<le> ei_info s"

definition ext_apart :: "btf_ext \<Rightarrow> bool" where
  "ext_apart ext \<longleftrightarrow> segs_apart (ext_func_info ext) (ext_line_info ext) \<and>
     segs_apart (ext_func_info ext) (ext_core_relo_info ext) \<and> segs_apart (ext_line_info ext) (ext_core_relo_info ext)"

text \<open>The places of all type numbers and of all string offsets, in the order of the walks.\<close>

definition walked :: "u8 list \<Rightarrow> btf_ext_info \<Rightarrow> (nat \<times> nat list) list" where
  "walked data seg = (case ext_walk data seg of Inl e \<Rightarrow> [] | Inr secs \<Rightarrow> secs)"

definition walk_places :: "bool \<Rightarrow> nat list \<Rightarrow> (nat \<times> nat list) list \<Rightarrow> nat list" where
  "walk_places name ks secs =
     concat (map (\<lambda>(sec, rs). (if name then [sec] else []) @ concat (map (\<lambda>r. map (\<lambda>k. r + k) ks) rs)) secs)"

definition ext_type_ids :: "btf_ext \<Rightarrow> nat list" where
  "ext_type_ids ext =
     walk_places False [4] (walked (ext_data ext) (ext_func_info ext)) @
     walk_places False [4] (walked (ext_data ext) (ext_core_relo_info ext))"

definition ext_str_offs :: "btf_ext \<Rightarrow> nat list" where
  "ext_str_offs ext =
     walk_places True [] (walked (ext_data ext) (ext_func_info ext)) @
     walk_places True [4, 8] (walked (ext_data ext) (ext_line_info ext)) @
     walk_places True [8] (walked (ext_data ext) (ext_core_relo_info ext))"

lemma walk_places_secs:
  assumes "sec_tiles data (ei_rec_size seg) (ei_info seg) (ei_info seg + ei_len seg) secs" "ei_len seg < 2 ^ 32"
  shows "walk_places name ks (walked data seg) = seg_places name ks (ei_rec_size seg) secs"
  by (simp add: walked_def ext_walk_secs [OF assms] walk_places_def seg_places_def sec_places_def [abs_def] o_def)

lemma sec_tiles_cong:
  assumes "sec_tiles data rs a b secs" "\<forall>q \<in> hdrs secs. word_at data' q = word_at data q" "length data' = length data"
  shows "sec_tiles data' rs a b secs"
  using assms(1,2)
proof (induction secs arbitrary: a)
  case (Cons s secs)
  then show ?case using assms(3) by (cases s) (auto simp: hdrs_def rd_def word_at_def split: if_splits)
qed simp

lemma seg_ok_cong:
  assumes "seg_ok data mn seg" "sec_tiles data (ei_rec_size seg) (ei_info seg) (ei_info seg + ei_len seg) secs"
    "ei_sec_cnt seg = length secs" "\<forall>q \<in> hdrs secs. word_at data' q = word_at data q" "length data' = length data"
  shows "seg_ok data' mn seg"
proof (cases "seg = no_info")
  case False
  with assms(1) have "secs \<noteq> []" using assms(3) by (auto simp: seg_ok_def)
  with False assms(1) sec_tiles_cong [OF assms(2,4,5)] assms(3,5) show ?thesis by (auto simp: seg_ok_def)
qed (simp add: seg_ok_def)

text \<open>A segment with its sections, and what is known of the places in it.\<close>

definition seg_at :: "u8 list \<Rightarrow> nat \<Rightarrow> btf_ext_info \<Rightarrow> (nat \<times> nat) list \<Rightarrow> bool" where
  "seg_at data mn seg secs \<longleftrightarrow>
     sec_tiles data (ei_rec_size seg) (ei_info seg) (ei_info seg + ei_len seg) secs \<and>
     ei_sec_cnt seg = length secs \<and> ei_len seg < 2 ^ 32 \<and> ei_info seg + ei_len seg \<le> length data \<and>
     (secs \<noteq> [] \<longrightarrow> mn \<le> ei_rec_size seg)"

lemma walk_at:
  assumes "seg_at data mn seg secs"
  shows "ext_walk data seg = Inr (map (\<lambda>s. (fst s, recs_of (ei_rec_size seg) s)) secs)"
    "walk_places name ks (walked data seg) = seg_places name ks (ei_rec_size seg) secs"
  using assms ext_walk_secs [of data seg secs] walk_places_secs [of data seg secs] unfolding seg_at_def by blast+

lemma seg_at_places:
  assumes "seg_at data mn seg secs" "words_fit ks mn"
  shows "sorted_wrt disj (seg_places name ks (ei_rec_size seg) secs)"
    "p \<in> set (seg_places name ks (ei_rec_size seg) secs) \<Longrightarrow> ei_info seg \<le> p \<and> p + 4 \<le> ei_info seg + ei_len seg \<and>
       0 < ei_len seg \<and> (\<forall>q \<in> hdrs secs. disj p q)"
    "q \<in> hdrs secs \<Longrightarrow> ei_info seg \<le> q \<and> q + 4 \<le> ei_info seg + ei_len seg \<and> 0 < ei_len seg"
proof -
  have "sorted_wrt disj (seg_places name ks (ei_rec_size seg) secs) \<and>
    (\<forall>p \<in> set (seg_places name ks (ei_rec_size seg) secs). ei_info seg \<le> p \<and> p + 4 \<le> ei_info seg + ei_len seg \<and>
       (\<forall>q \<in> hdrs secs. disj p q)) \<and>
    (\<forall>q \<in> hdrs secs. ei_info seg + 4 \<le> q \<and> q + 4 \<le> ei_info seg + ei_len seg)"
  proof (cases "secs = []")
    case False
    with assms have "words_fit ks (ei_rec_size seg)" by (fastforce simp: seg_at_def words_fit_def)
    from seg_places_facts [OF _ this, of data "ei_info seg" "ei_info seg + ei_len seg" secs name] assms(1)
    show ?thesis by (simp add: seg_at_def)
  qed (simp add: seg_places_def hdrs_def)
  then show "sorted_wrt disj (seg_places name ks (ei_rec_size seg) secs)"
    "p \<in> set (seg_places name ks (ei_rec_size seg) secs) \<Longrightarrow> ei_info seg \<le> p \<and> p + 4 \<le> ei_info seg + ei_len seg \<and>
       0 < ei_len seg \<and> (\<forall>q \<in> hdrs secs. disj p q)"
    "q \<in> hdrs secs \<Longrightarrow> ei_info seg \<le> q \<and> q + 4 \<le> ei_info seg + ei_len seg \<and> 0 < ei_len seg" by fastforce+
qed

lemma seg_at_cross:
  assumes "seg_at data mn s ss" "seg_at data mt t ts" "words_fit ks mn" "words_fit kt mt" "segs_apart s t"
    and p: "p \<in> set (seg_places name ks (ei_rec_size s) ss)"
  shows "\<forall>q \<in> hdrs ts. disj p q" "\<forall>q \<in> set (seg_places name' kt (ei_rec_size t) ts). disj p q"
  using seg_at_places(2) [OF assms(1,3) p] seg_at_places(3) [OF assms(2,4)]
    seg_at_places(2) [OF assms(2,4), where name = name'] assms(5)
  unfolding segs_apart_def by (fastforce)+

lemma segs_apart_sym: "segs_apart s t \<Longrightarrow> segs_apart t s"
  by (auto simp: segs_apart_def)

lemma ext_at:
  assumes "ext_ok ext"
  shows "\<exists>fs ls cs. seg_at (ext_data ext) 8 (ext_func_info ext) fs \<and> seg_at (ext_data ext) 16 (ext_line_info ext) ls \<and>
    seg_at (ext_data ext) 16 (ext_core_relo_info ext) cs"
proof -
  have at: "\<exists>secs. seg_at data mn seg secs" if "seg_ok data mn seg" for data mn seg
    using seg_okD [OF that] unfolding seg_at_def by blast
  have "seg_ok (ext_data ext) 8 (ext_func_info ext)" "seg_ok (ext_data ext) 16 (ext_line_info ext)"
    "seg_ok (ext_data ext) 16 (ext_core_relo_info ext)" using assms by (simp_all add: ext_ok_def)
  from at [OF this(1)] at [OF this(2)] at [OF this(3)] show ?thesis by blast
qed

lemma words_fits [simp]: "words_fit [4] 8" "words_fit [4] 16" "words_fit [] k" "words_fit [4, 8] 16" "words_fit [8] 16"
  by (simp_all add: words_fit_def)

lemma places_append:
  "places bs ps \<Longrightarrow> places bs qs \<Longrightarrow> (\<And>p. p \<in> set ps \<Longrightarrow> \<forall>q \<in> set qs. disj p q) \<Longrightarrow> places bs (ps @ qs)"
  by (auto simp: places_def sorted_wrt_append)

lemma ext_places:
  assumes "ext_ok ext" "ext_apart ext"
    and at: "seg_at (ext_data ext) 8 (ext_func_info ext) fs" "seg_at (ext_data ext) 16 (ext_line_info ext) ls"
      "seg_at (ext_data ext) 16 (ext_core_relo_info ext) cs"
  shows "places (ext_data ext) (ext_type_ids ext) \<and> places (ext_data ext) (ext_str_offs ext) \<and>
    (\<forall>p \<in> set (ext_type_ids ext) \<union> set (ext_str_offs ext). \<forall>q \<in> hdrs fs \<union> hdrs ls \<union> hdrs cs. disj p q)"
    (is "?A \<and> ?B \<and> ?C")
proof -
  let ?f = "ext_func_info ext" and ?l = "ext_line_info ext" and ?c = "ext_core_relo_info ext"
  have w: "walk_places name ks (walked (ext_data ext) ?f) = seg_places name ks (ei_rec_size ?f) fs"
    "walk_places name ks (walked (ext_data ext) ?l) = seg_places name ks (ei_rec_size ?l) ls"
    "walk_places name ks (walked (ext_data ext) ?c) = seg_places name ks (ei_rec_size ?c) cs" for name ks
    using at by (simp_all add: walk_places_secs seg_at_def)
  have apart: "segs_apart ?f ?l" "segs_apart ?f ?c" "segs_apart ?l ?c" "segs_apart ?l ?f" "segs_apart ?c ?f" "segs_apart ?c ?l"
    using assms(2) by (auto simp: ext_apart_def dest: segs_apart_sym)
  have inside: "p + 4 \<le> length (ext_data ext)"
    if "p \<in> set (seg_places name ks (ei_rec_size seg) secs)" "seg_at (ext_data ext) mn seg secs" "words_fit ks mn"
    for p name ks seg secs mn
    using seg_at_places(2) [OF that(2,3,1)] that(2) by (simp add: seg_at_def)
  note sorted = seg_at_places(1) [OF at(1)] seg_at_places(1) [OF at(2)] seg_at_places(1) [OF at(3)]
  note fit = words_fits
  have pl: "places (ext_data ext) (seg_places name ks (ei_rec_size seg) secs)"
    if "seg_at (ext_data ext) mn seg secs" "words_fit ks mn" for name ks seg secs mn
    using seg_at_places(1) [OF that] inside [OF _ that] by (simp add: places_def)
  have "?A"
    unfolding ext_type_ids_def w
    by (rule places_append [OF pl [OF at(1) fit(1)] pl [OF at(3) fit(2)] seg_at_cross(2) [OF at(1,3) fit(1,2) apart(2)]])
  moreover have "?B"
    unfolding ext_str_offs_def w
    by (rule places_append [OF pl [OF at(1) fit(3)] places_append [OF pl [OF at(2) fit(4)] pl [OF at(3) fit(5)]]])
       (auto simp del: disj_not1 dest: seg_at_cross(2) [OF at(1,3) fit(3,5) apart(2)] seg_at_cross(2) [OF at(1,2) fit(3,4) apart(1)]
         seg_at_cross(2) [OF at(2,3) fit(4,5) apart(3)])
  moreover have "?C"
  proof -
    have f: "\<forall>q \<in> hdrs fs \<union> hdrs ls \<union> hdrs cs. disj p q"
      if "p \<in> set (seg_places name ks (ei_rec_size ?f) fs)" "words_fit ks 8" for p name ks
      using seg_at_cross(1) [OF at(1,2) that(2) fit(3) apart(1) that(1)]
        seg_at_cross(1) [OF at(1,3) that(2) fit(3) apart(2) that(1)] seg_at_places(2) [OF at(1) that(2,1)] by blast
    have l: "\<forall>q \<in> hdrs fs \<union> hdrs ls \<union> hdrs cs. disj p q"
      if "p \<in> set (seg_places name ks (ei_rec_size ?l) ls)" "words_fit ks 16" for p name ks
      using seg_at_cross(1) [OF at(2,1) that(2) fit(3) apart(4) that(1)]
        seg_at_cross(1) [OF at(2,3) that(2) fit(3) apart(3) that(1)] seg_at_places(2) [OF at(2) that(2,1)] by blast
    have c: "\<forall>q \<in> hdrs fs \<union> hdrs ls \<union> hdrs cs. disj p q"
      if "p \<in> set (seg_places name ks (ei_rec_size ?c) cs)" "words_fit ks 16" for p name ks
      using seg_at_cross(1) [OF at(3,1) that(2) fit(3) apart(5) that(1)]
        seg_at_cross(1) [OF at(3,2) that(2) fit(3) apart(6) that(1)] seg_at_places(2) [OF at(3) that(2,1)] by blast
    show ?thesis
      unfolding ext_type_ids_def ext_str_offs_def w set_append
      using f [OF _ fit(1)] f [OF _ fit(3)] l [OF _ fit(4)] c [OF _ fit(2)] c [OF _ fit(5)] by blast
  qed
  ultimately show ?thesis by blast
qed

lemma concat_nils [simp]: "concat (map (\<lambda>r. []) xs) = []"
  by (induction xs) auto

text \<open>
  The contract between a walk and its visitor: visits keep a predicate on the state under which the
  headers at \<open>H\<close> read as they did in \<open>data\<close>, as long as they are at the places \<open>A\<close>.
\<close>

locale kept_walk =
  fixes visit :: "'c visitor" and P :: "u8 list \<times> 'c \<Rightarrow> bool" and data :: "u8 list" and H A :: "nat set"
  assumes hdr_kept: "P st \<Longrightarrow> q \<in> H \<Longrightarrow> rd32 data q = Inr n \<Longrightarrow> rd32 (fst st) q = Inr n"
    and visit_keeps: "P st \<Longrightarrow> p \<in> A \<Longrightarrow> visit_at visit p st = Inr st' \<Longrightarrow> P st'"
begin

lemma offs_keep: "P st \<Longrightarrow> set ps \<subseteq> A \<Longrightarrow> visit_offs visit ps st = Inr st' \<Longrightarrow> P st'"
  by (induction ps arbitrary: st) (auto simp: bindr_eq_Inr dest: visit_keeps)

lemma for_each_rec_visit:
  assumes hdr: "rd32 data (sec + 4) = Inr n" "sec + 4 \<in> H"
    and away: "\<And>j. j < n \<Longrightarrow> set (g (sec + 8 + j * rs)) \<subseteq> A"
    and body: "\<And>r st. body r st = visit_offs visit (g r) st"
    and st: "P st" "i \<le> n"
  shows "for_each_rec rs sec body i (sec + 8 + i * rs) st =
    visit_offs visit (concat (map (\<lambda>j. g (sec + 8 + j * rs)) [i..<n])) st"
  using st
proof (induction "n - i" arbitrary: i st)
  case 0
  then show ?case by (subst for_each_rec.simps) (simp add: hdr_kept [OF _ hdr(2,1)])
next
  case (Suc k)
  then have i: "i < n" "k = n - Suc i" by auto
  have later: "for_each_rec rs sec body (i + 1) (sec + 8 + i * rs + rs) st' =
      visit_offs visit (concat (map (\<lambda>j. g (sec + 8 + j * rs)) [Suc i..<n])) st'"
    if "visit_offs visit (g (sec + 8 + i * rs)) st = Inr st'" for st'
    using Suc.hyps(1) [OF i(2) offs_keep [OF Suc.prems(1) away [OF i(1)] that]] i(1) by (simp add: add_ac)
  have "for_each_rec rs sec body i (sec + 8 + i * rs) st =
    bindr (visit_offs visit (g (sec + 8 + i * rs)) st) (for_each_rec rs sec body (i + 1) (sec + 8 + i * rs + rs))"
    by (subst for_each_rec.simps) (simp add: hdr_kept [OF Suc.prems(1) hdr(2,1)] i(1) body)
  also have "\<dots> = bindr (visit_offs visit (g (sec + 8 + i * rs)) st)
      (visit_offs visit (concat (map (\<lambda>j. g (sec + 8 + j * rs)) [Suc i..<n])))"
    using later by (cases "visit_offs visit (g (sec + 8 + i * rs)) st") auto
  finally show ?case using i(1) by (simp add: upt_conv_Cons visit_offs_append)
qed

lemma for_each_sec_visit:
  assumes seg: "sec_tiles data (ei_rec_size seg) a (ei_info seg + ei_len seg) secs"
    "ei_info seg + ei_len seg < a + 2 ^ 32" "hdrs secs \<subseteq> H"
    and away: "\<forall>s \<in> set secs. set (g s) \<subseteq> A"
    and body: "\<And>st s. s \<in> set secs \<Longrightarrow> P st \<Longrightarrow> body (fst s) st = visit_offs visit (g s) st"
    and st: "P st"
  shows "for_each_sec seg body a st = visit_offs visit (concat (map g secs)) st"
  using seg away body st
proof (induction secs arbitrary: a st)
  case Nil
  then show ?case by (subst for_each_sec.simps) simp
next
  case (Cons s secs)
  obtain sec n where s: "s = (sec, n)" by fastforce
  let ?b = "ei_info seg + ei_len seg" and ?rs = "ei_rec_size seg"
  from Cons.prems(1) have t: "sec = a" "rd32 data (a + 4) = Inr n" "a + 8 + n * ?rs \<le> ?b"
    "sec_tiles data ?rs (a + 8 + n * ?rs) ?b secs" by (auto simp: s)
  have step: "bindr (rd32 (fst st') (a + 4)) (\<lambda>n. for_each_sec seg body (a + 8 + ?rs * n mod 2 ^ 32) st') =
      visit_offs visit (concat (map g secs)) st'" if "visit_offs visit (g s) st = Inr st'" for st'
  proof -
    have P: "P st'" using offs_keep [OF Cons.prems(6) _ that] Cons.prems(4) by simp
    have "a + 4 \<in> H" using Cons.prems(3) by (auto simp: hdrs_def s t(1))
    from hdr_kept [OF P this t(2)] have "rd32 (fst st') (a + 4) = Inr n" .
    moreover have "for_each_sec seg body (a + 8 + n * ?rs) st' = visit_offs visit (concat (map g secs)) st'"
      using t(4) Cons.prems(2-4) P by (intro Cons.IH Cons.prems(5)) (auto simp: hdrs_def)
    ultimately show ?thesis by (simp add: no_wrap [OF t(3) Cons.prems(2), simplified])
  qed
  have "for_each_sec seg body a st = bindr (body a st) (\<lambda>st'. bindr (rd32 (fst st') (a + 4)) (\<lambda>n.
      for_each_sec seg body (a + 8 + ?rs * n mod 2 ^ 32) st'))"
    using t(3) by (subst for_each_sec.simps) simp
  also have "body a st = visit_offs visit (g s) st" using Cons.prems(5) [of s st] Cons.prems(6) by (simp add: s t(1))
  finally show ?case
    using step by (cases "visit_offs visit (g s) st") (auto simp: visit_offs_append)
qed

lemma seg_visited:
  assumes seg: "seg_at data mn seg secs" "hdrs secs \<subseteq> H" "set (seg_places name ks (ei_rec_size seg) secs) \<subseteq> A"
    and body: "\<And>sec st. body sec st = bindr (if name then visit_at visit sec st else Inr st)
       (sec_each seg sec (\<lambda>r. visit_offs visit (map (\<lambda>k. r + k) ks)))"
    and st: "P st"
  shows "for_each_sec seg body (ei_info seg) st = visit_offs visit (seg_places name ks (ei_rec_size seg) secs) st"
proof -
  let ?rs = "ei_rec_size seg"
  have tiles: "sec_tiles data ?rs (ei_info seg) (ei_info seg + ei_len seg) secs" using seg(1) by (simp add: seg_at_def)
  have away: "\<forall>s \<in> set secs. set (sec_places name ks ?rs s) \<subseteq> A"
    using seg(3) by (auto simp: seg_places_def)
  have sec: "body (fst s) st' = visit_offs visit (sec_places name ks ?rs s) st'"
    if s: "s \<in> set secs" and st': "P st'" for s st'
  proof -
    obtain a n where an: "s = (a, n)" by fastforce
    have hd: "rd32 data (a + 4) = Inr n" "a + 4 \<in> H"
      using sec_tiles_mem [OF tiles] s seg(2) by (auto simp: an hdrs_def)
    have recs: "sec_each seg a (\<lambda>r. visit_offs visit (map (\<lambda>k. r + k) ks)) st1 =
        visit_offs visit (concat (map (\<lambda>r. map (\<lambda>k. r + k) ks) (recs_of ?rs (a, n)))) st1"
      if "P st1" for st1
    proof -
      have "set (map (\<lambda>k. a + 8 + j * ?rs + k) ks) \<subseteq> A" if "j < n" for j
      proof
        fix p assume "p \<in> set (map (\<lambda>k. a + 8 + j * ?rs + k) ks)"
        then have "p \<in> set (sec_places name ks ?rs s)" using that by (force simp: an sec_places_def recs_of_def)
        with away s show "p \<in> A" by blast
      qed
      from for_each_rec_visit [where g = "\<lambda>r. map (\<lambda>k. r + k) ks" and i = 0 and rs = ?rs
          and body = "\<lambda>r. visit_offs visit (map (\<lambda>k. r + k) ks)", OF hd this _ that]
      show ?thesis by (simp add: sec_each_def recs_of_def o_def)
    qed
    show ?thesis
    proof (cases name)
      case True
      have "P st1" if "visit_at visit a st' = Inr st1" for st1
        using visit_keeps [OF st' _ that] away s True by (auto simp: an sec_places_def)
      then show ?thesis
        using recs by (cases "visit_at visit a st'") (auto simp: body an True sec_places_def)
    next
      case False
      then show ?thesis using recs [OF st'] by (simp add: body an sec_places_def)
    qed
  qed
  have "ei_info seg + ei_len seg < ei_info seg + 2 ^ 32" using seg(1) by (simp add: seg_at_def)
  from for_each_sec_visit [OF tiles this seg(2) away sec st] show ?thesis by (simp add: seg_places_def)
qed

lemma two_offs: "visit_offs visit [p, q] = (\<lambda>st. bindr (visit_at visit p st) (visit_at visit q))"
  by (rule ext) simp

lemma ext_visits:
  assumes at: "seg_at data 8 (ext_func_info ext) fs" "seg_at data 16 (ext_line_info ext) ls"
      "seg_at data 16 (ext_core_relo_info ext) cs" "hdrs fs \<union> hdrs ls \<union> hdrs cs \<subseteq> H"
    and A: "set (ext_type_ids ext) \<union> set (ext_str_offs ext) \<subseteq> A"
    and st: "P (data, c)" "ext_data ext = data"
  shows "btf_ext_visit_type_ids visit ext c =
      bindr (visit_offs visit (ext_type_ids ext) (data, c)) (\<lambda>(data, c). Inr (ext\<lparr>ext_data := data\<rparr>, c))"
    "btf_ext_visit_str_offs visit ext c =
      bindr (visit_offs visit (ext_str_offs ext) (data, c)) (\<lambda>(data, c). Inr (ext\<lparr>ext_data := data\<rparr>, c))"
proof -
  let ?f = "ext_func_info ext" and ?l = "ext_line_info ext" and ?c = "ext_core_relo_info ext"
  have w: "walk_places name ks (walked data ?f) = seg_places name ks (ei_rec_size ?f) fs"
    "walk_places name ks (walked data ?l) = seg_places name ks (ei_rec_size ?l) ls"
    "walk_places name ks (walked data ?c) = seg_places name ks (ei_rec_size ?c) cs" for name ks
    using at by (simp_all add: walk_places_secs seg_at_def)
  have T: "ext_type_ids ext = seg_places False [4] (ei_rec_size ?f) fs @ seg_places False [4] (ei_rec_size ?c) cs"
    by (simp add: ext_type_ids_def w st(2))
  have S: "ext_str_offs ext = seg_places True [] (ei_rec_size ?f) fs @ seg_places True [4, 8] (ei_rec_size ?l) ls @
      seg_places True [8] (ei_rec_size ?c) cs"
    by (simp add: ext_str_offs_def w st(2))
  have sub: "hdrs fs \<subseteq> H" "hdrs ls \<subseteq> H" "hdrs cs \<subseteq> H" using at(4) by auto
  have f: "for_each_sec ?f (\<lambda>sec. sec_each ?f sec (\<lambda>r. visit_at visit (r + 4))) (ei_info ?f) st =
      visit_offs visit (seg_places False [4] (ei_rec_size ?f) fs) st" if "P st" for st
    using A T that by (intro seg_visited [OF at(1) sub(1)]) auto
  have c: "for_each_sec ?c (\<lambda>sec. sec_each ?c sec (\<lambda>r. visit_at visit (r + 4))) (ei_info ?c) st =
      visit_offs visit (seg_places False [4] (ei_rec_size ?c) cs) st" if "P st" for st
    using A T that by (intro seg_visited [OF at(3) sub(3)]) auto
  have fn: "for_each_sec ?f (visit_at visit) (ei_info ?f) st =
      visit_offs visit (seg_places True [] (ei_rec_size ?f) fs) st" if "P st" for st
    unfolding seg_places_def
    using at(1) A S that sub
    by (intro for_each_sec_visit) (auto simp: sec_places_def seg_places_def seg_at_def)
  have ln: "for_each_sec ?l (\<lambda>sec st. bindr (visit_at visit sec st) (\<lambda>st.
        sec_each ?l sec (\<lambda>r st. bindr (visit_at visit (r + 4) st) (visit_at visit (r + 8))) st)) (ei_info ?l) st =
      visit_offs visit (seg_places True [4, 8] (ei_rec_size ?l) ls) st" if "P st" for st
    using A S that by (intro seg_visited [OF at(2) sub(2)]) (auto simp: two_offs)
  have cn: "for_each_sec ?c (\<lambda>sec st. bindr (visit_at visit sec st) (\<lambda>st.
        sec_each ?c sec (\<lambda>r. visit_at visit (r + 8)) st)) (ei_info ?c) st =
      visit_offs visit (seg_places True [8] (ei_rec_size ?c) cs) st" if "P st" for st
    using A S that by (intro seg_visited [OF at(3) sub(3)]) auto
  show "btf_ext_visit_type_ids visit ext c =
      bindr (visit_offs visit (ext_type_ids ext) (data, c)) (\<lambda>(data, c). Inr (ext\<lparr>ext_data := data\<rparr>, c))"
  proof (cases "visit_offs visit (seg_places False [4] (ei_rec_size ?f) fs) (data, c)")
    case (Inr st1)
    then have "P st1" using offs_keep [OF st(1) _ Inr] A T by auto
    with Inr show ?thesis by (simp add: btf_ext_visit_type_ids_def Let_def f st c T visit_offs_append)
  qed (simp add: btf_ext_visit_type_ids_def f st T visit_offs_append)
  show "btf_ext_visit_str_offs visit ext c =
      bindr (visit_offs visit (ext_str_offs ext) (data, c)) (\<lambda>(data, c). Inr (ext\<lparr>ext_data := data\<rparr>, c))"
  proof (cases "visit_offs visit (seg_places True [] (ei_rec_size ?f) fs) (data, c)")
    case (Inr st1)
    then have s1: "P st1" using offs_keep [OF st(1) _ Inr] A S by auto
    show ?thesis
    proof (cases "visit_offs visit (seg_places True [4, 8] (ei_rec_size ?l) ls) st1")
      case Inr2: (Inr st2)
      then have "P st2" using offs_keep [OF s1 _ Inr2] A S by auto
      then show ?thesis
        using Inr Inr2 by (simp add: btf_ext_visit_str_offs_def fn st ln [OF s1] cn S visit_offs_append)
    qed (use Inr in \<open>simp add: btf_ext_visit_str_offs_def fn st ln [OF s1] S visit_offs_append\<close>)
  qed (simp add: btf_ext_visit_str_offs_def fn st S visit_offs_append)
qed

end

text \<open>Any visitor, when no place that it sees is the header of a section.\<close>

interpretation away: kept_walk visit "same_at data H" data H "{p. \<forall>q \<in> H. disj p q}"
  for visit :: "'c visitor" and data H
proof
  show "rd32 (fst st) q = Inr n" if "same_at data H st" "q \<in> H" "rd32 data q = Inr n" for st q n
    using that by (auto simp: same_at_def rd_def word_at_def split: if_splits)
  show "same_at data H st'" if "same_at data H st" "p \<in> {p. \<forall>q \<in> H. disj p q}" "visit_at visit p st = Inr st'" for st p st'
    using visit_at_same that by blast
qed

text \<open>A visitor that only checks, wherever the places are.\<close>

interpretation checks_only: kept_walk "checker f" "\<lambda>st. fst st = data" data UNIV UNIV
  for f and data
proof
  show "fst st' = data" if "fst st = data" "visit_at (checker f) p st = Inr st'" for st p st'
    using that by (cases st) (auto simp: visit_at_def checker_def bindr_eq_Inr rd_def word_at_def [symmetric] put_word_same
        split: if_splits)
qed auto

section \<open>The checks of the linker\<close>

definition linker_sanity_check_btf_ext :: "btf \<Rightarrow> btf_ext option \<Rightarrow> unit res" where
  "linker_sanity_check_btf_ext btf btf_ext =
     (case btf_ext of
        None \<Rightarrow> Inr ()
      | Some ext \<Rightarrow>
          if btf = [] then Inl (Err EINVAL)
          else
            bindr (btf_ext_visit_type_ids (checker (check_btf_type_id btf)) ext ()) (\<lambda>(ext, _).
            bindr (btf_ext_visit_str_offs (checker (check_btf_str_off btf)) ext ()) (\<lambda>_. Inr ())))"

lemma visit_offs_checker:
  assumes "\<forall>p \<in> set ps. p + 4 \<le> length data"
  shows "visit_offs (checker f) ps (data, ()) = bindr (passes f (map (word_at data) ps)) (\<lambda>_. Inr (data, ()))"
  using assms
proof (induction ps)
  case (Cons p ps)
  then show ?case
    by (cases "f (word_at data p)") (auto simp: visit_at_def rd32_word checker_def put_word_same bindr_assoc)
qed simp

lemma ext_places_in:
  assumes at: "seg_at (ext_data ext) 8 (ext_func_info ext) fs" "seg_at (ext_data ext) 16 (ext_line_info ext) ls"
      "seg_at (ext_data ext) 16 (ext_core_relo_info ext) cs"
    and p: "p \<in> set (ext_type_ids ext) \<union> set (ext_str_offs ext)"
  shows "p + 4 \<le> length (ext_data ext)"
proof -
  have inside: "p + 4 \<le> length (ext_data ext)"
    if "p \<in> set (seg_places name ks (ei_rec_size seg) secs)" "seg_at (ext_data ext) mn seg secs" "words_fit ks mn"
    for p name ks seg secs mn
    using seg_at_places(2) [OF that(2,3,1)] that(2) by (simp add: seg_at_def)
  note i1 = inside [OF _ at(1)] and i2 = inside [OF _ at(2)] and i3 = inside [OF _ at(3)]
  from p show ?thesis
    unfolding ext_type_ids_def ext_str_offs_def walk_at(2) [OF at(1)] walk_at(2) [OF at(2)] walk_at(2) [OF at(3)] set_append
    using i1 [OF _ words_fits(1)] i1 [OF _ words_fits(3)] i2 [OF _ words_fits(4)] i3 [OF _ words_fits(2)]
      i3 [OF _ words_fits(5)] by blast
qed

lemma check_ext:
  assumes "ext_ok ext" "btf \<noteq> []"
  shows "linker_sanity_check_btf_ext btf (Some ext) =
    bindr (passes (check_btf_type_id btf) (map (word_at (ext_data ext)) (ext_type_ids ext))) (\<lambda>_.
      passes (check_btf_str_off btf) (map (word_at (ext_data ext)) (ext_str_offs ext)))"
proof -
  from ext_at [OF assms(1)] obtain fs ls cs where at: "seg_at (ext_data ext) 8 (ext_func_info ext) fs"
    "seg_at (ext_data ext) 16 (ext_line_info ext) ls" "seg_at (ext_data ext) 16 (ext_core_relo_info ext) cs" by blast
  note visits = checks_only.ext_visits [OF at subset_UNIV subset_UNIV _ refl]
  have same: "ext\<lparr>ext_data := ext_data ext\<rparr> = ext" by simp
  have u: "bindr r Inr = (r :: unit res)" for r by (cases r) auto
  have "btf_ext_visit_type_ids (checker f) ext () =
      bindr (passes f (map (word_at (ext_data ext)) (ext_type_ids ext))) (\<lambda>_. Inr (ext, ()))"
    "btf_ext_visit_str_offs (checker f) ext () =
      bindr (passes f (map (word_at (ext_data ext)) (ext_str_offs ext))) (\<lambda>_. Inr (ext, ()))" for f
    using ext_places_in [OF at] by (simp_all add: visits visit_offs_checker bindr_assoc)
  then show ?thesis using assms(2) by (simp add: linker_sanity_check_btf_ext_def bindr_assoc u)
qed

lemma walked_put:
  assumes "seg_at data mn seg secs" "length vs = length ps" "places data ps" "\<forall>p \<in> set ps. \<forall>q \<in> hdrs secs. disj p q"
  shows "seg_at (put_words (zip ps vs) data) mn seg secs" "walked (put_words (zip ps vs) data) seg = walked data seg"
proof -
  have same: "\<forall>q \<in> hdrs secs. word_at (put_words (zip ps vs) data) q = word_at data q"
    using assms(3,4) by (auto simp: places_def intro!: word_at_put_words_other)
  have len: "length (put_words (zip ps vs) data) = length data" using assms(3) by (simp add: places_def)
  show "seg_at (put_words (zip ps vs) data) mn seg secs"
    using sec_tiles_cong [OF _ same len] assms(1) len by (simp add: seg_at_def)
  then show "walked (put_words (zip ps vs) data) seg = walked data seg"
    using assms(1) by (simp add: walked_def walk_at(1))
qed

section \<open>Properties\<close>

text \<open>An extension section with one function record for type 1.\<close>

definition small_ext :: "u8 list" where
  "small_ext = [0x9F, 0xeB, 1, 0, 32, 0, 0, 0, 0, 0, 0, 0, 20, 0, 0, 0, 0, 0, 0, 0, 0, 0, 0, 0,
     0, 0, 0, 0, 0, 0, 0, 0, 8, 0, 0, 0, 0, 0, 0, 0, 1, 0, 0, 0, 0, 0, 0, 0, 1, 0, 0, 0]"

lemmas ext_new_eval = btf_ext__new_def btf_ext_parse_hdr_def setup_func_info_def setup_line_info_def setup_core_relos_def
  btf_ext_setup_info_def setup_loop.simps rd_def BTF_MAGIC_def Let_def

definition small_parsed :: btf_ext where
  "small_parsed = \<lparr>ext_data = small_ext,
     ext_func_info = \<lparr>ei_info = 36, ei_rec_size = 8, ei_len = 16, ei_sec_cnt = 1\<rparr>,
     ext_line_info = no_info, ext_core_relo_info = no_info\<rparr>"

lemma small_new: "btf_ext__new True True small_ext = Inr small_parsed"
  by (simp add: ext_new_eval small_ext_def small_parsed_def)

text \<open>
  Property C8: an extension section is safe to walk over.  Parsing one returns for all bytes, without
  undefined behaviour.  When it succeeds, the macros that walk over each of the three segments
  return: they visit exactly as many sections as were counted, every section has at least one
  record, and every record has at least the bytes that its readers use, all of them inside of the
  data and behind the header.
\<close>

theorem btf_ext_new_sound:
  "returns (\<lambda>ext. ext_data ext = data \<and>
     (\<forall>(seg, need) \<in> ext_segs ext. \<exists>secs. ext_walk data seg = Inr secs \<and> length secs = ei_sec_cnt seg \<and>
        (\<forall>(sec, rs) \<in> set secs. rs \<noteq> [] \<and> 24 < sec \<and> sec + 8 \<le> length data \<and>
           (\<forall>r \<in> set rs. sec < r \<and> r + need \<le> r + ei_rec_size seg \<and> r + ei_rec_size seg \<le> length data))))
   (btf_ext__new calloc_ok malloc_ok data)"
proof (rule returns_mono [OF ext_new_ok])
  fix ext assume ok: "ext_ok ext \<and> ext_data ext = data"
  have "\<exists>secs. ext_walk data seg = Inr secs \<and> length secs = ei_sec_cnt seg \<and>
        (\<forall>(sec, rs) \<in> set secs. rs \<noteq> [] \<and> 24 < sec \<and> sec + 8 \<le> length data \<and>
           (\<forall>r \<in> set rs. sec < r \<and> r + need \<le> r + ei_rec_size seg \<and> r + ei_rec_size seg \<le> length data))"
    if seg: "seg_ok data need seg" for seg need
  proof -
    from seg_okD [OF seg] obtain secs where secs: "ei_sec_cnt seg = length secs" "ei_len seg < 2 ^ 32"
      "sec_tiles data (ei_rec_size seg) (ei_info seg) (ei_info seg + ei_len seg) secs"
      "ei_info seg + ei_len seg \<le> length data" "secs \<noteq> [] \<longrightarrow> need \<le> ei_rec_size seg \<and> 28 \<le> ei_info seg" by blast
    have "recs_of (ei_rec_size seg) s \<noteq> [] \<and> 24 < fst s \<and> fst s + 8 \<le> length data \<and>
        (\<forall>r \<in> set (recs_of (ei_rec_size seg) s). fst s < r \<and> r + need \<le> r + ei_rec_size seg \<and>
           r + ei_rec_size seg \<le> length data)" if "s \<in> set secs" for s
    proof -
      obtain sec n where s: "s = (sec, n)" by fastforce
      from sec_tiles_mem [OF secs(3)] that s have m: "ei_info seg \<le> sec" "0 < n"
        "sec + 8 + n * ei_rec_size seg \<le> ei_info seg + ei_len seg" by auto
      have "secs \<noteq> []" using that by auto
      moreover have "recs_of (ei_rec_size seg) s \<noteq> []" using m(2) by (simp add: s recs_of_def)
      ultimately show ?thesis using m secs(4,5) by (fastforce simp: s dest: recs_of_in)
    qed
    then show ?thesis
      by (intro exI [of _ "map (\<lambda>s. (fst s, recs_of (ei_rec_size seg) s)) secs"])
         (auto simp: ext_walk_secs [OF secs(3,2)] secs(1))
  qed
  with ok show "ext_data ext = data \<and> (\<forall>(seg, need) \<in> ext_segs ext. \<exists>secs. ext_walk data seg = Inr secs \<and> length secs = ei_sec_cnt seg \<and>
        (\<forall>(sec, rs) \<in> set secs. rs \<noteq> [] \<and> 24 < sec \<and> sec + 8 \<le> length data \<and>
           (\<forall>r \<in> set rs. sec < r \<and> r + need \<le> r + ei_rec_size seg \<and> r + ei_rec_size seg \<le> length data)))"
    unfolding ext_segs_def ext_ok_def by (simp only: ball_simps prod.case simp_thms) blast
qed

theorem btf_ext_new_sound_witness:
  "\<exists>secs. ext_walk small_ext (ext_func_info small_parsed) = Inr secs \<and> length secs = 1"
proof -
  from returns_Inr [OF btf_ext_new_sound small_new] have "\<exists>secs. ext_walk small_ext (ext_func_info small_parsed) = Inr secs \<and>
      length secs = ei_sec_cnt (ext_func_info small_parsed)" by (simp only: ext_segs_def ball_simps) blast
  then show ?thesis by (simp add: small_parsed_def)
qed

text \<open>
  Property C25: when the three segments of an extension section do not overlap, visiting its
  references is exact: every type number (every string offset) is read, the visitor runs over them
  in the order of the walks, and the results are written back, each at its place.  Whatever is
  written, the section stays well-formed, and the references are at the same places as before.
\<close>

theorem btf_ext_visit_exact:
  assumes "btf_ext__new calloc_ok malloc_ok data = Inr ext" "ext_apart ext"
  shows "btf_ext_visit_type_ids visit ext c =
      bindr (visited visit (ext_type_ids ext) (data, c)) (\<lambda>(data, c). Inr (ext\<lparr>ext_data := data\<rparr>, c)) \<and>
    btf_ext_visit_str_offs visit ext c =
      bindr (visited visit (ext_str_offs ext) (data, c)) (\<lambda>(data, c). Inr (ext\<lparr>ext_data := data\<rparr>, c)) \<and>
    (\<forall>ps \<in> {ext_type_ids ext, ext_str_offs ext}. \<forall>vs. length vs = length ps \<longrightarrow>
       (let data' = put_words (zip ps vs) data; ext' = ext\<lparr>ext_data := data'\<rparr> in
        length data' = length data \<and> ext_ok ext' \<and> ext_type_ids ext' = ext_type_ids ext \<and>
        ext_str_offs ext' = ext_str_offs ext \<and>
        (\<forall>j < length ps. word_at data' (ps ! j) = vs ! j mod 2 ^ 32) \<and>
        (\<forall>i < length data. (\<forall>p \<in> set ps. i < p \<or> p + 4 \<le> i) \<longrightarrow> data' ! i = data ! i)))"
proof -
  have ok: "ext_ok ext" and data: "ext_data ext = data"
    using returns_Inr [OF ext_new_ok assms(1)] by auto
  from ext_at [OF ok] data obtain fs ls cs where at: "seg_at data 8 (ext_func_info ext) fs"
    "seg_at data 16 (ext_line_info ext) ls" "seg_at data 16 (ext_core_relo_info ext) cs" by blast
  define H where "H = hdrs fs \<union> hdrs ls \<union> hdrs cs"
  note pl = ext_places [OF ok assms(2), unfolded data, OF at, folded H_def]
  have away: "set (ext_type_ids ext) \<union> set (ext_str_offs ext) \<subseteq> {p. \<forall>q \<in> H. disj p q}" using pl by blast
  have same: "same_at data H (data, c)" by (simp add: same_at_def)
  note visits = away.ext_visits [OF at _ away same data, folded H_def]
  have "length (put_words (zip ps vs) data) = length data \<and> ext_ok (ext\<lparr>ext_data := put_words (zip ps vs) data\<rparr>) \<and>
      ext_type_ids (ext\<lparr>ext_data := put_words (zip ps vs) data\<rparr>) = ext_type_ids ext \<and>
      ext_str_offs (ext\<lparr>ext_data := put_words (zip ps vs) data\<rparr>) = ext_str_offs ext \<and>
      (\<forall>j < length ps. word_at (put_words (zip ps vs) data) (ps ! j) = vs ! j mod 2 ^ 32) \<and>
      (\<forall>i < length data. (\<forall>p \<in> set ps. i < p \<or> p + 4 \<le> i) \<longrightarrow> put_words (zip ps vs) data ! i = data ! i)"
    if ps: "ps \<in> {ext_type_ids ext, ext_str_offs ext}" and vs: "length vs = length ps" for ps vs
  proof -
    let ?d = "put_words (zip ps vs) data"
    have p: "places data ps" using pl ps by auto
    have h: "\<forall>p \<in> set ps. \<forall>q \<in> hdrs fs. disj p q" "\<forall>p \<in> set ps. \<forall>q \<in> hdrs ls. disj p q"
      "\<forall>p \<in> set ps. \<forall>q \<in> hdrs cs. disj p q" using away ps by (auto simp: H_def)
    note w = walked_put [OF at(1) vs p h(1)] walked_put [OF at(2) vs p h(2)] walked_put [OF at(3) vs p h(3)]
    have len: "length ?d = length data" using p by (simp add: places_def)
    have "seg_ok ?d mn seg" if "seg_ok data mn seg" "seg_at data mn seg secs" "seg_at ?d mn seg secs" for mn seg secs
    proof (cases "seg = no_info")
      case False
      with that have "secs \<noteq> []" by (auto simp: seg_ok_def seg_at_def)
      with False that len show ?thesis by (auto simp: seg_ok_def seg_at_def)
    qed (simp add: seg_ok_def)
    with ok at w(1,3,5) have "ext_ok (ext\<lparr>ext_data := ?d\<rparr>)" by (simp add: ext_ok_def data)
    moreover have "?d ! i = data ! i" if "i < length data" "\<forall>p \<in> set ps. i < p \<or> p + 4 \<le> i" for i
      using that p by (intro nth_put_words) (auto simp: places_def)
    ultimately show ?thesis
      using len word_at_put_words [OF p vs] w(2,4,6) by (simp add: ext_type_ids_def ext_str_offs_def data)
  qed
  with visits pl show ?thesis by (auto simp: visit_offs_visited Let_def H_def)
qed

lemma small_ids: "ext_type_ids small_parsed = [48]" "ext_str_offs small_parsed = [36]" "word_at small_ext 48 = 1"
  "ext_apart small_parsed" "word_at small_ext 36 = 0"
proof -
  have tiles: "sec_tiles small_ext 8 36 52 [(36, 1)]" by (simp add: small_ext_def rd_def)
  have "seg_at small_ext 8 (ext_func_info small_parsed) [(36, 1)]" "seg_at small_ext 16 no_info []"
    using tiles by (simp_all add: seg_at_def small_parsed_def no_info_def small_ext_def)
  from walk_at(2) [OF this(1)] walk_at(2) [OF this(2)]
  show "ext_type_ids small_parsed = [48]" "ext_str_offs small_parsed = [36]"
    by (simp_all add: ext_type_ids_def ext_str_offs_def small_parsed_def seg_places_def sec_places_def recs_of_def)
  show "word_at small_ext 48 = 1" "word_at small_ext 36 = 0" "ext_apart small_parsed"
    by (simp_all add: word_at_def small_ext_def small_parsed_def ext_apart_def segs_apart_def no_info_def)
qed

theorem btf_ext_visit_exact_witness:
  "btf_ext_visit_type_ids (\<lambda>v c. Inr (v + 4, c + 1)) small_parsed (0 :: nat) =
     Inr (small_parsed\<lparr>ext_data := put_bytes 48 (le_bytes 4 5) small_ext\<rparr>, 1)"
  using conjunct1 [OF btf_ext_visit_exact [OF small_new small_ids(4), of "\<lambda>v c. Inr (v + 4, c + 1)" "0 :: nat"]]
  by (simp add: small_ids visited_def)

text \<open>
  The linker's check of an extension section returns for every section that was parsed,
  also when its segments overlap, and it accepts the section exactly when all type numbers are below
  the number of types and all string offsets can be looked up.
\<close>

theorem linker_sanity_check_btf_ext_exact:
  assumes "btf_ok btf" "btf \<noteq> []" "btf_ext__new calloc_ok malloc_ok data = Inr ext"
  shows "returns (\<lambda>_. True) (linker_sanity_check_btf_ext btf (Some ext)) \<and>
    (linker_sanity_check_btf_ext btf (Some ext) = Inr () \<longleftrightarrow>
      (\<forall>p \<in> set (ext_type_ids ext). word_at data p < btf__type_cnt btf) \<and>
      (\<forall>p \<in> set (ext_str_offs ext). btf__str_by_offset btf (word_at data p) \<noteq> Inr None))"
proof -
  have ok: "ext_ok ext" and data: "ext_data ext = data"
    using returns_Inr [OF ext_new_ok assms(3)] by auto
  have "returns (\<lambda>_. True) (linker_sanity_check_btf_ext btf (Some ext))"
    unfolding check_ext [OF ok assms(2)] by (rule returns_bind [OF check_ids(2) check_strs(2) [OF assms(1,2)]])
  then show ?thesis
    by (simp add: check_ext [OF ok assms(2)] data bindr_eq_Inr check_ids(1) check_strs(1) [OF assms(1,2)])
qed

text \<open>The object without types has no type 1.\<close>

theorem linker_sanity_check_btf_ext_exact_witness:
  "linker_sanity_check_btf_ext [plain_layer 0 [0]] (Some small_parsed) \<noteq> Inr ()"
proof -
  have ok: "btf_ok [plain_layer 0 [0]]" "[plain_layer 0 [0]] \<noteq> []" by (simp_all add: layer_ok_def plain_layer_def)
  from linker_sanity_check_btf_ext_exact [OF ok small_new] show ?thesis
    by (simp add: small_ids btf__type_cnt_def plain_layer_def)
qed

section \<open>Overlapping segments\<close>

text \<open>
  Nothing prevents segments that overlap: here the relocations start in the middle of the function
  records, and the number of relocations is the type number of the second function record.  Giving
  that type another number changes the number of relocations, and the visit of the relocations
  leaves the data.
\<close>

definition overlap_ext :: "u8 list" where
  "overlap_ext = [0x9F, 0xeB, 1, 0, 32, 0, 0, 0, 0, 0, 0, 0, 28, 0, 0, 0, 0, 0, 0, 0, 0, 0, 0, 0,
     16, 0, 0, 0, 28, 0, 0, 0,
     8, 0, 0, 0, 0, 0, 0, 0, 2, 0, 0, 0, 0, 0, 0, 0, 16, 0, 0, 0, 0, 0, 0, 0, 1, 0, 0, 0,
     0, 0, 0, 0, 0, 0, 0, 0, 0, 0, 0, 0, 0, 0, 0, 0]"

theorem btf_ext_visit_overlap:
  "\<exists>ext. btf_ext__new True True overlap_ext = Inr ext \<and>
     btf_ext_visit_type_ids (\<lambda>v c. Inr (if v = 1 then 2 else v, c)) ext () = Inl UB"
proof -
  let ?e = "\<lparr>ext_data = overlap_ext,
     ext_func_info = \<lparr>ei_info = 36, ei_rec_size = 8, ei_len = 24, ei_sec_cnt = 1\<rparr>,
     ext_line_info = no_info,
     ext_core_relo_info = \<lparr>ei_info = 52, ei_rec_size = 16, ei_len = 24, ei_sec_cnt = 1\<rparr>\<rparr>"
  have "btf_ext__new True True overlap_ext = Inr ?e"
    by (simp add: ext_new_eval overlap_ext_def)
  moreover have "btf_ext_visit_type_ids (\<lambda>v c. Inr (if v = 1 then 2 else v, c)) ?e () = Inl UB"
    by (simp add: btf_ext_visit_type_ids_def for_each_sec.simps for_each_rec.simps sec_each_def visit_at_def
        rd_def overlap_ext_def put_bytes_def le_bytes_numeral)
  ultimately show ?thesis by blast
qed

end
