(* ===== verification/Relo_Object.thy ===== *)
theory Relo_Object imports Relo_Patch Btf_Ext Hashmap "HOL-Library.Sublist" begin

text \<open>
  CO-RE relocation of a BPF object (\<open>bpf/libbpf/src/libbpf.c\<close>): the sections of the extension records are
  mapped to ELF sections, the candidates of a type are searched in the kernel's types and cached in a
  hash map, the program of an instruction is found by binary search, and every relocation record is
  recorded and applied.

  The cache holds pointers to lists of candidates, which the computation of a relocation prunes in
  place: here the values are indexes into a store of lists.  When the relocation of an object fails, the
  object is not used any more (loading it fails), so only the error is kept.  The outcomes of
  allocations, the lookup of ELF sections by their names and the outcome of loading the types of
  kernel modules are arguments.
\<close>

section \<open>State\<close>

datatype reloc_desc = RELO_CORE nat nat | RELO_OTHER

record bpf_program =
  prog_sec_idx :: nat
  prog_sec_insn_off :: nat
  prog_sec_insn_cnt :: nat
  prog_autoload :: bool
  prog_insns :: "bpf_insn list"
  prog_relocs :: "reloc_desc list"

record bpf_object =
  obj_btf :: btf
  obj_ext :: btf_ext
  core_sec_idxs :: "nat list"
  programs :: "bpf_program list"
  btf_vmlinux :: btf
  btf_vmlinux_override :: "btf option"
  btf_modules :: "btf list"
  btf_modules_loaded :: bool
  gen_loader :: bool

section \<open>Sections of the records\<close>

text \<open>
  The part of \<open>bpf_object__init_btf\<close> that fills \<open>sec_idxs\<close> of a segment; a section that is not found
  keeps index 0.
\<close>

definition map_sections :: "bool \<Rightarrow> (u8 list \<Rightarrow> nat option) \<Rightarrow> btf \<Rightarrow> u8 list \<Rightarrow> btf_ext_info \<Rightarrow> nat list res" where
  "map_sections calloc_ok elf_sec_by_name btf data seg =
     (if ei_sec_cnt seg = 0 then Inr []
      else if \<not> calloc_ok then Inl (Err ENOMEM)
      else
        bindr (for_each_sec seg
          (\<lambda>sec (data, (idxs, sec_num)).
             bindr (bindr (rd32 data sec) (name_at btf)) (\<lambda>sec_name.
             if str_is_empty sec_name then Inr (data, (idxs, sec_num + 1))
             else
               (case elf_sec_by_name (the sec_name) of
                  None \<Rightarrow> Inr (data, (idxs, sec_num + 1))
                | Some ndx \<Rightarrow>
                    if sec_num < length idxs then Inr (data, (idxs[sec_num := ndx], sec_num + 1))
                    else Inl UB)))
          (ei_info seg) (data, (replicate (ei_sec_cnt seg) 0, 0))) (\<lambda>(_, (idxs, _)). Inr idxs))"

section \<open>Programs\<close>

definition prog_contains_insn :: "bpf_program \<Rightarrow> nat \<Rightarrow> bool" where
  "prog_contains_insn prog insn_idx \<longleftrightarrow>
     insn_idx \<ge> prog_sec_insn_off prog \<and> insn_idx < prog_sec_insn_off prog + prog_sec_insn_cnt prog"

function find_prog_loop :: "bpf_program list \<Rightarrow> nat \<Rightarrow> nat \<Rightarrow> nat \<Rightarrow> nat \<Rightarrow> nat" where
  "find_prog_loop progs sec_idx insn_idx l r =
     (if l < r
      then
        let m = l + (r - l + 1) div 2; prog = progs ! m in
        if prog_sec_idx prog < sec_idx \<or> prog_sec_idx prog = sec_idx \<and> prog_sec_insn_off prog \<le> insn_idx
        then find_prog_loop progs sec_idx insn_idx m r
        else find_prog_loop progs sec_idx insn_idx l (m - 1)
      else l)"
  by pat_completeness auto
termination by (relation "measure (\<lambda>(progs, sec_idx, insn_idx, l, r). r - l)") auto

declare find_prog_loop.simps [simp del]

text \<open>The result is the index of the program in the array.\<close>

definition find_prog_by_sec_insn :: "bpf_program list \<Rightarrow> nat \<Rightarrow> nat \<Rightarrow> nat option" where
  "find_prog_by_sec_insn progs sec_idx insn_idx =
     (if progs = [] then None
      else
        let l = find_prog_loop progs sec_idx insn_idx 0 (length progs - 1); prog = progs ! l in
        if prog_sec_idx prog = sec_idx \<and> prog_contains_insn prog insn_idx then Some l else None)"

section \<open>Candidates\<close>

fun add_cands_loop ::
  "(nat \<Rightarrow> bool) \<Rightarrow> btf_kind \<Rightarrow> u8 list \<Rightarrow> nat \<Rightarrow> btf \<Rightarrow> nat list \<Rightarrow> relo_cand list \<Rightarrow> relo_cand list res" where
  "add_cands_loop mem local_kind local_name local_essent_len targ_btf [] cands = Inr cands"
| "add_cands_loop mem local_kind local_name local_essent_len targ_btf (i # is) cands =
     bindr (type_at targ_btf i) (\<lambda>t.
     bindr (btf_kind t) (\<lambda>kind.
     if \<not> btf_kind_core_compat kind local_kind
     then add_cands_loop mem local_kind local_name local_essent_len targ_btf is cands
     else
       bindr (bindr (t_name_off t) (name_at targ_btf)) (\<lambda>targ_name.
       if str_is_empty targ_name
       then add_cands_loop mem local_kind local_name local_essent_len targ_btf is cands
       else if bpf_core_essential_name_len (the targ_name) \<noteq> local_essent_len
       then add_cands_loop mem local_kind local_name local_essent_len targ_btf is cands
       else if take local_essent_len local_name \<noteq> take local_essent_len (the targ_name)
       then add_cands_loop mem local_kind local_name local_essent_len targ_btf is cands
       else if \<not> mem (length cands) then Inl (Err ENOMEM)
       else
         add_cands_loop mem local_kind local_name local_essent_len targ_btf is
           (cands @ [\<lparr>cand_btf = targ_btf, cand_id = i\<rparr>]))))"

definition bpf_core_add_cands ::
  "(nat \<Rightarrow> bool) \<Rightarrow> btf \<Rightarrow> nat \<Rightarrow> nat \<Rightarrow> btf \<Rightarrow> nat \<Rightarrow> relo_cand list \<Rightarrow> relo_cand list res" where
  "bpf_core_add_cands mem local_btf local_id local_essent_len targ_btf targ_start_id cands =
     bindr (type_at local_btf local_id) (\<lambda>local_t.
     bindr (btf_kind local_t) (\<lambda>local_kind.
     bindr (bindr (bindr (t_name_off local_t) (name_at local_btf)) deref) (\<lambda>local_name.
       add_cands_loop mem local_kind local_name local_essent_len targ_btf
         [targ_start_id..<btf__type_cnt targ_btf] cands)))"

text \<open>
  \<open>load_module_btfs\<close> asks the kernel; the argument holds the modules' types and the error, if any.
\<close>

definition load_module_btfs :: "btf list \<times> errno option \<Rightarrow> bpf_object \<Rightarrow> bpf_object \<times> errno option" where
  "load_module_btfs mods obj =
     (if btf_modules_loaded obj then (obj, None)
      else if gen_loader obj then (obj, None)
      else (obj\<lparr>btf_modules_loaded := True, btf_modules := fst mods\<rparr>, snd mods))"

fun add_module_cands ::
  "(nat \<Rightarrow> bool) \<Rightarrow> btf \<Rightarrow> nat \<Rightarrow> nat \<Rightarrow> nat \<Rightarrow> btf list \<Rightarrow> relo_cand list \<Rightarrow> relo_cand list res" where
  "add_module_cands mem local_btf local_id local_essent_len start [] cands = Inr cands"
| "add_module_cands mem local_btf local_id local_essent_len start (b # bs) cands =
     bindr (bpf_core_add_cands mem local_btf local_id local_essent_len b start cands)
       (add_module_cands mem local_btf local_id local_essent_len start bs)"

definition bpf_core_find_cands ::
  "bool \<Rightarrow> (nat \<Rightarrow> bool) \<Rightarrow> btf list \<times> errno option \<Rightarrow> bpf_object \<Rightarrow> btf \<Rightarrow> nat \<Rightarrow>
   (relo_cand list \<times> bpf_object) res" where
  "bpf_core_find_cands calloc_ok mem mods obj local_btf local_type_id =
     bindr (btf__type_by_id local_btf local_type_id) (\<lambda>local_t.
     case local_t of
       None \<Rightarrow> Inl (Err EINVAL)
     | Some local_t \<Rightarrow>
         bindr (bindr (t_name_off local_t) (name_at local_btf)) (\<lambda>local_name.
         if str_is_empty local_name then Inl (Err EINVAL)
         else if \<not> calloc_ok then Inl (Err ENOMEM)
         else
           let local_essent_len = bpf_core_essential_name_len (the local_name);
               main_btf = (case btf_vmlinux_override obj of Some b \<Rightarrow> b | None \<Rightarrow> btf_vmlinux obj) in
           bindr (bpf_core_add_cands mem local_btf local_type_id local_essent_len main_btf 1 []) (\<lambda>cands.
           if cands \<noteq> [] then Inr (cands, obj)
           else if btf_vmlinux_override obj \<noteq> None then Inr (cands, obj)
           else
             (case load_module_btfs mods obj of
                (obj, Some e) \<Rightarrow> Inl (Err e)
              | (obj, None) \<Rightarrow>
                  bindr (add_module_cands mem local_btf local_type_id local_essent_len
                      (btf__type_cnt (btf_vmlinux obj)) (btf_modules obj) cands) (\<lambda>cands.
                    Inr (cands, obj))))))"

section \<open>The cache of candidates\<close>

definition bpf_core_hash_fn :: "u64 \<Rightarrow> unit \<Rightarrow> u64" where
  "bpf_core_hash_fn key ctx = key"

definition bpf_core_equal_fn :: "u64 \<Rightarrow> u64 \<Rightarrow> unit \<Rightarrow> bool" where
  "bpf_core_equal_fn k1 k2 ctx \<longleftrightarrow> k1 = k2"

interpretation core_cache: hash_client bpf_core_hash_fn bpf_core_equal_fn
  by unfold_locales (auto simp: bpf_core_hash_fn_def bpf_core_equal_fn_def)

text \<open>What varies from one relocation to the next: the outcomes of the allocations, by record.\<close>

record core_env =
  relo_fuel :: nat
  desc_ok :: "nat \<Rightarrow> bool"
  list_ok :: "nat \<Rightarrow> bool"
  cands_ok :: "nat \<Rightarrow> nat \<Rightarrow> bool"
  set_ok :: "nat \<Rightarrow> bool \<times> bool"
  modules :: "btf list \<times> errno option"

record core_run =
  run_obj :: bpf_object
  run_cache :: "unit hashmap"
  run_lists :: "relo_cand list list"
  run_sec_num :: nat

definition record_relo_core :: "bool \<Rightarrow> nat \<Rightarrow> nat \<Rightarrow> bpf_program \<Rightarrow> bpf_program res" where
  "record_relo_core realloc_ok core_relo insn_idx prog =
     (if \<not> realloc_ok then Inl (Err ENOMEM)
      else Inr (prog\<lparr>prog_relocs := prog_relocs prog @ [RELO_CORE insn_idx core_relo]\<rparr>))"

fun find_relo_core :: "reloc_desc list \<Rightarrow> nat \<Rightarrow> nat option" where
  "find_relo_core [] insn_idx = None"
| "find_relo_core (RELO_CORE idx core_relo # descs) insn_idx =
     (if idx \<noteq> insn_idx then find_relo_core descs insn_idx else Some core_relo)"
| "find_relo_core (RELO_OTHER # descs) insn_idx = find_relo_core descs insn_idx"

text \<open>The list of candidates for a type: its index in the store.\<close>

definition cached_cands :: "core_env \<Rightarrow> nat \<Rightarrow> nat \<Rightarrow> core_run \<Rightarrow> (nat \<times> core_run) res" where
  "cached_cands env r local_id st =
     (case hashmap_find () (run_cache st) (word_of_nat local_id) of
        Some v \<Rightarrow> Inr (unat v, st)
      | None \<Rightarrow>
          bindr (bpf_core_find_cands (list_ok env r) (cands_ok env r) (modules env) (run_obj st)
              (obj_btf (run_obj st)) local_id) (\<lambda>(cands, obj).
            let idx = length (run_lists st) in
            case hashmap_insert (fst (set_ok env r)) (snd (set_ok env r)) () (run_cache st)
                (word_of_nat local_id) (word_of_nat idx) HASHMAP_SET of
              (Some e, _) \<Rightarrow> Inl (Err e)
            | (None, cache, _) \<Rightarrow>
                Inr (idx, st\<lparr>run_obj := obj, run_cache := cache, run_lists := run_lists st @ [cands]\<rparr>)))"

definition bpf_core_resolve_relo ::
  "core_env \<Rightarrow> nat \<Rightarrow> bpf_core_relo \<Rightarrow> core_run \<Rightarrow> (bpf_core_relo_res \<times> core_run) res" where
  "bpf_core_resolve_relo env r relo st =
     (let local_btf = obj_btf (run_obj st); local_id = relo_type_id relo in
      bindr (btf__type_by_id local_btf local_id) (\<lambda>local_type.
      case local_type of
        None \<Rightarrow> Inl (Err EINVAL)
      | Some local_type \<Rightarrow>
          bindr (bindr (t_name_off local_type) (name_at local_btf)) (\<lambda>local_name.
          if local_name = None then Inl (Err EINVAL)
          else if relo_kind_of relo = BPF_CORE_TYPE_ID_LOCAL
          then bindr (bpf_core_calc_relo_insn (relo_fuel env) relo local_btf []) (\<lambda>(res, _). Inr (res, st))
          else
            bindr (cached_cands env r local_id st) (\<lambda>(idx, st).
            bindr (arr (run_lists st) idx) (\<lambda>cands.
            bindr (bpf_core_calc_relo_insn (relo_fuel env) relo local_btf cands) (\<lambda>(res, cands).
              Inr (res, st\<lparr>run_lists := (run_lists st)[idx := cands]\<rparr>)))))))"

section \<open>Relocating an object\<close>

definition relo_kinds :: "relo_kind list" where
  "relo_kinds =
    [BPF_CORE_FIELD_BYTE_OFFSET, BPF_CORE_FIELD_BYTE_SIZE, BPF_CORE_FIELD_EXISTS, BPF_CORE_FIELD_SIGNED,
     BPF_CORE_FIELD_LSHIFT_U64, BPF_CORE_FIELD_RSHIFT_U64, BPF_CORE_TYPE_ID_LOCAL, BPF_CORE_TYPE_ID_TARGET,
     BPF_CORE_TYPE_EXISTS, BPF_CORE_TYPE_SIZE, BPF_CORE_ENUMVAL_EXISTS, BPF_CORE_ENUMVAL_VALUE,
     BPF_CORE_TYPE_MATCHES]"

definition read_relo :: "u8 list \<Rightarrow> nat \<Rightarrow> bpf_core_relo res" where
  "read_relo data r =
     bindr (rd32 data (r + 4)) (\<lambda>type_id.
     bindr (rd32 data (r + 8)) (\<lambda>str_off.
     bindr (rd32 data (r + 12)) (\<lambda>kind.
       Inr \<lparr>relo_type_id = type_id, relo_access_str_off = str_off,
            relo_kind_of = (if kind < 13 then relo_kinds ! kind else BPF_CORE_OTHER kind)\<rparr>)))"

definition set_prog :: "nat \<Rightarrow> bpf_program \<Rightarrow> core_run \<Rightarrow> core_run" where
  "set_prog p prog st = st\<lparr>run_obj := (run_obj st)\<lparr>programs := (programs (run_obj st))[p := prog]\<rparr>\<rparr>"

text \<open>One record: it is recorded with its program, resolved, and the instruction is patched.\<close>

definition apply_relo :: "core_env \<Rightarrow> u8 list \<Rightarrow> nat \<Rightarrow> nat \<Rightarrow> nat \<Rightarrow> core_run \<Rightarrow> core_run res" where
  "apply_relo env data r p insn_idx st =
     bindr (read_relo data r) (\<lambda>relo.
     bindr (bpf_core_resolve_relo env r relo st) (\<lambda>(res, st).
     let prog = programs (run_obj st) ! p in
     bindr (bpf_core_patch_insn (prog_insns prog) insn_idx res) (\<lambda>(insns, err).
       case err of
         Some e \<Rightarrow> Inl (Err e)
       | None \<Rightarrow> Inr (set_prog p (prog\<lparr>prog_insns := insns\<rparr>) st))))"

definition relocate_record :: "core_env \<Rightarrow> u8 list \<Rightarrow> nat \<Rightarrow> nat \<Rightarrow> core_run \<Rightarrow> core_run res" where
  "relocate_record env data sec_idx r st =
     bindr (rd32 data r) (\<lambda>insn_off.
     if insn_off mod 8 \<noteq> 0 then Inl (Err EINVAL)
     else
       (case find_prog_by_sec_insn (programs (run_obj st)) sec_idx (insn_off div 8) of
          None \<Rightarrow> Inr st
        | Some p \<Rightarrow>
            let prog = programs (run_obj st) ! p; insn_idx = insn_off div 8 - prog_sec_insn_off prog in
            if \<not> prog_autoload prog then Inr st
            else if insn_idx \<ge> length (prog_insns prog) then Inl (Err EINVAL)
            else
              bindr (record_relo_core (desc_ok env r) r insn_idx prog) (\<lambda>prog.
              let st = set_prog p prog st in
              if gen_loader (run_obj st) then Inr st else apply_relo env data r p insn_idx st)))"

definition relocate_sec :: "core_env \<Rightarrow> btf_ext_info \<Rightarrow> nat \<Rightarrow> u8 list \<times> core_run \<Rightarrow> (u8 list \<times> core_run) res" where
  "relocate_sec env seg sec = (\<lambda>(data, st).
     bindr (arr (core_sec_idxs (run_obj st)) (run_sec_num st)) (\<lambda>sec_idx.
     let st = st\<lparr>run_sec_num := run_sec_num st + 1\<rparr> in
     bindr (bindr (rd32 data sec) (name_at (obj_btf (run_obj st)))) (\<lambda>sec_name.
     if str_is_empty sec_name then Inl (Err EINVAL)
     else
       sec_each seg sec (\<lambda>r (data, st). bindr (relocate_record env data sec_idx r st) (\<lambda>st. Inr (data, st)))
         (data, st))))"

text \<open>\<open>targ\<close> is the outcome of parsing the types of the path that was given, if one was.\<close>

definition bpf_object__relocate_core :: "core_env \<Rightarrow> btf res option \<Rightarrow> bool \<Rightarrow> bpf_object \<Rightarrow> bpf_object res" where
  "bpf_object__relocate_core env targ malloc_ok obj =
     (let seg = ext_core_relo_info (obj_ext obj) in
      if ei_len seg = 0 then Inr obj
      else
        bindr (case targ of
                 None \<Rightarrow> Inr obj
               | Some t \<Rightarrow> bindr t (\<lambda>btf. Inr (obj\<lparr>btf_vmlinux_override := Some btf\<rparr>))) (\<lambda>obj.
        case hashmap__new malloc_ok bpf_core_hash_fn bpf_core_equal_fn of
          Inl e \<Rightarrow> Inl (Err e)
        | Inr cand_cache \<Rightarrow>
            bindr (for_each_sec seg (relocate_sec env seg) (ei_info seg)
              (ext_data (obj_ext obj), \<lparr>run_obj = obj, run_cache = cand_cache, run_lists = [], run_sec_num = 0\<rparr>))
              (\<lambda>(_, st). Inr ((run_obj st)\<lparr>btf_vmlinux_override := None\<rparr>))))"

section \<open>The binary search\<close>

text \<open>Programs in the order of their sections and offsets, without overlap.\<close>

definition progs_sorted :: "bpf_program list \<Rightarrow> bool" where
  "progs_sorted progs \<longleftrightarrow>
     sorted_wrt (\<lambda>a b. prog_sec_idx a < prog_sec_idx b \<or>
       prog_sec_idx a = prog_sec_idx b \<and> prog_sec_insn_off a + prog_sec_insn_cnt a \<le> prog_sec_insn_off b) progs"

definition not_after :: "bpf_program \<Rightarrow> nat \<Rightarrow> nat \<Rightarrow> bool" where
  "not_after prog sec_idx insn_idx \<longleftrightarrow>
     prog_sec_idx prog < sec_idx \<or> prog_sec_idx prog = sec_idx \<and> prog_sec_insn_off prog \<le> insn_idx"

lemma not_after_mono:
  assumes "progs_sorted progs" "j \<le> k" "k < length progs" "not_after (progs ! k) s x"
  shows "not_after (progs ! j) s x"
proof (cases "j = k")
  case False
  then have "j < k" using assms(2) by simp
  with assms(1,3) have "prog_sec_idx (progs ! j) < prog_sec_idx (progs ! k) \<or>
       prog_sec_idx (progs ! j) = prog_sec_idx (progs ! k) \<and>
       prog_sec_insn_off (progs ! j) + prog_sec_insn_cnt (progs ! j) \<le> prog_sec_insn_off (progs ! k)"
    by (simp add: progs_sorted_def sorted_wrt_iff_nth_less)
  with assms(4) show ?thesis by (auto simp: not_after_def)
qed (use assms in simp)

lemma find_prog_loop_spec:
  assumes "progs_sorted progs" "l \<le> r" "r < length progs"
  shows "l \<le> find_prog_loop progs s x l r \<and> find_prog_loop progs s x l r \<le> r \<and>
    (find_prog_loop progs s x l r = l \<or> not_after (progs ! find_prog_loop progs s x l r) s x) \<and>
    (\<forall>k. find_prog_loop progs s x l r < k \<and> k \<le> r \<longrightarrow> \<not> not_after (progs ! k) s x)"
  using assms
proof (induction progs s x l r rule: find_prog_loop.induct)
  case (1 progs s x l r)
  show ?case
  proof (cases "l < r")
    case False
    then have "find_prog_loop progs s x l r = l" by (subst find_prog_loop.simps) simp
    with False "1.prems" show ?thesis by auto
  next
    case True
    define m where "m = l + (r - l + 1) div 2"
    have m: "l < m" "m \<le> r" using True by (auto simp: m_def)
    show ?thesis
    proof (cases "not_after (progs ! m) s x")
      case yes: True
      have eq: "find_prog_loop progs s x l r = find_prog_loop progs s x m r"
        using True yes by (subst find_prog_loop.simps) (simp add: m_def not_after_def Let_def)
      have ih: "m \<le> find_prog_loop progs s x m r \<and> find_prog_loop progs s x m r \<le> r \<and>
        (find_prog_loop progs s x m r = m \<or> not_after (progs ! find_prog_loop progs s x m r) s x) \<and>
        (\<forall>k. find_prog_loop progs s x m r < k \<and> k \<le> r \<longrightarrow> \<not> not_after (progs ! k) s x)"
        by (rule "1.IH"(1) [OF True m_def refl]) (use yes m "1.prems" in \<open>auto simp: not_after_def\<close>)
      then show ?thesis unfolding eq using m yes by auto
    next
      case no: False
      have eq: "find_prog_loop progs s x l r = find_prog_loop progs s x l (m - 1)"
        using True no by (subst find_prog_loop.simps) (auto simp: m_def not_after_def Let_def)
      have ih: "l \<le> find_prog_loop progs s x l (m - 1) \<and> find_prog_loop progs s x l (m - 1) \<le> m - 1 \<and>
        (find_prog_loop progs s x l (m - 1) = l \<or> not_after (progs ! find_prog_loop progs s x l (m - 1)) s x) \<and>
        (\<forall>k. find_prog_loop progs s x l (m - 1) < k \<and> k \<le> m - 1 \<longrightarrow> \<not> not_after (progs ! k) s x)"
        by (rule "1.IH"(2) [OF True m_def refl]) (use no m "1.prems" in \<open>auto simp: not_after_def\<close>)
      have "\<not> not_after (progs ! k) s x" if "m \<le> k" "k \<le> r" for k
        using not_after_mono [OF "1.prems"(1) that(1)] that(2) "1.prems"(3) no by auto
      moreover have "k \<le> m - 1 \<or> m \<le> k" for k by linarith
      ultimately show ?thesis unfolding eq using m ih by (meson diff_le_self le_trans)
    qed
  qed
qed

section \<open>Candidates of a type\<close>

text \<open>The test that decides whether a type of the target is a candidate.\<close>

definition cand_test :: "btf_kind \<Rightarrow> u8 list \<Rightarrow> btf \<Rightarrow> nat \<Rightarrow> bool res" where
  "cand_test local_kind local_name targ_btf i =
     bindr (type_at targ_btf i) (\<lambda>t.
     bindr (btf_kind t) (\<lambda>kind.
     if \<not> btf_kind_core_compat kind local_kind then Inr False
     else
       bindr (bindr (t_name_off t) (name_at targ_btf)) (\<lambda>targ_name.
         Inr (\<not> str_is_empty targ_name \<and> same_essence local_name (the targ_name)))))"

definition cands_in :: "btf_kind \<Rightarrow> u8 list \<Rightarrow> btf \<Rightarrow> nat \<Rightarrow> relo_cand list" where
  "cands_in local_kind local_name targ_btf start =
     map (\<lambda>i. \<lparr>cand_btf = targ_btf, cand_id = i\<rparr>)
       (filter (\<lambda>i. cand_test local_kind local_name targ_btf i = Inr True) [start..<btf__type_cnt targ_btf])"

lemma cand_test_returns:
  assumes "btf_ok targ" "targ \<noteq> []" "i < btf__type_cnt targ"
  shows "\<exists>b. cand_test k n targ i = Inr b"
proof -
  from btf__type_by_id_cases [OF assms(1), of i] assms(3) obtain t where t: "btf__type_by_id targ i = Inr (Some t)" "tfits t"
    by auto
  from tfits_words [OF t(2)] obtain kind where k: "btf_kind t = Inr kind" "no_ub (tword t 0)" by blast
  then obtain off where off: "t_name_off t = Inr off"
    by (cases "tword t 0") (auto simp: t_name_off_def tword_def rd_def no_ub_def split: type_ptr.splits if_splits)
  from str_by_offset_cases [OF assms(1,2), of off]
  have "\<exists>s. name_at targ off = Inr s" by (auto simp: name_at_def btf__name_by_offset_def c_str_def)
  then show ?thesis using t k off by (auto simp: cand_test_def type_at_def deref_def)
qed

lemma add_cands_loop_eq:
  assumes "\<And>i. i \<in> set is \<Longrightarrow> \<exists>b. cand_test k ln targ i = Inr b"
  shows "add_cands_loop (\<lambda>_. True) k ln (bpf_core_essential_name_len ln) targ is cands =
    Inr (cands @ map (\<lambda>i. \<lparr>cand_btf = targ, cand_id = i\<rparr>) (filter (\<lambda>i. cand_test k ln targ i = Inr True) is))"
  using assms
proof (induction "is" arbitrary: cands)
  case (Cons i "is")
  then obtain b where b: "cand_test k ln targ i = Inr b" by auto
  have step: "add_cands_loop (\<lambda>_. True) k ln (bpf_core_essential_name_len ln) targ (i # is) cands =
      add_cands_loop (\<lambda>_. True) k ln (bpf_core_essential_name_len ln) targ is
        (if b then cands @ [\<lparr>cand_btf = targ, cand_id = i\<rparr>] else cands)"
    using b by (auto simp: cand_test_def bindr_eq_Inr same_essence_def Let_def)
  show ?case unfolding step using Cons by (auto simp: b)
qed simp

lemma add_cands_eq:
  assumes "btf_ok targ" "targ \<noteq> []"
    and "type_at local_btf local_id = Inr lt" "btf_kind lt = Inr lk"
      "bindr (t_name_off lt) (name_at local_btf) = Inr (Some ln)"
  shows "bpf_core_add_cands (\<lambda>_. True) local_btf local_id (bpf_core_essential_name_len ln) targ start cands =
    Inr (cands @ cands_in lk ln targ start)"
proof -
  have "\<exists>b. cand_test lk ln targ i = Inr b" if "i \<in> set [start..<btf__type_cnt targ]" for i
    using cand_test_returns [OF assms(1,2)] that by simp
  from add_cands_loop_eq [of "[start..<btf__type_cnt targ]", OF this] show ?thesis
    by (simp add: bpf_core_add_cands_def assms(3-5) deref_def cands_in_def)
qed

lemma add_module_cands_eq:
  assumes "\<forall>b \<in> set bs. btf_ok b \<and> b \<noteq> []"
    and "type_at local_btf local_id = Inr lt" "btf_kind lt = Inr lk"
      "bindr (t_name_off lt) (name_at local_btf) = Inr (Some ln)"
  shows "add_module_cands (\<lambda>_. True) local_btf local_id (bpf_core_essential_name_len ln) start bs cands =
    Inr (cands @ concat (map (\<lambda>b. cands_in lk ln b start) bs))"
  using assms(1) by (induction bs arbitrary: cands) (simp_all add: add_cands_eq [OF _ _ assms(2-4)])

section \<open>The cache\<close>

text \<open>
  What the cache holds: every key is mapped to a list of its own in the store, and that list is made of
  candidates that the search for the key found, in their order.
\<close>

definition cache_ok :: "(nat \<Rightarrow> relo_cand list) \<Rightarrow> core_run \<Rightarrow> bool" where
  "cache_ok found st \<longleftrightarrow>
     hm_served bpf_core_hash_fn bpf_core_equal_fn () (run_cache st) \<and> hm_unique () (run_cache st) \<and>
     length (run_lists st) < 2 ^ 64 \<and>
     (\<forall>tid v. tid < 2 ^ 32 \<and> hashmap_find () (run_cache st) (word_of_nat tid) = Some v \<longrightarrow>
        unat v < length (run_lists st) \<and> subseq (run_lists st ! unat v) (found tid)) \<and>
     (\<forall>tid tid' v. tid < 2 ^ 32 \<and> tid' < 2 ^ 32 \<and> hashmap_find () (run_cache st) (word_of_nat tid) = Some v \<and>
        hashmap_find () (run_cache st) (word_of_nat tid') = Some v \<longrightarrow> tid = tid')"

lemma key_inj: "tid < 2 ^ 32 \<Longrightarrow> tid' < 2 ^ 32 \<Longrightarrow> (word_of_nat tid :: u64) = word_of_nat tid' \<longleftrightarrow> tid = tid'"
  by (simp add: word_of_nat_eq_iff take_bit_nat_eq_self)

lemma cache_insert:
  assumes ok: "cache_ok found st" and tid: "tid < 2 ^ 32" "hashmap_find () (run_cache st) (word_of_nat tid) = None"
    and room: "Suc (length (run_lists st)) < 2 ^ 64" and sub: "subseq cands (found tid)"
    and ins: "hashmap_insert a b () (run_cache st) (word_of_nat tid) (word_of_nat (length (run_lists st))) HASHMAP_SET =
      (None, cache, x)"
  shows "cache_ok found (st\<lparr>run_obj := obj, run_cache := cache, run_lists := run_lists st @ [cands]\<rparr>)"
proof -
  let ?n = "length (run_lists st)"
  obtain ok1 ov where x: "x = (ok1, ov)" by fastforce
  have served: "hm_served bpf_core_hash_fn bpf_core_equal_fn () (run_cache st)" "hm_unique () (run_cache st)"
    using ok by (simp_all add: cache_ok_def)
  note new = core_cache.insert_correct [OF served _ ins [unfolded x]]
  have find: "hashmap_find () cache k = (if k = word_of_nat tid then Some (word_of_nat ?n) else hashmap_find () (run_cache st) k)" for k
    using new by (simp add: core_cache.find_correct new(1) core_cache.find_correct [OF served(1)] bpf_core_equal_fn_def)
  have n: "unat (word_of_nat ?n :: u64) = ?n" using room by (simp add: unat_of_nat take_bit_nat_eq_self unsigned_of_nat)
  have old: "unat v < ?n \<and> subseq (run_lists st ! unat v) (found tid')"
    if "tid' < 2 ^ 32" "hashmap_find () (run_cache st) (word_of_nat tid') = Some v" for tid' v
    using ok that by (auto simp: cache_ok_def)
  have fresh: "v \<noteq> word_of_nat ?n" if "tid' < 2 ^ 32" "hashmap_find () (run_cache st) (word_of_nat tid') = Some v" for tid' v
    using old [OF that] n by auto
  show ?thesis
    unfolding cache_ok_def
  proof (intro conjI allI impI; (elim conjE)?)
    fix tid' v assume a: "tid' < 2 ^ 32" "hashmap_find () (run_cache (st\<lparr>run_obj := obj, run_cache := cache, run_lists := run_lists st @ [cands]\<rparr>)) (word_of_nat tid') = Some v"
    then show "unat v < length (run_lists (st\<lparr>run_obj := obj, run_cache := cache, run_lists := run_lists st @ [cands]\<rparr>))"
      "subseq (run_lists (st\<lparr>run_obj := obj, run_cache := cache, run_lists := run_lists st @ [cands]\<rparr>) ! unat v) (found tid')"
      using old [of tid' v] sub key_inj [OF a(1) tid(1)] by (auto simp: find n nth_append split: if_splits)
  next
    fix id1 id2 v
    assume "id1 < 2 ^ 32" "id2 < 2 ^ 32"
      "hashmap_find () (run_cache (st\<lparr>run_obj := obj, run_cache := cache, run_lists := run_lists st @ [cands]\<rparr>)) (word_of_nat id1) = Some v"
      "hashmap_find () (run_cache (st\<lparr>run_obj := obj, run_cache := cache, run_lists := run_lists st @ [cands]\<rparr>)) (word_of_nat id2) = Some v"
    then show "id1 = id2"
      using fresh [of id1 v] fresh [of id2 v] key_inj [OF _ tid(1)] ok unfolding cache_ok_def
      by (auto simp: find split: if_splits)
  qed (use new room in \<open>auto\<close>)
qed

text \<open>The search with failing allocations finds what the search without them finds, or fails.\<close>

lemma add_cands_step:
  "\<exists>test. \<forall>mem cands. add_cands_loop mem k ln n targ (i # is) cands =
     bindr test (\<lambda>b. if \<not> b then add_cands_loop mem k ln n targ is cands
       else if \<not> mem (length cands) then Inl (Err ENOMEM)
       else add_cands_loop mem k ln n targ is (cands @ [\<lparr>cand_btf = targ, cand_id = i\<rparr>]))"
proof (cases "type_at targ i")
  case (Inr ty)
  show ?thesis
  proof (cases "btf_kind ty")
    case kind: (Inr kind)
    show ?thesis
    proof (cases "btf_kind_core_compat kind k")
      case True
      show ?thesis
        by (rule exI [of _ "bindr (bindr (t_name_off ty) (name_at targ)) (\<lambda>s. Inr (\<not> str_is_empty s \<and>
            bpf_core_essential_name_len (the s) = n \<and> take n ln = take n (the s)))"])
          (cases "bindr (t_name_off ty) (name_at targ)"; auto simp: Inr kind True)
    next
      case False
      then show ?thesis by (intro exI [of _ "Inr False"]) (simp add: Inr kind)
    qed
  qed (auto simp: Inr intro: exI [of _ "Inl e" for e])
qed (auto intro: exI [of _ "Inl e" for e])

lemma add_cands_loop_mem:
  "add_cands_loop mem k ln n targ is cands = Inr c \<Longrightarrow> add_cands_loop (\<lambda>_. True) k ln n targ is cands = Inr c"
proof (induction "is" arbitrary: cands)
  case (Cons i "is")
  from add_cands_step [of k ln n targ i "is"] obtain test where step: "add_cands_loop mem k ln n targ (i # is) cands =
     bindr test (\<lambda>b. if \<not> b then add_cands_loop mem k ln n targ is cands
       else if \<not> mem (length cands) then Inl (Err ENOMEM)
       else add_cands_loop mem k ln n targ is (cands @ [\<lparr>cand_btf = targ, cand_id = i\<rparr>]))" for mem cands by blast
  from Cons.prems [unfolded step] show ?case unfolding step
    using Cons.IH by (auto simp: bindr_eq_Inr split: if_splits)
qed simp

lemma add_cands_mem:
  "bpf_core_add_cands mem lb tid n targ s cands = Inr c \<Longrightarrow> bpf_core_add_cands (\<lambda>_. True) lb tid n targ s cands = Inr c"
  by (auto simp: bpf_core_add_cands_def bindr_eq_Inr dest: add_cands_loop_mem)

lemma add_module_mem:
  "add_module_cands mem lb tid n s bs cands = Inr c \<Longrightarrow> add_module_cands (\<lambda>_. True) lb tid n s bs cands = Inr c"
  by (induction bs arbitrary: cands) (auto simp: bindr_eq_Inr dest: add_cands_mem)

text \<open>An object on which the search has the same outcome: only the modules may have been loaded since.\<close>

definition same_kernel :: "btf list \<Rightarrow> bpf_object \<Rightarrow> bpf_object \<Rightarrow> bool" where
  "same_kernel mods obj obj' \<longleftrightarrow>
     obj_btf obj' = obj_btf obj \<and> btf_vmlinux obj' = btf_vmlinux obj \<and>
     btf_vmlinux_override obj' = btf_vmlinux_override obj \<and> gen_loader obj' = gen_loader obj \<and>
     (btf_modules obj' = btf_modules obj \<and> btf_modules_loaded obj' = btf_modules_loaded obj \<or>
      \<not> btf_modules_loaded obj \<and> \<not> gen_loader obj \<and> btf_modules_loaded obj' \<and> btf_modules obj' = mods)"

definition core_found :: "bpf_object \<Rightarrow> btf list \<Rightarrow> nat \<Rightarrow> relo_cand list" where
  "core_found obj mods tid =
     (case bpf_core_find_cands True (\<lambda>_. True) (mods, None) obj (obj_btf obj) tid of
        Inl e \<Rightarrow> []
      | Inr (cands, _) \<Rightarrow> cands)"

text \<open>The search with the types of the modules given.\<close>

definition core_search :: "bool \<Rightarrow> (nat \<Rightarrow> bool) \<Rightarrow> bpf_object \<Rightarrow> btf list \<Rightarrow> nat \<Rightarrow> (relo_cand list \<times> bool) res" where
  "core_search calloc_ok mem obj mods tid =
     bindr (btf__type_by_id (obj_btf obj) tid) (\<lambda>local_t.
     case local_t of
       None \<Rightarrow> Inl (Err EINVAL)
     | Some local_t \<Rightarrow>
         bindr (bindr (t_name_off local_t) (name_at (obj_btf obj))) (\<lambda>local_name.
         if str_is_empty local_name then Inl (Err EINVAL)
         else if \<not> calloc_ok then Inl (Err ENOMEM)
         else
           let n = bpf_core_essential_name_len (the local_name);
               main_btf = (case btf_vmlinux_override obj of Some b \<Rightarrow> b | None \<Rightarrow> btf_vmlinux obj) in
           bindr (bpf_core_add_cands mem (obj_btf obj) tid n main_btf 1 []) (\<lambda>cands.
           if cands \<noteq> [] \<or> btf_vmlinux_override obj \<noteq> None then Inr (cands, False)
           else bindr (add_module_cands mem (obj_btf obj) tid n (btf__type_cnt (btf_vmlinux obj)) mods cands)
             (\<lambda>cands. Inr (cands, True)))))"

lemma find_cands_search:
  "bpf_core_find_cands a mem (mods, None) obj (obj_btf obj) tid =
     (let obj' = fst (load_module_btfs (mods, None) obj) in
      bindr (core_search a mem obj (btf_modules obj') tid) (\<lambda>(cands, loaded). Inr (cands, if loaded then obj' else obj)))"
  unfolding bpf_core_find_cands_def core_search_def Let_def
  by (auto simp: load_module_btfs_def bindr_assoc split: option.splits intro!: arg_cong2 [where f = bindr] ext)

lemma core_search_mem:
  assumes "core_search a mem obj mods tid = Inr x"
  shows "core_search True (\<lambda>_. True) obj mods tid = Inr x"
proof -
  obtain t where t: "btf__type_by_id (obj_btf obj) tid = Inr (Some t)"
    using assms by (auto simp: core_search_def bindr_eq_Inr split: option.splits)
  obtain s where s: "bindr (t_name_off t) (name_at (obj_btf obj)) = Inr s" "\<not> str_is_empty s" and a: a
    using assms by (auto simp: core_search_def t bindr_eq_Inr split: if_splits)
  define n main where "n = bpf_core_essential_name_len (the s)"
    and "main = (case btf_vmlinux_override obj of Some b \<Rightarrow> b | None \<Rightarrow> btf_vmlinux obj)"
  have eq: "core_search True m obj mods tid = bindr (bpf_core_add_cands m (obj_btf obj) tid n main 1 []) (\<lambda>cands.
      if cands \<noteq> [] \<or> btf_vmlinux_override obj \<noteq> None then Inr (cands, False)
      else bindr (add_module_cands m (obj_btf obj) tid n (btf__type_cnt (btf_vmlinux obj)) mods cands)
        (\<lambda>cands. Inr (cands, True)))" for m
    unfolding n_def main_def by (simp add: core_search_def t s Let_def)
  have "core_search True mem obj mods tid = Inr x" using assms a by simp
  then obtain cands where c: "bpf_core_add_cands mem (obj_btf obj) tid n main 1 [] = Inr cands"
    unfolding eq bindr_eq_Inr by blast
  show ?thesis
  proof (cases "cands \<noteq> [] \<or> btf_vmlinux_override obj \<noteq> None")
    case True
    with assms a c have x: "x = (cands, False)" by (auto simp: eq c simp del: One_nat_def)
    show ?thesis unfolding eq add_cands_mem [OF c] using True x by simp
  next
    case False
    with assms a c obtain l where l: "add_module_cands mem (obj_btf obj) tid n (btf__type_cnt (btf_vmlinux obj)) mods cands = Inr l"
      "x = (l, True)" by (auto simp: eq c bindr_eq_Inr simp del: One_nat_def)
    from add_module_mem [OF l(1)] show ?thesis unfolding eq add_cands_mem [OF c] using False l(2) by simp
  qed
qed

lemma core_search_same:
  assumes "same_kernel mods obj obj'"
  shows "core_search a mem obj' = core_search a mem obj"
    "btf_modules (fst (load_module_btfs (mods, None) obj')) = btf_modules (fst (load_module_btfs (mods, None) obj))"
proof -
  have same: "obj_btf obj' = obj_btf obj" "btf_vmlinux obj' = btf_vmlinux obj"
    "btf_vmlinux_override obj' = btf_vmlinux_override obj"
    using assms by (simp_all add: same_kernel_def)
  have "core_search a mem obj' m t = core_search a mem obj m t" for m t
    unfolding core_search_def same by (rule refl)
  then show "core_search a mem obj' = core_search a mem obj" by blast
  show "btf_modules (fst (load_module_btfs (mods, None) obj')) = btf_modules (fst (load_module_btfs (mods, None) obj))"
    using assms by (auto simp: same_kernel_def load_module_btfs_def)
qed

lemma find_cands_found:
  assumes s: "same_kernel mods obj obj'" and f: "bpf_core_find_cands a mem (mods, None) obj' (obj_btf obj') tid = Inr (cands, obj2)"
  shows "cands = core_found obj mods tid" "same_kernel mods obj obj2" "programs obj2 = programs obj'"
    "obj_ext obj2 = obj_ext obj'" "core_sec_idxs obj2 = core_sec_idxs obj'"
proof -
  let ?m = "btf_modules (fst (load_module_btfs (mods, None) obj'))"
  from f obtain loaded where l: "core_search a mem obj' ?m tid = Inr (cands, loaded)"
    "obj2 = (if loaded then fst (load_module_btfs (mods, None) obj') else obj')"
    unfolding find_cands_search Let_def by (auto simp: bindr_eq_Inr)
  from core_search_mem [OF l(1)] show "cands = core_found obj mods tid"
    by (simp add: core_found_def find_cands_search Let_def core_search_same [OF s])
  show "same_kernel mods obj obj2" "programs obj2 = programs obj'"
    "obj_ext obj2 = obj_ext obj'" "core_sec_idxs obj2 = core_sec_idxs obj'"
    using s by (auto simp: l(2) load_module_btfs_def same_kernel_def)
qed

lemma calc_relo_keep:
  assumes "bpf_core_calc_relo_insn f relo local_btf cands = Inr (res, keep)"
  shows "subseq keep cands"
proof -
  have "subseq k cands" if "calc_cands f kind ls cands None [] = Inr (best, k)" for kind ls best k
    using calc_cands_start [OF that] by simp
  with assms show ?thesis
    by (auto simp: bpf_core_calc_relo_insn_def bindr_eq_Inr Let_def split: if_splits option.splits)
qed

text \<open>The cache as a map from type numbers to lists of candidates.\<close>

definition cached :: "core_run \<Rightarrow> nat \<Rightarrow> relo_cand list option" where
  "cached st tid =
     (case hashmap_find () (run_cache st) (word_of_nat tid) of
        None \<Rightarrow> None | Some v \<Rightarrow> Some (run_lists st ! unat v))"

text \<open>What fetching the candidates of a type leaves: \<open>i\<close> is the index of their list.\<close>

definition fetched :: "bpf_object \<Rightarrow> btf list \<Rightarrow> core_run \<Rightarrow> nat \<Rightarrow> nat \<Rightarrow> core_run \<Rightarrow> bool" where
  "fetched obj mods st tid i st' \<longleftrightarrow>
     cache_ok (core_found obj mods) st' \<and> same_kernel mods obj (run_obj st') \<and>
     programs (run_obj st') = programs (run_obj st) \<and> core_sec_idxs (run_obj st') = core_sec_idxs (run_obj st) \<and>
     run_sec_num st' = run_sec_num st \<and> length (run_lists st') \<le> Suc (length (run_lists st)) \<and>
     hashmap_find () (run_cache st') (word_of_nat tid) = Some (word_of_nat i) \<and> i < length (run_lists st') \<and>
     run_lists st' ! i = (case cached st tid of Some l \<Rightarrow> l | None \<Rightarrow> core_found obj mods tid) \<and>
     (\<forall>t. t < 2 ^ 32 \<and> t \<noteq> tid \<longrightarrow> cached st' t = cached st t)"

lemma cached_fetch:
  assumes ok: "cache_ok (core_found obj mods) st" and same: "same_kernel mods obj (run_obj st)"
    and tid: "tid < 2 ^ 32" and room: "Suc (length (run_lists st)) < 2 ^ 64" and m: "modules env = (mods, None)"
    and c: "cached_cands env r tid st = Inr (i, st')"
  shows "fetched obj mods st tid i st'"
proof (cases "hashmap_find () (run_cache st) (word_of_nat tid)")
  case (Some v)
  with c have "i = unat v" "st' = st" by (auto simp: cached_cands_def)
  with Some ok tid same show ?thesis by (auto simp: cache_ok_def cached_def fetched_def)
next
  case None
  let ?n = "length (run_lists st)"
  from c None obtain cands obj2 cache x where
    f: "bpf_core_find_cands (list_ok env r) (cands_ok env r) (mods, None) (run_obj st) (obj_btf (run_obj st)) tid = Inr (cands, obj2)"
    and ins: "hashmap_insert (fst (set_ok env r)) (snd (set_ok env r)) () (run_cache st) (word_of_nat tid)
        (word_of_nat ?n) HASHMAP_SET = (None, cache, x)"
    and i: "i = ?n" and st': "st' = st\<lparr>run_obj := obj2, run_cache := cache, run_lists := run_lists st @ [cands]\<rparr>"
  proof -
    from c None obtain cands obj2 where
      f: "bpf_core_find_cands (list_ok env r) (cands_ok env r) (mods, None) (run_obj st) (obj_btf (run_obj st)) tid = Inr (cands, obj2)"
      by (auto simp: cached_cands_def bindr_eq_Inr m)
    obtain e cache ok1 ov where ins: "hashmap_insert (fst (set_ok env r)) (snd (set_ok env r)) () (run_cache st)
        (word_of_nat tid) (word_of_nat ?n) HASHMAP_SET = (e, cache, ok1, ov)" by (metis surj_pair)
    from c None f ins show thesis
      by (cases e) (auto simp: cached_cands_def Let_def m intro: that [OF f])
  qed
  note found = find_cands_found [OF same f]
  obtain ok1 ov where x: "x = (ok1, ov)" by fastforce
  have served: "hm_served bpf_core_hash_fn bpf_core_equal_fn () (run_cache st)" "hm_unique () (run_cache st)"
    using ok by (simp_all add: cache_ok_def)
  note new = core_cache.insert_correct [OF served _ ins [unfolded x]]
  have find: "hashmap_find () cache k = (if k = word_of_nat tid then Some (word_of_nat ?n) else hashmap_find () (run_cache st) k)" for k
    using new by (simp add: core_cache.find_correct new(1) core_cache.find_correct [OF served(1)] bpf_core_equal_fn_def)
  have "cache_ok (core_found obj mods) st'"
    unfolding st' by (rule cache_insert [OF ok tid None room _ ins]) (simp add: found(1))
  moreover have "cached st' t = cached st t" if "t < 2 ^ 32" "t \<noteq> tid" for t
  proof (cases "hashmap_find () (run_cache st) (word_of_nat t)")
    case (Some v)
    then have "unat v < ?n" using ok that(1) unfolding cache_ok_def by blast
    then show ?thesis using Some key_inj [OF that(1) tid] that(2) by (simp add: cached_def st' find nth_append)
  qed (use key_inj [OF that(1) tid] that(2) in \<open>simp add: cached_def st' find\<close>)
  ultimately show ?thesis using found None by (simp add: fetched_def) (simp add: st' i cached_def find)
qed

text \<open>A list of the cache is replaced by a pruned one.\<close>

lemma cache_prune:
  assumes ok: "cache_ok found st" and tid: "tid < 2 ^ 32" "hashmap_find () (run_cache st) (word_of_nat tid) = Some v"
    and sub: "subseq keep (run_lists st ! unat v)"
  shows "cache_ok found (st\<lparr>run_lists := (run_lists st)[unat v := keep]\<rparr>)"
    and "cached (st\<lparr>run_lists := (run_lists st)[unat v := keep]\<rparr>) tid = Some keep"
    and "t < 2 ^ 32 \<Longrightarrow> t \<noteq> tid \<Longrightarrow> cached (st\<lparr>run_lists := (run_lists st)[unat v := keep]\<rparr>) t = cached st t"
proof -
  have v: "unat v < length (run_lists st)" "subseq (run_lists st ! unat v) (found tid)"
    using ok tid unfolding cache_ok_def by blast+
  have other: "unat w \<noteq> unat v" if "t < 2 ^ 32" "hashmap_find () (run_cache st) (word_of_nat t) = Some w" "t \<noteq> tid" for t w
    using ok that tid unfolding cache_ok_def word_unat_eq_iff [symmetric] by blast
  have "unat w < length (run_lists st) \<and> subseq ((run_lists st)[unat v := keep] ! unat w) (found t)"
    if "t < 2 ^ 32" "hashmap_find () (run_cache st) (word_of_nat t) = Some w" for t w
  proof (cases "t = tid")
    case True
    then show ?thesis using that tid v subseq_order.order_trans [OF sub v(2)] by simp
  next
    case False
    have "unat w < length (run_lists st) \<and> subseq (run_lists st ! unat w) (found t)"
      using ok that unfolding cache_ok_def by blast
    with other [OF that False] show ?thesis by simp
  qed
  with ok show "cache_ok found (st\<lparr>run_lists := (run_lists st)[unat v := keep]\<rparr>)"
    unfolding cache_ok_def by (simp del: nth_list_update)
  show "cached (st\<lparr>run_lists := (run_lists st)[unat v := keep]\<rparr>) tid = Some keep"
    using tid v by (simp add: cached_def)
  show "cached (st\<lparr>run_lists := (run_lists st)[unat v := keep]\<rparr>) t = cached st t" if "t < 2 ^ 32" "t \<noteq> tid"
    using other [OF that(1) _ that(2)] by (auto simp: cached_def split: option.splits)
qed

section \<open>Resolving a relocation\<close>

text \<open>The list of candidates that a relocation of the type starts from.\<close>

definition cands_for :: "bpf_object \<Rightarrow> btf list \<Rightarrow> core_run \<Rightarrow> nat \<Rightarrow> relo_cand list" where
  "cands_for obj mods st tid = (case cached st tid of Some l \<Rightarrow> l | None \<Rightarrow> core_found obj mods tid)"

definition resolved :: "bpf_object \<Rightarrow> btf list \<Rightarrow> core_env \<Rightarrow> bpf_core_relo \<Rightarrow> core_run \<Rightarrow>
    bpf_core_relo_res \<Rightarrow> core_run \<Rightarrow> bool" where
  "resolved obj mods env relo st res st' \<longleftrightarrow>
     cache_ok (core_found obj mods) st' \<and> same_kernel mods obj (run_obj st') \<and>
     programs (run_obj st') = programs (run_obj st) \<and> core_sec_idxs (run_obj st') = core_sec_idxs (run_obj st) \<and>
     run_sec_num st' = run_sec_num st \<and> length (run_lists st') \<le> Suc (length (run_lists st)) \<and>
     (if relo_kind_of relo = BPF_CORE_TYPE_ID_LOCAL
      then st' = st \<and> bpf_core_calc_relo_insn (relo_fuel env) relo (obj_btf obj) [] = Inr (res, [])
      else
        (\<exists>keep. bpf_core_calc_relo_insn (relo_fuel env) relo (obj_btf obj) (cands_for obj mods st (relo_type_id relo)) =
            Inr (res, keep) \<and>
          cached st' (relo_type_id relo) = Some keep) \<and>
        (\<forall>t. t < 2 ^ 32 \<and> t \<noteq> relo_type_id relo \<longrightarrow> cached st' t = cached st t))"

lemma resolve_relo:
  assumes ok: "cache_ok (core_found obj mods) st" and same: "same_kernel mods obj (run_obj st)"
    and tid: "relo_type_id relo < 2 ^ 32" and room: "Suc (length (run_lists st)) < 2 ^ 64"
    and m: "modules env = (mods, None)"
    and r: "bpf_core_resolve_relo env r relo st = Inr (res, st')"
  shows "resolved obj mods env relo st res st'"
proof -
  have btf: "obj_btf (run_obj st) = obj_btf obj" using same by (simp add: same_kernel_def)
  show ?thesis
  proof (cases "relo_kind_of relo = BPF_CORE_TYPE_ID_LOCAL")
    case True
    with r obtain c where c: "bpf_core_calc_relo_insn (relo_fuel env) relo (obj_btf obj) [] = Inr (res, c)" "st' = st"
      by (auto simp: bpf_core_resolve_relo_def bindr_eq_Inr Let_def btf split: option.splits if_splits)
    with calc_relo_keep [OF c(1)] True ok same show ?thesis by (simp add: resolved_def)
  next
    case False
    with r obtain i st1 keep where f: "cached_cands env r (relo_type_id relo) st = Inr (i, st1)"
      and c: "bpf_core_calc_relo_insn (relo_fuel env) relo (obj_btf obj) (run_lists st1 ! i) = Inr (res, keep)"
      and st': "st' = st1\<lparr>run_lists := (run_lists st1)[i := keep]\<rparr>"
      by (auto simp: bpf_core_resolve_relo_def bindr_eq_Inr Let_def btf arr_eq_Inr split: option.splits if_splits)
    from cached_fetch [OF ok same tid room m f] have fetch: "fetched obj mods st (relo_type_id relo) i st1" .
    then have i: "i < 2 ^ 64" using room by (simp add: fetched_def)
    then have v: "unat (word_of_nat i :: u64) = i" by (simp add: unsigned_of_nat take_bit_nat_eq_self)
    have ok1: "cache_ok (core_found obj mods) st1"
      "hashmap_find () (run_cache st1) (word_of_nat (relo_type_id relo)) = Some (word_of_nat i)"
      using fetch by (simp_all add: fetched_def)
    note prune = cache_prune [OF ok1(1) tid ok1(2), unfolded v, OF calc_relo_keep [OF c], folded st']
    from fetch prune c False show ?thesis
      by (simp add: resolved_def fetched_def cands_for_def) (simp add: st')
  qed
qed

section \<open>Properties\<close>

text \<open>
  Property C32: the binary search for the program of an instruction is exact.  On programs in the
  order of their sections and offsets it finds a program exactly when one has the section and
  contains the instruction, and then it finds that one; an instruction between two programs, or in a
  section without programs, has none.
\<close>

theorem find_prog_by_sec_insn_exact:
  assumes "progs_sorted progs"
  shows "find_prog_by_sec_insn progs sec_idx insn_idx = Some p \<longleftrightarrow>
    p < length progs \<and> prog_sec_idx (progs ! p) = sec_idx \<and>
    prog_sec_insn_off (progs ! p) \<le> insn_idx \<and> insn_idx < prog_sec_insn_off (progs ! p) + prog_sec_insn_cnt (progs ! p)"
proof (cases "progs = []")
  case False
  define l where "l = find_prog_loop progs sec_idx insn_idx 0 (length progs - 1)"
  have len: "length progs - 1 < length progs" using False by (cases progs) auto
  have eq: "find_prog_by_sec_insn progs sec_idx insn_idx =
      (if prog_sec_idx (progs ! l) = sec_idx \<and> prog_contains_insn (progs ! l) insn_idx then Some l else None)"
    using False by (simp add: find_prog_by_sec_insn_def l_def Let_def)
  note spec = find_prog_loop_spec [OF assms _ len, of 0 sec_idx insn_idx, folded l_def]
  have l: "l < length progs" using spec len by simp
  have "p = l" if p: "p < length progs" "prog_sec_idx (progs ! p) = sec_idx" "prog_contains_insn (progs ! p) insn_idx"
  proof (rule ccontr)
    assume "p \<noteq> l"
    have "not_after (progs ! p) sec_idx insn_idx" using p by (simp add: not_after_def prog_contains_insn_def)
    moreover have "\<not> (l < p \<and> p \<le> length progs - 1 \<and> not_after (progs ! p) sec_idx insn_idx)" using spec by blast
    ultimately have "p < l" using p(1) \<open>p \<noteq> l\<close> by linarith
    then have "not_after (progs ! l) sec_idx insn_idx" using spec by auto
    moreover have "prog_sec_idx (progs ! p) < prog_sec_idx (progs ! l) \<or> prog_sec_idx (progs ! p) = prog_sec_idx (progs ! l) \<and>
        prog_sec_insn_off (progs ! p) + prog_sec_insn_cnt (progs ! p) \<le> prog_sec_insn_off (progs ! l)"
      using assms \<open>p < l\<close> l by (simp add: progs_sorted_def sorted_wrt_iff_nth_less)
    ultimately show False using p unfolding not_after_def prog_contains_insn_def by linarith
  qed
  note unique = this
  show ?thesis
    unfolding eq
  proof
    assume "(if prog_sec_idx (progs ! l) = sec_idx \<and> prog_contains_insn (progs ! l) insn_idx then Some l else None) = Some p"
    then show "p < length progs \<and> prog_sec_idx (progs ! p) = sec_idx \<and> prog_sec_insn_off (progs ! p) \<le> insn_idx \<and>
        insn_idx < prog_sec_insn_off (progs ! p) + prog_sec_insn_cnt (progs ! p)"
      using l by (simp add: prog_contains_insn_def split: if_splits)
  next
    assume rhs: "p < length progs \<and> prog_sec_idx (progs ! p) = sec_idx \<and> prog_sec_insn_off (progs ! p) \<le> insn_idx \<and>
        insn_idx < prog_sec_insn_off (progs ! p) + prog_sec_insn_cnt (progs ! p)"
    then have "p = l" by (intro unique) (simp_all add: prog_contains_insn_def)
    with rhs show "(if prog_sec_idx (progs ! l) = sec_idx \<and> prog_contains_insn (progs ! l) insn_idx then Some l else None) = Some p"
      by (simp add: prog_contains_insn_def)
  qed
qed (simp add: find_prog_by_sec_insn_def)

definition prog_at :: "nat \<Rightarrow> nat \<Rightarrow> nat \<Rightarrow> bpf_program" where
  "prog_at s off n = \<lparr>prog_sec_idx = s, prog_sec_insn_off = off, prog_sec_insn_cnt = n, prog_autoload = True,
     prog_insns = [], prog_relocs = []\<rparr>"

theorem find_prog_by_sec_insn_exact_witness:
  "find_prog_by_sec_insn [prog_at 3 0 4, prog_at 3 4 2, prog_at 5 0 8, prog_at 5 10 1] 5 7 = Some 2 \<and>
   find_prog_by_sec_insn [prog_at 3 0 4, prog_at 3 4 2, prog_at 5 0 8, prog_at 5 10 1] 5 8 = None"
proof -
  let ?progs = "[prog_at 3 0 4, prog_at 3 4 2, prog_at 5 0 8, prog_at 5 10 1]"
  have sorted: "progs_sorted ?progs" by (simp add: progs_sorted_def prog_at_def)
  have "find_prog_by_sec_insn ?progs 5 8 \<noteq> Some p" for p
  proof
    assume "find_prog_by_sec_insn ?progs 5 8 = Some p"
    then have p: "p < length ?progs" "prog_sec_idx (?progs ! p) = 5" "prog_sec_insn_off (?progs ! p) \<le> 8"
      "8 < prog_sec_insn_off (?progs ! p) + prog_sec_insn_cnt (?progs ! p)"
      unfolding find_prog_by_sec_insn_exact [OF sorted] by blast+
    from p(1) consider "p = 0" | "p = 1" | "p = 2" | "p = 3" by fastforce
    then show False using p(2-4) by cases (simp_all add: prog_at_def)
  qed
  moreover have "find_prog_by_sec_insn ?progs 5 7 = Some 2"
    unfolding find_prog_by_sec_insn_exact [OF sorted] by (simp add: prog_at_def)
  ultimately show ?thesis by auto
qed

text \<open>
  The candidates of a local type are exactly the types of the target that have a compatible
  kind and a name with the same essence, in the order of their numbers.  The modules' types are
  searched only when the kernel itself has no candidate and its types are not overridden; then the
  candidates of all modules are found, each module from its first own type.
\<close>

theorem bpf_core_find_cands_exact:
  assumes "btf__type_by_id (obj_btf obj) tid = Inr (Some lt)" "btf_kind lt = Inr lk"
    and "bindr (t_name_off lt) (name_at (obj_btf obj)) = Inr (Some ln)" "ln \<noteq> []"
    and "main = (case btf_vmlinux_override obj of Some b \<Rightarrow> b | None \<Rightarrow> btf_vmlinux obj)" "btf_ok main" "main \<noteq> []"
    and "loaded = (if btf_modules_loaded obj \<or> gen_loader obj then btf_modules obj else mods)"
    and "\<forall>b \<in> set loaded. btf_ok b \<and> b \<noteq> []"
  shows "\<exists>obj'. bpf_core_find_cands True (\<lambda>_. True) (mods, None) obj (obj_btf obj) tid = Inr
      (if cands_in lk ln main 1 \<noteq> [] \<or> btf_vmlinux_override obj \<noteq> None then cands_in lk ln main 1
       else concat (map (\<lambda>b. cands_in lk ln b (btf__type_cnt (btf_vmlinux obj))) loaded), obj') \<and>
    programs obj' = programs obj \<and> (obj' = obj \<or> btf_modules obj' = loaded \<and> btf_modules_loaded obj' = (\<not> gen_loader obj \<or> btf_modules_loaded obj))"
proof -
  let ?obj' = "fst (load_module_btfs (mods, None) obj)"
  have t: "type_at (obj_btf obj) tid = Inr lt" using assms(1) by (simp add: type_at_def deref_def)
  have empty: "\<not> str_is_empty (Some ln)" using assms(4) by (simp add: str_is_empty_def)
  have mods: "btf_modules ?obj' = loaded" "programs ?obj' = programs obj" "btf_vmlinux ?obj' = btf_vmlinux obj"
    "btf_modules_loaded ?obj' = (\<not> gen_loader obj \<or> btf_modules_loaded obj)"
    using assms(8) by (auto simp: load_module_btfs_def)
  note main = add_cands_eq [OF assms(6,7) t assms(2,3), of 1 "[]"]
  note modules = add_module_cands_eq [OF assms(9) t assms(2,3), of "btf__type_cnt (btf_vmlinux obj)" "[]"]
  have "core_search True (\<lambda>_. True) obj loaded tid = Inr
      (if cands_in lk ln main 1 \<noteq> [] \<or> btf_vmlinux_override obj \<noteq> None then (cands_in lk ln main 1, False)
       else (concat (map (\<lambda>b. cands_in lk ln b (btf__type_cnt (btf_vmlinux obj))) loaded), True))"
    unfolding core_search_def assms(1) using main modules
    by (simp add: assms(3) empty assms(5) [symmetric] Let_def del: One_nat_def)
  then show ?thesis unfolding find_cands_search Let_def mods(1) using mods by auto
qed

text \<open>The object of the examples: its own types are also those of the kernel.\<close>

definition bits_obj :: bpf_object where
  "bits_obj = \<lparr>obj_btf = bits_btf, obj_ext = small_parsed, core_sec_idxs = [3], programs = [],
     btf_vmlinux = bits_btf, btf_vmlinux_override = None, btf_modules = [], btf_modules_loaded = True,
     gen_loader = False\<rparr>"

lemma bits_ok: "btf_ok bits_btf" "bits_btf \<noteq> []" "btf__type_cnt bits_btf = 3"
  by (simp_all add: bits_btf_def layer_ok_def btf__type_cnt_def) (simp add: type_eval bits_types_def)

lemma bits_cands: "cands_in BTF_KIND_STRUCT (asc ''s'') bits_btf 1 = [\<lparr>cand_btf = bits_btf, cand_id = 2\<rparr>]"
proof -
  have "[1..<3] = [1, 2::nat]" by (simp add: upt_rec)
  moreover have "cand_test BTF_KIND_STRUCT (asc ''s'') bits_btf 1 = Inr False"
    using bits_at bits_info by (simp add: cand_test_def btf_kind_core_compat_def btf_is_any_enum_def)
  moreover have "cand_test BTF_KIND_STRUCT (asc ''s'') bits_btf 2 = Inr True"
    using bits_at bits_info bits_names
    by (simp add: cand_test_def btf_kind_core_compat_def str_is_empty_def same_essence_def asc_def)
  ultimately show ?thesis by (simp add: cands_in_def bits_ok del: One_nat_def)
qed

lemma bits_search: "core_search True (\<lambda>_. True) bits_obj [] 2 = Inr ([\<lparr>cand_btf = bits_btf, cand_id = 2\<rparr>], False)"
  using add_cands_eq [OF bits_ok(1,2) bits_at(3) bits_info(4), of "asc ''s''" 1 "[]"] bits_at(2) bits_info(7) bits_names(1) bits_cands
  by (simp add: core_search_def bits_obj_def btf__type_by_id_def bits_ok str_is_empty_def asc_def Let_def)

theorem bpf_core_find_cands_exact_witness:
  "\<exists>obj'. bpf_core_find_cands True (\<lambda>_. True) ([], None) bits_obj bits_btf 2 =
     Inr ([\<lparr>cand_btf = bits_btf, cand_id = 2\<rparr>], obj')"
proof -
  have "btf__type_by_id (obj_btf bits_obj) 2 = Inr (Some (Type_At bits_types 16))"
    "bindr (t_name_off (Type_At bits_types 16)) (name_at (obj_btf bits_obj)) = Inr (Some (asc ''s''))"
    using bits_at(2) bits_info(7) bits_names(1) by (simp_all add: bits_obj_def btf__type_by_id_def bits_ok)
  from bpf_core_find_cands_exact [OF this(1) bits_info(4) this(2) _ refl _ _ refl, of "[]"] bits_ok bits_cands
  show ?thesis by (auto simp: bits_obj_def asc_def)
qed

text \<open>
  Property C13: the cache of candidates is a map from local types to lists of candidates.  Resolving a
  relocation computes it from the type's cached list, or from all the candidates that are found when
  there is none, and leaves in the cache the candidates that still match, under this type and no
  other.  Every list of the cache stays a part, in order, of what a search for its type finds; a
  relocation to a local type neither searches nor changes anything.
\<close>

theorem bpf_core_resolve_relo_cached:
  assumes "cache_ok (core_found obj mods) st" "same_kernel mods obj (run_obj st)"
    and "relo_type_id relo < 2 ^ 32" "length (run_lists st) < 2 ^ 64 - 1" "modules env = (mods, None)"
    and "bpf_core_resolve_relo env r relo st = Inr (res, st')"
  shows "cache_ok (core_found obj mods) st' \<and> same_kernel mods obj (run_obj st') \<and>
    programs (run_obj st') = programs (run_obj st) \<and>
    (if relo_kind_of relo = BPF_CORE_TYPE_ID_LOCAL
     then st' = st \<and> bpf_core_calc_relo_insn (relo_fuel env) relo (obj_btf obj) [] = Inr (res, [])
     else \<exists>keep. bpf_core_calc_relo_insn (relo_fuel env) relo (obj_btf obj)
           (case cached st (relo_type_id relo) of Some l \<Rightarrow> l | None \<Rightarrow> core_found obj mods (relo_type_id relo)) = Inr (res, keep) \<and>
         (\<forall>t. t < 2 ^ 32 \<longrightarrow> cached st' t = (if t = relo_type_id relo then Some keep else cached st t)))"
  using resolve_relo [OF assms(1-3) _ assms(5,6)] assms(3,4)
  by (auto simp: resolved_def cands_for_def split: if_splits)

definition one_env :: core_env where
  "one_env = \<lparr>relo_fuel = 1, desc_ok = \<lambda>_. True, list_ok = \<lambda>_. True, cands_ok = \<lambda>_ _. True,
     set_ok = \<lambda>_. (True, True), modules = ([], None)\<rparr>"

definition fresh_run :: "bpf_object \<Rightarrow> core_run" where
  "fresh_run obj = \<lparr>run_obj = obj, run_cache = hashmap__init bpf_core_hash_fn bpf_core_equal_fn,
     run_lists = [], run_sec_num = 0\<rparr>"

lemma fresh_find: "hashmap_find () (hashmap__init bpf_core_hash_fn bpf_core_equal_fn) k = None"
  by (simp add: hashmap_find_def hashmap_find_entry_def hashmap__init_def Let_def)

lemma fresh_ok: "cache_ok found (fresh_run obj)"
proof -
  have "hm_served bpf_core_hash_fn bpf_core_equal_fn () (hashmap__init bpf_core_hash_fn bpf_core_equal_fn)"
    by (simp add: hm_served_def) (simp add: hashmap__init_def)
  moreover have "hm_unique () (hashmap__init bpf_core_hash_fn bpf_core_equal_fn)"
    by (simp add: hm_unique_def hashmap__init_def hashmap_entries_def)
  ultimately show ?thesis by (simp add: cache_ok_def fresh_find fresh_run_def)
qed

theorem bpf_core_resolve_relo_cached_witness:
  "\<exists>st'. bpf_core_resolve_relo one_env 44 target_relo (fresh_run bits_obj) = Inr (target_res, st') \<and>
     cached st' 2 = Some [\<lparr>cand_btf = bits_btf, cand_id = 2\<rparr>]"
proof -
  let ?c = "\<lparr>cand_btf = bits_btf, cand_id = 2\<rparr>"
  have load: "load_module_btfs ([], None) bits_obj = (bits_obj, None)" by (simp add: load_module_btfs_def bits_obj_def)
  have obj: "obj_btf bits_obj = bits_btf" "btf_modules bits_obj = []" by (simp_all add: bits_obj_def)
  have found: "bpf_core_find_cands True (\<lambda>_. True) ([], None) bits_obj bits_btf 2 = Inr ([?c], bits_obj)"
    using find_cands_search [of True "\<lambda>_. True" "[]" bits_obj 2] bits_search by (simp add: load obj)
  obtain cache x where ins: "hashmap_insert True True () (hashmap__init bpf_core_hash_fn bpf_core_equal_fn) 2 0 HASHMAP_SET =
      (None, cache, x)"
    by (simp add: hashmap__init_def hashmap_eval bpf_core_hash_fn_def bpf_core_equal_fn_def)
  have rel: "relo_type_id target_relo = 2" "relo_kind_of target_relo \<noteq> BPF_CORE_TYPE_ID_LOCAL"
    by (simp_all add: target_relo_def)
  have "\<exists>st'. bpf_core_resolve_relo one_env 44 target_relo (fresh_run bits_obj) = Inr (target_res, st')"
    using found ins target_calc bits_at(2) bits_info(7) bits_names(1) rel
    by (simp add: bpf_core_resolve_relo_def cached_cands_def fresh_run_def fresh_find one_env_def obj btf__type_by_id_def
        bits_ok Let_def)
  then obtain st' where st': "bpf_core_resolve_relo one_env 44 target_relo (fresh_run bits_obj) = Inr (target_res, st')" by blast
  have "core_found bits_obj [] 2 = [?c]" using found by (simp add: core_found_def obj)
  moreover have "cached (fresh_run bits_obj) 2 = None" by (simp add: cached_def fresh_run_def fresh_find)
  ultimately show ?thesis
    using bpf_core_resolve_relo_cached [OF fresh_ok _ _ _ _ st', where obj = bits_obj and mods = "[]"] rel target_calc st'
    by (auto simp: same_kernel_def fresh_run_def one_env_def obj)
qed

end
