(* ===== verification/Relo_Run.thy ===== *)
theory Relo_Run imports Relo_Object begin

text \<open>
  What the relocation of a whole object does to its programs (\<open>bpf_object__relocate_core\<close> in
  \<open>bpf/libbpf/src/libbpf.c\<close>): the records of the segment in the order of the walk, the program and the
  instruction that each one is for, and the programs as the recorded and applied relocations leave them.
\<close>

section \<open>The records and their targets\<close>

text \<open>The records with the index of the ELF section they are for.\<close>

fun numbered_recs :: "nat list \<Rightarrow> nat \<Rightarrow> (nat \<times> nat list) list \<Rightarrow> (nat \<times> nat) list" where
  "numbered_recs idxs k [] = []"
| "numbered_recs idxs k ((sec, rs) # secs) = map (Pair (idxs ! k)) rs @ numbered_recs idxs (k + 1) secs"

text \<open>The program, the record and the instruction in the program; programs that are not loaded have none.\<close>

definition record_target :: "u8 list \<Rightarrow> bpf_program list \<Rightarrow> nat \<times> nat \<Rightarrow> (nat \<times> nat \<times> nat) list" where
  "record_target data progs = (\<lambda>(sec_idx, r).
     case rd32 data r of
       Inl _ \<Rightarrow> []
     | Inr off \<Rightarrow>
         (case find_prog_by_sec_insn progs sec_idx (off div 8) of
            None \<Rightarrow> []
          | Some p \<Rightarrow> if prog_autoload (progs ! p) then [(p, r, off div 8 - prog_sec_insn_off (progs ! p))] else []))"

definition targets :: "u8 list \<Rightarrow> bpf_program list \<Rightarrow> (nat \<times> nat) list \<Rightarrow> (nat \<times> nat \<times> nat) list" where
  "targets data progs recs = concat (map (record_target data progs) recs)"

text \<open>Instructions patched one after the other; None stands for a relocation that is left to the loader.\<close>

fun patch_all :: "bpf_insn list \<Rightarrow> (nat \<times> bpf_core_relo_res option) list \<Rightarrow> bpf_insn list option" where
  "patch_all insns [] = Some insns"
| "patch_all insns ((i, None) # xs) = patch_all insns xs"
| "patch_all insns ((i, Some res) # xs) =
     (case bpf_core_patch_insn insns i res of
        Inr (insns', None) \<Rightarrow> patch_all insns' xs
      | _ \<Rightarrow> None)"

lemma patch_all_append:
  "patch_all insns (xs @ ys) = (case patch_all insns xs of None \<Rightarrow> None | Some insns \<Rightarrow> patch_all insns ys)"
  by (induction insns xs rule: patch_all.induct) (auto split: sum.split option.split prod.split)

text \<open>What one program has of the targets and their outcomes, and the programs afterwards.\<close>

definition own :: "nat \<Rightarrow> ((nat \<times> nat \<times> nat) \<times> 'a) list \<Rightarrow> ((nat \<times> nat \<times> nat) \<times> 'a) list" where
  "own p = filter (\<lambda>((q, _), _). q = p)"

definition relocated_prog ::
  "((nat \<times> nat \<times> nat) \<times> bpf_core_relo_res option) list \<Rightarrow> bpf_program \<Rightarrow> bpf_program \<Rightarrow> bool" where
  "relocated_prog mine prog prog' \<longleftrightarrow>
     (\<exists>insns. patch_all (prog_insns prog) (map (\<lambda>((_, _, i), res). (i, res)) mine) = Some insns \<and>
        prog' = prog\<lparr>prog_insns := insns, prog_relocs := prog_relocs prog @ map (\<lambda>((_, r, i), _). RELO_CORE i r) mine\<rparr>)"

definition relocated ::
  "((nat \<times> nat \<times> nat) \<times> bpf_core_relo_res option) list \<Rightarrow> bpf_program list \<Rightarrow> bpf_program list \<Rightarrow> bool" where
  "relocated outs progs progs' \<longleftrightarrow>
     length progs' = length progs \<and>
     (\<forall>p < length progs. relocated_prog (own p outs) (progs ! p) (progs' ! p))"

lemma relocated_start: "relocated [] progs progs"
  by (simp add: relocated_def relocated_prog_def own_def)

lemma relocated_step:
  assumes "relocated outs progs progs'" "p < length progs"
    and "patch_all (prog_insns (progs' ! p)) [(i, res)] = Some insns"
  shows "relocated (outs @ [((p, r, i), res)]) progs
    (progs'[p := (progs' ! p)\<lparr>prog_insns := insns, prog_relocs := prog_relocs (progs' ! p) @ [RELO_CORE i r]\<rparr>])"
  unfolding relocated_def
proof (intro conjI allI impI)
  fix q assume q: "q < length progs"
  with assms(1) have rel: "relocated_prog (own q outs) (progs ! q) (progs' ! q)" "length progs' = length progs"
    by (simp_all add: relocated_def)
  show "relocated_prog (own q (outs @ [((p, r, i), res)])) (progs ! q)
      (progs'[p := (progs' ! p)\<lparr>prog_insns := insns, prog_relocs := prog_relocs (progs' ! p) @ [RELO_CORE i r]\<rparr>] ! q)"
  proof (cases "q = p")
    case True
    with rel assms(2,3) show ?thesis
      by (auto simp: relocated_prog_def own_def patch_all_append)
  qed (use rel in \<open>simp add: own_def\<close>)
qed (use assms(1) in \<open>simp add: relocated_def\<close>)

text \<open>The search for a program sees nothing of what a relocation changes.\<close>

lemma relocated_frame:
  assumes "relocated outs progs progs'" "p < length progs"
  shows "prog_sec_idx (progs' ! p) = prog_sec_idx (progs ! p)" "prog_sec_insn_off (progs' ! p) = prog_sec_insn_off (progs ! p)"
    "prog_contains_insn (progs' ! p) = prog_contains_insn (progs ! p)" "prog_autoload (progs' ! p) = prog_autoload (progs ! p)"
  using assms by (auto simp: relocated_def relocated_prog_def prog_contains_insn_def intro!: ext)

lemma find_prog_loop_relocated:
  "relocated outs progs progs' \<Longrightarrow> r < length progs \<Longrightarrow>
    find_prog_loop progs' s x l r = find_prog_loop progs s x l r"
proof (induction progs s x l r rule: find_prog_loop.induct)
  case (1 progs s x l r)
  show ?case
  proof (cases "l < r")
    case False
    then show ?thesis by (simp add: find_prog_loop.simps)
  next
    case True
    let ?m = "l + (r - l + 1) div 2"
    have m: "?m < length progs" using True "1.prems"(2) by auto
    have step: "find_prog_loop ps s x l r = (if not_after (ps ! ?m) s x then find_prog_loop ps s x ?m r
        else find_prog_loop ps s x l (?m - 1))" for ps
      using True by (subst find_prog_loop.simps) (simp add: not_after_def Let_def)
    have same: "not_after (progs' ! ?m) s x = not_after (progs ! ?m) s x"
      unfolding not_after_def relocated_frame [OF "1.prems"(1) m] ..
    have ih: "not_after (progs ! ?m) s x \<Longrightarrow> find_prog_loop progs' s x ?m r = find_prog_loop progs s x ?m r"
      "\<not> not_after (progs ! ?m) s x \<Longrightarrow> find_prog_loop progs' s x l (?m - 1) = find_prog_loop progs s x l (?m - 1)"
      using "1.IH" [OF True refl refl] "1.prems" m unfolding not_after_def by auto
    show ?thesis unfolding step same using ih by argo
  qed
qed

lemma find_prog_loop_le: "l \<le> r \<Longrightarrow> find_prog_loop progs s x l r \<le> r"
proof (induction progs s x l r rule: find_prog_loop.induct)
  case (1 progs s x l r)
  show ?case
  proof (cases "l < r")
    case False
    then show ?thesis using "1.prems" by (simp add: find_prog_loop.simps)
  next
    case True
    let ?m = "l + (r - l + 1) div 2"
    have m: "?m \<le> r" "l \<le> ?m - 1" "?m - 1 \<le> r" using True by auto
    have step: "find_prog_loop progs s x l r = (if not_after (progs ! ?m) s x then find_prog_loop progs s x ?m r
        else find_prog_loop progs s x l (?m - 1))"
      using True by (subst find_prog_loop.simps) (simp add: not_after_def Let_def)
    show ?thesis
      using "1.IH" [OF True refl refl] m unfolding step not_after_def by (auto intro: le_trans [OF _ m(3)])
  qed
qed

lemma find_prog_in: "find_prog_by_sec_insn progs s x = Some p \<Longrightarrow> p < length progs"
  using find_prog_loop_le [of 0 "length progs - 1" progs s x]
  by (cases progs) (auto simp: find_prog_by_sec_insn_def Let_def split: if_splits)

lemma find_prog_relocated:
  assumes "relocated outs progs progs'"
  shows "find_prog_by_sec_insn progs' s x = find_prog_by_sec_insn progs s x"
proof (cases "progs = []")
  case True
  then show ?thesis using assms by (simp add: find_prog_by_sec_insn_def relocated_def)
next
  case False
  let ?l = "find_prog_loop progs s x 0 (length progs - 1)"
  have "?l < length progs" using find_prog_loop_le [of 0 "length progs - 1" progs s x] False
    by (cases progs) auto
  moreover have "length progs' = length progs" using assms by (simp add: relocated_def)
  ultimately show ?thesis
    using False find_prog_loop_relocated [OF assms, of "length progs - 1"] relocated_frame [OF assms, of ?l]
    by (auto simp: find_prog_by_sec_insn_def Let_def)
qed

section \<open>One record\<close>

text \<open>A result that the candidates found for the type, or what earlier relocations left of them, give.\<close>

definition record_solved :: "core_env \<Rightarrow> bpf_object \<Rightarrow> btf list \<Rightarrow> u8 list \<Rightarrow> nat \<Rightarrow> bpf_core_relo_res \<Rightarrow> bool" where
  "record_solved env obj mods data r res \<longleftrightarrow>
     (\<exists>relo cands keep. read_relo data r = Inr relo \<and> subseq cands (core_found obj mods (relo_type_id relo)) \<and>
        bpf_core_calc_relo_insn (relo_fuel env) relo (obj_btf obj) cands = Inr (res, keep))"

definition outcomes :: "core_env \<Rightarrow> bpf_object \<Rightarrow> btf list \<Rightarrow> u8 list \<Rightarrow>
    ((nat \<times> nat \<times> nat) \<times> bpf_core_relo_res option) list \<Rightarrow> bool" where
  "outcomes env obj mods data outs \<longleftrightarrow>
     (\<forall>((p, r, i), out) \<in> set outs.
        if gen_loader obj then out = None else \<exists>res. out = Some res \<and> record_solved env obj mods data r res)"

text \<open>The state in the middle of the walk.\<close>

definition run_ok :: "core_env \<Rightarrow> bpf_object \<Rightarrow> btf list \<Rightarrow> u8 list \<Rightarrow> (nat \<times> nat) list \<Rightarrow> core_run \<Rightarrow> bool" where
  "run_ok env obj mods data recs st \<longleftrightarrow>
     cache_ok (core_found obj mods) st \<and> same_kernel mods obj (run_obj st) \<and>
     core_sec_idxs (run_obj st) = core_sec_idxs obj \<and> length (run_lists st) \<le> length recs \<and>
     (\<exists>outs. map fst outs = targets data (programs obj) recs \<and> outcomes env obj mods data outs \<and>
        relocated outs (programs obj) (programs (run_obj st)))"

lemma read_relo_type: "read_relo data r = Inr relo \<Longrightarrow> relo_type_id relo < 2 ^ 32"
  by (auto simp: read_relo_def bindr_eq_Inr dest: rd32_bound)

lemma cands_for_sub:
  assumes "cache_ok (core_found obj mods) st" "t < 2 ^ 32"
  shows "subseq (cands_for obj mods st t) (core_found obj mods t)"
  using assms by (auto simp: cands_for_def cached_def cache_ok_def split: option.splits)

lemma set_prog_keeps [simp]:
  "cache_ok found (set_prog p prog st) = cache_ok found st"
  "same_kernel mods obj (run_obj (set_prog p prog st)) = same_kernel mods obj (run_obj st)"
  "core_sec_idxs (run_obj (set_prog p prog st)) = core_sec_idxs (run_obj st)"
  "gen_loader (run_obj (set_prog p prog st)) = gen_loader (run_obj st)"
  "run_lists (set_prog p prog st) = run_lists st" "run_sec_num (set_prog p prog st) = run_sec_num st"
  "programs (run_obj (set_prog p prog st)) = (programs (run_obj st))[p := prog]"
  by (simp_all add: set_prog_def cache_ok_def same_kernel_def)

lemma prog_upd: "prog\<lparr>prog_relocs := x, prog_insns := y\<rparr> = prog\<lparr>prog_insns := y, prog_relocs := x\<rparr>"
  by (cases prog) simp

lemma run_okI:
  assumes "cache_ok (core_found obj mods) st'" "same_kernel mods obj (run_obj st')"
    "core_sec_idxs (run_obj st') = core_sec_idxs obj" "length (run_lists st') \<le> Suc (length recs)"
    "map fst outs = targets data (programs obj) recs" "outcomes env obj mods data outs"
    and "relocated outs (programs obj) progs'" "p < length (programs obj)" "prog = progs' ! p"
    and "record_target data (programs obj) (s, r) = [(p, r, i)]"
    and "if gen_loader obj then out = None else \<exists>res. out = Some res \<and> record_solved env obj mods data r res"
    and "patch_all (prog_insns prog) [(i, out)] = Some insns"
    and "programs (run_obj st') = progs'[p := prog\<lparr>prog_insns := insns, prog_relocs := prog_relocs prog @ [RELO_CORE i r]\<rparr>]"
  shows "run_ok env obj mods data (recs @ [(s, r)]) st'"
proof -
  from relocated_step [OF assms(7,8), of i out insns r] assms(12)
  have "relocated (outs @ [((p, r, i), out)]) (programs obj) (programs (run_obj st'))"
    unfolding assms(9,13) by simp
  moreover have "outcomes env obj mods data (outs @ [((p, r, i), out)])"
    using assms(6,11) by (auto simp: outcomes_def)
  moreover have "map fst (outs @ [((p, r, i), out)]) = targets data (programs obj) (recs @ [(s, r)])"
    using assms(5,10) by (simp add: targets_def)
  ultimately show ?thesis
    unfolding run_ok_def using assms(1-4) by (intro conjI exI [of _ "outs @ [((p, r, i), out)]"]) simp_all
qed

lemma relocate_record_step:
  assumes ok: "run_ok env obj mods data recs st" and room: "Suc (length recs) < 2 ^ 64"
    and m: "modules env = (mods, None)"
    and r: "relocate_record env data s r st = Inr st'"
  shows "run_ok env obj mods data (recs @ [(s, r)]) st' \<and> run_sec_num st' = run_sec_num st"
proof -
  obtain outs where ok': "cache_ok (core_found obj mods) st" "same_kernel mods obj (run_obj st)"
    "core_sec_idxs (run_obj st) = core_sec_idxs obj" "length (run_lists st) \<le> length recs"
    "map fst outs = targets data (programs obj) recs" "outcomes env obj mods data outs"
    "relocated outs (programs obj) (programs (run_obj st))"
    using ok unfolding run_ok_def by blast
  let ?progs = "programs obj" and ?progs' = "programs (run_obj st)"
  have gen: "gen_loader (run_obj st) = gen_loader obj" using ok'(2) by (simp add: same_kernel_def)
  from r obtain off where off: "rd32 data r = Inr off" by (auto simp: relocate_record_def bindr_eq_Inr)
  let ?x = "off div 8"
  note find = find_prog_relocated [OF ok'(7)]
  have skip: "run_ok env obj mods data (recs @ [(s, r)]) st" if "record_target data ?progs (s, r) = []"
    using that ok' unfolding run_ok_def by (auto simp: targets_def intro!: exI [of _ outs])
  show ?thesis
  proof (cases "find_prog_by_sec_insn ?progs s ?x")
    case None
    then show ?thesis using r skip off by (auto simp: relocate_record_def find record_target_def split: if_splits)
  next
    case (Some p)
    from find_prog_in [OF Some] have p: "p < length ?progs" "p < length ?progs'"
      using ok'(7) by (simp_all add: relocated_def)
    note frame = relocated_frame [OF ok'(7) p(1)]
    show ?thesis
    proof (cases "prog_autoload (?progs ! p)")
      case False
      then show ?thesis
        using r skip off Some by (auto simp: relocate_record_def find record_target_def frame Let_def split: if_splits)
    next
      case True
      let ?i = "?x - prog_sec_insn_off (?progs ! p)" and ?prog = "?progs' ! p"
      let ?st1 = "set_prog p (?prog\<lparr>prog_relocs := prog_relocs ?prog @ [RELO_CORE ?i r]\<rparr>) st"
      have target: "record_target data ?progs (s, r) = [(p, r, ?i)]" using off Some True by (simp add: record_target_def)
      from r off Some True have st': "(if gen_loader obj then Inr ?st1 else apply_relo env data r p ?i ?st1) = Inr st'"
        by (auto simp: relocate_record_def find frame record_relo_core_def gen Let_def split: if_splits)
      show ?thesis
      proof (cases "gen_loader obj")
        case True
        with st' have st': "st' = ?st1" by simp
        have "run_ok env obj mods data (recs @ [(s, r)]) st'"
          unfolding st' by (rule run_okI [OF _ _ _ _ ok'(5,6,7) p(1) refl target, where out = None and insns = "prog_insns ?prog"])
            (use ok' True in simp_all)
        with st' show ?thesis by simp
      next
        case False
        with st' obtain relo res st2 insns where relo: "read_relo data r = Inr relo"
          and res: "bpf_core_resolve_relo env r relo ?st1 = Inr (res, st2)"
          and patch: "bpf_core_patch_insn (prog_insns (programs (run_obj st2) ! p)) ?i res = Inr (insns, None)"
          and fin: "st' = set_prog p ((programs (run_obj st2) ! p)\<lparr>prog_insns := insns\<rparr>) st2"
          by (auto simp: apply_relo_def bindr_eq_Inr Let_def split: option.splits)
        have tid: "relo_type_id relo < 2 ^ 32" by (rule read_relo_type [OF relo])
        have "resolved obj mods env relo ?st1 res st2"
          by (rule resolve_relo [OF _ _ tid _ m res]) (use ok' room in simp_all)
        then have two: "cache_ok (core_found obj mods) st2" "same_kernel mods obj (run_obj st2)"
          "programs (run_obj st2) = programs (run_obj ?st1)" "core_sec_idxs (run_obj st2) = core_sec_idxs obj"
          "run_sec_num st2 = run_sec_num st" "length (run_lists st2) \<le> Suc (length (run_lists st))"
          "\<exists>cands keep. subseq cands (core_found obj mods (relo_type_id relo)) \<and>
             bpf_core_calc_relo_insn (relo_fuel env) relo (obj_btf obj) cands = Inr (res, keep)"
          using ok' cands_for_sub [of obj mods ?st1, OF _ tid] by (auto simp: resolved_def split: if_splits)
        have solved: "record_solved env obj mods data r res"
          using relo two(7) by (auto simp: record_solved_def)
        have prog2: "programs (run_obj st2) ! p = ?prog\<lparr>prog_relocs := prog_relocs ?prog @ [RELO_CORE ?i r]\<rparr>"
          using p(2) by (simp add: two(3))
        have "run_ok env obj mods data (recs @ [(s, r)]) st'"
          unfolding fin
          by (rule run_okI [OF _ _ _ _ ok'(5,6,7) p(1) refl target, where out = "Some res" and insns = insns])
            (use two(1,2,3,4,6) ok'(4) False solved patch p(2) in \<open>simp_all add: prog2 prog_upd\<close>)
        with fin two(5) show ?thesis by simp
      qed
    qed
  qed
qed

section \<open>The walk\<close>

lemma run_all_inv:
  assumes "\<And>xs x st st'. P xs st \<Longrightarrow> set (xs @ [x]) \<subseteq> A \<Longrightarrow> f x st = Inr st' \<Longrightarrow> P (xs @ [x]) st'"
  shows "P ys st \<Longrightarrow> set (ys @ xs) \<subseteq> A \<Longrightarrow> run_all f xs st = Inr st' \<Longrightarrow> P (ys @ xs) st'"
proof (induction xs arbitrary: ys st)
  case (Cons x xs)
  then obtain st1 where "f x st = Inr st1" "run_all f xs st1 = Inr st'" by (auto simp: bindr_eq_Inr)
  with Cons.IH [of "ys @ [x]" st1] Cons.prems assms [of ys st x st1] show ?case by simp
qed simp

text \<open>The records of some sections are at most as many as the bytes of the segment.\<close>

lemma recs_few:
  "sec_tiles data rs a b secs \<Longrightarrow> 0 < rs \<Longrightarrow>
    a + length (concat (map (recs_of rs) secs)) \<le> b"
proof (induction data rs a b secs rule: sec_tiles.induct)
  case (2 data rs a b sec n secs)
  then have "a + 8 + n * rs + length (concat (map (recs_of rs) secs)) \<le> b" by simp
  moreover have "length (concat (map (recs_of rs) ((sec, n) # secs))) = n + length (concat (map (recs_of rs) secs))"
    by (simp add: recs_of_def)
  moreover have "n \<le> n * rs" using "2.prems"(2) by simp
  ultimately show ?case by linarith
qed simp

text \<open>The sections of a walk with the records that belong to each.\<close>

definition all_recs :: "nat list \<Rightarrow> nat \<Rightarrow> nat \<Rightarrow> (nat \<times> nat) list \<Rightarrow> (nat \<times> nat) list" where
  "all_recs idxs rs k secs = numbered_recs idxs k (map (\<lambda>s. (fst s, recs_of rs s)) secs)"

lemma all_recs_simps [simp]:
  "all_recs idxs rs k [] = []"
  "all_recs idxs rs k (s # secs) = map (Pair (idxs ! k)) (recs_of rs s) @ all_recs idxs rs (k + 1) secs"
  by (simp_all add: all_recs_def)

lemma all_recs_append:
  "all_recs idxs rs k (xs @ ys) = all_recs idxs rs k xs @ all_recs idxs rs (k + length xs) ys"
  by (induction xs arbitrary: k) simp_all

lemma all_recs_length: "length (all_recs idxs rs k secs) = length (concat (map (recs_of rs) secs))"
  by (induction secs arbitrary: k) simp_all

text \<open>The body for one section, on the state alone.\<close>

definition sec_run :: "core_env \<Rightarrow> btf_ext_info \<Rightarrow> u8 list \<Rightarrow> nat \<times> nat \<Rightarrow> core_run \<Rightarrow> core_run res" where
  "sec_run env seg data s st =
     bindr (arr (core_sec_idxs (run_obj st)) (run_sec_num st)) (\<lambda>sec_idx.
     let st = st\<lparr>run_sec_num := run_sec_num st + 1\<rparr> in
     bindr (bindr (rd32 data (fst s)) (name_at (obj_btf (run_obj st)))) (\<lambda>sec_name.
     if str_is_empty sec_name then Inl (Err EINVAL)
     else run_all (relocate_record env data sec_idx) (recs_of (ei_rec_size seg) s) st))"

lemma relocate_sec_run:
  assumes "rd32 data (sec + 4) = Inr n"
  shows "relocate_sec env seg sec (data, st) = bindr (sec_run env seg data (sec, n) st) (\<lambda>st. Inr (data, st))"
proof -
  have "sec_each seg sec (\<lambda>r (data, st). bindr (relocate_record env data i r st) (\<lambda>st. Inr (data, st))) (data, st) =
      bindr (run_all (relocate_record env data i) (recs_of (ei_rec_size seg) (sec, n)) st) (\<lambda>st. Inr (data, st))" for i st
    using for_each_rec_run [OF assms, of 0 "\<lambda>r (data, st). bindr (relocate_record env data i r st) (\<lambda>st. Inr (data, st))"
        "\<lambda>r st. relocate_record env data i r st" "ei_rec_size seg" st]
    by (simp add: sec_each_def recs_of_def)
  moreover have "bindr (if b then x else y) f = (if b then bindr x f else bindr y f)" for b and x y :: "core_run res"
    and f :: "core_run \<Rightarrow> (u8 list \<times> core_run) res" by simp
  ultimately show ?thesis by (simp add: relocate_sec_def sec_run_def bindr_assoc Let_def cong: if_cong)
qed

lemma sec_run_step:
  assumes ok: "run_ok env obj mods data recs st" and m: "modules env = (mods, None)"
    and room: "length recs + length (recs_of (ei_rec_size seg) s) < 2 ^ 64 - 1"
    and r: "sec_run env seg data s st = Inr st'"
  shows "run_sec_num st < length (core_sec_idxs obj) \<and> run_sec_num st' = run_sec_num st + 1 \<and>
    run_ok env obj mods data (recs @ map (Pair (core_sec_idxs obj ! run_sec_num st)) (recs_of (ei_rec_size seg) s)) st'"
proof -
  have idxs: "core_sec_idxs (run_obj st) = core_sec_idxs obj" using ok by (simp add: run_ok_def)
  let ?idx = "core_sec_idxs obj ! run_sec_num st" and ?st = "st\<lparr>run_sec_num := run_sec_num st + 1\<rparr>"
    and ?rs = "recs_of (ei_rec_size seg) s"
  have run: "run_sec_num st < length (core_sec_idxs obj)" "run_all (relocate_record env data ?idx) ?rs ?st = Inr st'"
    using r by (auto simp: sec_run_def bindr_eq_Inr idxs arr_eq_Inr Let_def split: if_splits)
  let ?P = "\<lambda>rs s. (length rs \<le> length ?rs \<longrightarrow> run_ok env obj mods data (recs @ map (Pair ?idx) rs) s \<and>
      run_sec_num s = run_sec_num st + 1)"
  have start: "?P [] ?st" using ok by (simp add: run_ok_def cache_ok_def)
  have "?P (rs @ [r]) s2" if "?P rs s1" "relocate_record env data ?idx r s1 = Inr s2" for rs r s1 s2
  proof
    assume "length (rs @ [r]) \<le> length ?rs"
    with that(1) room have ih: "run_ok env obj mods data (recs @ map (Pair ?idx) rs) s1" "run_sec_num s1 = run_sec_num st + 1"
      "Suc (length (recs @ map (Pair ?idx) rs)) < 2 ^ 64" by simp_all
    from relocate_record_step [OF ih(1,3) m that(2)] ih(2)
    show "run_ok env obj mods data (recs @ map (Pair ?idx) (rs @ [r])) s2 \<and> run_sec_num s2 = run_sec_num st + 1" by simp
  qed
  from run_all_inv [where P = ?P and A = UNIV, OF this, OF _ _ start _ run(2)] run(1) show ?thesis by simp
qed

lemma run_secs:
  assumes ok: "run_ok env obj mods data [] st" "run_sec_num st = 0" and m: "modules env = (mods, None)"
    and few: "length (concat (map (recs_of (ei_rec_size seg)) secs)) < 2 ^ 64 - 1"
    and r: "run_all (sec_run env seg data) secs st = Inr st'"
  shows "length secs \<le> length (core_sec_idxs obj) \<and>
    run_ok env obj mods data (all_recs (core_sec_idxs obj) (ei_rec_size seg) 0 secs) st'"
  using assms(1,2) few r
proof -
  let ?all = "all_recs (core_sec_idxs obj) (ei_rec_size seg) 0"
  have "k = length xs \<Longrightarrow> run_ok env obj mods data (?all xs) st1 \<Longrightarrow> run_sec_num st1 = k \<Longrightarrow> k \<le> length (core_sec_idxs obj) \<Longrightarrow>
      length (?all (xs @ ys)) < 2 ^ 64 - 1 \<Longrightarrow> run_all (sec_run env seg data) ys st1 = Inr st' \<Longrightarrow>
      k + length ys \<le> length (core_sec_idxs obj) \<and> run_ok env obj mods data (?all (xs @ ys)) st'" for k xs ys st1
  proof (induction ys arbitrary: k xs st1)
    case (Cons y ys)
    then obtain st2 where st2: "sec_run env seg data y st1 = Inr st2" "run_all (sec_run env seg data) ys st2 = Inr st'"
      by (auto simp: bindr_eq_Inr)
    have "length (?all xs) + length (recs_of (ei_rec_size seg) y) < 2 ^ 64 - 1"
      using Cons.prems(5) by (simp add: all_recs_append)
    from sec_run_step [OF Cons.prems(2) m this st2(1)] Cons.prems(1,3)
    have "k < length (core_sec_idxs obj)" "run_sec_num st2 = k + 1" "run_ok env obj mods data (?all (xs @ [y])) st2"
      by (simp_all add: all_recs_append)
    from Cons.IH [OF _ this(3,2) _ _ st2(2)] this(1) Cons.prems(1,5) show ?case by simp
  qed simp
  from this [of 0 "[]" st secs] assms show ?thesis by (simp add: all_recs_length)
qed

text \<open>The records of the segment of an object, with the ELF sections they are for.\<close>

definition core_recs :: "bpf_object \<Rightarrow> (nat \<times> nat) list" where
  "core_recs obj =
     (case ext_walk (ext_data (obj_ext obj)) (ext_core_relo_info (obj_ext obj)) of
        Inl _ \<Rightarrow> []
      | Inr secs \<Rightarrow> numbered_recs (core_sec_idxs obj) 0 secs)"

lemma relocate_core_run:
  assumes ext: "ext_ok (obj_ext obj)" and m: "modules env = (mods, None)"
    and len: "ei_len (ext_core_relo_info (obj_ext obj)) \<noteq> 0"
    and r: "bpf_object__relocate_core env targ malloc_ok obj = Inr obj'"
  obtains kern st outs where "kern = (case targ of Some (Inr btf) \<Rightarrow> obj\<lparr>btf_vmlinux_override := Some btf\<rparr> | _ \<Rightarrow> obj)"
    "run_ok env kern mods (ext_data (obj_ext obj)) (core_recs obj) st"
    "obj' = (run_obj st)\<lparr>btf_vmlinux_override := None\<rparr>"
proof -
  let ?seg = "ext_core_relo_info (obj_ext obj)" and ?data = "ext_data (obj_ext obj)"
  define kern where "kern = (case targ of Some (Inr btf) \<Rightarrow> obj\<lparr>btf_vmlinux_override := Some btf\<rparr> | _ \<Rightarrow> obj)"
  let ?st = "fresh_run kern"
  have same: "core_sec_idxs kern = core_sec_idxs obj" "programs kern = programs obj"
    by (auto simp: kern_def split: option.split sum.split)
  from ext have seg: "seg_ok ?data 16 ?seg" by (simp add: ext_ok_def)
  from seg_okD [OF this] obtain secs where secs: "ei_len ?seg < 2 ^ 32"
    "sec_tiles ?data (ei_rec_size ?seg) (ei_info ?seg) (ei_info ?seg + ei_len ?seg) secs" by blast
  have rs: "0 < ei_rec_size ?seg" using seg len by (auto simp: seg_ok_def no_info_def)
  from r len obtain data st where walk: "for_each_sec ?seg (relocate_sec env ?seg) (ei_info ?seg) (?data, ?st) = Inr (data, st)"
    and obj': "obj' = (run_obj st)\<lparr>btf_vmlinux_override := None\<rparr>"
    by (auto simp: bpf_object__relocate_core_def kern_def bindr_eq_Inr hashmap__new_def fresh_run_def Let_def
        split: option.splits sum.splits if_splits)
  have "for_each_sec ?seg (relocate_sec env ?seg) (ei_info ?seg) (?data, ?st) =
      bindr (run_all (sec_run env ?seg ?data) secs ?st) (\<lambda>st. Inr (?data, st))"
    by (rule for_each_sec_run [OF secs(2)])
      (use secs sec_tiles_mem [OF secs(2)] in \<open>auto intro!: relocate_sec_run\<close>)
  with walk have run: "run_all (sec_run env ?seg ?data) secs ?st = Inr st" by (auto simp: bindr_eq_Inr)
  have few: "length (concat (map (recs_of (ei_rec_size ?seg)) secs)) < 2 ^ 64 - 1"
    using recs_few [OF secs(2) rs] secs(1) by simp
  have "run_ok env kern mods ?data [] ?st"
    using fresh_ok [of _ kern] relocated_start by (simp add: run_ok_def same_kernel_def targets_def outcomes_def) (simp add: fresh_run_def relocated_start)
  from run_secs [OF this _ m few run] have "run_ok env kern mods ?data (all_recs (core_sec_idxs obj) (ei_rec_size ?seg) 0 secs) st"
    by (simp add: same fresh_run_def)
  moreover have "core_recs obj = all_recs (core_sec_idxs obj) (ei_rec_size ?seg) 0 secs"
    by (simp add: core_recs_def ext_walk_secs [OF secs(2,1)] all_recs_def)
  ultimately show thesis using that [OF kern_def _ obj'] by simp
qed

section \<open>An example\<close>

text \<open>A program with one instruction, whose immediate is relocated to the number of its local type.\<close>

definition core_ext :: "u8 list" where
  "core_ext = [0x9F, 0xeB, 1, 0, 32, 0, 0, 0, 0, 0, 0, 0, 0, 0, 0, 0, 0, 0, 0, 0, 0, 0, 0, 0,
     0, 0, 0, 0, 28, 0, 0, 0, 16, 0, 0, 0, 1, 0, 0, 0, 1, 0, 0, 0,
     8, 0, 0, 0, 2, 0, 0, 0, 7, 0, 0, 0, 6, 0, 0, 0]"

definition core_parsed :: btf_ext where
  "core_parsed = \<lparr>ext_data = core_ext, ext_func_info = no_info, ext_line_info = no_info,
     ext_core_relo_info = \<lparr>ei_info = 36, ei_rec_size = 16, ei_len = 24, ei_sec_cnt = 1\<rparr>\<rparr>"

lemma core_new: "btf_ext__new True True core_ext = Inr core_parsed"
  by (simp add: ext_new_eval core_ext_def core_parsed_def)

definition mov_imm :: "s32 \<Rightarrow> bpf_insn" where
  "mov_imm v = \<lparr>code = 0xb7, dst_reg = 1, src_reg = 0, insn_off = 0, insn_imm = v\<rparr>"

definition core_prog :: bpf_program where
  "core_prog = \<lparr>prog_sec_idx = 3, prog_sec_insn_off = 1, prog_sec_insn_cnt = 1, prog_autoload = True,
     prog_insns = [mov_imm 0], prog_relocs = []\<rparr>"

definition core_obj :: bpf_object where
  "core_obj = \<lparr>obj_btf = bits_btf, obj_ext = core_parsed, core_sec_idxs = [3], programs = [core_prog],
     btf_vmlinux = bits_btf, btf_vmlinux_override = None, btf_modules = [], btf_modules_loaded = False,
     gen_loader = False\<rparr>"

lemma core_words: "rd32 core_ext 36 = Inr 1" "rd32 core_ext 40 = Inr 1" "rd32 core_ext 44 = Inr 8"
  "rd32 core_ext 48 = Inr 2" "rd32 core_ext 52 = Inr 7" "rd32 core_ext 56 = Inr 6"
  by (simp_all add: core_ext_def rd_def)

lemma core_found_prog: "find_prog_by_sec_insn [core_prog] 3 (Suc 0) = Some 0"
  by (simp add: find_prog_by_sec_insn_def find_prog_loop.simps core_prog_def prog_contains_insn_def)

definition local_relo :: bpf_core_relo where
  "local_relo = \<lparr>relo_type_id = 2, relo_access_str_off = 7, relo_kind_of = BPF_CORE_TYPE_ID_LOCAL\<rparr>"

lemma core_relo: "read_relo core_ext 44 = Inr local_relo"
  using core_words by (simp add: read_relo_def relo_kinds_def local_relo_def)

definition local_res :: bpf_core_relo_res where
  "local_res = res_init\<lparr>res_validate := False, res_orig_val := 2, res_new_val := 2\<rparr>"

lemma core_calc: "bpf_core_calc_relo_insn (Suc 0) local_relo bits_btf [] = Inr (local_res, [])"
proof -
  have "core_relo_is_type_based BPF_CORE_TYPE_ID_LOCAL" "\<not> core_relo_is_field_based BPF_CORE_TYPE_ID_LOCAL"
    by (simp_all add: core_relo_is_type_based_def core_relo_is_field_based_def)
  then show ?thesis
    using bits_at(2) bits_info(7) bits_names
    by (simp add: bpf_core_calc_relo_insn_def as_einval_def bpf_core_parse_spec_def str_is_empty_def asc_def
        local_relo_def local_res_def spec_new_def Let_def)
qed

lemma core_patch: "bpf_core_patch_insn [mov_imm 0] 0 local_res = Inr ([mov_imm 2], None)"
  by (simp add: bpf_core_patch_insn_def mov_imm_def local_res_def res_init_def BPF_CLASS_def BPF_SRC_def alu_classes_def
      patch_alu_def)

lemma core_record:
  assumes "run_obj st = core_obj"
  shows "relocate_record one_env core_ext 3 44 st =
    Inr (set_prog 0 (core_prog\<lparr>prog_insns := [mov_imm 2], prog_relocs := [RELO_CORE 0 44]\<rparr>) st)"
proof -
  have "btf__type_cnt bits_btf = 3" by (simp add: btf__type_cnt_def bits_btf_def)
  then have "bpf_core_resolve_relo one_env 44 local_relo (set_prog 0 p st) = Inr (local_res, set_prog 0 p st)" for p
    using core_calc bits_at(2) bits_info(7) bits_names(1) assms
    by (simp add: bpf_core_resolve_relo_def set_prog_def core_obj_def local_relo_def one_env_def btf__type_by_id_def)
  moreover have "prog_autoload core_prog" "prog_sec_insn_off core_prog = 1" "prog_insns core_prog = [mov_imm 0]"
    "prog_relocs core_prog = []" "programs core_obj = [core_prog]" "\<not> gen_loader core_obj" "desc_ok one_env 44"
    by (simp_all add: core_prog_def core_obj_def one_env_def)
  moreover have "set_prog 0 p (set_prog 0 q st) = set_prog 0 p st" for p q by (simp add: set_prog_def)
  ultimately show ?thesis
    using core_words core_found_prog core_relo core_patch assms
    by (simp add: relocate_record_def apply_relo_def record_relo_core_def prog_upd Let_def)
qed

section \<open>Properties\<close>


lemma core_run:
  "bpf_object__relocate_core one_env None True core_obj =
    Inr (core_obj\<lparr>programs := [core_prog\<lparr>prog_insns := [mov_imm 2], prog_relocs := [RELO_CORE 0 44]\<rparr>]\<rparr>)"
proof -
  let ?seg = "ext_core_relo_info core_parsed"
  have seg: "sec_tiles core_ext 16 36 60 [(36, 1)]" using core_words by simp
  have name: "name_at bits_btf 1 = Inr (Some (asc ''s''))" by (rule bits_names)
  have "for_each_sec ?seg (relocate_sec one_env ?seg) 36 (core_ext, st) =
      bindr (run_all (sec_run one_env ?seg core_ext) [(36, 1)] st) (\<lambda>st. Inr (core_ext, st))" for st
    by (rule for_each_sec_run) (use seg core_words in \<open>auto simp: core_parsed_def intro!: relocate_sec_run\<close>)
  moreover have "recs_of 16 (36, 1) = [44]" by (simp add: recs_of_def)
  moreover have "run_obj st = core_obj \<Longrightarrow> run_sec_num st = 0 \<Longrightarrow> sec_run one_env ?seg core_ext (36, 1) st =
      Inr (set_prog 0 (core_prog\<lparr>prog_insns := [mov_imm 2], prog_relocs := [RELO_CORE 0 44]\<rparr>) (st\<lparr>run_sec_num := 1\<rparr>))" for st
    using core_words name core_record [of "st\<lparr>run_sec_num := 1\<rparr>"] calculation(2)
    by (simp add: sec_run_def core_parsed_def Let_def str_is_empty_def asc_def) (simp add: core_obj_def)
  ultimately show ?thesis
    by (simp add: bpf_object__relocate_core_def hashmap__new_def Let_def)
      (simp add: core_obj_def core_parsed_def set_prog_def)
qed


end
