(* ===== verification/Btf_Build.thy ===== *)
theory Btf_Build imports Btf_Visit Btf_Query Strset begin

text \<open>
  Building type information (\<open>bpf/libbpf/src/btf.c\<close>): an object in its modifiable form, with growable
  blocks for the types and their index and a string set, and the routines that append a type or
  an element of the last type.

  An object is the list of its parts, its own first and those of the base objects behind it, as in Btf;
  \<open>layers\<close> is what the queries of Btf see of it.  The fields \<open>hdr->type_len\<close>, \<open>hdr->str_len\<close> and
  \<open>nr_types\<close> tell how much of the blocks is in use.  \<open>hdr->str_off\<close> and the copies of the raw data are
  derived from the rest, and left out.  Numbers of types and string offsets are natural numbers.
\<close>

section \<open>State\<close>

record btf_mod =
  m_types :: "u8 list"
  m_types_cap :: nat
  m_type_len :: nat
  m_offs :: "nat list"
  m_offs_cap :: nat
  m_nr_types :: nat
  m_start_id :: nat
  m_start_str_off :: nat
  m_strs :: "u8 list"
  m_str_len :: nat
  m_set :: "strset option"
  m_deduped :: bool
  m_swapped :: bool
  m_ptr_size :: int

type_synonym btf_obj = "btf_mod list"

definition mod_layer :: "btf_mod \<Rightarrow> btf_layer" where
  "mod_layer m =
     \<lparr>btf_types = take (m_type_len m) (m_types m), btf_type_offs = take (m_nr_types m) (m_offs m),
      btf_start_id = m_start_id m, btf_start_str_off = m_start_str_off m,
      btf_strs = (case m_set m of None \<Rightarrow> m_strs m | Some ss \<Rightarrow> take (m_str_len m) (strs_data ss)),
      btf_swapped_endian = m_swapped m, btf_ptr_size = m_ptr_size m\<rparr>"

definition layers :: "btf_obj \<Rightarrow> btf" where
  "layers obj = map mod_layer obj"

text \<open>The outcomes of the allocations that an operation makes for one part of the object.\<close>

record build_mem =
  bm_hdr :: bool
  bm_types :: bool
  bm_set :: bool
  bm_hash :: bool
  bm_data :: bool
  bm_index :: "nat \<Rightarrow> bool \<times> bool"
  bm_find :: bool
  bm_str :: bool
  bm_str_hash :: "bool \<times> bool"
  bm_type_mem :: bool
  bm_offs_mem :: bool
  bm_map :: "bool \<times> bool"

type_synonym build_mems = "nat \<Rightarrow> build_mem"

text \<open>
  An operation leaves the object behind also when it returns an error.  The negative errno is the
  left of the inner sum.
\<close>

type_synonym 'a build = "(btf_obj \<times> (errno + 'a)) res"

definition bindb :: "'a build \<Rightarrow> (btf_obj \<Rightarrow> 'a \<Rightarrow> 'b build) \<Rightarrow> 'b build" where
  "bindb m f = bindr m (\<lambda>(obj, r). case r of Inl e \<Rightarrow> Inr (obj, Inl e) | Inr x \<Rightarrow> f obj x)"

text \<open>A new object: \<open>raw_data\<close> holds the header and, without a base, the empty string.\<close>

definition btf_new_empty :: "bool \<Rightarrow> bool \<Rightarrow> btf_obj \<Rightarrow> btf_obj res" where
  "btf_new_empty calloc_ok raw_ok base =
     (if \<not> calloc_ok then Inl (Err ENOMEM)
      else if \<not> raw_ok then Inl (Err ENOMEM)
      else Inr
        (\<lparr>m_types = [], m_types_cap = 0, m_type_len = 0, m_offs = [], m_offs_cap = 0, m_nr_types = 0,
          m_start_id = (case base of [] \<Rightarrow> 1 | b # _ \<Rightarrow> m_start_id b + m_nr_types b),
          m_start_str_off = (case base of [] \<Rightarrow> 0 | b # _ \<Rightarrow> m_str_len b),
          m_strs = (if base = [] then [0] else []), m_str_len = (if base = [] then 1 else 0),
          m_set = None, m_deduped = False,
          m_swapped = (case base of [] \<Rightarrow> False | b # _ \<Rightarrow> m_swapped b), m_ptr_size = 8\<rparr> # base))"

section \<open>Strings\<close>

definition btf_ensure_modifiable :: "build_mem \<Rightarrow> bool \<Rightarrow> btf_mod \<Rightarrow> (btf_mod \<times> errno option) res" where
  "btf_ensure_modifiable mem has_base m =
     (if m_set m \<noteq> None then Inr (m, None)
      else if \<not> bm_hdr mem \<or> \<not> bm_types mem then Inr (m, Some ENOMEM)
      else
        (case strset__new (bm_set mem) (bm_hash mem) (bm_data mem) (bm_index mem) BTF_MAX_STR_OFFSET
            (Some (m_strs m)) of
           Inl (Err e) \<Rightarrow> Inr (m, Some e)
         | Inl e \<Rightarrow> Inl e
         | Inr ss \<Rightarrow>
             Inr (m\<lparr>m_types := take (m_type_len m) (m_types m), m_types_cap := m_type_len m,
                    m_strs := [], m_set := Some ss,
                    m_deduped := (m_deduped m \<or> m_str_len m = 0 \<or> \<not> has_base \<and> m_str_len m = 1)\<rparr>, None)))"

text \<open>The sum is an \<open>int\<close>.\<close>

definition str_result :: "btf_mod \<Rightarrow> s32 \<Rightarrow> nat res" where
  "str_result m off =
     (if m_start_str_off m + unat off \<ge> 2 ^ 31 then Inl UB else Inr (m_start_str_off m + unat off))"

definition find_own :: "build_mem \<Rightarrow> btf_mod \<Rightarrow> btf_obj \<Rightarrow> u8 list \<Rightarrow> nat build" where
  "find_own mem m base s =
     bindr (btf_ensure_modifiable mem (base \<noteq> []) m) (\<lambda>(m, err).
     if err \<noteq> None then Inr (m # base, Inl ENOMEM)
     else
       bindr (deref (m_set m)) (\<lambda>ss.
       case strset__find_str (bm_find mem) ss s of
         (ss, r) \<Rightarrow>
           let m = m\<lparr>m_set := Some ss\<rparr> in
           (case r of
              Inl e \<Rightarrow> Inr (m # base, Inl e)
            | Inr off \<Rightarrow> bindr (str_result m off) (\<lambda>off. Inr (m # base, Inr off)))))"

fun btf__find_str :: "build_mems \<Rightarrow> btf_obj \<Rightarrow> u8 list \<Rightarrow> nat build" where
  "btf__find_str mems [] s = Inl UB"
| "btf__find_str mems (m # base) s =
     bindr (if base = [] then Inr (base, Inl ENOENT) else btf__find_str mems base s) (\<lambda>(base, r).
     if r \<noteq> Inl ENOENT then Inr (m # base, r) else find_own (mems (length base)) m base s)"

definition add_own :: "build_mem \<Rightarrow> btf_mod \<Rightarrow> btf_obj \<Rightarrow> u8 list \<Rightarrow> nat build" where
  "add_own mem m base s =
     bindr (btf_ensure_modifiable mem (base \<noteq> []) m) (\<lambda>(m, err).
     if err \<noteq> None then Inr (m # base, Inl ENOMEM)
     else
       bindr (deref (m_set m)) (\<lambda>ss.
       case strset__add_str (bm_str mem) (fst (bm_str_hash mem)) (snd (bm_str_hash mem)) ss s of
         (ss, r) \<Rightarrow>
           let m = m\<lparr>m_set := Some ss\<rparr> in
           (case r of
              Inl e \<Rightarrow> Inr (m # base, Inl e)
            | Inr off \<Rightarrow>
                let m = m\<lparr>m_str_len := strset__data_size ss\<rparr> in
                bindr (str_result m off) (\<lambda>off. Inr (m # base, Inr off)))))"

definition btf__add_str :: "build_mems \<Rightarrow> btf_obj \<Rightarrow> u8 list \<Rightarrow> nat build" where
  "btf__add_str mems obj s =
     (case obj of
        [] \<Rightarrow> Inl UB
      | m # base \<Rightarrow>
          bindr (if base = [] then Inr (base, Inl ENOENT) else btf__find_str mems base s) (\<lambda>(base, r).
          if r \<noteq> Inl ENOENT then Inr (m # base, r) else add_own (mems (length base)) m base s))"

section \<open>Memory for types\<close>

definition BTF_MAX_NR_TYPES :: nat where "BTF_MAX_NR_TYPES = 0x7fffffff"

definition btf_add_type_mem :: "bool \<Rightarrow> btf_mod \<Rightarrow> nat \<Rightarrow> btf_mod option" where
  "btf_add_type_mem realloc_ok m add_sz =
     map_option (\<lambda>(data, c). m\<lparr>m_types := data, m_types_cap := c\<rparr>)
       (libbpf_add_mem realloc_ok 0 1 (m_types m) (m_types_cap m) (m_type_len m) (2 ^ 32 - 1) add_sz)"

definition btf_add_type_offs_mem :: "bool \<Rightarrow> btf_mod \<Rightarrow> nat \<Rightarrow> btf_mod option" where
  "btf_add_type_offs_mem realloc_ok m add_cnt =
     map_option (\<lambda>(offs, c). m\<lparr>m_offs := offs, m_offs_cap := c\<rparr>)
       (libbpf_add_mem realloc_ok 0 4 (m_offs m) (m_offs_cap m) (m_nr_types m) BTF_MAX_NR_TYPES add_cnt)"

definition btf_add_type_idx_entry :: "bool \<Rightarrow> btf_mod \<Rightarrow> nat \<Rightarrow> btf_mod option" where
  "btf_add_type_idx_entry realloc_ok m type_off =
     map_option (\<lambda>m. m\<lparr>m_offs := (m_offs m)[m_nr_types m := type_off]\<rparr>) (btf_add_type_offs_mem realloc_ok m 1)"

definition btf_commit_type :: "bool \<Rightarrow> btf_mod \<Rightarrow> nat \<Rightarrow> btf_mod \<times> (errno + nat)" where
  "btf_commit_type realloc_ok m data_sz =
     (case btf_add_type_idx_entry realloc_ok m (m_type_len m) of
        None \<Rightarrow> (m, Inl ENOMEM)
      | Some m \<Rightarrow>
          let m = m\<lparr>m_type_len := m_type_len m + data_sz, m_nr_types := m_nr_types m + 1\<rparr> in
          (m, Inr (m_start_id m + m_nr_types m - 1)))"

section \<open>Types\<close>

fun kind_num :: "btf_kind \<Rightarrow> nat" where
  "kind_num BTF_KIND_UNKN = 0" | "kind_num BTF_KIND_INT = 1" | "kind_num BTF_KIND_PTR = 2"
| "kind_num BTF_KIND_ARRAY = 3" | "kind_num BTF_KIND_STRUCT = 4" | "kind_num BTF_KIND_UNION = 5"
| "kind_num BTF_KIND_ENUM = 6" | "kind_num BTF_KIND_FWD = 7" | "kind_num BTF_KIND_TYPEDEF = 8"
| "kind_num BTF_KIND_VOLATILE = 9" | "kind_num BTF_KIND_CONST = 10" | "kind_num BTF_KIND_RESTRICT = 11"
| "kind_num BTF_KIND_FUNC = 12" | "kind_num BTF_KIND_FUNC_PROTO = 13" | "kind_num BTF_KIND_VAR = 14"
| "kind_num BTF_KIND_DATASEC = 15" | "kind_num BTF_KIND_FLOAT = 16" | "kind_num BTF_KIND_DECL_TAG = 17"
| "kind_num BTF_KIND_TYPE_TAG = 18" | "kind_num BTF_KIND_ENUM64 = 19" | "kind_num (BTF_KIND_OTHER k) = k"

text \<open>The three parts are put together by OR; their bits are apart for a \<open>vlen\<close> of at most 65536.\<close>

definition btf_type_info :: "btf_kind \<Rightarrow> nat \<Rightarrow> bool \<Rightarrow> nat" where
  "btf_type_info kind vlen kflag = (if kflag then 2 ^ 31 else 0) + kind_num kind * 2 ^ 24 + vlen"

definition type_words :: "nat list \<Rightarrow> u8 list" where
  "type_words ws = concat (map (le_bytes 4) ws)"

text \<open>A name that is not given, or empty, has offset 0.\<close>

definition add_name :: "build_mems \<Rightarrow> btf_obj \<Rightarrow> u8 list option \<Rightarrow> nat build" where
  "add_name mems obj name =
     (case name of
        None \<Rightarrow> Inr (obj, Inr 0)
      | Some s \<Rightarrow> if s = [] then Inr (obj, Inr 0) else btf__add_str mems obj s)"

text \<open>
  The steps that all routines share which append a type or an element: the object is made modifiable,
  memory is reserved, and the name is added where there is one.
\<close>

definition reserve :: "build_mems \<Rightarrow> btf_obj \<Rightarrow> nat \<Rightarrow> unit build" where
  "reserve mems obj n =
     (case obj of
        [] \<Rightarrow> Inl UB
      | m # base \<Rightarrow>
          let mem = mems (length base) in
          bindr (btf_ensure_modifiable mem (base \<noteq> []) m) (\<lambda>(m, err).
          if err \<noteq> None then Inr (m # base, Inl ENOMEM)
          else
            (case btf_add_type_mem (bm_type_mem mem) m n of
               None \<Rightarrow> Inr (m # base, Inl ENOMEM)
             | Some m \<Rightarrow> Inr (m # base, Inr ()))))"

definition prepare :: "build_mems \<Rightarrow> btf_obj \<Rightarrow> bool \<Rightarrow> u8 list option \<Rightarrow> nat \<Rightarrow> nat build" where
  "prepare mems obj has_name name n =
     bindb (reserve mems obj n) (\<lambda>obj _. if has_name then add_name mems obj name else Inr (obj, Inr 0))"

definition write_words :: "btf_mod \<Rightarrow> nat list \<Rightarrow> btf_mod" where
  "write_words m ws = m\<lparr>m_types := put_bytes (m_type_len m) (type_words ws) (m_types m)\<rparr>"

text \<open>
  A type: its words are written, the first of them the offset of the name, and it is committed.
\<close>

definition append_type :: "build_mems \<Rightarrow> btf_obj \<Rightarrow> u8 list option \<Rightarrow> nat list \<Rightarrow> nat build" where
  "append_type mems obj name ws =
     (let n = 4 * (1 + length ws) in
      bindb (prepare mems obj True name n) (\<lambda>obj name_off.
        case obj of
          [] \<Rightarrow> Inl UB
        | m # base \<Rightarrow>
            (case btf_commit_type (bm_offs_mem (mems (length base))) (write_words m (name_off # ws)) n of
               (m, r) \<Rightarrow> Inr (m # base, r))))"

definition no_name :: "u8 list option \<Rightarrow> bool" where
  "no_name name \<longleftrightarrow> name = None \<or> name = Some []"

definition fail :: "btf_obj \<Rightarrow> errno \<Rightarrow> 'a build" where
  "fail obj e = Inr (obj, Inl e)"

definition validate_type_id :: "int \<Rightarrow> bool" where
  "validate_type_id i \<longleftrightarrow> 0 \<le> i \<and> i \<le> int BTF_MAX_NR_TYPES"

definition btf__add_int :: "build_mems \<Rightarrow> btf_obj \<Rightarrow> u8 list option \<Rightarrow> u64 \<Rightarrow> s32 \<Rightarrow> nat build" where
  "btf__add_int mems obj name byte_sz encoding =
     (if no_name name then fail obj EINVAL
      else if byte_sz = 0 \<or> byte_sz AND (byte_sz - 1) \<noteq> 0 \<or> byte_sz > 16 then fail obj EINVAL
      else if encoding AND NOT 7 \<noteq> 0 then fail obj EINVAL
      else append_type mems obj name
        [btf_type_info BTF_KIND_INT 0 False, unat byte_sz, unat encoding * 2 ^ 24 + unat byte_sz * 8])"

definition btf__add_float :: "build_mems \<Rightarrow> btf_obj \<Rightarrow> u8 list option \<Rightarrow> u64 \<Rightarrow> nat build" where
  "btf__add_float mems obj name byte_sz =
     (if no_name name then fail obj EINVAL
      else if byte_sz \<notin> {2, 4, 8, 12, 16} then fail obj EINVAL
      else append_type mems obj name [btf_type_info BTF_KIND_FLOAT 0 False, unat byte_sz])"

definition btf_add_ref_kind :: "build_mems \<Rightarrow> btf_obj \<Rightarrow> btf_kind \<Rightarrow> u8 list option \<Rightarrow> int \<Rightarrow> nat build" where
  "btf_add_ref_kind mems obj kind name ref_type_id =
     (if \<not> validate_type_id ref_type_id then fail obj EINVAL
      else append_type mems obj name [btf_type_info kind 0 False, nat ref_type_id])"

definition btf__add_ptr :: "build_mems \<Rightarrow> btf_obj \<Rightarrow> int \<Rightarrow> nat build" where
  "btf__add_ptr mems obj ref_type_id = btf_add_ref_kind mems obj BTF_KIND_PTR None ref_type_id"

definition btf__add_array :: "build_mems \<Rightarrow> btf_obj \<Rightarrow> int \<Rightarrow> int \<Rightarrow> u32 \<Rightarrow> nat build" where
  "btf__add_array mems obj index_type_id elem_type_id nr_elems =
     (if \<not> validate_type_id index_type_id \<or> \<not> validate_type_id elem_type_id then fail obj EINVAL
      else append_type mems obj None
        [btf_type_info BTF_KIND_ARRAY 0 False, 0, nat elem_type_id, nat index_type_id, unat nr_elems])"

definition btf_add_composite :: "build_mems \<Rightarrow> btf_obj \<Rightarrow> btf_kind \<Rightarrow> u8 list option \<Rightarrow> u32 \<Rightarrow> nat build" where
  "btf_add_composite mems obj kind name bytes_sz =
     append_type mems obj name [btf_type_info kind 0 False, unat bytes_sz]"

definition btf__add_struct :: "build_mems \<Rightarrow> btf_obj \<Rightarrow> u8 list option \<Rightarrow> u32 \<Rightarrow> nat build" where
  "btf__add_struct mems obj name byte_sz = btf_add_composite mems obj BTF_KIND_STRUCT name byte_sz"

definition btf__add_union :: "build_mems \<Rightarrow> btf_obj \<Rightarrow> u8 list option \<Rightarrow> u32 \<Rightarrow> nat build" where
  "btf__add_union mems obj name byte_sz = btf_add_composite mems obj BTF_KIND_UNION name byte_sz"

definition btf_add_enum_common :: "build_mems \<Rightarrow> btf_obj \<Rightarrow> u8 list option \<Rightarrow> u32 \<Rightarrow> bool \<Rightarrow> btf_kind \<Rightarrow> nat build" where
  "btf_add_enum_common mems obj name byte_sz is_signed kind =
     (if byte_sz = 0 \<or> byte_sz AND (byte_sz - 1) \<noteq> 0 \<or> byte_sz > 8 then fail obj EINVAL
      else append_type mems obj name [btf_type_info kind 0 is_signed, unat byte_sz])"

definition btf__add_enum :: "build_mems \<Rightarrow> btf_obj \<Rightarrow> u8 list option \<Rightarrow> u32 \<Rightarrow> nat build" where
  "btf__add_enum mems obj name byte_sz = btf_add_enum_common mems obj name byte_sz False BTF_KIND_ENUM"

definition btf__add_enum64 :: "build_mems \<Rightarrow> btf_obj \<Rightarrow> u8 list option \<Rightarrow> u32 \<Rightarrow> bool \<Rightarrow> nat build" where
  "btf__add_enum64 mems obj name byte_sz is_signed =
     btf_add_enum_common mems obj name byte_sz is_signed BTF_KIND_ENUM64"

definition btf__add_typedef :: "build_mems \<Rightarrow> btf_obj \<Rightarrow> u8 list option \<Rightarrow> int \<Rightarrow> nat build" where
  "btf__add_typedef mems obj name ref_type_id =
     (if no_name name then fail obj EINVAL else btf_add_ref_kind mems obj BTF_KIND_TYPEDEF name ref_type_id)"

definition btf__add_volatile :: "build_mems \<Rightarrow> btf_obj \<Rightarrow> int \<Rightarrow> nat build" where
  "btf__add_volatile mems obj ref_type_id = btf_add_ref_kind mems obj BTF_KIND_VOLATILE None ref_type_id"

definition btf__add_const :: "build_mems \<Rightarrow> btf_obj \<Rightarrow> int \<Rightarrow> nat build" where
  "btf__add_const mems obj ref_type_id = btf_add_ref_kind mems obj BTF_KIND_CONST None ref_type_id"

definition btf__add_restrict :: "build_mems \<Rightarrow> btf_obj \<Rightarrow> int \<Rightarrow> nat build" where
  "btf__add_restrict mems obj ref_type_id = btf_add_ref_kind mems obj BTF_KIND_RESTRICT None ref_type_id"

definition btf__add_type_tag :: "build_mems \<Rightarrow> btf_obj \<Rightarrow> u8 list option \<Rightarrow> int \<Rightarrow> nat build" where
  "btf__add_type_tag mems obj val ref_type_id =
     (if no_name val then fail obj EINVAL else btf_add_ref_kind mems obj BTF_KIND_TYPE_TAG val ref_type_id)"

text \<open>\<open>t->info\<close> of the type at an offset is overwritten.\<close>

definition set_info :: "btf_mod \<Rightarrow> nat \<Rightarrow> nat \<Rightarrow> btf_mod res" where
  "set_info m off info =
     (if off + 8 \<le> length (m_types m) then Inr (m\<lparr>m_types := put_bytes (off + 4) (le_bytes 4 info) (m_types m)\<rparr>)
      else Inl UB)"

definition type_off :: "btf_mod \<Rightarrow> nat \<Rightarrow> nat res" where
  "type_off m i = (if i < m_start_id m then Inl UB else arr (m_offs m) (i - m_start_id m))"

definition rewrite_info :: "nat build \<Rightarrow> nat \<Rightarrow> nat build" where
  "rewrite_info r info =
     bindb r (\<lambda>obj i.
       case obj of
         [] \<Rightarrow> Inl UB
       | m # base \<Rightarrow> bindr (type_off m i) (\<lambda>off. bindr (set_info m off info) (\<lambda>m. Inr (m # base, Inr i))))"

text \<open>The kinds of forward declarations are 0 for structures, 1 for unions, 2 for enumerations.\<close>

definition btf__add_fwd :: "build_mems \<Rightarrow> btf_obj \<Rightarrow> u8 list option \<Rightarrow> int \<Rightarrow> nat build" where
  "btf__add_fwd mems obj name fwd_kind =
     (if no_name name then fail obj EINVAL
      else if fwd_kind = 0 \<or> fwd_kind = 1
      then rewrite_info (btf_add_ref_kind mems obj BTF_KIND_FWD name 0)
        (btf_type_info BTF_KIND_FWD 0 (fwd_kind = 1))
      else if fwd_kind = 2 then btf__add_enum mems obj name 4
      else fail obj EINVAL)"

text \<open>The linkages are 0 for static, 1 for global, 2 for extern.\<close>

definition btf__add_func :: "build_mems \<Rightarrow> btf_obj \<Rightarrow> u8 list option \<Rightarrow> int \<Rightarrow> int \<Rightarrow> nat build" where
  "btf__add_func mems obj name linkage proto_type_id =
     (if no_name name then fail obj EINVAL
      else if linkage \<notin> {0, 1, 2} then fail obj EINVAL
      else rewrite_info (btf_add_ref_kind mems obj BTF_KIND_FUNC name proto_type_id)
        (btf_type_info BTF_KIND_FUNC (nat linkage) False))"

definition btf__add_func_proto :: "build_mems \<Rightarrow> btf_obj \<Rightarrow> int \<Rightarrow> nat build" where
  "btf__add_func_proto mems obj ret_type_id =
     (if \<not> validate_type_id ret_type_id then fail obj EINVAL
      else append_type mems obj None [btf_type_info BTF_KIND_FUNC_PROTO 0 False, nat ret_type_id])"

definition btf__add_var :: "build_mems \<Rightarrow> btf_obj \<Rightarrow> u8 list option \<Rightarrow> int \<Rightarrow> int \<Rightarrow> nat build" where
  "btf__add_var mems obj name linkage type_id =
     (if no_name name then fail obj EINVAL
      else if linkage \<notin> {0, 1, 2} then fail obj EINVAL
      else if \<not> validate_type_id type_id then fail obj EINVAL
      else append_type mems obj name [btf_type_info BTF_KIND_VAR 0 False, nat type_id, nat linkage])"

definition btf__add_datasec :: "build_mems \<Rightarrow> btf_obj \<Rightarrow> u8 list option \<Rightarrow> u32 \<Rightarrow> nat build" where
  "btf__add_datasec mems obj name byte_sz =
     (if no_name name then fail obj EINVAL
      else append_type mems obj name [btf_type_info BTF_KIND_DATASEC 0 False, unat byte_sz])"

definition btf__add_decl_tag :: "build_mems \<Rightarrow> btf_obj \<Rightarrow> u8 list option \<Rightarrow> int \<Rightarrow> s32 \<Rightarrow> nat build" where
  "btf__add_decl_tag mems obj val ref_type_id component_idx =
     (if no_name val \<or> sint component_idx < - 1 then fail obj EINVAL
      else if \<not> validate_type_id ref_type_id then fail obj EINVAL
      else append_type mems obj val
        [btf_type_info BTF_KIND_DECL_TAG 0 False, nat ref_type_id, unat component_idx])"

section \<open>Elements of the last type\<close>

text \<open>The last type of the object's own part: its offset.\<close>

definition btf_last_type :: "btf_mod \<Rightarrow> nat res" where
  "btf_last_type m = type_off m (m_start_id m + m_nr_types m - 1)"

text \<open>The kind, the number of elements and the flag of the type at an offset.\<close>

definition type_head :: "btf_mod \<Rightarrow> nat \<Rightarrow> (btf_kind \<times> nat \<times> bool) res" where
  "type_head m off =
     (let t = Type_At (m_types m) off in
      bindr (btf_kind t) (\<lambda>kind. bindr (btf_vlen t) (\<lambda>vlen. bindr (btf_kflag t) (\<lambda>kflag. Inr (kind, vlen, kflag)))))"

text \<open>
  The first check of these routines: the object has a last type of its own, of the kinds given.  The
  result is the kind.
\<close>

definition check_last :: "btf_kind set \<Rightarrow> btf_obj \<Rightarrow> btf_kind build" where
  "check_last kinds obj =
     (case obj of
        [] \<Rightarrow> Inl UB
      | m # base \<Rightarrow>
          if m_nr_types m = 0 then fail obj EINVAL
          else
            bindr (bindr (btf_last_type m) (type_head m)) (\<lambda>(kind, _).
            if kind \<notin> kinds then fail obj EINVAL else Inr (obj, Inr kind)))"

text \<open>
  The steps that they share afterwards: the words of the element are written behind the types, and
  \<open>info\<close> of the last type is computed anew from its parts.  \<open>has_name\<close> tells whether the first word of the
  element is the offset of its name.
\<close>

definition append_elem ::
  "build_mems \<Rightarrow> btf_obj \<Rightarrow> bool \<Rightarrow> u8 list option \<Rightarrow> nat list \<Rightarrow> (btf_kind \<Rightarrow> nat \<Rightarrow> bool \<Rightarrow> nat) \<Rightarrow> unit build" where
  "append_elem mems obj has_name name ws upd =
     (let n = 4 * (length ws + (if has_name then 1 else 0)) in
      bindb (prepare mems obj has_name name n) (\<lambda>obj name_off.
        case obj of
          [] \<Rightarrow> Inl UB
        | m # base \<Rightarrow>
            let m = write_words m (if has_name then name_off # ws else ws) in
            bindr (btf_last_type m) (\<lambda>off.
            bindr (type_head m off) (\<lambda>(kind, vlen, kflag).
            bindr (set_info m off (upd kind vlen kflag)) (\<lambda>m.
              Inr (m\<lparr>m_type_len := m_type_len m + n\<rparr> # base, Inr ()))))))"

text \<open>\<open>btf_type_inc_vlen\<close>\<close>

definition inc_vlen :: "btf_kind \<Rightarrow> nat \<Rightarrow> bool \<Rightarrow> nat" where
  "inc_vlen kind vlen kflag = btf_type_info kind (vlen + 1) kflag"

definition btf__add_field ::
  "build_mems \<Rightarrow> btf_obj \<Rightarrow> u8 list option \<Rightarrow> int \<Rightarrow> u32 \<Rightarrow> u32 \<Rightarrow> unit build" where
  "btf__add_field mems obj name type_id bit_offset bit_size =
     bindb (check_last {BTF_KIND_STRUCT, BTF_KIND_UNION} obj) (\<lambda>obj kind.
     if \<not> validate_type_id type_id then fail obj EINVAL
     else
       let is_bitfield = (bit_size \<noteq> 0 \<or> bit_offset mod 8 \<noteq> 0) in
       if is_bitfield \<and> (bit_size = 0 \<or> bit_size > 255 \<or> bit_offset > 0xffffff) then fail obj EINVAL
       else if kind = BTF_KIND_UNION \<and> bit_offset \<noteq> 0 then fail obj EINVAL
       else
         append_elem mems obj True name
           [nat type_id, unat (bit_offset OR push_bit 24 bit_size)]
           (\<lambda>kind vlen kflag. btf_type_info kind (vlen + 1) (is_bitfield \<or> kflag)))"

text \<open>A negative value makes the enumeration signed; \<open>vlen\<close> is then read back from \<open>info\<close>.\<close>

definition btf__add_enum_value :: "build_mems \<Rightarrow> btf_obj \<Rightarrow> u8 list option \<Rightarrow> u64 \<Rightarrow> unit build" where
  "btf__add_enum_value mems obj name val =
     bindb (check_last {BTF_KIND_ENUM} obj) (\<lambda>obj _.
     if no_name name then fail obj EINVAL
     else if sint val < - (2 ^ 31) \<or> sint val > 2 ^ 32 - 1 then fail obj E2BIG
     else
       append_elem mems obj True name [unat (ucast val :: u32)]
         (\<lambda>kind vlen kflag.
            if sint val < 0 then btf_type_info kind ((vlen + 1) mod 2 ^ 16) True else inc_vlen kind vlen kflag))"

definition btf__add_enum64_value :: "build_mems \<Rightarrow> btf_obj \<Rightarrow> u8 list option \<Rightarrow> u64 \<Rightarrow> unit build" where
  "btf__add_enum64_value mems obj name val =
     bindb (check_last {BTF_KIND_ENUM64} obj) (\<lambda>obj _.
     if no_name name then fail obj EINVAL
     else
       append_elem mems obj True name [unat (ucast val :: u32), unat (ucast (drop_bit 32 val) :: u32)] inc_vlen)"

definition btf__add_func_param :: "build_mems \<Rightarrow> btf_obj \<Rightarrow> u8 list option \<Rightarrow> int \<Rightarrow> unit build" where
  "btf__add_func_param mems obj name type_id =
     (if \<not> validate_type_id type_id then fail obj EINVAL
      else
        bindb (check_last {BTF_KIND_FUNC_PROTO} obj) (\<lambda>obj _.
          append_elem mems obj True name [nat type_id] inc_vlen))"

definition btf__add_datasec_var_info :: "build_mems \<Rightarrow> btf_obj \<Rightarrow> int \<Rightarrow> u32 \<Rightarrow> u32 \<Rightarrow> unit build" where
  "btf__add_datasec_var_info mems obj var_type_id offset byte_sz =
     bindb (check_last {BTF_KIND_DATASEC} obj) (\<lambda>obj _.
     if \<not> validate_type_id var_type_id then fail obj EINVAL
     else append_elem mems obj False None [nat var_type_id, unat offset, unat byte_sz] inc_vlen)"

end
