(* ===== verification/Btf_Grow.thy ===== *)
theory Btf_Grow imports Btf_Build begin

text \<open>
  Type sections that grow: what a type or an element that is written behind the last one does to the
  types that a layer has.
\<close>

section \<open>The words of a type\<close>

text \<open>Two sections agree on their first \<open>hi\<close> bytes.\<close>

definition agree :: "nat \<Rightarrow> u8 list \<Rightarrow> u8 list \<Rightarrow> bool" where
  "agree hi bs bs' \<longleftrightarrow> take hi bs' = take hi bs \<and> hi \<le> length bs \<and> hi \<le> length bs'"

lemma agree_take_drop: "agree hi bs bs' \<Longrightarrow> off + n \<le> hi \<Longrightarrow> take n (drop off bs') = take n (drop off bs)"
proof -
  assume a: "agree hi bs bs'" "off + n \<le> hi"
  have cut: "take n (drop off xs) = take n (drop off (take hi xs))" for xs :: "u8 list"
    using a(2) by (simp add: drop_take min_absorb1)
  show ?thesis using a(1) cut [of bs] cut [of bs'] unfolding agree_def by presburger
qed

lemma rd32_agree: "agree hi bs bs' \<Longrightarrow> off + 4 \<le> hi \<Longrightarrow> rd32 bs' off = rd32 bs off"
  using agree_take_drop [of hi bs bs' off 4] by (simp add: rd_def agree_def)

lemma agree_append [simp, intro]: "agree (length bs) bs (bs @ x)"
  by (simp add: agree_def)

lemma agree_put: "p + length x \<le> length bs \<Longrightarrow> agree p bs (put_bytes p x bs @ y)"
  by (simp add: agree_def put_bytes_before)

lemma type_words_simps [simp]: "type_words [] = []" "type_words (w # ws) = le_bytes 4 w @ type_words ws"
  by (simp_all add: type_words_def)

lemma length_type_words [simp]: "length (type_words ws) = 4 * length ws"
  by (induction ws) simp_all

lemma rd32_type_words: "i < length ws \<Longrightarrow> rd32 (bs @ type_words ws) (length bs + 4 * i) = Inr (ws ! i mod 2 ^ 32)"
proof (induction ws arbitrary: bs i)
  case (Cons w ws)
  show ?case
  proof (cases i)
    case 0
    then show ?thesis using le_nat_le_bytes [of 4 w] by (simp add: rd_def)
  next
    case (Suc j)
    then show ?thesis using Cons.IH [of j "bs @ le_bytes 4 w"] Cons.prems by (simp add: algebra_simps)
  qed
qed simp

text \<open>The number of bytes of a type, from its \<open>info\<close>.\<close>

definition info_size :: "nat \<Rightarrow> nat res" where
  "info_size info =
     (case rest_words (btf_kind_of (info div 2 ^ 24 mod 32)) (info mod 2 ^ 16) of
        None \<Rightarrow> Inl (Err EINVAL) | Some n \<Rightarrow> Inr (12 + n * 4))"

lemma type_size_info: "btf_type_size (Type_At bs off) = bindr (rd32 bs (off + 4)) info_size"
  by (cases "rd32 bs (off + 4)")
     (simp_all add: btf_type_size_def btf_vlen_def btf_kind_def tword_def info_size_def)

lemma type_size_inside: "btf_type_size (Type_At bs off) = Inr z \<Longrightarrow> off + 8 \<le> length bs \<and> 12 \<le> z"
  by (auto simp: type_size_info bindr_eq_Inr rd_def info_size_def split: if_splits option.splits)

definition proper_kind :: "btf_kind \<Rightarrow> bool" where
  "proper_kind kind \<longleftrightarrow> (\<forall>k. kind \<noteq> BTF_KIND_OTHER k)"

lemma kind_of_num: "proper_kind kind \<Longrightarrow> kind_num kind < 20 \<and> btf_kind_of (kind_num kind) = kind"
  by (cases kind) (auto simp: proper_kind_def btf_kind_of_def btf_kinds_def)

lemma type_info_parts:
  assumes "proper_kind kind" "vlen < 65536"
  shows "btf_kind_of (btf_type_info kind vlen kflag div 2 ^ 24 mod 32) = kind" "btf_type_info kind vlen kflag mod 2 ^ 16 = vlen"
    "(btf_type_info kind vlen kflag div 2 ^ 31 \<noteq> 0) = kflag" "btf_type_info kind vlen kflag mod 2 ^ 32 = btf_type_info kind vlen kflag"
proof -
  have k: "kind_num kind < 20" "btf_kind_of (kind_num kind) = kind" using kind_of_num [OF assms(1)] by auto
  have "(128 + kind_num kind) mod 32 = kind_num kind" using mod_mult_self1 [of "kind_num kind" 4 32] k(1) by (simp add: add.commute)
  then have "btf_type_info kind vlen kflag div 2 ^ 24 mod 32 = kind_num kind"
    using k(1) assms(2) by (simp add: btf_type_info_def div_add1_eq)
  then show "btf_kind_of (btf_type_info kind vlen kflag div 2 ^ 24 mod 32) = kind" by (simp add: k(2))
  have "btf_type_info kind vlen kflag = vlen + 2 ^ 16 * ((if kflag then 2 ^ 15 else 0) + kind_num kind * 2 ^ 8)"
    by (simp add: btf_type_info_def)
  then show "btf_type_info kind vlen kflag mod 2 ^ 16 = vlen" using assms(2) by (simp only: mod_mult_self2) simp
  show "(btf_type_info kind vlen kflag div 2 ^ 31 \<noteq> 0) = kflag"
    "btf_type_info kind vlen kflag mod 2 ^ 32 = btf_type_info kind vlen kflag"
    using k(1) assms(2) by (auto simp: btf_type_info_def)
qed

lemma info_size_type_info:
  "proper_kind kind \<Longrightarrow> vlen < 65536 \<Longrightarrow> rest_words kind vlen = Some n \<Longrightarrow>
    info_size (btf_type_info kind vlen kflag) = Inr (12 + n * 4)"
  using type_info_parts [of kind vlen kflag] by (simp add: info_size_def)

section \<open>The bytes of a type\<close>

definition type_bytes :: "type_ptr \<Rightarrow> u8 list res" where
  "type_bytes t =
     (case t of
        Btf_Void \<Rightarrow> Inr (replicate 12 0)
      | Type_At bs off \<Rightarrow>
          bindr (btf_type_size t) (\<lambda>n. if off + n \<le> length bs then Inr (take n (drop off bs)) else Inl UB))"

definition bytes_of :: "btf \<Rightarrow> nat \<Rightarrow> u8 list res" where
  "bytes_of btf i = bindr (btf_type_by_id btf i) type_bytes"

lemma type_size_agree: "agree hi bs bs' \<Longrightarrow> off + 8 \<le> hi \<Longrightarrow> btf_type_size (Type_At bs' off) = btf_type_size (Type_At bs off)"
  using rd32_agree [of hi bs bs' "off + 4"] by (simp add: type_size_info)

lemma type_bytes_agree:
  assumes "agree hi bs bs'" "btf_type_size (Type_At bs off) = Inr n" "off + n \<le> hi"
  shows "type_bytes (Type_At bs' off) = type_bytes (Type_At bs off)"
  using type_size_agree [OF assms(1), of off] type_size_inside [OF assms(2)] agree_take_drop [OF assms(1,3)] assms
  by (simp add: type_bytes_def agree_def)

lemma tiles_agree: "agree hi bs bs' \<Longrightarrow> tiles bs a b ps \<Longrightarrow> b \<le> hi \<Longrightarrow> tiles bs' a b ps"
proof (induction ps arbitrary: a)
  case (Cons p ps)
  then obtain n where n: "p = a" "btf_type_size (Type_At bs p) = Inr n" "p + n \<le> b" "tiles bs (p + n) b ps" by auto
  have "btf_type_size (Type_At bs' p) = Inr n"
    using type_size_agree [OF Cons.prems(1), of p] type_size_inside [OF n(2)] n(2,3) Cons.prems(3) by simp
  with n Cons show ?case by auto
qed simp

lemma tiles_snoc_iff: "tiles bs a b (ps @ [p]) \<longleftrightarrow> tiles bs a p ps \<and> btf_type_size (Type_At bs p) = Inr (b - p) \<and> p \<le> b"
proof (induction ps arbitrary: a)
  case (Cons q ps)
  then show ?case using tiles_le by fastforce
qed (auto intro: exI [of _ "b - p"])

lemma tiles_before: "tiles bs a b ps \<Longrightarrow> q \<in> set ps \<Longrightarrow> \<exists>n. btf_type_size (Type_At bs q) = Inr n \<and> q + n \<le> b"
proof (induction ps arbitrary: a)
  case (Cons p ps)
  then show ?case by auto
qed simp

section \<open>A type behind the others\<close>

definition with_types :: "btf \<Rightarrow> u8 list \<Rightarrow> nat list \<Rightarrow> btf" where
  "with_types btf ts offs = (hd btf)\<lparr>btf_types := ts, btf_type_offs := offs\<rparr> # tl btf"

definition type_appended :: "btf \<Rightarrow> u8 list \<Rightarrow> btf \<Rightarrow> bool" where
  "type_appended btf bytes btf' \<longleftrightarrow>
     btf' = with_types btf (btf_types (hd btf) @ bytes) (btf_type_offs (hd btf) @ [length (btf_types (hd btf))])"

definition elem_appended :: "btf \<Rightarrow> nat \<Rightarrow> u8 list \<Rightarrow> btf \<Rightarrow> bool" where
  "elem_appended btf info bytes btf' \<longleftrightarrow>
     btf' = with_types btf (put_bytes (last (btf_type_offs (hd btf)) + 4) (le_bytes 4 info) (btf_types (hd btf)) @ bytes)
       (btf_type_offs (hd btf))"

lemma cnt_pos: "btf_ok btf \<Longrightarrow> btf \<noteq> [] \<Longrightarrow> 1 \<le> btf__type_cnt btf"
  by (induction btf rule: btf_ok.induct) (auto simp: btf__type_cnt_def layer_ok_def split: list.splits if_splits)

lemma bytes_of_Cons:
  "btf_ok (l # base) \<Longrightarrow> bytes_of (l # base) i =
     (if i < btf_start_id l then bytes_of base i
      else if i < btf__type_cnt (l # base) then type_bytes (Type_At (btf_types l) (btf_type_offs l ! (i - btf_start_id l)))
      else Inl UB)"
  using cnt_pos [of base] by (cases base) (auto simp: bytes_of_def btf__type_cnt_def arr_def layer_ok_def)

lemma type_size_shift: "btf_type_size (Type_At (a @ bs) (length a)) = btf_type_size (Type_At bs 0)"
  by (simp add: type_size_info rd_def)

lemma appended_ok:
  assumes ok: "btf_ok btf" "btf \<noteq> []" and app: "type_appended btf bs btf'" and n: "btf_type_size (Type_At bs 0) = Inr (length bs)"
  shows "btf_ok btf'" "btf__type_cnt btf' = btf__type_cnt btf + 1" "\<forall>i < btf__type_cnt btf. bytes_of btf' i = bytes_of btf i"
    "bytes_of btf' (btf__type_cnt btf) = Inr bs"
proof -
  obtain l base where l: "btf = l # base" using ok(2) by (cases btf) auto
  let ?l = "l\<lparr>btf_types := btf_types l @ bs, btf_type_offs := btf_type_offs l @ [length (btf_types l)]\<rparr>"
  have btf': "btf' = ?l # base" using app by (simp add: type_appended_def with_types_def l)
  have lok: "layer_ok base l" using ok(1) by (simp add: l)
  have tiles: "tiles (btf_types l) 0 (length (btf_types l)) (btf_type_offs l)" using lok by (simp add: layer_ok_def)
  have "tiles (btf_types l @ bs) 0 (length (btf_types l @ bs)) (btf_type_offs l @ [length (btf_types l)])"
    using tiles_agree [OF agree_append tiles] n type_size_shift by (simp add: tiles_snoc_iff)
  then have lok': "layer_ok base ?l" using lok by (simp add: layer_ok_def)
  then have ok': "btf_ok (?l # base)" using ok(1) by (simp add: l)
  then show "btf_ok btf'" by (simp add: btf')
  show cnt: "btf__type_cnt btf' = btf__type_cnt btf + 1" by (simp add: btf' l btf__type_cnt_def)
  show "\<forall>i < btf__type_cnt btf. bytes_of btf' i = bytes_of btf i"
  proof (intro allI impI)
    fix i assume i: "i < btf__type_cnt btf"
    show "bytes_of btf' i = bytes_of btf i"
    proof (cases "i < btf_start_id l")
      case False
      let ?k = "i - btf_start_id l"
      have k: "?k < length (btf_type_offs l)" using i False by (auto simp: l btf__type_cnt_def)
      from tiles_before [OF tiles nth_mem [OF k]] obtain m where
        "btf_type_size (Type_At (btf_types l) (btf_type_offs l ! ?k)) = Inr m" "btf_type_offs l ! ?k + m \<le> length (btf_types l)" by auto
      from type_bytes_agree [OF agree_append this] k i cnt False show ?thesis
        by (simp add: btf' l bytes_of_Cons [OF ok'] bytes_of_Cons [OF ok(1) [unfolded l]] nth_append btf__type_cnt_def)
    qed (simp add: btf' l bytes_of_Cons [OF ok'] bytes_of_Cons [OF ok(1) [unfolded l]])
  qed
  show "bytes_of btf' (btf__type_cnt btf) = Inr bs"
    using n type_size_shift by (simp add: btf' l bytes_of_Cons [OF ok'] btf__type_cnt_def type_bytes_def)
qed

section \<open>An element of the last type\<close>

lemma elem_bytes:
  assumes n: "btf_type_size (Type_At bs p) = Inr (length bs - p)" "p \<le> length bs"
    and size: "info_size info = Inr (length bs - p + length x)" "info < 2 ^ 32"
  shows "btf_type_size (Type_At (put_bytes (p + 4) (le_bytes 4 info) bs @ x) p) = Inr (length bs - p + length x)"
    "type_bytes (Type_At (put_bytes (p + 4) (le_bytes 4 info) bs @ x) p) = Inr (put_bytes 4 (le_bytes 4 info) (drop p bs) @ x)"
proof -
  have p: "p + 8 \<le> length bs" using type_size_inside [OF n(1)] by simp
  have "rd32 (put_bytes (p + 4) (le_bytes 4 info) bs) (p + 4) = Inr info"
    using p put_bytes_same [of "p + 4" "le_bytes 4 info" bs] size(2) by (simp add: rd_def le_nat_le_bytes)
  then have "rd32 (put_bytes (p + 4) (le_bytes 4 info) bs @ x) (p + 4) = Inr info"
    using p rd32_agree [OF agree_append, of "p + 4" "put_bytes (p + 4) (le_bytes 4 info) bs" x] by simp
  then show sz: "btf_type_size (Type_At (put_bytes (p + 4) (le_bytes 4 info) bs @ x) p) = Inr (length bs - p + length x)"
    by (simp add: type_size_info size(1))
  have "drop p (put_bytes (p + 4) (le_bytes 4 info) bs @ x) = put_bytes 4 (le_bytes 4 info) (drop p bs) @ x"
    using p by (simp add: put_bytes_def take_drop add.commute)
  then show "type_bytes (Type_At (put_bytes (p + 4) (le_bytes 4 info) bs @ x) p) = Inr (put_bytes 4 (le_bytes 4 info) (drop p bs) @ x)"
    using sz p by (simp add: type_bytes_def)
qed

lemma elem_ok:
  assumes ok: "btf_ok btf" "btf \<noteq> []" and app: "elem_appended btf info bs btf'"
    and own: "btf_type_offs (hd btf) \<noteq> []" and old: "bytes_of btf (btf__type_cnt btf - 1) = Inr old"
    and size: "info_size info = Inr (length old + length bs)" "info < 2 ^ 32"
  shows "btf_ok btf'" "btf__type_cnt btf' = btf__type_cnt btf" "\<forall>i < btf__type_cnt btf - 1. bytes_of btf' i = bytes_of btf i"
    "bytes_of btf' (btf__type_cnt btf - 1) = Inr (put_bytes 4 (le_bytes 4 info) old @ bs)"
proof -
  obtain l base where l: "btf = l # base" using ok(2) by (cases btf) auto
  from own obtain ps p where ps: "btf_type_offs l = ps @ [p]" by (cases "btf_type_offs l" rule: rev_cases) (auto simp: l)
  let ?ts = "put_bytes (p + 4) (le_bytes 4 info) (btf_types l) @ bs"
  let ?l = "l\<lparr>btf_types := ?ts\<rparr>"
  have btf': "btf' = ?l # base" using app by (simp add: elem_appended_def with_types_def l ps)
  have lok: "layer_ok base l" using ok(1) by (simp add: l)
  have tiles: "tiles (btf_types l) 0 p ps" and n: "btf_type_size (Type_At (btf_types l) p) = Inr (length (btf_types l) - p)" "p \<le> length (btf_types l)"
    using lok by (simp_all add: layer_ok_def ps tiles_snoc_iff)
  have last: "btf__type_cnt btf - 1 - btf_start_id l = length ps" "btf_start_id l \<le> btf__type_cnt btf - 1"
    by (auto simp: l btf__type_cnt_def ps)
  have "old = drop p (btf_types l)"
    using old last n by (simp add: l bytes_of_Cons [OF ok(1) [unfolded l]] ps nth_append type_bytes_def btf__type_cnt_def)
  with n have old: "old = drop p (btf_types l)" "length (btf_types l) - p = length old" by simp_all
  note e = elem_bytes [OF n, of info bs, unfolded old(2), OF size]
  have ag: "agree p (btf_types l) ?ts"
    using type_size_inside [OF n(1)] by (auto simp: agree_def put_bytes_before)
  have "length (btf_types l) = p + length old" using n(2) old(2) by arith
  then have "length ?ts = p + (length old + length bs)" using type_size_inside [OF n(1)] by simp
  then have "tiles ?ts 0 (length ?ts) (btf_type_offs l)"
    using tiles_agree [OF ag tiles] e(1) by (simp add: ps tiles_snoc_iff)
  then have lok': "layer_ok base ?l" using lok by (simp add: layer_ok_def)
  then have ok': "btf_ok (?l # base)" using ok(1) by (simp add: l)
  then show "btf_ok btf'" by (simp add: btf')
  show cnt: "btf__type_cnt btf' = btf__type_cnt btf" by (simp add: btf' l btf__type_cnt_def)
  show "\<forall>i < btf__type_cnt btf - 1. bytes_of btf' i = bytes_of btf i"
  proof (intro allI impI)
    fix i assume i: "i < btf__type_cnt btf - 1"
    show "bytes_of btf' i = bytes_of btf i"
    proof (cases "i < btf_start_id l")
      case False
      let ?k = "i - btf_start_id l"
      have k: "?k < length ps" using i False by (auto simp: l btf__type_cnt_def ps)
      from tiles_before [OF tiles nth_mem [OF k]] obtain m where
        "btf_type_size (Type_At (btf_types l) (ps ! ?k)) = Inr m" "ps ! ?k + m \<le> p" by auto
      from type_bytes_agree [OF ag this] k i cnt False show ?thesis
        by (simp add: btf' l bytes_of_Cons [OF ok'] bytes_of_Cons [OF ok(1) [unfolded l]] nth_append btf__type_cnt_def ps)
    qed (simp add: btf' l bytes_of_Cons [OF ok'] bytes_of_Cons [OF ok(1) [unfolded l]])
  qed
  show "bytes_of btf' (btf__type_cnt btf - 1) = Inr (put_bytes 4 (le_bytes 4 info) old @ bs)"
    using e(2) last cnt by (simp add: btf' l bytes_of_Cons [OF ok'] ps nth_append old btf__type_cnt_def)
qed

end
