(* ===== verification/Btf_Built.thy ===== *)
theory Btf_Built imports Btf_Grow begin

text \<open>
  What the routines that build type information promise: the object stays well-formed, everything in it
  stays what it is, and what was appended is what the arguments say.
\<close>

section \<open>Well-formed objects\<close>

definition mod_wf :: "btf_mod \<Rightarrow> bool" where
  "mod_wf m \<longleftrightarrow>
     m_type_len m \<le> length (m_types m) \<and> m_type_len m < 2 ^ 32 \<and>
     m_nr_types m \<le> length (m_offs m) \<and> length (m_offs m) = m_offs_cap m \<and>
     m_str_len m \<le> BTF_MAX_STR_OFFSET \<and>
     (case m_set m of
        None \<Rightarrow> length (m_strs m) = m_str_len m
      | Some ss \<Rightarrow> length (m_types m) = m_types_cap m \<and> m_types_cap m < 2 ^ 32 \<and> ss_wf ss \<and> strs_data_len ss = m_str_len m \<and>
          strs_data_max_len ss = BTF_MAX_STR_OFFSET)"

text \<open>
  An object has at most one base: the offsets of strings in an object on a split object are wrong
  (theorem \<open>split_of_split_strings\<close> of Btf).  The first string of the lowest part is empty.
\<close>

definition obj_ok :: "btf_obj \<Rightarrow> bool" where
  "obj_ok obj \<longleftrightarrow> obj \<noteq> [] \<and> length obj \<le> 2 \<and> (\<forall>m \<in> set obj. mod_wf m) \<and> btf_ok (layers obj) \<and>
     hd (btf_strs (last (layers obj))) = 0"

lemma layer_strs_length: "mod_wf m \<Longrightarrow> length (btf_strs (mod_layer m)) = m_str_len m"
  by (auto simp: mod_wf_def mod_layer_def ss_wf_def split: option.splits)

text \<open>The string at an offset of an object.\<close>

definition str_is :: "btf \<Rightarrow> nat \<Rightarrow> u8 list \<Rightarrow> bool" where
  "str_is btf off s \<longleftrightarrow>
     (\<exists>bs k. btf__str_by_offset btf off = Inr (Some (bs, k)) \<and> terminated bs k (length bs) \<and> cstr_at bs k = s)"

text \<open>Only the strings of the own part have grown.\<close>

definition str_grown :: "btf \<Rightarrow> btf \<Rightarrow> bool" where
  "str_grown btf btf' \<longleftrightarrow>
     (\<exists>ext. btf' = (hd btf)\<lparr>btf_strs := btf_strs (hd btf) @ ext\<rparr> # tl btf \<and> (ext = [] \<or> last ext = 0))"

lemma str_grown_refl: "btf \<noteq> [] \<Longrightarrow> str_grown btf btf"
  by (cases btf) (auto simp: str_grown_def intro!: exI [of _ "[]"])

lemma str_grown_trans:
  assumes "str_grown a b" "str_grown b c"
  shows "str_grown a c"
proof -
  from assms(1) obtain x where b: "b = (hd a)\<lparr>btf_strs := btf_strs (hd a) @ x\<rparr> # tl a" "x = [] \<or> last x = 0"
    by (auto simp: str_grown_def)
  from assms(2) obtain y where c: "c = (hd b)\<lparr>btf_strs := btf_strs (hd b) @ y\<rparr> # tl b" "y = [] \<or> last y = 0"
    by (auto simp: str_grown_def)
  show ?thesis
    unfolding str_grown_def by (rule exI [of _ "x @ y"]) (use b c in \<open>auto simp: last_append\<close>)
qed

lemma str_grown_length: "str_grown btf btf' \<Longrightarrow> btf \<noteq> [] \<Longrightarrow> length btf' = length btf"
  by (cases btf) (auto simp: str_grown_def)

lemma str_grown_cnt: "str_grown btf btf' \<Longrightarrow> btf \<noteq> [] \<Longrightarrow> btf__type_cnt btf' = btf__type_cnt btf"
  by (cases btf) (auto simp: str_grown_def btf__type_cnt_def)

lemma cstr_at_append: "terminated bs k (length bs) \<Longrightarrow> terminated (bs @ x) k (length (bs @ x)) \<and> cstr_at (bs @ x) k = cstr_at bs k"
  using cstr_at_cong [of bs k "length bs" "bs @ x"] by (simp add: terminated_def)

lemma str_is_grown:
  assumes "str_grown btf btf'" "str_is btf off s"
  shows "str_is btf' off s"
proof (cases btf)
  case (Cons l base)
  with assms(1) obtain x where b: "btf' = l\<lparr>btf_strs := btf_strs l @ x\<rparr> # base" by (auto simp: str_grown_def)
  show ?thesis
  proof (cases "off < btf_start_str_off l")
    case True
    with assms(2) show ?thesis by (simp add: str_is_def b Cons)
  next
    case False
    with assms(2) have "off - btf_start_str_off l < length (btf_strs l)" "terminated (btf_strs l) (off - btf_start_str_off l) (length (btf_strs l))"
      "cstr_at (btf_strs l) (off - btf_start_str_off l) = s"
      by (auto simp: str_is_def Cons split: if_splits)
    with False cstr_at_append [of "btf_strs l" "off - btf_start_str_off l" x] show ?thesis
      by (simp add: str_is_def b)
  qed
qed (use assms in \<open>simp add: str_is_def\<close>)

lemma layer_ok_grown:
  assumes "layer_ok base l" "x = [] \<or> last x = 0"
  shows "layer_ok base (l\<lparr>btf_strs := btf_strs l @ x\<rparr>)"
  using assms by (auto simp: layer_ok_def last_append)

section \<open>Strings\<close>

text \<open>What stays when only strings are looked up or added: everything but the set and its length.\<close>

definition same_types :: "btf_mod \<Rightarrow> btf_mod \<Rightarrow> bool" where
  "same_types m m' \<longleftrightarrow>
     m_types m' = m_types m \<and> m_types_cap m' = m_types_cap m \<and> m_type_len m' = m_type_len m \<and> m_offs m' = m_offs m \<and>
     m_offs_cap m' = m_offs_cap m \<and> m_nr_types m' = m_nr_types m \<and> m_start_id m' = m_start_id m \<and>
     m_start_str_off m' = m_start_str_off m"

lemma ensure_modifiable_ok:
  assumes wf: "mod_wf m" and last: "btf_strs (mod_layer m) \<noteq> [] \<longrightarrow> last (btf_strs (mod_layer m)) = 0"
  shows "\<exists>m' e. btf_ensure_modifiable mem b m = Inr (m', e) \<and> mod_wf m' \<and> mod_layer m' = mod_layer m \<and>
    (e = None \<longrightarrow> m_set m' \<noteq> None) \<and> m_type_len m' = m_type_len m \<and> m_nr_types m' = m_nr_types m \<and>
    (m_set m \<noteq> None \<longrightarrow> m' = m)"
proof (cases "m_set m \<noteq> None \<or> \<not> bm_hdr mem \<or> \<not> bm_types mem")
  case True
  with wf show ?thesis by (cases "m_set m = None") (auto simp: btf_ensure_modifiable_def)
next
  case False
  then have none: "m_set m = None" "bm_hdr mem" "bm_types mem" by auto
  have strs: "length (m_strs m) = m_str_len m" "m_strs m \<noteq> [] \<longrightarrow> last (m_strs m) = 0"
    "m_str_len m \<le> BTF_MAX_STR_OFFSET" using wf last by (auto simp: mod_wf_def mod_layer_def none)
  let ?new = "strset__new (bm_set mem) (bm_hash mem) (bm_data mem) (bm_index mem) BTF_MAX_STR_OFFSET (Some (m_strs m))"
  have c: "case ?new of Inl e \<Rightarrow> e \<noteq> UB | Inr ss \<Rightarrow> ss_wf ss \<and> strs_data ss = m_strs m \<and> strs_data_len ss = length (m_strs m) \<and>
        (\<forall>off \<in> set (str_starts (m_strs m) 0). \<exists>off'. ss_knows ss (cstr_at (m_strs m) off) off')"
    by (rule strset__new_correct) (use strs in \<open>auto simp: BTF_MAX_STR_OFFSET_def\<close>)
  show ?thesis
  proof (cases ?new)
    case (Inl e)
    with c strset__new_no_hang have "e \<noteq> UB" "e \<noteq> Hang" by auto
    then obtain x where "e = Err x" by (cases e) auto
    with Inl none wf show ?thesis by (simp add: btf_ensure_modifiable_def)
  next
    case (Inr ss)
    have "strs_data_max_len ss = BTF_MAX_STR_OFFSET"
      using Inr by (auto simp: strset__new_def hashmap__new_def bindr_eq_Inr split: if_splits)
    with Inr c none wf strs show ?thesis
      by (auto simp: btf_ensure_modifiable_def mod_wf_def mod_layer_def min_def)
  qed
qed

text \<open>The string at a known offset of a set, in the layer made from it.\<close>

lemma knows_layer:
  assumes "mod_wf m" "m_set m = Some ss" "ss_knows ss s off"
  shows "off < length (btf_strs (mod_layer m))" "terminated (btf_strs (mod_layer m)) off (length (btf_strs (mod_layer m)))"
    "cstr_at (btf_strs (mod_layer m)) off = s"
proof -
  have wf: "ss_wf ss" "strs_data_len ss = m_str_len m" using assms(1,2) by (simp_all add: mod_wf_def)
  have t: "terminated (strs_data ss) off (strs_data_len ss)" "cstr_at (strs_data ss) off = s"
    using assms(3) wf(1) by (auto simp: ss_knows_def ss_wf_def)
  have strs: "btf_strs (mod_layer m) = take (strs_data_len ss) (strs_data ss)" by (simp add: mod_layer_def assms(2) wf(2))
  have "cstr_at (take (strs_data_len ss) (strs_data ss)) off = cstr_at (strs_data ss) off"
    by (rule cstr_at_cong [OF t(1)]) simp
  then show "off < length (btf_strs (mod_layer m))" "terminated (btf_strs (mod_layer m)) off (length (btf_strs (mod_layer m)))"
    "cstr_at (btf_strs (mod_layer m)) off = s"
    using t by (auto simp: strs terminated_def)
qed

lemma last_strs: "layer_ok base l \<Longrightarrow> btf_strs l \<noteq> [] \<longrightarrow> last (btf_strs l) = 0"
  by (simp add: layer_ok_def)

lemma str_result_Inr: "str_result m off = Inr k \<Longrightarrow> k = m_start_str_off m + unat off"
  by (simp add: str_result_def split: if_splits)

lemma find_own_ok:
  assumes wf: "mod_wf m" and lay: "layer_ok (layers base) (mod_layer m)" and s: "0 \<notin> set s"
    and f: "find_own mem m base s = Inr (obj', r)"
  shows "\<exists>m'. obj' = m' # base \<and> mod_wf m' \<and> mod_layer m' = mod_layer m \<and>
    (\<forall>off. r = Inr off \<longrightarrow> str_is (layers obj') off s)"
proof -
  from ensure_modifiable_ok [OF wf last_strs [OF lay], of mem "base \<noteq> []"] obtain m1 e where
    e: "btf_ensure_modifiable mem (base \<noteq> []) m = Inr (m1, e)" "mod_wf m1" "mod_layer m1 = mod_layer m"
      "e = None \<longrightarrow> m_set m1 \<noteq> None" by blast
  show ?thesis
  proof (cases e)
    case (Some x)
    with f e show ?thesis by (auto simp: find_own_def)
  next
    case None
    with e obtain ss where ss: "m_set m1 = Some ss" by auto
    obtain ss' q where q: "strset__find_str (bm_find mem) ss s = (ss', q)" by fastforce
    have ok: "ss_wf ss" "strs_data_len ss = m_str_len m1" using e(2) ss by (simp_all add: mod_wf_def)
    note c = find_str_cases [OF ok(1) s q] find_str_data [OF ok(1) s q]
    let ?m = "m1\<lparr>m_set := Some ss'\<rparr>"
    have m: "mod_wf ?m" "mod_layer ?m = mod_layer m"
      using e(2,3) c ss ok(2) by (auto simp: mod_wf_def mod_layer_def)
    have start: "m_start_str_off m1 = btf_start_str_off (mod_layer m)" using e(3) by (simp add: mod_layer_def)
    show ?thesis
    proof (cases q)
      case (Inl x)
      with f e None ss q m show ?thesis by (auto simp: find_own_def deref_def)
    next
      case (Inr k)
      with f e None ss q obtain off where off: "str_result ?m k = Inr off" "obj' = ?m # base" "r = Inr off"
        by (auto simp: find_own_def deref_def bindr_eq_Inr Let_def)
      have "ss_knows ss' s (unat k)" using c(1) Inr by simp
      from knows_layer [OF m(1) _ this] have "str_is (layers (?m # base)) off s"
        using str_result_Inr [OF off(1)] start by (simp add: str_is_def layers_def m(2))
      with off m show ?thesis by simp
    qed
  qed
qed

lemma layers_simps [simp]: "layers [] = []" "layers (m # base) = mod_layer m # layers base" "layers obj = [] \<longleftrightarrow> obj = []"
  by (simp_all add: layers_def)

lemma str_is_base:
  assumes "btf_ok (l # base)" "length base = 1" "str_is base off s"
  shows "str_is (l # base) off s"
proof -
  from assms(2) obtain b where b: "base = [b]" by (cases base) auto
  have "btf_start_str_off b = 0" "btf_start_str_off l = length (btf_strs b)" using assms(1) by (simp_all add: b layer_ok_def)
  with assms(3) show ?thesis by (auto simp: str_is_def b split: if_splits)
qed

lemma obj_okI:
  assumes "\<forall>m \<in> set obj. mod_wf m" "layers obj = layers obj0" "obj_ok obj0"
  shows "obj_ok obj"
proof -
  have "length obj = length obj0" using arg_cong [OF assms(2), of length] by (simp add: layers_def)
  then show ?thesis using assms by (auto simp: obj_ok_def)
qed

lemma find_str_ok:
  assumes "obj_ok obj" "0 \<notin> set s" "btf__find_str mems obj s = Inr (obj', r)"
  shows "obj_ok obj' \<and> layers obj' = layers obj \<and> (\<forall>off. r = Inr off \<longrightarrow> str_is (layers obj) off s)"
  using assms
proof (induction mems obj s arbitrary: obj' r rule: btf__find_str.induct)
  case (2 mems m base s)
  have ok: "mod_wf m" "layer_ok (layers base) (mod_layer m)" "length base \<le> 1"
    using "2.prems"(1) by (auto simp: obj_ok_def)
  from "2.prems"(3) obtain base' q where q: "(if base = [] then Inr (base, Inl ENOENT) else btf__find_str mems base s) = Inr (base', q)"
    "(if q \<noteq> Inl ENOENT then Inr (m # base', q) else find_own (mems (length base')) m base' s) = Inr (obj', r)"
    by (auto simp: bindr_eq_Inr split: if_splits)
  have base: "(\<forall>b \<in> set base'. mod_wf b) \<and> layers base' = layers base \<and> (base \<noteq> [] \<longrightarrow> (\<forall>off. q = Inr off \<longrightarrow> str_is (layers base) off s))"
  proof (cases "base = []")
    case False
    then have "obj_ok base" using "2.prems"(1) by (auto simp: obj_ok_def)
    from "2.IH" [OF False this "2.prems"(2)] q(1) False show ?thesis by (auto simp: obj_ok_def)
  qed (use q in simp)
  show ?case
  proof (cases "q \<noteq> Inl ENOENT")
    case True
    with q have r: "obj' = m # base'" "r = q" "base \<noteq> []" by (auto split: if_splits)
    have "length base = 1" using ok(3) r(3) by (cases base) auto
    then have "\<forall>off. r = Inr off \<longrightarrow> str_is (layers (m # base)) off s"
      using str_is_base [of "mod_layer m" "layers base"] base r "2.prems"(1) by (simp add: obj_ok_def layers_def)
    moreover have "obj_ok obj'" by (rule obj_okI [OF _ _ "2.prems"(1)]) (use r base ok in auto)
    ultimately show ?thesis using r base by simp
  next
    case False
    have lay: "layer_ok (layers base') (mod_layer m)" using ok(2) base by simp
    have own: "find_own (mems (length base')) m base' s = Inr (obj', r)" using q(2) False by simp
    from find_own_ok [OF ok(1) lay "2.prems"(2) own] obtain m' where
      m': "obj' = m' # base'" "mod_wf m'" "mod_layer m' = mod_layer m" "\<forall>off. r = Inr off \<longrightarrow> str_is (layers obj') off s"
      by (elim exE conjE)
    have "obj_ok obj'" by (rule obj_okI [OF _ _ "2.prems"(1)]) (use m' base in auto)
    with m' base show ?thesis by simp
  qed
qed simp

text \<open>Adding a string: only the strings of the own part grow, by that string or not at all.\<close>

lemma add_own_ok:
  assumes wf: "mod_wf m" and lay: "layer_ok (layers base) (mod_layer m)" and s: "0 \<notin> set s"
    and set: "m_set m \<noteq> None" and f: "add_own mem m base s = Inr (obj', r)"
  shows "\<exists>m' ext. obj' = m' # base \<and> mod_wf m' \<and> same_types m m' \<and> m_set m' \<noteq> None \<and>
    mod_layer m' = (mod_layer m)\<lparr>btf_strs := btf_strs (mod_layer m) @ ext\<rparr> \<and> (ext = [] \<or> last ext = 0) \<and>
    (\<forall>off. r = Inr off \<longrightarrow> str_is (layers obj') off s)"
proof -
  from set obtain ss where ss: "m_set m = Some ss" by auto
  have e: "btf_ensure_modifiable mem (base \<noteq> []) m = Inr (m, None)" using set by (simp add: btf_ensure_modifiable_def)
  obtain ss' q where q: "strset__add_str (bm_str mem) (fst (bm_str_hash mem)) (snd (bm_str_hash mem)) ss s = (ss', q)"
    by fastforce
  have ok: "ss_wf ss" "strs_data_len ss = m_str_len m" using wf ss by (simp_all add: mod_wf_def)
  note c = add_str_grows [OF ok(1) s q]
  then obtain ext where ext: "take (strs_data_len ss') (strs_data ss') = take (strs_data_len ss) (strs_data ss) @ ext"
    "ext = [] \<or> ext = s @ [0]" by blast
  have small: "strs_data_len ss' \<le> BTF_MAX_STR_OFFSET"
    using c wf ss by (auto simp: ss_wf_def mod_wf_def)
  show ?thesis
  proof (cases q)
    case (Inl x)
    with c have len: "strs_data_len ss' = strs_data_len ss" by simp
    have "length (take (strs_data_len ss) (strs_data ss)) = strs_data_len ss" "length (take (strs_data_len ss') (strs_data ss')) = strs_data_len ss'"
      using c ok by (auto simp: ss_wf_def)
    with ext(1) len have e0: "take (strs_data_len ss) (strs_data ss') = take (strs_data_len ss) (strs_data ss)"
      by (metis append_eq_conv_conj take_take min.idem length_append add_cancel_left_right length_0_conv append_Nil2)
    from f e ss q Inl have "obj' = m\<lparr>m_set := Some ss'\<rparr> # base" "r = Inl x" by (auto simp: add_own_def deref_def Let_def)
    moreover have "mod_wf (m\<lparr>m_set := Some ss'\<rparr>)" using wf ss c ok len by (auto simp: mod_wf_def)
    moreover have "mod_layer (m\<lparr>m_set := Some ss'\<rparr>) = mod_layer m"
      using e0 ok ss by (simp add: mod_layer_def)
    ultimately show ?thesis by (intro exI [of _ "m\<lparr>m_set := Some ss'\<rparr>"] exI [of _ "[]"]) (simp add: same_types_def)
  next
    case (Inr k)
    let ?m = "m\<lparr>m_set := Some ss', m_str_len := strset__data_size ss'\<rparr>"
    from f e ss q Inr obtain off where off: "str_result ?m k = Inr off" "obj' = ?m # base" "r = Inr off"
      by (auto simp: add_own_def deref_def bindr_eq_Inr Let_def)
    have m: "mod_wf ?m" using wf ss c small by (auto simp: mod_wf_def strset__data_size_def)
    have lay': "mod_layer ?m = (mod_layer m)\<lparr>btf_strs := btf_strs (mod_layer m) @ ext\<rparr>"
      using ext(1) ok ss by (simp add: mod_layer_def strset__data_size_def)
    have "ss_knows ss' s (unat k)" using add_str_cases [OF ok(1) s q [unfolded Inr]] by simp
    from knows_layer [OF m _ this] have "str_is (layers (?m # base)) off s"
      using str_result_Inr [OF off(1)] by (simp add: str_is_def lay' mod_layer_def)
    with off m lay' ext(2) show ?thesis
      by (intro exI [of _ ?m] exI [of _ ext]) (auto simp: same_types_def)
  qed
qed

text \<open>What an addition of strings may do to an object.\<close>

definition strs_only :: "btf_obj \<Rightarrow> btf_obj \<Rightarrow> bool" where
  "strs_only obj obj' \<longleftrightarrow> obj_ok obj' \<and> same_types (hd obj) (hd obj') \<and> m_set (hd obj') \<noteq> None \<and>
     str_grown (layers obj) (layers obj')"

lemma add_str_ok:
  assumes obj: "obj_ok obj" "m_set (hd obj) \<noteq> None" and s: "0 \<notin> set s" and f: "btf__add_str mems obj s = Inr (obj', r)"
  shows "strs_only obj obj' \<and> (\<forall>off. r = Inr off \<longrightarrow> str_is (layers obj') off s)"
proof -
  obtain m base where mb: "obj = m # base" using obj(1) by (cases obj) (auto simp: obj_ok_def)
  have ok: "mod_wf m" "layer_ok (layers base) (mod_layer m)" "length base \<le> 1" "m_set m \<noteq> None"
    using obj by (auto simp: obj_ok_def mb)
  from f obtain base' q where q: "(if base = [] then Inr (base, Inl ENOENT) else btf__find_str mems base s) = Inr (base', q)"
    "(if q \<noteq> Inl ENOENT then Inr (m # base', q) else add_own (mems (length base')) m base' s) = Inr (obj', r)"
    by (auto simp: btf__add_str_def mb bindr_eq_Inr split: if_splits)
  have base: "(\<forall>b \<in> set base'. mod_wf b) \<and> layers base' = layers base \<and>
      (base \<noteq> [] \<longrightarrow> (\<forall>off. q = Inr off \<longrightarrow> str_is (layers base) off s))"
  proof (cases "base = []")
    case False
    then have "obj_ok base" using obj(1) by (auto simp: obj_ok_def mb)
    from find_str_ok [OF this s] q(1) False show ?thesis by (auto simp: obj_ok_def)
  qed (use q in simp)
  show ?thesis
  proof (cases "q \<noteq> Inl ENOENT")
    case True
    with q have r: "obj' = m # base'" "r = q" "base \<noteq> []" by (auto split: if_splits)
    have "length base = 1" using ok(3) r(3) by (cases base) auto
    then have "\<forall>off. r = Inr off \<longrightarrow> str_is (layers obj') off s"
      using str_is_base [of "mod_layer m" "layers base"] base r obj(1) by (simp add: obj_ok_def layers_def mb)
    moreover have "obj_ok obj'" by (rule obj_okI [OF _ _ obj(1)]) (use r base ok in \<open>auto simp: mb\<close>)
    ultimately show ?thesis using r base ok str_grown_refl [of "layers obj'"] by (simp add: strs_only_def mb same_types_def)
  next
    case False
    have lay: "layer_ok (layers base') (mod_layer m)" using ok(2) base by simp
    have own: "add_own (mems (length base')) m base' s = Inr (obj', r)" using q(2) False by simp
    from add_own_ok [OF ok(1) lay s ok(4) own] obtain m' ext where
      m': "obj' = m' # base'" "mod_wf m'" "same_types m m'" "m_set m' \<noteq> None"
        "mod_layer m' = (mod_layer m)\<lparr>btf_strs := btf_strs (mod_layer m) @ ext\<rparr>" "ext = [] \<or> last ext = 0"
        "\<forall>off. r = Inr off \<longrightarrow> str_is (layers obj') off s"
      by (elim exE conjE)
    have g: "str_grown (layers obj) (layers obj')"
      unfolding str_grown_def by (rule exI [of _ ext]) (use m' base in \<open>simp add: mb\<close>)
    have len: "length base' = length base" using base by (metis layers_def length_map)
    have "hd (btf_strs (mod_layer m) @ ext) = 0" if "base = []"
      using obj(1) ok(2) that by (auto simp: obj_ok_def mb layer_ok_def hd_append)
    then have "obj_ok obj'"
      using obj(1) m'(1,2,5) base len layer_ok_grown [OF ok(2) m'(6)] by (auto simp: obj_ok_def mb)
    with g m' show ?thesis by (simp add: strs_only_def mb)
  qed
qed

section \<open>Memory for types\<close>

lemma type_mem_ok:
  assumes wf: "mod_wf m" "m_set m \<noteq> None" and mem: "btf_add_type_mem ok m n = Some m'"
  shows "mod_wf m'" "mod_layer m' = mod_layer m" "m_set m' = m_set m" "m_type_len m' = m_type_len m"
    "m_type_len m + n \<le> length (m_types m')" "m_type_len m + n < 2 ^ 32"
proof -
  from mem obtain data c where g: "libbpf_add_mem ok 0 1 (m_types m) (m_types_cap m) (m_type_len m) (2 ^ 32 - 1) n = Some (data, c)"
    and m': "m' = m\<lparr>m_types := data, m_types_cap := c\<rparr>" by (auto simp: btf_add_type_mem_def)
  from wf obtain ss where ss: "m_set m = Some ss" by auto
  with wf have cap: "length (m_types m) = m_types_cap m" "m_types_cap m < 2 ^ 32" "m_type_len m \<le> m_types_cap m"
    by (auto simp: mod_wf_def)
  note f = libbpf_add_mem_grows [OF g cap(1)]
  have c: "c < 2 ^ 32" using f(5) cap(2) by auto
  have same: "take (m_type_len m) data = take (m_type_len m) (m_types m)"
    using f(3) cap by (metis min.absorb1 take_take)
  show "mod_wf m'" "mod_layer m' = mod_layer m" "m_set m' = m_set m" "m_type_len m' = m_type_len m"
    "m_type_len m + n \<le> length (m_types m')" "m_type_len m + n < 2 ^ 32"
    using wf(1) f(1,2) c same by (auto simp: mod_wf_def mod_layer_def m' ss)
qed

lemma commit_ok:
  assumes wf: "mod_wf m" "m_set m \<noteq> None" and room: "m_type_len m + n \<le> length (m_types m)" "m_type_len m + n < 2 ^ 32"
    and c: "btf_commit_type ok m n = (m', r)"
  shows "case r of
      Inl e \<Rightarrow> m' = m
    | Inr i \<Rightarrow> i = m_start_id m + m_nr_types m \<and> mod_wf m' \<and> m_set m' = m_set m \<and>
        mod_layer m' = (mod_layer m)\<lparr>btf_types := take (m_type_len m + n) (m_types m),
          btf_type_offs := btf_type_offs (mod_layer m) @ [m_type_len m]\<rparr>"
proof (cases "btf_add_type_idx_entry ok m (m_type_len m)")
  case None
  with c show ?thesis by (auto simp: btf_commit_type_def)
next
  case (Some m1)
  then obtain offs k where g: "libbpf_add_mem ok 0 4 (m_offs m) (m_offs_cap m) (m_nr_types m) BTF_MAX_NR_TYPES 1 = Some (offs, k)"
    and m1: "m1 = m\<lparr>m_offs := offs[m_nr_types m := m_type_len m], m_offs_cap := k\<rparr>"
    by (auto simp: btf_add_type_idx_entry_def btf_add_type_offs_mem_def)
  have cap: "length (m_offs m) = m_offs_cap m" "m_nr_types m \<le> length (m_offs m)" using wf by (auto simp: mod_wf_def)
  note f = libbpf_add_mem_grows [OF g cap(1)]
  have same: "take (m_nr_types m) offs = take (m_nr_types m) (m_offs m)" using f(3) cap by (metis min.absorb1 take_take)
  have new: "take (Suc (m_nr_types m)) (offs[m_nr_types m := m_type_len m]) = take (m_nr_types m) (m_offs m) @ [m_type_len m]"
    using f(1,2) same by (simp add: take_Suc_conv_app_nth)
  have m': "m' = m1\<lparr>m_type_len := m_type_len m + n, m_nr_types := m_nr_types m + 1\<rparr>" "r = Inr (m_start_id m + m_nr_types m)"
    using c Some by (auto simp: btf_commit_type_def Let_def m1)
  show ?thesis
    using wf room f(1,2) new by (auto simp: m' m1 mod_wf_def mod_layer_def)
qed

text \<open>The offset 0 is the empty string.\<close>

lemma empty_name:
  assumes "obj_ok obj"
  shows "str_is (layers obj) 0 []"
proof -
  obtain m base where mb: "obj = m # base" using assms by (cases obj) (auto simp: obj_ok_def)
  have first: "str_is (l # base) 0 []" if "btf_start_str_off l = 0" "btf_strs l \<noteq> []" "hd (btf_strs l) = 0" for l base
    using that by (cases "btf_strs l") (auto simp: str_is_def terminated_def cstr_at_def)
  show ?thesis
  proof (cases base)
    case Nil
    with assms first [of "mod_layer m" "[]"] show ?thesis by (auto simp: obj_ok_def mb layer_ok_def)
  next
    case (Cons b rest)
    then have b: "base = [b]" "btf_start_str_off (mod_layer b) = 0" "btf_strs (mod_layer b) \<noteq> []" "hd (btf_strs (mod_layer b)) = 0"
      "btf_start_str_off (mod_layer m) = length (btf_strs (mod_layer b))"
      using assms by (auto simp: obj_ok_def mb layer_ok_def)
    with first [of "mod_layer b" "[]"] show ?thesis by (simp add: mb str_is_def)
  qed
qed

definition name_str :: "u8 list option \<Rightarrow> u8 list" where
  "name_str name = (case name of None \<Rightarrow> [] | Some s \<Rightarrow> s)"

definition name_ok :: "u8 list option \<Rightarrow> bool" where
  "name_ok name \<longleftrightarrow> 0 \<notin> set (name_str name)"

lemma add_name_ok:
  assumes "obj_ok obj" "m_set (hd obj) \<noteq> None" "name_ok name" "add_name mems obj name = Inr (obj', r)"
  shows "strs_only obj obj' \<and> (\<forall>off. r = Inr off \<longrightarrow> str_is (layers obj') off (name_str name))"
proof (cases "no_name name")
  case True
  then have "obj' = obj" "r = Inr 0" "name_str name = []"
    using assms(4) by (auto simp: add_name_def no_name_def name_str_def)
  moreover have "strs_only obj obj"
    using assms(1,2) str_grown_refl [of "layers obj"] by (simp add: strs_only_def same_types_def obj_ok_def)
  ultimately show ?thesis using empty_name [OF assms(1)] by simp
next
  case False
  then obtain s where s: "name = Some s" "s \<noteq> []" by (auto simp: no_name_def)
  with assms(3,4) show ?thesis
    using add_str_ok [OF assms(1,2), of s mems obj' r] by (simp add: add_name_def name_ok_def name_str_def)
qed

section \<open>Room and name\<close>

lemma bindb_eq_Inr:
  "bindb m f = Inr (obj', r) \<longleftrightarrow> (\<exists>obj q. m = Inr (obj, q) \<and>
     (case q of Inl e \<Rightarrow> obj' = obj \<and> r = Inl e | Inr x \<Rightarrow> f obj x = Inr (obj', r)))"
  by (auto simp: bindb_def bindr_eq_Inr split: sum.splits)

text \<open>There is room for \<open>n\<close> bytes behind the types.\<close>

definition reserved :: "btf_obj \<Rightarrow> nat \<Rightarrow> bool" where
  "reserved obj n \<longleftrightarrow> m_set (hd obj) \<noteq> None \<and> m_type_len (hd obj) + n \<le> length (m_types (hd obj)) \<and>
     m_type_len (hd obj) + n < 2 ^ 32"

lemma reserve_ok:
  assumes obj: "obj_ok obj" and r: "reserve mems obj n = Inr (obj', r)"
  shows "obj_ok obj' \<and> layers obj' = layers obj \<and> (r = Inr () \<longrightarrow> reserved obj' n)"
proof -
  obtain m base where mb: "obj = m # base" using obj by (cases obj) (auto simp: obj_ok_def)
  let ?mem = "mems (length base)"
  have ok: "mod_wf m" "layer_ok (layers base) (mod_layer m)" using obj by (auto simp: obj_ok_def mb)
  have keep: "obj_ok (x # base)" if "mod_wf x" "mod_layer x = mod_layer m" for x
    by (rule obj_okI [OF _ _ obj]) (use that obj in \<open>auto simp: mb obj_ok_def\<close>)
  from ensure_modifiable_ok [OF ok(1) last_strs [OF ok(2)], of ?mem "base \<noteq> []"] obtain m1 e where
    e: "btf_ensure_modifiable ?mem (base \<noteq> []) m = Inr (m1, e)" "mod_wf m1" "mod_layer m1 = mod_layer m"
      "e = None \<longrightarrow> m_set m1 \<noteq> None" by blast
  show ?thesis
  proof (cases "e \<noteq> None \<or> btf_add_type_mem (bm_type_mem ?mem) m1 n = None")
    case True
    with r e have "obj' = m1 # base" "r = Inl ENOMEM" by (auto simp: reserve_def mb Let_def split: if_splits)
    with keep [OF e(2,3)] e(3) show ?thesis by (simp add: mb)
  next
    case False
    then obtain m2 where m2: "btf_add_type_mem (bm_type_mem ?mem) m1 n = Some m2" "e = None" by auto
    with e have "m_set m1 \<noteq> None" by simp
    note t = type_mem_ok [OF e(2) this m2(1)]
    have "obj' = m2 # base" "r = Inr ()" using r e(1) m2 by (auto simp: reserve_def mb Let_def)
    with keep [of m2] t e \<open>m_set m1 \<noteq> None\<close> show ?thesis by (simp add: mb reserved_def)
  qed
qed

lemma reserved_same: "strs_only obj obj' \<Longrightarrow> reserved obj n \<Longrightarrow> reserved obj' n"
  by (simp add: strs_only_def same_types_def reserved_def)

lemma prepare_ok:
  assumes obj: "obj_ok obj" and name: "name_ok name" and p: "prepare mems obj has_name name n = Inr (obj', r)"
  shows "obj_ok obj' \<and> str_grown (layers obj) (layers obj') \<and>
    (\<forall>off. r = Inr off \<longrightarrow> reserved obj' n \<and> (has_name \<longrightarrow> str_is (layers obj') off (name_str name)))"
proof -
  from p obtain obj1 q where q: "reserve mems obj n = Inr (obj1, q)"
    "case q of Inl e \<Rightarrow> obj' = obj1 \<and> r = Inl e | Inr x \<Rightarrow> (if has_name then add_name mems obj1 name else Inr (obj1, Inr 0)) = Inr (obj', r)"
    by (auto simp: prepare_def bindb_eq_Inr)
  note o1 = reserve_ok [OF obj q(1)]
  have refl: "str_grown (layers obj) (layers obj)" using obj by (intro str_grown_refl) (simp add: obj_ok_def)
  show ?thesis
  proof (cases "q = Inr () \<and> has_name")
    case True
    with q(2) have n: "add_name mems obj1 name = Inr (obj', r)" by simp
    from True o1 have o: "obj_ok obj1" "m_set (hd obj1) \<noteq> None" "reserved obj1 n" by (simp_all add: reserved_def)
    from add_name_ok [OF o(1,2) name n] reserved_same [OF _ o(3)] o1 show ?thesis by (auto simp: strs_only_def)
  next
    case False
    with q(2) o1 refl show ?thesis by (auto split: sum.splits)
  qed
qed

section \<open>Bytes behind the types\<close>

lemma put_at_end: "k + length xs \<le> length bs \<Longrightarrow> take (k + length xs) (put_bytes k xs bs) = take k bs @ xs"
  by (cases "length bs \<le> k"; cases xs) (simp_all add: put_bytes_def min_def)

lemma layer_types_length: "mod_wf m \<Longrightarrow> length (btf_types (mod_layer m)) = m_type_len m"
  by (auto simp: mod_wf_def mod_layer_def)

lemma write_words_ok:
  assumes "obj_ok (m # base)" "reserved (m # base) (4 * length ws)"
  shows "mod_wf (write_words m ws)" "mod_layer (write_words m ws) = mod_layer m" "m_set (write_words m ws) = m_set m"
    "m_type_len (write_words m ws) = m_type_len m" "length (m_types (write_words m ws)) = length (m_types m)"
    "take (m_type_len m + 4 * length ws) (m_types (write_words m ws)) = btf_types (mod_layer m) @ type_words ws"
proof -
  have wf: "mod_wf m" and room: "m_type_len m + length (type_words ws) \<le> length (m_types m)"
    using assms by (simp_all add: obj_ok_def reserved_def)
  show "mod_wf (write_words m ws)" using wf room by (cases "m_set m") (auto simp: mod_wf_def write_words_def)
  show "mod_layer (write_words m ws) = mod_layer m"
    using room by (cases "m_set m") (simp_all add: mod_layer_def write_words_def put_bytes_before)
  show "m_set (write_words m ws) = m_set m" "m_type_len (write_words m ws) = m_type_len m"
    "length (m_types (write_words m ws)) = length (m_types m)" using room by (simp_all add: write_words_def)
  show "take (m_type_len m + 4 * length ws) (m_types (write_words m ws)) = btf_types (mod_layer m) @ type_words ws"
    using put_at_end [OF room] by (simp add: write_words_def mod_layer_def)
qed

section \<open>Appending a type\<close>

lemma str_is_cong:
  "btf_start_str_off l' = btf_start_str_off l \<Longrightarrow> btf_strs l' = btf_strs l \<Longrightarrow> str_is (l' # base) off s = str_is (l # base) off s"
  by (simp add: str_is_def)

lemma append_type_ok:
  assumes obj: "obj_ok obj" and name: "name_ok name" and a: "append_type mems obj name ws = Inr (obj', r)"
  shows "\<exists>btf1. str_grown (layers obj) btf1 \<and> btf_ok btf1 \<and> length obj' = length obj \<and> (\<forall>m \<in> set obj'. mod_wf m) \<and> (case r of
      Inl e \<Rightarrow> layers obj' = btf1
    | Inr i \<Rightarrow> \<exists>off. type_appended btf1 (type_words (off # ws)) (layers obj') \<and>
        i = btf__type_cnt (layers obj) \<and> str_is (layers obj') off (name_str name))"
proof -
  let ?n = "4 * (1 + length ws)"
  from a obtain obj1 q where q: "prepare mems obj True name ?n = Inr (obj1, q)"
    "case q of Inl e \<Rightarrow> obj' = obj1 \<and> r = Inl e | Inr off \<Rightarrow>
       (case obj1 of [] \<Rightarrow> Inl UB | m # base \<Rightarrow>
         (case btf_commit_type (bm_offs_mem (mems (length base))) (write_words m (off # ws)) ?n of
            (m, r) \<Rightarrow> Inr (m # base, r))) = Inr (obj', r)"
    unfolding append_type_def Let_def bindb_eq_Inr by (elim exE conjE)
  note p = prepare_ok [OF obj name q(1)]
  obtain m base where mb: "obj1 = m # base" using p by (cases obj1) (auto simp: obj_ok_def)
  have len: "length obj1 = length obj" using str_grown_length [of "layers obj" "layers obj1"] p obj by (simp add: layers_def obj_ok_def)
  show ?thesis
  proof (cases q)
    case (Inl x)
    then show ?thesis using p q(2) len by (intro exI [of _ "layers obj1"]) (auto simp: obj_ok_def)
  next
    case (Inr off)
    have o1: "obj_ok (m # base)" "reserved (m # base) (4 * length (off # ws))" using p Inr mb by simp_all
    note w = write_words_ok [OF o1]
    obtain m' k where c: "btf_commit_type (bm_offs_mem (mems (length base))) (write_words m (off # ws)) ?n = (m', k)" by fastforce
    have res: "obj' = m' # base" "r = k" using q(2) Inr mb c by simp_all
    let ?m = "write_words m (off # ws)" and ?l = "mod_layer m"
    have "case k of
        Inl e \<Rightarrow> m' = ?m
      | Inr i \<Rightarrow> i = m_start_id ?m + m_nr_types ?m \<and> mod_wf m' \<and> m_set m' = m_set ?m \<and>
          mod_layer m' = (mod_layer ?m)\<lparr>btf_types := take (m_type_len ?m + ?n) (m_types ?m),
            btf_type_offs := btf_type_offs (mod_layer ?m) @ [m_type_len ?m]\<rparr>"
      by (rule commit_ok [OF w(1) _ _ _ c]) (use o1(2) w in \<open>auto simp: reserved_def\<close>)
    note cm = this
    have cnt: "m_start_id ?m + m_nr_types ?m = btf__type_cnt (?l # layers base)"
    proof -
      have "m_nr_types ?m = length (btf_type_offs (mod_layer ?m))" using w(1) by (simp add: mod_wf_def mod_layer_def)
      moreover have "m_start_id ?m = btf_start_id (mod_layer ?m)" by (simp add: mod_layer_def)
      ultimately show ?thesis using w(2) by (simp add: btf__type_cnt_def)
    qed
    have g: "str_grown (layers obj) (?l # layers base)" "btf_ok (?l # layers base)" "\<forall>x \<in> set base. mod_wf x"
      using p mb by (auto simp: obj_ok_def)
    show ?thesis
    proof (cases k)
      case k: (Inl e)
      then show ?thesis using cm g res w(1,2) len mb by (intro exI [of _ "?l # layers base"]) auto
    next
      case k: (Inr i)
      have l': "mod_layer m' = ?l\<lparr>btf_types := btf_types ?l @ type_words (off # ws),
          btf_type_offs := btf_type_offs ?l @ [length (btf_types ?l)]\<rparr>"
        using cm k w o1(1) by (simp add: layer_types_length obj_ok_def)
      then have "type_appended (?l # layers base) (type_words (off # ws)) (layers obj')"
        by (simp add: type_appended_def with_types_def res)
      moreover have "str_is (layers obj') off (name_str name)"
        using p Inr mb str_is_cong [of "mod_layer m'" ?l] l' by (simp add: res)
      moreover have "i = btf__type_cnt (layers obj)"
        using cm k cnt str_grown_cnt [OF g(1)] obj by (simp add: obj_ok_def)
      ultimately show ?thesis using cm k g res len mb by (intro exI [of _ "?l # layers base"]) auto
    qed
  qed
qed

section \<open>Appending an element\<close>

lemma take_put: "p + length x \<le> k \<Longrightarrow> k \<le> length bs \<Longrightarrow> take k (put_bytes p x bs) = put_bytes p x (take k bs)"
  by (rule nth_equalityI) (auto simp: nth_put_bytes)

lemma last_take: "0 < n \<Longrightarrow> n \<le> length xs \<Longrightarrow> last (take n xs) = xs ! (n - 1)"
  by (subst last_conv_nth) (auto simp: min_def)

lemma mod_types_only:
  "mod_layer (m\<lparr>m_types := ts, m_type_len := k\<rparr>) = (mod_layer m)\<lparr>btf_types := take k ts\<rparr>"
  "mod_wf m \<Longrightarrow> length ts = length (m_types m) \<Longrightarrow> k \<le> length ts \<Longrightarrow> k < 2 ^ 32 \<Longrightarrow> mod_wf (m\<lparr>m_types := ts, m_type_len := k\<rparr>)"
  by (cases "m_set m"; auto simp: mod_layer_def mod_wf_def)+

lemma put_append: "p + length x \<le> length bs \<Longrightarrow> put_bytes p x (bs @ y) = put_bytes p x bs @ y"
  by (simp add: put_bytes_def)

lemma str_is_types: "str_is (l\<lparr>btf_types := x\<rparr> # base) off s = str_is (l # base) off s"
  by (rule str_is_cong) simp_all

text \<open>\<open>info\<close> of the last type of the own part.\<close>

definition last_info :: "btf \<Rightarrow> nat res" where
  "last_info btf = rd32 (btf_types (hd btf)) (last (btf_type_offs (hd btf)) + 4)"

lemma last_type_ok:
  assumes obj: "obj_ok (m # base)" and nr: "m_nr_types m > 0" and m': "mod_wf m'" "mod_layer m' = mod_layer m"
  shows "\<exists>p info. btf_last_type m' = Inr p \<and> p = last (btf_type_offs (mod_layer m)) \<and> p + 8 \<le> m_type_len m \<and>
    last_info (layers (m # base)) = Inr info \<and>
    type_head m' p = Inr (btf_kind_of (info div 2 ^ 24 mod 32), info mod 2 ^ 16, info div 2 ^ 31 \<noteq> 0)"
proof -
  have cnt: "length (btf_type_offs (mod_layer x)) = m_nr_types x" if "mod_wf x" for x
    using that by (simp add: mod_wf_def mod_layer_def)
  have wf: "mod_wf m" and lok: "layer_ok (layers base) (mod_layer m)" using obj by (auto simp: obj_ok_def)
  have same: "m_nr_types m' = m_nr_types m" "m_type_len m' = m_type_len m"
    using m' cnt [OF wf] cnt [OF m'(1)] layer_types_length [OF wf] layer_types_length [OF m'(1)] by simp_all
  let ?p = "last (btf_type_offs (mod_layer m))"
  have "btf_last_type m' = Inr ?p"
  proof -
    have "m_nr_types m' - 1 < length (m_offs m')" "m_offs m' ! (m_nr_types m' - 1) = last (take (m_nr_types m') (m_offs m'))"
      using m'(1) nr same by (auto simp: mod_wf_def last_take)
    moreover have "take (m_nr_types m') (m_offs m') = btf_type_offs (mod_layer m')" by (simp add: mod_layer_def)
    ultimately show ?thesis using nr same m'(2) by (simp add: btf_last_type_def type_off_def arr_def)
  qed
  moreover obtain n where n: "btf_type_size (Type_At (btf_types (mod_layer m)) ?p) = Inr n"
      "?p + n \<le> length (btf_types (mod_layer m))"
  proof -
    have "btf_type_offs (mod_layer m) \<noteq> []" using cnt [OF wf] nr by auto
    then have "?p \<in> set (btf_type_offs (mod_layer m))" by simp
    from tiles_before [OF _ this] lok that show thesis by (auto simp: layer_ok_def)
  qed
  moreover have p: "?p + 8 \<le> m_type_len m"
    using type_size_inside [OF n(1)] n(2) layer_types_length [OF wf] by simp
  moreover have ag: "agree (m_type_len m) (btf_types (mod_layer m)) (m_types m')"
    using m' same layer_types_length [OF wf] by (auto simp: agree_def mod_layer_def mod_wf_def)
  moreover obtain info where i: "rd32 (btf_types (mod_layer m)) (?p + 4) = Inr info"
    using p layer_types_length [OF wf] by (simp add: rd_def)
  moreover have "rd32 (m_types m') (?p + 4) = Inr info" using rd32_agree [OF ag] p i by simp
  ultimately show ?thesis
    by (intro exI [of _ ?p] exI [of _ info])
       (simp add: last_info_def type_head_def Let_def btf_kind_def btf_vlen_def btf_kflag_def tword_def)
qed

lemma append_elem_ok:
  assumes obj: "obj_ok obj" and nr: "m_nr_types (hd obj) > 0" and name: "name_ok name"
    and a: "append_elem mems obj has_name name ws upd = Inr (obj', r)"
  shows "\<exists>btf1. str_grown (layers obj) btf1 \<and> btf_ok btf1 \<and> length obj' = length obj \<and> (\<forall>m \<in> set obj'. mod_wf m) \<and> (case r of
      Inl e \<Rightarrow> layers obj' = btf1
    | Inr _ \<Rightarrow> \<exists>off info. last_info (layers obj) = Inr info \<and> (has_name \<longrightarrow> str_is (layers obj') off (name_str name)) \<and>
        elem_appended btf1 (upd (btf_kind_of (info div 2 ^ 24 mod 32)) (info mod 2 ^ 16) (info div 2 ^ 31 \<noteq> 0))
          (type_words (if has_name then off # ws else ws)) (layers obj'))"
proof -
  let ?n = "4 * (length ws + (if has_name then 1 else 0))"
  from a obtain obj1 q where q: "prepare mems obj has_name name ?n = Inr (obj1, q)"
    "case q of Inl e \<Rightarrow> obj' = obj1 \<and> r = Inl e | Inr off \<Rightarrow>
       (case obj1 of [] \<Rightarrow> Inl UB | m # base \<Rightarrow>
         bindr (btf_last_type (write_words m (if has_name then off # ws else ws))) (\<lambda>p.
         bindr (type_head (write_words m (if has_name then off # ws else ws)) p) (\<lambda>(kind, vlen, kflag).
         bindr (set_info (write_words m (if has_name then off # ws else ws)) p (upd kind vlen kflag)) (\<lambda>m.
           Inr (m\<lparr>m_type_len := m_type_len m + ?n\<rparr> # base, Inr ()))))) = Inr (obj', r)"
    unfolding append_elem_def Let_def bindb_eq_Inr by (elim exE conjE)
  note p = prepare_ok [OF obj name q(1)]
  obtain m base where mb: "obj1 = m # base" using p by (cases obj1) (auto simp: obj_ok_def)
  have len: "length obj1 = length obj" using str_grown_length [of "layers obj" "layers obj1"] p obj by (simp add: layers_def obj_ok_def)
  show ?thesis
  proof (cases q)
    case (Inl x)
    then show ?thesis using p q(2) len by (intro exI [of _ "layers obj1"]) (auto simp: obj_ok_def)
  next
    case (Inr off)
    let ?ws = "if has_name then off # ws else ws"
    have o1: "obj_ok (m # base)" "reserved (m # base) (4 * length ?ws)" using p Inr mb by (auto simp: add.commute)
    note w = write_words_ok [OF o1]
    obtain m0 base0 where mb0: "obj = m0 # base0" using obj by (cases obj) (auto simp: obj_ok_def)
    have lay: "btf_types (mod_layer m) = btf_types (mod_layer m0)" "btf_type_offs (mod_layer m) = btf_type_offs (mod_layer m0)"
      using p by (auto simp: mb mb0 str_grown_def)
    have nr1: "m_nr_types m > 0"
      using lay(2) nr o1(1) obj by (auto simp: mod_layer_def mb0 obj_ok_def mod_wf_def dest: arg_cong [of _ _ length])
    from last_type_ok [OF o1(1) nr1 w(1,2)] obtain pos info where
      last: "btf_last_type (write_words m ?ws) = Inr pos" "pos = last (btf_type_offs (mod_layer m))" "pos + 8 \<le> m_type_len m"
        "last_info (layers (m # base)) = Inr info"
        "type_head (write_words m ?ws) pos = Inr (btf_kind_of (info div 2 ^ 24 mod 32), info mod 2 ^ 16, info div 2 ^ 31 \<noteq> 0)"
      by (elim exE conjE)
    let ?info = "upd (btf_kind_of (info div 2 ^ 24 mod 32)) (info mod 2 ^ 16) (info div 2 ^ 31 \<noteq> 0)"
    let ?m = "(write_words m ?ws)\<lparr>m_types := put_bytes (pos + 4) (le_bytes 4 ?info) (m_types (write_words m ?ws)),
      m_type_len := m_type_len m + ?n\<rparr>"
    have n: "4 * length ?ws = ?n" by simp
    have room: "m_type_len m + ?n \<le> length (m_types m)" "m_type_len m + ?n < 2 ^ 32" using o1(2) n by (simp_all only: reserved_def list.sel)
    have res: "obj' = ?m # base" "r = Inr ()"
      using q(2) Inr mb last w(4,5) room by (simp_all add: set_info_def)
    have len_m: "length (btf_types (mod_layer m)) = m_type_len m" using layer_types_length o1(1) by (simp add: obj_ok_def)
    have pre: "pos + 4 + length (le_bytes 4 ?info) \<le> m_type_len m" using last(3) by simp
    have "take (m_type_len m + ?n) (put_bytes (pos + 4) (le_bytes 4 ?info) (m_types (write_words m ?ws))) =
        put_bytes (pos + 4) (le_bytes 4 ?info) (btf_types (mod_layer m) @ type_words ?ws)"
      using take_put [of "pos + 4" "le_bytes 4 ?info" "m_type_len m + ?n" "m_types (write_words m ?ws)"] pre room w(6) [unfolded n]
      by (simp only: w(5))
    then have lay': "mod_layer ?m = (mod_layer m)\<lparr>btf_types := put_bytes (pos + 4) (le_bytes 4 ?info) (btf_types (mod_layer m)) @ type_words ?ws\<rparr>"
      unfolding mod_types_only w(2) using put_append [of "pos + 4" "le_bytes 4 ?info" "btf_types (mod_layer m)" "type_words ?ws"] pre len_m by simp
    have wf': "mod_wf ?m" by (rule mod_types_only(2) [OF w(1)]) (use w(5) room pre in simp_all)
    have "elem_appended (layers obj1) ?info (type_words ?ws) (layers obj')"
      unfolding elem_appended_def with_types_def mb res(1) layers_simps lay' list.sel last(2) [symmetric]
      by (cases "mod_layer m") simp
    moreover have "last_info (layers obj) = Inr info" using last(4) lay by (simp add: last_info_def mb0)
    moreover have "has_name \<longrightarrow> str_is (layers obj') off (name_str name)"
      unfolding res(1) layers_simps lay' using p Inr mb str_is_types by simp
    ultimately have "\<exists>off info. last_info (layers obj) = Inr info \<and> (has_name \<longrightarrow> str_is (layers obj') off (name_str name)) \<and>
        elem_appended (layers obj1) (upd (btf_kind_of (info div 2 ^ 24 mod 32)) (info mod 2 ^ 16) (info div 2 ^ 31 \<noteq> 0))
          (type_words (if has_name then off # ws else ws)) (layers obj')" by blast
    moreover have "length obj' = length obj" "\<forall>x \<in> set obj'. mod_wf x"
      using res(1) wf' len p by (simp_all add: mb obj_ok_def)
    ultimately show ?thesis using p unfolding res(2) sum.case by (intro exI [of _ "layers obj1"]) (simp add: obj_ok_def)
  qed
qed

end
