(* ===== verification/Btf_Api.thy ===== *)
theory Btf_Api imports Btf_Built begin

text \<open>
  The routines that build type information, seen by a caller: a call leaves a well-formed object behind
  in which every type and string stays what it was, and what the call added is read back by the queries.
\<close>

section \<open>Outcomes\<close>

definition strs_kept :: "btf \<Rightarrow> btf \<Rightarrow> bool" where
  "strs_kept btf btf' \<longleftrightarrow> (\<forall>off s. str_is btf off s \<longrightarrow> str_is btf' off s)"

text \<open>The types below \<open>n\<close> are what they were.\<close>

definition types_kept :: "nat \<Rightarrow> btf \<Rightarrow> btf \<Rightarrow> bool" where
  "types_kept n btf btf' \<longleftrightarrow> (\<forall>i < n. bytes_of btf' i = bytes_of btf i)"

definition type_added :: "btf \<Rightarrow> btf \<Rightarrow> u8 list \<Rightarrow> nat list \<Rightarrow> nat \<Rightarrow> bool" where
  "type_added btf btf' name ws i \<longleftrightarrow>
     i = btf__type_cnt btf \<and> btf__type_cnt btf' = i + 1 \<and> types_kept i btf btf' \<and>
     (\<exists>off < 2 ^ 32. bytes_of btf' i = Inr (type_words (off # ws)) \<and> str_is btf' off name)"

definition elem_added :: "btf \<Rightarrow> btf \<Rightarrow> bool \<Rightarrow> u8 list \<Rightarrow> nat list \<Rightarrow> nat \<Rightarrow> nat \<Rightarrow> bool" where
  "elem_added btf btf' has_name name ws info info' \<longleftrightarrow>
     (let i = btf__type_cnt btf - 1 in
      btf__type_cnt btf' = btf__type_cnt btf \<and> types_kept i btf btf' \<and>
      (\<exists>off < 2 ^ 32. \<exists>old. bytes_of btf i = Inr old \<and> rd32 old 4 = Inr info \<and>
         bytes_of btf' i = Inr (put_bytes 4 (le_bytes 4 info') old @ type_words (if has_name then off # ws else ws)) \<and>
         (has_name \<longrightarrow> str_is btf' off name)))"

lemma str_grown_kept:
  assumes "btf_ok btf" "btf \<noteq> []" "str_grown btf btf'"
  shows "strs_kept btf btf'" "btf__type_cnt btf' = btf__type_cnt btf" "types_kept n btf btf'"
proof -
  obtain l base where l: "btf = l # base" using assms(2) by (cases btf) auto
  from assms(3) obtain x where "btf' = l\<lparr>btf_strs := btf_strs l @ x\<rparr> # base" by (auto simp: str_grown_def l)
  then show "btf__type_cnt btf' = btf__type_cnt btf" "types_kept n btf btf'"
    by (auto simp: l types_kept_def bytes_of_def btf__type_cnt_def)
  show "strs_kept btf btf'" using str_is_grown [OF assms(3)] by (simp add: strs_kept_def)
qed

lemma with_types_strs: "str_is (with_types btf ts offs) off s \<longleftrightarrow> str_is ((hd btf) # tl btf) off s"
  by (simp add: with_types_def str_is_def)

lemma strs_kept_with_types: "btf \<noteq> [] \<Longrightarrow> strs_kept btf (with_types btf ts offs)"
  by (simp add: strs_kept_def with_types_strs)

lemma strs_kept_trans: "strs_kept a b \<Longrightarrow> strs_kept b c \<Longrightarrow> strs_kept a c"
  by (simp add: strs_kept_def)

lemma types_kept_trans: "types_kept n a b \<Longrightarrow> types_kept n b c \<Longrightarrow> types_kept n a c"
  by (simp add: types_kept_def)

lemma last_strs_kept:
  assumes "obj_ok obj" "str_grown (layers obj) btf1" "layers obj' = btf1 \<or> layers obj' = with_types btf1 ts offs"
  shows "hd (btf_strs (last (layers obj'))) = 0"
proof -
  obtain m base where mb: "obj = m # base" using assms(1) by (cases obj) (auto simp: obj_ok_def)
  from assms(2) obtain x where x: "btf1 = (mod_layer m)\<lparr>btf_strs := btf_strs (mod_layer m) @ x\<rparr> # layers base"
    by (auto simp: str_grown_def mb)
  have "base = [] \<longrightarrow> btf_strs (mod_layer m) \<noteq> []" using assms(1) by (auto simp: obj_ok_def mb layer_ok_def)
  then show ?thesis using assms(1,3) x by (auto simp: obj_ok_def mb with_types_def hd_append)
qed

text \<open>An offset of a string fits into its field.\<close>

lemma str_off_small:
  assumes obj: "obj_ok obj" and s: "str_is (layers obj) off s"
  shows "off < 2 ^ 32"
proof -
  obtain m base where mb: "obj = m # base" using obj by (cases obj) (auto simp: obj_ok_def)
  have len: "length (btf_strs (mod_layer x)) \<le> BTF_MAX_STR_OFFSET" if "x \<in> set obj" for x
    using obj that layer_strs_length [of x] by (auto simp: obj_ok_def mod_wf_def)
  have start: "btf_start_str_off (mod_layer m) \<le> BTF_MAX_STR_OFFSET"
  proof (cases base)
    case (Cons b rest)
    then show ?thesis using obj len [of b] by (auto simp: obj_ok_def mb layer_ok_def)
  qed (use obj in \<open>auto simp: obj_ok_def mb layer_ok_def\<close>)
  show ?thesis
  proof (cases "off < btf_start_str_off (mod_layer m)")
    case False
    with s have "off - btf_start_str_off (mod_layer m) < length (btf_strs (mod_layer m))"
      by (auto simp: str_is_def mb split: if_splits)
    then show ?thesis using start len [of m] by (simp add: mb BTF_MAX_STR_OFFSET_def)
  qed (use start in \<open>simp add: BTF_MAX_STR_OFFSET_def\<close>)
qed

section \<open>Appending\<close>

lemma type_size_words:
  "ws \<noteq> [] \<Longrightarrow> hd ws < 2 ^ 32 \<Longrightarrow> info_size (hd ws) = Inr (4 + 4 * length ws) \<Longrightarrow>
    btf_type_size (Type_At (type_words (off # ws)) 0) = Inr (length (type_words (off # ws)))"
  using rd32_type_words [of 1 "off # ws" "[]"] by (simp add: type_size_info hd_conv_nth)

lemma append_type_added:
  assumes obj: "obj_ok obj" and name: "name_ok name" and a: "append_type mems obj name ws = Inr (obj', r)"
    and ws: "ws \<noteq> []" "hd ws < 2 ^ 32" "info_size (hd ws) = Inr (4 + 4 * length ws)"
  shows "obj_ok obj' \<and> strs_kept (layers obj) (layers obj') \<and> (case r of
      Inl e \<Rightarrow> btf__type_cnt (layers obj') = btf__type_cnt (layers obj) \<and> types_kept (btf__type_cnt (layers obj)) (layers obj) (layers obj')
    | Inr i \<Rightarrow> type_added (layers obj) (layers obj') (name_str name) ws i)"
proof -
  from append_type_ok [OF obj name a] obtain btf1 where b: "str_grown (layers obj) btf1" "btf_ok btf1"
    "length obj' = length obj" "\<forall>m \<in> set obj'. mod_wf m" and c: "case r of Inl e \<Rightarrow> layers obj' = btf1
      | Inr i \<Rightarrow> \<exists>off. type_appended btf1 (type_words (off # ws)) (layers obj') \<and>
          i = btf__type_cnt (layers obj) \<and> str_is (layers obj') off (name_str name)" by blast
  have o: "btf_ok (layers obj)" "layers obj \<noteq> []" "length obj \<le> 2" "obj \<noteq> []" using obj by (auto simp: obj_ok_def)
  note g = str_grown_kept [OF o(1,2) b(1)]
  have ne: "btf1 \<noteq> []" using b(1) by (auto simp: str_grown_def)
  show ?thesis
  proof (cases r)
    case (Inl e)
    with c b o last_strs_kept [OF obj b(1), of obj'] have "obj_ok obj'" by (auto simp: obj_ok_def)
    with c Inl g show ?thesis by simp
  next
    case (Inr i)
    with c obtain off where off: "type_appended btf1 (type_words (off # ws)) (layers obj')"
      "i = btf__type_cnt (layers obj)" "str_is (layers obj') off (name_str name)" by auto
    note k = appended_ok [OF b(2) ne off(1) type_size_words [OF ws]]
    have w: "\<exists>ts offs. layers obj' = with_types btf1 ts offs" using off(1) by (auto simp: type_appended_def)
    have ok': "obj_ok obj'" using b(3,4) o k(1) w last_strs_kept [OF obj b(1)] by (auto simp: obj_ok_def)
    have "strs_kept (layers obj) (layers obj')" using w g(1) strs_kept_with_types [OF ne] strs_kept_trans by metis
    moreover have "types_kept i (layers obj) (layers obj')"
      using k(3) g(2,3) off(2) types_kept_trans [of i "layers obj" btf1] by (simp add: types_kept_def)
    ultimately show ?thesis using ok' k(2,4) g(2) off str_off_small [OF ok' off(3)] Inr
      by (auto simp: type_added_def intro!: exI [of _ off])
  qed
qed

lemma last_type_bytes:
  assumes ok: "btf_ok btf" "btf \<noteq> []" and own: "btf_type_offs (hd btf) \<noteq> []"
  shows "\<exists>old info. bytes_of btf (btf__type_cnt btf - 1) = Inr old \<and> rd32 old 4 = Inr info \<and> last_info btf = Inr info \<and>
    info_size info = Inr (length old)"
proof -
  obtain l base where l: "btf = l # base" using ok(2) by (cases btf) auto
  from own obtain ps p where ps: "btf_type_offs l = ps @ [p]" by (cases "btf_type_offs l" rule: rev_cases) (auto simp: l)
  have n: "btf_type_size (Type_At (btf_types l) p) = Inr (length (btf_types l) - p)" "p \<le> length (btf_types l)"
    using ok(1) by (simp_all add: l layer_ok_def ps tiles_snoc_iff)
  have b: "bytes_of btf (btf__type_cnt btf - 1) = Inr (drop p (btf_types l))"
    using n ok(1) by (simp add: l bytes_of_Cons ps btf__type_cnt_def nth_append type_bytes_def)
  from n(1) obtain info where i: "rd32 (btf_types l) (p + 4) = Inr info" "info_size info = Inr (length (btf_types l) - p)"
    by (auto simp: type_size_info bindr_eq_Inr)
  then have "rd32 (drop p (btf_types l)) 4 = Inr info" by (auto simp: rd_def add.commute split: if_splits)
  with b i show ?thesis by (simp add: last_info_def l ps)
qed

lemma append_elem_added:
  assumes obj: "obj_ok obj" and nr: "m_nr_types (hd obj) > 0" and name: "name_ok name"
    and a: "append_elem mems obj has_name name ws upd = Inr (obj', r)"
    and upd: "\<And>info n. last_info (layers obj) = Inr info \<Longrightarrow> info_size info = Inr n \<Longrightarrow>
      info_size (upd (btf_kind_of (info div 2 ^ 24 mod 32)) (info mod 2 ^ 16) (info div 2 ^ 31 \<noteq> 0)) =
        Inr (n + 4 * (length ws + (if has_name then 1 else 0))) \<and>
      upd (btf_kind_of (info div 2 ^ 24 mod 32)) (info mod 2 ^ 16) (info div 2 ^ 31 \<noteq> 0) < 2 ^ 32"
  shows "obj_ok obj' \<and> strs_kept (layers obj) (layers obj') \<and> (case r of
      Inl e \<Rightarrow> btf__type_cnt (layers obj') = btf__type_cnt (layers obj) \<and> types_kept (btf__type_cnt (layers obj)) (layers obj) (layers obj')
    | Inr _ \<Rightarrow> \<exists>info. last_info (layers obj) = Inr info \<and> elem_added (layers obj) (layers obj') has_name (name_str name) ws info
        (upd (btf_kind_of (info div 2 ^ 24 mod 32)) (info mod 2 ^ 16) (info div 2 ^ 31 \<noteq> 0)))"
proof -
  let ?upd = "\<lambda>info. upd (btf_kind_of (info div 2 ^ 24 mod 32)) (info mod 2 ^ 16) (info div 2 ^ 31 \<noteq> 0)"
  let ?ws = "\<lambda>off. if has_name then off # ws else ws"
  from append_elem_ok [OF obj nr name a] obtain btf1 where b: "str_grown (layers obj) btf1" "btf_ok btf1"
    "length obj' = length obj" "\<forall>m \<in> set obj'. mod_wf m" and c: "case r of Inl e \<Rightarrow> layers obj' = btf1
      | Inr _ \<Rightarrow> \<exists>off info. last_info (layers obj) = Inr info \<and> (has_name \<longrightarrow> str_is (layers obj') off (name_str name)) \<and>
          elem_appended btf1 (?upd info) (type_words (?ws off)) (layers obj')" by blast
  have o: "btf_ok (layers obj)" "layers obj \<noteq> []" "length obj \<le> 2" "obj \<noteq> []" using obj by (auto simp: obj_ok_def)
  note g = str_grown_kept [OF o(1,2) b(1)]
  have ne: "btf1 \<noteq> []" using b(1) by (auto simp: str_grown_def)
  show ?thesis
  proof (cases r)
    case (Inl e)
    with c b o last_strs_kept [OF obj b(1), of obj'] have "obj_ok obj'" by (auto simp: obj_ok_def)
    with c Inl g show ?thesis by simp
  next
    case (Inr u)
    with c obtain off info where off: "last_info (layers obj) = Inr info" "has_name \<longrightarrow> str_is (layers obj') off (name_str name)"
      "elem_appended btf1 (?upd info) (type_words (?ws off)) (layers obj')" by auto
    have own: "btf_type_offs (hd (layers obj)) \<noteq> []"
      using nr obj by (cases obj) (auto simp: obj_ok_def mod_layer_def mod_wf_def)
    from last_type_bytes [OF o(1,2) own] off(1) obtain old where
      old: "bytes_of (layers obj) (btf__type_cnt (layers obj) - 1) = Inr old" "rd32 old 4 = Inr info" "info_size info = Inr (length old)"
      by auto
    have own1: "btf_type_offs (hd btf1) \<noteq> []" using own b(1) by (auto simp: str_grown_def)
    have "btf__type_cnt (layers obj) - 1 < btf__type_cnt (layers obj)" using cnt_pos [OF o(1,2)] by simp
    then have old1: "bytes_of btf1 (btf__type_cnt btf1 - 1) = Inr old" using old(1) g(2) g(3) by (simp add: types_kept_def)
    have size: "info_size (?upd info) = Inr (length old + length (type_words (?ws off)))" "?upd info < 2 ^ 32"
      using upd [OF off(1) old(3)] by auto
    note k = elem_ok [OF b(2) ne off(3) own1 old1 size]
    have w: "\<exists>ts offs. layers obj' = with_types btf1 ts offs" using off(3) by (auto simp: elem_appended_def)
    have ok': "obj_ok obj'" using b(3,4) o k(1) w last_strs_kept [OF obj b(1)] by (auto simp: obj_ok_def)
    have kept: "strs_kept (layers obj) (layers obj')" using w g(1) strs_kept_with_types [OF ne] strs_kept_trans by metis
    have types: "types_kept (btf__type_cnt (layers obj) - 1) (layers obj) (layers obj')"
      using k(3) g(2) g(3) [of "btf__type_cnt (layers obj) - 1"] types_kept_trans by (auto simp: types_kept_def)
    have small: "\<exists>off'. off' < 2 ^ 32 \<and> (has_name \<longrightarrow> off' = off)"
      using str_off_small [OF ok'] off(2) by (cases has_name) (auto intro: exI [of _ 0])
    have "elem_added (layers obj) (layers obj') has_name (name_str name) ws info (?upd info)"
      using small k(2,4) g(2) old(1,2) off(2) types unfolding elem_added_def Let_def by (cases has_name) auto
    with ok' kept off(1) Inr show ?thesis by auto
  qed
qed

section \<open>Types whose \<open>info\<close> is written twice\<close>

lemma commit_types:
  "btf_commit_type ok (m\<lparr>m_types := ts\<rparr>) n = (case btf_commit_type ok m n of (m', r) \<Rightarrow> (m'\<lparr>m_types := ts\<rparr>, r))"
  by (cases "libbpf_add_mem ok 0 4 (m_offs m) (m_offs_cap m) (m_nr_types m) BTF_MAX_NR_TYPES 1")
     (auto simp: btf_commit_type_def btf_add_type_idx_entry_def btf_add_type_offs_mem_def Let_def)

lemma commit_type_offset:
  assumes "mod_wf m" "btf_commit_type ok m n = (m', Inr i)"
  shows "type_off (m'\<lparr>m_types := ts\<rparr>) i = Inr (m_type_len m)"
proof -
  from assms(2) obtain offs k where g: "libbpf_add_mem ok 0 4 (m_offs m) (m_offs_cap m) (m_nr_types m) BTF_MAX_NR_TYPES 1 = Some (offs, k)"
    and m': "m' = m\<lparr>m_offs := offs[m_nr_types m := m_type_len m], m_offs_cap := k, m_type_len := m_type_len m + n, m_nr_types := m_nr_types m + 1\<rparr>"
      "i = m_start_id m + m_nr_types m"
    by (auto simp: btf_commit_type_def btf_add_type_idx_entry_def btf_add_type_offs_mem_def Let_def split: option.splits)
  have "length (m_offs m) = m_offs_cap m" using assms(1) by (simp add: mod_wf_def)
  from libbpf_add_mem_grows [OF g this] show ?thesis by (simp add: m' type_off_def)
qed

lemma put_second_word:
  "k + 4 * (2 + length ws) \<le> length bs \<Longrightarrow>
    put_bytes (k + 4) (le_bytes 4 i1) (put_bytes k (type_words (off # i0 # ws)) bs) = put_bytes k (type_words (off # i1 # ws)) bs"
  by (simp add: put_bytes_def min_def)

lemma rewrite_outcome:
  assumes obj: "obj_ok obj" and name: "name_ok name" and r: "rewrite_info (append_type mems obj name (i0 # ws)) i1 = Inr (obj', r)"
  shows "(\<exists>e. r = Inl e \<and> append_type mems obj name (i0 # ws) = Inr (obj', Inl e)) \<or>
    (\<exists>i. r = Inr i \<and> append_type mems obj name (i1 # ws) = Inr (obj', Inr i))"
proof -
  let ?n = "4 * (1 + length (i0 # ws))"
  from r obtain obj2 q2 where a: "append_type mems obj name (i0 # ws) = Inr (obj2, q2)" and
    r2: "case q2 of Inl e \<Rightarrow> obj' = obj2 \<and> r = Inl e | Inr i \<Rightarrow> (case obj2 of [] \<Rightarrow> Inl UB | m # base \<Rightarrow>
      bindr (type_off m i) (\<lambda>off. bindr (set_info m off i1) (\<lambda>m. Inr (m # base, Inr i)))) = Inr (obj', r)"
    unfolding rewrite_info_def bindb_eq_Inr by (elim exE conjE)
  show ?thesis
  proof (cases q2)
    case (Inl e)
    with r2 a show ?thesis by simp
  next
    case (Inr i)
    from a obtain obj1 q where q: "prepare mems obj True name ?n = Inr (obj1, q)"
      "case q of Inl e \<Rightarrow> obj2 = obj1 \<and> q2 = Inl e | Inr off \<Rightarrow>
         (case obj1 of [] \<Rightarrow> Inl UB | m # base \<Rightarrow>
           (case btf_commit_type (bm_offs_mem (mems (length base))) (write_words m (off # i0 # ws)) ?n of
              (m, r) \<Rightarrow> Inr (m # base, r))) = Inr (obj2, q2)"
      unfolding append_type_def Let_def bindb_eq_Inr by (elim exE conjE)
    note p = prepare_ok [OF obj name q(1)]
    from q(2) Inr obtain off where off: "q = Inr off" by (cases q) auto
    obtain m base where mb: "obj1 = m # base" using p by (cases obj1) (auto simp: obj_ok_def)
    obtain m2 k where c: "btf_commit_type (bm_offs_mem (mems (length base))) m ?n = (m2, k)" by fastforce
    let ?ts = "\<lambda>i. put_bytes (m_type_len m) (type_words (off # i # ws)) (m_types m)"
    have commit: "btf_commit_type (bm_offs_mem (mems (length base))) (write_words m (off # i # ws)) ?n = (m2\<lparr>m_types := ?ts i\<rparr>, k)" for i
      by (simp only: write_words_def commit_types c prod.case)
    have res: "obj2 = m2\<lparr>m_types := ?ts i0\<rparr> # base" "k = Inr i"
      using q(2) off mb Inr commit [of i0] by simp_all
    have wf: "mod_wf m" and room: "m_type_len m + 4 * (2 + length ws) \<le> length (m_types m)"
      using p off mb by (simp_all add: obj_ok_def reserved_def)
    have "type_off (m2\<lparr>m_types := ?ts i0\<rparr>) i = Inr (m_type_len m)" using commit_type_offset [OF wf] c res(2) by blast
    moreover have "set_info (m2\<lparr>m_types := ?ts i0\<rparr>) (m_type_len m) i1 = Inr (m2\<lparr>m_types := ?ts i1\<rparr>)"
      using room put_second_word [OF room, of i1 off i0] by (simp add: set_info_def del: type_words_simps)
    ultimately have "obj' = m2\<lparr>m_types := ?ts i1\<rparr> # base" "r = Inr i"
      using r2 Inr res(1) by simp_all
    moreover have "append_type mems obj name (i1 # ws) = Inr (m2\<lparr>m_types := ?ts i1\<rparr> # base, Inr i)"
      using q(1) off mb commit [of i1] res(2) by (simp add: append_type_def Let_def bindb_def)
    ultimately show ?thesis by simp
  qed
qed

end
