(* ===== verification/Btf_Calls.thy ===== *)
theory Btf_Calls imports Btf_Api begin

text \<open>
  The calls that build type information: which arguments are accepted, and what the queries then read
  of the type or the element that was added.
\<close>

section \<open>Calls\<close>

datatype type_call =
    Add_Int "u8 list option" u64 s32 | Add_Float "u8 list option" u64 | Add_Ptr int | Add_Array int int u32
  | Add_Struct "u8 list option" u32 | Add_Union "u8 list option" u32 | Add_Enum "u8 list option" u32
  | Add_Enum64 "u8 list option" u32 bool | Add_Fwd "u8 list option" int | Add_Typedef "u8 list option" int
  | Add_Volatile int | Add_Const int | Add_Restrict int | Add_Type_Tag "u8 list option" int
  | Add_Func "u8 list option" int int | Add_Func_Proto int | Add_Var "u8 list option" int int
  | Add_Datasec "u8 list option" u32 | Add_Decl_Tag "u8 list option" int s32

datatype elem_call =
    Add_Field "u8 list option" int u32 u32 | Add_Enum_Value "u8 list option" u64
  | Add_Enum64_Value "u8 list option" u64 | Add_Func_Param "u8 list option" int
  | Add_Datasec_Var_Info int u32 u32

fun run_add :: "build_mems \<Rightarrow> btf_obj \<Rightarrow> type_call \<Rightarrow> nat build" where
  "run_add mems obj (Add_Int name byte_sz encoding) = btf__add_int mems obj name byte_sz encoding"
| "run_add mems obj (Add_Float name byte_sz) = btf__add_float mems obj name byte_sz"
| "run_add mems obj (Add_Ptr t) = btf__add_ptr mems obj t"
| "run_add mems obj (Add_Array i e n) = btf__add_array mems obj i e n"
| "run_add mems obj (Add_Struct name byte_sz) = btf__add_struct mems obj name byte_sz"
| "run_add mems obj (Add_Union name byte_sz) = btf__add_union mems obj name byte_sz"
| "run_add mems obj (Add_Enum name byte_sz) = btf__add_enum mems obj name byte_sz"
| "run_add mems obj (Add_Enum64 name byte_sz is_signed) = btf__add_enum64 mems obj name byte_sz is_signed"
| "run_add mems obj (Add_Fwd name fwd_kind) = btf__add_fwd mems obj name fwd_kind"
| "run_add mems obj (Add_Typedef name t) = btf__add_typedef mems obj name t"
| "run_add mems obj (Add_Volatile t) = btf__add_volatile mems obj t"
| "run_add mems obj (Add_Const t) = btf__add_const mems obj t"
| "run_add mems obj (Add_Restrict t) = btf__add_restrict mems obj t"
| "run_add mems obj (Add_Type_Tag val t) = btf__add_type_tag mems obj val t"
| "run_add mems obj (Add_Func name linkage t) = btf__add_func mems obj name linkage t"
| "run_add mems obj (Add_Func_Proto t) = btf__add_func_proto mems obj t"
| "run_add mems obj (Add_Var name linkage t) = btf__add_var mems obj name linkage t"
| "run_add mems obj (Add_Datasec name byte_sz) = btf__add_datasec mems obj name byte_sz"
| "run_add mems obj (Add_Decl_Tag val t idx) = btf__add_decl_tag mems obj val t idx"

fun run_elem :: "build_mems \<Rightarrow> btf_obj \<Rightarrow> elem_call \<Rightarrow> unit build" where
  "run_elem mems obj (Add_Field name t bit_offset bit_size) = btf__add_field mems obj name t bit_offset bit_size"
| "run_elem mems obj (Add_Enum_Value name val) = btf__add_enum_value mems obj name val"
| "run_elem mems obj (Add_Enum64_Value name val) = btf__add_enum64_value mems obj name val"
| "run_elem mems obj (Add_Func_Param name t) = btf__add_func_param mems obj name t"
| "run_elem mems obj (Add_Datasec_Var_Info t off byte_sz) = btf__add_datasec_var_info mems obj t off byte_sz"

section \<open>Types\<close>

text \<open>The type that a call stands for: its name, kind, number of elements, flag, and the words behind \<open>info\<close>.\<close>

fun type_spec :: "type_call \<Rightarrow> u8 list option \<times> btf_kind \<times> nat \<times> bool \<times> nat list" where
  "type_spec (Add_Int name byte_sz encoding) =
     (name, BTF_KIND_INT, 0, False, [unat byte_sz, unat encoding * 2 ^ 24 + unat byte_sz * 8])"
| "type_spec (Add_Float name byte_sz) = (name, BTF_KIND_FLOAT, 0, False, [unat byte_sz])"
| "type_spec (Add_Ptr t) = (None, BTF_KIND_PTR, 0, False, [nat t])"
| "type_spec (Add_Array i e n) = (None, BTF_KIND_ARRAY, 0, False, [0, nat e, nat i, unat n])"
| "type_spec (Add_Struct name byte_sz) = (name, BTF_KIND_STRUCT, 0, False, [unat byte_sz])"
| "type_spec (Add_Union name byte_sz) = (name, BTF_KIND_UNION, 0, False, [unat byte_sz])"
| "type_spec (Add_Enum name byte_sz) = (name, BTF_KIND_ENUM, 0, False, [unat byte_sz])"
| "type_spec (Add_Enum64 name byte_sz is_signed) = (name, BTF_KIND_ENUM64, 0, is_signed, [unat byte_sz])"
| "type_spec (Add_Fwd name k) =
     (if k = 2 then (name, BTF_KIND_ENUM, 0, False, [4]) else (name, BTF_KIND_FWD, 0, k = 1, [0]))"
| "type_spec (Add_Typedef name t) = (name, BTF_KIND_TYPEDEF, 0, False, [nat t])"
| "type_spec (Add_Volatile t) = (None, BTF_KIND_VOLATILE, 0, False, [nat t])"
| "type_spec (Add_Const t) = (None, BTF_KIND_CONST, 0, False, [nat t])"
| "type_spec (Add_Restrict t) = (None, BTF_KIND_RESTRICT, 0, False, [nat t])"
| "type_spec (Add_Type_Tag val t) = (val, BTF_KIND_TYPE_TAG, 0, False, [nat t])"
| "type_spec (Add_Func name linkage t) = (name, BTF_KIND_FUNC, nat linkage, False, [nat t])"
| "type_spec (Add_Func_Proto t) = (None, BTF_KIND_FUNC_PROTO, 0, False, [nat t])"
| "type_spec (Add_Var name linkage t) = (name, BTF_KIND_VAR, 0, False, [nat t, nat linkage])"
| "type_spec (Add_Datasec name byte_sz) = (name, BTF_KIND_DATASEC, 0, False, [unat byte_sz])"
| "type_spec (Add_Decl_Tag val t idx) = (val, BTF_KIND_DECL_TAG, 0, False, [nat t, unat idx])"

text \<open>The arguments that a call accepts.\<close>

definition enum_size_ok :: "u32 \<Rightarrow> bool" where
  "enum_size_ok byte_sz \<longleftrightarrow> byte_sz \<in> {1, 2, 4, 8}"

fun type_args_ok :: "type_call \<Rightarrow> bool" where
  "type_args_ok (Add_Int name byte_sz encoding) \<longleftrightarrow> \<not> no_name name \<and> byte_sz \<in> {1, 2, 4, 8, 16} \<and> unat encoding \<le> 7"
| "type_args_ok (Add_Float name byte_sz) \<longleftrightarrow> \<not> no_name name \<and> byte_sz \<in> {2, 4, 8, 12, 16}"
| "type_args_ok (Add_Ptr t) \<longleftrightarrow> validate_type_id t"
| "type_args_ok (Add_Array i e n) \<longleftrightarrow> validate_type_id i \<and> validate_type_id e"
| "type_args_ok (Add_Struct name byte_sz) \<longleftrightarrow> True"
| "type_args_ok (Add_Union name byte_sz) \<longleftrightarrow> True"
| "type_args_ok (Add_Enum name byte_sz) \<longleftrightarrow> enum_size_ok byte_sz"
| "type_args_ok (Add_Enum64 name byte_sz is_signed) \<longleftrightarrow> enum_size_ok byte_sz"
| "type_args_ok (Add_Fwd name k) \<longleftrightarrow> \<not> no_name name \<and> 0 \<le> k \<and> k \<le> 2"
| "type_args_ok (Add_Typedef name t) \<longleftrightarrow> \<not> no_name name \<and> validate_type_id t"
| "type_args_ok (Add_Volatile t) \<longleftrightarrow> validate_type_id t"
| "type_args_ok (Add_Const t) \<longleftrightarrow> validate_type_id t"
| "type_args_ok (Add_Restrict t) \<longleftrightarrow> validate_type_id t"
| "type_args_ok (Add_Type_Tag val t) \<longleftrightarrow> \<not> no_name val \<and> validate_type_id t"
| "type_args_ok (Add_Func name linkage t) \<longleftrightarrow> \<not> no_name name \<and> 0 \<le> linkage \<and> linkage \<le> 2 \<and> validate_type_id t"
| "type_args_ok (Add_Func_Proto t) \<longleftrightarrow> validate_type_id t"
| "type_args_ok (Add_Var name linkage t) \<longleftrightarrow> \<not> no_name name \<and> 0 \<le> linkage \<and> linkage \<le> 2 \<and> validate_type_id t"
| "type_args_ok (Add_Datasec name byte_sz) \<longleftrightarrow> \<not> no_name name"
| "type_args_ok (Add_Decl_Tag val t idx) \<longleftrightarrow> \<not> no_name val \<and> - 1 \<le> sint idx \<and> validate_type_id t"

text \<open>The sizes of integers are the powers of two up to 16.\<close>

lemma small_word:
  fixes x :: "'a :: len word"
  assumes "unat x \<le> k"
  shows "\<exists>i \<in> set [0..<Suc k]. x = word_of_nat i"
  using assms by (intro bexI [of _ "unat x"]) auto

lemma power_of_two_16:
  fixes x :: u64
  shows "x = 0 \<or> x AND (x - 1) \<noteq> 0 \<or> x > 16 \<longleftrightarrow> x \<notin> {1, 2, 4, 8, 16}"
proof (cases "unat x \<le> 16")
  case True
  from small_word [OF this] show ?thesis by (auto simp: upt_rec)
next
  case False
  then have "x > 16" by (simp add: word_less_nat_alt)
  with False show ?thesis by auto
qed

lemma power_of_two_8:
  fixes x :: u32
  shows "x = 0 \<or> x AND (x - 1) \<noteq> 0 \<or> x > 8 \<longleftrightarrow> \<not> enum_size_ok x"
proof (cases "unat x \<le> 8")
  case True
  from small_word [OF this] show ?thesis by (auto simp: upt_rec enum_size_ok_def)
next
  case False
  then have "x > 8" by (simp add: word_less_nat_alt)
  with False show ?thesis by (auto simp: enum_size_ok_def)
qed

lemma encoding_bits:
  fixes x :: s32
  shows "x AND NOT 7 \<noteq> 0 \<longleftrightarrow> \<not> unat x \<le> 7"
proof (cases "unat x \<le> 7")
  case True
  from small_word [OF this] show ?thesis by (auto simp: upt_rec)
next
  case False
  have "x = (x AND 7) OR (x AND NOT 7)" by (rule bit_word_eqI) (auto simp: bit_simps)
  moreover have "unat (x AND 7) \<le> 7" using word_and_le1 [of x 7] by (simp add: word_le_nat_alt)
  ultimately show ?thesis using False by (metis or.right_neutral)
qed

lemmas add_defs = btf__add_int_def btf__add_float_def btf_add_ref_kind_def btf__add_ptr_def btf__add_array_def
  btf_add_composite_def btf__add_struct_def btf__add_union_def btf_add_enum_common_def btf__add_enum_def
  btf__add_enum64_def btf__add_typedef_def btf__add_volatile_def btf__add_const_def btf__add_restrict_def
  btf__add_type_tag_def btf__add_func_proto_def btf__add_var_def btf__add_datasec_def btf__add_decl_tag_def

fun twice :: "type_call \<Rightarrow> bool" where
  "twice (Add_Fwd name k) \<longleftrightarrow> k \<noteq> 2"
| "twice (Add_Func name linkage t) \<longleftrightarrow> True"
| "twice _ \<longleftrightarrow> False"

lemma linkages: "(k :: int) \<in> {0, 1, 2} \<longleftrightarrow> 0 \<le> k \<and> k \<le> 2"
  by auto

lemma run_add_once:
  "\<not> twice c \<Longrightarrow> type_spec c = (name, kind, vlen, kflag, ws) \<Longrightarrow>
    run_add mems obj c =
      (if type_args_ok c then append_type mems obj name (btf_type_info kind vlen kflag # ws) else fail obj EINVAL)"
proof (induction c)
  case (Add_Int n byte_sz encoding)
  then show ?case using power_of_two_16 [of byte_sz] encoding_bits [of encoding] by (auto simp: btf__add_int_def)
next
  case (Add_Enum n byte_sz)
  then show ?case using power_of_two_8 [of byte_sz] by (auto simp: btf__add_enum_def btf_add_enum_common_def)
next
  case (Add_Enum64 n byte_sz b)
  then show ?case using power_of_two_8 [of byte_sz] by (auto simp: btf__add_enum64_def btf_add_enum_common_def)
next
  case (Add_Fwd n k)
  then show ?case
    by (auto simp: btf__add_fwd_def btf__add_enum_def btf_add_enum_common_def)
next
  case (Add_Var n k t)
  then show ?case using linkages [of k] by (auto simp: btf__add_var_def)
next
  case (Add_Decl_Tag n t i)
  then show ?case by (auto simp: btf__add_decl_tag_def)
qed (auto simp: add_defs)

lemma rewrite_fail: "rewrite_info (fail obj e) info = fail obj e"
  by (simp add: rewrite_info_def fail_def bindb_def)

lemma run_add_twice:
  assumes "twice c" "type_spec c = (name, kind, vlen, kflag, ws)"
  shows "run_add mems obj c =
    (if type_args_ok c then rewrite_info (append_type mems obj name (btf_type_info kind 0 False # ws)) (btf_type_info kind vlen kflag)
     else fail obj EINVAL)"
  using assms
proof (induction c)
  case (Add_Fwd n k)
  have "k = 0 \<or> k = 1 \<longleftrightarrow> 0 \<le> k \<and> k \<le> 1" by auto
  with Add_Fwd show ?case by (auto simp: btf__add_fwd_def btf_add_ref_kind_def validate_type_id_def)
next
  case (Add_Func n k t)
  then show ?case using linkages [of k] by (auto simp: btf__add_func_def btf_add_ref_kind_def rewrite_fail)
qed auto

text \<open>Every call writes words that fit, and \<open>info\<close> gives the number of bytes that were written.\<close>

lemma nat_type_id: "validate_type_id t \<Longrightarrow> nat t < 2 ^ 32"
  by (auto simp: validate_type_id_def BTF_MAX_NR_TYPES_def nat_less_iff)

lemma u32_small [simp]: "unat (x :: u32) < 2 ^ 32"
  using unsigned_less [of x, where ?'a = nat] by simp

lemma type_spec_ok:
  assumes "type_args_ok c" "type_spec c = (name, kind, vlen, kflag, ws)"
  shows "proper_kind kind \<and> vlen < 65536 \<and> rest_words kind vlen = Some (length ws - 1) \<and> ws \<noteq> [] \<and> (\<forall>w \<in> set ws. w < 2 ^ 32)"
  using assms u32_small nat_type_id
  by (induction c) (auto simp: proper_kind_def simp del: u32_small split: if_splits)

lemma info_size_spec:
  assumes "proper_kind kind" "vlen < 65536" "rest_words kind vlen = Some (length ws - 1)" "ws \<noteq> []"
  shows "info_size (btf_type_info kind vlen kflag) = Inr (4 + 4 * length (btf_type_info kind vlen kflag # ws))"
    "btf_type_info kind vlen kflag < 2 ^ 32"
  using info_size_type_info [OF assms(1-3), of kflag] assms(4) type_info_parts(4) [OF assms(1,2), of kflag]
  by (cases ws; simp)+

lemma run_add_ok:
  assumes obj: "obj_ok obj" and spec: "type_spec c = (name, kind, vlen, kflag, ws)" and name: "name_ok name"
    and r: "run_add mems obj c = Inr (obj', r)"
  shows "obj_ok obj' \<and> strs_kept (layers obj) (layers obj') \<and> (\<not> type_args_ok c \<longrightarrow> obj' = obj \<and> r = Inl EINVAL) \<and> (case r of
      Inl e \<Rightarrow> btf__type_cnt (layers obj') = btf__type_cnt (layers obj) \<and> types_kept (btf__type_cnt (layers obj)) (layers obj) (layers obj')
    | Inr i \<Rightarrow> type_added (layers obj) (layers obj') (name_str name) (btf_type_info kind vlen kflag # ws) i)"
proof (cases "type_args_ok c")
  case False
  then have "run_add mems obj c = fail obj EINVAL" using run_add_once [OF _ spec] run_add_twice [OF _ spec] by (cases "twice c") simp_all
  with r obj False show ?thesis by (auto simp: fail_def strs_kept_def types_kept_def)
next
  case True
  from type_spec_ok [OF True spec] have ok: "proper_kind kind" "vlen < 65536" "rest_words kind vlen = Some (length ws - 1)" "ws \<noteq> []"
    by auto
  have added: "obj_ok obj'' \<and> strs_kept (layers obj) (layers obj'') \<and> (case r' of
      Inl e \<Rightarrow> btf__type_cnt (layers obj'') = btf__type_cnt (layers obj) \<and> types_kept (btf__type_cnt (layers obj)) (layers obj) (layers obj'')
    | Inr i \<Rightarrow> type_added (layers obj) (layers obj'') (name_str name) (btf_type_info kind v k # ws) i)"
    if "append_type mems obj name (btf_type_info kind v k # ws) = Inr (obj'', r')" "v < 65536" "rest_words kind v = Some (length ws - 1)"
    for obj'' r' v k
    using append_type_added [OF obj name that(1)] info_size_spec [OF ok(1) that(2,3) ok(4), of k] by simp
  show ?thesis
  proof (cases "twice c")
    case False
    with r run_add_once [OF False spec] True have "append_type mems obj name (btf_type_info kind vlen kflag # ws) = Inr (obj', r)" by simp
    from added [OF this ok(2,3)] True show ?thesis by simp
  next
    case tw: True
    with spec have z: "rest_words kind 0 = Some (length ws - 1)" by (cases c) (auto split: if_splits)
    from r run_add_twice [OF tw spec] True have
      "rewrite_info (append_type mems obj name (btf_type_info kind 0 False # ws)) (btf_type_info kind vlen kflag) = Inr (obj', r)" by simp
    from rewrite_outcome [OF obj name this] show ?thesis
    proof (elim disjE exE conjE)
      fix e assume "r = Inl e" "append_type mems obj name (btf_type_info kind 0 False # ws) = Inr (obj', Inl e)"
      with added [OF this(2) _ z] True show ?thesis by simp
    next
      fix i assume "r = Inr i" "append_type mems obj name (btf_type_info kind vlen kflag # ws) = Inr (obj', Inr i)"
      with added [OF this(2) ok(2,3)] True show ?thesis by simp
    qed
  qed
qed

section \<open>Reading back\<close>

text \<open>A type as the queries see it; \<open>ws\<close> are the words behind \<open>info\<close>.\<close>

definition type_reads :: "btf \<Rightarrow> nat \<Rightarrow> u8 list \<Rightarrow> btf_kind \<Rightarrow> nat \<Rightarrow> bool \<Rightarrow> nat list \<Rightarrow> bool" where
  "type_reads btf i name kind vlen kflag ws \<longleftrightarrow>
     (\<exists>t off. btf__type_by_id btf i = Inr (Some t) \<and> btf_kind t = Inr kind \<and> btf_vlen t = Inr vlen \<and> btf_kflag t = Inr kflag \<and>
        t_name_off t = Inr off \<and> str_is btf off name \<and> (\<forall>k < length ws. tword t (8 + 4 * k) = Inr (ws ! k)))"

lemma le_nat_zeros: "le_nat (replicate n 0) = 0"
  by (induction n) simp_all

lemma tword_bytes:
  assumes "type_bytes t = Inr bs" "k + 4 \<le> length bs"
  shows "tword t k = rd32 bs k"
proof (cases t)
  case (Type_At xs off)
  with assms(1) obtain n where "off + n \<le> length xs" "bs = take n (drop off xs)"
    by (auto simp: type_bytes_def bindr_eq_Inr split: if_splits)
  moreover from this assms(2) have "4 \<le> n - k" "off + k + 4 \<le> length xs" "k + 4 \<le> n" by auto
  ultimately show ?thesis using Type_At by (simp add: tword_def rd_def drop_take add.commute min_absorb1)
next
  case Btf_Void
  have "le_nat (take 4 (drop k (replicate 12 0))) = 0" by (simp add: le_nat_zeros)
  with Btf_Void assms show ?thesis by (auto simp: type_bytes_def tword_def rd_def)
qed

lemma bytes_of_type:
  assumes "btf_ok btf" "bytes_of btf i = Inr bs" "i < btf__type_cnt btf"
  shows "\<exists>t. btf__type_by_id btf i = Inr (Some t) \<and> type_bytes t = Inr bs"
  using assms by (auto simp: bytes_of_def bindr_eq_Inr btf__type_by_id_def)

lemma added_reads:
  assumes ok: "btf_ok btf'" and add: "type_added btf btf' name (btf_type_info kind vlen kflag # ws) i"
    and spec: "proper_kind kind" "vlen < 65536" "\<forall>w \<in> set ws. w < 2 ^ 32"
  shows "type_reads btf' i name kind vlen kflag ws"
proof -
  from add obtain off where off: "off < 2 ^ 32" "bytes_of btf' i = Inr (type_words (off # btf_type_info kind vlen kflag # ws))"
    "str_is btf' off name" "btf__type_cnt btf' = i + 1" by (auto simp: type_added_def)
  from bytes_of_type [OF ok off(2)] off(4) obtain t where t: "btf__type_by_id btf' i = Inr (Some t)"
    "type_bytes t = Inr (type_words (off # btf_type_info kind vlen kflag # ws))" by auto
  let ?ws = "off # btf_type_info kind vlen kflag # ws"
  have w: "tword t (4 * k) = Inr (?ws ! k mod 2 ^ 32)" if "k < length ?ws" for k
    using tword_bytes [OF t(2), of "4 * k"] rd32_type_words [OF that, of "[]"] that by (simp del: type_words_simps)
  have "tword t 0 = Inr off" "tword t 4 = Inr (btf_type_info kind vlen kflag)"
    using w [of 0] w [of 1] off(1) type_info_parts(4) [OF spec(1,2), of kflag] by simp_all
  moreover have "tword t (8 + 4 * k) = Inr (ws ! k)" if "k < length ws" for k
    using w [of "k + 2"] that spec(3) by simp
  ultimately show ?thesis
    using t(1) off(3) type_info_parts [OF spec(1,2), of kflag]
    unfolding type_reads_def by (intro exI [of _ t] exI [of _ off]) (simp add: btf_kind_def btf_vlen_def btf_kflag_def t_name_off_def)
qed

section \<open>Elements\<close>

text \<open>
  What a call adds to the last type: the kinds it is for, whether an element has a name, the words behind
  the name, and whether the flag of the type is set.
\<close>

fun elem_spec :: "elem_call \<Rightarrow> btf_kind set \<times> bool \<times> u8 list option \<times> nat list \<times> bool" where
  "elem_spec (Add_Field name t bit_offset bit_size) =
     ({BTF_KIND_STRUCT, BTF_KIND_UNION}, True, name, [nat t, unat bit_offset + 2 ^ 24 * unat bit_size],
      bit_size \<noteq> 0 \<or> unat bit_offset mod 8 \<noteq> 0)"
| "elem_spec (Add_Enum_Value name val) = ({BTF_KIND_ENUM}, True, name, [unat val mod 2 ^ 32], sint val < 0)"
| "elem_spec (Add_Enum64_Value name val) =
     ({BTF_KIND_ENUM64}, True, name, [unat val mod 2 ^ 32, unat val div 2 ^ 32], False)"
| "elem_spec (Add_Func_Param name t) = ({BTF_KIND_FUNC_PROTO}, True, name, [nat t], False)"
| "elem_spec (Add_Datasec_Var_Info t off byte_sz) =
     ({BTF_KIND_DATASEC}, False, None, [nat t, unat off, unat byte_sz], False)"

fun elem_args_ok :: "btf_kind \<Rightarrow> elem_call \<Rightarrow> bool" where
  "elem_args_ok kind (Add_Field name t bit_offset bit_size) \<longleftrightarrow> validate_type_id t \<and>
     (bit_size \<noteq> 0 \<or> unat bit_offset mod 8 \<noteq> 0 \<longrightarrow> bit_size \<noteq> 0 \<and> bit_size \<le> 255 \<and> bit_offset \<le> 0xffffff) \<and>
     (kind = BTF_KIND_UNION \<longrightarrow> bit_offset = 0)"
| "elem_args_ok kind (Add_Enum_Value name val) \<longleftrightarrow> \<not> no_name name \<and> - (2 ^ 31) \<le> sint val \<and> sint val \<le> 2 ^ 32 - 1"
| "elem_args_ok kind (Add_Enum64_Value name val) \<longleftrightarrow> \<not> no_name name"
| "elem_args_ok kind (Add_Func_Param name t) \<longleftrightarrow> validate_type_id t"
| "elem_args_ok kind (Add_Datasec_Var_Info t off byte_sz) \<longleftrightarrow> validate_type_id t"

definition info_kind :: "nat \<Rightarrow> btf_kind" where "info_kind info = btf_kind_of (info div 2 ^ 24 mod 32)"
definition info_vlen :: "nat \<Rightarrow> nat" where "info_vlen info = info mod 2 ^ 16"
definition info_kflag :: "nat \<Rightarrow> bool" where "info_kflag info \<longleftrightarrow> info div 2 ^ 31 \<noteq> 0"

text \<open>The object has a last type of one of the kinds.\<close>

definition last_kind :: "btf_kind set \<Rightarrow> btf_obj \<Rightarrow> btf_kind \<Rightarrow> nat \<Rightarrow> bool" where
  "last_kind kinds obj kind info \<longleftrightarrow> m_nr_types (hd obj) > 0 \<and> last_info (layers obj) = Inr info \<and> kind = info_kind info \<and> kind \<in> kinds"

lemma check_last_ok:
  assumes obj: "obj_ok obj" and c: "check_last kinds obj = Inr (obj', q)"
  shows "obj' = obj \<and> (case q of Inl e \<Rightarrow> \<forall>kind info. \<not> last_kind kinds obj kind info | Inr kind \<Rightarrow> \<exists>info. last_kind kinds obj kind info)"
proof -
  obtain m base where mb: "obj = m # base" using obj by (cases obj) (auto simp: obj_ok_def)
  show ?thesis
  proof (cases "m_nr_types m = 0")
    case False
    have "mod_wf m" using obj by (simp add: mb obj_ok_def)
    from last_type_ok [OF obj [unfolded mb] _ this refl] False obtain p info where
      "btf_last_type m = Inr p" "last_info (layers (m # base)) = Inr info"
      "type_head m p = Inr (btf_kind_of (info div 2 ^ 24 mod 32), info mod 2 ^ 16, info div 2 ^ 31 \<noteq> 0)" by auto
    with c False have "obj' = obj" "last_info (layers obj) = Inr info"
      "q = (if info_kind info \<notin> kinds then Inl EINVAL else Inr (info_kind info))"
      by (auto simp: check_last_def mb fail_def info_kind_def split: if_splits)
    with False show ?thesis by (auto simp: last_kind_def mb)
  qed (use c in \<open>auto simp: check_last_def mb fail_def last_kind_def\<close>)
qed

lemma after_check:
  assumes obj: "obj_ok obj"
    and r: "bindb (check_last kinds obj) (\<lambda>obj kind. if P kind then f obj else fail obj e) = Inr (obj', r)"
  shows "obj' = obj \<and> (\<exists>e. r = Inl e) \<and> (\<forall>kind info. last_kind kinds obj kind info \<longrightarrow> \<not> P kind) \<or>
    (\<exists>kind info. last_kind kinds obj kind info \<and> P kind) \<and> f obj = Inr (obj', r)"
proof -
  from r obtain obj1 q where q: "check_last kinds obj = Inr (obj1, q)"
    "case q of Inl e \<Rightarrow> obj' = obj1 \<and> r = Inl e | Inr kind \<Rightarrow> (if P kind then f obj1 else fail obj1 e) = Inr (obj', r)"
    unfolding bindb_eq_Inr by (elim exE conjE)
  note c = check_last_ok [OF obj q(1)]
  show ?thesis
  proof (cases q)
    case (Inr kind)
    with c have k: "obj1 = obj" "\<exists>info. last_kind kinds obj kind info" by simp_all
    have only: "kind' = kind" if "last_kind kinds obj kind' info" for kind' info
      using k that by (auto simp: last_kind_def)
    show ?thesis
    proof (cases "P kind")
      case True
      with k q(2) Inr show ?thesis by auto
    next
      case False
      then have "obj' = obj" "r = Inl e" using k q(2) Inr by (simp_all add: fail_def)
      with only False show ?thesis by blast
    qed
  next
    case (Inl e)
    with c q(2) show ?thesis by simp
  qed
qed

lemma or_shifted:
  fixes a b :: u32
  assumes "b \<noteq> 0 \<Longrightarrow> b \<le> 255 \<and> a \<le> 0xffffff"
  shows "unat (a OR push_bit 24 b) = unat a + 2 ^ 24 * unat b"
proof (cases "b = 0")
  case False
  with assms have ab: "unat a < 2 ^ 24" "unat b < 2 ^ 8" by (simp_all add: word_le_nat_alt)
  have a: "take_bit 24 (unat a) = unat a" using ab(1) by (simp add: take_bit_nat_eq_self)
  have "unat (push_bit 24 b) = take_bit 32 (push_bit 24 (unat b))" by (simp only: unsigned_push_bit_eq) simp
  also have "\<dots> = push_bit 24 (unat b)" by (rule take_bit_nat_eq_self) (use ab(2) in \<open>simp add: push_bit_eq_mult\<close>)
  finally have "unat (push_bit 24 b) = push_bit 24 (unat b)" .
  then have "unat (a OR push_bit 24 b) = take_bit 24 (unat a) OR push_bit 24 (unat b)"
    by (simp add: unsigned_or_eq a)
  also have "\<dots> = take_bit 24 (unat a) + push_bit 24 (unat b)"
    by (rule disjunctive_add_eq_or [symmetric]) (auto simp: bit_eq_iff bit_simps)
  finally show ?thesis by (simp add: a push_bit_eq_mult mult.commute)
qed simp

text \<open>The new words fit, and the new \<open>info\<close> gives the number of bytes.\<close>

lemma elem_spec_ok:
  assumes "elem_args_ok kind c" "elem_spec c = (kinds, has_name, name, ws, sets)" "kind \<in> kinds"
  shows "proper_kind kind \<and> rest_words kind (v + 1) = map_option (\<lambda>n. n + (length ws + (if has_name then 1 else 0))) (rest_words kind v) \<and>
    (\<forall>w \<in> set ws. w < 2 ^ 32)"
proof -
  have hi: "unat (x :: u64) div 4294967296 < 4294967296" for x
    using unsigned_less [of x, where ?'a = nat] by (simp add: less_mult_imp_div_less)
  have field: "unat off + 16777216 * unat b < 4294967296" if "b \<noteq> 0 \<longrightarrow> b \<le> 255 \<and> off \<le> 0xffffff" for off b :: u32
  proof (cases "b = 0")
    case False
    with that have "unat off \<le> 0xffffff" "unat b \<le> 255" by (simp_all add: word_le_nat_alt)
    then show ?thesis by simp
  qed (use u32_small [of off] in simp)
  show ?thesis
  proof (cases c)
    case (Add_Field n t off b)
    then have "b \<noteq> 0 \<longrightarrow> b \<le> 255 \<and> off \<le> 0xffffff" "nat t < 2 ^ 32" using assms(1) nat_type_id by auto
    with Add_Field assms(2,3) field [of b off] show ?thesis by (auto simp: proper_kind_def)
  next
    case (Add_Enum_Value n val)
    with assms(2,3) show ?thesis by (auto simp: proper_kind_def)
  next
    case (Add_Enum64_Value n val)
    with assms(2,3) hi [of val] show ?thesis by (auto simp: proper_kind_def)
  next
    case (Add_Func_Param n t)
    with assms nat_type_id [of t] show ?thesis by (auto simp: proper_kind_def)
  next
    case (Add_Datasec_Var_Info t off n)
    with assms nat_type_id [of t] u32_small [of off] u32_small [of n] show ?thesis by (auto simp: proper_kind_def)
  qed
qed

definition elem_accepts :: "btf_obj \<Rightarrow> elem_call \<Rightarrow> bool" where
  "elem_accepts obj c \<longleftrightarrow> (\<exists>kind info. last_kind (fst (elem_spec c)) obj kind info \<and> elem_args_ok kind c)"

text \<open>The checks of a call, in one form for all of them, and the change of \<open>info\<close>.\<close>

fun elem_upd :: "elem_call \<Rightarrow> btf_kind \<Rightarrow> nat \<Rightarrow> bool \<Rightarrow> nat" where
  "elem_upd (Add_Field name t bit_offset bit_size) kind vlen kflag =
     btf_type_info kind (vlen + 1) ((bit_size \<noteq> 0 \<or> unat bit_offset mod 8 \<noteq> 0) \<or> kflag)"
| "elem_upd (Add_Enum_Value name val) kind vlen kflag =
     (if sint val < 0 then btf_type_info kind ((vlen + 1) mod 2 ^ 16) True else inc_vlen kind vlen kflag)"
| "elem_upd c kind vlen kflag = inc_vlen kind vlen kflag"

lemma elem_upd_info:
  "elem_spec c = (kinds, has_name, name, ws, sets) \<Longrightarrow> vlen < 65535 \<Longrightarrow>
    elem_upd c kind vlen kflag = btf_type_info kind (vlen + 1) (sets \<or> kflag)"
  by (cases c) (auto simp: inc_vlen_def)

lemma mod8_word: "(x :: u32) mod 8 \<noteq> 0 \<longleftrightarrow> unat x mod 8 \<noteq> 0"
  using unat_eq_zero [of "x mod 8"] by (simp add: unat_mod)

lemma ucast_low: "unat (ucast (x :: u64) :: u32) = unat x mod 2 ^ 32"
  by (simp add: unsigned_ucast_eq take_bit_eq_mod)

lemma ucast_high: "unat (ucast (drop_bit 32 (x :: u64)) :: u32) = unat x div 2 ^ 32"
proof -
  have "unat x div 2 ^ 32 < 2 ^ 32" using unsigned_less [of x, where ?'a = nat] by (simp add: less_mult_imp_div_less)
  then show ?thesis by (simp add: ucast_low drop_bit_eq_div unat_div)
qed

lemma run_elem_form:
  assumes obj: "obj_ok obj" and spec: "elem_spec c = (kinds, has_name, name, ws, sets)"
  shows "\<exists>e. run_elem mems obj c = bindb (check_last kinds obj) (\<lambda>obj kind.
    if elem_args_ok kind c then append_elem mems obj has_name name ws (elem_upd c) else fail obj e) \<or>
    (\<forall>kind. \<not> elem_args_ok kind c) \<and> run_elem mems obj c = fail obj EINVAL"
proof (cases c)
  case (Add_Field n t off b)
  let ?bf = "b \<noteq> 0 \<or> off mod 8 \<noteq> 0"
  have upd: "(\<lambda>kind vlen kflag. btf_type_info kind (vlen + 1) (?bf \<or> kflag)) = elem_upd c"
    using Add_Field mod8_word [of off] by (auto simp: fun_eq_iff)
  have ws: "[nat t, unat (off OR push_bit 24 b)] = ws" if "elem_args_ok kind c" for kind
    using that Add_Field spec or_shifted [of b off] by auto
  have step: "(if \<not> validate_type_id t then fail obj EINVAL
      else if ?bf \<and> (b = 0 \<or> b > 255 \<or> off > 0xffffff) then fail obj EINVAL
      else if kind = BTF_KIND_UNION \<and> off \<noteq> 0 then fail obj EINVAL
      else append_elem mems obj True n [nat t, unat (off OR push_bit 24 b)] (elem_upd c)) =
    (if elem_args_ok kind c then append_elem mems obj has_name name ws (elem_upd c) else fail obj EINVAL)" for obj kind
  proof (cases "elem_args_ok kind c")
    case True
    with ws [OF True] Add_Field spec mod8_word [of off] show ?thesis by (auto simp: not_le)
  next
    case False
    with Add_Field mod8_word [of off] show ?thesis by (auto simp: not_le)
  qed
  have "run_elem mems obj c = bindb (check_last kinds obj) (\<lambda>obj kind.
      if elem_args_ok kind c then append_elem mems obj has_name name ws (elem_upd c) else fail obj EINVAL)"
    unfolding Add_Field run_elem.simps btf__add_field_def Let_def upd [unfolded Add_Field] step [unfolded Add_Field]
    using Add_Field spec by simp
  then show ?thesis by (intro exI [of _ "EINVAL"]) simp
next
  case (Add_Enum_Value n val)
  have upd: "(\<lambda>kind vlen kflag. if sint val < 0 then btf_type_info kind ((vlen + 1) mod 2 ^ 16) True else inc_vlen kind vlen kflag) = elem_upd c"
    using Add_Enum_Value by (simp add: fun_eq_iff)
  have step: "(if no_name n then fail obj EINVAL
      else if sint val < - (2 ^ 31) \<or> sint val > 2 ^ 32 - 1 then fail obj E2BIG
      else append_elem mems obj True n [unat (ucast val :: u32)] (elem_upd c)) =
    (if \<not> no_name n \<and> - (2 ^ 31) \<le> sint val \<and> sint val \<le> 2 ^ 32 - 1 then append_elem mems obj has_name name ws (elem_upd c)
     else fail obj (if no_name n then EINVAL else E2BIG))" for obj
    using Add_Enum_Value spec ucast_low [of val] by (auto simp: not_less)
  have "run_elem mems obj c = bindb (check_last kinds obj) (\<lambda>obj kind.
      if elem_args_ok kind c then append_elem mems obj has_name name ws (elem_upd c)
      else fail obj (if no_name n then EINVAL else E2BIG))"
    unfolding Add_Enum_Value run_elem.simps btf__add_enum_value_def upd [unfolded Add_Enum_Value] step [unfolded Add_Enum_Value]
    using Add_Enum_Value spec by simp
  then show ?thesis by (intro exI [of _ "if no_name n then EINVAL else E2BIG"]) simp
next
  case (Add_Enum64_Value n val)
  then have "elem_upd c = inc_vlen" by (simp add: fun_eq_iff)
  then have step: "(if no_name n then fail obj EINVAL
      else append_elem mems obj True n [unat (ucast val :: u32), unat (ucast (drop_bit 32 val) :: u32)] inc_vlen) =
    (if \<not> no_name n then append_elem mems obj has_name name ws (elem_upd c) else fail obj EINVAL)" for obj
    using Add_Enum64_Value spec ucast_low [of val] ucast_high [of val] by auto
  have "run_elem mems obj c = bindb (check_last kinds obj) (\<lambda>obj kind.
      if elem_args_ok kind c then append_elem mems obj has_name name ws (elem_upd c) else fail obj EINVAL)"
    unfolding Add_Enum64_Value run_elem.simps btf__add_enum64_value_def step [unfolded Add_Enum64_Value]
    using Add_Enum64_Value spec by simp
  then show ?thesis by (intro exI [of _ "EINVAL"]) simp
next
  case (Add_Func_Param n t)
  then have upd: "elem_upd c = inc_vlen" by (simp add: fun_eq_iff)
  with Add_Func_Param show ?thesis
    using spec by (cases "validate_type_id t") (auto simp: btf__add_func_param_def)
next
  case (Add_Datasec_Var_Info t off n)
  then have upd: "elem_upd c = inc_vlen" by (simp add: fun_eq_iff)
  have step: "(if \<not> validate_type_id t then fail obj EINVAL
      else append_elem mems obj False None [nat t, unat off, unat n] inc_vlen) =
    (if validate_type_id t then append_elem mems obj has_name name ws (elem_upd c) else fail obj EINVAL)" for obj
    using Add_Datasec_Var_Info spec upd by auto
  have "run_elem mems obj c = bindb (check_last kinds obj) (\<lambda>obj kind.
      if elem_args_ok kind c then append_elem mems obj has_name name ws (elem_upd c) else fail obj EINVAL)"
    unfolding Add_Datasec_Var_Info run_elem.simps btf__add_datasec_var_info_def step [unfolded Add_Datasec_Var_Info]
    using Add_Datasec_Var_Info spec by simp
  then show ?thesis by (intro exI [of _ "EINVAL"]) simp
qed

text \<open>The last type has room for one more element.\<close>

definition has_room :: "btf_obj \<Rightarrow> bool" where
  "has_room obj \<longleftrightarrow> (\<forall>info. last_info (layers obj) = Inr info \<longrightarrow> info_vlen info < 65535)"

lemma run_elem_cases:
  assumes obj: "obj_ok obj" and spec: "elem_spec c = (kinds, has_name, name, ws, sets)"
    and r: "run_elem mems obj c = Inr (obj', r)"
  shows "obj' = obj \<and> (\<exists>e. r = Inl e) \<and> \<not> elem_accepts obj c \<or>
    elem_accepts obj c \<and> append_elem mems obj has_name name ws (elem_upd c) = Inr (obj', r)"
proof -
  have acc: "elem_accepts obj c \<longleftrightarrow> (\<exists>kind info. last_kind kinds obj kind info \<and> elem_args_ok kind c)"
    by (simp add: elem_accepts_def spec)
  from run_elem_form [OF obj spec, of mems] consider
      e where "run_elem mems obj c = bindb (check_last kinds obj) (\<lambda>obj kind.
        if elem_args_ok kind c then append_elem mems obj has_name name ws (elem_upd c) else fail obj e)"
    | "\<forall>kind. \<not> elem_args_ok kind c" "run_elem mems obj c = fail obj EINVAL" by blast
  then show ?thesis
  proof cases
    case 1
    with r have "bindb (check_last kinds obj) (\<lambda>obj kind.
        if elem_args_ok kind c then append_elem mems obj has_name name ws (elem_upd c) else fail obj e) = Inr (obj', r)" by simp
    from after_check [OF obj this] show ?thesis unfolding acc by blast
  next
    case 2
    then have "\<not> elem_accepts obj c" unfolding acc by blast
    moreover have "obj' = obj \<and> r = Inl EINVAL" using r 2(2) by (simp add: fail_def)
    ultimately show ?thesis by blast
  qed
qed

lemma run_elem_ok:
  assumes obj: "obj_ok obj" and spec: "elem_spec c = (kinds, has_name, name, ws, sets)" and name: "name_ok name"
    and room: "has_room obj" and r: "run_elem mems obj c = Inr (obj', r)"
  shows "obj_ok obj' \<and> strs_kept (layers obj) (layers obj') \<and> (\<not> elem_accepts obj c \<longrightarrow> obj' = obj \<and> (\<exists>e. r = Inl e)) \<and> (case r of
      Inl e \<Rightarrow> btf__type_cnt (layers obj') = btf__type_cnt (layers obj) \<and> types_kept (btf__type_cnt (layers obj)) (layers obj) (layers obj')
    | Inr _ \<Rightarrow> \<exists>info. last_info (layers obj) = Inr info \<and> info_kind info \<in> kinds \<and> elem_args_ok (info_kind info) c \<and>
        elem_added (layers obj) (layers obj') has_name (name_str name) ws info
          (btf_type_info (info_kind info) (info_vlen info + 1) (sets \<or> info_kflag info)))"
  using run_elem_cases [OF obj spec r]
proof (elim disjE conjE exE)
  fix e assume "obj' = obj" "r = Inl e" "\<not> elem_accepts obj c"
  with obj show ?thesis by (simp add: strs_kept_def types_kept_def)
next
  assume acc: "elem_accepts obj c" and a: "append_elem mems obj has_name name ws (elem_upd c) = Inr (obj', r)"
  from acc obtain kind info where k: "m_nr_types (hd obj) > 0" "last_info (layers obj) = Inr info" "kind = info_kind info"
    "kind \<in> kinds" "elem_args_ok kind c" by (auto simp: elem_accepts_def last_kind_def spec)
  have vlen: "info_vlen info < 65535" using room k(2) by (simp add: has_room_def)
  note s = elem_spec_ok [OF k(5) spec k(4)]
  have upd: "elem_upd c (btf_kind_of (info div 2 ^ 24 mod 32)) (info mod 2 ^ 16) (info div 2 ^ 31 \<noteq> 0) =
      btf_type_info kind (info_vlen info + 1) (sets \<or> info_kflag info)"
    using elem_upd_info [OF spec vlen, of kind "info_kflag info"] by (simp add: k(3) info_kind_def info_vlen_def info_kflag_def)
  have size: "info_size (btf_type_info kind (info_vlen info + 1) (sets \<or> info_kflag info)) =
        Inr (n + 4 * (length ws + (if has_name then 1 else 0))) \<and>
      btf_type_info kind (info_vlen info + 1) (sets \<or> info_kflag info) < 2 ^ 32" if "info_size info = Inr n" for n
  proof -
    from that obtain m where m: "rest_words kind (info_vlen info) = Some m" "n = 12 + m * 4"
      by (auto simp: info_size_def k(3) info_kind_def info_vlen_def split: option.splits)
    have p: "proper_kind kind" "info_vlen info + 1 < 65536" using s vlen by simp_all
    have "rest_words kind (info_vlen info + 1) = Some (m + (length ws + (if has_name then 1 else 0)))" using s m(1) by simp
    from info_size_type_info [OF p this] type_info_parts(4) [OF p] show ?thesis
      by (simp add: m(2) add_mult_distrib) (metis mod_less_divisor zero_less_numeral)
  qed
  have "obj_ok obj' \<and> strs_kept (layers obj) (layers obj') \<and> (case r of
      Inl e \<Rightarrow> btf__type_cnt (layers obj') = btf__type_cnt (layers obj) \<and> types_kept (btf__type_cnt (layers obj)) (layers obj) (layers obj')
    | Inr _ \<Rightarrow> \<exists>info. last_info (layers obj) = Inr info \<and> elem_added (layers obj) (layers obj') has_name (name_str name) ws info
        (elem_upd c (btf_kind_of (info div 2 ^ 24 mod 32)) (info mod 2 ^ 16) (info div 2 ^ 31 \<noteq> 0)))"
    by (rule append_elem_added [OF obj k(1) name a]) (use size upd k(2) in simp)
  with acc k upd show ?thesis by (cases r) auto
qed

text \<open>The last type, with \<open>info\<close> before a call, as the queries see it before and after.\<close>

definition elem_reads :: "btf \<Rightarrow> btf \<Rightarrow> nat \<Rightarrow> bool \<Rightarrow> u8 list \<Rightarrow> nat list \<Rightarrow> bool \<Rightarrow> bool" where
  "elem_reads btf btf' info has_name name ws sets \<longleftrightarrow>
     (let kind = info_kind info; vlen = info_vlen info; kflag = info_kflag info in
      \<exists>t t' n.
        btf__type_by_id btf (btf__type_cnt btf - 1) = Inr (Some t) \<and> btf__type_by_id btf' (btf__type_cnt btf - 1) = Inr (Some t') \<and>
        btf_kind t = Inr kind \<and> btf_vlen t = Inr vlen \<and> btf_kflag t = Inr kflag \<and> btf_type_size t = Inr n \<and>
        btf_kind t' = Inr kind \<and> btf_vlen t' = Inr (vlen + 1) \<and> btf_kflag t' = Inr (sets \<or> kflag) \<and>
        btf_type_size t' = Inr (n + 4 * (length ws + (if has_name then 1 else 0))) \<and>
        (\<forall>k. (k = 0 \<or> 8 \<le> k) \<and> k + 4 \<le> n \<longrightarrow> tword t' k = tword t k) \<and>
        (has_name \<longrightarrow> (\<exists>off. tword t' n = Inr off \<and> str_is btf' off name)) \<and>
        (\<forall>i < length ws. tword t' (n + 4 * (if has_name then i + 1 else i)) = Inr (ws ! i)))"

lemma type_bytes_size:
  "type_bytes (Type_At bs off) = Inr xs \<Longrightarrow> btf_type_size (Type_At bs off) = Inr (length xs) \<and> 12 \<le> length xs"
  using type_size_inside [of bs off] by (auto simp: type_bytes_def bindr_eq_Inr split: if_splits)

lemma type_not_void:
  assumes t: "type_bytes t = Inr bs" and i: "rd32 bs 4 = Inr info" and k: "info_kind info \<noteq> BTF_KIND_UNKN"
  shows "btf_type_size t = Inr (length bs) \<and> 12 \<le> length bs \<and> tword t 4 = Inr info"
proof (cases t)
  case (Type_At xs off)
  with type_bytes_size [of xs off bs] tword_bytes [OF t, of 4] t i show ?thesis by simp
next
  case Btf_Void
  with t i have "info = 0" by (auto simp: type_bytes_def rd_def le_nat_zeros)
  with k show ?thesis by (simp add: info_kind_def btf_kind_of_def btf_kinds_def)
qed

lemma head_words:
  "tword t 4 = Inr info \<Longrightarrow> btf_kind t = Inr (info_kind info) \<and> btf_vlen t = Inr (info_vlen info) \<and> btf_kflag t = Inr (info_kflag info)"
  by (simp add: btf_kind_def btf_vlen_def btf_kflag_def info_kind_def info_vlen_def info_kflag_def)

text \<open>The bytes of a type after its \<open>info\<close> was overwritten and words were written behind them.\<close>

lemma grown_bytes:
  fixes ws :: "nat list"
  assumes len: "12 \<le> length old" and info: "info' < 2 ^ 32"
  defines "new \<equiv> put_bytes 4 (le_bytes 4 info') old @ type_words ws"
  shows "rd32 new 4 = Inr info'" "(k = 0 \<or> 8 \<le> k) \<Longrightarrow> k + 4 \<le> length old \<Longrightarrow> rd32 new k = rd32 old k"
    "i < length ws \<Longrightarrow> rd32 new (length old + 4 * i) = Inr (ws ! i mod 2 ^ 32)"
proof -
  let ?put = "put_bytes 4 (le_bytes 4 info') old"
  have put: "length ?put = length old" using len by simp
  have cut: "rd32 new k = rd32 ?put k" if "k + 4 \<le> length old" for k
    using rd32_agree [OF agree_append, of k ?put "type_words ws"] that put by (simp add: new_def)
  show "rd32 new 4 = Inr info'"
    using cut [of 4] len info word_at_put_same [of 4 old info'] rd32_word [of 4 ?put] put by simp
  show "rd32 new k = rd32 old k" if "k = 0 \<or> 8 \<le> k" "k + 4 \<le> length old"
    using cut [OF that(2)] word_at_put_other [of 4 old k info'] len that rd32_word [of k ?put] rd32_word [of k old] put by auto
  show "rd32 new (length old + 4 * i) = Inr (ws ! i mod 2 ^ 32)" if "i < length ws"
    using rd32_type_words [OF that, of ?put] put by (simp add: new_def)
qed

lemma elem_added_reads:
  assumes ok: "btf_ok btf" "btf_ok btf'" "btf \<noteq> []" and add: "elem_added btf btf' has_name name ws info (btf_type_info kind (vlen + 1) (sets \<or> kflag))"
    and info: "kind = info_kind info" "vlen = info_vlen info" "kflag = info_kflag info"
    and spec: "proper_kind kind" "kind \<noteq> BTF_KIND_UNKN" "vlen < 65535" "\<forall>w \<in> set ws. w < 2 ^ 32"
  shows "elem_reads btf btf' info has_name name ws sets"
proof -
  let ?i = "btf__type_cnt btf - 1" and ?info = "btf_type_info kind (vlen + 1) (sets \<or> kflag)"
  from add obtain off old where old: "bytes_of btf ?i = Inr old" "rd32 old 4 = Inr info" and off: "off < 2 ^ 32"
    "has_name \<longrightarrow> str_is btf' off name" and
    new: "bytes_of btf' ?i = Inr (put_bytes 4 (le_bytes 4 ?info) old @ type_words (if has_name then off # ws else ws))" and
    cnt: "btf__type_cnt btf' = btf__type_cnt btf"
    by (auto simp: elem_added_def Let_def)
  let ?ws = "if has_name then off # ws else ws"
  have i: "?i < btf__type_cnt btf"
    using cnt_pos [OF ok(1,3)] by simp
  from bytes_of_type [OF ok(1) old(1) i] obtain t where t: "btf__type_by_id btf ?i = Inr (Some t)" "type_bytes t = Inr old" by auto
  from bytes_of_type [OF ok(2) new] i cnt obtain t' where t': "btf__type_by_id btf' ?i = Inr (Some t')"
    "type_bytes t' = Inr (put_bytes 4 (le_bytes 4 ?info) old @ type_words ?ws)" by auto
  have parts: "info_kind ?info = kind" "info_vlen ?info = vlen + 1" "info_kflag ?info = (sets \<or> kflag)" "?info < 2 ^ 32"
    using type_info_parts [OF spec(1), of "vlen + 1" "sets \<or> kflag"] spec(3)
    by (simp_all add: info_kind_def info_vlen_def info_kflag_def)
  have k: "btf_type_size t = Inr (length old)" "12 \<le> length old" "tword t 4 = Inr info"
    using type_not_void [OF t(2) old(2)] spec(2) info(1) by simp_all
  note g = grown_bytes [OF k(2) parts(4), where ws = "?ws"]
  have k': "btf_type_size t' = Inr (length old + 4 * length ?ws)" "tword t' 4 = Inr ?info"
    using type_not_void [OF t'(2) g(1)] spec(2) parts(1) k(2) by simp_all
  let ?new = "put_bytes 4 (le_bytes 4 ?info) old @ type_words ?ws"
  have len: "length ?new = length old + 4 * length ?ws" using k(2) by simp
  have same: "tword t' j = tword t j" if "j = 0 \<or> 8 \<le> j" "j + 4 \<le> length old" for j
    using tword_bytes [OF t'(2), of j] tword_bytes [OF t(2), of j] g(2) [OF that] that(2) len by simp
  have words: "tword t' (length old + 4 * j) = Inr (?ws ! j)" if "j < length ?ws" for j
    using tword_bytes [OF t'(2), of "length old + 4 * j"] g(3) [OF that] that len spec(4) off(1)
    by (auto simp: nth_Cons split: nat.splits if_splits)
  have size: "btf_type_size t' = Inr (length old + 4 * (length ws + (if has_name then 1 else 0)))"
    using k'(1) by (cases has_name) auto
  have str: "has_name \<longrightarrow> (\<exists>off. tword t' (length old) = Inr off \<and> str_is btf' off name)"
    using words [of 0] off(2) by (cases has_name) auto
  have elems: "\<forall>i < length ws. tword t' (length old + 4 * (if has_name then i + 1 else i)) = Inr (ws ! i)"
  proof (intro allI impI)
    fix i assume "i < length ws"
    then show "tword t' (length old + 4 * (if has_name then i + 1 else i)) = Inr (ws ! i)"
      using words [of "if has_name then i + 1 else i"] by (cases has_name) auto
  qed
  have heads: "btf_kind t = Inr kind" "btf_vlen t = Inr vlen" "btf_kflag t = Inr kflag"
    "btf_kind t' = Inr kind" "btf_vlen t' = Inr (vlen + 1)" "btf_kflag t' = Inr (sets \<or> kflag)"
    using head_words [OF k(3)] head_words [OF k'(2)] parts info by simp_all
  have "\<forall>k. (k = 0 \<or> 8 \<le> k) \<and> k + 4 \<le> length old \<longrightarrow> tword t' k = tword t k" using same by blast
  note facts = t(1) t'(1) heads k(1) size str elems this
  show ?thesis unfolding elem_reads_def Let_def info [symmetric] by (intro exI conjI; rule facts)
qed

end
