(* ===== verification/Btf_New.thy ===== *)
theory Btf_New imports Btf_Calls Relo_Spec begin

text \<open>
  Type information that is built from an empty object: what holds after any sequence of calls, and what
  a single call adds.
\<close>

section \<open>Sequences of calls\<close>

lemma add_str_any:
  assumes obj: "obj_ok obj" and s: "0 \<notin> set s" and f: "btf__add_str mems obj s = Inr (obj', r)"
  shows "obj_ok obj' \<and> str_grown (layers obj) (layers obj') \<and> (\<forall>off. r = Inr off \<longrightarrow> str_is (layers obj') off s)"
proof -
  obtain m base where mb: "obj = m # base" using obj by (cases obj) (auto simp: obj_ok_def)
  have ok: "mod_wf m" "layer_ok (layers base) (mod_layer m)" "length base \<le> 1" using obj by (auto simp: obj_ok_def mb)
  have refl: "str_grown (layers obj) (layers obj)" using str_grown_refl obj by (simp add: obj_ok_def)
  from f obtain base' q where q: "(if base = [] then Inr (base, Inl ENOENT) else btf__find_str mems base s) = Inr (base', q)"
    "(if q \<noteq> Inl ENOENT then Inr (m # base', q) else add_own (mems (length base')) m base' s) = Inr (obj', r)"
    by (auto simp: btf__add_str_def mb bindr_eq_Inr split: if_splits)
  have base: "(\<forall>b \<in> set base'. mod_wf b) \<and> layers base' = layers base \<and> length base' = length base \<and>
      (base \<noteq> [] \<longrightarrow> (\<forall>off. q = Inr off \<longrightarrow> str_is (layers base) off s))"
  proof (cases "base = []")
    case False
    then have "obj_ok base" using obj by (auto simp: obj_ok_def mb)
    from find_str_ok [OF this s] q(1) False show ?thesis by (auto simp: obj_ok_def) (metis layers_def length_map)
  qed (use q in simp)
  have keep: "obj_ok (x # base')" if "mod_wf x" "mod_layer x = mod_layer m" for x
    by (rule obj_okI [OF _ _ obj]) (use that base in \<open>auto simp: mb\<close>)
  show ?thesis
  proof (cases "q \<noteq> Inl ENOENT")
    case True
    with q have r: "obj' = m # base'" "r = q" "base \<noteq> []" by (auto split: if_splits)
    have "length base = 1" using ok(3) r(3) by (cases base) auto
    then have "\<forall>off. r = Inr off \<longrightarrow> str_is (layers obj') off s"
      using str_is_base [of "mod_layer m" "layers base"] base r obj by (simp add: obj_ok_def layers_def mb)
    moreover have "obj_ok obj'" using keep [OF ok(1)] r(1) by simp
    ultimately show ?thesis using refl r(1) base by (simp add: mb)
  next
    case False
    let ?mem = "mems (length base')"
    have own: "add_own ?mem m base' s = Inr (obj', r)" using q(2) False by simp
    from ensure_modifiable_ok [OF ok(1) last_strs [OF ok(2)], of ?mem "base' \<noteq> []"] obtain m1 e where
      e: "btf_ensure_modifiable ?mem (base' \<noteq> []) m = Inr (m1, e)" "mod_wf m1" "mod_layer m1 = mod_layer m"
        "e = None \<longrightarrow> m_set m1 \<noteq> None" by blast
    have obj1: "obj_ok (m1 # base')" by (rule keep [OF e(2,3)])
    show ?thesis
    proof (cases e)
      case (Some x)
      with own e(1) have "obj' = m1 # base'" "r = Inl ENOMEM" by (auto simp: add_own_def)
      with obj1 refl e(3) base show ?thesis by (simp add: mb)
    next
      case None
      with e(4) have "btf_ensure_modifiable ?mem (base' \<noteq> []) m1 = Inr (m1, None)" by (simp add: btf_ensure_modifiable_def)
      with own e(1) None have own1: "add_own ?mem m1 base' s = Inr (obj', r)" by (simp add: add_own_def)
      have lay: "layer_ok (layers base') (mod_layer m1)" using ok(2) base e(3) by simp
      have "m_set m1 \<noteq> None" using None e(4) by simp
      from add_own_ok [OF e(2) lay s this own1] obtain m' ext where
        m': "obj' = m' # base'" "mod_wf m'" "mod_layer m' = (mod_layer m1)\<lparr>btf_strs := btf_strs (mod_layer m1) @ ext\<rparr>"
          "ext = [] \<or> last ext = 0" "\<forall>off. r = Inr off \<longrightarrow> str_is (layers obj') off s" by (elim exE conjE)
      have g: "str_grown (layers obj) (layers obj')"
        unfolding str_grown_def by (rule exI [of _ ext]) (use m' base e(3) in \<open>simp add: mb\<close>)
      have "hd (btf_strs (mod_layer m1) @ ext) = 0" if "base' = []"
        using obj1 lay that by (auto simp: obj_ok_def layer_ok_def hd_append)
      then have "obj_ok obj'" using obj1 m' layer_ok_grown [OF lay m'(4)] by (auto simp: obj_ok_def)
      with g m' show ?thesis by simp
    qed
  qed
qed

text \<open>
  A step of the program that builds an object.  The elements of a type are at most 65535, which the
  calls do not check (theorem \<open>vlen_overflow\<close>).
\<close>

fun elem_name :: "elem_call \<Rightarrow> u8 list option" where
  "elem_name (Add_Field name t bit_offset bit_size) = name"
| "elem_name (Add_Enum_Value name val) = name"
| "elem_name (Add_Enum64_Value name val) = name"
| "elem_name (Add_Func_Param name t) = name"
| "elem_name (Add_Datasec_Var_Info t off byte_sz) = None"

lemma elem_name_spec: "elem_spec c = (kinds, has_name, name, ws, sets) \<Longrightarrow> elem_name c = name"
  by (cases c) auto

inductive build_step :: "btf_obj \<Rightarrow> btf_obj \<Rightarrow> bool" where
  type_step: "name_ok (fst (type_spec c)) \<Longrightarrow> run_add mems obj c = Inr (obj', r) \<Longrightarrow> build_step obj obj'"
| elem_step: "name_ok (elem_name c) \<Longrightarrow> has_room obj \<Longrightarrow> run_elem mems obj c = Inr (obj', r) \<Longrightarrow> build_step obj obj'"
| add_step: "0 \<notin> set s \<Longrightarrow> btf__add_str mems obj s = Inr (obj', r) \<Longrightarrow> build_step obj obj'"
| find_step: "0 \<notin> set s \<Longrightarrow> btf__find_str mems obj s = Inr (obj', r) \<Longrightarrow> build_step obj obj'"

definition extends :: "btf \<Rightarrow> btf \<Rightarrow> bool" where
  "extends btf btf' \<longleftrightarrow> strs_kept btf btf' \<and> btf__type_cnt btf \<le> btf__type_cnt btf' \<and> types_kept (btf__type_cnt btf - 1) btf btf'"

lemma extends_trans: "extends a b \<Longrightarrow> extends b c \<Longrightarrow> extends a c"
  using strs_kept_trans [of a b c] by (auto simp: extends_def types_kept_def)

lemma build_step_ok: "build_step obj obj' \<Longrightarrow> obj_ok obj \<Longrightarrow> obj_ok obj' \<and> extends (layers obj) (layers obj')"
proof (induction rule: build_step.induct)
  case (type_step c mems obj obj' r)
  obtain name kind vlen kflag ws where spec: "type_spec c = (name, kind, vlen, kflag, ws)" by (cases "type_spec c")
  from run_add_ok [OF type_step(3) spec _ type_step(2)] type_step(1) spec show ?case
    by (cases r) (auto simp: extends_def type_added_def types_kept_def)
next
  case (elem_step c obj mems obj' r)
  obtain kinds has_name name ws sets where spec: "elem_spec c = (kinds, has_name, name, ws, sets)" by (cases "elem_spec c")
  from run_elem_ok [OF elem_step(4) spec _ elem_step(2,3)] elem_step(1) elem_name_spec [OF spec] show ?case
    by (cases r) (auto simp: extends_def elem_added_def Let_def types_kept_def)
next
  case (add_step s mems obj obj' r)
  from add_str_any [OF add_step(3,1,2)] str_grown_kept [of "layers obj" "layers obj'"] add_step(3) show ?case
    by (auto simp: extends_def obj_ok_def)
next
  case (find_step s mems obj obj' r)
  from find_str_ok [OF find_step(3,1,2)] show ?case by (auto simp: extends_def strs_kept_def types_kept_def)
qed

lemma new_empty_ok:
  assumes "btf_new_empty c r base = Inr obj" "base = [] \<or> obj_ok base \<and> length base = 1"
  shows "obj_ok obj"
proof -
  have obj: "obj = hd obj # base" "obj \<noteq> []" using assms(1) by (auto simp: btf_new_empty_def split: if_splits)
  show ?thesis
  proof (cases base)
    case Nil
    with assms(1) show ?thesis
      by (auto simp: btf_new_empty_def obj_ok_def mod_wf_def layer_ok_def mod_layer_def BTF_MAX_STR_OFFSET_def split: if_splits)
  next
    case (Cons b rest)
    with assms(2) have b: "base = [b]" "obj_ok [b]" by auto
    then have "mod_wf b" by (simp add: obj_ok_def)
    then have len: "length (btf_strs (mod_layer b)) = m_str_len b" "btf__type_cnt [mod_layer b] = m_start_id b + m_nr_types b"
      using layer_strs_length [of b] by (auto simp: btf__type_cnt_def mod_layer_def mod_wf_def)
    with assms(1) b show ?thesis
      by (auto simp: btf_new_empty_def obj_ok_def mod_wf_def layer_ok_def BTF_MAX_STR_OFFSET_def mod_layer_def split: if_splits)
  qed
qed

lemma run_elem_reads:
  assumes obj: "obj_ok obj" and spec: "elem_spec c = (kinds, has_name, name, ws, sets)" and name: "name_ok name"
    and room: "has_room obj" and r: "run_elem mems obj c = Inr (obj', Inr ())"
  shows "\<exists>info. last_info (layers obj) = Inr info \<and> info_kind info \<in> kinds \<and> elem_args_ok (info_kind info) c \<and>
    elem_reads (layers obj) (layers obj') info has_name (name_str name) ws sets"
proof -
  note a = run_elem_ok [OF obj spec name room r]
  then obtain info where i: "last_info (layers obj) = Inr info" "info_kind info \<in> kinds" "elem_args_ok (info_kind info) c"
    "elem_added (layers obj) (layers obj') has_name (name_str name) ws info
        (btf_type_info (info_kind info) (info_vlen info + 1) (sets \<or> info_kflag info))" by auto
  have ok: "btf_ok (layers obj)" "btf_ok (layers obj')" "layers obj \<noteq> []" using a obj by (simp_all add: obj_ok_def)
  have "info_kind info \<noteq> BTF_KIND_UNKN" using i(2) spec by (cases c) auto
  moreover have "info_vlen info < 65535" using room i(1) by (simp add: has_room_def)
  ultimately have "elem_reads (layers obj) (layers obj') info has_name (name_str name) ws sets"
    using elem_added_reads [OF ok i(4) refl refl refl] elem_spec_ok [OF i(3) spec i(2)] by blast
  with i show ?thesis by blast
qed

section \<open>Properties\<close>

text \<open>Objects and memory for the witnesses.\<close>

definition mem_there :: build_mems where
  "mem_there = (\<lambda>_. \<lparr>bm_hdr = True, bm_types = True, bm_set = True, bm_hash = True, bm_data = True,
     bm_index = (\<lambda>_. (True, True)), bm_find = True, bm_str = True, bm_str_hash = (True, True),
     bm_type_mem = True, bm_offs_mem = True, bm_map = (True, True)\<rparr>)"

definition new_mod :: btf_mod where
  "new_mod = \<lparr>m_types = [], m_types_cap = 0, m_type_len = 0, m_offs = [], m_offs_cap = 0, m_nr_types = 0,
     m_start_id = 1, m_start_str_off = 0, m_strs = [0], m_str_len = 1, m_set = None, m_deduped = False,
     m_swapped = False, m_ptr_size = 8\<rparr>"

lemma new_mod: "btf_new_empty True True [] = Inr [new_mod]" "obj_ok [new_mod]"
proof -
  show "btf_new_empty True True [] = Inr [new_mod]" by (simp add: btf_new_empty_def new_mod_def)
  from new_empty_ok [OF this] show "obj_ok [new_mod]" by simp
qed

lemmas append_eval = append_type_def append_elem_def prepare_def reserve_def btf_ensure_modifiable_def bindb_def mem_there_def
  btf_add_type_mem_def btf_commit_type_def btf_add_type_idx_entry_def btf_add_type_offs_mem_def libbpf_add_mem_def
  libbpf_reallocarray_def BTF_MAX_NR_TYPES_def BTF_MAX_STR_OFFSET_def write_words_def

definition struct_mod :: "btf_mod" where
  "struct_mod = new_mod\<lparr>m_types := [0, 0, 0, 0, 0, 0, 0, 4, 4, 0, 0, 0, 0, 0, 0, 0], m_types_cap := 16, m_type_len := 12,
     m_offs := replicate 16 0, m_offs_cap := 16, m_nr_types := 1, m_strs := [], m_set := Some sample_set, m_deduped := True\<rparr>"

lemma replicate_num: "replicate (numeral k) x = x # replicate (pred_numeral k) x"
  by (simp only: numeral_eq_Suc [of k] replicate_Suc)

lemma struct_added: "run_add mem_there [new_mod] (Add_Struct None 4) = Inr ([struct_mod], Inr 1)"
  by (simp add: btf__add_struct_def btf_add_composite_def append_eval new_mod_def struct_mod_def sample_new Let_def add_name_def;
      simp add: put_bytes_def replicate_num le_bytes_numeral btf_type_info_def)

lemma struct_ok: "obj_ok [struct_mod]"
  using run_add_ok [OF new_mod(2) type_spec.simps(5) _ struct_added] by (simp add: name_ok_def name_str_def)

definition field_mod :: "btf_mod" where
  "field_mod = struct_mod\<lparr>m_types := [0, 0, 0, 0, 1, 0, 0, 132, 4, 0, 0, 0, 0, 0, 0, 0, 0, 0, 0, 0, 3, 0, 0, 5], m_types_cap := 24, m_type_len := 24\<rparr>"

lemma field_added: "btf__add_field mem_there [struct_mod] None 0 3 5 = Inr ([field_mod], Inr ())"
  by (simp add: btf__add_field_def append_eval new_mod_def struct_mod_def sample_new Let_def add_name_def
     check_last_def btf_last_type_def type_off_def type_head_def btf_kind_def btf_vlen_def btf_kflag_def tword_def rd_def btf_kind_of_def btf_kinds_def
     validate_type_id_def set_info_def;
     simp add: put_bytes_def replicate_num le_bytes_numeral btf_type_info_def field_mod_def struct_mod_def new_mod_def)

text \<open>
  Property C18: adding a type leaves a well-formed object in which every string and every type is what it was; a
  call with arguments that are not allowed changes nothing.  The new type has the next number, and its name,
  kind, number of elements, flag and the words behind them are read back as the arguments say.
\<close>

theorem btf_add_type_exact:
  assumes "obj_ok obj" "name_ok (fst (type_spec c))" "run_add mems obj c = Inr (obj', r)"
  shows "obj_ok obj' \<and> strs_kept (layers obj) (layers obj') \<and> (\<not> type_args_ok c \<longrightarrow> obj' = obj \<and> r = Inl EINVAL) \<and>
    types_kept (btf__type_cnt (layers obj)) (layers obj) (layers obj') \<and> (case r of
      Inl e \<Rightarrow> btf__type_cnt (layers obj') = btf__type_cnt (layers obj)
    | Inr i \<Rightarrow> i = btf__type_cnt (layers obj) \<and> btf__type_cnt (layers obj') = i + 1 \<and>
        (case type_spec c of (name, kind, vlen, kflag, ws) \<Rightarrow> type_reads (layers obj') i (name_str name) kind vlen kflag ws))"
proof -
  obtain name kind vlen kflag ws where spec: "type_spec c = (name, kind, vlen, kflag, ws)" by (cases "type_spec c")
  have name: "name_ok name" using assms(2) spec by simp
  note a = run_add_ok [OF assms(1) spec name assms(3)]
  show ?thesis
  proof (cases r)
    case (Inl e)
    with a show ?thesis by simp
  next
    case (Inr i)
    with a have args: "type_args_ok c" by auto
    have "btf_ok (layers obj')" using a by (simp add: obj_ok_def)
    from a Inr have "type_added (layers obj) (layers obj') (name_str name) (btf_type_info kind vlen kflag # ws) i" by simp
    from added_reads [OF \<open>btf_ok (layers obj')\<close> this] type_spec_ok [OF args spec]
    have "type_reads (layers obj') i (name_str name) kind vlen kflag ws" by blast
    with a Inr args show ?thesis by (auto simp: type_added_def spec)
  qed
qed

theorem btf_add_type_exact_witness:
  "type_reads (layers [struct_mod]) 1 [] BTF_KIND_STRUCT 0 False [4] \<and> btf__type_cnt (layers [struct_mod]) = 2"
  using btf_add_type_exact [OF new_mod(2) _ struct_added]
  by (simp add: name_ok_def name_str_def new_mod_def struct_mod_def mod_layer_def btf__type_cnt_def)


lemma struct_info: "last_info [mod_layer struct_mod] = Inr 0x4000000"
  by (simp add: last_info_def struct_mod_def new_mod_def mod_layer_def rd_def)

lemma struct_room: "has_room [struct_mod]"
  by (simp add: has_room_def struct_info info_vlen_def)


text \<open>
  Property C20: a member that was added is read back by the accessors: its name, type, bit offset and, for a
  bit-field, its size.  The members before it keep their words.  A plain member at an offset of 16777216 bits
  or more must not be added to a type that has bit-fields: the code does not check this, and the
  accessors then read its offset as a size.
\<close>

theorem btf_add_field_roundtrip:
  assumes "obj_ok obj" "name_ok name" "has_room obj"
    and "btf__add_field mems obj name t bit_offset bit_size = Inr (obj', Inr ())"
    and "\<And>info. last_info (layers obj) = Inr info \<Longrightarrow> info_kflag info \<Longrightarrow> unat bit_offset < 2 ^ 24"
  shows "\<exists>p p' n. btf__type_by_id (layers obj) (btf__type_cnt (layers obj) - 1) = Inr (Some p) \<and>
    btf__type_by_id (layers obj') (btf__type_cnt (layers obj) - 1) = Inr (Some p') \<and>
    btf_vlen p = Inr n \<and> btf_vlen p' = Inr (n + 1) \<and>
    member_type p' n = Inr (nat t) \<and> btf_member_bit_offset p' n = Inr (unat bit_offset) \<and>
    btf_member_bitfield_size p' n = Inr (unat bit_size) \<and>
    (\<exists>off. member_name_off p' n = Inr off \<and> str_is (layers obj') off (name_str name)) \<and>
    (\<forall>i < n. member_name_off p' i = member_name_off p i \<and> member_type p' i = member_type p i \<and> member_offset p' i = member_offset p i)"
proof -
  let ?c = "Add_Field name t bit_offset bit_size" and ?i = "btf__type_cnt (layers obj) - 1"
  let ?v = "unat bit_offset + 2 ^ 24 * unat bit_size" and ?sets = "bit_size \<noteq> 0 \<or> unat bit_offset mod 8 \<noteq> 0"
  have "run_elem mems obj ?c = Inr (obj', Inr ())" using assms(4) by simp
  from run_elem_reads [OF assms(1) elem_spec.simps(1) assms(2,3) this] obtain info where
    i: "last_info (layers obj) = Inr info" "info_kind info \<in> {BTF_KIND_STRUCT, BTF_KIND_UNION}" "elem_args_ok (info_kind info) ?c"
    and reads: "elem_reads (layers obj) (layers obj') info True (name_str name) [nat t, ?v] ?sets" by blast
  from reads obtain p p' n where p: "btf__type_by_id (layers obj) ?i = Inr (Some p)"
    "btf__type_by_id (layers obj') ?i = Inr (Some p')" "btf_kind p = Inr (info_kind info)" "btf_vlen p = Inr (info_vlen info)"
    "btf_type_size p = Inr n" "btf_vlen p' = Inr (info_vlen info + 1)" "btf_kflag p' = Inr (?sets \<or> info_kflag info)"
    and same: "\<forall>k. (k = 0 \<or> 8 \<le> k) \<and> k + 4 \<le> n \<longrightarrow> tword p' k = tword p k"
    and name: "\<exists>off. tword p' n = Inr off \<and> str_is (layers obj') off (name_str name)"
    and words: "\<forall>j < 2. tword p' (n + 4 * (j + 1)) = Inr ([nat t, ?v] ! j)"
    unfolding elem_reads_def Let_def by auto
  have n: "n = 12 + info_vlen info * 12" using p(3-5) i(2) by (auto simp: btf_type_size_def)
  have w: "tword p' (n + 4) = Inr (nat t)" "tword p' (n + 8) = Inr ?v" using words [rule_format, of 0] words [rule_format, of 1] by simp_all
  have small: "unat bit_offset < 2 ^ 24" if "?sets \<or> info_kflag info"
    using that assms(5) [OF i(1)] i(3) by (auto simp: word_le_nat_alt)
  have "btf_member_bit_offset p' (info_vlen info) = Inr (unat bit_offset)"
    "btf_member_bitfield_size p' (info_vlen info) = Inr (unat bit_size)"
    using w(2) n p(7) small by (auto simp: btf_member_bit_offset_def btf_member_bitfield_size_def member_offset_def add.commute)
  moreover have "member_type p' (info_vlen info) = Inr (nat t)"
    "\<exists>off. member_name_off p' (info_vlen info) = Inr off \<and> str_is (layers obj') off (name_str name)"
    using w(1) name n by (simp_all add: member_type_def member_name_off_def add.commute)
  moreover have "\<forall>j < info_vlen info. member_name_off p' j = member_name_off p j \<and> member_type p' j = member_type p j \<and>
      member_offset p' j = member_offset p j"
    using same n by (simp add: member_name_off_def member_type_def member_offset_def)
  ultimately show ?thesis using p by blast
qed

theorem btf_add_field_roundtrip_witness:
  "\<exists>p. btf__type_by_id (layers [field_mod]) 1 = Inr (Some p) \<and> btf_member_bit_offset p 0 = Inr 3 \<and>
    btf_member_bitfield_size p 0 = Inr 5"
proof -
  have s: "btf__type_by_id (layers [struct_mod]) 1 = Inr (Some (Type_At [0, 0, 0, 0, 0, 0, 0, 4, 4, 0, 0, 0] 0))"
    "btf__type_cnt (layers [struct_mod]) = 2"
    by (simp_all add: btf__type_by_id_def btf__type_cnt_def struct_mod_def new_mod_def mod_layer_def arr_def)
  have v: "btf_vlen (Type_At [0, 0, 0, 0, 0, 0, 0, 4, 4, 0, 0, 0] 0) = Inr 0" by (simp add: btf_vlen_def tword_def rd_def)
  from btf_add_field_roundtrip [OF struct_ok _ struct_room field_added] s v show ?thesis
    by (auto simp: name_ok_def name_str_def)
qed

text \<open>
  Property C4: whatever sequence of calls builds an object from an empty one, the object is well-formed: every number
  below the count stands for a whole type, every layer satisfies what the queries need; and calls that follow keep
  every string and every type except that the last type may get elements.  (The calls add at most 65535 elements to
  a type.)
\<close>

theorem built_object_typed:
  assumes "btf_new_empty calloc_ok raw_ok base = Inr obj0" "base = [] \<or> obj_ok base \<and> length base = 1"
    and "build_step\<^sup>*\<^sup>* obj0 obj" "build_step\<^sup>*\<^sup>* obj obj'"
  shows "obj_ok obj \<and> btf_ok (layers obj) \<and>
    (\<forall>i < btf__type_cnt (layers obj). \<exists>t. btf__type_by_id (layers obj) i = Inr (Some t) \<and> tfits t) \<and>
    btf__type_cnt (layers obj) \<le> btf__type_cnt (layers obj') \<and>
    strs_kept (layers obj) (layers obj') \<and> types_kept (btf__type_cnt (layers obj) - 1) (layers obj) (layers obj')"
proof -
  have steps: "obj_ok b \<and> extends (layers a) (layers b)" if "build_step\<^sup>*\<^sup>* a b" "obj_ok a" for a b
    using that
  proof (induction rule: rtranclp_induct)
    case base
    then show ?case by (simp add: extends_def strs_kept_def types_kept_def)
  next
    case (step y z)
    then show ?case using build_step_ok [OF step(2)] extends_trans by blast
  qed
  have ok: "obj_ok obj" using steps [OF assms(3) new_empty_ok [OF assms(1,2)]] by blast
  then have "btf_ok (layers obj)" by (simp add: obj_ok_def)
  with btf__type_by_id_cases [OF this] steps [OF assms(4) ok] ok show ?thesis
    by (auto simp: extends_def) (metis not_less)
qed

theorem built_object_typed_witness:
  "build_step\<^sup>*\<^sup>* [new_mod] [field_mod] \<and> btf_ok (layers [field_mod]) \<and> obj_ok [field_mod]"
proof -
  have n: "name_ok None" by (simp add: name_ok_def name_str_def)
  have one: "build_step [new_mod] [struct_mod]" by (rule type_step [OF _ struct_added]) (simp add: n)
  have "run_elem mem_there [struct_mod] (Add_Field None 0 3 5) = Inr ([field_mod], Inr ())" using field_added by simp
  from elem_step [OF _ struct_room this] n have two: "build_step [struct_mod] [field_mod]" by simp
  from one two have "build_step\<^sup>*\<^sup>* [new_mod] [field_mod]" by (meson rtranclp.rtrancl_into_rtrancl rtranclp.rtrancl_refl)
  with built_object_typed [OF new_mod(1) _ this, of "[field_mod]"] show ?thesis by simp
qed

text \<open>
  The elements of a type are counted in 16 bits of \<open>info\<close>, and the calls do not check this: a type with
  65535 elements that gets one more has none.
\<close>

theorem vlen_overflow:
  assumes "obj_ok obj" "name_ok (elem_name c)" "run_elem mems obj c = Inr (obj', Inr ())"
    and "last_info (layers obj) = Inr info" "info_vlen info = 65535"
  shows "\<exists>info'. last_info (layers obj') = Inr info' \<and> info_vlen info' = 0"
proof -
  obtain kinds has_name name ws sets where spec: "elem_spec c = (kinds, has_name, name, ws, sets)" by (cases "elem_spec c")
  have name: "name_ok name" using assms(2) elem_name_spec [OF spec] by simp
  from run_elem_cases [OF assms(1) spec assms(3)] have acc: "elem_accepts obj c"
    and a: "append_elem mems obj has_name name ws (elem_upd c) = Inr (obj', Inr ())" by auto
  from acc have nr: "m_nr_types (hd obj) > 0" by (auto simp: elem_accepts_def last_kind_def)
  let ?info = "elem_upd c (btf_kind_of (info div 2 ^ 24 mod 32)) (info mod 2 ^ 16) (info div 2 ^ 31 \<noteq> 0)"
  from append_elem_ok [OF assms(1) nr name a] assms(4) obtain btf1 bytes where
    b: "str_grown (layers obj) btf1" "elem_appended btf1 ?info bytes (layers obj')" by auto
  have same: "btf_types (hd btf1) = btf_types (hd (layers obj))" "btf_type_offs (hd btf1) = btf_type_offs (hd (layers obj))"
    using b(1) by (auto simp: str_grown_def)
  have "last (btf_type_offs (hd btf1)) + 8 \<le> length (btf_types (hd btf1))"
    using assms(4) same by (auto simp: last_info_def rd_def split: if_splits)
  then have "last_info (layers obj') = Inr (?info mod 2 ^ 32)"
    using b(2) word_at_put_same [of "last (btf_type_offs (hd btf1)) + 4" "btf_types (hd btf1)" ?info]
    by (simp add: last_info_def elem_appended_def with_types_def rd_def word_at_def)
  moreover have parts: "btf_type_info k v f mod 2 ^ 16 = v mod 2 ^ 16" for k v f
  proof -
    have "btf_type_info k v f = v + 2 ^ 16 * ((if f then 2 ^ 15 else 0) + kind_num k * 2 ^ 8)" by (simp add: btf_type_info_def)
    then show ?thesis by (simp only: mod_mult_self2)
  qed
  moreover have "?info mod 2 ^ 16 = 0"
    using assms(5) parts by (cases c) (simp_all add: inc_vlen_def info_vlen_def)
  moreover have "(x mod 2 ^ 32) mod 2 ^ 16 = x mod 2 ^ 16" for x :: nat by (simp add: mod_mod_cancel)
  ultimately show ?thesis by (simp add: info_vlen_def)
qed

end
