(* ===== verification/Btf_Raw.thy ===== *)
theory Btf_Raw imports Btf_New begin

text \<open>
  Writing type information out as raw bytes, in either byte order, and reading it again
  (\<open>btf_get_raw_data\<close> and \<open>btf_new\<close> of \<open>bpf/libbpf/src/btf.c\<close>).

  The header is that of an object from \<open>btf_new_empty\<close>: it has 24 bytes, and no gaps lie between the sections.
  The raw bytes that the code keeps for the next call are not modelled.
\<close>

section \<open>Writing\<close>

text \<open>\<open>struct btf_header\<close>: magic number, version, flags, and the lengths and offsets.\<close>

definition btf_hdr_bytes :: "btf_mod \<Rightarrow> u8 list" where
  "btf_hdr_bytes m = le_bytes 2 BTF_MAGIC @ [1, 0] @ type_words [24, 0, m_type_len m, m_type_len m, m_str_len m]"

primrec bswap_types :: "nat list \<Rightarrow> u8 list \<Rightarrow> u8 list res" where
  "bswap_types [] types = Inr types"
| "bswap_types (off # offs) types =
     bindr (btf_bswap_type_rest types off) (\<lambda>types. bindr (btf_bswap_type_base types off) (bswap_types offs))"

definition btf_strs_data :: "btf_mod \<Rightarrow> u8 list" where
  "btf_strs_data m = (case m_set m of None \<Rightarrow> m_strs m | Some ss \<Rightarrow> strs_data ss)"

text \<open>The number of bytes is kept in 32 bits; when it wraps around, the copies overrun the block.\<close>

definition btf_get_raw_data :: "bool \<Rightarrow> btf_mod \<Rightarrow> bool \<Rightarrow> u8 list option res" where
  "btf_get_raw_data calloc_ok m swap_endian =
     (if \<not> calloc_ok then Inr None
      else if 24 + m_type_len m + m_str_len m \<ge> 2 ^ 32 then Inl UB
      else
        bindr (if swap_endian then btf_bswap_hdr (btf_hdr_bytes m) else Inr (btf_hdr_bytes m)) (\<lambda>hdr.
        let types = take (m_type_len m) (m_types m) in
        case (if swap_endian then bswap_types (take (m_nr_types m) (m_offs m)) types else Inr types) of
          Inl (Err e) \<Rightarrow> Inr None
        | Inl e \<Rightarrow> Inl e
        | Inr types \<Rightarrow> Inr (Some (hdr @ types @ take (m_str_len m) (btf_strs_data m)))))"

definition btf__raw_data :: "bool \<Rightarrow> btf_mod \<Rightarrow> u8 list res" where
  "btf__raw_data calloc_ok m =
     bindr (btf_get_raw_data calloc_ok m (m_swapped m)) (\<lambda>data.
       case data of None \<Rightarrow> Inl (Err ENOMEM) | Some data \<Rightarrow> Inr data)"

section \<open>The other byte order\<close>

text \<open>Every word reversed.\<close>

fun swap4 :: "u8 list \<Rightarrow> u8 list" where
  "swap4 (a # b # c # d # xs) = d # c # b # a # swap4 xs"
| "swap4 xs = xs"

lemma length_swap4 [simp]: "length (swap4 xs) = length xs"
  by (induction xs rule: swap4.induct) simp_all

lemma swap4_swap4 [simp]: "swap4 (swap4 xs) = xs"
  by (induction xs rule: swap4.induct) simp_all

lemma swap4_append: "length xs mod 4 = 0 \<Longrightarrow> swap4 (xs @ ys) = swap4 xs @ swap4 ys"
  by (induction xs rule: swap4.induct) (simp_all add: mod_Suc split: if_splits)

text \<open>The words from \<open>a\<close> to \<open>b\<close> reversed.\<close>

lemma bswap_words_middle:
  "length ys = 4 * n \<Longrightarrow> bswap_words n (length xs) (xs @ ys @ zs) = Inr (xs @ swap4 ys @ zs)"
proof (induction n arbitrary: xs ys)
  case (Suc n)
  then have "length ys = Suc (Suc (Suc (Suc (4 * n))))" by simp
  then obtain a b c d ys' where ys: "ys = a # b # c # d # ys'" "length ys' = 4 * n"
    by (auto simp: length_Suc_conv)
  have "bswap_at 4 (length xs) (xs @ ys @ zs) = (xs @ [d, c, b, a]) @ ys' @ zs"
    by (simp add: bswap_at_def put_bytes_def ys)
  moreover have "length (xs @ [d, c, b, a]) = length xs + 4" by simp
  ultimately show ?case using Suc.IH [OF ys(2), of "xs @ [d, c, b, a]"] by (simp only: bswap_words.simps) (simp add: ys)
qed simp

lemma size_words: "btf_type_size (Type_At bs p) = Inr n \<Longrightarrow> n mod 4 = 0"
  by (auto simp: btf_type_size_def bindr_eq_Inr split: option.splits)

text \<open>The bytes of a type: twelve, and the rest.\<close>

lemma type_parts:
  assumes "btf_type_size (Type_At (xs @ ys @ zs) (length xs)) = Inr (length ys)"
  shows "\<exists>a b kind vlen w. ys = a @ b \<and> length a = 12 \<and> length b = 4 * w \<and> btf_kind (Type_At (xs @ ys @ zs) (length xs)) = Inr kind \<and>
    btf_vlen (Type_At (xs @ ys @ zs) (length xs)) = Inr vlen \<and> rest_words kind vlen = Some w"
proof -
  from type_size_Inr [OF assms] obtain kind vlen w where k: "btf_kind (Type_At (xs @ ys @ zs) (length xs)) = Inr kind"
    "btf_vlen (Type_At (xs @ ys @ zs) (length xs)) = Inr vlen" "rest_words kind vlen = Some w" "length ys = 12 + 4 * w" by blast
  then show ?thesis by (intro exI [of _ "take 12 ys"] exI [of _ "drop 12 ys"]) auto
qed

lemma same_head:
  "take 12 ys' = take 12 ys \<Longrightarrow> 12 \<le> length ys \<Longrightarrow> 12 \<le> length ys' \<Longrightarrow>
    tword (Type_At (xs' @ ys') (length xs')) 4 = tword (Type_At (xs @ ys) (length xs)) 4"
  using agree_take_drop [of 12 ys ys' 4 4] by (simp add: tword_def rd_def agree_def)

lemma swap_type:
  assumes "btf_type_size (Type_At (xs @ ys @ zs) (length xs)) = Inr (length ys)"
  shows "bindr (btf_bswap_type_rest (xs @ ys @ zs) (length xs)) (\<lambda>t. btf_bswap_type_base t (length xs)) = Inr (xs @ swap4 ys @ zs)"
proof -
  from type_parts [OF assms] obtain a b kind vlen w where p: "ys = a @ b" "length a = 12" "length b = 4 * w"
    "btf_kind (Type_At (xs @ ys @ zs) (length xs)) = Inr kind" "btf_vlen (Type_At (xs @ ys @ zs) (length xs)) = Inr vlen"
    "rest_words kind vlen = Some w" by blast
  have "btf_bswap_type_rest (xs @ ys @ zs) (length xs) = Inr ((xs @ a) @ swap4 b @ zs)"
    using bswap_words_middle [OF p(3), of "xs @ a" zs] p by (simp add: btf_bswap_type_rest_def)
  moreover have "btf_bswap_type_base ((xs @ a) @ swap4 b @ zs) (length xs) = Inr (xs @ swap4 a @ swap4 b @ zs)"
    using bswap_words_middle [of a 3 xs "swap4 b @ zs"] p(2) by (simp add: btf_bswap_type_base_def)
  ultimately show ?thesis using swap4_append [of a b] p(1,2) by simp
qed

lemma unswap_type:
  assumes "btf_type_size (Type_At (xs @ ys @ zs) (length xs)) = Inr (length ys)"
  shows "\<exists>t. btf_bswap_type_base (xs @ swap4 ys @ zs') (length xs) = Inr t \<and> btf_type_size (Type_At t (length xs)) = Inr (length ys) \<and>
    length t = length xs + length ys + length zs' \<and> btf_bswap_type_rest t (length xs) = Inr (xs @ ys @ zs')"
proof -
  from type_parts [OF assms] obtain a b kind vlen w where p: "ys = a @ b" "length a = 12" "length b = 4 * w"
    "btf_kind (Type_At (xs @ ys @ zs) (length xs)) = Inr kind" "btf_vlen (Type_At (xs @ ys @ zs) (length xs)) = Inr vlen"
    "rest_words kind vlen = Some w" by blast
  let ?t = "xs @ a @ swap4 b @ zs'"
  have s: "swap4 ys = swap4 a @ swap4 b" using swap4_append [of a b] p(1,2) by simp
  have base: "btf_bswap_type_base (xs @ swap4 ys @ zs') (length xs) = Inr ?t"
    using bswap_words_middle [of "swap4 a" 3 xs "swap4 b @ zs'"] p(2) by (simp add: btf_bswap_type_base_def s)
  have "tword (Type_At ?t (length xs)) 4 = tword (Type_At (xs @ ys @ zs) (length xs)) 4"
    using same_head [of "a @ swap4 b @ zs'" "ys @ zs" xs xs] p(1,2) by simp
  from btf_kind_cong [OF this] p have k: "btf_kind (Type_At ?t (length xs)) = Inr kind" "btf_vlen (Type_At ?t (length xs)) = Inr vlen" by simp_all
  have "btf_bswap_type_rest ?t (length xs) = Inr (xs @ ys @ zs')"
    using bswap_words_middle [of "swap4 b" w "xs @ a" zs'] p k by (simp add: btf_bswap_type_rest_def)
  with base k p show ?thesis by (intro exI [of _ ?t]) (simp add: btf_type_size_def)
qed

text \<open>One type behind \<open>xs\<close>, cut out of a section.\<close>

lemma cut_type:
  assumes "btf_type_size (Type_At t p) = Inr n" "p + n \<le> length t" "length xs = p"
  defines "ys \<equiv> take n (drop p t)" and "zs \<equiv> drop (p + n) t"
  shows "drop p t = ys @ zs" "length ys = n" "length ys mod 4 = 0" "btf_type_size (Type_At (xs @ ys @ zs) (length xs)) = Inr (length ys)"
proof -
  show d: "drop p t = ys @ zs" by (simp add: ys_def zs_def add.commute flip: drop_drop)
  show l: "length ys = n" using assms(2) by (simp add: ys_def)
  show "length ys mod 4 = 0" using size_words [OF assms(1)] l by simp
  have "btf_type_size (Type_At (take p t @ drop p t) (length (take p t))) = Inr n" using assms(1,2) by simp
  then have "btf_type_size (Type_At (ys @ zs) 0) = Inr n" unfolding type_size_shift d .
  then show "btf_type_size (Type_At (xs @ ys @ zs) (length xs)) = Inr (length ys)" using l by (simp only: type_size_shift)
qed

lemma bswap_types_all:
  "tiles t p (length t) offs \<Longrightarrow> length xs = p \<Longrightarrow> bswap_types offs (xs @ drop p t) = Inr (xs @ swap4 (drop p t))"
proof (induction offs arbitrary: p xs)
  case (Cons q offs)
  then obtain n where n: "q = p" "btf_type_size (Type_At t p) = Inr n" "p + n \<le> length t" "tiles t (p + n) (length t) offs" by auto
  let ?ys = "take n (drop p t)" and ?zs = "drop (p + n) t"
  note c = cut_type [OF n(2,3) Cons.prems(2)]
  have "bindr (btf_bswap_type_rest (xs @ drop p t) p) (\<lambda>t. btf_bswap_type_base t p) = Inr (xs @ swap4 ?ys @ ?zs)"
    using swap_type [OF c(4)] c(1) Cons.prems(2) by simp
  then have "bswap_types (q # offs) (xs @ drop p t) = bswap_types offs ((xs @ swap4 ?ys) @ ?zs)"
    by (auto simp: n(1) bindr_eq_Inr)
  moreover have "bswap_types offs ((xs @ swap4 ?ys) @ ?zs) = Inr ((xs @ swap4 ?ys) @ swap4 ?zs)"
    by (rule Cons.IH [OF n(4)]) (use c(2) Cons.prems(2) in simp)
  moreover have "swap4 (drop p t) = swap4 ?ys @ swap4 ?zs" using swap4_append [OF c(3), of ?zs] by (simp only: c(1) [symmetric])
  ultimately show ?case by simp
qed simp

lemma parse_types_native:
  "tiles t p (length t) offs \<Longrightarrow> length t \<le> p + fuel \<Longrightarrow>
    parse_types_loop fuel (\<lambda>_. True) False t p acc = Inr (t, length t, acc @ offs)"
proof (induction offs arbitrary: p fuel acc)
  case Nil
  then show ?case by (cases fuel) auto
next
  case (Cons q offs)
  then obtain n where n: "q = p" "btf_type_size (Type_At t p) = Inr n" "p + n \<le> length t" "tiles t (p + n) (length t) offs" by auto
  have "12 \<le> n" using type_size_inside [OF n(2)] by simp
  with Cons.prems n obtain f where f: "fuel = Suc f" "length t \<le> p + n + f" by (cases fuel) auto
  from Cons.IH [OF n(4) f(2), of "acc @ [p]"] n \<open>12 \<le> n\<close> show ?case by (simp add: f(1))
qed

lemma parse_types_swapped:
  "tiles t p (length t) offs \<Longrightarrow> p \<le> length t \<Longrightarrow> length t \<le> p + fuel \<Longrightarrow>
    parse_types_loop fuel (\<lambda>_. True) True (take p t @ swap4 (drop p t)) p acc = Inr (t, length t, acc @ offs)"
proof (induction offs arbitrary: p fuel acc)
  case Nil
  then show ?case by (cases fuel) auto
next
  case (Cons q offs)
  then obtain n where n: "q = p" "btf_type_size (Type_At t p) = Inr n" "p + n \<le> length t" "tiles t (p + n) (length t) offs" by auto
  have "12 \<le> n" using type_size_inside [OF n(2)] by simp
  with Cons.prems n obtain f where f: "fuel = Suc f" "length t \<le> p + n + f" by (cases fuel) auto
  let ?xs = "take p t" and ?ys = "take n (drop p t)" and ?zs = "drop (p + n) t"
  have xs: "length ?xs = p" using n(3) by simp
  note c = cut_type [OF n(2,3) xs]
  have data: "?xs @ swap4 (drop p t) = ?xs @ swap4 ?ys @ swap4 ?zs" using swap4_append [OF c(3), of ?zs] by (simp only: c(1) [symmetric])
  from unswap_type [OF c(4), of "swap4 ?zs"] xs c(2) obtain t1 where
    t1: "btf_bswap_type_base (?xs @ swap4 ?ys @ swap4 ?zs) p = Inr t1" "btf_type_size (Type_At t1 p) = Inr n"
      "length t1 = length t" "btf_bswap_type_rest t1 p = Inr (?xs @ ?ys @ swap4 ?zs)" using n(3) by auto
  have "take (p + n) t = ?xs @ ?ys" by (simp add: take_add)
  then have "parse_types_loop f (\<lambda>_. True) True (?xs @ ?ys @ swap4 ?zs) (p + n) (acc @ [p]) = Inr (t, length t, acc @ q # offs)"
    using Cons.IH [OF n(4,3) f(2), of "acc @ [p]"] n(1) by simp
  with t1 n \<open>12 \<le> n\<close> show ?case unfolding data f(1) by simp
qed

lemma parse_type_sec_all:
  assumes "tiles t 0 (length t) offs"
  shows "btf_parse_type_sec (\<lambda>_. True) swapped (if swapped then swap4 t else t) = Inr (t, offs)"
  using parse_types_native [OF assms, of "length t" "[]"] parse_types_swapped [OF assms, of "length t" "[]"]
  by (simp add: btf_parse_type_sec_def)

section \<open>The header\<close>

definition hdr_words :: "btf_mod \<Rightarrow> u8 list" where
  "hdr_words m = type_words [24, 0, m_type_len m, m_type_len m, m_str_len m]"

lemma hdr_words_length [simp]: "length (hdr_words m) = 20"
  by (simp add: hdr_words_def)

lemma magic_bytes: "le_bytes 2 BTF_MAGIC = [0x9f, 0xeb]"
  by (simp add: BTF_MAGIC_def le_bytes_numeral)

lemma hdr_native: "btf_hdr_bytes m = [0x9f, 0xeb, 1, 0] @ hdr_words m"
  by (simp add: btf_hdr_bytes_def magic_bytes hdr_words_def)

lemma length_4: "length [a, b, c, d] = 4"
  by simp

lemma bswap_hdr: "length w = 20 \<Longrightarrow> btf_bswap_hdr ([a, b, c, d] @ w @ rest) = Inr ([b, a, c, d] @ swap4 w @ rest)"
proof -
  assume "length w = 20"
  then have "bswap_words 5 4 ([b, a, c, d] @ w @ rest) = Inr ([b, a, c, d] @ swap4 w @ rest)"
    using bswap_words_middle [of w 5 "[b, a, c, d]" rest] unfolding length_4 by simp
  then show ?thesis by (simp add: btf_bswap_hdr_def bswap_at_def put_bytes_def)
qed

lemma read_hdr_native:
  assumes "m_type_len m < 2 ^ 32" "m_str_len m < 2 ^ 32"
  shows "read_hdr (btf_hdr_bytes m @ rest) =
    Inr \<lparr>hdr_magic = BTF_MAGIC, hdr_len = 24, hdr_type_off = 0, hdr_type_len = m_type_len m,
      hdr_str_off = m_type_len m, hdr_str_len = m_str_len m\<rparr>"
proof -
  let ?ws = "[24, 0, m_type_len m, m_type_len m, m_str_len m]"
  have w: "rd32 (btf_hdr_bytes m @ rest) (4 + 4 * i) = Inr (?ws ! i)" if "i < 5" for i
  proof -
    have "rd32 (btf_hdr_bytes m @ rest) (4 + 4 * i) = rd32 (btf_hdr_bytes m) (4 + 4 * i)"
      using that by (intro rd32_agree [OF agree_append]) (simp add: hdr_native)
    also have "\<dots> = Inr (?ws ! i mod 2 ^ 32)"
      using rd32_type_words [of i ?ws "[0x9f, 0xeb, 1, 0]"] that unfolding hdr_native hdr_words_def length_4 by simp
    also have "?ws ! i mod 2 ^ 32 = ?ws ! i"
    proof -
      from that consider "i = 0" | "i = 1" | "i = 2" | "i = 3" | "i = 4" by linarith
      then show ?thesis by cases (use assms in simp_all)
    qed
    finally show ?thesis .
  qed
  have "rd16 (btf_hdr_bytes m @ rest) 0 = Inr BTF_MAGIC" by (simp add: hdr_native rd_def BTF_MAGIC_def)
  then show ?thesis
    using w [of 0] w [of 1] w [of 2] w [of 3] w [of 4] by (simp add: read_hdr_def)
qed

text \<open>The sections of a modifiable object follow the header without gaps.\<close>

lemma parse_raw_hdr:
  assumes "m_type_len m < 2 ^ 32" "m_str_len m < 2 ^ 32" "length rest = m_type_len m + m_str_len m"
  shows "btf_parse_hdr ((if swapped then [0xeb, 0x9f, 1, 0] @ swap4 (hdr_words m) else btf_hdr_bytes m) @ rest) =
    Inr (btf_hdr_bytes m @ rest, \<lparr>hdr_magic = BTF_MAGIC, hdr_len = 24, hdr_type_off = 0, hdr_type_len = m_type_len m,
      hdr_str_off = m_type_len m, hdr_str_len = m_str_len m\<rparr>, swapped)"
proof (cases swapped)
  case True
  let ?raw = "[0xeb, 0x9f, 1, 0] @ swap4 (hdr_words m) @ rest"
  obtain h0 where h0: "read_hdr ?raw = Inr h0" using read_hdr_safe [of ?raw] by auto
  then have "hdr_magic h0 = 0x9feb" by (auto simp: read_hdr_def bindr_eq_Inr rd_def)
  moreover have "btf_bswap_hdr ?raw = Inr (btf_hdr_bytes m @ rest)"
    using bswap_hdr [of "swap4 (hdr_words m)" "0xeb" "0x9f" 1 0 rest] by (simp add: hdr_native)
  ultimately show ?thesis
    using True h0 read_hdr_native [OF assms(1,2), of rest] assms(3) by (simp add: btf_parse_hdr_def Let_def)
next
  case False
  then show ?thesis using read_hdr_native [OF assms(1,2), of rest] assms(3)
    by (simp add: btf_parse_hdr_def Let_def BTF_MAGIC_def) (simp add: hdr_native)
qed

section \<open>Round trip\<close>

text \<open>The size of pointers plays no part in the checks.\<close>

lemma type_by_id_ptr: "btf_type_by_id (l\<lparr>btf_ptr_size := z\<rparr> # base) i = btf_type_by_id (l # base) i"
  by (simp add: btf_type_by_id.simps)

lemma str_by_offset_ptr: "btf__str_by_offset (l\<lparr>btf_ptr_size := z\<rparr> # base) off = btf__str_by_offset (l # base) off"
  by simp

lemma sanity_check_ptr: "btf_sanity_check (l\<lparr>btf_ptr_size := z\<rparr> # base) = btf_sanity_check (l # base)"
proof -
  have c: "btf__type_cnt (l\<lparr>btf_ptr_size := z\<rparr> # base) = btf__type_cnt (l # base)" by (simp add: btf__type_cnt_def)
  have i: "btf__type_by_id (l\<lparr>btf_ptr_size := z\<rparr> # base) = btf__type_by_id (l # base)"
    by (simp add: fun_eq_iff btf__type_by_id_def c type_by_id_ptr del: btf_type_by_id.simps)
  have v: "btf_validate_str (l\<lparr>btf_ptr_size := z\<rparr> # base) = btf_validate_str (l # base)"
    "btf_validate_id (l\<lparr>btf_ptr_size := z\<rparr> # base) = btf_validate_id (l # base)"
    by (simp_all add: fun_eq_iff btf_validate_str_def btf_validate_id_def i str_by_offset_ptr del: btf__str_by_offset.simps)
  have e: "check_name (l\<lparr>btf_ptr_size := z\<rparr> # base) = check_name (l # base)"
    "check_type (l\<lparr>btf_ptr_size := z\<rparr> # base) = check_type (l # base)"
    by (simp_all add: fun_eq_iff check_name_def check_type_def v)
  have "check_kind (l\<lparr>btf_ptr_size := z\<rparr> # base) = check_kind (l # base)"
    by (intro ext) (simp only: check_kind_def e v i)
  then have "btf_validate_type (l\<lparr>btf_ptr_size := z\<rparr> # base) = btf_validate_type (l # base)"
    by (simp add: fun_eq_iff btf_validate_type_def v)
  then show ?thesis by (simp add: btf_sanity_check_def c type_by_id_ptr del: btf_type_by_id.simps)
qed

lemma btf_new_parts:
  assumes "btf_parse_hdr data = Inr (raw, hdr, swapped)"
    and "take (hdr_str_len hdr) (drop (hdr_str_off hdr) (drop (hdr_len hdr) raw)) = strs"
    and "take (hdr_type_len hdr) (drop (hdr_type_off hdr) (drop (hdr_len hdr) raw)) = bytes"
    and "btf_parse_str_sec (base \<noteq> []) strs = Inr ()" "btf_parse_type_sec mem swapped bytes = Inr (types, offs)"
    and "\<lparr>btf_types = types, btf_type_offs = offs, btf_start_id = (if base = [] then 1 else btf__type_cnt base),
      btf_start_str_off = (case base of [] \<Rightarrow> 0 | b # _ \<Rightarrow> length (btf_strs b)), btf_strs = strs,
      btf_swapped_endian = swapped, btf_ptr_size = 0\<rparr> = l"
    and "btf_sanity_check (l # base) = Inr ()"
  shows "btf_new True True mem data base = Inr (l # base)"
  using assms by (simp add: btf_new_def Let_def)

text \<open>
  Property C5: the bytes that are written for a well-formed object whose references pass the check are parsed again,
  in either byte order, to the same types and strings, with the same index and the same byte order.
\<close>

theorem btf_raw_data_roundtrip:
  assumes obj: "obj_ok (m # base)" and size: "24 + m_type_len m + m_str_len m < 2 ^ 32"
    and sane: "btf_sanity_check (layers (m # base)) = Inr ()"
  shows "\<exists>raw. btf__raw_data True m = Inr raw \<and> length raw = 24 + m_type_len m + m_str_len m \<and>
    btf_new True True (\<lambda>_. True) raw (layers base) = Inr ((mod_layer m)\<lparr>btf_ptr_size := 0\<rparr> # layers base)"
proof -
  let ?l = "mod_layer m" and ?sw = "m_swapped m"
  have wf: "mod_wf m" and lok: "layer_ok (layers base) ?l" using obj by (auto simp: obj_ok_def)
  have tiles: "tiles (btf_types ?l) 0 (length (btf_types ?l)) (btf_type_offs ?l)" using lok by (simp add: layer_ok_def)
  have len: "length (btf_types ?l) = m_type_len m" "length (btf_strs ?l) = m_str_len m"
    using layer_types_length [OF wf] layer_strs_length [OF wf] by auto
  let ?hdr = "if ?sw then [0xeb, 0x9f, 1, 0] @ swap4 (hdr_words m) else btf_hdr_bytes m"
  let ?types = "if ?sw then swap4 (btf_types ?l) else btf_types ?l"
  have strs: "take (m_str_len m) (btf_strs_data m) = btf_strs ?l"
    using wf by (auto simp: btf_strs_data_def mod_layer_def mod_wf_def split: option.split)
  have types: "(if ?sw then bswap_types (take (m_nr_types m) (m_offs m)) (take (m_type_len m) (m_types m))
      else Inr (take (m_type_len m) (m_types m))) = Inr ?types"
    using bswap_types_all [OF tiles, of "[]"] by (simp add: mod_layer_def)
  have hdr: "(if ?sw then btf_bswap_hdr (btf_hdr_bytes m) else Inr (btf_hdr_bytes m)) = Inr ?hdr"
    using bswap_hdr [of "hdr_words m" "0x9f" "0xeb" 1 0 "[]"] by (simp add: hdr_native)
  have raw: "btf__raw_data True m = Inr (?hdr @ ?types @ btf_strs ?l)"
    using size unfolding btf__raw_data_def btf_get_raw_data_def Let_def hdr types strs by simp
  have lraw: "length (?types @ btf_strs ?l) = m_type_len m + m_str_len m" using len by simp
  have "length ?hdr = 24" by (simp add: hdr_native)
  from parse_raw_hdr [of m "?types @ btf_strs ?l" ?sw] lraw size have
    parse: "btf_parse_hdr (?hdr @ ?types @ btf_strs ?l) = Inr (btf_hdr_bytes m @ ?types @ btf_strs ?l, \<lparr>hdr_magic = BTF_MAGIC,
      hdr_len = 24, hdr_type_off = 0, hdr_type_len = m_type_len m, hdr_str_off = m_type_len m, hdr_str_len = m_str_len m\<rparr>, ?sw)" by simp
  have "m_str_len m = 0 \<longleftrightarrow> btf_strs ?l = []" using len(2) by auto
  then have str_sec: "btf_parse_str_sec (layers base \<noteq> []) (btf_strs ?l) = Inr ()"
    using lok wf len obj by (auto simp: btf_parse_str_sec_def Let_def layer_ok_def mod_wf_def obj_ok_def split: if_splits)
  have type_sec: "btf_parse_type_sec (\<lambda>_. True) ?sw ?types = Inr (btf_types ?l, btf_type_offs ?l)"
    by (rule parse_type_sec_all [OF tiles])
  have cut: "drop 24 (btf_hdr_bytes m @ ?types @ btf_strs ?l) = ?types @ btf_strs ?l"
    "drop (m_type_len m) (?types @ btf_strs ?l) = btf_strs ?l" "take (m_type_len m) (?types @ btf_strs ?l) = ?types"
    "take (m_str_len m) (btf_strs ?l) = btf_strs ?l"
    using len by (simp_all add: hdr_native)
  have lay: "\<lparr>btf_types = btf_types ?l, btf_type_offs = btf_type_offs ?l,
      btf_start_id = (if layers base = [] then 1 else btf__type_cnt (layers base)),
      btf_start_str_off = (case layers base of [] \<Rightarrow> 0 | b # _ \<Rightarrow> length (btf_strs b)),
      btf_strs = btf_strs ?l, btf_swapped_endian = ?sw, btf_ptr_size = 0\<rparr> = ?l\<lparr>btf_ptr_size := 0\<rparr>"
    using lok by (simp add: layer_ok_def mod_layer_def)
  have "btf_new True True (\<lambda>_. True) (?hdr @ ?types @ btf_strs ?l) (layers base) = Inr (?l\<lparr>btf_ptr_size := 0\<rparr> # layers base)"
    by (rule btf_new_parts [OF parse _ _ str_sec type_sec lay])
       (simp_all only: btf_header.simps cut drop_0 sanity_check_ptr sane [unfolded layers_simps])
  with raw \<open>length ?hdr = 24\<close> lraw show ?thesis by auto
qed

theorem btf_raw_data_roundtrip_witness:
  "\<exists>raw. btf__raw_data True (struct_mod\<lparr>m_swapped := True\<rparr>) = Inr raw \<and> length raw = 37 \<and>
    btf_new True True (\<lambda>_. True) raw [] = Inr [(mod_layer (struct_mod\<lparr>m_swapped := True\<rparr>))\<lparr>btf_ptr_size := 0\<rparr>]"
proof -
  let ?m = "struct_mod\<lparr>m_swapped := True\<rparr>"
  have "m_set struct_mod = Some sample_set" by (simp add: struct_mod_def)
  then have ok: "obj_ok [?m]" using struct_ok by (auto simp: obj_ok_def mod_wf_def layer_ok_def mod_layer_def)
  have lay: "mod_layer ?m = \<lparr>btf_types = [0, 0, 0, 0, 0, 0, 0, 4, 4, 0, 0, 0], btf_type_offs = [0], btf_start_id = 1,
      btf_start_str_off = 0, btf_strs = [0], btf_swapped_endian = True, btf_ptr_size = 8\<rparr>"
    by (simp add: mod_layer_def struct_mod_def new_mod_def sample_set_eq replicate_num)
  have "btf_sanity_check (layers [?m]) = Inr ()"
    by (simp add: lay btf_sanity_check_def btf__type_cnt_def arr_def btf_validate_type_def type_eval check_kind_def
        t_name_off_def btf_validate_str_def)
  from btf_raw_data_roundtrip [OF ok _ this] show ?thesis by (simp add: struct_mod_def new_mod_def)
qed

end
