(* ===== verification/Btf_Dump.thy ===== *)
theory Btf_Dump imports Relo_Spec Strset begin

text \<open>
  Dumping types as C declarations (\<open>bpf/libbpf/src/btf_dump.c\<close>), the first of its two passes: which
  definitions a type needs, and in which order.  The state of a dump object, its growth with the
  object of type information, the marking of the types that others refer to, and the search that puts
  definitions into the queue.

  The recursion of \<open>btf_dump_order_type\<close> has no bound in the code; here it has fuel, and \<open>Inl Hang\<close> is
  the result when the fuel is used up.
\<close>

section \<open>State\<close>

datatype btf_dump_type_order_state = NOT_ORDERED | ORDERING | ORDERED

datatype btf_dump_type_emit_state = NOT_EMITTED | EMITTING | EMITTED

record type_state =
  order_state :: btf_dump_type_order_state
  emit_state :: btf_dump_type_emit_state
  fwd_emitted :: bool
  name_resolved :: bool
  referenced :: bool

definition no_state :: type_state where
  "no_state = \<lparr>order_state = NOT_ORDERED, emit_state = NOT_EMITTED, fwd_emitted = False,
     name_resolved = False, referenced = False\<rparr>"

text \<open>
  A declaration that the dump prints at the top level: a forward declaration or a definition of a structure
  or a union, the definition of an enumeration, of a forward type, of a typedef.
\<close>

datatype decl = Struct_Fwd nat | Struct_Def nat | Enum_Def nat | Fwd_Def nat | Typedef_Def nat

text \<open>
  The blocks \<open>d_states\<close> and \<open>d_names\<close> have the length of their capacities.  The strings
  that the maps of names own are kept in \<open>d_store\<close>, and a pointer to one is its position there.
  Of the stack of declarations the fields are its size, how much is in use, and a number that changes
  whenever the block is allocated again, so that pointers into it can be told from dangling ones.
  \<open>d_text\<close> is what the callback \<open>printf_fn\<close> was given; \<open>d_decls\<close> is not a field of the code: it says
  which declarations the text is made of.
\<close>

record btf_dump =
  d_btf :: btf
  d_ptr_sz :: nat
  d_strip_mods :: bool
  d_skip_anon_defs :: bool
  d_last_id :: nat
  d_states :: "type_state list"
  d_states_cap :: nat
  d_names :: "u8 list option list"
  d_names_cap :: nat
  d_queue :: "nat list"
  d_queue_cap :: nat
  d_queue_cnt :: nat
  d_decl_cap :: nat
  d_decl_cnt :: nat
  d_decl_block :: nat
  d_store :: "u8 list list"
  d_type_names :: "u8 list list hashmap"
  d_ident_names :: "u8 list list hashmap"
  d_text :: "u8 list"
  d_decls :: "decl list"

text \<open>
  The outcomes of allocations: for the two blocks, for the queue and the stack by their capacities, and for the copies of
  names and the entries of the maps.
\<close>

record dump_mem =
  dm_states :: bool
  dm_names :: bool
  dm_queue :: "nat \<Rightarrow> bool"
  dm_decl :: "nat \<Rightarrow> bool"
  dm_dup :: "btf_dump \<Rightarrow> bool"
  dm_map :: "btf_dump \<Rightarrow> bool \<times> bool"

text \<open>As for construction, an operation leaves the object behind also when it returns an error.\<close>

type_synonym 'a dump = "(btf_dump \<times> (errno + 'a)) res"

definition bindd :: "'a dump \<Rightarrow> (btf_dump \<Rightarrow> 'a \<Rightarrow> 'b dump) \<Rightarrow> 'b dump" where
  "bindd m f = bindr m (\<lambda>(d, r). case r of Inl e \<Rightarrow> Inr (d, Inl e) | Inr x \<Rightarrow> f d x)"

section \<open>Types that others refer to\<close>

primrec mark_ids :: "nat res list \<Rightarrow> type_state list \<Rightarrow> type_state list res" where
  "mark_ids [] states = Inr states"
| "mark_ids (r # rs) states =
     bindr r (\<lambda>type_id.
     bindr (arr states type_id) (\<lambda>s. mark_ids rs (states[type_id := s\<lparr>referenced := True\<rparr>])))"

text \<open>An array names the type of its index at byte 16; a variable of a section has 12 bytes.\<close>

definition array_index_type :: "type_ptr \<Rightarrow> nat res" where "array_index_type t = tword t 16"
definition secinfo_type :: "type_ptr \<Rightarrow> nat \<Rightarrow> nat res" where "secinfo_type t i = tword t (12 + i * 12)"

definition mark_type :: "type_ptr \<Rightarrow> btf_kind \<Rightarrow> nat \<Rightarrow> type_state list \<Rightarrow> (type_state list \<times> errno option) res" where
  "mark_type t kind vlen states =
     (let mark = (\<lambda>rs. bindr (mark_ids rs states) (\<lambda>states. Inr (states, None))) in
      if kind \<in> List.set [BTF_KIND_INT, BTF_KIND_ENUM, BTF_KIND_ENUM64, BTF_KIND_FWD, BTF_KIND_FLOAT]
      then Inr (states, None)
      else if kind \<in> List.set [BTF_KIND_VOLATILE, BTF_KIND_CONST, BTF_KIND_RESTRICT, BTF_KIND_PTR,
          BTF_KIND_TYPEDEF, BTF_KIND_FUNC, BTF_KIND_VAR, BTF_KIND_DECL_TAG, BTF_KIND_TYPE_TAG]
      then mark [t_type t]
      else if kind = BTF_KIND_ARRAY then mark [array_index_type t, array_type t]
      else if kind = BTF_KIND_STRUCT \<or> kind = BTF_KIND_UNION then mark (map (member_type t) [0..<vlen])
      else if kind = BTF_KIND_FUNC_PROTO then mark (map (param_type t) [0..<vlen])
      else if kind = BTF_KIND_DATASEC then mark (map (secinfo_type t) [0..<vlen])
      else Inr (states, Some EINVAL))"

primrec mark_types :: "btf \<Rightarrow> nat list \<Rightarrow> type_state list \<Rightarrow> (type_state list \<times> errno option) res" where
  "mark_types btf [] states = Inr (states, None)"
| "mark_types btf (i # is) states =
     bindr (type_at btf i) (\<lambda>t.
     bindr (btf_vlen t) (\<lambda>vlen.
     bindr (btf_kind t) (\<lambda>kind.
     bindr (mark_type t kind vlen states) (\<lambda>(states, err).
       if err \<noteq> None then Inr (states, err) else mark_types btf is states))))"

definition btf_dump_mark_referenced :: "btf_dump \<Rightarrow> (btf_dump \<times> errno option) res" where
  "btf_dump_mark_referenced d =
     bindr (mark_types (d_btf d) [d_last_id d + 1..<btf__type_cnt (d_btf d)] (d_states d)) (\<lambda>(states, err).
       Inr (d\<lparr>d_states := states\<rparr>, err))"

section \<open>Creating and growing\<close>

text \<open>The number of types is at least one.\<close>

definition void_done :: "btf_dump \<Rightarrow> btf_dump res" where
  "void_done d =
     bindr (arr (d_states d) 0) (\<lambda>s.
       Inr (d\<lparr>d_states := (d_states d)[0 := s\<lparr>order_state := ORDERED, emit_state := EMITTED\<rparr>]\<rparr>))"

definition btf_dump_resize :: "dump_mem \<Rightarrow> btf_dump \<Rightarrow> (btf_dump \<times> errno option) res" where
  "btf_dump_resize mem d =
     (let last_id = btf__type_cnt (d_btf d) - 1 in
      if last_id \<le> d_last_id d then Inr (d, None)
      else case libbpf_ensure_mem (dm_states mem) no_state 4 (d_states d) (d_states_cap d) (last_id + 1) of
        Inl _ \<Rightarrow> Inr (d, Some ENOMEM)
      | Inr (states, n) \<Rightarrow>
          let d = d\<lparr>d_states := states, d_states_cap := n\<rparr> in
          (case libbpf_ensure_mem (dm_names mem) None 8 (d_names d) (d_names_cap d) (last_id + 1) of
             Inl _ \<Rightarrow> Inr (d, Some ENOMEM)
           | Inr (names, n) \<Rightarrow>
               let d = d\<lparr>d_names := names, d_names_cap := n\<rparr> in
               bindr (if d_last_id d = 0 then void_done d else Inr d) (\<lambda>d.
               bindr (btf_dump_mark_referenced d) (\<lambda>(d, err).
                 if err \<noteq> None then Inr (d, err) else Inr (d\<lparr>d_last_id := last_id\<rparr>, None)))))"

text \<open>The maps of names compare the strings that their keys point to.\<close>

definition dump_str :: "u8 list list \<Rightarrow> u64 \<Rightarrow> u8 list" where
  "dump_str store key = (if unat key < length store then store ! unat key else [])"

definition str_hash_fn :: "u64 \<Rightarrow> u8 list list \<Rightarrow> u64" where
  "str_hash_fn key store = str_hash (dump_str store key)"

definition str_equal_fn :: "u64 \<Rightarrow> u64 \<Rightarrow> u8 list list \<Rightarrow> bool" where
  "str_equal_fn a b store \<longleftrightarrow> dump_str store a = dump_str store b"

text \<open>
  \<open>btf_dump__new\<close>: whether the options are valid and the callback is given, the outcomes of the
  allocations.  Filling the cache of the pointer size is the only effect on the type information.
\<close>

definition btf_dump__new :: "bool \<Rightarrow> bool \<Rightarrow> bool \<Rightarrow> bool \<Rightarrow> bool \<Rightarrow> dump_mem \<Rightarrow> btf \<Rightarrow> btf_dump res" where
  "btf_dump__new opts_valid has_printf calloc_ok types_ok idents_ok mem btf =
     (if \<not> opts_valid then Inl (Err EINVAL)
      else if \<not> has_printf then Inl (Err EINVAL)
      else if \<not> calloc_ok then Inl (Err ENOMEM)
      else
        bindr (btf__pointer_size btf) (\<lambda>(ptr_sz, btf).
        case hashmap__new types_ok str_hash_fn str_equal_fn of
          Inl e \<Rightarrow> Inl (Err e)
        | Inr type_names \<Rightarrow>
            (case hashmap__new idents_ok str_hash_fn str_equal_fn of
               Inl e \<Rightarrow> Inl (Err e)
             | Inr ident_names \<Rightarrow>
                 bindr (btf_dump_resize mem
                   \<lparr>d_btf = btf, d_ptr_sz = (if ptr_sz = 0 then 8 else ptr_sz), d_strip_mods = False,
                    d_skip_anon_defs = False, d_last_id = 0, d_states = [], d_states_cap = 0, d_names = [],
                    d_names_cap = 0, d_queue = [], d_queue_cap = 0, d_queue_cnt = 0,
                    d_decl_cap = 0, d_decl_cnt = 0, d_decl_block = 0, d_store = [],
                    d_type_names = type_names, d_ident_names = ident_names, d_text = [], d_decls = []\<rparr>)
                   (\<lambda>(d, err). case err of Some e \<Rightarrow> Inl (Err e) | None \<Rightarrow> Inr d))))"

section \<open>The queue\<close>

text \<open>The capacity is an \<open>int\<close>.  What is behind the ids in use is not initialised.\<close>

definition btf_dump_add_emit_queue_id :: "(nat \<Rightarrow> bool) \<Rightarrow> btf_dump \<Rightarrow> nat \<Rightarrow> unit dump" where
  "btf_dump_add_emit_queue_id mem d type_id =
     bindd
       (if d_queue_cnt d \<ge> d_queue_cap d
        then if d_queue_cap d * 3 \<ge> 2 ^ 31 then Inl UB
             else let new_cap = max 16 (d_queue_cap d * 3 div 2) in
                  if \<not> libbpf_reallocarray (mem new_cap) new_cap 4 then Inr (d, Inl ENOMEM)
                  else Inr (d\<lparr>d_queue := d_queue d @ replicate (new_cap - d_queue_cap d) 0,
                              d_queue_cap := new_cap\<rparr>, Inr ())
        else Inr (d, Inr ()))
       (\<lambda>d _. Inr (d\<lparr>d_queue := (d_queue d)[d_queue_cnt d := type_id], d_queue_cnt := d_queue_cnt d + 1\<rparr>, Inr ()))"

definition queue :: "btf_dump \<Rightarrow> nat list" where
  "queue d = take (d_queue_cnt d) (d_queue d)"

section \<open>Ordering\<close>

definition btf_is_mod :: "btf_kind \<Rightarrow> bool" where
  "btf_is_mod kind \<longleftrightarrow> kind = BTF_KIND_VOLATILE \<or> kind = BTF_KIND_CONST \<or> kind = BTF_KIND_RESTRICT \<or> kind = BTF_KIND_TYPE_TAG"

definition set_order :: "nat \<Rightarrow> btf_dump_type_order_state \<Rightarrow> btf_dump \<Rightarrow> btf_dump" where
  "set_order type_id s d = d\<lparr>d_states := (d_states d)[type_id := (d_states d ! type_id)\<lparr>order_state := s\<rparr>]\<rparr>"

text \<open>
  The loops over members and parameters: \<open>ty i\<close> reads the type of the \<open>i\<close>-th one, \<open>rec\<close> is the
  recursive call.  They stop at the first error.  The result says whether any of the calls found a strong link;
  only the loop over the parameters uses it.
\<close>

primrec order_loop ::
  "(btf_dump \<Rightarrow> nat \<Rightarrow> bool dump) \<Rightarrow> (nat \<Rightarrow> nat res) \<Rightarrow> nat list \<Rightarrow> btf_dump \<Rightarrow> bool \<Rightarrow> bool dump" where
  "order_loop rec ty [] d strong = Inr (d, Inr strong)"
| "order_loop rec ty (i # is) d strong =
     bindr (ty i) (\<lambda>type_id.
     bindd (rec d type_id) (\<lambda>d s. order_loop rec ty is d (strong \<or> s)))"

definition order_kind ::
  "(btf_dump \<Rightarrow> nat \<Rightarrow> bool \<Rightarrow> bool dump) \<Rightarrow> (nat \<Rightarrow> bool) \<Rightarrow> btf_dump \<Rightarrow> nat \<Rightarrow> bool \<Rightarrow> type_ptr \<Rightarrow>
     btf_kind \<Rightarrow> bool dump" where
  "order_kind rec mem d type_id through_ptr t kind =
     (if kind = BTF_KIND_INT \<or> kind = BTF_KIND_FLOAT then Inr (set_order type_id ORDERED d, Inr False)
      else if kind = BTF_KIND_PTR
      then bindr (t_type t) (\<lambda>ref.
           bindr (rec d ref True) (\<lambda>(d, r). Inr (set_order type_id ORDERED d, r)))
      else if kind = BTF_KIND_ARRAY then bindr (array_type t) (\<lambda>ref. rec d ref False)
      else if btf_is_composite kind
      then bindr (t_name_off t) (\<lambda>name_off.
           if through_ptr \<and> name_off \<noteq> 0 then Inr (d, Inr False)
           else bindr (btf_vlen t) (\<lambda>vlen.
                bindd (order_loop (\<lambda>d ref. rec d ref False) (member_type t) [0..<vlen] (set_order type_id ORDERING d) False)
                  (\<lambda>d _.
                bindd (if name_off \<noteq> 0 then btf_dump_add_emit_queue_id mem d type_id else Inr (d, Inr ())) (\<lambda>d _.
                  Inr (set_order type_id ORDERED d, Inr True)))))
      else if kind = BTF_KIND_ENUM \<or> kind = BTF_KIND_ENUM64 \<or> kind = BTF_KIND_FWD
      then bindr (t_name_off t) (\<lambda>name_off.
           bindd (if name_off \<noteq> 0 \<or> \<not> referenced (d_states d ! type_id)
                  then btf_dump_add_emit_queue_id mem d type_id else Inr (d, Inr ())) (\<lambda>d _.
             Inr (set_order type_id ORDERED d, Inr True)))
      else if kind = BTF_KIND_TYPEDEF
      then bindr (t_type t) (\<lambda>ref.
           bindd (rec d ref through_ptr) (\<lambda>d is_strong.
           if through_ptr \<and> \<not> is_strong then Inr (d, Inr False)
           else bindd (btf_dump_add_emit_queue_id mem d type_id) (\<lambda>d _.
                  Inr (set_order type_id ORDERED d, Inr True))))
      else if btf_is_mod kind
      then bindr (t_type t) (\<lambda>ref. rec d ref through_ptr)
      else if kind = BTF_KIND_FUNC_PROTO
      then bindr (t_type t) (\<lambda>ref.
           bindd (rec d ref through_ptr) (\<lambda>d strong.
           bindr (btf_vlen t) (\<lambda>vlen.
             order_loop (\<lambda>d ref. rec d ref through_ptr) (param_type t) [0..<vlen] d strong)))
      else if kind = BTF_KIND_FUNC \<or> kind = BTF_KIND_VAR \<or> kind = BTF_KIND_DATASEC \<or> kind = BTF_KIND_DECL_TAG
      then Inr (set_order type_id ORDERED d, Inr False)
      else Inr (d, Inl EINVAL))"

primrec btf_dump_order_type :: "nat \<Rightarrow> (nat \<Rightarrow> bool) \<Rightarrow> btf_dump \<Rightarrow> nat \<Rightarrow> bool \<Rightarrow> bool dump" where
  "btf_dump_order_type 0 mem d type_id through_ptr = Inl Hang"
| "btf_dump_order_type (Suc fuel) mem d type_id through_ptr =
     bindr (arr (d_states d) type_id) (\<lambda>tstate.
     if order_state tstate = ORDERED then Inr (d, Inr True)
     else
       bindr (type_at (d_btf d) type_id) (\<lambda>t.
       bindr (btf_kind t) (\<lambda>kind.
         if order_state tstate = ORDERING
         then bindr (t_name_off t) (\<lambda>name_off.
                if btf_is_composite kind \<and> through_ptr \<and> name_off \<noteq> 0 then Inr (d, Inr False) else Inr (d, Inl ELOOP))
         else order_kind (btf_dump_order_type fuel mem) mem d type_id through_ptr t kind)))"

text \<open>What \<open>btf_dump__dump_type\<close> does before it emits anything.\<close>

definition dump_order :: "nat \<Rightarrow> dump_mem \<Rightarrow> btf_dump \<Rightarrow> nat \<Rightarrow> bool dump" where
  "dump_order fuel mem d type_id =
     (if type_id \<ge> btf__type_cnt (d_btf d) then Inr (d, Inl EINVAL)
      else
        bindr (btf_dump_resize mem d) (\<lambda>(d, err).
        case err of
          Some e \<Rightarrow> Inr (d, Inl e)
        | None \<Rightarrow> btf_dump_order_type fuel (dm_queue mem) (d\<lparr>d_queue_cnt := 0\<rparr>) type_id False))"

end
