(* ===== verification/Btf_Order.thy ===== *)
theory Btf_Order imports Btf_Dump begin

text \<open>
  The order of definitions that \<open>btf_dump_order_type\<close> finds: what C needs to be defined before a
  type can be used, and that the queue respects it.
\<close>

section \<open>What a use of a type needs\<close>

text \<open>
  \<open>needs btf refd ptr i k\<close>: a use of type \<open>i\<close>, behind a pointer or not, needs the
  definition of \<open>k\<close>.  A structure that is used by value needs its own definition and what its members need, behind
  a pointer only an anonymous one does, which is written out there.  The elements of an array
  are used by value.  A function is used as behind a pointer: its declaration needs no complete types.
\<close>

definition enum_kind :: "btf_kind \<Rightarrow> bool" where
  "enum_kind kind \<longleftrightarrow> kind = BTF_KIND_ENUM \<or> kind = BTF_KIND_ENUM64 \<or> kind = BTF_KIND_FWD"

inductive needs :: "btf \<Rightarrow> (nat \<Rightarrow> bool) \<Rightarrow> bool \<Rightarrow> nat \<Rightarrow> nat \<Rightarrow> bool" for btf refd where
  composite_self: "type_at btf i = Inr t \<Longrightarrow> btf_kind t = Inr kind \<Longrightarrow> btf_is_composite kind \<Longrightarrow> t_name_off t = Inr n \<Longrightarrow>
    n \<noteq> 0 \<Longrightarrow> needs btf refd False i i"
| enum_self: "type_at btf i = Inr t \<Longrightarrow> btf_kind t = Inr kind \<Longrightarrow> enum_kind kind \<Longrightarrow> t_name_off t = Inr n \<Longrightarrow>
    n \<noteq> 0 \<or> \<not> refd i \<Longrightarrow> needs btf refd ptr i i"
| typedef_self: "type_at btf i = Inr t \<Longrightarrow> btf_kind t = Inr BTF_KIND_TYPEDEF \<Longrightarrow> needs btf refd False i i"
| member: "type_at btf i = Inr t \<Longrightarrow> btf_kind t = Inr kind \<Longrightarrow> btf_is_composite kind \<Longrightarrow> t_name_off t = Inr n \<Longrightarrow>
    \<not> (ptr \<and> n \<noteq> 0) \<Longrightarrow> btf_vlen t = Inr vlen \<Longrightarrow> j < vlen \<Longrightarrow> member_type t j = Inr r \<Longrightarrow>
    needs btf refd False r k \<Longrightarrow> needs btf refd ptr i k"
| typedef_ref: "type_at btf i = Inr t \<Longrightarrow> btf_kind t = Inr BTF_KIND_TYPEDEF \<Longrightarrow> t_type t = Inr r \<Longrightarrow>
    needs btf refd ptr r k \<Longrightarrow> needs btf refd ptr i k"
| mod_ref: "type_at btf i = Inr t \<Longrightarrow> btf_kind t = Inr kind \<Longrightarrow> btf_is_mod kind \<Longrightarrow> t_type t = Inr r \<Longrightarrow>
    needs btf refd ptr r k \<Longrightarrow> needs btf refd ptr i k"
| ptr_ref: "type_at btf i = Inr t \<Longrightarrow> btf_kind t = Inr BTF_KIND_PTR \<Longrightarrow> t_type t = Inr r \<Longrightarrow>
    needs btf refd True r k \<Longrightarrow> needs btf refd ptr i k"
| array_ref: "type_at btf i = Inr t \<Longrightarrow> btf_kind t = Inr BTF_KIND_ARRAY \<Longrightarrow> array_type t = Inr r \<Longrightarrow>
    needs btf refd False r k \<Longrightarrow> needs btf refd ptr i k"
| proto_ret: "type_at btf i = Inr t \<Longrightarrow> btf_kind t = Inr BTF_KIND_FUNC_PROTO \<Longrightarrow> t_type t = Inr r \<Longrightarrow>
    needs btf refd True r k \<Longrightarrow> needs btf refd ptr i k"
| proto_param: "type_at btf i = Inr t \<Longrightarrow> btf_kind t = Inr BTF_KIND_FUNC_PROTO \<Longrightarrow> btf_vlen t = Inr vlen \<Longrightarrow> j < vlen \<Longrightarrow>
    param_type t j = Inr r \<Longrightarrow> needs btf refd True r k \<Longrightarrow> needs btf refd ptr i k"

inductive_cases needsE: "needs btf refd ptr i k"

lemma needs_weaken_aux: "needs btf refd ptr i k \<Longrightarrow> needs btf refd False i k"
  by (induction rule: needs.induct) (auto intro: needs.intros)

lemma needs_weaken: "needs btf refd True i k \<Longrightarrow> needs btf refd ptr i k"
  using needs_weaken_aux by (cases ptr) auto

text \<open>What the definition itself of a structure or typedef needs, before it is complete.\<close>

definition def_needs :: "btf \<Rightarrow> (nat \<Rightarrow> bool) \<Rightarrow> nat \<Rightarrow> nat \<Rightarrow> bool" where
  "def_needs btf refd i k \<longleftrightarrow>
     (\<exists>t kind. type_at btf i = Inr t \<and> btf_kind t = Inr kind \<and>
        (btf_is_composite kind \<and> (\<exists>vlen j r. btf_vlen t = Inr vlen \<and> j < vlen \<and> member_type t j = Inr r \<and> needs btf refd False r k) \<or>
         kind = BTF_KIND_TYPEDEF \<and> (\<exists>r. t_type t = Inr r \<and> needs btf refd False r k)))"

definition in_order :: "btf \<Rightarrow> (nat \<Rightarrow> bool) \<Rightarrow> nat list \<Rightarrow> bool" where
  "in_order btf refd xs \<longleftrightarrow> (\<forall>j < length xs. \<forall>k. def_needs btf refd (xs ! j) k \<longrightarrow> k \<in> set (take j xs))"

lemma in_order_Nil [simp]: "in_order btf refd []"
  by (simp add: in_order_def)

lemma in_order_snoc: "in_order btf refd (xs @ [x]) \<longleftrightarrow> in_order btf refd xs \<and> (\<forall>k. def_needs btf refd x k \<longrightarrow> k \<in> set xs)"
  by (auto simp: in_order_def less_Suc_eq nth_append)

section \<open>The queue\<close>

text \<open>What every step of the search keeps: everything but the states and the queue, and of the states all but the
  order; the queue only grows, and no type goes back to being not ordered.\<close>

definition queue_ok :: "btf_dump \<Rightarrow> bool" where
  "queue_ok d \<longleftrightarrow> length (d_queue d) = d_queue_cap d \<and> d_queue_cnt d \<le> d_queue_cap d"

definition same_type :: "type_state \<Rightarrow> type_state \<Rightarrow> bool" where
  "same_type s s' \<longleftrightarrow> s'\<lparr>order_state := ORDERED\<rparr> = s\<lparr>order_state := ORDERED\<rparr> \<and>
     (order_state s \<noteq> NOT_ORDERED \<longrightarrow> order_state s' \<noteq> NOT_ORDERED)"

definition rest_of :: "btf_dump \<Rightarrow> btf_dump" where
  "rest_of d = d\<lparr>d_states := [], d_queue := [], d_queue_cap := 0, d_queue_cnt := 0\<rparr>"

definition step_kept :: "btf_dump \<Rightarrow> btf_dump \<Rightarrow> bool" where
  "step_kept d d' \<longleftrightarrow> rest_of d' = rest_of d \<and> list_all2 same_type (d_states d) (d_states d') \<and>
     (\<exists>ext. queue d' = queue d @ ext) \<and> queue_ok d'"

lemma same_type_refl [simp]: "same_type s s"
  by (simp add: same_type_def)

lemma same_type_trans: "same_type a b \<Longrightarrow> same_type b c \<Longrightarrow> same_type a c"
  by (simp add: same_type_def)

lemma same_type_referenced: "same_type s s' \<Longrightarrow> referenced s' = referenced s"
proof -
  assume "same_type s s'"
  then have "referenced (s'\<lparr>order_state := ORDERED\<rparr>) = referenced (s\<lparr>order_state := ORDERED\<rparr>)" by (simp only: same_type_def)
  then show ?thesis by simp
qed

lemma step_kept_refl [simp]: "queue_ok d \<Longrightarrow> step_kept d d"
  by (simp add: step_kept_def list.rel_refl)

lemma step_kept_trans: "step_kept a b \<Longrightarrow> step_kept b c \<Longrightarrow> step_kept a c"
proof -
  assume a: "step_kept a b" "step_kept b c"
  then have "list_all2 same_type (d_states a) (d_states b)" "list_all2 same_type (d_states b) (d_states c)"
    by (simp_all add: step_kept_def)
  then have "list_all2 same_type (d_states a) (d_states c)"
    using same_type_trans unfolding list_all2_conv_all_nth by fastforce
  with a show ?thesis by (auto simp: step_kept_def)
qed

lemma step_kept_btf: "step_kept d d' \<Longrightarrow> d_btf d' = d_btf d"
proof -
  assume "step_kept d d'"
  then have "d_btf (rest_of d') = d_btf (rest_of d)" by (simp only: step_kept_def)
  then show ?thesis by (simp add: rest_of_def)
qed

lemma step_kept_state:
  assumes "step_kept d d'" "i < length (d_states d)"
  shows "i < length (d_states d')" "referenced (d_states d' ! i) = referenced (d_states d ! i)"
    "order_state (d_states d ! i) \<noteq> NOT_ORDERED \<Longrightarrow> order_state (d_states d' ! i) \<noteq> NOT_ORDERED"
proof -
  have all: "list_all2 same_type (d_states d) (d_states d')" using assms(1) by (simp add: step_kept_def)
  then show "i < length (d_states d')" using assms(2) by (simp add: list_all2_lengthD)
  from list_all2_nthD [OF all assms(2)] have s: "same_type (d_states d ! i) (d_states d' ! i)" .
  then show "referenced (d_states d' ! i) = referenced (d_states d ! i)" by (rule same_type_referenced)
  show "order_state (d_states d' ! i) \<noteq> NOT_ORDERED" if "order_state (d_states d ! i) \<noteq> NOT_ORDERED"
    using s that by (simp add: same_type_def)
qed

lemma step_kept_length: "step_kept d d' \<Longrightarrow> length (d_states d') = length (d_states d)"
  by (auto simp: step_kept_def dest: list_all2_lengthD)

lemma step_kept_set:
  assumes "queue_ok d" "s \<noteq> NOT_ORDERED"
  shows "step_kept d (set_order i s d)"
proof -
  have "list_all2 same_type (d_states d) (d_states (set_order i s d))"
    using assms(2) by (simp add: set_order_def list_all2_conv_all_nth nth_update_in same_type_def)
  with assms(1) show ?thesis by (simp add: step_kept_def set_order_def rest_of_def queue_def queue_ok_def)
qed

text \<open>Memory runs out before the capacity of the queue does not fit into an \<open>int\<close> any more.\<close>

definition mem_small :: "(nat \<Rightarrow> bool) \<Rightarrow> bool" where
  "mem_small mem \<longleftrightarrow> (\<forall>n. mem n \<longrightarrow> n * 3 < 2 ^ 31)"

definition cap_small :: "btf_dump \<Rightarrow> bool" where
  "cap_small d \<longleftrightarrow> d_queue_cap d * 3 < 2 ^ 31"

lemma add_queue:
  assumes "queue_ok d" "btf_dump_add_emit_queue_id mem d i = Inr (d', r)"
  shows "step_kept d d' \<and> d_states d' = d_states d \<and> (r = Inr () \<longrightarrow> queue d' = queue d @ [i])"
proof -
  have snoc: "take (Suc n) (xs[n := i]) = take n xs @ [i]" if "n < length xs" for n and xs :: "nat list"
    using that by (simp add: take_Suc_conv_app_nth)
  have put: ?thesis if d1: "step_kept d d1" "d_states d1 = d_states d" "queue d1 = queue d" "d_queue_cnt d1 < d_queue_cap d1"
    and d': "d' = d1\<lparr>d_queue := (d_queue d1)[d_queue_cnt d1 := i], d_queue_cnt := d_queue_cnt d1 + 1\<rparr>" for d1
  proof -
    have "d_queue_cnt d1 < length (d_queue d1)" using d1(1,4) by (simp add: step_kept_def queue_ok_def)
    then have "queue d' = queue d @ [i]" using d1(3) snoc by (simp add: queue_def d')
    moreover have "queue_ok d'" using d1(1,4) by (simp add: step_kept_def queue_ok_def d')
    moreover have "rest_of d' = rest_of d1" by (simp add: rest_of_def d')
    ultimately show ?thesis using d1(1,2) by (simp add: step_kept_def d')
  qed
  show ?thesis
  proof (cases "d_queue_cnt d \<ge> d_queue_cap d")
    case False
    with assms(2) have "d' = d\<lparr>d_queue := (d_queue d)[d_queue_cnt d := i], d_queue_cnt := d_queue_cnt d + 1\<rparr>"
      by (simp add: btf_dump_add_emit_queue_id_def bindd_def)
    with put [of d] assms(1) False show ?thesis by simp
  next
    case True
    define c where "c = max 16 (d_queue_cap d * 3 div 2)"
    define d1 where "d1 = d\<lparr>d_queue := d_queue d @ replicate (c - d_queue_cap d) 0, d_queue_cap := c\<rparr>"
    have cnt: "d_queue_cnt d = d_queue_cap d" "d_queue_cap d < c" using True assms(1) by (auto simp: queue_ok_def c_def)
    have d1: "step_kept d d1" "d_states d1 = d_states d" "queue d1 = queue d" "d_queue_cnt d1 < d_queue_cap d1"
      using cnt assms(1) by (simp_all add: d1_def step_kept_def rest_of_def list.rel_refl queue_def queue_ok_def)
    show ?thesis
    proof (cases "libbpf_reallocarray (mem c) c 4")
      case False
      with assms True show ?thesis
        by (auto simp: btf_dump_add_emit_queue_id_def bindd_def Let_def c_def split: if_splits)
    next
      case ok: True
      with assms(2) True have "d' = d1\<lparr>d_queue := (d_queue d1)[d_queue_cnt d1 := i], d_queue_cnt := d_queue_cnt d1 + 1\<rparr>"
        by (simp add: btf_dump_add_emit_queue_id_def bindd_def Let_def c_def [symmetric] d1_def split: if_splits)
      with put [OF d1] show ?thesis by simp
    qed
  qed
qed

lemma add_queue_safe:
  assumes "mem_small mem" "cap_small d"
  shows "\<exists>d' r. btf_dump_add_emit_queue_id mem d i = Inr (d', r) \<and> cap_small d'"
  using assms by (auto simp: btf_dump_add_emit_queue_id_def bindd_def cap_small_def mem_small_def libbpf_reallocarray_def Let_def)

section \<open>Every step keeps the rest of the state\<close>

definition rec_kept :: "(btf_dump \<Rightarrow> nat \<Rightarrow> bool \<Rightarrow> bool dump) \<Rightarrow> bool" where
  "rec_kept rec \<longleftrightarrow> (\<forall>d i p d' r. queue_ok d \<longrightarrow> rec d i p = Inr (d', r) \<longrightarrow> step_kept d d')"

lemma bindd_Inr [simp]: "bindd (Inr (d, Inr x)) f = f d x" "bindd (Inr (d, Inl e)) f = Inr (d, Inl e)" "bindd (Inl z) f = Inl z"
  by (simp_all add: bindd_def)

lemma bindd_eq_Inr:
  "bindd m f = Inr (d', r) \<longleftrightarrow> (\<exists>d e. m = Inr (d, Inl e) \<and> d' = d \<and> r = Inl e) \<or> (\<exists>d x. m = Inr (d, Inr x) \<and> f d x = Inr (d', r))"
  by (cases m) (auto split: sum.splits prod.splits simp: bindd_def)

lemma bindd_kept:
  assumes "bindd m f = Inr (d', r)" "\<And>d1 r1. m = Inr (d1, r1) \<Longrightarrow> step_kept d d1"
    and "\<And>d1 x. m = Inr (d1, Inr x) \<Longrightarrow> step_kept d d1 \<Longrightarrow> f d1 x = Inr (d', r) \<Longrightarrow> step_kept d d'"
  shows "step_kept d d'"
proof (cases m)
  case (Inl e)
  with assms(1) show ?thesis by simp
next
  case (Inr z)
  obtain d1 r1 where m: "m = Inr (d1, r1)" using Inr by (cases z) auto
  with assms(2) have k: "step_kept d d1" .
  show ?thesis
  proof (cases r1)
    case (Inl e)
    with k assms(1) m show ?thesis by simp
  next
    case (Inr x)
    with assms(1) m show ?thesis by (intro assms(3) [OF _ k]) simp_all
  qed
qed

lemma step_kept_ok: "step_kept d d' \<Longrightarrow> queue_ok d'"
  by (simp add: step_kept_def)

lemma loop_kept:
  assumes "rec_kept rec"
  shows "queue_ok d \<Longrightarrow> order_loop (\<lambda>d i. rec d i p) ty is d strong = Inr (d', r) \<Longrightarrow> step_kept d d'"
proof (induction "is" arbitrary: d strong)
  case (Cons j js)
  from Cons.prems(2) obtain x where x: "ty j = Inr x"
    "bindd (rec d x p) (\<lambda>d s. order_loop (\<lambda>d i. rec d i p) ty js d (strong \<or> s)) = Inr (d', r)"
    by (auto simp: bindr_eq_Inr)
  show ?case
  proof (rule bindd_kept [OF x(2)])
    show "step_kept d d1" if "rec d x p = Inr (d1, r1)" for d1 r1
      using that assms Cons.prems(1) unfolding rec_kept_def by blast
    show "step_kept d d'" if "step_kept d d1" "order_loop (\<lambda>d i. rec d i p) ty js d1 (strong \<or> s) = Inr (d', r)" for d1 s
      using step_kept_trans [OF that(1) Cons.IH [OF step_kept_ok [OF that(1)] that(2)]] .
  qed
qed simp

lemma set_order_after: "step_kept d d1 \<Longrightarrow> s \<noteq> NOT_ORDERED \<Longrightarrow> step_kept d (set_order i s d1)"
  using step_kept_trans step_kept_set step_kept_ok by blast

lemma queue_or_not:
  assumes "(if b then btf_dump_add_emit_queue_id mem d i else Inr (d, Inr ())) = Inr (d', r)" "queue_ok d"
  shows "step_kept d d' \<and> d_states d' = d_states d \<and> (r = Inr () \<longrightarrow> queue d' = queue d @ (if b then [i] else []))"
  using add_queue [OF assms(2), of mem i d' r] assms by (cases b) auto

lemma queue_then_order:
  assumes "bindd (if b then btf_dump_add_emit_queue_id mem d1 i else Inr (d1, Inr ())) (\<lambda>d _.
      Inr (set_order i ORDERED d, Inr True)) = Inr (d', r)" and k: "step_kept d d1"
  shows "step_kept d d'" and "r = Inr x \<Longrightarrow> x = True \<and> queue d' = queue d1 @ (if b then [i] else []) \<and>
    d_states d' = d_states (set_order i ORDERED d1)"
proof -
  from assms(1) obtain d2 r2 where q: "(if b then btf_dump_add_emit_queue_id mem d1 i else Inr (d1, Inr ())) = Inr (d2, r2)"
    "bindd (Inr (d2, r2)) (\<lambda>d _. Inr (set_order i ORDERED d, Inr True)) = Inr (d', r)"
    by (cases "if b then btf_dump_add_emit_queue_id mem d1 i else Inr (d1, Inr ())") auto
  note a = queue_or_not [OF q(1) step_kept_ok [OF k]]
  then have k2: "step_kept d d2" using step_kept_trans [OF k] by blast
  show "step_kept d d'" using q(2) k2 set_order_after [OF k2, of ORDERED i] by (cases r2) auto
  show "x = True \<and> queue d' = queue d1 @ (if b then [i] else []) \<and> d_states d' = d_states (set_order i ORDERED d1)"
    if "r = Inr x"
    using q(2) a that by (cases r2) (auto simp: queue_def set_order_def)
qed

text \<open>The cases of the switch.\<close>

lemma order_kind_cases:
  shows "kind = BTF_KIND_INT \<or> kind = BTF_KIND_FLOAT \<Longrightarrow> order_kind rec mem d i p t kind = Inr (set_order i ORDERED d, Inr False)"
    and "order_kind rec mem d i p t BTF_KIND_PTR =
      bindr (t_type t) (\<lambda>ref. bindr (rec d ref True) (\<lambda>(d, r). Inr (set_order i ORDERED d, r)))"
    and "order_kind rec mem d i p t BTF_KIND_ARRAY = bindr (array_type t) (\<lambda>ref. rec d ref False)"
    and "btf_is_composite kind \<Longrightarrow> order_kind rec mem d i p t kind =
      bindr (t_name_off t) (\<lambda>n. if p \<and> n \<noteq> 0 then Inr (d, Inr False)
        else bindr (btf_vlen t) (\<lambda>vlen.
             bindd (order_loop (\<lambda>d ref. rec d ref False) (member_type t) [0..<vlen] (set_order i ORDERING d) False) (\<lambda>d _.
             bindd (if n \<noteq> 0 then btf_dump_add_emit_queue_id mem d i else Inr (d, Inr ())) (\<lambda>d _.
               Inr (set_order i ORDERED d, Inr True)))))"
    and "enum_kind kind \<Longrightarrow> order_kind rec mem d i p t kind =
      bindr (t_name_off t) (\<lambda>n. bindd (if n \<noteq> 0 \<or> \<not> referenced (d_states d ! i)
          then btf_dump_add_emit_queue_id mem d i else Inr (d, Inr ())) (\<lambda>d _. Inr (set_order i ORDERED d, Inr True)))"
    and "order_kind rec mem d i p t BTF_KIND_TYPEDEF = bindr (t_type t) (\<lambda>ref. bindd (rec d ref p) (\<lambda>d strong.
        if p \<and> \<not> strong then Inr (d, Inr False)
        else bindd (if True then btf_dump_add_emit_queue_id mem d i else Inr (d, Inr ())) (\<lambda>d _. Inr (set_order i ORDERED d, Inr True))))"
    and "btf_is_mod kind \<Longrightarrow> order_kind rec mem d i p t kind = bindr (t_type t) (\<lambda>ref. rec d ref p)"
    and "order_kind rec mem d i p t BTF_KIND_FUNC_PROTO =
      bindr (t_type t) (\<lambda>ref. bindd (rec d ref p) (\<lambda>d strong. bindr (btf_vlen t) (\<lambda>vlen.
             order_loop (\<lambda>d ref. rec d ref p) (param_type t) [0..<vlen] d strong)))"
proof -
  show "btf_is_composite kind \<Longrightarrow> order_kind rec mem d i p t kind =
      bindr (t_name_off t) (\<lambda>n. if p \<and> n \<noteq> 0 then Inr (d, Inr False)
        else bindr (btf_vlen t) (\<lambda>vlen.
             bindd (order_loop (\<lambda>d ref. rec d ref False) (member_type t) [0..<vlen] (set_order i ORDERING d) False) (\<lambda>d _.
             bindd (if n \<noteq> 0 then btf_dump_add_emit_queue_id mem d i else Inr (d, Inr ())) (\<lambda>d _.
               Inr (set_order i ORDERED d, Inr True)))))"
    unfolding order_kind_def by (cases kind; simp add: btf_is_composite_def)
qed (simp_all only: order_kind_def btf_is_composite_def enum_kind_def btf_is_mod_def if_True, auto)

lemma order_kind_exhaust:
  obtains (leaf) "kind = BTF_KIND_INT \<or> kind = BTF_KIND_FLOAT" | (ptr) "kind = BTF_KIND_PTR" | (array) "kind = BTF_KIND_ARRAY"
    | (composite) "btf_is_composite kind" | (enum) "enum_kind kind" | (tdef) "kind = BTF_KIND_TYPEDEF" | (mods) "btf_is_mod kind"
    | (proto) "kind = BTF_KIND_FUNC_PROTO"
    | (skipped) "kind = BTF_KIND_FUNC \<or> kind = BTF_KIND_VAR \<or> kind = BTF_KIND_DATASEC \<or> kind = BTF_KIND_DECL_TAG"
    | (unknown) "kind = BTF_KIND_UNKN \<or> (\<exists>n. kind = BTF_KIND_OTHER n)"
  by (cases kind) (auto simp: btf_is_composite_def enum_kind_def btf_is_mod_def)

lemma order_kind_rest:
  "kind = BTF_KIND_FUNC \<or> kind = BTF_KIND_VAR \<or> kind = BTF_KIND_DATASEC \<or> kind = BTF_KIND_DECL_TAG \<Longrightarrow>
     order_kind rec mem d i p t kind = Inr (set_order i ORDERED d, Inr False)"
  "kind = BTF_KIND_UNKN \<or> (\<exists>n. kind = BTF_KIND_OTHER n) \<Longrightarrow> order_kind rec mem d i p t kind = Inr (d, Inl EINVAL)"
  by (auto simp: order_kind_def btf_is_composite_def btf_is_mod_def)

lemma kind_kept:
  assumes rec: "rec_kept rec" and d: "queue_ok d" and r: "order_kind rec mem d i p t kind = Inr (d', r)"
  shows "step_kept d d'"
proof -
  have call: "step_kept d d1" if "rec d x q = Inr (d1, r1)" for x q d1 r1 using rec d that unfolding rec_kept_def by blast
  show ?thesis
  proof (cases kind rule: order_kind_exhaust)
    case ptr
    with r obtain x d1 where "rec d x True = Inr (d1, r)" "d' = set_order i ORDERED d1"
      by (auto simp: order_kind_cases bindr_eq_Inr)
    with call set_order_after show ?thesis by blast
  next
    case composite
    from r [unfolded order_kind_cases(4) [OF composite] bindr_eq_Inr] obtain n :: nat where r2: "(if p \<and> n \<noteq> 0 then Inr (d, Inr False)
        else bindr (btf_vlen t) (\<lambda>vlen.
             bindd (order_loop (\<lambda>d ref. rec d ref False) (member_type t) [0..<vlen] (set_order i ORDERING d) False) (\<lambda>d _.
             bindd (if n \<noteq> 0 then btf_dump_add_emit_queue_id mem d i else Inr (d, Inr ())) (\<lambda>d _.
               Inr (set_order i ORDERED d, Inr True))))) = Inr (d', r)"
      by (elim exE conjE)
    show ?thesis
    proof (cases "p \<and> n \<noteq> 0")
      case True
      with r2 d show ?thesis by simp
    next
      case False
      have d0: "step_kept d (set_order i ORDERING d)" using d by (rule step_kept_set) simp
      from r2 [unfolded if_not_P [OF False] bindr_eq_Inr] obtain vlen where
        body: "bindd (order_loop (\<lambda>d ref. rec d ref False) (member_type t) [0..<vlen] (set_order i ORDERING d) False) (\<lambda>d _.
             bindd (if n \<noteq> 0 then btf_dump_add_emit_queue_id mem d i else Inr (d, Inr ())) (\<lambda>d _.
               Inr (set_order i ORDERED d, Inr True))) = Inr (d', r)" by (elim exE conjE)
      show ?thesis
      proof (rule bindd_kept [OF body])
        show "step_kept d d1"
          if "order_loop (\<lambda>d ref. rec d ref False) (member_type t) [0..<vlen] (set_order i ORDERING d) False = Inr (d1, r1)" for d1 r1
          using loop_kept [OF rec step_kept_ok [OF d0] that] step_kept_trans [OF d0] by blast
      qed (rule queue_then_order(1))
    qed
  next
    case enum
    from r [unfolded order_kind_cases(5) [OF enum] bindr_eq_Inr] obtain n :: nat where "bindd (if n \<noteq> 0 \<or> \<not> referenced (d_states d ! i)
          then btf_dump_add_emit_queue_id mem d i else Inr (d, Inr ())) (\<lambda>d _. Inr (set_order i ORDERED d, Inr True)) = Inr (d', r)"
      by (elim exE conjE)
    from queue_then_order(1) [OF this step_kept_refl [OF d]] show ?thesis .
  next
    case tdef
    from r [unfolded tdef order_kind_cases(6) bindr_eq_Inr] obtain x where
      q: "bindd (rec d x p) (\<lambda>d strong. if p \<and> \<not> strong then Inr (d, Inr False)
        else bindd (if True then btf_dump_add_emit_queue_id mem d i else Inr (d, Inr ())) (\<lambda>d _. Inr (set_order i ORDERED d, Inr True))) = Inr (d', r)"
      by (elim exE conjE)
    show ?thesis
    proof (rule bindd_kept [OF q])
      fix d1 strong
      assume d1: "step_kept d d1" and q1: "(if p \<and> \<not> strong then Inr (d1, Inr False)
           else bindd (if True then btf_dump_add_emit_queue_id mem d1 i else Inr (d1, Inr ())) (\<lambda>d _. Inr (set_order i ORDERED d, Inr True))) = Inr (d', r)"
      show "step_kept d d'"
      proof (cases "p \<and> \<not> strong")
        case False
        from queue_then_order(1) [OF q1 [unfolded if_not_P [OF False]] d1] show ?thesis .
      qed (use q1 d1 in auto)
    qed (rule call)
  next
    case mods
    from r [unfolded order_kind_cases(7) [OF mods] bindr_eq_Inr] call show ?thesis by blast
  next
    case proto
    from r [unfolded proto order_kind_cases(8) bindr_eq_Inr] obtain x where
      q: "bindd (rec d x p) (\<lambda>d strong. bindr (btf_vlen t) (\<lambda>vlen.
             order_loop (\<lambda>d ref. rec d ref p) (param_type t) [0..<vlen] d strong)) = Inr (d', r)" by (elim exE conjE)
    show ?thesis
    proof (rule bindd_kept [OF q])
      show "step_kept d d'" if "step_kept d d1" "bindr (btf_vlen t) (\<lambda>vlen.
             order_loop (\<lambda>d ref. rec d ref p) (param_type t) [0..<vlen] d1 strong) = Inr (d', r)" for d1 strong
        using that loop_kept [OF rec step_kept_ok [OF that(1)]] step_kept_trans [OF that(1)] unfolding bindr_eq_Inr by blast
    qed (rule call)
  qed (use r d call in \<open>auto simp: order_kind_cases order_kind_rest bindr_eq_Inr intro: step_kept_set\<close>)
qed

lemma order_kept: "rec_kept (btf_dump_order_type fuel mem)"
proof (induction fuel)
  case 0
  then show ?case by (simp add: rec_kept_def)
next
  case (Suc fuel)
  have "step_kept d d'" if "queue_ok d" "btf_dump_order_type (Suc fuel) mem d i p = Inr (d', r)" for d i p d' r
    using that kind_kept [OF Suc that(1)] by (auto simp: bindr_eq_Inr split: if_splits)
  then show ?case by (simp add: rec_kept_def)
qed

section \<open>The queue is in order\<close>

lemma needs_at:
  assumes "type_at btf i = Inr t" "btf_kind t = Inr kind" "needs btf refd p i k"
  shows "kind = BTF_KIND_PTR \<Longrightarrow> \<exists>x. t_type t = Inr x \<and> needs btf refd True x k"
    and "kind = BTF_KIND_ARRAY \<Longrightarrow> \<exists>x. array_type t = Inr x \<and> needs btf refd False x k"
    and "btf_is_composite kind \<Longrightarrow> \<exists>n. t_name_off t = Inr n \<and> \<not> (p \<and> n \<noteq> 0) \<and> (k = i \<and> n \<noteq> 0 \<or> def_needs btf refd i k)"
    and "enum_kind kind \<Longrightarrow> \<exists>n. t_name_off t = Inr n \<and> k = i \<and> (n \<noteq> 0 \<or> \<not> refd i)"
    and "kind = BTF_KIND_TYPEDEF \<Longrightarrow> \<not> p \<and> k = i \<or> (\<exists>x. t_type t = Inr x \<and> needs btf refd p x k)"
    and "btf_is_mod kind \<Longrightarrow> \<exists>x. t_type t = Inr x \<and> needs btf refd p x k"
    and "kind = BTF_KIND_FUNC_PROTO \<Longrightarrow> (\<exists>x. t_type t = Inr x \<and> needs btf refd True x k) \<or>
      (\<exists>vlen j x. btf_vlen t = Inr vlen \<and> j < vlen \<and> param_type t j = Inr x \<and> needs btf refd True x k)"
    and "\<not> (kind = BTF_KIND_PTR \<or> kind = BTF_KIND_ARRAY \<or> btf_is_composite kind \<or> enum_kind kind \<or> kind = BTF_KIND_TYPEDEF \<or>
      btf_is_mod kind \<or> kind = BTF_KIND_FUNC_PROTO) \<Longrightarrow> False"
proof -
  note kinds = btf_is_composite_def enum_kind_def btf_is_mod_def
  from assms(3) show "kind = BTF_KIND_PTR \<Longrightarrow> \<exists>x. t_type t = Inr x \<and> needs btf refd True x k"
    by cases (use assms(1,2) in \<open>simp_all add: kinds\<close>)
  from assms(3) show "kind = BTF_KIND_ARRAY \<Longrightarrow> \<exists>x. array_type t = Inr x \<and> needs btf refd False x k"
    by cases (use assms(1,2) in \<open>simp_all add: kinds\<close>)
  from assms(3) show "btf_is_composite kind \<Longrightarrow> \<exists>n. t_name_off t = Inr n \<and> \<not> (p \<and> n \<noteq> 0) \<and> (k = i \<and> n \<noteq> 0 \<or> def_needs btf refd i k)"
    by cases (use assms(1,2) in \<open>auto simp: kinds def_needs_def\<close>)
  from assms(3) show "enum_kind kind \<Longrightarrow> \<exists>n. t_name_off t = Inr n \<and> k = i \<and> (n \<noteq> 0 \<or> \<not> refd i)"
    by cases (use assms(1,2) in \<open>auto simp: kinds\<close>)
  from assms(3) show "kind = BTF_KIND_TYPEDEF \<Longrightarrow> \<not> p \<and> k = i \<or> (\<exists>x. t_type t = Inr x \<and> needs btf refd p x k)"
    by cases (use assms(1,2) in \<open>simp_all add: kinds\<close>)
  from assms(3) show "btf_is_mod kind \<Longrightarrow> \<exists>x. t_type t = Inr x \<and> needs btf refd p x k"
    by cases (use assms(1,2) in \<open>auto simp: kinds\<close>)
  from assms(3) show "kind = BTF_KIND_FUNC_PROTO \<Longrightarrow> (\<exists>x. t_type t = Inr x \<and> needs btf refd True x k) \<or>
      (\<exists>vlen j x. btf_vlen t = Inr vlen \<and> j < vlen \<and> param_type t j = Inr x \<and> needs btf refd True x k)"
    by cases (use assms(1,2) in \<open>auto simp: kinds\<close>)
  from assms(3) show "\<not> (kind = BTF_KIND_PTR \<or> kind = BTF_KIND_ARRAY \<or> btf_is_composite kind \<or> enum_kind kind \<or> kind = BTF_KIND_TYPEDEF \<or>
      btf_is_mod kind \<or> kind = BTF_KIND_FUNC_PROTO) \<Longrightarrow> False"
    by cases (use assms(1,2) in \<open>simp_all add: kinds\<close>)
qed

definition ordered_inv :: "(nat \<Rightarrow> bool) \<Rightarrow> nat list \<Rightarrow> btf_dump \<Rightarrow> bool" where
  "ordered_inv refd hist d \<longleftrightarrow> queue_ok d \<and> in_order (d_btf d) refd (hist @ queue d) \<and>
     (\<forall>x \<in> set (hist @ queue d). needs (d_btf d) refd False x x) \<and>
     (\<forall>i < length (d_states d). referenced (d_states d ! i) = refd i \<and>
        (order_state (d_states d ! i) = ORDERED \<longrightarrow> (\<forall>k. needs (d_btf d) refd False i k \<longrightarrow> k \<in> set (hist @ queue d))))"

definition met :: "(nat \<Rightarrow> bool) \<Rightarrow> nat list \<Rightarrow> btf_dump \<Rightarrow> bool \<Rightarrow> nat \<Rightarrow> bool" where
  "met refd hist d p i \<longleftrightarrow> (\<forall>k. needs (d_btf d) refd p i k \<longrightarrow> k \<in> set (hist @ queue d))"

lemma met_mono: "met refd hist d p i \<Longrightarrow> step_kept d d' \<Longrightarrow> met refd hist d' p i"
  using step_kept_btf [of d d'] by (fastforce simp: met_def step_kept_def)

lemma met_weaken: "met refd hist d False i \<Longrightarrow> met refd hist d p i" "met refd hist d p i \<Longrightarrow> met refd hist d True i"
  using needs_weaken by (cases p; auto simp: met_def)+

text \<open>Setting the order of a type whose needs are met, or one that is not ORDERED.\<close>

lemma ordered_inv_set:
  assumes "ordered_inv refd hist d" "s = ORDERED \<Longrightarrow> met refd hist d False i"
  shows "ordered_inv refd hist (set_order i s d)"
proof -
  let ?d = "set_order i s d"
  have same: "d_btf ?d = d_btf d" "queue ?d = queue d" "queue_ok ?d = queue_ok d" "length (d_states ?d) = length (d_states d)"
    by (simp_all add: set_order_def queue_def queue_ok_def)
  have "referenced (d_states ?d ! j) = referenced (d_states d ! j)" if "j < length (d_states d)" for j
    using that by (simp add: set_order_def nth_update_in)
  moreover have "order_state (d_states ?d ! j) = ORDERED \<Longrightarrow> j = i \<and> s = ORDERED \<or> order_state (d_states d ! j) = ORDERED"
    if "j < length (d_states d)" for j
    using that by (auto simp: set_order_def nth_update_in split: if_splits)
  ultimately show ?thesis
    using assms unfolding ordered_inv_def same met_def by metis
qed

text \<open>A definition goes to the end of the queue when what it needs is there.\<close>

lemma ordered_inv_queue:
  assumes "ordered_inv refd hist d" "step_kept d d'" "queue d' = queue d @ xs" "d_states d' = d_states d"
    and "xs = [] \<or> xs = [i] \<and> needs (d_btf d) refd False i i \<and> (\<forall>k. def_needs (d_btf d) refd i k \<longrightarrow> k \<in> set (hist @ queue d))"
  shows "ordered_inv refd hist d'"
proof -
  have "in_order (d_btf d) refd (hist @ queue d @ xs)"
    using assms(1,5) in_order_snoc [of "d_btf d" refd "hist @ queue d" i] by (auto simp: ordered_inv_def)
  then show ?thesis
    using assms step_kept_btf [OF assms(2)] step_kept_ok [OF assms(2)] by (auto simp: ordered_inv_def)
qed

definition rec_ordered :: "(nat \<Rightarrow> bool) \<Rightarrow> nat list \<Rightarrow> (btf_dump \<Rightarrow> nat \<Rightarrow> bool \<Rightarrow> bool dump) \<Rightarrow> bool" where
  "rec_ordered refd hist rec \<longleftrightarrow> rec_kept rec \<and> (\<forall>d i p d' r. ordered_inv refd hist d \<longrightarrow> rec d i p = Inr (d', Inr r) \<longrightarrow>
     ordered_inv refd hist d' \<and> met refd hist d' (p \<and> \<not> r) i)"

lemma rec_orderedD:
  assumes "rec_ordered refd hist rec" "ordered_inv refd hist d" "rec d i p = Inr (d', Inr r)"
  shows "step_kept d d'" "ordered_inv refd hist d'" "met refd hist d' (p \<and> \<not> r) i" "met refd hist d' p i"
proof -
  show "step_kept d d'" using assms unfolding rec_ordered_def rec_kept_def ordered_inv_def by blast
  show a: "ordered_inv refd hist d'" "met refd hist d' (p \<and> \<not> r) i" using assms unfolding rec_ordered_def by blast+
  from a(2) met_weaken show "met refd hist d' p i" by (cases p; cases r) auto
qed

lemma loop_ordered:
  assumes rec: "rec_ordered refd hist rec"
  shows "ordered_inv refd hist d \<Longrightarrow> order_loop (\<lambda>d i. rec d i p) ty js d strong = Inr (d', Inr r) \<Longrightarrow>
    step_kept d d' \<and> ordered_inv refd hist d' \<and> (\<forall>j \<in> set js. \<forall>x. ty j = Inr x \<longrightarrow> met refd hist d' p x)"
proof (induction js arbitrary: d strong)
  case Nil
  then show ?case by (auto simp: ordered_inv_def)
next
  case (Cons j js)
  from Cons.prems(2) obtain x d1 s where x: "ty j = Inr x" "rec d x p = Inr (d1, Inr s)"
    "order_loop (\<lambda>d i. rec d i p) ty js d1 (strong \<or> s) = Inr (d', Inr r)"
    by (auto simp: bindr_eq_Inr bindd_eq_Inr)
  note one = rec_orderedD [OF rec Cons.prems(1) x(2)]
  from Cons.IH [OF one(2) x(3)] one x(1) show ?case
    by (auto intro: step_kept_trans met_mono)
qed

text \<open>A successful case of the switch meets the needs of the type.\<close>

lemma metI: "(\<And>k. needs (d_btf d) refd p i k \<Longrightarrow> k \<in> set (hist @ queue d)) \<Longrightarrow> met refd hist d p i"
  by (simp add: met_def)

lemma kind_ordered:
  assumes rec: "rec_ordered refd hist rec" and inv: "ordered_inv refd hist d" and at: "type_at (d_btf d) i = Inr t" "btf_kind t = Inr kind"
    and i: "i < length (d_states d)" and r: "order_kind rec mem d i p t kind = Inr (d', Inr r)"
  shows "ordered_inv refd hist d' \<and> met refd hist d' (p \<and> \<not> r) i"
proof -
  have ok: "queue_ok d" using inv by (simp add: ordered_inv_def)
  have "rec_kept rec" using rec by (simp add: rec_ordered_def)
  from kind_kept [OF this ok r] have kept: "step_kept d d'" .
  have at': "type_at (d_btf d') i = Inr t" using at(1) step_kept_btf [OF kept] by simp
  note inversion = needs_at [OF at' at(2)]
  have settled: ?thesis if "ordered_inv refd hist (set_order i ORDERED d1)" "d' = set_order i ORDERED d1" "met refd hist d1 False i" for d1
    using that met_weaken(1) [of refd hist d1 i] by (simp add: met_def set_order_def queue_def)
  have leaf: ?thesis if "d' = set_order i ORDERED d"
    "\<not> (kind = BTF_KIND_PTR \<or> kind = BTF_KIND_ARRAY \<or> btf_is_composite kind \<or> enum_kind kind \<or> kind = BTF_KIND_TYPEDEF \<or>
        btf_is_mod kind \<or> kind = BTF_KIND_FUNC_PROTO)"
    using settled [OF ordered_inv_set [OF inv] that(1)] needs_at(8) [OF at _ that(2)] by (auto simp: met_def)
  show ?thesis
  proof (cases kind rule: order_kind_exhaust)
    case ptr
    with r obtain x d1 where x: "t_type t = Inr x" "rec d x True = Inr (d1, Inr r)" "d' = set_order i ORDERED d1"
      by (auto simp: order_kind_cases bindr_eq_Inr)
    note call = rec_orderedD [OF rec inv x(2)]
    have at1: "type_at (d_btf d1) i = Inr t" using at(1) step_kept_btf [OF call(1)] by simp
    have "met refd hist d1 False i"
      using needs_at(1) [OF at1 at(2) _ ptr] x(1) call(4) by (auto simp: met_def)
    with settled ordered_inv_set [OF call(2)] x(3) show ?thesis by blast
  next
    case array
    with r obtain x where x: "array_type t = Inr x" "rec d x False = Inr (d', Inr r)" by (auto simp: order_kind_cases bindr_eq_Inr)
    note call = rec_orderedD [OF rec inv x(2)]
    have "met refd hist d' (p \<and> \<not> r) i" by (rule metI) (use inversion(2) array x(1) call(4) in \<open>auto simp: met_def\<close>)
    with call(2) show ?thesis by blast
  next
    case composite
    from r [unfolded order_kind_cases(4) [OF composite] bindr_eq_Inr] obtain n :: nat where n: "t_name_off t = Inr n" and
      r2: "(if p \<and> n \<noteq> 0 then Inr (d, Inr False)
        else bindr (btf_vlen t) (\<lambda>vlen.
             bindd (order_loop (\<lambda>d ref. rec d ref False) (member_type t) [0..<vlen] (set_order i ORDERING d) False) (\<lambda>d _.
             bindd (if n \<noteq> 0 then btf_dump_add_emit_queue_id mem d i else Inr (d, Inr ())) (\<lambda>d _.
               Inr (set_order i ORDERED d, Inr True))))) = Inr (d', Inr r)" by (elim exE conjE)
    show ?thesis
    proof (cases "p \<and> n \<noteq> 0")
      case True
      then have "d' = d" "r = False" using r2 by simp_all
      moreover have "met refd hist d True i" by (rule metI) (use needs_at(3) [OF at _ composite] n True in auto)
      ultimately show ?thesis using inv True by simp
    next
      case False
      from r2 [unfolded if_not_P [OF False] bindr_eq_Inr bindd_eq_Inr] obtain vlen d1 s where vlen: "btf_vlen t = Inr vlen" and
        loop: "order_loop (\<lambda>d ref. rec d ref False) (member_type t) [0..<vlen] (set_order i ORDERING d) False = Inr (d1, Inr s)" and
        q: "bindd (if n \<noteq> 0 then btf_dump_add_emit_queue_id mem d1 i else Inr (d1, Inr ())) (\<lambda>d _.
               Inr (set_order i ORDERED d, Inr True)) = Inr (d', Inr r)"
        unfolding bindd_eq_Inr by auto
      have inv0: "ordered_inv refd hist (set_order i ORDERING d)" by (rule ordered_inv_set [OF inv]) simp
      note l = loop_ordered [OF rec inv0 loop]
      have d1: "step_kept d d1" using l step_kept_trans [OF step_kept_set [OF ok]] by blast
      from queue_then_order(2) [OF q d1] have d': "r = True" "queue d' = queue d1 @ (if n \<noteq> 0 then [i] else [])"
        "d_states d' = d_states (set_order i ORDERED d1)" by auto
      have at1: "type_at (d_btf d1) i = Inr t" using at(1) step_kept_btf [OF d1] by simp
      have members: "k \<in> set (hist @ queue d1)" if "def_needs (d_btf d1) refd i k" for k
      proof -
        from that obtain j x where x: "j < vlen" "member_type t j = Inr x" "needs (d_btf d1) refd False x k"
          using at1 at(2) composite vlen by (auto simp: def_needs_def btf_is_composite_def)
        then have "met refd hist d1 False x" using l by simp
        with x(3) show ?thesis by (simp add: met_def)
      qed
      from q obtain d2 where d2: "(if n \<noteq> 0 then btf_dump_add_emit_queue_id mem d1 i else Inr (d1, Inr ())) = Inr (d2, Inr ())"
        "d' = set_order i ORDERED d2" unfolding bindd_eq_Inr by auto
      note k2 = queue_or_not [OF d2(1) step_kept_ok [OF d1]]
      have inv2: "ordered_inv refd hist d2"
        by (rule ordered_inv_queue [OF _ k2 [THEN conjunct1], where xs = "if n \<noteq> 0 then [i] else []" and i = i])
           (use l k2 members composite_self [OF at1 at(2) composite n] in auto)
      have b2: "d_btf d2 = d_btf d1" using step_kept_btf k2 by blast
      have "met refd hist d2 False i"
      proof (rule metI)
        fix k assume "needs (d_btf d2) refd False i k"
        with needs_at(3) [OF at1 at(2) _ composite] b2 n have "k = i \<and> n \<noteq> 0 \<or> def_needs (d_btf d1) refd i k" by auto
        with members k2 show "k \<in> set (hist @ queue d2)" by auto
      qed
      with settled [OF ordered_inv_set [OF inv2] d2(2)] show ?thesis by blast
    qed
  next
    case enum
    from r [unfolded order_kind_cases(5) [OF enum] bindr_eq_Inr] obtain n :: nat where n: "t_name_off t = Inr n" and
      q: "bindd (if n \<noteq> 0 \<or> \<not> referenced (d_states d ! i)
          then btf_dump_add_emit_queue_id mem d i else Inr (d, Inr ())) (\<lambda>d _. Inr (set_order i ORDERED d, Inr True)) = Inr (d', Inr r)"
      by (elim exE conjE)
    let ?b = "n \<noteq> 0 \<or> \<not> referenced (d_states d ! i)"
    from q obtain d2 where d2: "(if ?b then btf_dump_add_emit_queue_id mem d i else Inr (d, Inr ())) = Inr (d2, Inr ())"
      "d' = set_order i ORDERED d2" unfolding bindd_eq_Inr by auto
    note k2 = queue_or_not [OF d2(1) ok]
    have refd: "referenced (d_states d ! i) = refd i" using inv i by (simp add: ordered_inv_def)
    have nodef: "\<not> def_needs (d_btf d) refd i k" for k using at enum by (auto simp: def_needs_def enum_kind_def btf_is_composite_def)
    have inv2: "ordered_inv refd hist d2"
      by (rule ordered_inv_queue [OF inv k2 [THEN conjunct1], where xs = "if ?b then [i] else []" and i = i])
        (use k2 nodef enum_self [OF at enum n, of refd False] refd in auto)
    have "met refd hist d2 False i"
      by (rule metI) (use needs_at(4) [OF at _ enum] step_kept_btf [of d d2] k2 n refd in auto)
    with settled [OF ordered_inv_set [OF inv2] d2(2)] show ?thesis by blast
  next
    case tdef
    from r [unfolded tdef order_kind_cases(6) bindr_eq_Inr bindd_eq_Inr] obtain x d1 strong where x: "t_type t = Inr x" "rec d x p = Inr (d1, Inr strong)" and
      q: "(if p \<and> \<not> strong then Inr (d1, Inr False)
        else bindd (if True then btf_dump_add_emit_queue_id mem d1 i else Inr (d1, Inr ())) (\<lambda>d _. Inr (set_order i ORDERED d, Inr True))) = Inr (d', Inr r)"
      unfolding bindd_eq_Inr by auto
    note call = rec_orderedD [OF rec inv x(2)]
    have at1: "type_at (d_btf d1) i = Inr t" using at(1) step_kept_btf [OF call(1)] by simp
    show ?thesis
    proof (cases "p \<and> \<not> strong")
      case True
      with q have d': "d' = d1" "r = False" by simp_all
      have "met refd hist d1 True i" by (rule metI) (use needs_at(5) [OF at1 at(2) _ tdef] x(1) call(4) True in \<open>auto simp: met_def\<close>)
      with d' call(2) True show ?thesis by simp
    next
      case False
      from q [unfolded if_not_P [OF False]] obtain d2 where
        d2: "(if True then btf_dump_add_emit_queue_id mem d1 i else Inr (d1, Inr ())) = Inr (d2, Inr ())" "d' = set_order i ORDERED d2"
        unfolding bindd_eq_Inr by auto
      note k2 = queue_or_not [OF d2(1) step_kept_ok [OF call(1)]]
      have target: "met refd hist d1 False x" using call(3) False by simp
      have needed: "k \<in> set (hist @ queue d1)" if "def_needs (d_btf d1) refd i k" for k
        using that at1 at(2) tdef x(1) target by (auto simp: def_needs_def btf_is_composite_def met_def)
      have inv2: "ordered_inv refd hist d2"
        by (rule ordered_inv_queue [OF call(2) k2 [THEN conjunct1], where xs = "[i]" and i = i])
          (use k2 needed typedef_self [OF at1, of refd] at(2) tdef in auto)
      have b2: "d_btf d2 = d_btf d1" using step_kept_btf k2 by blast
      have "met refd hist d2 False i"
        by (rule metI) (use needs_at(5) [OF at1 at(2) _ tdef] b2 k2 x(1) target in \<open>auto simp: met_def\<close>)
      with settled [OF ordered_inv_set [OF inv2] d2(2)] show ?thesis by blast
    qed
  next
    case mods
    from r [unfolded order_kind_cases(7) [OF mods]] obtain x where x: "t_type t = Inr x" "rec d x p = Inr (d', Inr r)"
      by (auto simp: bindr_eq_Inr)
    note call = rec_orderedD [OF rec inv x(2)]
    have "met refd hist d' (p \<and> \<not> r) i" by (rule metI) (use inversion(6) mods x(1) call(3) in \<open>auto simp: met_def\<close>)
    with call(2) show ?thesis by blast
  next
    case proto
    from r [unfolded proto order_kind_cases(8)] obtain x d1 s vlen where x: "t_type t = Inr x" "rec d x p = Inr (d1, Inr s)"
      "btf_vlen t = Inr vlen" "order_loop (\<lambda>d ref. rec d ref p) (param_type t) [0..<vlen] d1 s = Inr (d', Inr r)"
      by (auto simp: bindr_eq_Inr bindd_eq_Inr)
    note call = rec_orderedD [OF rec inv x(2)]
    note l = loop_ordered [OF rec call(2) x(4)]
    have ret: "met refd hist d' True x" using met_mono [OF met_weaken(2) [OF call(4)]] l by blast
    have params: "met refd hist d' True y" if "j < vlen" "param_type t j = Inr y" for j y
    proof -
      have "met refd hist d' p y" using l that by simp
      then show ?thesis by (rule met_weaken(2))
    qed
    have "met refd hist d' (p \<and> \<not> r) i"
      by (rule metI) (use inversion(7) [OF _ proto] x(1,3) ret params in \<open>fastforce simp: met_def\<close>)
    with l show ?thesis by blast
  qed (use r leaf in \<open>auto simp: order_kind_cases order_kind_rest btf_is_composite_def enum_kind_def btf_is_mod_def\<close>)
qed

lemma order_ordered: "rec_ordered refd hist (btf_dump_order_type fuel mem)"
proof (induction fuel)
  case 0
  then show ?case by (simp add: rec_ordered_def rec_kept_def)
next
  case (Suc fuel)
  have "ordered_inv refd hist d' \<and> met refd hist d' (p \<and> \<not> r) i"
    if inv: "ordered_inv refd hist d" and r: "btf_dump_order_type (Suc fuel) mem d i p = Inr (d', Inr r)" for d i p d' r
  proof -
    from r have i: "i < length (d_states d)" by (auto simp: arr_def bindr_eq_Inr split: if_splits)
    show ?thesis
    proof (cases "order_state (d_states d ! i) = ORDERED")
      case True
      with r i have "d' = d" "r = True" by auto
      with inv True i show ?thesis by (auto simp: ordered_inv_def met_def)
    next
      case False
      with r i obtain t kind where t: "type_at (d_btf d) i = Inr t" "btf_kind t = Inr kind"
        by (auto simp: bindr_eq_Inr)
      show ?thesis
      proof (cases "order_state (d_states d ! i) = ORDERING")
        case True
        with r i t obtain n where n: "t_name_off t = Inr n" "btf_is_composite kind" "p" "n \<noteq> 0" "d' = d" "r = False"
          by (auto simp: bindr_eq_Inr split: if_splits)
        have "met refd hist d True i" by (rule metI) (use needs_at(3) [OF t _ n(2)] n in auto)
        with n inv show ?thesis by simp
      next
        case ing: False
        with r i t False have "order_kind (btf_dump_order_type fuel mem) mem d i p t kind = Inr (d', Inr r)" by simp
        from kind_ordered [OF Suc inv t i this] show ?thesis .
      qed
    qed
  qed
  with order_kept [of "Suc fuel" mem] show ?case unfolding rec_ordered_def by blast
qed

end
