(* ===== verification/Btf_Ordered.thy ===== *)
theory Btf_Ordered imports Btf_Order begin

text \<open>
  The search of \<open>btf_dump_order_type\<close> returns, without undefined behaviour, when no type refers to itself but
  through a structure; growing a dump object is safe; the properties of the order.
\<close>

section \<open>The search returns\<close>

text \<open>The return type of a prototype is not checked when type information is parsed.\<close>

definition protos_ok :: "btf \<Rightarrow> bool" where
  "protos_ok btf \<longleftrightarrow> (\<forall>i t r. type_at btf i = Inr t \<longrightarrow> btf_kind t = Inr BTF_KIND_FUNC_PROTO \<longrightarrow> t_type t = Inr r \<longrightarrow>
     r < btf__type_cnt btf)"

text \<open>The references that the search follows from a type that is not a structure or a union.\<close>

definition plain_ref :: "btf \<Rightarrow> nat \<Rightarrow> nat \<Rightarrow> bool" where
  "plain_ref btf i r \<longleftrightarrow> (\<exists>t kind. type_at btf i = Inr t \<and> btf_kind t = Inr kind \<and>
     ((kind = BTF_KIND_PTR \<or> kind = BTF_KIND_TYPEDEF \<or> btf_is_mod kind \<or> kind = BTF_KIND_FUNC_PROTO) \<and> t_type t = Inr r \<or>
      kind = BTF_KIND_ARRAY \<and> array_type t = Inr r \<or>
      kind = BTF_KIND_FUNC_PROTO \<and> (\<exists>vlen j. btf_vlen t = Inr vlen \<and> j < vlen \<and> param_type t j = Inr r)))"

definition not_yet :: "btf_dump \<Rightarrow> nat set" where
  "not_yet d = {j. j < length (d_states d) \<and> order_state (d_states d ! j) = NOT_ORDERED \<and>
     (\<exists>t kind. type_at (d_btf d) j = Inr t \<and> btf_kind t = Inr kind \<and> btf_is_composite kind)}"

lemma finite_not_yet [simp]: "finite (not_yet d)"
  by (simp add: not_yet_def)

lemma not_yet_mono: "step_kept d d' \<Longrightarrow> card (not_yet d') \<le> card (not_yet d)"
proof (rule card_mono)
  assume k: "step_kept d d'"
  then show "not_yet d' \<subseteq> not_yet d"
    using step_kept_state(3) [OF k] step_kept_length [OF k] step_kept_btf [OF k] by (auto simp: not_yet_def)
qed simp

lemma not_yet_less:
  assumes "i \<in> not_yet d"
  shows "card (not_yet (set_order i ORDERING d)) < card (not_yet d)"
proof (rule psubset_card_mono)
  have "i \<notin> not_yet (set_order i ORDERING d)" by (auto simp: not_yet_def set_order_def)
  moreover have "not_yet (set_order i ORDERING d) \<subseteq> not_yet d"
    by (auto simp: not_yet_def set_order_def nth_update_in split: if_splits)
  ultimately show "not_yet (set_order i ORDERING d) \<subset> not_yet d" using assms by blast
qed simp

definition dump_ready :: "btf \<Rightarrow> btf_dump \<Rightarrow> bool" where
  "dump_ready btf d \<longleftrightarrow> queue_ok d \<and> cap_small d \<and> d_btf d = btf \<and> btf__type_cnt btf \<le> length (d_states d)"

lemma dump_ready_step: "dump_ready btf d \<Longrightarrow> step_kept d d' \<Longrightarrow> cap_small d' \<Longrightarrow> dump_ready btf d'"
  using step_kept_btf [of d d'] step_kept_length [of d d'] step_kept_ok [of d d'] by (simp add: dump_ready_def)

lemma dump_ready_set: "dump_ready btf d \<Longrightarrow> dump_ready btf (set_order i s d)"
  by (simp add: dump_ready_def set_order_def queue_ok_def cap_small_def)

text \<open>A recursive call with fuel for every type that is left returns.\<close>

definition rec_returns :: "btf \<Rightarrow> (nat \<Rightarrow> nat) \<Rightarrow> nat \<Rightarrow> nat \<Rightarrow> (btf_dump \<Rightarrow> nat \<Rightarrow> bool \<Rightarrow> bool dump) \<Rightarrow> bool" where
  "rec_returns btf rank R fuel rec \<longleftrightarrow> rec_kept rec \<and> (\<forall>d i p. dump_ready btf d \<longrightarrow> i < btf__type_cnt btf \<longrightarrow>
     card (not_yet d) * (R + 1) + rank i < fuel \<longrightarrow> (\<exists>d' r. rec d i p = Inr (d', r) \<and> dump_ready btf d'))"

lemma rec_returnsD:
  assumes "rec_returns btf rank R fuel rec" "dump_ready btf d" "i < btf__type_cnt btf" "card (not_yet d) * (R + 1) + rank i < fuel"
  obtains d' r where "rec d i p = Inr (d', r)" "dump_ready btf d'" "step_kept d d'" "card (not_yet d') \<le> card (not_yet d)"
proof -
  from assms obtain d' r where r: "rec d i p = Inr (d', r)" "dump_ready btf d'" unfolding rec_returns_def by blast
  have "step_kept d d'" using assms(1,2) r unfolding rec_returns_def rec_kept_def dump_ready_def by blast
  with that r not_yet_mono show ?thesis by blast
qed

lemma loop_returns:
  assumes rec: "rec_returns btf rank R fuel rec"
  shows "dump_ready btf d \<Longrightarrow> (\<And>j. j \<in> set js \<Longrightarrow> \<exists>x. ty j = Inr x \<and> x < btf__type_cnt btf \<and> c * (R + 1) + rank x < fuel) \<Longrightarrow>
    card (not_yet d) \<le> c \<Longrightarrow> \<exists>d' r. order_loop (\<lambda>d i. rec d i p) ty js d strong = Inr (d', r) \<and> dump_ready btf d'"
proof (induction js arbitrary: d strong)
  case (Cons j js)
  from Cons.prems(2) [of j] obtain x where x: "ty j = Inr x" "x < btf__type_cnt btf" "c * (R + 1) + rank x < fuel" by auto
  have "card (not_yet d) * (R + 1) \<le> c * (R + 1)" using Cons.prems(3) by (rule mult_le_mono1)
  with x(3) have "card (not_yet d) * (R + 1) + rank x < fuel" by simp
  from rec_returnsD [OF rec Cons.prems(1) x(2) this, of p] obtain d1 r1 where
    one: "rec d x p = Inr (d1, r1)" "dump_ready btf d1" "card (not_yet d1) \<le> card (not_yet d)" by metis
  have "\<exists>d' r. order_loop (\<lambda>d i. rec d i p) ty js d1 s = Inr (d', r) \<and> dump_ready btf d'" for s
    by (rule Cons.IH [OF one(2)]) (use Cons.prems one(3) in auto)
  with x(1) one(1,2) show ?case by (cases r1) auto
qed simp

text \<open>What the search reads of a type, and that it gives valid numbers.\<close>

lemma good_param:
  assumes "sane btf" "good_type btf i t BTF_KIND_FUNC_PROTO" "btf_vlen t = Inr n" "j < n"
  shows "\<exists>r. param_type t j = Inr r \<and> r < btf__type_cnt btf"
proof -
  have "check_kind btf t BTF_KIND_FUNC_PROTO = Inr ()" using assms(2) by (simp add: good_type_def)
  then have "check_type btf t 8 4 j = Inr ()"
    using assms(3,4) by (auto simp: check_kind_def check_all_Inr bindr_eq_Inr)
  then show ?thesis using ref_ok [OF assms(1)] by (auto simp: check_type_def bindr_eq_Inr param_type_def)
qed

lemma good_words:
  assumes "good_type btf i t kind"
  shows "\<exists>n. t_name_off t = Inr n" "\<exists>r. t_type t = Inr r" "\<exists>n. btf_vlen t = Inr n"
proof -
  have "tfits t" using assms by (simp add: good_type_def)
  from tfits_words [OF this] no_ub_tword show "\<exists>n. t_name_off t = Inr n" "\<exists>r. t_type t = Inr r" "\<exists>n. btf_vlen t = Inr n"
    unfolding t_name_off_def t_type_def by blast+
qed

lemma queue_or_not_returns:
  assumes "mem_small mem" "dump_ready btf d"
  shows "\<exists>d' r. bindd (if b then btf_dump_add_emit_queue_id mem d i else Inr (d, Inr ())) (\<lambda>d _.
      Inr (set_order i ORDERED d, Inr True)) = Inr (d', r) \<and> dump_ready btf d'"
proof -
  have d: "queue_ok d" "cap_small d" using assms(2) by (simp_all add: dump_ready_def)
  from add_queue_safe [OF assms(1) d(2), of i] obtain d' r where
    a: "btf_dump_add_emit_queue_id mem d i = Inr (d', r)" "cap_small d'" by blast
  from add_queue [OF d(1) a(1)] dump_ready_step [OF assms(2) _ a(2)] have "dump_ready btf d'" by blast
  with a(1) assms(2) dump_ready_set show ?thesis by (cases b; cases r) auto
qed

lemma kind_returns:
  assumes s: "sane btf" "protos_ok btf" and mem: "mem_small mem"
    and rank: "\<And>i r. plain_ref btf i r \<Longrightarrow> rank r < rank i" and R: "\<And>j. j < btf__type_cnt btf \<Longrightarrow> rank j \<le> R"
    and rec: "rec_returns btf rank R fuel rec" and d: "dump_ready btf d" and g: "good_type btf i t kind"
    and i: "order_state (d_states d ! i) = NOT_ORDERED" and fuel: "card (not_yet d) * (R + 1) + rank i < Suc fuel"
  shows "\<exists>d' r. order_kind rec mem d i p t kind = Inr (d', r) \<and> dump_ready btf d'"
proof -
  have at: "type_at btf i = Inr t" "btf_kind t = Inr kind" "i < btf__type_cnt btf" using g by (simp_all add: good_type_def)
  obtain n r0 vlen where w: "t_name_off t = Inr n" "t_type t = Inr r0" "btf_vlen t = Inr vlen" using good_words [OF g] by blast
  have ref: "\<exists>d' x. rec d r q = Inr (d', x) \<and> dump_ready btf d' \<and> card (not_yet d') \<le> card (not_yet d)"
    if "plain_ref btf i r" "r < btf__type_cnt btf" for r q
  proof -
    have "card (not_yet d) * (R + 1) + rank r < fuel" using rank [OF that(1)] fuel by simp
    from rec_returnsD [OF rec d that(2) this, of q] show ?thesis by metis
  qed
  show ?thesis
  proof (cases kind rule: order_kind_exhaust)
    case ptr
    with good_ref [OF s(1) g] w have "r0 < btf__type_cnt btf" "plain_ref btf i r0" using at by (auto simp: plain_ref_def)
    from ref [OF this(2,1), of True] obtain d1 x where "rec d r0 True = Inr (d1, x)" "dump_ready btf d1" by blast
    with w dump_ready_set show ?thesis by (simp add: ptr order_kind_cases)
  next
    case array
    with good_array [OF s(1)] g obtain r where "array_type t = Inr r" "r < btf__type_cnt btf" by blast
    moreover have "plain_ref btf i r" using calculation at array by (auto simp: plain_ref_def)
    ultimately show ?thesis using ref [of r False] by (auto simp: array order_kind_cases)
  next
    case composite
    show ?thesis
    proof (cases "p \<and> n \<noteq> 0")
      case True
      with d composite w show ?thesis by (simp add: order_kind_cases)
    next
      case False
      let ?d = "set_order i ORDERING d"
      have "i \<in> not_yet d" using at d composite i by (auto simp: not_yet_def dump_ready_def)
      from not_yet_less [OF this] have "card (not_yet ?d) + 1 \<le> card (not_yet d)" by simp
      then have "(card (not_yet ?d) + 1) * (R + 1) \<le> card (not_yet d) * (R + 1)" by (rule mult_le_mono1)
      with fuel have c: "card (not_yet ?d) * (R + 1) + (R + 1) \<le> fuel" by (simp add: algebra_simps)
      have "\<exists>x. member_type t j = Inr x \<and> x < btf__type_cnt btf \<and> card (not_yet ?d) * (R + 1) + rank x < fuel" if "j \<in> set [0..<vlen]" for j
        using good_member [OF s(1) g composite w(3), of j] that R c by fastforce
      from loop_returns [where ty = "member_type t" and js = "[0..<vlen]" and p = False and strong = False, OF rec dump_ready_set [OF d] this order_refl] obtain d1 r1 where
        l: "order_loop (\<lambda>d ref. rec d ref False) (member_type t) [0..<vlen] ?d False = Inr (d1, r1)" "dump_ready btf d1" by blast
      show ?thesis
      proof (cases r1)
        case (Inl e)
        with l w composite False show ?thesis by (auto simp: order_kind_cases)
      next
        case (Inr x)
        from queue_or_not_returns [OF mem l(2), of "n \<noteq> 0" i] obtain d' r where
          q: "bindd (if n \<noteq> 0 then btf_dump_add_emit_queue_id mem d1 i else Inr (d1, Inr ())) (\<lambda>d _.
            Inr (set_order i ORDERED d, Inr True)) = Inr (d', r)" "dump_ready btf d'" by blast
        have "order_kind rec mem d i p t kind = Inr (d', r)"
          unfolding order_kind_cases(4) [OF composite] w bindr_Inr if_not_P [OF False] l Inr bindd_Inr q(1) ..
        with q(2) show ?thesis by blast
      qed
    qed
  next
    case enum
    from queue_or_not_returns [OF mem d, of "n \<noteq> 0 \<or> \<not> referenced (d_states d ! i)" i] w(1) show ?thesis
      unfolding order_kind_cases(5) [OF enum] w bindr_Inr by blast
  next
    case tdef
    with good_ref [OF s(1) g] w have "r0 < btf__type_cnt btf" "plain_ref btf i r0" using at by (auto simp: plain_ref_def)
    from ref [OF this(2,1), of p] obtain d1 r1 where one: "rec d r0 p = Inr (d1, r1)" "dump_ready btf d1" by blast
    show ?thesis
    proof (cases r1)
      case (Inl e)
      with one w show ?thesis by (simp add: tdef order_kind_cases)
    next
      case (Inr strong)
      from queue_or_not_returns [OF mem one(2), of True i] one Inr w show ?thesis
        unfolding tdef order_kind_cases(6) w bindr_Inr one(1) Inr bindd_Inr by (cases "p \<and> \<not> strong") auto
    qed
  next
    case mods
    with good_ref [OF s(1) g] w have "r0 < btf__type_cnt btf" "plain_ref btf i r0" using at by (auto simp: plain_ref_def btf_is_mod_def)
    from ref [OF this(2,1), of p] w show ?thesis unfolding order_kind_cases(7) [OF mods] by auto
  next
    case proto
    with s(2) at w have "r0 < btf__type_cnt btf" "plain_ref btf i r0" by (auto simp: plain_ref_def protos_ok_def)
    from ref [OF this(2,1), of p] obtain d1 r1 where
      one: "rec d r0 p = Inr (d1, r1)" "dump_ready btf d1" "card (not_yet d1) \<le> card (not_yet d)" by blast
    have "\<exists>x. param_type t j = Inr x \<and> x < btf__type_cnt btf \<and> card (not_yet d) * (R + 1) + rank x < fuel" if "j \<in> set [0..<vlen]" for j
    proof -
      from good_param [OF s(1) _ w(3), of i j] g proto that obtain x where x: "param_type t j = Inr x" "x < btf__type_cnt btf" by auto
      with at proto w that have "plain_ref btf i x" by (auto simp: plain_ref_def)
      with rank [OF this] x fuel show ?thesis by auto
    qed
    from loop_returns [where ty = "param_type t" and js = "[0..<vlen]" and p = p, OF rec one(2) this one(3)] one w show ?thesis
      unfolding proto order_kind_cases(8) w bindr_Inr one(1) by (cases r1) auto
  qed (use d dump_ready_set in \<open>auto simp: order_kind_cases order_kind_rest\<close>)
qed

lemma order_returns:
  assumes s: "sane btf" "protos_ok btf" and mem: "mem_small mem"
    and rank: "\<And>i r. plain_ref btf i r \<Longrightarrow> rank r < rank i" and R: "\<And>j. j < btf__type_cnt btf \<Longrightarrow> rank j \<le> R"
  shows "rec_returns btf rank R fuel (btf_dump_order_type fuel mem)"
proof (induction fuel)
  case 0
  then show ?case by (simp add: rec_returns_def rec_kept_def)
next
  case (Suc fuel)
  have "\<exists>d' r. btf_dump_order_type (Suc fuel) mem d i p = Inr (d', r) \<and> dump_ready btf d'"
    if d: "dump_ready btf d" and i: "i < btf__type_cnt btf" and fuel: "card (not_yet d) * (R + 1) + rank i < Suc fuel" for d i p
  proof -
    from good_type_exists [OF s(1) i] obtain t kind where g: "good_type btf i t kind" by blast
    have at: "arr (d_states d) i = Inr (d_states d ! i)" "type_at (d_btf d) i = Inr t" "btf_kind t = Inr kind"
      using d i g by (auto simp: dump_ready_def good_type_def)
    obtain n where n: "t_name_off t = Inr n" using good_words [OF g] by blast
    show ?thesis
    proof (cases "order_state (d_states d ! i)")
      case NOT_ORDERED
      from kind_returns [OF s mem rank R Suc d g NOT_ORDERED fuel, of p] at NOT_ORDERED show ?thesis by simp
    qed (use d at n in auto)
  qed
  with order_kept [of "Suc fuel" mem] show ?case unfolding rec_returns_def by blast
qed

section \<open>Properties\<close>

text \<open>A dump object for the sample object of Btf_Query, before anything is ordered.\<close>

definition sample_dump :: btf_dump where
  "sample_dump = \<lparr>d_btf = sample_btf, d_ptr_sz = 8, d_strip_mods = False, d_skip_anon_defs = False, d_last_id = 3,
     d_states = no_state\<lparr>order_state := ORDERED, emit_state := EMITTED\<rparr> # replicate 15 no_state, d_states_cap = 16,
     d_names = replicate 16 None, d_names_cap = 16, d_queue = [], d_queue_cap = 0, d_queue_cnt = 0,
     d_decl_cap = 0, d_decl_cnt = 0, d_decl_block = 0, d_store = [],
     d_type_names = hashmap__init str_hash_fn str_equal_fn, d_ident_names = hashmap__init str_hash_fn str_equal_fn,
     d_text = [], d_decls = []\<rparr>"

definition few :: "nat \<Rightarrow> bool" where
  "few n \<longleftrightarrow> n < 1000"

lemma sample_kinds:
  "type_at sample_btf i = Inr t \<Longrightarrow> i = 0 \<and> t = Btf_Void \<or> i = 1 \<and> t = Type_At sample_types 0 \<or>
     i = 2 \<and> t = Type_At sample_types 16 \<or> i = 3 \<and> t = Type_At sample_types 28"
proof -
  assume t: "type_at sample_btf i = Inr t"
  then have "i < 4" using sample_ok(3) by (auto simp: type_at_Inr btf__type_by_id_def split: if_splits)
  then have "i = 0 \<or> i = 1 \<or> i = 2 \<or> i = 3" by auto
  with t sample_at show ?thesis by auto
qed

lemma sample_proto: "btf_kind t = Inr BTF_KIND_FUNC_PROTO \<Longrightarrow> type_at sample_btf i \<noteq> Inr t"
  using sample_kinds sample_info by (fastforce simp: void_fields)

lemma sample_dump_ready: "dump_ready sample_btf sample_dump" "card (not_yet sample_dump) = 0"
proof -
  show "dump_ready sample_btf sample_dump"
    by (simp add: dump_ready_def sample_dump_def queue_ok_def cap_small_def sample_ok(3))
  have "not_yet sample_dump = {}"
    using sample_kinds sample_info by (fastforce simp: not_yet_def sample_dump_def void_fields btf_is_composite_def)
  then show "card (not_yet sample_dump) = 0" by simp
qed

text \<open>
  Property C38: the search for the definitions that a type needs returns, with a result or an error and without undefined
  behaviour, for every type of an object that was parsed, when the return types of its prototypes are valid and no
  type refers to itself but through a structure or a union.  The fuel that is enough is the number
  of structures that are left times one more than the greatest rank, plus the rank of the type.
\<close>

theorem btf_dump_order_type_returns:
  assumes "sane btf" "protos_ok btf" "mem_small mem" "dump_ready btf d" "type_id < btf__type_cnt btf"
    and "\<forall>i r. plain_ref btf i r \<longrightarrow> rank r < rank i" "\<forall>j < btf__type_cnt btf. rank j \<le> R"
    and "card (not_yet d) * (R + 1) + rank type_id < fuel"
  shows "\<exists>d' r. btf_dump_order_type fuel mem d type_id through_ptr = Inr (d', r) \<and> dump_ready btf d' \<and> step_kept d d'"
proof -
  have "rec_returns btf rank R fuel (btf_dump_order_type fuel mem)"
    by (rule order_returns) (use assms in auto)
  from rec_returnsD [OF this assms(4,5,8), of through_ptr] show ?thesis by metis
qed

theorem btf_dump_order_type_returns_witness:
  "\<exists>d' r. btf_dump_order_type 4 few sample_dump 3 False = Inr (d', r) \<and> d_btf d' = sample_btf"
proof -
  have "sane sample_btf" using sample_ok sample_sane by (simp add: sane_def)
  moreover have "protos_ok sample_btf" using sample_proto by (auto simp: protos_ok_def)
  moreover have "mem_small few" by (simp add: mem_small_def few_def)
  moreover have "\<forall>i r. plain_ref sample_btf i r \<longrightarrow> r < i"
    using sample_kinds sample_info sample_proto by (fastforce simp: plain_ref_def void_fields btf_is_mod_def)
  moreover note sample_dump_ready
  ultimately show ?thesis
    using btf_dump_order_type_returns [of sample_btf few sample_dump 3 id 3 4 False]
    by (auto simp: sample_ok(3) dump_ready_def)
qed

text \<open>
  Property C2: the search puts definitions into the queue in an order that C accepts.  In the list of the definitions that
  were queued so far every structure and every typedef stands behind all that it needs; every type that is marked as
  ordered has what a use of it by value needs in that list; and after a successful search this holds for the
  type that was asked for, by value, or, when the result is a weak link, behind a pointer.  All else is unchanged.
\<close>

theorem btf_dump_order_type_in_order:
  assumes "ordered_inv refd hist d" "btf_dump_order_type fuel mem d type_id through_ptr = Inr (d', Inr strong)"
  shows "ordered_inv refd hist d' \<and> step_kept d d' \<and> in_order (d_btf d) refd (hist @ queue d') \<and>
    (\<forall>k. needs (d_btf d) refd (through_ptr \<and> \<not> strong) type_id k \<longrightarrow> k \<in> set (hist @ queue d'))"
proof -
  note r = rec_orderedD [OF order_ordered assms]
  from r(1) have "d_btf d' = d_btf d" by (rule step_kept_btf)
  with r show ?thesis by (simp add: ordered_inv_def met_def)
qed

text \<open>The array of the sample has the typedef as the type of its elements: the typedef is queued.\<close>

lemma sample_order: "\<exists>d'. btf_dump_order_type 3 few sample_dump 3 False = Inr (d', Inr True) \<and> queue d' = [2]"
proof -
  have st: "d_btf sample_dump = sample_btf" "length (d_states sample_dump) = 16" "d_states sample_dump ! 1 = no_state"
    "d_states sample_dump ! 2 = no_state" "d_states sample_dump ! 3 = no_state" "d_queue sample_dump = []"
    "d_queue_cap sample_dump = 0" "d_queue_cnt sample_dump = 0"
    by (simp_all add: sample_dump_def nth_Cons')
  let ?d1 = "set_order 1 ORDERED sample_dump"
  have one: "btf_dump_order_type (Suc 0) few sample_dump 1 False = Inr (?d1, Inr False)"
    using st sample_at(1) sample_info(1) by (simp add: no_state_def order_kind_cases del: One_nat_def)
  let ?d2 = "?d1\<lparr>d_queue := (replicate 16 0)[0 := 2], d_queue_cap := 16, d_queue_cnt := 1\<rparr>"
  have add: "btf_dump_add_emit_queue_id few ?d1 2 = Inr (?d2, Inr ())"
    using st by (simp add: btf_dump_add_emit_queue_id_def set_order_def few_def libbpf_reallocarray_def Let_def)
  have two: "btf_dump_order_type (Suc (Suc 0)) few sample_dump 2 False = Inr (set_order 2 ORDERED ?d2, Inr True)"
    unfolding btf_dump_order_type.simps(2) [of "Suc 0"]
    using st sample_at(2) sample_info(3,4) one add by (simp add: no_state_def order_kind_cases del: btf_dump_order_type.simps One_nat_def)
  have three: "btf_dump_order_type (Suc (Suc (Suc 0))) few sample_dump 3 False = Inr (set_order 2 ORDERED ?d2, Inr True)"
    unfolding btf_dump_order_type.simps(2) [of "Suc (Suc 0)"]
    using st sample_at(3) sample_info(5,6) two by (simp add: no_state_def order_kind_cases del: btf_dump_order_type.simps One_nat_def)
  moreover have "queue (set_order 2 ORDERED ?d2) = [2]" by (simp add: queue_def set_order_def numeral_eq_Suc)
  ultimately show ?thesis by (simp add: numeral_3_eq_3)
qed

lemma sample_ordered: "ordered_inv (\<lambda>_. False) [] sample_dump"
proof -
  have "\<not> needs sample_btf (\<lambda>_. False) False 0 k" for k
    using needs_at(8) [OF sample_at(4) void_fields(1)] by (auto simp: btf_is_composite_def enum_kind_def btf_is_mod_def)
  then show ?thesis
    by (auto simp: ordered_inv_def queue_ok_def queue_def sample_dump_def no_state_def nth_Cons' split: if_splits)
qed

theorem btf_dump_order_type_in_order_witness:
  "\<exists>d'. btf_dump_order_type 3 few sample_dump 3 False = Inr (d', Inr True) \<and> in_order sample_btf (\<lambda>_. False) (queue d') \<and> queue d' = [2]"
proof -
  from sample_order obtain d' where d': "btf_dump_order_type 3 few sample_dump 3 False = Inr (d', Inr True)" "queue d' = [2]" by blast
  with btf_dump_order_type_in_order [OF sample_ordered d'(1)] show ?thesis by (simp add: sample_dump_def)
qed

text \<open>
  The search does not return for a type that refers to itself: nothing bounds its recursion, and an object with
  a typedef of itself is parsed without an error (theorem \<open>btf_align_of_cycle\<close>).
\<close>

theorem btf_dump_order_type_cycle:
  assumes "d_btf d = cyclic_btf" "length (d_states d) = 2" "order_state (d_states d ! 1) = NOT_ORDERED"
  shows "btf_dump_order_type fuel mem d 1 through_ptr = Inl Hang"
  using assms cyclic_at by (induction fuel) (simp_all add: order_kind_cases del: One_nat_def)

text \<open>
  The return type of a prototype that is out of range is looked up all the same: the result is a NULL
  pointer, which is followed.
\<close>

theorem btf_dump_order_type_unchecked:
  assumes "d_btf d = proto_btf" "2 \<le> length (d_states d)" "order_state (d_states d ! 1) = NOT_ORDERED"
    and "9 < length (d_states d) \<Longrightarrow> order_state (d_states d ! 9) = NOT_ORDERED"
  shows "sane proto_btf \<and> btf_dump_order_type (Suc (Suc fuel)) mem d 1 through_ptr = Inl UB"
proof -
  have i: "btf_kind (Type_At proto_types 0) = Inr BTF_KIND_FUNC_PROTO" "t_type (Type_At proto_types 0) = Inr 9"
    by (simp_all add: type_eval proto_types_def)
  have at: "type_at proto_btf 1 = Inr (Type_At proto_types 0)" "type_at proto_btf 9 = Inl UB"
    by (simp_all add: proto_btf_def type_at_def btf__type_by_id_def btf__type_cnt_def deref_def)
  have nine: "btf_dump_order_type (Suc fuel) mem d 9 through_ptr = Inl UB"
    using assms at(2) by (auto simp: arr_def)
  have "btf_dump_order_type (Suc (Suc fuel)) mem d 1 through_ptr = Inl UB"
    unfolding btf_dump_order_type.simps(2) [of "Suc fuel"]
    using assms(1-3) at(1) i nine by (simp add: order_kind_cases del: btf_dump_order_type.simps One_nat_def)
  with bpf_core_types_are_compat_unchecked show ?thesis by simp
qed

end
