(* ===== verification/Btf_Print.thy ===== *)
theory Btf_Print imports Btf_Dump "HOL-Library.Signed_Division" begin

text \<open>
  Printing C declarations (\<open>bpf/libbpf/src/btf_dump.c\<close>): unique names, padding, structures, enumerations, and
  declarations of fields and types.  A routine appends to \<open>d_text\<close> what it gives to the callback.
\<close>

section \<open>Output\<close>

definition out :: "u8 list \<Rightarrow> btf_dump \<Rightarrow> btf_dump" where
  "out s d = d\<lparr>d_text := d_text d @ s\<rparr>"

definition put :: "string \<Rightarrow> btf_dump \<Rightarrow> btf_dump" where
  "put s = out (asc s)"

fun dec :: "nat \<Rightarrow> u8 list" where
  "dec n = (if n < 10 then [word_of_nat (48 + n)] else dec (n div 10) @ [word_of_nat (48 + n mod 10)])"

declare dec.simps [simp del]

definition sdec :: "int \<Rightarrow> u8 list" where
  "sdec x = (if x < 0 then asc ''-'' @ dec (nat (- x)) else dec (nat x))"

definition PREFIX_CNT :: nat where "PREFIX_CNT = 13"

definition pfx :: "nat \<Rightarrow> u8 list" where
  "pfx lvl = replicate (min lvl PREFIX_CNT) 9"

definition newline :: "u8 list" where "newline = [10]"

text \<open>The string that a name of the type information stands for.\<close>

definition btf_name_of :: "btf_dump \<Rightarrow> nat \<Rightarrow> u8 list res" where
  "btf_name_of d name_off = bindr (name_at (d_btf d) name_off) deref"

section \<open>Names\<close>

datatype name_map = Type_Names | Ident_Names

definition names_of :: "name_map \<Rightarrow> btf_dump \<Rightarrow> u8 list list hashmap" where
  "names_of m d = (case m of Type_Names \<Rightarrow> d_type_names d | Ident_Names \<Rightarrow> d_ident_names d)"

definition set_names :: "name_map \<Rightarrow> u8 list list hashmap \<Rightarrow> btf_dump \<Rightarrow> btf_dump" where
  "set_names m hm d = (case m of Type_Names \<Rightarrow> d\<lparr>d_type_names := hm\<rparr> | Ident_Names \<Rightarrow> d\<lparr>d_ident_names := hm\<rparr>)"

text \<open>
  The copy of the name gets the next place of the store, and is given back when the map has no room.  The
  search for the name compares strings only, so that the copy can stand for the original.
\<close>

definition btf_dump_name_dups :: "dump_mem \<Rightarrow> btf_dump \<Rightarrow> name_map \<Rightarrow> u8 list \<Rightarrow> btf_dump \<times> nat" where
  "btf_dump_name_dups mem d m orig_name =
     (if \<not> dm_dup mem d then (d, 1)
      else
        let store = d_store d @ [orig_name];
            new_name = word_of_nat (length (d_store d));
            found = (case hashmap_find store (names_of m d) new_name of None \<Rightarrow> 0 | Some v \<Rightarrow> v);
            dup_cnt = found + 1
        in case hashmap_insert (fst (dm_map mem d)) (snd (dm_map mem d)) store (names_of m d) new_name dup_cnt HASHMAP_SET of
             (err, hm, old_name, old_val) \<Rightarrow>
               if err \<noteq> None then (d, unat dup_cnt) else (set_names m hm (d\<lparr>d_store := store\<rparr>), unat dup_cnt))"

definition set_resolved :: "nat \<Rightarrow> btf_dump \<Rightarrow> btf_dump" where
  "set_resolved type_id d = d\<lparr>d_states := (d_states d)[type_id := (d_states d ! type_id)\<lparr>name_resolved := True\<rparr>]\<rparr>"

text \<open>\<open>snprintf\<close> cuts the name off at 255 characters.\<close>

definition dup_name :: "u8 list \<Rightarrow> nat \<Rightarrow> u8 list" where
  "dup_name name dup_cnt = take 255 (name @ asc ''___'' @ dec dup_cnt)"

definition btf_dump_resolve_name :: "dump_mem \<Rightarrow> btf_dump \<Rightarrow> nat \<Rightarrow> name_map \<Rightarrow> (btf_dump \<times> u8 list) res" where
  "btf_dump_resolve_name mem d type_id m =
     bindr (arr (d_states d) type_id) (\<lambda>s.
     bindr (type_at (d_btf d) type_id) (\<lambda>t.
     bindr (t_name_off t) (\<lambda>name_off.
     bindr (arr (d_names d) type_id) (\<lambda>cached_name.
     if name_off = 0 then Inr (d, [])
     else bindr (btf_name_of d name_off) (\<lambda>orig_name.
       if name_resolved s then Inr (d, case cached_name of Some n \<Rightarrow> n | None \<Rightarrow> orig_name)
       else
         bindr (btf_kind t) (\<lambda>kind.
         bindr (btf_vlen t) (\<lambda>vlen.
         if kind = BTF_KIND_FWD \<or> kind = BTF_KIND_ENUM \<and> vlen = 0 then Inr (set_resolved type_id d, orig_name)
         else
           case btf_dump_name_dups mem d m orig_name of
             (d, dup_cnt) \<Rightarrow>
               if dup_cnt > 1 \<and> dm_dup mem d
               then let name = dup_name orig_name dup_cnt in
                    Inr (set_resolved type_id (d\<lparr>d_names := (d_names d)[type_id := Some name]\<rparr>), name)
               else Inr (set_resolved type_id d, case cached_name of Some n \<Rightarrow> n | None \<Rightarrow> orig_name))))))))"

definition btf_dump_type_name :: "dump_mem \<Rightarrow> btf_dump \<Rightarrow> nat \<Rightarrow> (btf_dump \<times> u8 list) res" where
  "btf_dump_type_name mem d type_id = btf_dump_resolve_name mem d type_id Type_Names"

definition btf_dump_ident_name :: "dump_mem \<Rightarrow> btf_dump \<Rightarrow> nat \<Rightarrow> (btf_dump \<times> u8 list) res" where
  "btf_dump_ident_name mem d type_id = btf_dump_resolve_name mem d type_id Ident_Names"

section \<open>Padding\<close>

text \<open>Numbers of type \<open>int\<close>, and the conversion to it.\<close>

definition i32 :: "int \<Rightarrow> int res" where
  "i32 x = (if - (2 ^ 31) \<le> x \<and> x < 2 ^ 31 then Inr x else Inl UB)"

definition to_int :: "nat \<Rightarrow> int" where
  "to_int n = sint (word_of_nat n :: s32)"

definition roundup :: "int \<Rightarrow> int \<Rightarrow> int res" where
  "roundup x y = (if y = 0 then Inl UB else bindr (i32 (x + (y - 1))) (\<lambda>s. i32 (s sdiv y * y)))"

type_synonym pad = "string \<times> int"

definition pads :: "nat \<Rightarrow> pad list" where
  "pads ptr_sz = [(''long'', int (ptr_sz * 8)), (''int'', 32), (''short'', 16), (''char'', 8)]"

text \<open>The type with which the padding is done: the last one when none ends in the gap.\<close>

fun choose_pad :: "int \<Rightarrow> int \<Rightarrow> pad list \<Rightarrow> (pad \<times> int) res" where
  "choose_pad cur_off next_off [] = Inl UB"
| "choose_pad cur_off next_off (p # ps) =
     bindr (roundup cur_off (snd p)) (\<lambda>new_off.
       if new_off \<le> next_off \<or> ps = [] then Inr (p, new_off) else choose_pad cur_off next_off ps)"

text \<open>A field of the padding: the name of its type, the width of the type and the number that is printed.\<close>

type_synonym pad_field = "string \<times> int \<times> int"

text \<open>
  The loop that fills the gap, with the fields that it prints.  Every round that prints makes the gap
  smaller; the fuel is the gap.
\<close>

primrec fill_pads :: "nat \<Rightarrow> pad list \<Rightarrow> pad \<Rightarrow> int \<Rightarrow> int \<Rightarrow> pad_field list res" where
  "fill_pads 0 ps p cur_off next_off = (if cur_off = next_off then Inr [] else Inl Hang)"
| "fill_pads (Suc fuel) ps p cur_off next_off =
     (if cur_off = next_off then Inr []
      else
        let bits = min (next_off - cur_off) (snd p) in
        if bits = snd p
        then bindr (fill_pads fuel ps p (cur_off + bits) next_off) (\<lambda>fs. Inr ((fst p, snd p, snd p) # fs))
        else case List.find (\<lambda>q. \<not> snd q < bits) (rev ps) of
               Some q \<Rightarrow> bindr (fill_pads fuel ps q (cur_off + bits) next_off) (\<lambda>fs. Inr ((fst q, snd q, bits) # fs))
             | None \<Rightarrow> fill_pads fuel ps (hd ps) cur_off next_off)"

text \<open>The fields that \<open>btf_dump_emit_bit_padding\<close> prints.\<close>

definition bit_padding :: "nat \<Rightarrow> int \<Rightarrow> int \<Rightarrow> int \<Rightarrow> bool \<Rightarrow> pad_field list res" where
  "bit_padding ptr_sz cur_off next_off next_align in_bitfield =
     (if cur_off \<ge> next_off then Inr []
      else
        bindr (choose_pad cur_off next_off (pads ptr_sz)) (\<lambda>(p, new_off).
        if new_off > cur_off \<and> new_off \<le> next_off
        then
          bindr (if in_bitfield then Inr True
                 else bindr (if new_off = next_off
                             then bindr (bindr (i32 (next_align * 8)) (roundup cur_off)) (\<lambda>r. Inr (r \<noteq> new_off))
                             else Inr False) (\<lambda>b.
                      Inr (b \<or> new_off \<noteq> next_off \<and> next_off - new_off \<le> new_off - cur_off))) (\<lambda>mark.
          bindr (fill_pads (nat (next_off - new_off)) (pads ptr_sz) p new_off next_off) (\<lambda>fs.
            Inr (if mark then (fst p, snd p, if in_bitfield then new_off - cur_off else 0) # fs else fs)))
        else fill_pads (nat (next_off - cur_off)) (pads ptr_sz) p cur_off next_off))"

primrec out_pads :: "nat \<Rightarrow> pad_field list \<Rightarrow> btf_dump \<Rightarrow> btf_dump" where
  "out_pads lvl [] d = d"
| "out_pads lvl (f # fs) d =
     out_pads lvl fs (out (newline @ pfx lvl @ asc (fst f) @ asc '': '' @ sdec (snd (snd f)) @ asc '';'') d)"

definition btf_dump_emit_bit_padding :: "btf_dump \<Rightarrow> int \<Rightarrow> int \<Rightarrow> int \<Rightarrow> bool \<Rightarrow> nat \<Rightarrow> btf_dump res" where
  "btf_dump_emit_bit_padding d cur_off next_off next_align in_bitfield lvl =
     bindr (bit_padding (d_ptr_sz d) cur_off next_off next_align in_bitfield) (\<lambda>fs. Inr (out_pads lvl fs d))"

section \<open>Structures and enumerations\<close>

text \<open>The alignment of a type; the recursion of \<open>btf__align_of\<close> may use up its fuel.\<close>

definition align_value :: "nat \<Rightarrow> btf \<Rightarrow> nat \<Rightarrow> nat res" where
  "align_value fuel btf type_id =
     bindr (btf__align_of fuel btf type_id) (\<lambda>r. case r of None \<Rightarrow> Inl Hang | Some a \<Rightarrow> Inr a)"

text \<open>The loop gives None where the code returns true.\<close>

primrec packed_loop :: "nat \<Rightarrow> btf \<Rightarrow> type_ptr \<Rightarrow> nat list \<Rightarrow> nat \<Rightarrow> nat option res" where
  "packed_loop fuel btf t [] max_align = Inr (Some max_align)"
| "packed_loop fuel btf t (i # is) max_align =
     bindr (bindr (member_type t i) (align_value fuel btf)) (\<lambda>align.
     bindr (btf_member_bitfield_size t i) (\<lambda>bit_sz.
     bindr (member_offset t i) (\<lambda>offset.
       if align \<noteq> 0 \<and> bit_sz = 0 \<and> offset mod (8 * align) \<noteq> 0 then Inr None
       else packed_loop fuel btf t is (max align max_align))))"

definition btf_is_struct_packed :: "nat \<Rightarrow> btf \<Rightarrow> type_ptr \<Rightarrow> bool res" where
  "btf_is_struct_packed fuel btf t =
     bindr (btf_vlen t) (\<lambda>vlen.
     bindr (packed_loop fuel btf t [0..<vlen] 1) (\<lambda>r.
     bindr (t_size t) (\<lambda>sz.
       Inr (case r of None \<Rightarrow> True | Some max_align \<Rightarrow> sz mod max_align \<noteq> 0))))"

definition struct_word :: "btf_kind \<Rightarrow> string" where
  "struct_word kind = (if kind = BTF_KIND_STRUCT then ''struct'' else ''union'')"

definition btf_dump_emit_struct_fwd :: "dump_mem \<Rightarrow> btf_dump \<Rightarrow> nat \<Rightarrow> type_ptr \<Rightarrow> btf_dump res" where
  "btf_dump_emit_struct_fwd mem d type_id t =
     bindr (btf_kind t) (\<lambda>kind.
     bindr (t_name_off t) (\<lambda>name_off.
     bindr (btf_dump_type_name mem d type_id) (\<lambda>(d, name).
       Inr (out (asc (struct_word kind) @ (if name_off \<noteq> 0 then asc '' '' else []) @ name) d))))"

text \<open>
  The member loop, with the end of the member before as \<open>off\<close>.  \<open>rec\<close> prints the declaration of a field.  A
  negative result of \<open>btf__resolve_size\<close> counts as 0.
\<close>

definition size_or_0 :: "btf \<Rightarrow> nat \<Rightarrow> nat res" where
  "size_or_0 btf type_id = (case btf__resolve_size btf type_id of Inl (Err e) \<Rightarrow> Inr 0 | r \<Rightarrow> r)"

primrec emit_members ::
  "(btf_dump \<Rightarrow> nat \<Rightarrow> u8 list \<Rightarrow> nat \<Rightarrow> btf_dump res) \<Rightarrow> nat \<Rightarrow> bool \<Rightarrow> type_ptr \<Rightarrow> nat \<Rightarrow> nat list \<Rightarrow> btf_dump \<Rightarrow>
     int \<Rightarrow> bool \<Rightarrow> (btf_dump \<times> int) res" where
  "emit_members rec fuel packed t lvl [] d off prev_bitfield = Inr (d, off)"
| "emit_members rec fuel packed t lvl (i # is) d off prev_bitfield =
     bindr (bindr (member_name_off t i) (btf_name_of d)) (\<lambda>fname.
     bindr (btf_member_bitfield_size t i) (\<lambda>m_sz.
     bindr (bindr (btf_member_bit_offset t i) (\<lambda>v. Inr (to_int v))) (\<lambda>m_off.
     bindr (member_type t i) (\<lambda>m_type.
     bindr (if packed then Inr 1 else align_value fuel (d_btf d) m_type) (\<lambda>m_align.
     bindr (btf_dump_emit_bit_padding d off m_off (int m_align) (prev_bitfield \<and> m_sz \<noteq> 0) (lvl + 1)) (\<lambda>d.
     bindr (rec (out (newline @ pfx (lvl + 1)) d) m_type fname (lvl + 1)) (\<lambda>d.
       if m_sz \<noteq> 0
       then bindr (i32 (m_off + int m_sz)) (\<lambda>off.
              emit_members rec fuel packed t lvl is (put '';'' (out (asc '': '' @ dec m_sz) d)) off True)
       else bindr (size_or_0 (d_btf d) m_type) (\<lambda>sz.
            bindr (bindr (i32 (to_int sz * 8)) (\<lambda>b. i32 (m_off + b))) (\<lambda>off.
              emit_members rec fuel packed t lvl is (put '';'' d) off False)))))))))"

definition btf_dump_emit_struct_def ::
  "(btf_dump \<Rightarrow> nat \<Rightarrow> u8 list \<Rightarrow> nat \<Rightarrow> btf_dump res) \<Rightarrow> nat \<Rightarrow> dump_mem \<Rightarrow> btf_dump \<Rightarrow> nat \<Rightarrow> type_ptr \<Rightarrow>
     nat \<Rightarrow> btf_dump res" where
  "btf_dump_emit_struct_def rec fuel mem d type_id t lvl =
     bindr (btf_kind t) (\<lambda>kind.
     bindr (btf_vlen t) (\<lambda>vlen.
     bindr (align_value fuel (d_btf d) type_id) (\<lambda>align.
     bindr (if kind = BTF_KIND_STRUCT then btf_is_struct_packed fuel (d_btf d) t else Inr False) (\<lambda>packed.
     bindr (btf_dump_emit_struct_fwd mem d type_id t) (\<lambda>d.
     bindr (emit_members rec fuel packed t lvl [0..<vlen] (put '' {'' d) 0 False) (\<lambda>(d, off).
     bindr (t_size t) (\<lambda>sz.
     bindr (if kind = BTF_KIND_STRUCT
            then btf_dump_emit_bit_padding d off (to_int (sz * 8)) (int align) False (lvl + 1) else Inr d) (\<lambda>d.
       let d = (if vlen \<noteq> 0 \<or> sz \<noteq> 0 then out (newline @ pfx lvl @ asc ''}'') d else put ''}'' d)
       in Inr (if packed then put '' __attribute__((packed))'' d else d)))))))))"

definition missing_base_types :: "(string \<times> string) list" where
  "missing_base_types =
    [(''__Poly8_t'', ''unsigned char''), (''__Poly16_t'', ''unsigned short''),
     (''__Poly64_t'', ''unsigned long long''), (''__Poly128_t'', ''unsigned __int128'')]"

definition btf_dump_emit_missing_aliases :: "dump_mem \<Rightarrow> btf_dump \<Rightarrow> nat \<Rightarrow> btf_dump res" where
  "btf_dump_emit_missing_aliases mem d type_id =
     bindr (btf_dump_type_name mem d type_id) (\<lambda>(d, name).
       Inr (case List.find (\<lambda>p. asc (fst p) = name) missing_base_types of
              None \<Rightarrow> d
            | Some p \<Rightarrow> out (asc ''typedef '' @ asc (snd p) @ asc '' '' @ name @ asc '';'' @ newline @ newline) d))"

definition btf_dump_emit_enum_fwd :: "dump_mem \<Rightarrow> btf_dump \<Rightarrow> nat \<Rightarrow> btf_dump res" where
  "btf_dump_emit_enum_fwd mem d type_id =
     bindr (btf_dump_type_name mem d type_id) (\<lambda>(d, name). Inr (out (asc ''enum '' @ name) d))"

text \<open>
  A line of an enumeration: its value is printed by \<open>val\<close>.  An enumerator of a 32-bit enumeration has
  8 bytes, of a 64-bit one 12 with the low word first.
\<close>

definition emit_enumerator :: "dump_mem \<Rightarrow> nat \<Rightarrow> btf_dump \<Rightarrow> nat \<Rightarrow> u8 list \<Rightarrow> btf_dump res" where
  "emit_enumerator mem lvl d name_off val =
     bindr (btf_name_of d name_off) (\<lambda>name.
       case btf_dump_name_dups mem d Ident_Names name of
         (d, dup_cnt) \<Rightarrow>
           Inr (out (newline @ pfx (lvl + 1) @ name @ (if dup_cnt > 1 then asc ''___'' @ dec dup_cnt else []) @
                     asc '' = '' @ val @ asc '','') d))"

definition enum_val32 :: "bool \<Rightarrow> nat \<Rightarrow> u8 list" where
  "enum_val32 is_signed v = (if is_signed then sdec (to_int v) else dec v)"

definition enum_val64 :: "bool \<Rightarrow> nat \<Rightarrow> u8 list" where
  "enum_val64 is_signed v =
     (if is_signed then sdec (sint (word_of_nat v :: u64)) @ asc ''LL'' else dec v @ asc ''ULL'')"

primrec btf_dump_emit_enum32_val :: "dump_mem \<Rightarrow> type_ptr \<Rightarrow> bool \<Rightarrow> nat \<Rightarrow> nat list \<Rightarrow> btf_dump \<Rightarrow> btf_dump res" where
  "btf_dump_emit_enum32_val mem t is_signed lvl [] d = Inr d"
| "btf_dump_emit_enum32_val mem t is_signed lvl (i # is) d =
     bindr (tword t (12 + i * 8)) (\<lambda>name_off.
     bindr (tword t (12 + i * 8 + 4)) (\<lambda>v.
     bindr (emit_enumerator mem lvl d name_off (enum_val32 is_signed v)) (\<lambda>d.
       btf_dump_emit_enum32_val mem t is_signed lvl is d)))"

primrec btf_dump_emit_enum64_val :: "dump_mem \<Rightarrow> type_ptr \<Rightarrow> bool \<Rightarrow> nat \<Rightarrow> nat list \<Rightarrow> btf_dump \<Rightarrow> btf_dump res" where
  "btf_dump_emit_enum64_val mem t is_signed lvl [] d = Inr d"
| "btf_dump_emit_enum64_val mem t is_signed lvl (i # is) d =
     bindr (tword t (12 + i * 12)) (\<lambda>name_off.
     bindr (tword t (12 + i * 12 + 4)) (\<lambda>lo.
     bindr (tword t (12 + i * 12 + 8)) (\<lambda>hi.
     bindr (emit_enumerator mem lvl d name_off (enum_val64 is_signed (hi * 2 ^ 32 + lo))) (\<lambda>d.
       btf_dump_emit_enum64_val mem t is_signed lvl is d))))"

text \<open>No enumerator of a 64-bit enumeration has a non-zero upper half.\<close>

primrec all_hi32_zero :: "type_ptr \<Rightarrow> nat list \<Rightarrow> bool res" where
  "all_hi32_zero t [] = Inr True"
| "all_hi32_zero t (i # is) =
     bindr (tword t (12 + i * 12 + 8)) (\<lambda>hi. if hi \<noteq> 0 then Inr False else all_hi32_zero t is)"

definition btf_dump_emit_enum_def :: "dump_mem \<Rightarrow> btf_dump \<Rightarrow> nat \<Rightarrow> type_ptr \<Rightarrow> nat \<Rightarrow> btf_dump res" where
  "btf_dump_emit_enum_def mem d type_id t lvl =
     bindr (btf_vlen t) (\<lambda>vlen.
     bindr (btf_kind t) (\<lambda>kind.
     bindr (t_name_off t) (\<lambda>name_off.
     bindr (btf_dump_type_name mem d type_id) (\<lambda>(d, name).
     let d = out (asc ''enum'' @ (if name_off \<noteq> 0 then asc '' '' else []) @ name) d in
     if vlen = 0 then Inr d
     else
       bindr (btf_kflag t) (\<lambda>is_signed.
       bindr (if kind = BTF_KIND_ENUM
              then btf_dump_emit_enum32_val mem t is_signed lvl [0..<vlen] (put '' {'' d)
              else btf_dump_emit_enum64_val mem t is_signed lvl [0..<vlen] (put '' {'' d)) (\<lambda>d.
       bindr (t_size t) (\<lambda>sz.
       let d = out (newline @ pfx lvl @ asc ''}'') d in
       if sz = 1 then Inr (put '' __attribute__((mode(byte)))'' d)
       else if sz = 8 \<and> d_ptr_sz d = 8
       then bindr (if kind = BTF_KIND_ENUM then Inr True else all_hi32_zero t [0..<vlen]) (\<lambda>needs_word_mode.
              Inr (if needs_word_mode then put '' __attribute__((mode(word)))'' d else d))
       else Inr d)))))))"

definition btf_dump_emit_fwd_def :: "dump_mem \<Rightarrow> btf_dump \<Rightarrow> nat \<Rightarrow> type_ptr \<Rightarrow> btf_dump res" where
  "btf_dump_emit_fwd_def mem d type_id t =
     bindr (btf_dump_type_name mem d type_id) (\<lambda>(d, name).
     bindr (btf_kflag t) (\<lambda>kflag.
       Inr (out (asc (if kflag then ''union '' else ''struct '') @ name) d)))"

definition btf_dump_emit_typedef_def ::
  "(btf_dump \<Rightarrow> nat \<Rightarrow> u8 list \<Rightarrow> nat \<Rightarrow> btf_dump res) \<Rightarrow> dump_mem \<Rightarrow> btf_dump \<Rightarrow> nat \<Rightarrow> type_ptr \<Rightarrow> nat \<Rightarrow>
     btf_dump res" where
  "btf_dump_emit_typedef_def rec mem d type_id t lvl =
     bindr (btf_dump_ident_name mem d type_id) (\<lambda>(d, name).
     bindr (t_type t) (\<lambda>ref.
       if ref = 0 \<and> name = asc ''__gnuc_va_list'' then Inr (put ''typedef __builtin_va_list __gnuc_va_list'' d)
       else rec (put ''typedef '' d) ref name lvl))"

section \<open>Declarations\<close>

text \<open>A push; a block that is allocated again is another block.\<close>

definition btf_dump_push_decl_stack_id :: "dump_mem \<Rightarrow> btf_dump \<Rightarrow> unit dump" where
  "btf_dump_push_decl_stack_id mem d =
     bindd
       (if d_decl_cnt d \<ge> d_decl_cap d
        then if d_decl_cap d * 3 \<ge> 2 ^ 31 then Inl UB
             else let new_cap = max 16 (d_decl_cap d * 3 div 2) in
                  if \<not> libbpf_reallocarray (dm_decl mem new_cap) new_cap 4 then Inr (d, Inl ENOMEM)
                  else Inr (d\<lparr>d_decl_cap := new_cap, d_decl_block := d_decl_block d + 1\<rparr>, Inr ())
        else Inr (d, Inr ()))
       (\<lambda>d _. Inr (d\<lparr>d_decl_cnt := d_decl_cnt d + 1\<rparr>, Inr ()))"

text \<open>
  The loop of \<open>btf_dump_emit_type_decl\<close>, with the ids that it pushes, the top first.  None: there is no memory for
  the stack.
\<close>

primrec decl_ids :: "nat \<Rightarrow> dump_mem \<Rightarrow> btf_dump \<Rightarrow> nat \<Rightarrow> nat list \<Rightarrow> (btf_dump \<times> nat list option) res" where
  "decl_ids 0 mem d type_id ids = Inl Hang"
| "decl_ids (Suc fuel) mem d type_id ids =
     bindr (type_at (d_btf d) type_id) (\<lambda>t.
     bindr (btf_kind t) (\<lambda>kind.
     let skip = d_strip_mods d \<and> btf_is_mod kind in
     bindr (if skip then Inr (d, Inr ()) else btf_dump_push_decl_stack_id mem d) (\<lambda>(d, err).
     if err \<noteq> Inr () then Inr (d, None)
     else
       let ids = (if skip then ids else type_id # ids) in
       if type_id = 0 then Inr (d, Some ids)
       else if kind = BTF_KIND_PTR \<or> kind = BTF_KIND_FUNC_PROTO \<or> btf_is_mod kind
       then bindr (t_type t) (\<lambda>ref. decl_ids fuel mem d ref ids)
       else if kind = BTF_KIND_ARRAY then bindr (array_type t) (\<lambda>ref. decl_ids fuel mem d ref ids)
       else Inr (d, Some ids))))"

text \<open>
  The rest of a stack frame: the block that the frame points into, and the ids, the top first.  Reading
  an id when the block is gone is undefined.
\<close>

definition top_kind :: "btf_dump \<Rightarrow> nat \<Rightarrow> nat \<Rightarrow> (type_ptr \<times> btf_kind) res" where
  "top_kind d block type_id =
     (if block \<noteq> d_decl_block d then Inl UB
      else bindr (type_at (d_btf d) type_id) (\<lambda>t. bindr (btf_kind t) (\<lambda>kind. Inr (t, kind))))"

primrec btf_dump_emit_mods :: "btf_dump \<Rightarrow> nat \<Rightarrow> nat list \<Rightarrow> (btf_dump \<times> nat list) res" where
  "btf_dump_emit_mods d block [] = Inr (d, [])"
| "btf_dump_emit_mods d block (i # decls) =
     bindr (top_kind d block i) (\<lambda>(t, kind).
       if kind = BTF_KIND_VOLATILE then btf_dump_emit_mods (put ''volatile '' d) block decls
       else if kind = BTF_KIND_CONST then btf_dump_emit_mods (put ''const '' d) block decls
       else if kind = BTF_KIND_RESTRICT then btf_dump_emit_mods (put ''restrict '' d) block decls
       else Inr (d, i # decls))"

primrec btf_dump_drop_mods :: "btf_dump \<Rightarrow> nat \<Rightarrow> nat list \<Rightarrow> nat list res" where
  "btf_dump_drop_mods d block [] = Inr []"
| "btf_dump_drop_mods d block (i # decls) =
     bindr (top_kind d block i) (\<lambda>(t, kind).
       if \<not> btf_is_mod kind then Inr (i # decls) else btf_dump_drop_mods d block decls)"

definition btf_dump_emit_name :: "btf_dump \<Rightarrow> u8 list \<Rightarrow> bool \<Rightarrow> btf_dump" where
  "btf_dump_emit_name d name last_was_ptr = out ((if name \<noteq> [] \<and> \<not> last_was_ptr then asc '' '' else []) @ name) d"

text \<open>The parameters of a function, numbered.\<close>

primrec emit_params ::
  "(btf_dump \<Rightarrow> nat \<Rightarrow> u8 list \<Rightarrow> nat \<Rightarrow> btf_dump res) \<Rightarrow> type_ptr \<Rightarrow> nat \<Rightarrow> nat \<Rightarrow> nat list \<Rightarrow> btf_dump \<Rightarrow> btf_dump res" where
  "emit_params rec t vlen lvl [] d = Inr d"
| "emit_params rec t vlen lvl (i # is) d =
     bindr (param_type t i) (\<lambda>ref.
     let d = (if i > 0 then put '', '' d else d) in
     if i = vlen - 1 \<and> ref = 0 then Inr (put ''...'' d)
     else
       bindr (bindr (tword t (12 + i * 8)) (btf_name_of d)) (\<lambda>name.
       bindr (rec d ref name lvl) (\<lambda>d. emit_params rec t vlen lvl is d)))"

text \<open>
  \<open>rec\<close> is \<open>btf_dump_emit_type_decl\<close>.  Every round pops an id, so that the fuel is one more than their number.
\<close>

primrec btf_dump_emit_type_chain ::
  "nat \<Rightarrow> (btf_dump \<Rightarrow> nat \<Rightarrow> u8 list \<Rightarrow> nat \<Rightarrow> btf_dump res) \<Rightarrow> nat \<Rightarrow> dump_mem \<Rightarrow> nat \<Rightarrow> u8 list \<Rightarrow> nat \<Rightarrow> btf_dump \<Rightarrow>
     nat list \<Rightarrow> bool \<Rightarrow> btf_dump res" where
  "btf_dump_emit_type_chain 0 rec fuel mem block fname lvl d decls last_was_ptr = Inl Hang"
| "btf_dump_emit_type_chain (Suc n) rec fuel mem block fname lvl d decls last_was_ptr =
     (case decls of
        [] \<Rightarrow> Inr (btf_dump_emit_name d fname last_was_ptr)
      | type_id # decls \<Rightarrow>
          bindr (top_kind d block type_id) (\<lambda>(t, kind).
          let next = (\<lambda>d decls. btf_dump_emit_type_chain n rec fuel mem block fname lvl d decls (kind = BTF_KIND_PTR));
              inner = (\<lambda>d decls. btf_dump_emit_type_chain n rec fuel mem block fname lvl d decls True)
          in
          if type_id = 0
          then bindr (btf_dump_emit_mods d block decls) (\<lambda>(d, decls). next (put ''void'' d) decls)
          else if kind = BTF_KIND_INT \<or> kind = BTF_KIND_FLOAT
          then bindr (btf_dump_emit_mods d block decls) (\<lambda>(d, decls).
               bindr (bindr (t_name_off t) (btf_name_of d)) (\<lambda>name. next (out name d) decls))
          else if btf_is_composite kind
          then bindr (btf_dump_emit_mods d block decls) (\<lambda>(d, decls).
               bindr (t_name_off t) (\<lambda>name_off.
               bindr (if name_off = 0 \<and> \<not> d_skip_anon_defs d
                      then btf_dump_emit_struct_def rec fuel mem d type_id t lvl
                      else btf_dump_emit_struct_fwd mem d type_id t) (\<lambda>d. next d decls)))
          else if btf_is_any_enum kind
          then bindr (btf_dump_emit_mods d block decls) (\<lambda>(d, decls).
               bindr (t_name_off t) (\<lambda>name_off.
               bindr (if name_off = 0 \<and> \<not> d_skip_anon_defs d
                      then btf_dump_emit_enum_def mem d type_id t lvl
                      else btf_dump_emit_enum_fwd mem d type_id) (\<lambda>d. next d decls)))
          else if kind = BTF_KIND_FWD
          then bindr (btf_dump_emit_mods d block decls) (\<lambda>(d, decls).
               bindr (btf_dump_emit_fwd_def mem d type_id t) (\<lambda>d. next d decls))
          else if kind = BTF_KIND_TYPEDEF
          then bindr (btf_dump_emit_mods d block decls) (\<lambda>(d, decls).
               bindr (btf_dump_ident_name mem d type_id) (\<lambda>(d, name). next (out name d) decls))
          else if kind = BTF_KIND_PTR then next (put (if last_was_ptr then ''*'' else '' *'') d) decls
          else if kind = BTF_KIND_VOLATILE then next (put '' volatile'' d) decls
          else if kind = BTF_KIND_CONST then next (put '' const'' d) decls
          else if kind = BTF_KIND_RESTRICT then next (put '' restrict'' d) decls
          else if kind = BTF_KIND_TYPE_TAG
          then bindr (btf_dump_emit_mods d block decls) (\<lambda>(d, decls).
               bindr (bindr (t_name_off t) (btf_name_of d)) (\<lambda>name.
                 next (out (asc '' __attribute__((btf_type_tag('' @ [34] @ name @ [34] @ asc '')))'') d) decls))
          else if kind = BTF_KIND_ARRAY
          then bindr (array_nelems t) (\<lambda>nelems.
               let size_of = out (asc ''['' @ dec nelems @ asc '']'') in
               bindr (btf_dump_drop_mods d block decls) (\<lambda>decls.
                 case decls of
                   [] \<Rightarrow> Inr (size_of (btf_dump_emit_name d fname last_was_ptr))
                 | next_id # _ \<Rightarrow>
                     bindr (top_kind d block next_id) (\<lambda>(next_t, next_kind).
                     let multidim = (next_kind = BTF_KIND_ARRAY);
                         d = (if fname \<noteq> [] \<and> \<not> last_was_ptr then put '' '' d else d)
                     in bindr (inner (if multidim then d else put ''('' d) decls) (\<lambda>d.
                          Inr (size_of (if multidim then d else put '')'' d))))))
          else if kind = BTF_KIND_FUNC_PROTO
          then bindr (btf_vlen t) (\<lambda>vlen.
               bindr (btf_dump_drop_mods d block decls) (\<lambda>decls.
               bindr (if decls \<noteq> [] then bindr (inner (put '' ('' d) decls) (\<lambda>d. Inr (put '')'' d))
                      else Inr (btf_dump_emit_name d fname last_was_ptr)) (\<lambda>d.
               let d = put ''('' d in
               bindr (if vlen = 1 then bindr (param_type t 0) (\<lambda>r. Inr (r = 0)) else Inr False) (\<lambda>no_args.
               if no_args then Inr (put '')'' d)
               else bindr (emit_params rec t vlen lvl [0..<vlen] d) (\<lambda>d. Inr (put '')'' d))))))
          else Inr d))"

text \<open>
  The frame is given back at the end.  The fuel is for the nesting of declarations, for the chain of references of each of them, and
  for the recursion of the alignment.
\<close>

primrec btf_dump_emit_type_decl :: "nat \<Rightarrow> dump_mem \<Rightarrow> btf_dump \<Rightarrow> nat \<Rightarrow> u8 list \<Rightarrow> nat \<Rightarrow> btf_dump res" where
  "btf_dump_emit_type_decl 0 mem d type_id fname lvl = Inl Hang"
| "btf_dump_emit_type_decl (Suc fuel) mem d type_id fname lvl =
     (let stack_start = d_decl_cnt d in
      bindr (decl_ids (Suc fuel) mem d type_id []) (\<lambda>(d, ids).
      bindr (case ids of
               None \<Rightarrow> Inr d
             | Some ids \<Rightarrow>
                 btf_dump_emit_type_chain (length ids + 1) (btf_dump_emit_type_decl fuel mem) fuel mem (d_decl_block d)
                   fname lvl d ids True) (\<lambda>d.
        Inr (d\<lparr>d_decl_cnt := stack_start\<rparr>))))"

text \<open>
  Two gaps that are not filled as they should.  A member without an alignment (a function, whose size and alignment are
  errors) at an aligned offset makes the code divide by zero.  A bit-field of an \<open>int\<close> at offset 32 behind
  a \<open>char\<close> gets no padding: the marker is left out because an \<open>int\<close> would be aligned by the compiler, but a
  bit-field is put right behind the \<open>char\<close>.
\<close>

theorem bit_padding_align_0: "bit_padding 8 8 64 0 False = Inl UB"
  by (simp add: bit_padding_def pads_def roundup_def i32_def)

theorem bit_padding_before_bitfield: "bit_padding 8 8 32 4 False = Inr []"
  by (simp add: bit_padding_def pads_def roundup_def i32_def)

end
