(* ===== verification/Btf_Emit.thy ===== *)
theory Btf_Emit imports Btf_Print begin

text \<open>
  The second pass of dumping types (\<open>bpf/libbpf/src/btf_dump.c\<close>): deciding which declarations are printed, with
  forward declarations where they are needed, and the calls of the interface.
\<close>

section \<open>Emitting\<close>

definition set_emit :: "nat \<Rightarrow> btf_dump_type_emit_state \<Rightarrow> btf_dump \<Rightarrow> btf_dump" where
  "set_emit type_id s d = d\<lparr>d_states := (d_states d)[type_id := (d_states d ! type_id)\<lparr>emit_state := s\<rparr>]\<rparr>"

definition set_fwd :: "nat \<Rightarrow> btf_dump \<Rightarrow> btf_dump" where
  "set_fwd type_id d = d\<lparr>d_states := (d_states d)[type_id := (d_states d ! type_id)\<lparr>fwd_emitted := True\<rparr>]\<rparr>"

definition btf_dump_is_blacklisted :: "btf_dump \<Rightarrow> nat \<Rightarrow> bool res" where
  "btf_dump_is_blacklisted d type_id =
     bindr (type_at (d_btf d) type_id) (\<lambda>t.
     bindr (t_name_off t) (\<lambda>name_off.
       if name_off = 0 then Inr False
       else bindr (btf_name_of d name_off) (\<lambda>name. Inr (name = asc ''__builtin_va_list''))))"

text \<open>A declaration of the top level, followed by a semicolon and an empty line.\<close>

definition declare_top :: "decl \<Rightarrow> btf_dump res \<Rightarrow> btf_dump res" where
  "declare_top x m = bindr m (\<lambda>d. Inr (out (asc '';'' @ newline @ newline) (d\<lparr>d_decls := d_decls d @ [x]\<rparr>)))"

definition emit_struct_fwd :: "dump_mem \<Rightarrow> btf_dump \<Rightarrow> nat \<Rightarrow> type_ptr \<Rightarrow> btf_dump res" where
  "emit_struct_fwd mem d type_id t =
     bindr (declare_top (Struct_Fwd type_id) (btf_dump_emit_struct_fwd mem d type_id t)) (\<lambda>d. Inr (set_fwd type_id d))"

definition emit_typedef :: "nat \<Rightarrow> dump_mem \<Rightarrow> btf_dump \<Rightarrow> nat \<Rightarrow> type_ptr \<Rightarrow> btf_dump res" where
  "emit_typedef fuel mem d type_id t =
     bindr (btf_dump_is_blacklisted d type_id) (\<lambda>b.
       if b then Inr d
       else declare_top (Typedef_Def type_id)
              (btf_dump_emit_typedef_def (btf_dump_emit_type_decl fuel mem) mem d type_id t 0))"

text \<open>The loops over members and parameters.\<close>

primrec emit_refs :: "(btf_dump \<Rightarrow> nat \<Rightarrow> btf_dump res) \<Rightarrow> (nat \<Rightarrow> nat res) \<Rightarrow> nat list \<Rightarrow> btf_dump \<Rightarrow> btf_dump res" where
  "emit_refs rec ty [] d = Inr d"
| "emit_refs rec ty (i # is) d = bindr (ty i) (\<lambda>ref. bindr (rec d ref) (emit_refs rec ty is))"

text \<open>A type whose emission has begun: it is needed in its own definition.\<close>

definition emit_again :: "nat \<Rightarrow> dump_mem \<Rightarrow> btf_dump \<Rightarrow> nat \<Rightarrow> nat \<Rightarrow> type_ptr \<Rightarrow> btf_kind \<Rightarrow> btf_dump res" where
  "emit_again fuel mem d type_id cont_id t kind =
     (if fwd_emitted (d_states d ! type_id) then Inr d
      else if btf_is_composite kind
      then if type_id = cont_id then Inr d
           else bindr (t_name_off t) (\<lambda>name_off.
                if name_off = 0 then Inr d else emit_struct_fwd mem d type_id t)
      else if kind = BTF_KIND_TYPEDEF
      then bindr (emit_typedef fuel mem d type_id t) (\<lambda>d. Inr (set_fwd type_id d))
      else Inr d)"

definition emit_composite ::
  "(btf_dump \<Rightarrow> nat \<Rightarrow> nat \<Rightarrow> btf_dump res) \<Rightarrow> nat \<Rightarrow> dump_mem \<Rightarrow> btf_dump \<Rightarrow> nat \<Rightarrow> nat \<Rightarrow> type_ptr \<Rightarrow> btf_dump res" where
  "emit_composite rec fuel mem d type_id cont_id t =
     bindr (t_name_off t) (\<lambda>name_off.
     bindr (btf_vlen t) (\<lambda>vlen.
     let d = set_emit type_id EMITTING d in
     bindr (if cont_id = 0 \<or> name_off = 0
            then emit_refs (\<lambda>d ref. rec d ref (if name_off = 0 then cont_id else type_id)) (member_type t) [0..<vlen] d
            else if \<not> fwd_emitted (d_states d ! type_id) \<and> type_id \<noteq> cont_id then emit_struct_fwd mem d type_id t
            else Inr d) (\<lambda>d.
     if cont_id = 0
     then bindr (declare_top (Struct_Def type_id)
                  (btf_dump_emit_struct_def (btf_dump_emit_type_decl fuel mem) fuel mem d type_id t 0)) (\<lambda>d.
            Inr (set_emit type_id EMITTED d))
     else Inr (set_emit type_id NOT_EMITTED d))))"

definition emit_first ::
  "(btf_dump \<Rightarrow> nat \<Rightarrow> nat \<Rightarrow> btf_dump res) \<Rightarrow> nat \<Rightarrow> dump_mem \<Rightarrow> btf_dump \<Rightarrow> nat \<Rightarrow> nat \<Rightarrow> type_ptr \<Rightarrow> btf_kind \<Rightarrow>
     btf_dump res" where
  "emit_first rec fuel mem d type_id cont_id t kind =
     (if kind = BTF_KIND_INT
      then bindr (btf_dump_emit_missing_aliases mem d type_id) (\<lambda>d. Inr (set_emit type_id EMITTED d))
      else if btf_is_any_enum kind
      then bindr (if cont_id = 0 then declare_top (Enum_Def type_id) (btf_dump_emit_enum_def mem d type_id t 0)
                  else Inr d) (\<lambda>d. Inr (set_emit type_id EMITTED d))
      else if kind = BTF_KIND_PTR \<or> btf_is_mod kind then bindr (t_type t) (\<lambda>ref. rec d ref cont_id)
      else if kind = BTF_KIND_ARRAY then bindr (array_type t) (\<lambda>ref. rec d ref cont_id)
      else if kind = BTF_KIND_FWD
      then bindr (declare_top (Fwd_Def type_id) (btf_dump_emit_fwd_def mem d type_id t)) (\<lambda>d.
             Inr (set_emit type_id EMITTED d))
      else if kind = BTF_KIND_TYPEDEF
      then bindr (t_type t) (\<lambda>ref.
           bindr (rec (set_emit type_id EMITTING d) ref type_id) (\<lambda>d.
           bindr (if fwd_emitted (d_states d ! type_id) then Inr d else emit_typedef fuel mem d type_id t) (\<lambda>d.
             Inr (set_emit type_id EMITTED d))))
      else if btf_is_composite kind then emit_composite rec fuel mem d type_id cont_id t
      else if kind = BTF_KIND_FUNC_PROTO
      then bindr (t_type t) (\<lambda>ref.
           bindr (rec d ref cont_id) (\<lambda>d.
           bindr (btf_vlen t) (\<lambda>vlen. emit_refs (\<lambda>d ref. rec d ref cont_id) (param_type t) [0..<vlen] d)))
      else Inr d)"

primrec btf_dump_emit_type :: "nat \<Rightarrow> dump_mem \<Rightarrow> btf_dump \<Rightarrow> nat \<Rightarrow> nat \<Rightarrow> btf_dump res" where
  "btf_dump_emit_type 0 mem d type_id cont_id = Inl Hang"
| "btf_dump_emit_type (Suc fuel) mem d type_id cont_id =
     bindr (arr (d_states d) type_id) (\<lambda>tstate.
     if emit_state tstate = EMITTED then Inr d
     else
       bindr (type_at (d_btf d) type_id) (\<lambda>t.
       bindr (btf_kind t) (\<lambda>kind.
         if emit_state tstate = EMITTING then emit_again fuel mem d type_id cont_id t kind
         else emit_first (btf_dump_emit_type fuel mem) fuel mem d type_id cont_id t kind)))"

section \<open>The interface\<close>

primrec emit_queue :: "nat \<Rightarrow> dump_mem \<Rightarrow> nat list \<Rightarrow> btf_dump \<Rightarrow> btf_dump res" where
  "emit_queue fuel mem [] d = Inr d"
| "emit_queue fuel mem (i # is) d = bindr (btf_dump_emit_type fuel mem d i 0) (emit_queue fuel mem is)"

definition btf_dump__dump_type :: "nat \<Rightarrow> dump_mem \<Rightarrow> btf_dump \<Rightarrow> nat \<Rightarrow> unit dump" where
  "btf_dump__dump_type fuel mem d type_id =
     bindd (dump_order fuel mem d type_id) (\<lambda>d _.
     bindr (emit_queue fuel mem (queue d) d) (\<lambda>d. Inr (d, Inr ())))"

text \<open>The options: whether they are valid, the name of the field, the indentation, and whether modifiers are left out.\<close>

definition btf_dump__emit_type_decl ::
  "nat \<Rightarrow> dump_mem \<Rightarrow> btf_dump \<Rightarrow> nat \<Rightarrow> bool \<Rightarrow> u8 list \<Rightarrow> nat \<Rightarrow> bool \<Rightarrow> unit dump" where
  "btf_dump__emit_type_decl fuel mem d type_id opts_valid fname lvl strip_mods =
     (if \<not> opts_valid then Inr (d, Inl EINVAL)
      else
        bindr (btf_dump_resize mem d) (\<lambda>(d, err).
        case err of
          Some e \<Rightarrow> Inr (d, Inl e)
        | None \<Rightarrow>
            bindr (btf_dump_emit_type_decl fuel mem (d\<lparr>d_strip_mods := strip_mods\<rparr>) type_id fname lvl) (\<lambda>d.
              Inr (d\<lparr>d_strip_mods := False\<rparr>, Inr ()))))"

end
