(* ===== verification/Btf_Emitted.thy ===== *)
theory Btf_Emitted imports Btf_Emit Btf_Ordered begin

text \<open>
  Printing changes nothing that decides about declarations: every routine of Btf_Print, when it succeeds, leaves all
  but the text, the names and the stack of declarations as they were.
\<close>

section \<open>Printing\<close>

text \<open>The state without what printing changes: the text, the names, the stack of declarations.\<close>

definition no_names :: "u8 list list hashmap" where
  "no_names = hashmap__init str_hash_fn str_equal_fn"

definition erase :: "btf_dump \<Rightarrow> btf_dump" where
  "erase d = d\<lparr>d_text := [], d_names := [], d_states := map (\<lambda>s. s\<lparr>name_resolved := False\<rparr>) (d_states d), d_store := [],
     d_type_names := no_names, d_ident_names := no_names, d_decl_cap := 0, d_decl_cnt := 0, d_decl_block := 0\<rparr>"

definition printed :: "btf_dump \<Rightarrow> btf_dump \<Rightarrow> bool" where
  "printed d d' \<longleftrightarrow> erase d' = erase d"

named_theorems print_intros \<open>what only prints\<close>

lemma printed_refl [print_intros]: "printed d d"
  by (simp add: printed_def)

lemma printed_trans: "printed a b \<Longrightarrow> printed b c \<Longrightarrow> printed a c"
  by (simp add: printed_def)

lemma map_same_update: "(\<And>x. f (g x) = f x) \<Longrightarrow> map f (xs[i := g (xs ! i)]) = map f xs"
  by (rule nth_equalityI) (simp_all add: nth_update_in)

lemma printed_steps [print_intros]:
  "printed d x \<Longrightarrow> printed d (out s x)" "printed d x \<Longrightarrow> printed d (put t x)"
  "printed d x \<Longrightarrow> printed d (set_names m hm x)" "printed d x \<Longrightarrow> printed d (x\<lparr>d_store := st\<rparr>)"
  "printed d x \<Longrightarrow> printed d (x\<lparr>d_names := ns\<rparr>)" "printed d x \<Longrightarrow> printed d (x\<lparr>d_decl_cnt := n\<rparr>)"
  "printed d x \<Longrightarrow> printed d (x\<lparr>d_decl_cap := n, d_decl_block := k\<rparr>)" "printed d x \<Longrightarrow> printed d (btf_dump_emit_name x name b)"
  by (cases m; simp add: printed_def erase_def out_def put_def set_names_def btf_dump_emit_name_def)+

lemma printed_resolved [print_intros]: "printed d x \<Longrightarrow> printed d (set_resolved i x)"
  using map_same_update [of "\<lambda>s. s\<lparr>name_resolved := False\<rparr>" "\<lambda>s. s\<lparr>name_resolved := True\<rparr>" "d_states x" i]
  by (simp add: printed_def erase_def set_resolved_def)

lemma printed_pads [print_intros]: "printed d x \<Longrightarrow> printed d (out_pads lvl fs x)"
  by (induction fs arbitrary: x) (auto intro: print_intros)

text \<open>A routine that, when it succeeds, has only printed, as seen from an earlier state \<open>d\<close>.\<close>

definition keeps :: "btf_dump \<Rightarrow> btf_dump res \<Rightarrow> bool" where
  "keeps d m \<longleftrightarrow> (case m of Inl e \<Rightarrow> True | Inr x \<Rightarrow> printed d x)"

definition keeps_pair :: "btf_dump \<Rightarrow> (btf_dump \<times> 'a) res \<Rightarrow> bool" where
  "keeps_pair d m \<longleftrightarrow> (case m of Inl e \<Rightarrow> True | Inr (x, y) \<Rightarrow> printed d x)"

lemma keeps_res [print_intros]: "printed d x \<Longrightarrow> keeps d (Inr x)" "keeps d (Inl e)"
  "printed d x \<Longrightarrow> keeps_pair d (Inr (x, y))" "keeps_pair d (Inl e)"
  by (simp_all add: keeps_def keeps_pair_def)

lemma keeps_if [print_intros]:
  "(b \<Longrightarrow> keeps d m) \<Longrightarrow> (\<not> b \<Longrightarrow> keeps d m') \<Longrightarrow> keeps d (if b then m else m')"
  "(b \<Longrightarrow> keeps_pair d p) \<Longrightarrow> (\<not> b \<Longrightarrow> keeps_pair d p') \<Longrightarrow> keeps_pair d (if b then p else p')"
  "(b \<Longrightarrow> printed d x) \<Longrightarrow> (\<not> b \<Longrightarrow> printed d x') \<Longrightarrow> printed d (if b then x else x')"
  by simp_all

lemma keeps_read:
  "(\<And>x y. keeps d (h x y)) \<Longrightarrow> keeps d (bindr m' (\<lambda>(x, y). h x y))"
  "(\<And>x. keeps d (f x)) \<Longrightarrow> keeps d (bindr m f)" "(\<And>x. keeps_pair d (g x)) \<Longrightarrow> keeps_pair d (bindr m g)"
  by (cases m; cases m'; auto simp: keeps_def keeps_pair_def)+

lemma keeps_bind:
  "keeps d m \<Longrightarrow> (\<And>x. printed d x \<Longrightarrow> keeps d (f x)) \<Longrightarrow> keeps d (bindr m f)"
  "keeps d m \<Longrightarrow> (\<And>x. printed d x \<Longrightarrow> keeps_pair d (g x)) \<Longrightarrow> keeps_pair d (bindr m g)"
  "keeps_pair d p \<Longrightarrow> (\<And>x y. printed d x \<Longrightarrow> keeps d (h x y)) \<Longrightarrow> keeps d (bindr p (\<lambda>(x, y). h x y))"
  "keeps_pair d p \<Longrightarrow> (\<And>x y. printed d x \<Longrightarrow> keeps_pair d (k x y)) \<Longrightarrow> keeps_pair d (bindr p (\<lambda>(x, y). k x y))"
  by (cases m; cases p; auto simp: keeps_def keeps_pair_def)+

lemma keeps_case [print_intros]:
  "keeps d m \<Longrightarrow> (\<And>j js. keeps d (f j js)) \<Longrightarrow> keeps d (case xs of [] \<Rightarrow> m | j # js \<Rightarrow> f j js)"
  "keeps d m \<Longrightarrow> (\<And>y. keeps d (g y)) \<Longrightarrow> keeps d (case z of None \<Rightarrow> m | Some y \<Rightarrow> g y)"
  by (auto split: list.split option.split)

lemma keepsD: "keeps d m \<Longrightarrow> m = Inr x \<Longrightarrow> printed d x" "keeps_pair d p \<Longrightarrow> p = Inr (x, y) \<Longrightarrow> printed d x"
  by (simp_all add: keeps_def keeps_pair_def)

lemma name_dups_printed: "printed d x \<Longrightarrow> printed d (fst (btf_dump_name_dups mem x m name))"
  by (auto simp: btf_dump_name_dups_def Let_def split: prod.split intro!: print_intros)

lemma name_dups_split:
  "(\<And>x n. printed d x \<Longrightarrow> keeps d (f x n)) \<Longrightarrow> printed d y \<Longrightarrow> keeps d (case btf_dump_name_dups mem y m name of (x, n) \<Rightarrow> f x n)"
  "(\<And>x n. printed d x \<Longrightarrow> keeps_pair d (g x n)) \<Longrightarrow> printed d y \<Longrightarrow> keeps_pair d (case btf_dump_name_dups mem y m name of (x, n) \<Rightarrow> g x n)"
  using name_dups_printed [of d y mem m name] by (auto split: prod.split)

lemma name_keeps [print_intros]:
  "printed d x \<Longrightarrow> keeps_pair d (btf_dump_type_name mem x i)" "printed d x \<Longrightarrow> keeps_pair d (btf_dump_ident_name mem x i)"
proof -
  have "keeps_pair d (btf_dump_resolve_name mem x i m)" if "printed d x" for m
    unfolding btf_dump_resolve_name_def Let_def
    by (intro keeps_read print_intros name_dups_split that) (assumption | rule that)+
  then show "printed d x \<Longrightarrow> keeps_pair d (btf_dump_type_name mem x i)" "printed d x \<Longrightarrow> keeps_pair d (btf_dump_ident_name mem x i)"
    by (simp_all add: btf_dump_type_name_def btf_dump_ident_name_def)
qed

lemma padding_keeps [print_intros]: "printed d x \<Longrightarrow> keeps d (btf_dump_emit_bit_padding x a b c f lvl)"
  unfolding btf_dump_emit_bit_padding_def by (intro keeps_read print_intros)

lemma struct_fwd_keeps [print_intros]: "printed d x \<Longrightarrow> keeps d (btf_dump_emit_struct_fwd mem x i t)"
  unfolding btf_dump_emit_struct_fwd_def by (intro keeps_bind keeps_read print_intros)

definition rec_keeps :: "(btf_dump \<Rightarrow> nat \<Rightarrow> u8 list \<Rightarrow> nat \<Rightarrow> btf_dump res) \<Rightarrow> bool" where
  "rec_keeps rec \<longleftrightarrow> (\<forall>d x i f l. printed d x \<longrightarrow> keeps d (rec x i f l))"

lemma rec_keepsD: "rec_keeps rec \<Longrightarrow> printed d x \<Longrightarrow> keeps d (rec x i f l)"
  by (simp add: rec_keeps_def)

lemma members_keeps: "rec_keeps rec \<Longrightarrow> printed d x \<Longrightarrow> keeps_pair d (emit_members rec fuel packed t lvl js x off b)"
proof (induction js arbitrary: x off b)
  case Nil
  then show ?case by (auto intro: print_intros)
next
  case (Cons j js)
  show ?case
    unfolding emit_members.simps by (intro keeps_bind keeps_read print_intros rec_keepsD Cons.IH Cons.prems)
qed

lemma struct_def_keeps: "rec_keeps rec \<Longrightarrow> printed d x \<Longrightarrow> keeps d (btf_dump_emit_struct_def rec fuel mem x i t lvl)"
  unfolding btf_dump_emit_struct_def_def Let_def by (intro keeps_bind keeps_read print_intros members_keeps)

lemma aliases_keeps [print_intros]: "printed d x \<Longrightarrow> keeps d (btf_dump_emit_missing_aliases mem x i)"
  unfolding btf_dump_emit_missing_aliases_def
  by (intro keeps_bind keeps_read print_intros) (auto split: option.split intro: print_intros)

lemma enum_fwd_keeps [print_intros]: "printed d x \<Longrightarrow> keeps d (btf_dump_emit_enum_fwd mem x i)"
  unfolding btf_dump_emit_enum_fwd_def by (intro keeps_bind keeps_read print_intros)

lemma enumerator_keeps [print_intros]: "printed d x \<Longrightarrow> keeps d (emit_enumerator mem lvl x n v)"
  unfolding emit_enumerator_def by (intro keeps_read name_dups_split print_intros)

lemma enum_vals_keeps [print_intros]:
  "printed d x \<Longrightarrow> keeps d (btf_dump_emit_enum32_val mem t s lvl js x)"
  "printed d x \<Longrightarrow> keeps d (btf_dump_emit_enum64_val mem t s lvl js x)"
proof (induction js arbitrary: x)
  case (Cons j js)
  { case 1 then show ?case unfolding btf_dump_emit_enum32_val.simps by (intro keeps_bind keeps_read print_intros Cons.IH) }
  { case 2 then show ?case unfolding btf_dump_emit_enum64_val.simps by (intro keeps_bind keeps_read print_intros Cons.IH) }
qed (auto intro: print_intros)

lemma enum_def_keeps [print_intros]: "printed d x \<Longrightarrow> keeps d (btf_dump_emit_enum_def mem x i t lvl)"
  unfolding btf_dump_emit_enum_def_def Let_def by (intro keeps_bind keeps_read print_intros)

lemma fwd_def_keeps [print_intros]: "printed d x \<Longrightarrow> keeps d (btf_dump_emit_fwd_def mem x i t)"
  unfolding btf_dump_emit_fwd_def_def by (intro keeps_bind keeps_read print_intros)

lemma typedef_def_keeps: "rec_keeps rec \<Longrightarrow> printed d x \<Longrightarrow> keeps d (btf_dump_emit_typedef_def rec mem x i t lvl)"
  unfolding btf_dump_emit_typedef_def_def by (intro keeps_bind keeps_read print_intros rec_keepsD)

lemma push_printed: "printed d x \<Longrightarrow> btf_dump_push_decl_stack_id mem x = Inr (x', r) \<Longrightarrow> printed d x'"
  by (auto simp: btf_dump_push_decl_stack_id_def bindd_def Let_def split: if_splits intro!: print_intros)

lemma decl_ids_keeps: "printed d x \<Longrightarrow> keeps_pair d (decl_ids fuel mem x i ids)"
proof (induction fuel arbitrary: x i ids)
  case (Suc fuel)
  have push: "keeps_pair d (btf_dump_push_decl_stack_id mem x)"
    using push_printed [OF Suc.prems] by (auto simp: keeps_pair_def split: sum.split)
  show ?case
    unfolding decl_ids.simps Let_def by (intro keeps_bind keeps_read print_intros push Suc)
qed (simp add: keeps_pair_def)

lemma mods_keeps [print_intros]: "printed d x \<Longrightarrow> keeps_pair d (btf_dump_emit_mods x block js)"
proof (induction js arbitrary: x)
  case (Cons j js)
  show ?case
    unfolding btf_dump_emit_mods.simps
    by (rule keeps_read(3)) (auto intro!: print_intros Cons split: prod.split)
qed (auto intro: print_intros)

lemma params_keeps: "rec_keeps rec \<Longrightarrow> printed d x \<Longrightarrow> keeps d (emit_params rec t vlen lvl js x)"
proof (induction js arbitrary: x)
  case (Cons j js)
  show ?case
    unfolding emit_params.simps Let_def by (intro keeps_bind keeps_read print_intros rec_keepsD Cons)
qed (auto intro: print_intros)

lemma chain_keeps:
  "rec_keeps rec \<Longrightarrow> printed d x \<Longrightarrow> keeps d (btf_dump_emit_type_chain n rec fuel mem block fname lvl x js b)"
proof (induction n arbitrary: x js b)
  case (Suc n)
  show ?case
  proof (cases js)
    case Nil
    then show ?thesis using Suc.prems by (auto intro: print_intros)
  next
    case (Cons i rest)
    show ?thesis
      unfolding btf_dump_emit_type_chain.simps Cons list.case Let_def
      by (intro keeps_bind keeps_read print_intros Suc struct_def_keeps params_keeps)
  qed
qed (simp add: keeps_def)

lemma type_decl_keeps: "rec_keeps (btf_dump_emit_type_decl fuel mem)"
proof (induction fuel)
  case (Suc fuel)
  have "keeps d (btf_dump_emit_type_decl (Suc fuel) mem x i f l)" if "printed d x" for d x i f l
    unfolding btf_dump_emit_type_decl.simps Let_def
    by (intro keeps_bind print_intros decl_ids_keeps chain_keeps Suc that)
  then show ?case by (simp add: rec_keeps_def)
qed (simp add: rec_keeps_def keeps_def)

end
