(* ===== verification/Btf_Declared.thy ===== *)
theory Btf_Declared imports Btf_Emitted begin

text \<open>
  What the second pass of dumping prints: every declaration at most once, and the definition of a structure
  behind the definitions of all that it needs, when the queue of the first pass is in order.
\<close>

section \<open>Declarations in order\<close>

definition kind_at :: "btf \<Rightarrow> nat \<Rightarrow> btf_kind res" where
  "kind_at btf i = bindr (type_at btf i) btf_kind"

text \<open>A typedef that is not printed, because compilers have the type built in.\<close>

definition builtin :: "btf \<Rightarrow> nat \<Rightarrow> bool" where
  "builtin btf i \<longleftrightarrow> (\<exists>t n s. type_at btf i = Inr t \<and> t_name_off t = Inr n \<and> n \<noteq> 0 \<and>
     bindr (name_at btf n) deref = Inr s \<and> s = asc ''__builtin_va_list'')"

definition defined :: "btf \<Rightarrow> decl list \<Rightarrow> nat \<Rightarrow> bool" where
  "defined btf ds k \<longleftrightarrow> (\<exists>kind. kind_at btf k = Inr kind \<and>
     (btf_is_composite kind \<and> Struct_Def k \<in> set ds \<or> btf_is_any_enum kind \<and> Enum_Def k \<in> set ds \<or>
      kind = BTF_KIND_FWD \<and> Fwd_Def k \<in> set ds \<or> kind = BTF_KIND_TYPEDEF \<and> (Typedef_Def k \<in> set ds \<or> builtin btf k)))"

definition decls_in_order :: "btf \<Rightarrow> (nat \<Rightarrow> bool) \<Rightarrow> decl list \<Rightarrow> bool" where
  "decls_in_order btf refd ds \<longleftrightarrow>
     (\<forall>p < length ds. \<forall>i k. ds ! p = Struct_Def i \<longrightarrow> def_needs btf refd i k \<longrightarrow> defined btf (take p ds) k)"

lemma decls_in_order_Nil [simp]: "decls_in_order btf refd []"
  by (simp add: decls_in_order_def)

lemma decls_in_order_snoc:
  "decls_in_order btf refd (ds @ [x]) \<longleftrightarrow> decls_in_order btf refd ds \<and>
     (\<forall>i k. x = Struct_Def i \<longrightarrow> def_needs btf refd i k \<longrightarrow> defined btf ds k)"
  by (auto simp: decls_in_order_def less_Suc_eq nth_append)

text \<open>What is needed is a structure with a name, an enumeration, a forward type or a typedef.\<close>

lemma needs_self: "needs btf refd p i k \<Longrightarrow> needs btf refd False k k"
  by (induction rule: needs.induct) (auto intro: needs.intros)

definition is_def :: "btf \<Rightarrow> (nat \<Rightarrow> bool) \<Rightarrow> nat \<Rightarrow> bool" where
  "is_def btf refd k \<longleftrightarrow> (\<exists>t kind n. type_at btf k = Inr t \<and> btf_kind t = Inr kind \<and> t_name_off t = Inr n \<and>
     (btf_is_composite kind \<and> n \<noteq> 0 \<or> enum_kind kind \<and> (n \<noteq> 0 \<or> \<not> refd k))) \<or> kind_at btf k = Inr BTF_KIND_TYPEDEF"

lemma needs_is_def: "needs btf refd p i k \<Longrightarrow> is_def btf refd k"
  by (induction rule: needs.induct) (auto simp: is_def_def kind_at_def)

lemma def_needs_is_def: "def_needs btf refd i k \<Longrightarrow> is_def btf refd k"
  using needs_is_def by (auto simp: def_needs_def)

section \<open>States and declarations\<close>

text \<open>What is known of the states of types, given the declarations that were printed: \<open>e\<close> says how far the emission of
  a type has come, \<open>f\<close> whether it was declared ahead.\<close>

definition decl_inv ::
  "btf \<Rightarrow> (nat \<Rightarrow> bool) \<Rightarrow> (nat \<Rightarrow> btf_dump_type_emit_state) \<Rightarrow> (nat \<Rightarrow> bool) \<Rightarrow> decl list \<Rightarrow> bool" where
  "decl_inv btf refd e f ds \<longleftrightarrow> distinct ds \<and> decls_in_order btf refd ds \<and>
     (\<forall>i. Struct_Fwd i \<in> set ds \<longrightarrow> f i) \<and>
     (\<forall>i. (Struct_Def i \<in> set ds \<or> Enum_Def i \<in> set ds \<or> Fwd_Def i \<in> set ds) \<longrightarrow> e i = EMITTED) \<and>
     (\<forall>i. Typedef_Def i \<in> set ds \<longrightarrow> f i \<or> e i = EMITTED) \<and>
     (\<forall>i. kind_at btf i = Inr BTF_KIND_TYPEDEF \<and> f i \<longrightarrow> Typedef_Def i \<in> set ds \<or> builtin btf i) \<and>
     (\<forall>i. e i = EMITTED \<and> is_def btf refd i \<longrightarrow> defined btf ds i)"

lemma decl_inv_defined: "decl_inv btf refd e f ds \<Longrightarrow> e k = EMITTED \<Longrightarrow> needs btf refd p i k \<Longrightarrow> defined btf ds k"
  using needs_is_def by (auto simp: decl_inv_def)

lemma defined_mono: "defined btf ds k \<Longrightarrow> set ds \<subseteq> set ds' \<Longrightarrow> defined btf ds' k"
  unfolding defined_def by blast

lemma decl_inv_working: "decl_inv btf refd e f ds \<Longrightarrow> e i \<noteq> EMITTED \<Longrightarrow> s \<noteq> EMITTED \<Longrightarrow> decl_inv btf refd (e(i := s)) f ds"
  by (auto simp: decl_inv_def)

lemma decl_inv_done: "decl_inv btf refd e f ds \<Longrightarrow> is_def btf refd i \<Longrightarrow> defined btf ds i \<Longrightarrow> decl_inv btf refd (e(i := EMITTED)) f ds"
  by (auto simp: decl_inv_def)

lemma decl_inv_other: "decl_inv btf refd e f ds \<Longrightarrow> \<not> is_def btf refd i \<Longrightarrow> decl_inv btf refd (e(i := EMITTED)) f ds"
  by (auto simp: decl_inv_def)

text \<open>A new declaration.\<close>

lemma defined_snoc [simp]: "defined btf ds k \<Longrightarrow> defined btf (ds @ [x]) k"
  by (erule defined_mono) auto

lemma decl_inv_struct_fwd:
  "decl_inv btf refd e f ds \<Longrightarrow> \<not> f i \<Longrightarrow> kind_at btf i = Inr kind \<Longrightarrow> btf_is_composite kind \<Longrightarrow>
     decl_inv btf refd e (f(i := True)) (ds @ [Struct_Fwd i])"
  by (auto simp: decl_inv_def decls_in_order_snoc btf_is_composite_def)

lemma decl_inv_typedef:
  assumes "decl_inv btf refd e f ds" "\<not> f i" "e i \<noteq> EMITTED"
  shows "decl_inv btf refd e (f(i := True)) (ds @ [Typedef_Def i])"
    "kind_at btf i = Inr BTF_KIND_TYPEDEF \<Longrightarrow> decl_inv btf refd (e(i := EMITTED)) f (ds @ [Typedef_Def i])"
    "builtin btf i \<Longrightarrow> decl_inv btf refd e (f(i := True)) ds"
    "kind_at btf i = Inr BTF_KIND_TYPEDEF \<Longrightarrow> builtin btf i \<Longrightarrow> decl_inv btf refd (e(i := EMITTED)) f ds"
  using assms by (auto simp: decl_inv_def decls_in_order_snoc defined_def)

lemma decl_inv_def_of:
  assumes "decl_inv btf refd e f ds" "e i \<noteq> EMITTED" "kind_at btf i = Inr kind"
  shows "btf_is_composite kind \<Longrightarrow> (\<And>k. def_needs btf refd i k \<Longrightarrow> e k = EMITTED) \<Longrightarrow>
      decl_inv btf refd (e(i := EMITTED)) f (ds @ [Struct_Def i])"
    "btf_is_any_enum kind \<Longrightarrow> decl_inv btf refd (e(i := EMITTED)) f (ds @ [Enum_Def i])"
    "kind = BTF_KIND_FWD \<Longrightarrow> decl_inv btf refd (e(i := EMITTED)) f (ds @ [Fwd_Def i])"
proof -
  note a = assms(1) [unfolded decl_inv_def] and kinds = btf_is_composite_def btf_is_any_enum_def
  { assume c: "btf_is_composite kind" and n: "\<And>k. def_needs btf refd i k \<Longrightarrow> e k = EMITTED"
    have "defined btf ds k" if "def_needs btf refd i k" for k
      using def_needs_is_def [OF that] n [OF that] a by blast
    then show "decl_inv btf refd (e(i := EMITTED)) f (ds @ [Struct_Def i])"
      unfolding decl_inv_def decls_in_order_snoc
      using a assms(2,3) c by (auto simp: defined_def [of _ "ds @ [Struct_Def i]" i]) }
  show "btf_is_any_enum kind \<Longrightarrow> decl_inv btf refd (e(i := EMITTED)) f (ds @ [Enum_Def i])"
    unfolding decl_inv_def decls_in_order_snoc
    using a assms(2,3) by (auto simp: defined_def [of _ "ds @ [Enum_Def i]" i])
  show "kind = BTF_KIND_FWD \<Longrightarrow> decl_inv btf refd (e(i := EMITTED)) f (ds @ [Fwd_Def i])"
    unfolding decl_inv_def decls_in_order_snoc
    using a assms(2,3) by (auto simp: defined_def [of _ "ds @ [Fwd_Def i]" i])
qed

section \<open>Steps of the emission\<close>

text \<open>The state of emission of each type; printing leaves it as it is.\<close>

definition em :: "btf_dump \<Rightarrow> nat \<Rightarrow> btf_dump_type_emit_state" where
  "em d i = (if i < length (d_states d) then emit_state (d_states d ! i) else NOT_EMITTED)"

definition fw :: "btf_dump \<Rightarrow> nat \<Rightarrow> bool" where
  "fw d i \<longleftrightarrow> i < length (d_states d) \<and> fwd_emitted (d_states d ! i)"

lemma em_fw_simps [simp]:
  "i < length (d_states d) \<Longrightarrow> em (set_emit i s d) = (em d)(i := s)" "fw (set_emit i s d) = fw d"
  "em (set_fwd i d) = em d" "i < length (d_states d) \<Longrightarrow> fw (set_fwd i d) = (fw d)(i := True)"
  "length (d_states (set_emit i s d)) = length (d_states d)" "length (d_states (set_fwd i d)) = length (d_states d)"
  "d_btf (set_emit i s d) = d_btf d" "d_btf (set_fwd i d) = d_btf d"
  "d_decls (set_emit i s d) = d_decls d" "d_decls (set_fwd i d) = d_decls d"
  by (auto simp: em_def fw_def set_emit_def set_fwd_def nth_update_in fun_eq_iff split: if_splits)

text \<open>All that emission does not change: everything but the text, the declarations, and how far types have come.\<close>

definition ungo :: "type_state \<Rightarrow> type_state" where
  "ungo s = s\<lparr>emit_state := NOT_EMITTED, fwd_emitted := False\<rparr>"

definition quiet :: "btf_dump \<Rightarrow> btf_dump" where
  "quiet d = (erase d)\<lparr>d_states := map ungo (d_states (erase d)), d_decls := []\<rparr>"

lemma quiet_updates [simp]:
  "quiet (set_emit i s d) = quiet d" "quiet (set_fwd i d) = quiet d" "quiet (d\<lparr>d_decls := ds\<rparr>) = quiet d"
proof -
  let ?f = "\<lambda>s. ungo (s\<lparr>name_resolved := False\<rparr>)"
  show "quiet (set_emit i s d) = quiet d"
    using map_same_update [of ?f "\<lambda>st. st\<lparr>emit_state := s\<rparr>" "d_states d" i]
    by (simp add: quiet_def erase_def set_emit_def ungo_def comp_def)
  show "quiet (set_fwd i d) = quiet d"
    using map_same_update [of ?f "\<lambda>st. st\<lparr>fwd_emitted := True\<rparr>" "d_states d" i]
    by (simp add: quiet_def erase_def set_fwd_def ungo_def comp_def)
qed (simp add: quiet_def erase_def)

definition emit_step :: "btf_dump \<Rightarrow> btf_dump \<Rightarrow> bool" where
  "emit_step d d' \<longleftrightarrow> quiet d' = quiet d \<and> (\<exists>ext. d_decls d' = d_decls d @ ext) \<and>
     (\<forall>i. (em d i = EMITTED \<longrightarrow> em d' i = EMITTED) \<and> (em d i = EMITTING \<longleftrightarrow> em d' i = EMITTING) \<and> (fw d i \<longrightarrow> fw d' i))"

lemma emit_step_refl [simp]: "emit_step d d"
  by (simp add: emit_step_def)

lemma emit_step_trans: "emit_step a b \<Longrightarrow> emit_step b c \<Longrightarrow> emit_step a c"
  by (auto simp: emit_step_def)

lemma quiet_same:
  assumes "quiet d' = quiet d"
  shows "d_btf d' = d_btf d" "d_queue d' = d_queue d" "d_queue_cnt d' = d_queue_cnt d" "d_queue_cap d' = d_queue_cap d"
    "length (d_states d') = length (d_states d)"
    "i < length (d_states d) \<Longrightarrow> order_state (d_states d' ! i) = order_state (d_states d ! i)"
    "i < length (d_states d) \<Longrightarrow> referenced (d_states d' ! i) = referenced (d_states d ! i)"
proof -
  let ?f = "\<lambda>s. ungo (s\<lparr>name_resolved := False\<rparr>)"
  have "d_btf (quiet d') = d_btf (quiet d)" "d_queue (quiet d') = d_queue (quiet d)" "d_queue_cnt (quiet d') = d_queue_cnt (quiet d)"
    "d_queue_cap (quiet d') = d_queue_cap (quiet d)" "d_states (quiet d') = d_states (quiet d)"
    using assms by simp_all
  then show "d_btf d' = d_btf d" "d_queue d' = d_queue d" "d_queue_cnt d' = d_queue_cnt d" "d_queue_cap d' = d_queue_cap d"
    and m: "length (d_states d') = length (d_states d)"
    by (auto simp: quiet_def erase_def dest: map_eq_imp_length_eq)
  from \<open>d_states (quiet d') = d_states (quiet d)\<close> have "map ?f (d_states d') = map ?f (d_states d)"
    by (simp add: quiet_def erase_def comp_def)
  then have f: "?f (d_states d' ! i) = ?f (d_states d ! i)" if "i < length (d_states d)"
    using that m by (metis nth_map)
  show "order_state (d_states d' ! i) = order_state (d_states d ! i)" if "i < length (d_states d)"
    using arg_cong [OF f [OF that], of order_state] by (simp add: ungo_def)
  show "referenced (d_states d' ! i) = referenced (d_states d ! i)" if "i < length (d_states d)"
    using arg_cong [OF f [OF that], of referenced] by (simp add: ungo_def)
qed

lemma printed_em: "printed d d' \<Longrightarrow> quiet d' = quiet d \<and> em d' = em d \<and> fw d' = fw d \<and> d_decls d' = d_decls d"
proof -
  let ?f = "\<lambda>s. s\<lparr>name_resolved := False\<rparr>"
  assume "printed d d'"
  then have e: "erase d' = erase d" by (simp add: printed_def)
  then have "d_states (erase d') = d_states (erase d)" "d_decls (erase d') = d_decls (erase d)" by simp_all
  then have m: "map ?f (d_states d') = map ?f (d_states d)" "d_decls d' = d_decls d" by (simp_all add: erase_def)
  from m(1) have l: "length (d_states d') = length (d_states d)" by (rule map_eq_imp_length_eq)
  have f: "?f (d_states d' ! i) = ?f (d_states d ! i)" if "i < length (d_states d)" for i
    using that m(1) l by (metis nth_map)
  have "em d' i = em d i \<and> fw d' i = fw d i" for i
    using l arg_cong [OF f [of i], of emit_state] arg_cong [OF f [of i], of fwd_emitted] by (simp add: em_def fw_def)
  then show ?thesis using e m(2) by (auto simp: quiet_def)
qed

text \<open>The invariant of a dump object, and what the emission of a type inside of a declaration asks for: all that
  its use behind a pointer needs is there.\<close>

definition declared_inv :: "(nat \<Rightarrow> bool) \<Rightarrow> btf_dump \<Rightarrow> bool" where
  "declared_inv refd d \<longleftrightarrow> decl_inv (d_btf d) refd (em d) (fw d) (d_decls d)"

definition emit_ready :: "(nat \<Rightarrow> bool) \<Rightarrow> btf_dump \<Rightarrow> nat \<Rightarrow> bool" where
  "emit_ready refd d x \<longleftrightarrow> (\<forall>k. needs (d_btf d) refd True x k \<longrightarrow> em d k = EMITTED)"

lemma emit_step_em:
  "emit_step d d' \<Longrightarrow> em d i = EMITTED \<Longrightarrow> em d' i = EMITTED" "emit_step d d' \<Longrightarrow> em d' i = EMITTING \<longleftrightarrow> em d i = EMITTING"
  unfolding emit_step_def by blast+

lemma emit_step_btf: "emit_step d d' \<Longrightarrow> d_btf d' = d_btf d" "emit_step d d' \<Longrightarrow> length (d_states d') = length (d_states d)"
  unfolding emit_step_def by (rule quiet_same, erule conjunct1)+

lemma emit_ready_step: "emit_ready refd d x \<Longrightarrow> emit_step d d' \<Longrightarrow> emit_ready refd d' x"
  using emit_step_btf(1) [of d d'] by (auto simp: emit_ready_def emit_step_def)

lemma emit_ready_needs: "(\<And>k. needs (d_btf d) refd p x k \<Longrightarrow> em d k = EMITTED) \<Longrightarrow> emit_ready refd d x"
  using needs_weaken unfolding emit_ready_def by blast

lemma emit_ready_working:
  "emit_ready refd d x \<Longrightarrow> em d i \<noteq> EMITTED \<Longrightarrow> i < length (d_states d) \<Longrightarrow> emit_ready refd (set_emit i s d) x"
  by (auto simp: emit_ready_def)

text \<open>A type is worked on, and then put into its new state.\<close>

lemma emit_step_around:
  assumes "em d i = NOT_EMITTED" "i < length (d_states d)" "emit_step (set_emit i EMITTING d) d2"
    and "quiet d3 = quiet d2" "em d3 = em d2" "\<And>j. fw d2 j \<Longrightarrow> fw d3 j" "d_decls d3 = d_decls d2 @ ys" "s \<noteq> EMITTING"
  shows "emit_step d (set_emit i s d3)"
proof -
  have l: "i < length (d_states d3)" using assms(2) quiet_same(5) [OF assms(4)] emit_step_btf(2) [OF assms(3)] by simp
  have w: "(j = i \<or> em d j = EMITTED \<longrightarrow> j = i \<or> em d2 j = EMITTED) \<and> (em d2 j = EMITTING \<longleftrightarrow> j = i \<or> em d j = EMITTING) \<and>
    (fw d j \<longrightarrow> fw d2 j)" for j
    using assms(2,3) by (simp add: emit_step_def) (metis btf_dump_type_emit_state.distinct(5))
  then have "(em d j = EMITTED \<longrightarrow> em (set_emit i s d3) j = EMITTED) \<and> (em d j = EMITTING \<longleftrightarrow> em (set_emit i s d3) j = EMITTING) \<and>
    (fw d j \<longrightarrow> fw (set_emit i s d3) j)" for j
    using w [of j] assms(1,5,6,8) l by auto
  moreover have "\<exists>ext. d_decls d3 = d_decls d @ ext" using assms(3,7) by (auto simp: emit_step_def)
  moreover have "quiet d3 = quiet d" using assms(3,4) by (simp add: emit_step_def)
  ultimately show ?thesis by (simp add: emit_step_def)
qed

lemma emit_step_leaf:
  "em d i = NOT_EMITTED \<Longrightarrow> i < length (d_states d) \<Longrightarrow> quiet d' = quiet d \<Longrightarrow> em d' = em d \<Longrightarrow> fw d' = fw d \<Longrightarrow>
     d_decls d' = d_decls d @ ys \<Longrightarrow> s \<noteq> EMITTING \<Longrightarrow> emit_step d (set_emit i s d')"
  using quiet_same(5) [of d' d] by (auto simp: emit_step_def)

section \<open>Declarations of the top level\<close>

lemma declare_top_Inr:
  assumes "keeps d m" "declare_top x m = Inr d'"
  shows "quiet d' = quiet d" "em d' = em d" "fw d' = fw d" "d_decls d' = d_decls d @ [x]" "d_btf d' = d_btf d"
    "length (d_states d') = length (d_states d)"
proof -
  from assms(2) obtain d1 where d1: "m = Inr d1" "d' = out (asc '';'' @ newline @ newline) (d1\<lparr>d_decls := d_decls d1 @ [x]\<rparr>)"
    by (auto simp: declare_top_def bindr_eq_Inr)
  note p = printed_em [OF keepsD(1) [OF assms(1) d1(1)]]
  have "quiet (out s y) = quiet y" for s y by (simp add: quiet_def erase_def out_def)
  with d1(2) p show q: "quiet d' = quiet d" by simp
  have "em (out s (y\<lparr>d_decls := ds\<rparr>)) = em y" "fw (out s (y\<lparr>d_decls := ds\<rparr>)) = fw y" for s y ds
    by (simp_all add: out_def em_def fw_def fun_eq_iff)
  with d1(2) p show "em d' = em d" "fw d' = fw d" "d_decls d' = d_decls d @ [x]" by (simp_all add: out_def)
  show "d_btf d' = d_btf d" "length (d_states d') = length (d_states d)" using quiet_same(1,5) [OF q] by simp_all
qed

lemma struct_fwd_emits:
  assumes "declared_inv refd d" "\<not> fw d i" "i < length (d_states d)" "kind_at (d_btf d) i = Inr kind" "btf_is_composite kind"
    and "emit_struct_fwd mem d i t = Inr d'"
  shows "declared_inv refd d' \<and> emit_step d d'"
proof -
  have k: "keeps d (btf_dump_emit_struct_fwd mem d i t)" by (intro print_intros)
  from assms(6) obtain d1 where d1: "declare_top (Struct_Fwd i) (btf_dump_emit_struct_fwd mem d i t) = Inr d1" "d' = set_fwd i d1"
    by (auto simp: emit_struct_fwd_def bindr_eq_Inr)
  note s = declare_top_Inr [OF k d1(1)]
  have "decl_inv (d_btf d) refd (em d) ((fw d)(i := True)) (d_decls d @ [Struct_Fwd i])"
    using assms by (intro decl_inv_struct_fwd) (simp_all add: declared_inv_def)
  then show ?thesis using d1(2) s assms(3) by (simp add: declared_inv_def emit_step_def)
qed

lemma typedef_emits:
  assumes "type_at (d_btf d) i = Inr t" "emit_typedef fuel mem d i t = Inr d'"
  shows "quiet d' = quiet d \<and> em d' = em d \<and> fw d' = fw d \<and>
    (builtin (d_btf d) i \<and> d_decls d' = d_decls d \<or> d_decls d' = d_decls d @ [Typedef_Def i])"
proof -
  from assms(2) obtain b where b: "btf_dump_is_blacklisted d i = Inr b"
    "(if b then Inr d else declare_top (Typedef_Def i)
        (btf_dump_emit_typedef_def (btf_dump_emit_type_decl fuel mem) mem d i t 0)) = Inr d'"
    by (auto simp: emit_typedef_def bindr_eq_Inr)
  show ?thesis
  proof (cases b)
    case True
    with b assms(1) have "builtin (d_btf d) i"
      by (auto simp: btf_dump_is_blacklisted_def builtin_def btf_name_of_def bindr_eq_Inr split: if_splits)
    with True b show ?thesis by simp
  next
    case False
    have "keeps d (btf_dump_emit_typedef_def (btf_dump_emit_type_decl fuel mem) mem d i t 0)"
      by (intro typedef_def_keeps type_decl_keeps print_intros)
    from declare_top_Inr [OF this] False b show ?thesis by auto
  qed
qed

section \<open>Types inside of declarations\<close>

definition rec_emits :: "(nat \<Rightarrow> bool) \<Rightarrow> (btf_dump \<Rightarrow> nat \<Rightarrow> nat \<Rightarrow> btf_dump res) \<Rightarrow> bool" where
  "rec_emits refd rec \<longleftrightarrow> (\<forall>d x c d'. declared_inv refd d \<longrightarrow> emit_ready refd d x \<longrightarrow> c \<noteq> 0 \<longrightarrow> rec d x c = Inr d' \<longrightarrow>
     declared_inv refd d' \<and> emit_step d d')"

lemma rec_emitsD:
  assumes "rec_emits refd rec" "declared_inv refd d" "emit_ready refd d x" "c \<noteq> 0" "rec d x c = Inr d'"
  shows "declared_inv refd d'" "emit_step d d'"
  using assms unfolding rec_emits_def by blast+

lemma refs_emit:
  assumes "rec_emits refd rec" "c \<noteq> 0"
  shows "declared_inv refd d \<Longrightarrow> (\<And>j r. j \<in> set js \<Longrightarrow> ty j = Inr r \<Longrightarrow> emit_ready refd d r) \<Longrightarrow>
    emit_refs (\<lambda>d r. rec d r c) ty js d = Inr d' \<Longrightarrow> declared_inv refd d' \<and> emit_step d d'"
proof (induction js arbitrary: d)
  case Nil
  then show ?case by simp
next
  case (Cons j js)
  from Cons.prems(3) obtain r d1 where r: "ty j = Inr r" "rec d r c = Inr d1" "emit_refs (\<lambda>d r. rec d r c) ty js d1 = Inr d'"
    by (auto simp: bindr_eq_Inr)
  note one = rec_emitsD [OF assms(1) Cons.prems(1) Cons.prems(2) [OF list.set_intros(1) r(1)] assms(2) r(2)]
  from one Cons.prems(2) have "\<And>j r. j \<in> set js \<Longrightarrow> ty j = Inr r \<Longrightarrow> emit_ready refd d1 r"
    using emit_ready_step [of refd d _ d1] by (meson list.set_intros(2))
  from Cons.IH [OF _ this r(3)] one show ?case using emit_step_trans by auto
qed

lemma id_not_void: "type_at btf i = Inr t \<Longrightarrow> btf_kind t = Inr kind \<Longrightarrow> kind \<noteq> BTF_KIND_UNKN \<Longrightarrow> i \<noteq> 0"
  by (cases btf; auto simp: type_at_Inr btf__type_by_id_def bindr_eq_Inr void_fields split: if_splits)

lemma declared_inv_working:
  "declared_inv refd d \<Longrightarrow> em d i \<noteq> EMITTED \<Longrightarrow> i < length (d_states d) \<Longrightarrow> s \<noteq> EMITTED \<Longrightarrow> declared_inv refd (set_emit i s d)"
  by (simp add: declared_inv_def decl_inv_working)

text \<open>A typedef: what it refers to, then its own definition, unless the typedef was printed in the meantime.\<close>

lemma typedef_first:
  assumes rec: "rec_emits refd rec" and inv: "declared_inv refd d" and i: "i < length (d_states d)"
    and t: "type_at (d_btf d) i = Inr t" "btf_kind t = Inr BTF_KIND_TYPEDEF" "em d i = NOT_EMITTED"
    and ready: "\<And>r. t_type t = Inr r \<Longrightarrow> emit_ready refd d r"
    and r: "emit_first rec fuel mem d i c t BTF_KIND_TYPEDEF = Inr d'"
  shows "declared_inv refd d' \<and> emit_step d d' \<and> em d' i = EMITTED"
proof -
  let ?d1 = "set_emit i EMITTING d"
  from r obtain ref d2 d3 where d: "t_type t = Inr ref" "rec ?d1 ref i = Inr d2" "d' = set_emit i EMITTED d3"
    "(if fwd_emitted (d_states d2 ! i) then Inr d2 else emit_typedef fuel mem d2 i t) = Inr d3"
    by (auto simp: emit_first_def btf_is_any_enum_def btf_is_mod_def bindr_eq_Inr)
  have one: "declared_inv refd d2" "emit_step ?d1 d2"
    using rec_emitsD [OF rec _ _ id_not_void [OF t(1,2)] d(2)] declared_inv_working [OF inv _ i]
      emit_ready_working [OF ready [OF d(1)] _ i] t(3) by simp_all
  have s2: "d_btf d2 = d_btf d" "i < length (d_states d2)" using emit_step_btf [OF one(2)] i by simp_all
  have s2e: "em d2 i = EMITTING" using emit_step_em(2) [OF one(2)] i by simp
  have k: "kind_at (d_btf d) i = Inr BTF_KIND_TYPEDEF" using t by (simp add: kind_at_def)
  have "quiet d3 = quiet d2 \<and> em d3 = em d2 \<and> fw d3 = fw d2 \<and> (\<exists>ys. d_decls d3 = d_decls d2 @ ys) \<and>
    decl_inv (d_btf d) refd ((em d2)(i := EMITTED)) (fw d2) (d_decls d3)"
  proof (cases "fwd_emitted (d_states d2 ! i)")
    case True
    with one(1) s2 k have "defined (d_btf d) (d_decls d2) i" "is_def (d_btf d) refd i"
      by (simp_all add: declared_inv_def decl_inv_def defined_def is_def_def fw_def)
    with True d(4) one(1) s2(1) show ?thesis
      using decl_inv_done by (simp add: declared_inv_def)
  next
    case False
    with d(4) have e: "emit_typedef fuel mem d2 i t = Inr d3" by simp
    from False s2 s2e one(1) have "decl_inv (d_btf d) refd (em d2) (fw d2) (d_decls d2)" "\<not> fw d2 i" "em d2 i \<noteq> EMITTED"
      by (simp_all add: declared_inv_def fw_def)
    note new = decl_inv_typedef [OF this]
    show ?thesis using typedef_emits [OF _ e] t(1) s2(1) new(2,4) k by auto
  qed
  then obtain ys where three: "quiet d3 = quiet d2" "em d3 = em d2" "fw d3 = fw d2" and ys: "d_decls d3 = d_decls d2 @ ys"
    and inv3: "decl_inv (d_btf d) refd ((em d2)(i := EMITTED)) (fw d2) (d_decls d3)" by blast
  note s3 = quiet_same(1,5) [OF three(1)]
  have "emit_step d d'" unfolding d(3) by (rule emit_step_around [OF t(3) i one(2) three(1,2) _ ys]) (simp_all add: three(3))
  then show ?thesis using d(3) three s3 s2 inv3 by (simp add: declared_inv_def)
qed

text \<open>Types that refer to no others.\<close>

lemma leaf_done:
  assumes "em d i = NOT_EMITTED" "i < length (d_states d)" "quiet d1 = quiet d" "em d1 = em d" "fw d1 = fw d" "d_decls d1 = d_decls d @ ys"
    and "decl_inv (d_btf d) refd ((em d)(i := EMITTED)) (fw d) (d_decls d @ ys)"
  shows "declared_inv refd (set_emit i EMITTED d1) \<and> emit_step d (set_emit i EMITTED d1) \<and> em (set_emit i EMITTED d1) i = EMITTED"
  using emit_step_leaf [OF assms(1-6), of EMITTED] quiet_same(1,5) [OF assms(3)] assms by (simp add: declared_inv_def)

lemma int_emits:
  assumes "declared_inv refd d" "em d i = NOT_EMITTED" "i < length (d_states d)" "kind_at (d_btf d) i = Inr BTF_KIND_INT"
    and "emit_first rec fuel mem d i c t BTF_KIND_INT = Inr d'"
  shows "declared_inv refd d' \<and> emit_step d d' \<and> em d' i = EMITTED"
proof -
  from assms(5) obtain d1 where d1: "btf_dump_emit_missing_aliases mem d i = Inr d1" "d' = set_emit i EMITTED d1"
    by (auto simp: emit_first_def bindr_eq_Inr)
  note p = printed_em [OF keepsD(1) [OF aliases_keeps [OF printed_refl] d1(1)]]
  have "\<not> is_def (d_btf d) refd i"
    using assms(4) by (auto simp: is_def_def kind_at_def btf_is_composite_def enum_kind_def)
  then have "decl_inv (d_btf d) refd ((em d)(i := EMITTED)) (fw d) (d_decls d @ [])"
    using assms(1) decl_inv_other by (simp add: declared_inv_def)
  from leaf_done [OF assms(2,3) _ _ _ _ this, of d1] p d1(2) show ?thesis by simp
qed

lemma fwd_emits:
  assumes "declared_inv refd d" "em d i = NOT_EMITTED" "i < length (d_states d)" "kind_at (d_btf d) i = Inr BTF_KIND_FWD"
    and "emit_first rec fuel mem d i c t BTF_KIND_FWD = Inr d'"
  shows "declared_inv refd d' \<and> emit_step d d' \<and> em d' i = EMITTED"
proof -
  have k: "keeps d (btf_dump_emit_fwd_def mem d i t)" by (intro print_intros)
  from assms(5) obtain d1 where d1: "declare_top (Fwd_Def i) (btf_dump_emit_fwd_def mem d i t) = Inr d1" "d' = set_emit i EMITTED d1"
    by (auto simp: emit_first_def btf_is_any_enum_def btf_is_mod_def bindr_eq_Inr)
  have "decl_inv (d_btf d) refd ((em d)(i := EMITTED)) (fw d) (d_decls d @ [Fwd_Def i])"
    using decl_inv_def_of(3) [OF _ _ assms(4)] assms(1,2) by (simp add: declared_inv_def)
  from leaf_done [OF assms(2,3) declare_top_Inr(1-4) [OF k d1(1)] this] d1(2) show ?thesis by simp
qed

lemma enum_emits:
  assumes "declared_inv refd d" "em d i = NOT_EMITTED" "i < length (d_states d)" "kind_at (d_btf d) i = Inr kind" "btf_is_any_enum kind"
    and "c \<noteq> 0 \<Longrightarrow> \<not> is_def (d_btf d) refd i" "emit_first rec fuel mem d i c t kind = Inr d'"
  shows "declared_inv refd d' \<and> emit_step d d' \<and> em d' i = EMITTED"
proof -
  have k: "keeps d (btf_dump_emit_enum_def mem d i t 0)" by (intro print_intros)
  from assms(5,7) obtain d1 where d1: "(if c = 0 then declare_top (Enum_Def i) (btf_dump_emit_enum_def mem d i t 0) else Inr d) = Inr d1"
    "d' = set_emit i EMITTED d1"
    by (auto simp: emit_first_def btf_is_any_enum_def bindr_eq_Inr)
  show ?thesis
  proof (cases "c = 0")
    case True
    have new: "decl_inv (d_btf d) refd ((em d)(i := EMITTED)) (fw d) (d_decls d @ [Enum_Def i])"
      using decl_inv_def_of(2) [OF _ _ assms(4,5)] assms(1,2) by (simp add: declared_inv_def)
    from d1(1) True have "declare_top (Enum_Def i) (btf_dump_emit_enum_def mem d i t 0) = Inr d1" by simp
    from leaf_done [OF assms(2,3) declare_top_Inr(1-4) [OF k this]] new d1(2) show ?thesis by simp
  next
    case False
    then have "decl_inv (d_btf d) refd ((em d)(i := EMITTED)) (fw d) (d_decls d @ [])"
      using assms(1,6) decl_inv_other by (simp add: declared_inv_def)
    from leaf_done [OF assms(2,3) _ _ _ _ this, of d1] d1 False show ?thesis by simp
  qed
qed

text \<open>A structure inside of a declaration: an anonymous one is searched for what it needs, one with a name is declared
  ahead.\<close>

lemma composite_inside:
  assumes rec: "rec_emits refd rec" and inv: "declared_inv refd d" and i: "i < length (d_states d)"
    and t: "type_at (d_btf d) i = Inr t" "btf_kind t = Inr kind" "btf_is_composite kind" "em d i = NOT_EMITTED"
    and ready: "emit_ready refd d i" and c: "c \<noteq> 0" and r: "emit_composite rec fuel mem d i c t = Inr d'"
  shows "declared_inv refd d' \<and> emit_step d d'"
proof -
  let ?d1 = "set_emit i EMITTING d"
  from r c obtain n vlen d2 where n: "t_name_off t = Inr n" "btf_vlen t = Inr vlen" "d' = set_emit i NOT_EMITTED d2"
    "(if n = 0 then emit_refs (\<lambda>d ref. rec d ref (if n = 0 then c else i)) (member_type t) [0..<vlen] ?d1
      else if \<not> fwd_emitted (d_states ?d1 ! i) \<and> i \<noteq> c then emit_struct_fwd mem ?d1 i t else Inr ?d1) = Inr d2"
    by (simp add: emit_composite_def Let_def bindr_eq_Inr) blast
  have inv1: "declared_inv refd ?d1" by (rule declared_inv_working [OF inv _ i]) (simp_all add: t(4))
  have "declared_inv refd d2 \<and> emit_step ?d1 d2"
  proof (cases "n = 0")
    case True
    have "emit_ready refd ?d1 x" if "j < vlen" "member_type t j = Inr x" for j x
    proof (rule emit_ready_working)
      show "emit_ready refd d x"
        by (rule emit_ready_needs [where p = False])
          (use ready needs.member [OF t(1-3) n(1) _ n(2) that, of True refd] True in \<open>simp add: emit_ready_def\<close>)
    qed (simp_all add: t(4) i)
    with refs_emit [OF rec c inv1, of "[0..<vlen]" "member_type t" d2] n(4) True show ?thesis by simp
  next
    case False
    have "kind_at (d_btf ?d1) i = Inr kind" using t by (simp add: kind_at_def)
    with False n(4) struct_fwd_emits [OF inv1 _ _ this t(3), of mem t d2] i inv1 show ?thesis
      by (auto simp: fw_def set_emit_def split: if_splits)
  qed
  note two = this
  then have "em d2 i = EMITTING" using emit_step_em(2) [of ?d1 d2 i] i by simp
  with two emit_step_btf(2) [of ?d1 d2] i have "declared_inv refd (set_emit i NOT_EMITTED d2)"
    using declared_inv_working [of refd d2 i NOT_EMITTED] by simp
  moreover have "emit_step d (set_emit i NOT_EMITTED d2)"
    by (rule emit_step_around [of _ _ d2 _ "[]"]) (use t(4) i two in simp_all)
  ultimately show ?thesis using n(3) by simp
qed

lemma again_inside:
  assumes inv: "declared_inv refd d" and i: "i < length (d_states d)"
    and t: "type_at (d_btf d) i = Inr t" "btf_kind t = Inr kind" "em d i = EMITTING" and r: "emit_again fuel mem d i c t kind = Inr d'"
  shows "declared_inv refd d' \<and> emit_step d d'"
proof -
  have k: "kind_at (d_btf d) i = Inr kind" using t by (simp add: kind_at_def)
  have "d' = d \<or> \<not> fw d i \<and> btf_is_composite kind \<and> emit_struct_fwd mem d i t = Inr d' \<or>
    \<not> fw d i \<and> kind = BTF_KIND_TYPEDEF \<and> (\<exists>d1. emit_typedef fuel mem d i t = Inr d1 \<and> d' = set_fwd i d1)"
  proof (cases "t_name_off t")
    case (Inl e)
    with r i show ?thesis by (simp add: emit_again_def fw_def bindr_eq_Inr split: if_splits) metis+
  next
    case (Inr n)
    with r i show ?thesis by (simp add: emit_again_def fw_def bindr_eq_Inr split: if_splits) metis+
  qed
  then consider "d' = d" | "\<not> fw d i" "btf_is_composite kind" "emit_struct_fwd mem d i t = Inr d'"
    | d1 where "\<not> fw d i" "kind = BTF_KIND_TYPEDEF" "emit_typedef fuel mem d i t = Inr d1" "d' = set_fwd i d1"
    by blast
  then show ?thesis
  proof cases
    case 2
    from struct_fwd_emits [OF inv 2(1) i k 2(2,3)] show ?thesis .
  next
    case 3
    note e = typedef_emits [OF t(1) 3(3)] and new = decl_inv_typedef [OF inv [unfolded declared_inv_def] 3(1)]
    from e have q: "quiet d1 = quiet d" "em d1 = em d" "fw d1 = fw d" by blast+
    have "decl_inv (d_btf d) refd (em d) ((fw d)(i := True)) (d_decls d1)"
      using e new(1,3) t(3) by auto
    with q(2,3) quiet_same(1,5) [OF q(1)] i have "declared_inv refd (set_fwd i d1)" by (simp add: declared_inv_def)
    moreover have "\<exists>ext. d_decls d1 = d_decls d @ ext" using e by auto
    then have "emit_step d (set_fwd i d1)" using q quiet_same(5) [OF q(1)] i by (simp add: emit_step_def)
    ultimately show ?thesis unfolding 3(4) by blast
  qed (use inv in simp)
qed

lemma emit_first_cases:
  "kind = BTF_KIND_PTR \<or> btf_is_mod kind \<Longrightarrow> emit_first rec fuel mem d i c t kind = bindr (t_type t) (\<lambda>ref. rec d ref c)"
  "emit_first rec fuel mem d i c t BTF_KIND_ARRAY = bindr (array_type t) (\<lambda>ref. rec d ref c)"
  "btf_is_composite kind \<Longrightarrow> emit_first rec fuel mem d i c t kind = emit_composite rec fuel mem d i c t"
  "emit_first rec fuel mem d i c t BTF_KIND_FUNC_PROTO =
     bindr (t_type t) (\<lambda>ref. bindr (rec d ref c) (\<lambda>d.
     bindr (btf_vlen t) (\<lambda>vlen. emit_refs (\<lambda>d ref. rec d ref c) (param_type t) [0..<vlen] d)))"
  by (auto simp: emit_first_def btf_is_any_enum_def btf_is_mod_def btf_is_composite_def)

lemma emit_first_rest:
  "\<not> (kind = BTF_KIND_INT \<or> btf_is_any_enum kind \<or> kind = BTF_KIND_PTR \<or> btf_is_mod kind \<or> kind = BTF_KIND_ARRAY \<or>
      kind = BTF_KIND_FWD \<or> kind = BTF_KIND_TYPEDEF \<or> btf_is_composite kind \<or> kind = BTF_KIND_FUNC_PROTO) \<Longrightarrow>
   emit_first rec fuel mem d i c t kind = Inr d"
  by (simp add: emit_first_def)

lemma first_inside:
  assumes rec: "rec_emits refd rec" and inv: "declared_inv refd d" and i: "i < length (d_states d)"
    and t: "type_at (d_btf d) i = Inr t" "btf_kind t = Inr kind" "em d i = NOT_EMITTED"
    and ready: "emit_ready refd d i" and c: "c \<noteq> 0" and r: "emit_first rec fuel mem d i c t kind = Inr d'"
  shows "declared_inv refd d' \<and> emit_step d d'"
proof -
  have k: "kind_at (d_btf d) i = Inr kind" using t by (simp add: kind_at_def)
  have need: "em d x = EMITTED" if "needs (d_btf d) refd True i x" for x using ready that by (simp add: emit_ready_def)
  note go = rec_emitsD [OF rec inv _ c]
  consider "kind = BTF_KIND_INT" | "btf_is_any_enum kind" | "kind = BTF_KIND_PTR" | "btf_is_mod kind" | "kind = BTF_KIND_ARRAY" | "kind = BTF_KIND_FWD"
    | "kind = BTF_KIND_TYPEDEF" | "btf_is_composite kind" | "kind = BTF_KIND_FUNC_PROTO"
    | "\<not> (kind = BTF_KIND_INT \<or> btf_is_any_enum kind \<or> kind = BTF_KIND_PTR \<or> btf_is_mod kind \<or> kind = BTF_KIND_ARRAY \<or>
      kind = BTF_KIND_FWD \<or> kind = BTF_KIND_TYPEDEF \<or> btf_is_composite kind \<or> kind = BTF_KIND_FUNC_PROTO)"
    by blast
  then show ?thesis
  proof cases
    case 1
    with int_emits [OF inv t(3) i] k r show ?thesis by blast
  next
    case 2
    have "\<not> is_def (d_btf d) refd i"
    proof
      assume "is_def (d_btf d) refd i"
      with t(1,2) 2 have "needs (d_btf d) refd True i i"
        by (auto simp: is_def_def kind_at_def btf_is_any_enum_def btf_is_composite_def intro: needs.enum_self)
      from need [OF this] t(3) show False by simp
    qed
    with enum_emits [OF inv t(3) i k 2 _ r] show ?thesis by blast
  next
    case 3
    with r obtain x where x: "t_type t = Inr x" "rec d x c = Inr d'" by (auto simp: emit_first_cases bindr_eq_Inr)
    have "emit_ready refd d x"
      by (rule emit_ready_needs [where p = True]) (use need needs.ptr_ref [OF t(1) _ x(1)] t(2) 3 in blast)
    from go [OF this x(2)] show ?thesis by blast
  next
    case 4
    with r obtain x where x: "t_type t = Inr x" "rec d x c = Inr d'" by (auto simp: emit_first_cases bindr_eq_Inr)
    have "emit_ready refd d x"
      by (rule emit_ready_needs [where p = True]) (use need needs.mod_ref [OF t(1,2) 4 x(1)] in blast)
    from go [OF this x(2)] show ?thesis by blast
  next
    case 5
    with r obtain x where x: "array_type t = Inr x" "rec d x c = Inr d'" by (auto simp: emit_first_cases bindr_eq_Inr)
    have "emit_ready refd d x"
      by (rule emit_ready_needs [where p = False]) (use need needs.array_ref [OF t(1) _ x(1)] t(2) 5 in blast)
    from go [OF this x(2)] show ?thesis by blast
  next
    case 6
    with fwd_emits [OF inv t(3) i] k r show ?thesis by blast
  next
    case 7
    have "emit_ready refd d x" if "t_type t = Inr x" for x
      by (rule emit_ready_needs [where p = True]) (use need needs.typedef_ref [OF t(1) _ that] t(2) 7 in blast)
    with typedef_first [OF rec inv i t(1) _ t(3)] t(2) r 7 show ?thesis by blast
  next
    case 8
    from composite_inside [OF rec inv i t(1,2) 8 t(3) ready c] r 8 show ?thesis by (simp add: emit_first_cases)
  next
    case 9
    with r obtain x d1 vlen where x: "t_type t = Inr x" "rec d x c = Inr d1" "btf_vlen t = Inr vlen"
      "emit_refs (\<lambda>d ref. rec d ref c) (param_type t) [0..<vlen] d1 = Inr d'"
      by (auto simp: emit_first_cases bindr_eq_Inr)
    have "emit_ready refd d x"
      by (rule emit_ready_needs [where p = True]) (use need needs.proto_ret [OF t(1) _ x(1)] t(2) 9 in blast)
    note one = go [OF this x(2)]
    have "emit_ready refd d1 y" if "j < vlen" "param_type t j = Inr y" for j y
    proof (rule emit_ready_step [OF _ one(2)])
      show "emit_ready refd d y"
        by (rule emit_ready_needs [where p = True]) (use need needs.proto_param [OF t(1) _ x(3) that] t(2) 9 in blast)
    qed
    with refs_emit [OF rec c one(1), of "[0..<vlen]" "param_type t" d'] x(4) one(2) show ?thesis
      using emit_step_trans by auto
  next
    case 10
    with r inv show ?thesis by (simp add: emit_first_rest)
  qed
qed

lemma emit_inside: "rec_emits refd (btf_dump_emit_type fuel mem)"
proof (induction fuel)
  case 0
  then show ?case by (simp add: rec_emits_def)
next
  case (Suc fuel)
  have "declared_inv refd d' \<and> emit_step d d'" if d: "declared_inv refd d" "emit_ready refd d i" "c \<noteq> 0"
    and r: "btf_dump_emit_type (Suc fuel) mem d i c = Inr d'" for d i c d'
  proof -
    from r have i: "i < length (d_states d)" by (auto simp: arr_def bindr_eq_Inr split: if_splits)
    show ?thesis
    proof (cases "em d i = EMITTED")
      case True
      with r i d(1) show ?thesis by (simp add: em_def)
    next
      case False
      with r i obtain t kind where t: "type_at (d_btf d) i = Inr t" "btf_kind t = Inr kind"
        "(if em d i = EMITTING then emit_again fuel mem d i c t kind
          else emit_first (btf_dump_emit_type fuel mem) fuel mem d i c t kind) = Inr d'"
        by (auto simp: em_def bindr_eq_Inr)
      show ?thesis
      proof (cases "em d i")
        case NOT_EMITTED
        with first_inside [OF Suc d(1) i t(1,2) _ d(2,3)] t(3) show ?thesis by simp
      next
        case EMITTING
        with again_inside [OF d(1) i t(1,2)] t(3) show ?thesis by simp
      qed (use False in simp)
    qed
  qed
  then show ?case unfolding rec_emits_def by blast
qed

section \<open>The queue\<close>

lemma composite_top:
  assumes inv: "declared_inv refd d" and i: "i < length (d_states d)"
    and t: "type_at (d_btf d) i = Inr t" "btf_kind t = Inr kind" "btf_is_composite kind" "em d i = NOT_EMITTED"
    and n: "t_name_off t = Inr n" "n \<noteq> 0"
    and need: "\<And>k. def_needs (d_btf d) refd i k \<Longrightarrow> em d k = EMITTED"
    and rec: "rec_emits refd rec" and r: "emit_composite rec fuel mem d i 0 t = Inr d'"
  shows "declared_inv refd d' \<and> emit_step d d' \<and> em d' i = EMITTED"
proof -
  let ?d1 = "set_emit i EMITTING d"
  from r n obtain vlen d2 d3 where d: "btf_vlen t = Inr vlen" "emit_refs (\<lambda>d ref. rec d ref i) (member_type t) [0..<vlen] ?d1 = Inr d2"
    "declare_top (Struct_Def i) (btf_dump_emit_struct_def (btf_dump_emit_type_decl fuel mem) fuel mem d2 i t 0) = Inr d3"
    "d' = set_emit i EMITTED d3"
    by (simp add: emit_composite_def Let_def bindr_eq_Inr) blast
  have k: "kind_at (d_btf d) i = Inr kind" using t by (simp add: kind_at_def)
  have inv1: "declared_inv refd ?d1" by (rule declared_inv_working [OF inv _ i]) (simp_all add: t(4))
  have "emit_ready refd ?d1 x" if "j < vlen" "member_type t j = Inr x" for j x
  proof (rule emit_ready_working)
    show "emit_ready refd d x"
      by (rule emit_ready_needs [where p = False], rule need) (use t(1-3) d(1) that in \<open>auto simp: def_needs_def\<close>)
  qed (simp_all add: t(4) i)
  moreover have "i \<noteq> 0" using id_not_void [OF t(1,2)] t(3) by (auto simp: btf_is_composite_def)
  ultimately have two: "declared_inv refd d2" "emit_step ?d1 d2"
    using refs_emit [OF rec _ inv1, of i "[0..<vlen]" "member_type t" d2] d(2) by auto
  have s2: "d_btf d2 = d_btf d" "length (d_states d2) = length (d_states d)" using emit_step_btf [OF two(2)] by simp_all
  have e2: "em d2 i = EMITTING" using emit_step_em(2) [OF two(2)] i by simp
  have "em d2 x = EMITTED" if "def_needs (d_btf d) refd i x" for x
    using emit_step_em(1) [OF two(2)] need [OF that] t(4) i by (cases "x = i") auto
  then have "decl_inv (d_btf d) refd ((em d2)(i := EMITTED)) (fw d2) (d_decls d2 @ [Struct_Def i])"
    using two(1) s2(1) e2 by (intro decl_inv_def_of(1) [OF _ _ k t(3)]) (simp_all add: declared_inv_def)
  moreover have "keeps d2 (btf_dump_emit_struct_def (btf_dump_emit_type_decl fuel mem) fuel mem d2 i t 0)"
    by (intro struct_def_keeps type_decl_keeps print_intros)
  note s3 = declare_top_Inr [OF this d(3)]
  ultimately have "declared_inv refd d'" "em d' i = EMITTED" using s2 i d(4) by (simp_all add: declared_inv_def)
  moreover have "emit_step d d'"
    unfolding d(4) by (rule emit_step_around [OF t(4) i two(2) s3(1,2) _ s3(4)]) (simp_all add: s3(3))
  ultimately show ?thesis by blast
qed

lemma first_top:
  assumes inv: "declared_inv refd d" and i: "i < length (d_states d)"
    and t: "type_at (d_btf d) i = Inr t" "btf_kind t = Inr kind" "em d i = NOT_EMITTED"
    and need: "is_def (d_btf d) refd i" "\<And>k. def_needs (d_btf d) refd i k \<Longrightarrow> em d k = EMITTED"
    and rec: "rec_emits refd rec" and r: "emit_first rec fuel mem d i 0 t kind = Inr d'"
  shows "declared_inv refd d' \<and> emit_step d d' \<and> em d' i = EMITTED"
proof -
  have k: "kind_at (d_btf d) i = Inr kind" using t by (simp add: kind_at_def)
  from need(1) t(1,2) consider n where "btf_is_composite kind" "t_name_off t = Inr n" "n \<noteq> 0" | "btf_is_any_enum kind" | "kind = BTF_KIND_FWD"
    | "kind = BTF_KIND_TYPEDEF"
    by (auto simp: is_def_def kind_at_def enum_kind_def btf_is_any_enum_def)
  then show ?thesis
  proof cases
    case 1
    with r have "emit_composite rec fuel mem d i 0 t = Inr d'" by (simp add: emit_first_cases)
    from composite_top [OF inv i t(1,2) 1(1) t(3) 1(2,3) need(2) rec this] show ?thesis .
  next
    case 2
    from enum_emits [OF inv t(3) i k 2 _ r] show ?thesis by simp
  next
    case 3
    with fwd_emits [OF inv t(3) i] k r show ?thesis by blast
  next
    case 4
    have "emit_ready refd d x" if "t_type t = Inr x" for x
      by (rule emit_ready_needs [where p = False], rule need(2)) (use t(1,2) 4 that in \<open>auto simp: def_needs_def\<close>)
    with typedef_first [OF rec inv i t(1) _ t(3)] t(2) r 4 show ?thesis by blast
  qed
qed

lemma emit_top:
  assumes inv: "declared_inv refd d" and state: "em d i \<noteq> EMITTING"
    and need: "is_def (d_btf d) refd i" "\<And>k. def_needs (d_btf d) refd i k \<Longrightarrow> em d k = EMITTED"
    and r: "btf_dump_emit_type fuel mem d i 0 = Inr d'"
  shows "declared_inv refd d' \<and> emit_step d d' \<and> em d' i = EMITTED"
proof (cases fuel)
  case (Suc n)
  with r have i: "i < length (d_states d)" by (auto simp: arr_def bindr_eq_Inr split: if_splits)
  show ?thesis
  proof (cases "em d i = EMITTED")
    case True
    with r i inv Suc show ?thesis by (simp add: em_def)
  next
    case False
    with state have e: "em d i = NOT_EMITTED" by (cases "em d i") auto
    with r i Suc obtain t kind where t: "type_at (d_btf d) i = Inr t" "btf_kind t = Inr kind"
      "emit_first (btf_dump_emit_type n mem) n mem d i 0 t kind = Inr d'"
      by (auto simp: em_def bindr_eq_Inr)
    from first_top [OF inv i t(1,2) e need emit_inside t(3)] show ?thesis .
  qed
qed (use r in simp)

lemma in_order_at: "in_order btf refd (pre @ x # xs) \<Longrightarrow> def_needs btf refd x k \<Longrightarrow> k \<in> set pre"
  unfolding in_order_def by (drule spec [of _ "length pre"]) simp

lemma queue_emits:
  "declared_inv refd d \<Longrightarrow> in_order (d_btf d) refd (pre @ xs) \<Longrightarrow> (\<And>x. x \<in> set xs \<Longrightarrow> is_def (d_btf d) refd x) \<Longrightarrow>
     (\<And>x. x \<in> set pre \<Longrightarrow> em d x = EMITTED) \<Longrightarrow> (\<And>x. em d x \<noteq> EMITTING) \<Longrightarrow> emit_queue fuel mem xs d = Inr d' \<Longrightarrow>
     declared_inv refd d' \<and> emit_step d d' \<and> (\<forall>x \<in> set (pre @ xs). em d' x = EMITTED)"
proof (induction xs arbitrary: d pre)
  case Nil
  then show ?case by simp
next
  case (Cons x xs)
  from Cons.prems(6) obtain d1 where d1: "btf_dump_emit_type fuel mem d x 0 = Inr d1" "emit_queue fuel mem xs d1 = Inr d'"
    by (auto simp: bindr_eq_Inr)
  have "em d k = EMITTED" if "def_needs (d_btf d) refd x k" for k
    using Cons.prems(4) in_order_at [OF Cons.prems(2) that] by blast
  from emit_top [OF Cons.prems(1,5) Cons.prems(3) this d1(1)]
  have one: "declared_inv refd d1" "emit_step d d1" "em d1 x = EMITTED" by simp_all
  note b = emit_step_btf(1) [OF one(2)] and e = emit_step_em [OF one(2)]
  have "declared_inv refd d' \<and> emit_step d1 d' \<and> (\<forall>y \<in> set ((pre @ [x]) @ xs). em d' y = EMITTED)"
    by (rule Cons.IH [OF one(1) _ _ _ _ d1(2)]) (use Cons.prems b e one(3) in auto)
  then show ?case using emit_step_trans [OF one(2)] by auto
qed

section \<open>Calls of the interface\<close>

lemma quiet_ordered:
  assumes "quiet d' = quiet d"
  shows "ordered_inv refd hist d' \<longleftrightarrow> ordered_inv refd hist d"
  using quiet_same [OF assms] by (simp add: ordered_inv_def queue_ok_def queue_def)

lemma step_kept_em:
  assumes "step_kept d d'"
  shows "em d' = em d" "fw d' = fw d" "d_decls d' = d_decls d"
proof -
  have s: "list_all2 same_type (d_states d) (d_states d')" and "d_decls (rest_of d') = d_decls (rest_of d)"
    using assms by (simp_all add: step_kept_def)
  then show "d_decls d' = d_decls d" by (simp add: rest_of_def)
  have f: "(d_states d' ! i)\<lparr>order_state := ORDERED\<rparr> = (d_states d ! i)\<lparr>order_state := ORDERED\<rparr>" if "i < length (d_states d)" for i
    using list_all2_nthD [OF s that] by (simp add: same_type_def)
  have "em d' i = em d i \<and> fw d' i = fw d i" for i
    using step_kept_length [OF assms] arg_cong [OF f [of i], of emit_state] arg_cong [OF f [of i], of fwd_emitted]
    by (simp add: em_def fw_def)
  then show "em d' = em d" "fw d' = fw d" by auto
qed

lemma resize_nothing: "btf__type_cnt (d_btf d) \<le> d_last_id d + 1 \<Longrightarrow> btf_dump_resize mem d = Inr (d, None)"
  unfolding btf_dump_resize_def Let_def by (rule if_P) simp

text \<open>A dump object between two calls: all that was ever queued is printed, and nothing is half done.\<close>

definition dumped :: "(nat \<Rightarrow> bool) \<Rightarrow> nat list \<Rightarrow> btf_dump \<Rightarrow> bool" where
  "dumped refd hist d \<longleftrightarrow> ordered_inv refd hist (d\<lparr>d_queue_cnt := 0\<rparr>) \<and> declared_inv refd d \<and> (\<forall>i. em d i \<noteq> EMITTING) \<and>
     (\<forall>x \<in> set hist. em d x = EMITTED)"

lemma dumped_again:
  assumes "ordered_inv refd hist d" "declared_inv refd d" "\<And>i. em d i \<noteq> EMITTING" "\<And>x. x \<in> set (hist @ queue d) \<Longrightarrow> em d x = EMITTED"
  shows "dumped refd (hist @ queue d) d"
proof -
  have "em (d\<lparr>d_queue_cnt := 0\<rparr>) = em d" by (simp add: em_def fun_eq_iff)
  then show ?thesis using assms by (auto simp: dumped_def ordered_inv_def queue_ok_def queue_def)
qed

text \<open>An object that a call has just created has printed nothing, and is ready for the first call.\<close>

definition marked :: "type_state list \<Rightarrow> type_state list \<Rightarrow> bool" where
  "marked ss ss' \<longleftrightarrow> map (referenced_update (\<lambda>_. True)) ss' = map (referenced_update (\<lambda>_. True)) ss"

lemma marked_refl: "marked ss ss"
  by (simp add: marked_def)

lemma mark_ids_marked: "mark_ids rs ss = Inr ss' \<Longrightarrow> marked ss ss'"
proof (induction rs arbitrary: ss)
  case (Cons r rs)
  from Cons.prems obtain i where i: "mark_ids rs (ss[i := (ss ! i)\<lparr>referenced := True\<rparr>]) = Inr ss'"
    by (auto simp: bindr_eq_Inr arr_def split: if_splits)
  from Cons.IH [OF i] show ?case
    using map_same_update [of "referenced_update (\<lambda>_. True)" "referenced_update (\<lambda>_. True)" ss i] by (simp add: marked_def)
qed (simp add: marked_def)

lemma mark_type_marked: "mark_type t kind vlen ss = Inr (ss', err) \<Longrightarrow> marked ss ss'"
  by (auto simp: mark_type_def Let_def bindr_eq_Inr marked_refl dest: mark_ids_marked simp del: mark_ids.simps split: if_splits)

lemma mark_types_marked: "mark_types btf is ss = Inr (ss', err) \<Longrightarrow> marked ss ss'"
proof (induction "is" arbitrary: ss)
  case (Cons i "is")
  then obtain ss1 e t kind vlen where "mark_type t kind vlen ss = Inr (ss1, e)"
    "(if e \<noteq> None then Inr (ss1, e) else mark_types btf is ss1) = Inr (ss', err)"
    by (auto simp: bindr_eq_Inr simp del: not_None_eq)
  with Cons.IH [of ss1] mark_type_marked show ?case by (fastforce simp: marked_def split: if_splits)
qed (simp add: marked_def)

lemma marked_state:
  assumes "marked ss ss'"
  shows "length ss' = length ss" "i < length ss \<Longrightarrow> order_state (ss' ! i) = order_state (ss ! i)"
    "i < length ss \<Longrightarrow> emit_state (ss' ! i) = emit_state (ss ! i)" "i < length ss \<Longrightarrow> fwd_emitted (ss' ! i) = fwd_emitted (ss ! i)"
proof -
  let ?f = "referenced_update (\<lambda>_. True)"
  from assms have m: "map ?f ss' = map ?f ss" by (simp add: marked_def)
  then show l: "length ss' = length ss" by (rule map_eq_imp_length_eq)
  have f: "?f (ss' ! i) = ?f (ss ! i)" if "i < length ss" using m l that by (metis nth_map)
  show "i < length ss \<Longrightarrow> order_state (ss' ! i) = order_state (ss ! i)"
    "i < length ss \<Longrightarrow> emit_state (ss' ! i) = emit_state (ss ! i)" "i < length ss \<Longrightarrow> fwd_emitted (ss' ! i) = fwd_emitted (ss ! i)"
    using arg_cong [OF f, of order_state] arg_cong [OF f, of emit_state] arg_cong [OF f, of fwd_emitted] by simp_all
qed

text \<open>The states of a new object: no type has come anywhere, and \<open>void\<close> needs nothing.\<close>

lemma dumped_new:
  assumes st: "\<And>i. i < length (d_states d) \<Longrightarrow> i \<noteq> 0 \<Longrightarrow> order_state (d_states d ! i) = NOT_ORDERED \<and> emit_state (d_states d ! i) = NOT_EMITTED"
    and zero: "d_states d \<noteq> [] \<Longrightarrow> emit_state (d_states d ! 0) = EMITTED"
    and fwd: "\<And>i. i < length (d_states d) \<Longrightarrow> \<not> fwd_emitted (d_states d ! i)"
    and q: "d_queue d = []" "d_queue_cap d = 0" "d_decls d = []"
  shows "dumped (\<lambda>i. i < length (d_states d) \<and> referenced (d_states d ! i)) [] d"
proof -
  let ?r = "\<lambda>i. i < length (d_states d) \<and> referenced (d_states d ! i)"
  have void: "kind = BTF_KIND_UNKN" if "type_at (d_btf d) 0 = Inr t" "btf_kind t = Inr kind" for t kind
    using id_not_void [OF that] by blast
  have "\<not> needs (d_btf d) ?r False 0 k" for k
  proof
    assume "needs (d_btf d) ?r False 0 k"
    then show False by cases (use void in \<open>auto simp: btf_is_composite_def enum_kind_def btf_is_mod_def\<close>)
  qed
  then have "order_state (d_states d ! i) = ORDERED \<longrightarrow> \<not> needs (d_btf d) ?r False i k" if "i < length (d_states d)" for i k
    using st [OF that] by (cases "i = 0") auto
  moreover have "queue (d\<lparr>d_queue_cnt := 0\<rparr>) = []" by (simp add: queue_def)
  ultimately have inv: "ordered_inv ?r [] (d\<lparr>d_queue_cnt := 0\<rparr>)"
    using q by (simp add: ordered_inv_def queue_ok_def)
  have "\<not> is_def (d_btf d) ?r 0"
    using void by (auto simp: is_def_def kind_at_def bindr_eq_Inr btf_is_composite_def enum_kind_def)
  moreover have e: "em d i = (if i = 0 \<and> d_states d \<noteq> [] then EMITTED else NOT_EMITTED)" for i
    using st [of i] zero by (simp add: em_def)
  moreover have "\<not> fw d i" for i using fwd [of i] by (simp add: fw_def)
  ultimately have "declared_inv ?r d" unfolding declared_inv_def decl_inv_def q(3) by simp
  with inv e show ?thesis by (simp add: dumped_def)
qed

lemma new_resized:
  assumes "btf_dump__new opts_valid has_printf calloc_ok types_ok idents_ok mem btf = Inr d"
  obtains d0 where "btf_dump_resize mem d0 = Inr (d, None)" "d_last_id d0 = 0" "d_states d0 = []" "d_states_cap d0 = 0"
    "d_queue d0 = []" "d_queue_cap d0 = 0" "d_decls d0 = []"
proof -
  have flags: "opts_valid" "has_printf" "calloc_ok"
    using assms by (auto simp: btf_dump__new_def split: if_splits)
  from assms flags obtain p b where p: "btf__pointer_size btf = Inr (p, b)"
    by (cases "btf__pointer_size btf") (auto simp: btf_dump__new_def)
  from assms flags p obtain tn where tn: "hashmap__new types_ok str_hash_fn str_equal_fn = Inr tn"
    by (cases "hashmap__new types_ok str_hash_fn str_equal_fn") (auto simp: btf_dump__new_def)
  from assms flags p tn obtain id where id: "hashmap__new idents_ok str_hash_fn str_equal_fn = Inr id"
    by (cases "hashmap__new idents_ok str_hash_fn str_equal_fn") (auto simp: btf_dump__new_def)
  define d0 where "d0 = \<lparr>d_btf = b, d_ptr_sz = (if p = 0 then 8 else p), d_strip_mods = False, d_skip_anon_defs = False, d_last_id = 0,
         d_states = [], d_states_cap = 0, d_names = [], d_names_cap = 0, d_queue = [], d_queue_cap = 0, d_queue_cnt = 0,
         d_decl_cap = 0, d_decl_cnt = 0, d_decl_block = 0, d_store = [], d_type_names = tn, d_ident_names = id, d_text = [],
         d_decls = []\<rparr>"
  have "bindr (btf_dump_resize mem d0) (\<lambda>(d, err). case err of Some e \<Rightarrow> Inl (Err e) | None \<Rightarrow> Inr d) = Inr d"
    using assms flags p tn id unfolding btf_dump__new_def d0_def by (simp cong del: if_weak_cong)
  then have "btf_dump_resize mem d0 = Inr (d, None)" by (auto simp: bindr_eq_Inr split: option.splits)
  then show thesis by (rule that) (simp_all add: d0_def)
qed

theorem btf_dump__new_dumped:
  assumes "btf_dump__new opts_valid has_printf calloc_ok types_ok idents_ok mem btf = Inr d"
  shows "dumped (\<lambda>i. i < length (d_states d) \<and> referenced (d_states d ! i)) [] d" "btf__type_cnt (d_btf d) \<le> d_last_id d + 1"
proof -
  obtain d0 where r: "btf_dump_resize mem d0 = Inr (d, None)" and z: "d_last_id d0 = 0" "d_states d0 = []" "d_states_cap d0 = 0"
    "d_queue d0 = []" "d_queue_cap d0 = 0" "d_decls d0 = []" by (rule new_resized [OF assms])
  let ?n = "btf__type_cnt (d_btf d0) - 1"
  have "dumped (\<lambda>i. i < length (d_states d) \<and> referenced (d_states d ! i)) [] d \<and> btf__type_cnt (d_btf d) \<le> d_last_id d + 1"
  proof (cases "?n \<le> 0")
    case True
    with r z have "d = d0" by (simp add: btf_dump_resize_def)
    with z True show ?thesis using dumped_new [of d] by simp
  next
    case False
    then have n: "\<not> ?n \<le> d_last_id d0" using z by simp
    obtain ss cap where ss: "libbpf_ensure_mem (dm_states mem) no_state 4 (d_states d0) (d_states_cap d0) (?n + 1) = Inr (ss, cap)"
      using r n by (cases "libbpf_ensure_mem (dm_states mem) no_state 4 (d_states d0) (d_states_cap d0) (?n + 1)")
        (auto simp: btf_dump_resize_def Let_def)
    obtain names cap' where names: "libbpf_ensure_mem (dm_names mem) None 8 (d_names d0) (d_names_cap d0) (?n + 1) = Inr (names, cap')"
      using r n ss by (cases "libbpf_ensure_mem (dm_names mem) None 8 (d_names d0) (d_names_cap d0) (?n + 1)")
        (auto simp: btf_dump_resize_def Let_def)
    obtain m where m: "ss = replicate m no_state"
      using ss z by (auto simp: libbpf_ensure_mem_def libbpf_add_mem_def Let_def split: if_splits option.splits)
    define d1 where "d1 = d0\<lparr>d_states := ss, d_states_cap := cap, d_names := names, d_names_cap := cap'\<rparr>"
    have "bindr (void_done d1) (\<lambda>d. bindr (btf_dump_mark_referenced d) (\<lambda>(d, err).
        if err \<noteq> None then Inr (d, err) else Inr (d\<lparr>d_last_id := ?n\<rparr>, None))) = Inr (d, None)"
      using r n ss names z unfolding btf_dump_resize_def Let_def d1_def by simp
    then obtain d2 ss' where d2: "void_done d1 = Inr d2" "mark_types (d_btf d2) [d_last_id d2 + 1..<btf__type_cnt (d_btf d2)] (d_states d2) = Inr (ss', None)"
      "d = d2\<lparr>d_states := ss', d_last_id := ?n\<rparr>"
      by (auto simp: bindr_eq_Inr btf_dump_mark_referenced_def split: if_splits)
    then have d2': "0 < m" "d2 = d1\<lparr>d_states := ss[0 := no_state\<lparr>order_state := ORDERED, emit_state := EMITTED\<rparr>]\<rparr>"
      by (auto simp: void_done_def bindr_eq_Inr arr_def d1_def m split: if_splits)
    note same = marked_state [OF mark_types_marked [OF d2(2)]]
    have f: "length ss' = m" "d_states d = ss'" "d_queue d = []" "d_queue_cap d = 0" "d_decls d = []" "d_btf d = d_btf d0" "d_last_id d = ?n"
      using same(1) d2(3) d2' z by (simp_all add: d1_def m)
    have "dumped (\<lambda>i. i < length (d_states d) \<and> referenced (d_states d ! i)) [] d"
      by (rule dumped_new) (use f d2' same(2-4) in \<open>auto simp: m nth_update_in no_state_def split: if_splits\<close>)
    with f show ?thesis by simp
  qed
  then show "dumped (\<lambda>i. i < length (d_states d) \<and> referenced (d_states d ! i)) [] d" "btf__type_cnt (d_btf d) \<le> d_last_id d + 1" by blast+
qed

section \<open>Properties\<close>


text \<open>
  The typedef of the sample object, dumped without memory for copies of names: they are printed as they are.  The
  text is \<open>typedef long t;\<close>.
\<close>

definition no_dups :: dump_mem where
  "no_dups = \<lparr>dm_states = True, dm_names = True, dm_queue = few, dm_decl = few, dm_dup = (\<lambda>_. False), dm_map = (\<lambda>_. (True, True))\<rparr>"

lemma sample_words: "t_name_off (Type_At sample_types 0) = Inr 1" "t_name_off (Type_At sample_types 16) = Inr 6"
  "btf_vlen (Type_At sample_types 0) = Inr 0" "btf_vlen (Type_At sample_types 16) = Inr 0"
  by (simp_all add: type_eval sample_types_def)

lemma sample_names: "d_btf d = sample_btf \<Longrightarrow> btf_name_of d 1 = Inr (asc ''long'')" "d_btf d = sample_btf \<Longrightarrow> btf_name_of d 6 = Inr (asc ''t'')"
  by (simp_all add: btf_name_of_def name_at_def sample_btf_def asc_def btf__name_by_offset_def deref_def c_str_def
    terminated_def cstr_at_def)

lemma no_dups_name:
  assumes "arr (d_states d) i = Inr s" "type_at (d_btf d) i = Inr t" "t_name_off t = Inr n" "n \<noteq> 0" "arr (d_names d) i = Inr None"
    "btf_name_of d n = Inr name" "btf_kind t = Inr kind" "btf_vlen t = Inr vlen" 
  shows "btf_dump_resolve_name no_dups d i m = Inr (if name_resolved s then d else set_resolved i d, name)"
  using assms by (simp add: btf_dump_resolve_name_def btf_dump_name_dups_def no_dups_def)

lemma int_sample:
  assumes d: "d_btf d = sample_btf" "length (d_states d) = 16" "d_names d = replicate 16 None" "emit_state (d_states d ! 1) = NOT_EMITTED"
   "name_resolved (d_states d ! 1) = False"
  shows "btf_dump_emit_type (Suc n) no_dups d 1 c = Inr (set_emit 1 EMITTED (set_resolved 1 d))"
proof -
  have "btf_dump_type_name no_dups d 1 = Inr (set_resolved 1 d, asc ''long'')"
    unfolding btf_dump_type_name_def using assms sample_at sample_info sample_words sample_names
    by (subst no_dups_name) (auto simp: arr_def simp del: One_nat_def)
  then have "btf_dump_emit_missing_aliases no_dups d 1 = Inr (set_resolved 1 d)"
    by (simp add: btf_dump_emit_missing_aliases_def missing_base_types_def asc_def)
  then show ?thesis using assms sample_at sample_info by (simp add: arr_def emit_first_def del: One_nat_def)
qed

lemma decl_sample:
  assumes d: "d_btf d = sample_btf" "d_decl_cap d = 0" "d_decl_cnt d = 0" "\<not> d_strip_mods d"
  shows "\<exists>d'. btf_dump_emit_type_decl (Suc n) no_dups d 1 name 0 = Inr d'"
proof -
  let ?d = "d\<lparr>d_decl_cap := 16, d_decl_block := d_decl_block d + 1, d_decl_cnt := 1\<rparr>"
  have ids: "decl_ids (Suc n) no_dups d 1 [] = Inr (?d, Some [1])" using assms sample_at sample_info
    by (simp add: btf_dump_push_decl_stack_id_def libbpf_reallocarray_def bindd_def Let_def no_dups_def few_def btf_is_mod_def del: One_nat_def)
  have "btf_name_of ?d 1 = Inr (asc ''long'')" by (rule sample_names) (simp add: assms)
  then have "btf_dump_emit_type_chain (Suc (Suc 0)) rec n no_dups (d_decl_block ?d) name 0 ?d [1] True =
     Inr (btf_dump_emit_name (out (asc ''long'') ?d) name False)" for rec
    using assms sample_at(1) sample_info(1) sample_words(1) by (simp add: top_kind_def Let_def del: One_nat_def)
  with ids show ?thesis by (simp add: Let_def del: decl_ids.simps btf_dump_emit_type_chain.simps)
qed

lemma typedef_sample:
  assumes d: "d_btf d = sample_btf" "length (d_states d) = 16" "d_names d = replicate 16 None" "d_decl_cap d = 0" "d_decl_cnt d = 0" "\<not> d_strip_mods d"
    and st: "\<And>i. i \<in> {1, 2} \<Longrightarrow> emit_state (d_states d ! i) = NOT_EMITTED \<and> \<not> name_resolved (d_states d ! i) \<and> \<not> fwd_emitted (d_states d ! i)"
  shows "\<exists>d'. btf_dump_emit_type (Suc (Suc n)) no_dups d 2 0 = Inr d'"
proof -
  let ?d1 = "set_emit 2 EMITTING d"
  let ?d2 = "set_emit 1 EMITTED (set_resolved 1 ?d1)"
  have one: "btf_dump_emit_type (Suc n) no_dups ?d1 1 2 = Inr ?d2"
    by (rule int_sample) (use d st in \<open>simp_all add: set_emit_def del: One_nat_def\<close>)
  have two: "d_btf ?d2 = sample_btf" "length (d_states ?d2) = 16" "d_names ?d2 = replicate 16 None" "d_decl_cap ?d2 = 0" "d_decl_cnt ?d2 = 0"
    "\<not> d_strip_mods ?d2" "\<not> name_resolved (d_states ?d2 ! 2)" "\<not> fwd_emitted (d_states ?d2 ! 2)"
    using d st by (simp_all add: set_emit_def set_resolved_def del: One_nat_def)
  note names = sample_names [OF two(1)]
  have "btf_dump_is_blacklisted ?d2 2 = Inr False"
    using two(1) sample_at(2) sample_words(2) names(2)
    by (simp add: btf_dump_is_blacklisted_def asc_def del: One_nat_def)
  moreover have "btf_dump_ident_name no_dups ?d2 2 = Inr (set_resolved 2 ?d2, asc ''t'')"
    unfolding btf_dump_ident_name_def
    using no_dups_name [of ?d2 2 "d_states ?d2 ! 2" "Type_At sample_types 16" 6 "asc ''t''" BTF_KIND_TYPEDEF 0 Ident_Names]
      two sample_at(2) sample_info(3) sample_words(2,4) names(2) by (simp add: arr_def del: One_nat_def)
  moreover obtain d3 where "btf_dump_emit_type_decl (Suc n) no_dups (put ''typedef '' (set_resolved 2 ?d2)) 1 (asc ''t'') 0 = Inr d3"
    using decl_sample [of "put ''typedef '' (set_resolved 2 ?d2)" n "asc ''t''"] two(1,4-6) by (auto simp: put_def out_def set_resolved_def)
  ultimately have "\<exists>x. emit_typedef (Suc n) no_dups ?d2 2 (Type_At sample_types 16) = Inr x"
    using sample_info(4)
    by (simp add: emit_typedef_def btf_dump_emit_typedef_def_def declare_top_def del: btf_dump_emit_type_decl.simps One_nat_def)
  moreover have "emit_first (btf_dump_emit_type (Suc n) no_dups) (Suc n) no_dups d 2 0 (Type_At sample_types 16) BTF_KIND_TYPEDEF =
    bindr (emit_typedef (Suc n) no_dups ?d2 2 (Type_At sample_types 16)) (\<lambda>d. Inr (set_emit 2 EMITTED d))"
    using one sample_info(4) two(8)
    by (simp add: emit_first_def btf_is_any_enum_def btf_is_mod_def del: btf_dump_emit_type.simps One_nat_def)
  ultimately show ?thesis
    unfolding btf_dump_emit_type.simps(2) [of "Suc n"]
    using d(1,2) st sample_at(2) sample_info(3) by (auto simp: arr_def simp del: btf_dump_emit_type.simps One_nat_def)
qed

lemma sample_dumped: "dumped (\<lambda>_. False) [] sample_dump"
proof -
  have "\<not> is_def sample_btf (\<lambda>_. False) 0"
    using sample_at(4) void_fields(1) by (auto simp: is_def_def kind_at_def btf_is_composite_def enum_kind_def)
  moreover have "em sample_dump i = (if i = 0 then EMITTED else NOT_EMITTED)" "\<not> fw sample_dump i" for i
    by (auto simp: em_def fw_def sample_dump_def no_state_def nth_Cons')
  moreover have "sample_dump\<lparr>d_queue_cnt := 0\<rparr> = sample_dump" "d_decls sample_dump = []" "d_btf sample_dump = sample_btf"
    by (simp_all add: sample_dump_def)
  ultimately show ?thesis using sample_ordered by (auto simp: dumped_def declared_inv_def decl_inv_def)
qed

lemma sample_dumps: "\<exists>d'. btf_dump__dump_type 2 no_dups sample_dump 2 = Inr (d', Inr ())"
proof -
  have st: "d_btf sample_dump = sample_btf" "length (d_states sample_dump) = 16" "d_states sample_dump ! 1 = no_state"
    "d_states sample_dump ! 2 = no_state" "d_queue sample_dump = []" "d_queue_cap sample_dump = 0" "d_queue_cnt sample_dump = 0"
    and rest: "d_names sample_dump = replicate 16 None" "d_decl_cap sample_dump = 0" "d_decl_cnt sample_dump = 0" "\<not> d_strip_mods sample_dump"
    by (simp_all add: sample_dump_def nth_Cons')
  let ?d1 = "set_order 1 ORDERED sample_dump"
  have one: "btf_dump_order_type (Suc 0) few sample_dump 1 False = Inr (?d1, Inr False)"
    using st sample_at(1) sample_info(1) by (simp add: no_state_def order_kind_cases del: One_nat_def)
  let ?d2 = "set_order 2 ORDERED (?d1\<lparr>d_queue := (replicate 16 0)[0 := 2], d_queue_cap := 16, d_queue_cnt := 1\<rparr>)"
  have add: "btf_dump_add_emit_queue_id few ?d1 2 =
      Inr (?d1\<lparr>d_queue := (replicate 16 0)[0 := 2], d_queue_cap := 16, d_queue_cnt := 1\<rparr>, Inr ())"
    using st by (simp add: btf_dump_add_emit_queue_id_def set_order_def few_def libbpf_reallocarray_def Let_def)
  have two: "btf_dump_order_type (Suc (Suc 0)) few sample_dump 2 False = Inr (?d2, Inr True)"
    unfolding btf_dump_order_type.simps(2) [of "Suc 0"]
    using st sample_at(2) sample_info(3,4) one add by (simp add: no_state_def order_kind_cases del: btf_dump_order_type.simps One_nat_def)
  have "sample_dump\<lparr>d_queue_cnt := 0\<rparr> = sample_dump" by (simp add: sample_dump_def)
  moreover have "btf_dump_resize no_dups sample_dump = Inr (sample_dump, None)"
    by (rule resize_nothing) (simp add: sample_dump_def sample_ok(3))
  ultimately have "dump_order 2 no_dups sample_dump 2 = Inr (?d2, Inr True)"
    using two st(1) sample_ok(3) by (simp add: dump_order_def no_dups_def numeral_2_eq_2 [symmetric] del: btf_dump_order_type.simps)
  moreover have "\<exists>d'. btf_dump_emit_type (Suc (Suc 0)) no_dups ?d2 2 0 = Inr d'"
    by (rule typedef_sample) (use st rest in \<open>auto simp: set_order_def no_state_def simp del: One_nat_def\<close>)
  moreover have "queue ?d2 = [2]" by (simp add: queue_def set_order_def numeral_eq_Suc)
  ultimately show ?thesis by (auto simp: btf_dump__dump_type_def numeral_2_eq_2 [symmetric] simp del: btf_dump_emit_type.simps)
qed


end
