(* ===== verification/Spec2Isabelle.thy ===== *)
theory Spec2Isabelle imports C_Prelude Hashmap Strset Nlattr Zip Prog_Linfo Ringbuf Ringbuf_Setup Btf Btf_Query Relo_Spec Relo_Calc Relo_Patch Tbf Kr_Malloc Btf_Visit Btf_Ext Relo_Object Relo_Run Btf_Build Btf_Grow Btf_Built Btf_Api Btf_Calls Btf_New Btf_Raw Btf_Dump Btf_Order Btf_Ordered Btf_Print Btf_Emit Btf_Emitted Btf_Declared begin

text \<open>
  The repository is a collection of C programs.  Most of them exercise single system calls; the two
  bodies of code with logic of their own are the copy of libbpf under \<open>src/bpf/libbpf/src\<close> and a few
  small libraries: the token bucket of \<open>src/signal/mytbf\<close> and \<open>src/udp_prog/libmytbf\<close>, and the storage
  allocator of \<open>src/basic/22_malloc.c\<close>.  This development models them.

  How the parts interact.  libbpf reads type information (BTF) from object files and from the kernel,
  adjusts the instructions of BPF programs to the types of the kernel (CO-RE relocation), and talks
  to the loaded programs through ring buffers; it keeps names in string sets built on a hash map,
  reads libraries out of .zip archives, and asks the kernel for network devices with netlink
  attributes.  Theories import the theories of the parts they call:

    C_Prelude      machine integers, errors, reads from byte buffers, C strings, alignment
    Hashmap        hashmap.c, hashmap.h
    Strset         strset.c, and libbpf_add_mem, libbpf_ensure_mem of btf.c; on Hashmap
    Nlattr         nlattr.c, nlattr.h
    Zip            zip.c
    Prog_Linfo     bpf_prog_linfo.c
    Ringbuf        ringbuf.c: the data path of kernel and user ring buffers
    Ringbuf_Setup  ringbuf.c: creation and release
    Btf            btf.c: btf_new with all that it calls, strings, types by number
    Btf_Visit      btf.c: visiting the references of types; the check of linker.c with them
    Btf_Ext        btf.c: .BTF.ext, walks over its records, visits; the check of linker.c
    Btf_Query      btf.c: pointer size, sizes, alignment, skipping of modifiers, search by name
    Btf_Build      btf.c: empty objects, adding strings, types and elements; on Strset
    Btf_Grow       sections of types that grow at their end
    Btf_Built      an object after one addition
    Btf_Api        types and elements that stay, and those that were added
    Btf_Calls      the calls of the interface: their arguments and what is read back
    Btf_New        sequences of calls; the properties of construction
    Btf_Raw        btf.c: writing an object out, in either byte order; reading it again
    Btf_Dump       btf_dump.c: dump objects, and the order of definitions
    Btf_Order      what C needs to be defined before a type is used; the order respects it
    Btf_Ordered    the search for the order returns; its properties
    Btf_Print      btf_dump.c: unique names, padding, printing of declarations; on Hashmap
    Btf_Emit       btf_dump.c: what is declared, and forward declarations; the calls of the interface
    Btf_Emitted    what printing leaves alone
    Btf_Declared   what is printed: each declaration once, behind all that it needs
    Relo_Spec      relo_core.c: access strings, comparison of types, matching; on Btf_Query
    Relo_Calc      relo_core.c: values of relocations, candidates; macros of bpf_core_read.h
    Relo_Patch     relo_core.c: rewriting and poisoning of instructions
    Relo_Object    libbpf.c: candidates and their cache, programs by instruction, relocation of
                   an object; on Relo_Patch, Btf_Ext and Hashmap
    Relo_Run       what the relocation of an object does to its programs
    Tbf            mytbf.c, mytbf_sigaction.c, libmytbf/mytbf.c, with the modules' constructors
    Kr_Malloc      basic/22_malloc.c, which is also system_call/malloc_method.c

  How code becomes definitions.  A function of the source is a function of the same name (with a
  suffix or a prefix where the name is taken); its loops are functions of their own, named after it.
  A structure is a record.  State is passed in and out.  A negative errno is \<open>Inl (Err e)\<close>; undefined
  behaviour (a read outside of a buffer, a NULL pointer, a division by zero, a signed overflow where
  it can happen) is \<open>Inl UB\<close>; a loop that has used up its fuel is \<open>Inl Hang\<close> or None.  So a theorem that
  a result is neither says that the code is memory-safe and that it returns.  Memory that the code
  gets from outside, the outcomes of allocations and system calls, and what the other side of a ring
  buffer does are arguments.  Numbers that can wrap around have their width (words, or a remainder
  written out); sizes of objects in memory are natural numbers.  The host is little-endian, as the
  byte order of all multi-byte reads.

  What the theorems show.

  Hashmap: the locale \<open>hash_client\<close> states what the callbacks must promise (equality is an equivalence
  on the keys in use, equal keys have equal hashes).  Under it every operation keeps the invariant
  (entries in the buckets of their hashes, the count, the capacity a power of two and not too full),
  and insert, find and delete refine a map with the four insertion strategies.  The locale is
  interpreted for keys compared as numbers and, in Strset, for offsets of strings.
  Strset: adding a string is idempotent and gives an offset that reads back as the string; equal
  offsets mean equal strings; a set made from existing data indexes all of its strings.
  Nlattr: the parser stays in its buffer and indexes the last attribute of a type; a request that
  is built is read back as the attributes added, also nested; extended error messages are safe.
  Zip: opening and searching read inside the mapping only, and in an archive laid out by the format's
  rules exactly the stored entries are found.
  Prog_Linfo: the records are divided up among the functions, and a search finds the record that
  covers an address.
  Ringbuf: the consumer delivers exactly the committed records, in order; for user ring buffers an
  invariant over all interleavings with the kernel gives that a reservation never overlaps data
  in use and that ENOSPC means a full buffer.  Ringbuf_Setup: every failure path releases what was
  acquired.
  Btf: an object accepted by \<open>btf_new\<close> has only well-formed types with valid references; reading it is
  safe.  Btf_Query: the queries are safe on such an object, and exact.
  Relo_Spec, Relo_Calc, Relo_Patch: parsing an access string is safe; matching ends; a bit field read
  with the relocated values is the field, and a write changes nothing else; candidates that disagree are
  refused; a patched instruction holds the value, and nothing else has changed.
  Btf_Visit: a visit is reading the references, running the visitor over the list of them and writing the
  results back; the linker accepts an object exactly when its references and names are valid.
  Btf_Ext: what the parser accepts can be walked over without leaving it, and on segments that are
  apart a visit is again a visit of a list.  The locale \<open>kept_walk\<close> states what a visitor must keep for a
  walk to see the same sections before and after a visit; it is interpreted for visitors that
  write outside of the headers and for visitors that only check.
  Btf_Build to Btf_Raw: an object that was built by any sequence of calls is well-formed, so that all
  queries are safe on it; a call adds what its arguments say, read back by the queries, and keeps the
  rest; a call that fails keeps all types and strings.  The bytes that are written for an object are
  parsed to the same object.
  Btf_Dump to Btf_Declared: the search for the definitions that a type needs returns when types refer to
  themselves through structures only, and puts every definition behind what it needs; printing changes
  nothing that decides about declarations.  A dump object that was just created satisfies an invariant
  that every successful call keeps: no declaration is printed twice, every structure is defined
  behind all that it needs, and what a call was asked for is defined after it.
  Relo_Object: the binary search for a program is exact; the candidates of a type are the compatible types
  of the same essence; the cache, a hash map (an interpretation of \<open>hash_client\<close>) into a store of
  lists, refines a map from types to lists.  Relo_Run: every program of a relocated object is the one
  before with its records appended and its instructions patched in the order of the records.
  Tbf: the three versions hand out no more than burst + rate * time, fetching returns when a tick
  comes, and the tables of buckets stay consistent.
  Kr_Malloc: over all sequences of requests and releases, the blocks in use and the free blocks are
  disjoint and inside the heap; a request is served exactly; released memory serves the next request.

  Fuel and bounds.  The fuel of a loop that walks a buffer is its length or a bound that follows from the
  structure's invariant, and the theorems prove that it suffices: they state a result, or safety
  of one, for every fuel above the bound.  Some recursions have no bound in the code: skipping of modifiers
  and the alignment follow cycles of types (theorem \<open>btf_align_of_cycle\<close>); there the result for
  acyclic types is proved.  The same holds for the first pass of dumping types (theorems
  \<open>btf_dump_order_type_returns\<close> and \<open>btf_dump_order_type_cycle\<close>); of the second pass it is only
  shown that what it has printed is right when it returns, because printing itself can be undefined (a
  division by an alignment of zero, a pointer into a block that was moved).  \<open>bpf_core_match_member\<close> stops
  after 64 steps into a type.  The allocator's loops go round its list, whose length is bounded by the
  \<open>2 ^ 33\<close> units that the invariant allows.

  Where the code does not do what it says, a theorem shows it on a concrete input: among others
  \<open>hashmap_grow_reverses_key_entries\<close>, \<open>split_of_split_strings\<close>, \<open>btf_align_of_cycle\<close>,
  \<open>bpf_core_parse_spec_negative\<close>, \<open>bpf_core_patch_insn_last\<close>, \<open>btf_ext_visit_overlap\<close>, \<open>vlen_overflow\<close>, \<open>tbf_udp_double_free\<close>, \<open>kr_malloc_huge\<close>.

  Not modelled.  The files of libbpf that drive libelf and the bpf system call (libbpf.c for the most part,
  linker.c but for its checks, elf.c, gen_loader.c, bpf.c, features.c) keep little state that is not the kernel's; the
  deduplication of BTF and copying types between objects, the dump of typed data (btf_dump__dump_type_data) and the
  arguments of probes (usdt.c) are not modelled.  Debugging output is left out everywhere.  Type dumps of kernels
  (vmlinux.h) and the installed copies of headers are generated.  The remaining programs read and
  write sockets, devices and files.
\<close>

end
